(* ===== verification/Prelude.thy ===== *)
theory Prelude
  imports Main "HOL-Library.Word" "HOL-Library.Monad_Syntax"
begin

text \<open>
  Shared vocabulary of the development: the machine-integer and byte types of the C++ sources,
  fixed-size C arrays with their bounds made explicit, digit strings, little-endian integers
  (the x86-64 target of the packed wire structs), and the generic list and word lemmas the
  component theories use.

  Undefined behaviour. Where the sources would read a null pointer, index outside an array or
  call a bit-scan builtin on zero, the model returns \<open>None\<close>. A theorem that an operation
  returns \<open>Some\<close> therefore says that none of these happens.
\<close>

section \<open>Types and collections\<close>

type_synonym u8 = "8 word"
type_synonym u16 = "16 word"
type_synonym u32 = "32 word"
type_synonym u64 = "64 word"
type_synonym bytes = "u8 list"

abbreviation ch :: "char \<Rightarrow> u8" where
  "ch c \<equiv> of_char c"

named_theorems arr_simps "reads and writes of fixed-size arrays"
named_theorems wire_simps "encoders and decoders of the wire structs"
named_theorems ring_simps "ring-buffer queues seen as lists"
named_theorems emit_simps "effects of the report emitters on the shard"

section \<open>Fixed-size arrays\<close>

text \<open>
  A C array \<open>T a[n]\<close> is a function on indices. Reads and writes outside \<open>[0, n)\<close> are
  undefined behaviour.
\<close>

definition arr_get :: "nat \<Rightarrow> (nat \<Rightarrow> 'a) \<Rightarrow> nat \<Rightarrow> 'a option" where
  "arr_get n a i = (if i < n then Some (a i) else None)"

definition arr_set :: "nat \<Rightarrow> (nat \<Rightarrow> 'a) \<Rightarrow> nat \<Rightarrow> 'a \<Rightarrow> (nat \<Rightarrow> 'a) option" where
  "arr_set n a i v = (if i < n then Some (a(i := v)) else None)"

lemma arr_get_in [arr_simps]: "i < n \<Longrightarrow> arr_get n a i = Some (a i)"
  by (simp add: arr_get_def)

lemma arr_set_in [arr_simps]: "i < n \<Longrightarrow> arr_set n a i v = Some (a(i := v))"
  by (simp add: arr_set_def)

text \<open>The same for a \<open>std::vector\<close>.\<close>

definition list_get :: "'a list \<Rightarrow> nat \<Rightarrow> 'a option" where
  "list_get xs i = (if i < length xs then Some (xs ! i) else None)"

lemma list_get_in [arr_simps]: "i < length xs \<Longrightarrow> list_get xs i = Some (xs ! i)"
  by (simp add: list_get_def)

lemma arr_get_eq_Some: "arr_get n a i = Some v \<longleftrightarrow> i < n \<and> v = a i"
  by (auto simp: arr_get_def)

section \<open>First and last elements with a default\<close>

fun hd_or :: "'a list \<Rightarrow> 'a option \<Rightarrow> 'a option" where
  "hd_or [] d = d"
| "hd_or (x # xs) d = Some x"

fun last_or :: "'a list \<Rightarrow> 'a option \<Rightarrow> 'a option" where
  "last_or [] d = d"
| "last_or (x # xs) d = last_or xs (Some x)"

lemma last_or_snoc [simp]: "last_or (xs @ [x]) d = Some x"
  by (induction xs arbitrary: d) auto

lemma last_or_append: "last_or (xs @ ys) d = last_or ys (last_or xs d)"
  by (induction xs arbitrary: d) auto

lemma hd_or_append: "hd_or (xs @ ys) d = hd_or xs (hd_or ys d)"
  by (cases xs) auto

lemma hd_or_None [simp]: "hd_or xs None = None \<longleftrightarrow> xs = []"
  by (cases xs) auto

lemma last_or_Some_ne [simp]: "last_or xs (Some d) \<noteq> None"
  by (induction xs arbitrary: d) auto

lemma last_or_None [simp]: "last_or xs None = None \<longleftrightarrow> xs = []"
  by (cases xs) auto

lemma hd_or_Some_mem: "hd_or xs None = Some x \<Longrightarrow> x \<in> set xs"
  by (cases xs) auto

lemma last_or_Some_cases: "last_or xs d = Some x \<Longrightarrow> x \<in> set xs \<or> (xs = [] \<and> d = Some x)"
proof (induction xs arbitrary: d)
  case Nil
  then show ?case by simp
next
  case (Cons y ys)
  then show ?case by fastforce
qed

lemma last_or_Some_mem: "last_or xs None = Some x \<Longrightarrow> x \<in> set xs"
  by (auto dest: last_or_Some_cases)

section \<open>Decimal digit strings\<close>

text \<open>
  The digit loops of \<open>decode_symbol\<close> and \<open>decode_order_token\<close>: reject a byte outside
  \<open>'0'..'9'\<close>, otherwise \<open>acc = acc * 10 + (c - '0')\<close> at the accumulator's width. The
  bytes are compared unsigned; a C \<open>char\<close> that is negative fails \<open>c < '0'\<close> where the
  unsigned byte fails \<open>c > '9'\<close>, so the same bytes are rejected.
\<close>

fun digits_loop :: "bytes \<Rightarrow> 'a::len word \<Rightarrow> 'a word option" where
  "digits_loop [] acc = Some acc"
| "digits_loop (c # cs) acc =
     (if c < 48 \<or> c > 57 then None else digits_loop cs (acc * 10 + ucast (c - 48)))"

definition is_digit :: "u8 \<Rightarrow> bool" where
  "is_digit c \<longleftrightarrow> 48 \<le> c \<and> c \<le> 57"

text \<open>The same loop on natural numbers, without a width.\<close>

fun digits_nat :: "bytes \<Rightarrow> nat \<Rightarrow> nat" where
  "digits_nat [] acc = acc"
| "digits_nat (c # cs) acc = digits_nat cs (acc * 10 + unat (c - 48))"

text \<open>The low \<open>n\<close> decimal digits of \<open>v\<close>, most significant first.\<close>

fun dec_digits :: "nat \<Rightarrow> nat \<Rightarrow> bytes" where
  "dec_digits 0 v = []"
| "dec_digits (Suc n) v = dec_digits n (v div 10) @ [48 + word_of_nat (v mod 10)]"

lemma length_dec_digits [simp]: "length (dec_digits n v) = n"
  by (induction n arbitrary: v) auto

lemma unat_digit: "d < 10 \<Longrightarrow> unat (48 + word_of_nat d :: u8) = 48 + d"
  by (simp add: unat_word_ariths unat_of_nat)

lemma is_digit_iff: "is_digit c \<longleftrightarrow> 48 \<le> unat c \<and> unat c \<le> 57"
  by (simp add: is_digit_def word_le_nat_alt)

lemma is_digit_digit: "d < 10 \<Longrightarrow> is_digit (48 + word_of_nat d)"
  by (simp add: is_digit_iff unat_digit)

lemma digit_minus: "d < 10 \<Longrightarrow> unat (48 + word_of_nat d - 48 :: u8) = d"
  by (simp add: unat_of_nat)

lemma is_digit_val: "is_digit c \<Longrightarrow> unat (c - 48) < 10"
  by (auto simp: is_digit_iff unat_sub_if' word_le_nat_alt)

lemma is_digit_exhaust: "is_digit c \<Longrightarrow> c = 48 + word_of_nat (unat (c - 48))"
  by simp

lemma dec_digits_digits: "c \<in> set (dec_digits n v) \<Longrightarrow> is_digit c"
  by (induction n arbitrary: v) (auto intro: is_digit_digit)

lemma digits_nat_append [simp]: "digits_nat (xs @ ys) a = digits_nat ys (digits_nat xs a)"
  by (induction xs arbitrary: a) auto

lemma digits_nat_dec_digits: "digits_nat (dec_digits n v) a = a * 10 ^ n + v mod 10 ^ n"
proof (induction n arbitrary: v a)
  case 0
  then show ?case by simp
next
  case (Suc n)
  have "unat (word_of_nat (v mod 10) :: u8) = v mod 10"
    by (simp add: unat_of_nat)
  then show ?case
    using Suc.IH by (simp add: mod_mult2_eq algebra_simps)
qed

lemma digits_nat_bound:
  "\<forall>c \<in> set cs. is_digit c \<Longrightarrow> digits_nat cs a < (a + 1) * 10 ^ length cs"
proof (induction cs arbitrary: a)
  case Nil
  then show ?case by simp
next
  case (Cons c cs)
  have le: "a * 10 + unat (c - 48) + 1 \<le> (a + 1) * 10"
    using Cons.prems is_digit_val [of c] by simp
  have "digits_nat cs (a * 10 + unat (c - 48)) < (a * 10 + unat (c - 48) + 1) * 10 ^ length cs"
    using Cons by simp
  also have "\<dots> \<le> ((a + 1) * 10) * 10 ^ length cs"
    using le by (rule mult_le_mono1)
  finally show ?case by (simp add: algebra_simps)
qed

lemma dec_digits_digits_nat:
  assumes "\<forall>c \<in> set cs. is_digit c"
  shows "dec_digits (length cs) (digits_nat cs a) = cs"
  using assms
proof (induction cs arbitrary: a rule: rev_induct)
  case Nil
  then show ?case by simp
next
  case (snoc c cs)
  then have "unat (c - 48) < 10"
    by (simp add: is_digit_val)
  then show ?case
    using snoc by simp
qed

lemma digits_loop_None: "digits_loop cs acc = None \<longleftrightarrow> (\<exists>c \<in> set cs. \<not> is_digit c)"
  by (induction cs arbitrary: acc) (auto simp: is_digit_def not_less not_le)

lemma unat_less: "unat (w :: 'a::len word) < 2 ^ LENGTH('a)"
  by (rule unsigned_less)

lemma ucast_of_unat: "ucast w = word_of_nat (unat w)"
  by simp

lemma unat_ucast_wide:
  fixes c :: u8
  assumes "10 < LENGTH('a::len)"
  shows "unat (ucast c :: 'a word) = unat c"
proof -
  have "unat c < 2 ^ 8" using unat_less [of c] by simp
  also have "(2::nat) ^ 8 \<le> 2 ^ LENGTH('a)" using assms by (intro power_increasing) auto
  finally show ?thesis by (simp add: unsigned_ucast_eq take_bit_nat_eq_self_iff)
qed

lemma bit_word_bound:
  assumes "unat (w :: 'a::len word) < 2 ^ k" and "bit w n"
  shows "n < k"
proof -
  have "bit (unat w) n" using assms(2) by (simp add: bit_unsigned_iff)
  moreover have "take_bit k (unat w) = unat w" using assms(1) by (rule take_bit_nat_eq_self)
  ultimately show ?thesis by (metis bit_take_bit_iff)
qed

lemma digits_loop_nat:
  fixes acc :: "'a::len word"
  assumes "\<forall>c \<in> set cs. is_digit c" and "(unat acc + 1) * 10 ^ length cs \<le> 2 ^ LENGTH('a)"
    and "10 < LENGTH('a)"
  shows "digits_loop cs acc = Some (word_of_nat (digits_nat cs (unat acc)))"
  using assms
proof (induction cs arbitrary: acc)
  case Nil
  then show ?case by simp
next
  case (Cons c cs)
  let ?d = "unat (c - 48)"
  have d: "?d < 10" using Cons.prems(1) by (simp add: is_digit_val)
  have le: "(unat acc + 1) * 10 \<le> 2 ^ LENGTH('a)"
    using Cons.prems(2) by (simp add: mult.assoc [symmetric] del: mult_Suc)
      (metis le_trans mult_le_mono2 mult.right_neutral one_le_numeral one_le_power)
  have u: "unat (ucast (c - 48) :: 'a word) = ?d"
    using Cons.prems(3) by (rule unat_ucast_wide)
  have acc': "unat (acc * 10 + ucast (c - 48)) = unat acc * 10 + ?d"
  proof -
    have "unat acc * 10 + ?d < 2 ^ LENGTH('a)" using le d by simp
    moreover have "unat (10 :: 'a word) = 10"
      using less_trans [OF Cons.prems(3) less_exp]
      by (simp add: unat_numeral take_bit_nat_eq_self_iff)
    ultimately show ?thesis
      by (simp add: unat_word_ariths u mod_less)
  qed
  have "(unat (acc * 10 + ucast (c - 48)) + 1) * 10 ^ length cs \<le> (unat acc + 1) * 10 * 10 ^ length cs"
    unfolding acc' using d by (intro mult_le_mono1) simp
  then have "(unat (acc * 10 + ucast (c - 48)) + 1) * 10 ^ length cs \<le> 2 ^ LENGTH('a)"
    using Cons.prems(2) by (simp add: algebra_simps)
  moreover have "\<not> (c < 48 \<or> c > 57)"
    using Cons.prems(1) by (simp add: is_digit_def not_less)
  ultimately show ?case
    using Cons.IH [of "acc * 10 + ucast (c - 48)"] Cons.prems acc' by simp
qed

section \<open>Little-endian integers\<close>

fun le_enc :: "nat \<Rightarrow> nat \<Rightarrow> bytes" where
  "le_enc 0 v = []"
| "le_enc (Suc n) v = word_of_nat (v mod 256) # le_enc n (v div 256)"

fun le_dec :: "bytes \<Rightarrow> nat" where
  "le_dec [] = 0"
| "le_dec (b # bs) = unat b + 256 * le_dec bs"

lemma length_le_enc [simp]: "length (le_enc n v) = n"
  by (induction n arbitrary: v) auto

lemma le_dec_enc: "v < 256 ^ n \<Longrightarrow> le_dec (le_enc n v) = v"
proof (induction n arbitrary: v)
  case 0
  then show ?case by simp
next
  case (Suc n)
  have "v div 256 < 256 ^ n"
    using Suc.prems by (simp add: less_mult_imp_div_less mult.commute)
  then show ?case using Suc.IH by (simp add: unat_of_nat)
qed

lemma le_dec_bound: "le_dec bs < 256 ^ length bs"
proof (induction bs)
  case Nil
  then show ?case by simp
next
  case (Cons b bs)
  have "unat b < 256" using unat_less [of b] by simp
  then show ?case using Cons by simp
qed

lemma le_enc_dec: "le_enc (length bs) (le_dec bs) = bs"
proof (induction bs)
  case Nil
  then show ?case by simp
next
  case (Cons b bs)
  have "unat b < 256" using unat_less [of b] by simp
  then show ?case using Cons by simp
qed

end
