(* ===== verification/Ring_Queue.thy ===== *)
theory Ring_Queue
  imports Prelude
begin

text \<open>
  The bounded FIFO queues of the system. \<open>LockFreeQueue\<close>
  (\<open>hft_engine/src/core/lock_free_queue.h\<close>) is a power-of-two ring whose producer and consumer
  each keep a cached copy of the other side's index; one slot stays free, so it holds at most
  \<open>Capacity - 1\<close> items. \<open>SPSCQueue\<close> (\<open>hft-trading-firm/src/utils/spsc_queue.h\<close>) uses
  free-running 64-bit counters and holds up to \<open>N\<close> items.

  Both are shown to implement the interface \<open>bounded_fifo\<close>, stated as a locale over a list of
  items; what the rest of the system relies on (repeated pushes, drain loops) is proved once there.
  The interleaving of a producer and a consumer thread is in theory \<open>Ring_Concurrent\<close>.
\<close>

section \<open>LockFreeQueue\<close>

record 'a lfq =
  q_capacity :: nat
  q_buffer :: "nat \<Rightarrow> 'a"
  q_head :: nat
  q_cached_tail :: nat
  q_tail :: nat
  q_cached_head :: nat

text \<open>The constructor: all indices zero; the buffer's contents are indeterminate.\<close>

definition lfq_init :: "nat \<Rightarrow> (nat \<Rightarrow> 'a) \<Rightarrow> 'a lfq" where
  "lfq_init cap buf = \<lparr> q_capacity = cap, q_buffer = buf, q_head = 0, q_cached_tail = 0,
                        q_tail = 0, q_cached_head = 0 \<rparr>"

definition ring_next :: "nat \<Rightarrow> nat \<Rightarrow> nat" where
  "ring_next cap i = and (i + 1) (cap - 1)"

definition lfq_push :: "'a lfq \<Rightarrow> 'a \<Rightarrow> bool \<times> 'a lfq" where
  "lfq_push q item =
     (let t = q_tail q;
          next_t = ring_next (q_capacity q) t;
          q1 = (if next_t = q_cached_head q then q\<lparr> q_cached_head := q_head q \<rparr> else q)
      in if next_t = q_cached_head q1 then (False, q1)
         else (True, q1\<lparr> q_buffer := (q_buffer q1)(t := item), q_tail := next_t \<rparr>))"

definition lfq_pop :: "'a lfq \<Rightarrow> 'a option \<times> 'a lfq" where
  "lfq_pop q =
     (let h = q_head q;
          q1 = (if h = q_cached_tail q then q\<lparr> q_cached_tail := q_tail q \<rparr> else q)
      in if h = q_cached_tail q1 then (None, q1)
         else (Some (q_buffer q1 h), q1\<lparr> q_head := ring_next (q_capacity q) h \<rparr>))"

definition lfq_empty :: "'a lfq \<Rightarrow> bool" where
  "lfq_empty q \<longleftrightarrow> q_head q = q_tail q"

text \<open>\<open>(t - h) & (Capacity - 1)\<close> on \<open>size_t\<close>: the subtraction wraps modulo \<open>2^64\<close>.\<close>

definition lfq_size :: "'a lfq \<Rightarrow> nat" where
  "lfq_size q = and ((q_tail q + 2 ^ 64 - q_head q) mod 2 ^ 64) (q_capacity q - 1)"

text \<open>The items in the ring, oldest first, and the number of items it can hold.\<close>

definition lfq_items :: "'a lfq \<Rightarrow> 'a list" where
  "lfq_items q = map (\<lambda>i. q_buffer q ((q_head q + i) mod q_capacity q))
     [0 ..< (q_tail q + q_capacity q - q_head q) mod q_capacity q]"

definition lfq_room :: "'a lfq \<Rightarrow> nat" where
  "lfq_room q = q_capacity q - 1"

text \<open>
  The ring invariant: the four indices are the residues of unbounded positions in the order
  cached head, head, cached tail, tail, less than one capacity apart. The cached indices only lag
  behind the indices they were loaded from.
\<close>

definition ring_rep :: "'a lfq \<Rightarrow> nat \<Rightarrow> nat \<Rightarrow> nat \<Rightarrow> nat \<Rightarrow> bool" where
  "ring_rep q CH H CT T \<longleftrightarrow>
     CH \<le> H \<and> H \<le> CT \<and> CT \<le> T \<and> T < CH + q_capacity q
     \<and> q_cached_head q = CH mod q_capacity q \<and> q_head q = H mod q_capacity q
     \<and> q_cached_tail q = CT mod q_capacity q \<and> q_tail q = T mod q_capacity q"

definition lfq_ok :: "'a lfq \<Rightarrow> bool" where
  "lfq_ok q \<longleftrightarrow> (\<exists>k \<le> 64. q_capacity q = 2 ^ k) \<and> (\<exists>CH H CT T. ring_rep q CH H CT T)"

section \<open>SPSCQueue\<close>

record 'a spscq =
  sq_N :: nat
  sq_tail :: u64
  sq_head :: u64
  sq_entries :: "nat \<Rightarrow> 'a"

definition spscq_init :: "nat \<Rightarrow> (nat \<Rightarrow> 'a) \<Rightarrow> 'a spscq" where
  "spscq_init n ents = \<lparr> sq_N = n, sq_tail = 0, sq_head = 0, sq_entries = ents \<rparr>"

definition spscq_slot :: "'a spscq \<Rightarrow> u64 \<Rightarrow> nat" where
  "spscq_slot q i = and (unat i) (sq_N q - 1)"

definition spscq_enqueue :: "'a spscq \<Rightarrow> 'a \<Rightarrow> bool \<times> 'a spscq" where
  "spscq_enqueue q item =
     (let current_tail = sq_tail q; current_head = sq_head q
      in if unat (current_tail - current_head) \<ge> sq_N q then (False, q)
         else (True, q\<lparr> sq_entries := (sq_entries q)(spscq_slot q current_tail := item),
                        sq_tail := current_tail + 1 \<rparr>))"

definition spscq_dequeue :: "'a spscq \<Rightarrow> 'a option \<times> 'a spscq" where
  "spscq_dequeue q =
     (let current_head = sq_head q; current_tail = sq_tail q
      in if current_head = current_tail then (None, q)
         else (Some (sq_entries q (spscq_slot q current_head)), q\<lparr> sq_head := current_head + 1 \<rparr>))"

definition spscq_size :: "'a spscq \<Rightarrow> nat" where
  "spscq_size q = (if sq_tail q > sq_head q then unat (sq_tail q - sq_head q) else 0)"

definition spscq_items :: "'a spscq \<Rightarrow> 'a list" where
  "spscq_items q = map (\<lambda>i. sq_entries q (spscq_slot q (sq_head q + word_of_nat i)))
     [0 ..< unat (sq_tail q - sq_head q)]"

definition spscq_ok :: "'a spscq \<Rightarrow> bool" where
  "spscq_ok q \<longleftrightarrow> (\<exists>k < 64. sq_N q = 2 ^ k) \<and> unat (sq_tail q - sq_head q) \<le> sq_N q"

section \<open>The interface\<close>

text \<open>
  The repeated push of a report stream, counting the items that did not fit, and the drain loop
  \<open>while (q.pop(x)) f(x);\<close>, both for any queue. The drain loop returns \<open>None\<close> if it never ends.
\<close>

fun push_many :: "('q \<Rightarrow> 'a \<Rightarrow> bool \<times> 'q) \<Rightarrow> 'q \<Rightarrow> 'a list \<Rightarrow> nat \<times> 'q" where
  "push_many push q [] = (0, q)"
| "push_many push q (x # xs) =
     (let (b, q1) = push q x; (d, q2) = push_many push q1 xs
      in (if b then d else Suc d, q2))"

partial_function (option) drain ::
  "('q \<Rightarrow> 'a option \<times> 'q) \<Rightarrow> ('a \<Rightarrow> 's \<Rightarrow> 's) \<Rightarrow> 'q \<Rightarrow> 's \<Rightarrow> ('q \<times> 's) option" where
  "drain pop f q s =
     (case pop q of (None, q1) \<Rightarrow> Some (q1, s) | (Some x, q1) \<Rightarrow> drain pop f q1 (f x s))"

locale bounded_fifo =
  fixes push :: "'q \<Rightarrow> 'a \<Rightarrow> bool \<times> 'q"
    and pop :: "'q \<Rightarrow> 'a option \<times> 'q"
    and items :: "'q \<Rightarrow> 'a list"
    and room :: "'q \<Rightarrow> nat"
    and ok :: "'q \<Rightarrow> bool"
  assumes push_spec: "ok q \<Longrightarrow> push q x = (b, q1) \<Longrightarrow>
      ok q1 \<and> room q1 = room q \<and> (b \<longleftrightarrow> length (items q) < room q)
      \<and> items q1 = items q @ (if b then [x] else [])"
    and pop_spec: "ok q \<Longrightarrow> pop q = (r, q1) \<Longrightarrow>
      ok q1 \<and> room q1 = room q \<and> r = hd_or (items q) None \<and> items q1 = tl (items q)"
    and items_room: "ok q \<Longrightarrow> length (items q) \<le> room q"
begin

lemma push_fits:
  assumes "ok q" and "length (items q) < room q"
  obtains q1 where "push q x = (True, q1)" "ok q1" "room q1 = room q" "items q1 = items q @ [x]"
proof -
  obtain b q1 where "push q x = (b, q1)" by (cases "push q x")
  with push_spec [OF assms(1) this] assms(2) that show thesis by auto
qed

lemma pop_empty:
  assumes "ok q" and "items q = []"
  obtains q1 where "pop q = (None, q1)" "ok q1" "room q1 = room q" "items q1 = []"
proof -
  obtain r q1 where "pop q = (r, q1)" by (cases "pop q")
  with pop_spec [OF assms(1) this] assms(2) that show thesis by auto
qed

lemma pop_cons:
  assumes "ok q" and "items q = x # xs"
  obtains q1 where "pop q = (Some x, q1)" "ok q1" "room q1 = room q" "items q1 = xs"
proof -
  obtain r q1 where "pop q = (r, q1)" by (cases "pop q")
  with pop_spec [OF assms(1) this] assms(2) that show thesis by auto
qed

lemma push_many_spec:
  assumes "ok q" and "push_many push q xs = (d, q1)"
  shows "ok q1 \<and> room q1 = room q
    \<and> items q1 = items q @ take (room q - length (items q)) xs
    \<and> d = length xs - (room q - length (items q))"
  using assms
proof (induction xs arbitrary: q d q1)
  case Nil
  then show ?case by simp
next
  case (Cons x xs)
  obtain b q' where p: "push q x = (b, q')" by (cases "push q x")
  obtain d' q'' where m: "push_many push q' xs = (d', q'')" by (cases "push_many push q' xs")
  note sp = push_spec [OF Cons.prems(1) p]
  note ih = Cons.IH [OF _ m]
  have eqs: "q1 = q''" "d = (if b then d' else Suc d')"
    using Cons.prems(2) p m by simp_all
  show ?case
  proof (cases b)
    case True
    then have "room q - length (items q) = Suc (room q - Suc (length (items q)))"
      using sp by simp
    then show ?thesis using sp ih True by (simp add: eqs)
  next
    case False
    then show ?thesis using sp ih items_room [OF Cons.prems(1)] by (simp add: eqs)
  qed
qed

lemma drain_spec:
  assumes "ok q"
  shows "\<exists>q1. drain pop f q s = Some (q1, fold f (items q) s)
           \<and> ok q1 \<and> room q1 = room q \<and> items q1 = []"
  using assms
proof (induction "items q" arbitrary: q s)
  case Nil
  then obtain q1 where "pop q = (None, q1)" "ok q1" "room q1 = room q" "items q1 = []"
    using pop_empty [OF Nil.prems, of thesis] by fastforce
  then show ?case using Nil.hyps [symmetric] by (subst drain.simps) simp
next
  case (Cons x xs)
  then obtain q1 where q1: "pop q = (Some x, q1)" "ok q1" "room q1 = room q" "items q1 = xs"
    using pop_cons [OF Cons.prems, of x xs thesis] by fastforce
  obtain q2 where "drain pop f q1 (f x s) = Some (q2, fold f (items q1) (f x s))" "ok q2"
    "room q2 = room q1" "items q2 = []"
    using Cons.hyps(1) [of q1 "f x s"] q1 by auto
  then show ?case
    using q1 Cons.hyps(2) [symmetric] by (subst drain.simps) simp
qed

end

section \<open>LockFreeQueue implements the interface\<close>

lemma and_pow2_minus_1: "and i ((2::nat) ^ k - 1) = i mod 2 ^ k"
  by (metis mask_eq_exp_minus_1 take_bit_eq_mask take_bit_eq_mod)

lemma ring_next_mod:
  assumes "cap = 2 ^ k"
  shows "ring_next cap (i mod cap) = Suc i mod cap"
  using and_pow2_minus_1 [of "Suc (i mod 2 ^ k)" k] by (simp add: ring_next_def assms mod_Suc_eq)

lemma ring_next_4: "ring_next 4 i = Suc i mod 4"
  using and_pow2_minus_1 [of "Suc i" 2] by (simp add: ring_next_def)

lemma mod_eq_window: "a \<le> b \<Longrightarrow> b < a + (n::nat) \<Longrightarrow> a mod n = b mod n \<Longrightarrow> a = b"
  by (metis add_diff_inverse_nat add_less_cancel_left mod_eq_dvd_iff_nat nat_dvd_not_less
      not_less zero_less_diff leD le_neq_implies_less)

lemma mod_eq_window_iff:
  assumes "a \<le> b" and "b \<le> a + (n::nat)" and "0 < n"
  shows "b mod n = a mod n \<longleftrightarrow> b = a \<or> b = a + n"
proof
  assume eq: "b mod n = a mod n"
  show "b = a \<or> b = a + n"
  proof (cases "b < a + n")
    case True
    then show ?thesis using mod_eq_window [OF assms(1) True] eq by simp
  next
    case False
    then show ?thesis using assms(2) by simp
  qed
qed auto

lemma ring_rep_items:
  assumes "ring_rep q CH H CT T"
  shows "lfq_items q = map (\<lambda>i. q_buffer q (i mod q_capacity q)) [H ..< T]"
    and "length (lfq_items q) = T - H"
proof -
  let ?n = "q_capacity q"
  have b: "H \<le> T" "T - H < ?n" and n: "0 < ?n" using assms by (auto simp: ring_rep_def)
  have hm: "H mod ?n < ?n" using n by simp
  have "(T mod ?n + ?n - H mod ?n) mod ?n = (T - H) mod ?n"
  proof -
    have "T mod ?n + ?n - H mod ?n = T mod ?n + (?n - H mod ?n)" using hm by simp
    also have "\<dots> mod ?n = (T + (?n - H mod ?n)) mod ?n" by (simp add: mod_add_left_eq)
    also have "T + (?n - H mod ?n) = (T - H) + (H div ?n + 1) * ?n"
    proof -
      define p where "p = H div ?n * ?n"
      have "H = p + H mod ?n" by (simp add: p_def)
      moreover have "(H div ?n + 1) * ?n = p + ?n" by (simp add: p_def)
      ultimately show ?thesis using b hm by linarith
    qed
    finally show ?thesis by (simp only: mod_mult_self1)
  qed
  then have len: "(q_tail q + ?n - q_head q) mod ?n = T - H"
    using assms b by (simp add: ring_rep_def)
  have "[H ..< T] = map (\<lambda>i. H + i) [0 ..< T - H]"
    using b map_add_upt [of H "T - H"] by (simp add: add.commute)
  then show "lfq_items q = map (\<lambda>i. q_buffer q (i mod ?n)) [H ..< T]"
    unfolding lfq_items_def len using assms by (simp add: ring_rep_def mod_add_left_eq)
  then show "length (lfq_items q) = T - H" by simp
qed

lemma ring_write_items:
  assumes "H \<le> T" and "T - H < n"
  shows "map (\<lambda>i. (b(T mod n := x)) (i mod n)) [H ..< T] = map (\<lambda>i. b (i mod n)) [H ..< T]"
proof -
  have "i mod n \<noteq> T mod n" if "H \<le> i" "i < T" for i
    using mod_eq_window [of i T n] that assms by linarith
  then show ?thesis by simp
qed

lemma lfq_push_rep:
  assumes r: "ring_rep q CH H CT T" and c: "q_capacity q = 2 ^ k" and p: "lfq_push q x = (b, q1)"
  shows "q_capacity q1 = q_capacity q"
    and "b \<longleftrightarrow> T - H < q_capacity q - 1"
    and "b \<Longrightarrow> \<exists>CH'. ring_rep q1 CH' H CT (Suc T)
           \<and> q_buffer q1 = (q_buffer q)(T mod q_capacity q := x)"
    and "\<not> b \<Longrightarrow> \<exists>CH'. ring_rep q1 CH' H CT T \<and> q_buffer q1 = q_buffer q"
proof -
  let ?n = "q_capacity q"
  have n: "0 < ?n" using c by simp
  have nx: "ring_next ?n (q_tail q) = Suc T mod ?n"
    using r ring_next_mod [OF c] by (simp add: ring_rep_def)
  have w: "CH \<le> H" "H \<le> T" "T < CH + ?n" using r by (auto simp: ring_rep_def)
  have stale: "Suc T mod ?n = CH mod ?n \<longleftrightarrow> Suc T = CH + ?n"
    using mod_eq_window_iff [of CH "Suc T" ?n] w n by simp
  have fresh: "Suc T mod ?n = H mod ?n \<longleftrightarrow> Suc T = H + ?n"
    using mod_eq_window_iff [of H "Suc T" ?n] w n by simp
  show "q_capacity q1 = ?n"
    using p by (auto simp: lfq_push_def Let_def split: if_splits)
  show "b \<longleftrightarrow> T - H < ?n - 1"
    using p r w stale fresh nx by (auto simp: lfq_push_def Let_def ring_rep_def split: if_splits)
  show "\<exists>CH'. ring_rep q1 CH' H CT (Suc T) \<and> q_buffer q1 = (q_buffer q)(T mod ?n := x)" if b
  proof (cases "Suc T = CH + ?n")
    case True
    then show ?thesis
      using that p r w stale fresh nx
      by (intro exI [of _ H]) (auto simp: lfq_push_def Let_def ring_rep_def split: if_splits)
  next
    case False
    then show ?thesis
      using that p r w stale fresh nx
      by (intro exI [of _ CH]) (auto simp: lfq_push_def Let_def ring_rep_def split: if_splits)
  qed
  show "\<exists>CH'. ring_rep q1 CH' H CT T \<and> q_buffer q1 = q_buffer q" if "\<not> b"
    using that p r w stale fresh nx
    by (intro exI [of _ H]) (auto simp: lfq_push_def Let_def ring_rep_def split: if_splits)
qed

lemma lfq_pop_rep:
  assumes r: "ring_rep q CH H CT T" and c: "q_capacity q = 2 ^ k" and p: "lfq_pop q = (v, q1)"
  shows "q_capacity q1 = q_capacity q" and "q_buffer q1 = q_buffer q"
    and "H = T \<Longrightarrow> v = None \<and> ring_rep q1 CH H T T"
    and "H < T \<Longrightarrow> v = Some (q_buffer q (H mod q_capacity q))
           \<and> (\<exists>CT'. ring_rep q1 CH (Suc H) CT' T)"
proof -
  let ?n = "q_capacity q"
  have nx: "ring_next ?n (q_head q) = Suc H mod ?n"
    using r ring_next_mod [OF c] by (simp add: ring_rep_def)
  have w: "CH \<le> H" "H \<le> CT" "CT \<le> T" "T < H + ?n" using r by (auto simp: ring_rep_def)
  have stale: "H mod ?n = CT mod ?n \<longleftrightarrow> H = CT"
    using mod_eq_window_iff [of H CT ?n] w by auto
  have fresh: "H mod ?n = T mod ?n \<longleftrightarrow> H = T"
    using mod_eq_window_iff [of H T ?n] w by auto
  show "q_capacity q1 = ?n" and "q_buffer q1 = q_buffer q"
    using p by (auto simp: lfq_pop_def Let_def split: if_splits)
  show "v = None \<and> ring_rep q1 CH H T T" if "H = T"
    using that p r w stale fresh by (auto simp: lfq_pop_def Let_def ring_rep_def split: if_splits)
  show "v = Some (q_buffer q (H mod ?n)) \<and> (\<exists>CT'. ring_rep q1 CH (Suc H) CT' T)" if "H < T"
  proof (cases "H = CT")
    case True
    then show ?thesis
      using that p r w stale fresh nx
      by (intro conjI exI [of _ T]) (auto simp: lfq_pop_def Let_def ring_rep_def split: if_splits)
  next
    case False
    then show ?thesis
      using that p r w stale fresh nx
      by (intro conjI exI [of _ CT]) (auto simp: lfq_pop_def Let_def ring_rep_def split: if_splits)
  qed
qed

lemma lfq_ok_capacity: "lfq_ok q \<Longrightarrow> 0 < q_capacity q"
  by (auto simp: lfq_ok_def)

lemma lfq_push_spec:
  assumes "lfq_ok q" and p: "lfq_push q x = (b, q1)"
  shows "lfq_ok q1 \<and> lfq_room q1 = lfq_room q \<and> (b \<longleftrightarrow> length (lfq_items q) < lfq_room q)
    \<and> lfq_items q1 = lfq_items q @ (if b then [x] else [])"
proof -
  let ?n = "q_capacity q"
  obtain k CH H CT T where k: "k \<le> 64" "?n = 2 ^ k" and r: "ring_rep q CH H CT T"
    using assms(1) by (auto simp: lfq_ok_def)
  note P = lfq_push_rep [OF r k(2) p]
  have w: "H \<le> T" "T - H < ?n" using r by (auto simp: ring_rep_def)
  show ?thesis
  proof (cases b)
    case True
    then obtain CH' where r': "ring_rep q1 CH' H CT (Suc T)"
      and buf: "q_buffer q1 = (q_buffer q)(T mod ?n := x)" using P(3) by blast
    have "lfq_items q1 = map (\<lambda>i. q_buffer q1 (i mod ?n)) [H ..< T] @ [x]"
      using ring_rep_items(1) [OF r'] w P(1) buf by simp
    then have "lfq_items q1 = lfq_items q @ [x]"
      unfolding buf ring_write_items [OF w] ring_rep_items(1) [OF r] .
    then show ?thesis
      using True k P r' ring_rep_items(2) [OF r] by (auto simp: lfq_ok_def lfq_room_def)
  next
    case False
    then obtain CH' where r': "ring_rep q1 CH' H CT T" and buf: "q_buffer q1 = q_buffer q"
      using P(4) by blast
    have "lfq_items q1 = lfq_items q"
      using ring_rep_items(1) [OF r'] ring_rep_items(1) [OF r] P(1) buf by simp
    then show ?thesis
      using False k P r' ring_rep_items(2) [OF r] by (auto simp: lfq_ok_def lfq_room_def)
  qed
qed

lemma lfq_pop_spec:
  assumes "lfq_ok q" and p: "lfq_pop q = (v, q1)"
  shows "lfq_ok q1 \<and> lfq_room q1 = lfq_room q \<and> v = hd_or (lfq_items q) None
    \<and> lfq_items q1 = tl (lfq_items q)"
proof -
  let ?n = "q_capacity q"
  obtain k CH H CT T where k: "k \<le> 64" "?n = 2 ^ k" and r: "ring_rep q CH H CT T"
    using assms(1) by (auto simp: lfq_ok_def)
  note P = lfq_pop_rep [OF r k(2) p]
  show ?thesis
  proof (cases "H = T")
    case True
    then show ?thesis
      using P k ring_rep_items(1) [OF r] ring_rep_items(1) [of q1 CH H T T]
      by (auto simp: lfq_ok_def lfq_room_def)
  next
    case False
    then have lt: "H < T" using r by (simp add: ring_rep_def)
    then obtain CT' where r': "ring_rep q1 CH (Suc H) CT' T" and v: "v = Some (q_buffer q (H mod ?n))"
      using P(4) by blast
    have "[H ..< T] = H # [Suc H ..< T]" using lt by (rule upt_conv_Cons)
    then show ?thesis
      using v k P(1,2) r' ring_rep_items(1) [OF r] ring_rep_items(1) [OF r']
      by (auto simp: lfq_ok_def lfq_room_def)
  qed
qed

lemma lfq_items_room: "lfq_ok q \<Longrightarrow> length (lfq_items q) \<le> lfq_room q"
  by (auto simp: lfq_ok_def lfq_room_def ring_rep_items(2)) (auto simp: ring_rep_def)

interpretation lfq: bounded_fifo lfq_push lfq_pop lfq_items lfq_room lfq_ok
  by unfold_locales (erule (1) lfq_push_spec, erule (1) lfq_pop_spec, erule lfq_items_room)

lemma lfq_init_ok:
  "k \<le> 64 \<Longrightarrow> lfq_ok (lfq_init (2 ^ k) buf) \<and> lfq_items (lfq_init (2 ^ k) buf) = []
     \<and> lfq_room (lfq_init (2 ^ k) buf) = 2 ^ k - 1"
  by (auto simp: lfq_ok_def ring_rep_def lfq_init_def lfq_items_def lfq_room_def
      intro!: exI [of _ 0])

lemma lfq_empty_iff: "lfq_ok q \<Longrightarrow> lfq_empty q \<longleftrightarrow> lfq_items q = []"
proof -
  assume "lfq_ok q"
  then obtain CH H CT T where r: "ring_rep q CH H CT T" by (auto simp: lfq_ok_def)
  then have w: "H \<le> T" "T < H + q_capacity q" by (auto simp: ring_rep_def)
  then have "H mod q_capacity q = T mod q_capacity q \<longleftrightarrow> H = T"
    using mod_eq_window by metis
  then show ?thesis
    using r w ring_rep_items(1) [OF r] by (auto simp: lfq_empty_def ring_rep_def)
qed

lemma lfq_size_items: "lfq_ok q \<Longrightarrow> lfq_size q = length (lfq_items q)"
proof -
  let ?n = "q_capacity q"
  assume "lfq_ok q"
  then obtain k CH H CT T where k: "k \<le> 64" "?n = 2 ^ k" and r: "ring_rep q CH H CT T"
    by (auto simp: lfq_ok_def)
  have ht: "q_head q < ?n" "q_tail q < ?n" using r k by (auto simp: ring_rep_def)
  have d: "(2::nat) ^ k dvd 2 ^ 64" using k(1) by (rule le_imp_power_dvd)
  then obtain m where m: "(2::nat) ^ 64 = 2 ^ k * m" by (auto elim: dvdE)
  then have "0 < m" by (cases m) auto
  then have "(q_tail q + 2 ^ 64 - q_head q) mod 2 ^ k = (q_tail q + 2 ^ k - q_head q + (m - 1) * 2 ^ k) mod 2 ^ k"
    using ht k m by (cases m) (simp_all add: algebra_simps)
  then have "lfq_size q = (q_tail q + ?n - q_head q) mod ?n"
    unfolding lfq_size_def k(2) and_pow2_minus_1 mod_mod_cancel [OF d] by simp
  then show ?thesis by (simp add: lfq_items_def)
qed

section \<open>SPSCQueue implements the interface\<close>

lemma spscq_slot_mod:
  assumes "sq_N q = 2 ^ k" and "k < 64"
  shows "spscq_slot q (sq_head q + word_of_nat i) = (unat (sq_head q) + i) mod sq_N q"
proof -
  have d: "(2::nat) ^ k dvd 2 ^ 64"
    using less_imp_le [OF assms(2)] by (rule le_imp_power_dvd)
  have "unat (sq_head q + word_of_nat i) = (unat (sq_head q) + i) mod 2 ^ 64"
    by (simp add: unat_word_ariths unat_of_nat mod_add_right_eq)
  then show ?thesis
    unfolding spscq_slot_def assms(1) and_pow2_minus_1 by (simp only: mod_mod_cancel [OF d])
qed

lemma spscq_tail_eq: "sq_tail q = sq_head q + word_of_nat (unat (sq_tail q - sq_head q))"
  by simp

lemma spscq_items_eq:
  assumes "sq_N q = 2 ^ k" and "k < 64"
  shows "spscq_items q = map (\<lambda>i. sq_entries q ((unat (sq_head q) + i) mod sq_N q))
     [0 ..< unat (sq_tail q - sq_head q)]"
  by (simp add: spscq_items_def spscq_slot_mod [OF assms])

lemma unat_succ_diff:
  fixes a b :: u64
  assumes "unat (a - b) < 2 ^ 64 - 1"
  shows "unat (a + 1 - b) = Suc (unat (a - b))"
proof -
  have eq: "a + 1 - b = (a - b) + 1" by simp
  have "unat (a - b + 1) = (unat (a - b) + 1) mod 2 ^ 64"
    by (simp add: unat_word_ariths(1))
  then show ?thesis unfolding eq using assms by simp
qed

lemma spscq_enqueue_spec:
  assumes "spscq_ok q" and p: "spscq_enqueue q x = (b, q1)"
  shows "spscq_ok q1 \<and> sq_N q1 = sq_N q \<and> (b \<longleftrightarrow> length (spscq_items q) < sq_N q)
    \<and> spscq_items q1 = spscq_items q @ (if b then [x] else [])"
proof -
  obtain k where k: "sq_N q = 2 ^ k" "k < 64" and le: "unat (sq_tail q - sq_head q) \<le> sq_N q"
    using assms(1) by (auto simp: spscq_ok_def)
  let ?n = "unat (sq_tail q - sq_head q)" and ?h = "unat (sq_head q)"
  have len: "length (spscq_items q) = ?n" by (simp add: spscq_items_def)
  show ?thesis
  proof (cases "?n \<ge> sq_N q")
    case True
    then show ?thesis using p assms(1) len by (simp add: spscq_enqueue_def)
  next
    case False
    have "(2::nat) ^ k \<le> 2 ^ 63" using k by (intro power_increasing) auto
    then have s: "unat (sq_tail q + 1 - sq_head q) = Suc ?n"
      using False k by (intro unat_succ_diff) simp
    have slot: "spscq_slot q (sq_tail q) = (?h + ?n) mod sq_N q"
      using spscq_slot_mod [OF k, of ?n] by simp
    have ne: "(?h + i) mod sq_N q \<noteq> (?h + ?n) mod sq_N q" if "i < ?n" for i
      using mod_eq_window [of "?h + i" "?h + ?n" "sq_N q"] that False by linarith
    have q1: "b" "q1 = q\<lparr> sq_entries := (sq_entries q)(spscq_slot q (sq_tail q) := x),
                        sq_tail := sq_tail q + 1 \<rparr>"
      using p False by (auto simp: spscq_enqueue_def Let_def)
    have "sq_N q1 = 2 ^ k" using q1(2) k by simp
    then have "spscq_items q1 = spscq_items q @ [x]"
      using ne by (simp only: spscq_items_eq [OF _ k(2)] k) (simp add: q1(2) s slot k)
    then show ?thesis using q1 False k s len by (auto simp: spscq_ok_def)
  qed
qed

lemma spscq_dequeue_spec:
  assumes "spscq_ok q" and p: "spscq_dequeue q = (v, q1)"
  shows "spscq_ok q1 \<and> sq_N q1 = sq_N q \<and> v = hd_or (spscq_items q) None
    \<and> spscq_items q1 = tl (spscq_items q)"
proof -
  obtain k where k: "sq_N q = 2 ^ k" "k < 64" and le: "unat (sq_tail q - sq_head q) \<le> sq_N q"
    using assms(1) by (auto simp: spscq_ok_def)
  let ?n = "unat (sq_tail q - sq_head q)" and ?h = "sq_head q"
  show ?thesis
  proof (cases "?h = sq_tail q")
    case True
    then show ?thesis using p assms(1) by (simp add: spscq_dequeue_def spscq_items_def)
  next
    case False
    then obtain m where m: "?n = Suc m" by (cases ?n) (auto simp: unat_eq_zero)
    have q1: "v = Some (sq_entries q (spscq_slot q ?h))" "q1 = q\<lparr> sq_head := ?h + 1 \<rparr>"
      using p False by (auto simp: spscq_dequeue_def Let_def)
    have "unat (sq_tail q - ?h - 1) = m" using m False by (subst unat_minus_one) auto
    then have m': "unat (sq_tail q - (?h + 1)) = m" by (simp add: algebra_simps)
    have n1: "unat (sq_tail q1 - sq_head q1) = m" using q1(2) m' by simp
    have sh: "spscq_slot q1 (sq_head q1 + word_of_nat i) = spscq_slot q (?h + word_of_nat (Suc i))" for i
      by (simp add: q1(2) spscq_slot_def add.assoc)
    have "spscq_items q = sq_entries q (spscq_slot q ?h) # spscq_items q1"
      unfolding spscq_items_def m n1 sh
      by (simp add: upt_conv_Cons map_Suc_upt [symmetric] q1(2) del: upt_Suc of_nat_Suc)
    then show ?thesis using q1 m m' le k by (auto simp: spscq_ok_def)
  qed
qed

lemma spscq_items_room: "spscq_ok q \<Longrightarrow> length (spscq_items q) \<le> sq_N q"
  by (simp add: spscq_items_def spscq_ok_def)

interpretation spscq: bounded_fifo spscq_enqueue spscq_dequeue spscq_items sq_N spscq_ok
  by unfold_locales (erule (1) spscq_enqueue_spec, erule (1) spscq_dequeue_spec, erule spscq_items_room)

lemma spscq_init_ok:
  "k < 64 \<Longrightarrow> spscq_ok (spscq_init (2 ^ k) ents) \<and> spscq_items (spscq_init (2 ^ k) ents) = []"
  by (auto simp: spscq_ok_def spscq_init_def spscq_items_def)

end
