(* ===== verification/Ring_Concurrent.thy ===== *)
theory Ring_Concurrent
  imports Ring_Queue
begin

text \<open>
  \<open>LockFreeQueue\<close> with one producer and one consumer thread. Each atomic load or store of the
  source is one step; the two threads' steps interleave arbitrarily (sequentially consistent
  interleaving: the release stores of \<open>head\<close> and \<open>tail\<close> and the matching acquire loads are the
  only accesses one thread makes to what the other writes). A push takes effect at its store of
  \<open>tail\<close>, a pop at its store of \<open>head\<close>. The theory shows that every run is a run of an atomic
  bounded FIFO, and that the two threads never touch the same buffer slot at the same time.
\<close>

section \<open>The two threads\<close>

datatype 'a prod_pc =
    PIdle
  | PLoaded 'a nat  \<comment> \<open>\<open>t = tail.load()\<close> done, \<open>next_t\<close> computed\<close>
  | PWrite 'a nat   \<comment> \<open>not full: about to write \<open>buffer[t]\<close>\<close>
  | PStore 'a nat   \<comment> \<open>about to store \<open>tail\<close>\<close>

datatype 'a cons_pc =
    CIdle
  | CLoaded nat
  | CRead nat
  | CStore nat 'a

record 'a spsc =
  ring :: "'a lfq"
  ppc :: "'a prod_pc"
  cpc :: "'a cons_pc"

datatype 'a event = Tau | EvPush 'a | EvPushFull 'a | EvPop 'a | EvPopEmpty

definition spsc_init :: "nat \<Rightarrow> (nat \<Rightarrow> 'a) \<Rightarrow> 'a spsc" where
  "spsc_init cap buf = \<lparr> ring = lfq_init cap buf, ppc = PIdle, cpc = CIdle \<rparr>"

abbreviation nxt :: "'a spsc \<Rightarrow> nat \<Rightarrow> nat" where
  "nxt s i \<equiv> ring_next (q_capacity (ring s)) i"

inductive spsc_step :: "'a spsc \<Rightarrow> 'a event \<Rightarrow> 'a spsc \<Rightarrow> bool" where
  push_load: "ppc s = PIdle \<Longrightarrow> spsc_step s Tau (s\<lparr> ppc := PLoaded x (q_tail (ring s)) \<rparr>)"
| push_cached: "ppc s = PLoaded x t \<Longrightarrow> nxt s t \<noteq> q_cached_head (ring s) \<Longrightarrow>
    spsc_step s Tau (s\<lparr> ppc := PWrite x t \<rparr>)"
| push_reload: "ppc s = PLoaded x t \<Longrightarrow> nxt s t = q_cached_head (ring s) \<Longrightarrow>
    nxt s t \<noteq> q_head (ring s) \<Longrightarrow>
    spsc_step s Tau (s\<lparr> ring := (ring s)\<lparr> q_cached_head := q_head (ring s) \<rparr>, ppc := PWrite x t \<rparr>)"
| push_full: "ppc s = PLoaded x t \<Longrightarrow> nxt s t = q_cached_head (ring s) \<Longrightarrow>
    nxt s t = q_head (ring s) \<Longrightarrow>
    spsc_step s (EvPushFull x)
      (s\<lparr> ring := (ring s)\<lparr> q_cached_head := q_head (ring s) \<rparr>, ppc := PIdle \<rparr>)"
| push_write: "ppc s = PWrite x t \<Longrightarrow>
    spsc_step s Tau
      (s\<lparr> ring := (ring s)\<lparr> q_buffer := (q_buffer (ring s))(t := x) \<rparr>, ppc := PStore x t \<rparr>)"
| push_store: "ppc s = PStore x t \<Longrightarrow>
    spsc_step s (EvPush x) (s\<lparr> ring := (ring s)\<lparr> q_tail := nxt s t \<rparr>, ppc := PIdle \<rparr>)"
| pop_load: "cpc s = CIdle \<Longrightarrow> spsc_step s Tau (s\<lparr> cpc := CLoaded (q_head (ring s)) \<rparr>)"
| pop_cached: "cpc s = CLoaded h \<Longrightarrow> h \<noteq> q_cached_tail (ring s) \<Longrightarrow>
    spsc_step s Tau (s\<lparr> cpc := CRead h \<rparr>)"
| pop_reload: "cpc s = CLoaded h \<Longrightarrow> h = q_cached_tail (ring s) \<Longrightarrow> h \<noteq> q_tail (ring s) \<Longrightarrow>
    spsc_step s Tau (s\<lparr> ring := (ring s)\<lparr> q_cached_tail := q_tail (ring s) \<rparr>, cpc := CRead h \<rparr>)"
| pop_none: "cpc s = CLoaded h \<Longrightarrow> h = q_cached_tail (ring s) \<Longrightarrow> h = q_tail (ring s) \<Longrightarrow>
    spsc_step s EvPopEmpty
      (s\<lparr> ring := (ring s)\<lparr> q_cached_tail := q_tail (ring s) \<rparr>, cpc := CIdle \<rparr>)"
| pop_read: "cpc s = CRead h \<Longrightarrow>
    spsc_step s Tau (s\<lparr> cpc := CStore h (q_buffer (ring s) h) \<rparr>)"
| pop_store: "cpc s = CStore h x \<Longrightarrow>
    spsc_step s (EvPop x) (s\<lparr> ring := (ring s)\<lparr> q_head := nxt s h \<rparr>, cpc := CIdle \<rparr>)"

inductive spsc_run :: "'a spsc \<Rightarrow> 'a event list \<Rightarrow> 'a spsc \<Rightarrow> bool" where
  run_nil: "spsc_run s [] s"
| run_snoc: "spsc_run s tr s1 \<Longrightarrow> spsc_step s1 e s2 \<Longrightarrow> spsc_run s (tr @ [e]) s2"

section \<open>The atomic bounded FIFO\<close>

inductive fifo_step :: "nat \<Rightarrow> 'a list \<Rightarrow> 'a event \<Rightarrow> 'a list \<Rightarrow> bool" for room where
  fifo_tau: "fifo_step room xs Tau xs"
| fifo_push: "length xs < room \<Longrightarrow> fifo_step room xs (EvPush x) (xs @ [x])"
| fifo_full: "length xs = room \<Longrightarrow> fifo_step room xs (EvPushFull x) xs"
| fifo_pop: "fifo_step room (x # xs) (EvPop x) xs"
| fifo_empty: "fifo_step room [] EvPopEmpty []"

inductive_simps fifo_step_simps [simp]:
  "fifo_step room xs Tau ys"
  "fifo_step room xs (EvPush x) ys"
  "fifo_step room xs (EvPushFull x) ys"
  "fifo_step room xs (EvPop x) ys"
  "fifo_step room xs EvPopEmpty ys"

fun fifo_run :: "nat \<Rightarrow> 'a event list \<Rightarrow> 'a list \<Rightarrow> bool" where
  "fifo_run room [] xs \<longleftrightarrow> xs = []"
| "fifo_run room (e # tr) xs \<longleftrightarrow> (\<exists>ys. fifo_run room tr ys \<and> fifo_step room ys e xs)"

text \<open>\<open>fifo_run\<close> reads a trace latest event first. The values pushed and popped, in order.\<close>

fun pushed :: "'a event list \<Rightarrow> 'a list" where
  "pushed [] = []"
| "pushed (EvPush x # tr) = x # pushed tr"
| "pushed (_ # tr) = pushed tr"

fun popped :: "'a event list \<Rightarrow> 'a list" where
  "popped [] = []"
| "popped (EvPop x # tr) = x # popped tr"
| "popped (_ # tr) = popped tr"

lemma pushed_append [simp]: "pushed (a @ b) = pushed a @ pushed b"
  by (induction a rule: pushed.induct) auto

lemma popped_append [simp]: "popped (a @ b) = popped a @ popped b"
  by (induction a rule: popped.induct) auto

section \<open>The invariant\<close>

fun prod_inv :: "'a lfq \<Rightarrow> nat \<Rightarrow> nat \<Rightarrow> 'a prod_pc \<Rightarrow> bool" where
  "prod_inv q CH T PIdle = True"
| "prod_inv q CH T (PLoaded x t) = (t = T mod q_capacity q)"
| "prod_inv q CH T (PWrite x t) = (t = T mod q_capacity q \<and> Suc T < CH + q_capacity q)"
| "prod_inv q CH T (PStore x t) =
     (t = T mod q_capacity q \<and> Suc T < CH + q_capacity q \<and> q_buffer q t = x)"

fun cons_inv :: "'a lfq \<Rightarrow> nat \<Rightarrow> nat \<Rightarrow> 'a cons_pc \<Rightarrow> bool" where
  "cons_inv q H CT CIdle = True"
| "cons_inv q H CT (CLoaded h) = (h = H mod q_capacity q)"
| "cons_inv q H CT (CRead h) = (h = H mod q_capacity q \<and> H < CT)"
| "cons_inv q H CT (CStore h x) = (h = H mod q_capacity q \<and> H < CT \<and> q_buffer q h = x)"

lemma prod_inv_frame [simp]:
  "prod_inv (q\<lparr> q_cached_head := a \<rparr>) = prod_inv q" "prod_inv (q\<lparr> q_cached_tail := a \<rparr>) = prod_inv q"
  "prod_inv (q\<lparr> q_head := a \<rparr>) = prod_inv q" "prod_inv (q\<lparr> q_tail := a \<rparr>) = prod_inv q"
  by (intro ext, rename_tac CH T p, case_tac p, simp_all)+

lemma cons_inv_frame [simp]:
  "cons_inv (q\<lparr> q_cached_head := a \<rparr>) = cons_inv q" "cons_inv (q\<lparr> q_cached_tail := a \<rparr>) = cons_inv q"
  "cons_inv (q\<lparr> q_head := a \<rparr>) = cons_inv q" "cons_inv (q\<lparr> q_tail := a \<rparr>) = cons_inv q"
  by (intro ext, rename_tac H CT p, case_tac p, simp_all)+

definition spsc_at :: "'a spsc \<Rightarrow> nat \<Rightarrow> nat \<Rightarrow> nat \<Rightarrow> nat \<Rightarrow> bool" where
  "spsc_at s CH H CT T \<longleftrightarrow> ring_rep (ring s) CH H CT T
     \<and> prod_inv (ring s) CH T (ppc s) \<and> cons_inv (ring s) H CT (cpc s)"

definition spsc_inv :: "'a spsc \<Rightarrow> bool" where
  "spsc_inv s \<longleftrightarrow> (\<exists>k \<le> 64. q_capacity (ring s) = 2 ^ k) \<and> (\<exists>CH H CT T. spsc_at s CH H CT T)"

lemma spsc_invI:
  "k \<le> 64 \<Longrightarrow> q_capacity (ring s) = 2 ^ k \<Longrightarrow> spsc_at s CH H CT T \<Longrightarrow> spsc_inv s"
  by (auto simp: spsc_inv_def)

lemma ring_rep_window:
  assumes "ring_rep q CH H CT T"
  shows "CH \<le> H" "H \<le> CT" "CT \<le> T" "T < CH + q_capacity q" "0 < q_capacity q"
  using assms by (auto simp: ring_rep_def)

lemma items_push_store:
  assumes "ring_rep q CH H CT T" and "ring_rep q1 CH' H CT' (Suc T)"
    and "q_capacity q1 = q_capacity q" and "q_buffer q1 = q_buffer q"
  shows "lfq_items q1 = lfq_items q @ [q_buffer q (T mod q_capacity q)]"
  using assms ring_rep_window [OF assms(1)]
  by (simp add: ring_rep_items(1) [OF assms(1)] ring_rep_items(1) [OF assms(2)])

lemma items_pop_store:
  assumes "ring_rep q CH H CT T" and "ring_rep q1 CH' (Suc H) CT' T" and "H < T"
    and "q_capacity q1 = q_capacity q" and "q_buffer q1 = q_buffer q"
  shows "lfq_items q = q_buffer q (H mod q_capacity q) # lfq_items q1"
  using assms
  by (simp add: ring_rep_items(1) [OF assms(1)] ring_rep_items(1) [OF assms(2)] upt_conv_Cons)

lemma items_same:
  assumes "ring_rep q CH H CT T" and "ring_rep q1 CH' H CT' T"
    and "q_capacity q1 = q_capacity q" and "q_buffer q1 = q_buffer q"
  shows "lfq_items q1 = lfq_items q"
  using assms by (simp add: ring_rep_items(1) [OF assms(1)] ring_rep_items(1) [OF assms(2)])

lemma next_tail_cases:
  assumes "ring_rep q CH H CT T" and "q_capacity q = 2 ^ k"
  shows "ring_next (q_capacity q) (T mod q_capacity q) = Suc T mod q_capacity q"
    and "Suc T mod q_capacity q = q_cached_head q \<longleftrightarrow> Suc T = CH + q_capacity q"
    and "Suc T mod q_capacity q = q_head q \<longleftrightarrow> Suc T = H + q_capacity q"
proof -
  note w = ring_rep_window [OF assms(1)]
  show "ring_next (q_capacity q) (T mod q_capacity q) = Suc T mod q_capacity q"
    using assms(2) by (rule ring_next_mod)
  show "Suc T mod q_capacity q = q_cached_head q \<longleftrightarrow> Suc T = CH + q_capacity q"
    using mod_eq_window_iff [of CH "Suc T" "q_capacity q"] w assms(1) by (simp add: ring_rep_def)
  show "Suc T mod q_capacity q = q_head q \<longleftrightarrow> Suc T = H + q_capacity q"
    using mod_eq_window_iff [of H "Suc T" "q_capacity q"] w assms(1) by (simp add: ring_rep_def)
qed

lemma head_tail_cases:
  assumes "ring_rep q CH H CT T"
  shows "H mod q_capacity q = q_cached_tail q \<longleftrightarrow> H = CT"
    and "H mod q_capacity q = q_tail q \<longleftrightarrow> H = T"
  using mod_eq_window_iff [of H CT "q_capacity q"] mod_eq_window_iff [of H T "q_capacity q"]
    ring_rep_window [OF assms] assms
  by (auto simp: ring_rep_def)

text \<open>The producer's write hits a free slot, and the slot the consumer reads is never that one.\<close>

lemma slots_apart:
  assumes "H \<le> i" and "i < T" and "T < H + n"
  shows "i mod n \<noteq> T mod (n::nat)"
  using mod_eq_window [of i T n] assms by linarith

section \<open>Every step refines a step of the atomic FIFO\<close>

lemma spsc_step_sim:
  assumes "spsc_step s e s1" and "spsc_inv s"
  shows "spsc_inv s1 \<and> lfq_room (ring s1) = lfq_room (ring s)
    \<and> fifo_step (lfq_room (ring s)) (lfq_items (ring s)) e (lfq_items (ring s1))"
proof -
  obtain k CH H CT T where k: "k \<le> 64" "q_capacity (ring s) = 2 ^ k" and a: "spsc_at s CH H CT T"
    using assms(2) by (auto simp: spsc_inv_def)
  have r: "ring_rep (ring s) CH H CT T" using a by (simp add: spsc_at_def)
  note w = ring_rep_window [OF r]
  note nt = next_tail_cases [OF r k(2)] and ht = head_tail_cases [OF r]
  show ?thesis
    using assms(1)
  proof (cases rule: spsc_step.cases)
    case (push_load x)
    then have "spsc_at s1 CH H CT T" using a by (auto simp: spsc_at_def ring_rep_def)
    then show ?thesis using push_load k by (auto intro: spsc_invI)
  next
    case (push_cached x t)
    then have "spsc_at s1 CH H CT T" using a nt w by (auto simp: spsc_at_def)
    then show ?thesis using push_cached k by (auto intro: spsc_invI)
  next
    case (push_reload x t)
    then have s1: "spsc_at s1 H H CT T" using a nt w by (auto simp: spsc_at_def ring_rep_def)
    then show ?thesis using push_reload k items_same [OF r, of "ring s1" H CT]
      by (auto intro: spsc_invI simp: spsc_at_def lfq_room_def)
  next
    case (push_full x t)
    then have s1: "spsc_at s1 H H CT T" using a nt w by (auto simp: spsc_at_def ring_rep_def)
    moreover have "Suc T = H + q_capacity (ring s)" using push_full a nt by (auto simp: spsc_at_def)
    ultimately show ?thesis
      using push_full k items_same [OF r, of "ring s1" H CT] ring_rep_items(2) [OF r]
      by (auto intro: spsc_invI simp: spsc_at_def lfq_room_def)
  next
    case (push_write x t)
    have t: "t = T mod q_capacity (ring s)" using push_write a by (auto simp: spsc_at_def)
    have ne: "i mod q_capacity (ring s) \<noteq> t" if "H \<le> i" "i < T" for i
      using slots_apart [OF that] w t by simp
    have s1: "spsc_at s1 CH H CT T"
    proof (cases "cpc s")
      case (CStore h y)
      then have "h \<noteq> t" using ne [of H] a w by (auto simp: spsc_at_def)
      then show ?thesis using push_write a CStore by (auto simp: spsc_at_def ring_rep_def)
    qed (use push_write a in \<open>auto simp: spsc_at_def ring_rep_def\<close>)
    then have "lfq_items (ring s1) = lfq_items (ring s)"
      using ring_rep_items(1) [OF r] ring_rep_items(1) [of "ring s1" CH H CT T] ne push_write
      by (auto simp: spsc_at_def)
    then show ?thesis using push_write k s1 by (auto intro: spsc_invI simp: lfq_room_def)
  next
    case (push_store x t)
    have p: "t = T mod q_capacity (ring s)" "Suc T < CH + q_capacity (ring s)" "q_buffer (ring s) t = x"
      using push_store a by (auto simp: spsc_at_def)
    then have s1: "spsc_at s1 CH H CT (Suc T)"
      using push_store a nt w by (cases "cpc s") (auto simp: spsc_at_def ring_rep_def)
    then have "lfq_items (ring s1) = lfq_items (ring s) @ [x]"
      using items_push_store [OF r, of "ring s1" CH CT] p push_store by (auto simp: spsc_at_def)
    then show ?thesis
      using push_store k s1 p w ring_rep_items(2) [OF r] by (auto intro: spsc_invI simp: lfq_room_def)
  next
    case pop_load
    then have "spsc_at s1 CH H CT T" using a by (auto simp: spsc_at_def ring_rep_def)
    then show ?thesis using pop_load k by (auto intro: spsc_invI)
  next
    case (pop_cached h)
    then have "spsc_at s1 CH H CT T" using a ht w by (auto simp: spsc_at_def)
    then show ?thesis using pop_cached k by (auto intro: spsc_invI)
  next
    case (pop_reload h)
    then have s1: "spsc_at s1 CH H T T" using a ht w by (auto simp: spsc_at_def ring_rep_def)
    then show ?thesis using pop_reload k items_same [OF r, of "ring s1" CH T]
      by (auto intro: spsc_invI simp: spsc_at_def lfq_room_def)
  next
    case (pop_none h)
    then have s1: "spsc_at s1 CH H T T" using a ht w by (auto simp: spsc_at_def ring_rep_def)
    moreover have "H = T" using pop_none a ht by (auto simp: spsc_at_def)
    ultimately show ?thesis
      using pop_none k items_same [OF r, of "ring s1" CH T] ring_rep_items(1) [OF r]
      by (auto intro: spsc_invI simp: spsc_at_def lfq_room_def)
  next
    case (pop_read h)
    then have "spsc_at s1 CH H CT T" using a by (auto simp: spsc_at_def)
    then show ?thesis using pop_read k by (auto intro: spsc_invI)
  next
    case (pop_store h x)
    have p: "h = H mod q_capacity (ring s)" "H < CT" "q_buffer (ring s) h = x"
      using pop_store a by (auto simp: spsc_at_def)
    then have s1: "spsc_at s1 CH (Suc H) CT T"
      using pop_store a w ring_next_mod [OF k(2)]
      by (cases "ppc s") (auto simp: spsc_at_def ring_rep_def)
    then have "lfq_items (ring s) = x # lfq_items (ring s1)"
      using items_pop_store [OF r, of "ring s1" CH CT] p pop_store w by (auto simp: spsc_at_def)
    then show ?thesis using pop_store k s1 by (auto intro: spsc_invI simp: lfq_room_def)
  qed
qed

lemma spsc_init_inv:
  "k \<le> 64 \<Longrightarrow> spsc_inv (spsc_init (2 ^ k) buf) \<and> lfq_items (ring (spsc_init (2 ^ k) buf)) = []
     \<and> lfq_room (ring (spsc_init (2 ^ k) buf)) = 2 ^ k - 1"
  by (auto simp: spsc_inv_def spsc_at_def spsc_init_def lfq_init_def ring_rep_def lfq_items_def
      lfq_room_def intro!: exI [of _ 0])

lemma spsc_run_sim:
  assumes "spsc_run s tr s1" and "spsc_inv s" and "lfq_items (ring s) = []"
  shows "spsc_inv s1 \<and> lfq_room (ring s1) = lfq_room (ring s)
    \<and> fifo_run (lfq_room (ring s)) (rev tr) (lfq_items (ring s1))"
  using assms
proof (induction rule: spsc_run.induct)
  case (run_nil s)
  then show ?case by simp
next
  case (run_snoc s tr s1 e s2)
  then show ?case using spsc_step_sim [of s1 e s2] by auto
qed

lemma fifo_run_order:
  "fifo_run room tr xs \<Longrightarrow> pushed (rev tr) = popped (rev tr) @ xs \<and> length xs \<le> room"
proof (induction tr arbitrary: xs)
  case Nil
  then show ?case by simp
next
  case (Cons e tr)
  then obtain ys where "fifo_run room tr ys" "fifo_step room ys e xs" by auto
  with Cons.IH [of ys] show ?case by (cases e) auto
qed

lemma spsc_inv_no_race:
  assumes "spsc_inv s" and "ppc s = PWrite x t" and "cpc s = CRead h"
  shows "t \<noteq> h"
proof -
  obtain CH H CT T where a: "spsc_at s CH H CT T" using assms(1) by (auto simp: spsc_inv_def)
  then have "ring_rep (ring s) CH H CT T" by (simp add: spsc_at_def)
  note w = ring_rep_window [OF this]
  show ?thesis using slots_apart [of H H T "q_capacity (ring s)"] a assms w by (auto simp: spsc_at_def)
qed

section \<open>A thread that runs alone performs the sequential operation\<close>

lemma spsc_run_append: "spsc_run s2 tr2 s3 \<Longrightarrow> spsc_run s1 tr1 s2 \<Longrightarrow> spsc_run s1 (tr1 @ tr2) s3"
proof (induction rule: spsc_run.induct)
  case (run_nil s)
  then show ?case by simp
next
  case (run_snoc s tr sa e sb)
  then show ?case using spsc_run.run_snoc [of s1 "tr1 @ tr" sa e sb] by simp
qed

lemma spsc_run_Cons: "spsc_step s e s1 \<Longrightarrow> spsc_run s1 tr s2 \<Longrightarrow> spsc_run s (e # tr) s2"
  using spsc_run_append [of s1 tr s2 s "[e]"] run_snoc [OF run_nil] by fastforce

lemma lfq_push_run:
  assumes "lfq_push q x = (True, q1)"
  shows "spsc_run \<lparr> ring = q, ppc = PIdle, cpc = c \<rparr> [Tau, Tau, Tau, EvPush x]
           \<lparr> ring = q1, ppc = PIdle, cpc = c \<rparr>"
proof -
  let ?s = "\<lambda>q p. \<lparr> ring = q, ppc = p, cpc = c \<rparr>"
  let ?t = "q_tail q" and ?n = "ring_next (q_capacity q) (q_tail q)"
  define qc where "qc = (if ?n = q_cached_head q then q\<lparr> q_cached_head := q_head q \<rparr> else q)"
  define qw where "qw = qc\<lparr> q_buffer := (q_buffer qc)(?t := x) \<rparr>"
  have cap: "q_capacity qw = q_capacity q" by (simp add: qw_def qc_def)
  have q1: "q1 = qw\<lparr> q_tail := ?n \<rparr>" and ne: "?n \<noteq> q_cached_head qc"
    using assms by (auto simp: qw_def qc_def lfq_push_def Let_def split: if_splits)
  have "spsc_step (?s q PIdle) Tau (?s q (PLoaded x ?t))"
    using push_load [of "?s q PIdle" x] by simp
  moreover have "spsc_step (?s q (PLoaded x ?t)) Tau (?s qc (PWrite x ?t))"
    using push_cached [of "?s q (PLoaded x ?t)"] push_reload [of "?s q (PLoaded x ?t)"] ne
    by (auto simp: qc_def split: if_splits)
  moreover have "spsc_step (?s qc (PWrite x ?t)) Tau (?s qw (PStore x ?t))"
    using push_write [of "?s qc (PWrite x ?t)"] by (simp add: qw_def)
  moreover have "spsc_step (?s qw (PStore x ?t)) (EvPush x) (?s q1 PIdle)"
    using push_store [of "?s qw (PStore x ?t)"] by (simp add: q1 cap)
  ultimately show ?thesis by (blast intro: spsc_run_Cons run_nil)
qed

lemma lfq_pop_run:
  assumes "lfq_pop q = (Some x, q1)"
  shows "spsc_run \<lparr> ring = q, ppc = p, cpc = CIdle \<rparr> [Tau, Tau, Tau, EvPop x]
           \<lparr> ring = q1, ppc = p, cpc = CIdle \<rparr>"
proof -
  let ?s = "\<lambda>q c. \<lparr> ring = q, ppc = p, cpc = c \<rparr>"
  let ?h = "q_head q"
  define qc where "qc = (if ?h = q_cached_tail q then q\<lparr> q_cached_tail := q_tail q \<rparr> else q)"
  have f: "q_capacity qc = q_capacity q" "q_buffer qc = q_buffer q" by (simp_all add: qc_def)
  have q1: "q1 = qc\<lparr> q_head := ring_next (q_capacity q) ?h \<rparr>" "x = q_buffer q ?h"
    and ne: "?h \<noteq> q_cached_tail qc"
    using assms by (auto simp: qc_def lfq_pop_def Let_def split: if_splits)
  have "spsc_step (?s q CIdle) Tau (?s q (CLoaded ?h))"
    using pop_load [of "?s q CIdle"] by simp
  moreover have "spsc_step (?s q (CLoaded ?h)) Tau (?s qc (CRead ?h))"
    using pop_cached [of "?s q (CLoaded ?h)"] pop_reload [of "?s q (CLoaded ?h)"] ne
    by (auto simp: qc_def split: if_splits)
  moreover have "spsc_step (?s qc (CRead ?h)) Tau (?s qc (CStore ?h x))"
    using pop_read [of "?s qc (CRead ?h)"] q1(2) f by simp
  moreover have "spsc_step (?s qc (CStore ?h x)) (EvPop x) (?s q1 CIdle)"
    using pop_store [of "?s qc (CStore ?h x)"] f by (simp add: q1(1))
  ultimately show ?thesis by (blast intro: spsc_run_Cons run_nil)
qed

section \<open>Properties\<close>

text \<open>
  C15. \<open>LockFreeQueue\<close> is a linearizable bounded FIFO: in every interleaving of one producer's
  and one consumer's loads and stores, from an empty queue, the push and pop events in the order
  of their \<open>tail\<close> and \<open>head\<close> stores are a run of an atomic queue of \<open>Capacity - 1\<close> places
  (a push reported full found the queue full, a pop reported empty found it empty), the values
  popped are, in order, a prefix of the values pushed, and the rest is in the ring.
\<close>

theorem spsc_linearizable:
  assumes "k \<le> 64" and "spsc_run (spsc_init (2 ^ k) buf) tr s"
  shows "fifo_run (2 ^ k - 1) (rev tr) (lfq_items (ring s))
    \<and> pushed tr = popped tr @ lfq_items (ring s)"
proof -
  have "fifo_run (2 ^ k - 1) (rev tr) (lfq_items (ring s))"
    using spsc_run_sim [OF assms(2)] spsc_init_inv [OF assms(1), of buf] by auto
  then show ?thesis using fifo_run_order [of _ "rev tr"] by auto
qed

theorem spsc_linearizable_witness:
  "fifo_run 3 (rev [Tau, Tau, Tau, EvPush 7]) (lfq_items (snd (lfq_push (lfq_init 4 (\<lambda>_. 0 :: nat)) 7)))"
proof -
  define q1 where "q1 = snd (lfq_push (lfq_init 4 (\<lambda>_. 0 :: nat)) 7)"
  have "lfq_push (lfq_init 4 (\<lambda>_. 0 :: nat)) 7 = (True, q1)"
    by (simp add: q1_def lfq_push_def lfq_init_def ring_next_4)
  from lfq_push_run [OF this, of CIdle]
  have run: "spsc_run (spsc_init (2 ^ 2) (\<lambda>_. 0 :: nat)) [Tau, Tau, Tau, EvPush 7]
    \<lparr> ring = q1, ppc = PIdle, cpc = CIdle \<rparr>"
    by (simp add: spsc_init_def)
  have "fifo_run (2 ^ 2 - 1) (rev [Tau, Tau, Tau, EvPush 7])
      (lfq_items (ring \<lparr> ring = q1, ppc = PIdle, cpc = CIdle \<rparr>))"
    by (rule conjunct1 [OF spsc_linearizable [OF _ run]]) simp
  moreover have "(2::nat) ^ 2 - 1 = 3" by simp
  ultimately show ?thesis by (simp only: spsc.select_convs q1_def)
qed

text \<open>
  C16. The non-atomic accesses to the ring's buffer are race free: in every reachable state in
  which the producer is about to write a slot and the consumer about to read one, the slots differ.
\<close>

theorem spsc_race_free:
  assumes "k \<le> 64" and "spsc_run (spsc_init (2 ^ k) buf) tr s"
    and "ppc s = PWrite x t" and "cpc s = CRead h"
  shows "t \<noteq> h"
  using spsc_run_sim [OF assms(2)] spsc_init_inv [OF assms(1), of buf] spsc_inv_no_race [OF _ assms(3,4)]
  by blast

theorem spsc_race_free_witness:
  "\<exists>tr s. spsc_run (spsc_init 4 (\<lambda>_. 0 :: nat)) tr s \<and> ppc s = PWrite 8 1 \<and> cpc s = CRead 0
     \<and> (1::nat) \<noteq> 0"
proof -
  define q1 where "q1 = snd (lfq_push (lfq_init 4 (\<lambda>_. 0 :: nat)) 7)"
  define q2 where "q2 = q1\<lparr> q_cached_tail := q_tail q1 \<rparr>"
  let ?s = "\<lambda>q p c. \<lparr> ring = q, ppc = p, cpc = c \<rparr>"
  have push: "lfq_push (lfq_init 4 (\<lambda>_. 0 :: nat)) 7 = (True, q1)"
    by (simp add: q1_def lfq_push_def lfq_init_def ring_next_4)
  have f: "q_tail q1 = 1" "q_cached_head q1 = 0" "q_head q1 = 0" "q_cached_tail q1 = 0" "q_capacity q1 = 4"
    by (simp_all add: q1_def lfq_push_def lfq_init_def ring_next_4)
  have "spsc_step (?s q1 PIdle CIdle) Tau (?s q1 (PLoaded 8 1) CIdle)"
    using push_load [of "?s q1 PIdle CIdle" 8] f by simp
  moreover have "spsc_step (?s q1 (PLoaded 8 1) CIdle) Tau (?s q1 (PWrite 8 1) CIdle)"
    using push_cached [of "?s q1 (PLoaded 8 1) CIdle" 8 1] f by (simp add: ring_next_4)
  moreover have "spsc_step (?s q1 (PWrite 8 1) CIdle) Tau (?s q1 (PWrite 8 1) (CLoaded 0))"
    using pop_load [of "?s q1 (PWrite 8 1) CIdle"] f by simp
  moreover have "spsc_step (?s q1 (PWrite 8 1) (CLoaded 0)) Tau (?s q2 (PWrite 8 1) (CRead 0))"
    using pop_reload [of "?s q1 (PWrite 8 1) (CLoaded 0)" 0] f by (simp add: q2_def)
  ultimately have "spsc_run (?s q1 PIdle CIdle) [Tau, Tau, Tau, Tau] (?s q2 (PWrite 8 1) (CRead 0))"
    by (blast intro: spsc_run_Cons run_nil)
  from spsc_run_append [OF this lfq_push_run [OF push]]
  have run: "spsc_run (spsc_init 4 (\<lambda>_. 0 :: nat)) ([Tau, Tau, Tau, EvPush 7] @ [Tau, Tau, Tau, Tau])
     (?s q2 (PWrite 8 1) (CRead 0))"
    by (simp add: spsc_init_def)
  then have "(1::nat) \<noteq> 0"
    using spsc_race_free [of 2 "\<lambda>_. 0 :: nat" _ "?s q2 (PWrite 8 1) (CRead 0)" 8 1 0] by simp
  with run show ?thesis by (intro exI [of _ "?s q2 (PWrite 8 1) (CRead 0)"] exI conjI) auto
qed

end
