(* ===== verification/Wire.thy ===== *)
theory Wire
  imports Prelude
begin

text \<open>
  The wire protocol, \<open>hft_engine/src/protocol/messages.h\<close>: the canonical symbol and order
  token encodings, the packed OUCH and ITCH structs and their byte layout (little endian, no
  padding). The lemmas show that the encoders and decoders are inverse to each other, that every
  value a decoder accepts has exactly one encoding, and that the struct sizes are the ones the
  header's \<open>static_assert\<close>s state.
\<close>

section \<open>Enumerations and constants\<close>

datatype Side = BUY | SELL
datatype MsgType = MSG_NEW | MSG_CANCEL
datatype ReportType = FILL | REPORT_CANCEL | ADD | REJECT

definition PROTOCOL_VERSION :: u32 where
  "PROTOCOL_VERSION = 1"

definition MAX_INSTRUMENTS :: nat where
  "MAX_INSTRUMENTS = 256"

definition INVALID_INSTRUMENT :: u16 where
  "INVALID_INSTRUMENT = 0xFFFF"

definition INVALID_ORDER_TOKEN :: u64 where
  "INVALID_ORDER_TOKEN = 0xFFFFFFFFFFFFFFFF"

section \<open>Symbols and order tokens\<close>

definition decode_symbol :: "bytes \<Rightarrow> u16" where
  "decode_symbol stock =
     (if stock ! 0 \<noteq> ch CHR ''S'' \<or> stock ! 1 \<noteq> ch CHR ''T'' \<or> stock ! 2 \<noteq> ch CHR ''K''
      then INVALID_INSTRUMENT
      else case digits_loop (take 5 (drop 3 stock)) (0 :: u32) of
             None \<Rightarrow> INVALID_INSTRUMENT
           | Some i \<Rightarrow> if unat i \<ge> MAX_INSTRUMENTS then INVALID_INSTRUMENT else ucast i)"

definition decode_order_token :: "bytes \<Rightarrow> u64" where
  "decode_order_token token =
     (case digits_loop (take 14 token) (0 :: u64) of
        None \<Rightarrow> INVALID_ORDER_TOKEN
      | Some value \<Rightarrow> value)"

text \<open>The loop of \<open>encode_order_token\<close>: from index 13 down to 0, \<open>value % 10\<close> and
  \<open>value /= 10\<close>; the accumulator holds the digits already written to the right.\<close>

fun encode_token_loop :: "nat \<Rightarrow> u64 \<Rightarrow> bytes \<Rightarrow> bytes" where
  "encode_token_loop 0 value acc = acc"
| "encode_token_loop (Suc i) value acc =
     encode_token_loop i (value div 10) ((48 + ucast (value mod 10)) # acc)"

definition encode_order_token :: "u64 \<Rightarrow> bytes" where
  "encode_order_token value = encode_token_loop 14 value []"

definition encode_symbol :: "u16 \<Rightarrow> bytes" where
  "encode_symbol inst =
     [ch CHR ''S'', ch CHR ''T'', ch CHR ''K'',
      48 + ucast ((inst div 10000) mod 10),
      48 + ucast ((inst div 1000) mod 10),
      48 + ucast ((inst div 100) mod 10),
      48 + ucast ((inst div 10) mod 10),
      48 + ucast (inst mod 10)]"

section \<open>Packed structs\<close>

record OuchEnterOrder =
  eo_msg_type :: u8
  eo_order_token :: bytes
  eo_side :: u8
  eo_shares :: u32
  eo_stock :: bytes
  eo_price :: u32
  eo_time_in_force :: u32
  eo_firm :: bytes
  eo_display :: u8
  eo_capacity :: u8
  eo_iso_eligibility :: u8
  eo_min_quantity :: u32
  eo_cross_type :: u8
  eo_customer_type :: u8
  eo_t1_exchange_send :: u64
  eo_t2_trading_recv :: u64
  eo_t3_trading_enq :: u64
  eo_t4_network_deq :: u64

record OuchCancelOrder =
  co_msg_type :: u8
  co_order_token :: bytes
  co_shares :: u32

record OuchExecutionReport =
  er_msg_type :: u8
  er_order_token :: bytes
  er_executed_shares :: u32
  er_execution_price :: u32
  er_liquidity_flag :: u8
  er_match_number :: bytes

record ItchMessage =
  it_msg_type :: u8
  it_stock_locate :: u16
  it_tracking_number :: u16
  it_timestamp :: u64
  it_internal_id :: u64
  it_shares :: u32
  it_price :: u64
  it_side :: u8

definition sizeof_OuchEnterOrder :: nat where "sizeof_OuchEnterOrder = 81"
definition sizeof_OuchCancelOrder :: nat where "sizeof_OuchCancelOrder = 19"
definition sizeof_OuchExecutionReport :: nat where "sizeof_OuchExecutionReport = 32"
definition sizeof_ItchMessage :: nat where "sizeof_ItchMessage = 34"

text \<open>The object representation of a struct: its fields in order, with no padding.\<close>

definition w16 :: "u16 \<Rightarrow> bytes" where "w16 x = le_enc 2 (unat x)"
definition w32 :: "u32 \<Rightarrow> bytes" where "w32 x = le_enc 4 (unat x)"
definition w64 :: "u64 \<Rightarrow> bytes" where "w64 x = le_enc 8 (unat x)"

definition r16 :: "nat \<Rightarrow> bytes \<Rightarrow> u16" where "r16 off b = word_of_nat (le_dec (take 2 (drop off b)))"
definition r32 :: "nat \<Rightarrow> bytes \<Rightarrow> u32" where "r32 off b = word_of_nat (le_dec (take 4 (drop off b)))"
definition r64 :: "nat \<Rightarrow> bytes \<Rightarrow> u64" where "r64 off b = word_of_nat (le_dec (take 8 (drop off b)))"
definition rchars :: "nat \<Rightarrow> nat \<Rightarrow> bytes \<Rightarrow> bytes" where "rchars off n b = take n (drop off b)"

definition enc_enter_order :: "OuchEnterOrder \<Rightarrow> bytes" where
  "enc_enter_order r =
     [eo_msg_type r] @ eo_order_token r @ [eo_side r] @ w32 (eo_shares r) @ eo_stock r
     @ w32 (eo_price r) @ w32 (eo_time_in_force r) @ eo_firm r
     @ [eo_display r, eo_capacity r, eo_iso_eligibility r] @ w32 (eo_min_quantity r)
     @ [eo_cross_type r, eo_customer_type r]
     @ w64 (eo_t1_exchange_send r) @ w64 (eo_t2_trading_recv r)
     @ w64 (eo_t3_trading_enq r) @ w64 (eo_t4_network_deq r)"

definition dec_enter_order :: "bytes \<Rightarrow> OuchEnterOrder" where
  "dec_enter_order b =
     \<lparr> eo_msg_type = b ! 0, eo_order_token = rchars 1 14 b, eo_side = b ! 15,
       eo_shares = r32 16 b, eo_stock = rchars 20 8 b, eo_price = r32 28 b,
       eo_time_in_force = r32 32 b, eo_firm = rchars 36 4 b, eo_display = b ! 40,
       eo_capacity = b ! 41, eo_iso_eligibility = b ! 42, eo_min_quantity = r32 43 b,
       eo_cross_type = b ! 47, eo_customer_type = b ! 48,
       eo_t1_exchange_send = r64 49 b, eo_t2_trading_recv = r64 57 b,
       eo_t3_trading_enq = r64 65 b, eo_t4_network_deq = r64 73 b \<rparr>"

definition enc_cancel_order :: "OuchCancelOrder \<Rightarrow> bytes" where
  "enc_cancel_order r = [co_msg_type r] @ co_order_token r @ w32 (co_shares r)"

definition dec_cancel_order :: "bytes \<Rightarrow> OuchCancelOrder" where
  "dec_cancel_order b =
     \<lparr> co_msg_type = b ! 0, co_order_token = rchars 1 14 b, co_shares = r32 15 b \<rparr>"

definition enc_execution_report :: "OuchExecutionReport \<Rightarrow> bytes" where
  "enc_execution_report r =
     [er_msg_type r] @ er_order_token r @ w32 (er_executed_shares r) @ w32 (er_execution_price r)
     @ [er_liquidity_flag r] @ er_match_number r"

definition dec_execution_report :: "bytes \<Rightarrow> OuchExecutionReport" where
  "dec_execution_report b =
     \<lparr> er_msg_type = b ! 0, er_order_token = rchars 1 14 b, er_executed_shares = r32 15 b,
       er_execution_price = r32 19 b, er_liquidity_flag = b ! 23, er_match_number = rchars 24 8 b \<rparr>"

definition enc_itch :: "ItchMessage \<Rightarrow> bytes" where
  "enc_itch m =
     [it_msg_type m] @ w16 (it_stock_locate m) @ w16 (it_tracking_number m)
     @ w64 (it_timestamp m) @ w64 (it_internal_id m) @ w32 (it_shares m) @ w64 (it_price m)
     @ [it_side m]"

definition dec_itch :: "bytes \<Rightarrow> ItchMessage" where
  "dec_itch b =
     \<lparr> it_msg_type = b ! 0, it_stock_locate = r16 1 b, it_tracking_number = r16 3 b,
       it_timestamp = r64 5 b, it_internal_id = r64 13 b, it_shares = r32 21 b,
       it_price = r64 25 b, it_side = b ! 33 \<rparr>"

text \<open>The \<open>char[n]\<close> fields of the structs have their declared lengths.\<close>

definition wf_enter_order :: "OuchEnterOrder \<Rightarrow> bool" where
  "wf_enter_order r \<longleftrightarrow> length (eo_order_token r) = 14 \<and> length (eo_stock r) = 8
     \<and> length (eo_firm r) = 4"

definition wf_cancel_order :: "OuchCancelOrder \<Rightarrow> bool" where
  "wf_cancel_order r \<longleftrightarrow> length (co_order_token r) = 14"

definition wf_execution_report :: "OuchExecutionReport \<Rightarrow> bool" where
  "wf_execution_report r \<longleftrightarrow> length (er_order_token r) = 14 \<and> length (er_match_number r) = 8"

section \<open>Tokens: the decoder and the encoder are inverse\<close>

lemma encode_token_loop_dec_digits:
  "encode_token_loop n v acc = dec_digits n (unat v) @ acc"
proof (induction n arbitrary: v acc)
  case 0
  then show ?case by simp
next
  case (Suc n)
  have "unat (v mod 10) < 10"
    by (simp add: unat_mod)
  then have "(ucast (v mod 10) :: u8) = word_of_nat (unat v mod 10)"
    by (simp add: unat_mod ucast_of_unat del: of_nat_unat)
  then show ?case using Suc.IH by (simp add: unat_div)
qed

lemma encode_order_token_eq: "encode_order_token v = dec_digits 14 (unat v)"
  by (simp add: encode_order_token_def encode_token_loop_dec_digits)

lemma length_encode_order_token [simp]: "length (encode_order_token v) = 14"
  by (simp add: encode_order_token_eq)

lemma decode_order_token_digits:
  assumes "length tok = 14" and "\<forall>c \<in> set tok. is_digit c"
  shows "unat (decode_order_token tok) = digits_nat tok 0"
    and "decode_order_token tok = word_of_nat (digits_nat tok 0)"
proof -
  have "digits_loop tok (0 :: u64) = Some (word_of_nat (digits_nat tok 0))"
    using digits_loop_nat [of tok "0 :: u64"] assms by simp
  then show eq: "decode_order_token tok = word_of_nat (digits_nat tok 0)"
    using assms by (simp add: decode_order_token_def)
  have "digits_nat tok 0 < 10 ^ 14"
    using digits_nat_bound [of tok 0] assms by simp
  then show "unat (decode_order_token tok) = digits_nat tok 0"
    by (simp add: eq unat_of_nat)
qed

lemma decode_order_token_reject:
  assumes "length tok = 14" and "\<not> (\<forall>c \<in> set tok. is_digit c)"
  shows "decode_order_token tok = INVALID_ORDER_TOKEN"
proof -
  have "digits_loop tok (0 :: u64) = None"
    using assms by (simp add: digits_loop_None)
  then show ?thesis using assms by (simp add: decode_order_token_def)
qed

lemma decode_order_token_valid_iff:
  assumes "length tok = 14"
  shows "(\<forall>c \<in> set tok. is_digit c) \<longleftrightarrow> unat (decode_order_token tok) < 10 ^ 14"
proof
  assume d: "\<forall>c \<in> set tok. is_digit c"
  show "unat (decode_order_token tok) < 10 ^ 14"
    using digits_nat_bound [OF d, of 0] decode_order_token_digits(1) [OF assms d] assms by simp
next
  assume "unat (decode_order_token tok) < 10 ^ 14"
  then show "\<forall>c \<in> set tok. is_digit c"
    using decode_order_token_reject [OF assms] by (cases "\<forall>c \<in> set tok. is_digit c") (simp_all add: INVALID_ORDER_TOKEN_def)
qed

lemma token_encode_decode:
  assumes "length tok = 14" and "unat (decode_order_token tok) < 10 ^ 14"
  shows "encode_order_token (decode_order_token tok) = tok"
proof -
  have d: "\<forall>c \<in> set tok. is_digit c"
    using assms decode_order_token_valid_iff by blast
  show ?thesis
    using dec_digits_digits_nat [OF d, of 0] assms(1)
    by (simp add: encode_order_token_eq decode_order_token_digits(1) [OF assms(1) d])
qed

lemma token_decode_encode_mod:
  "unat (decode_order_token (encode_order_token v)) = unat v mod 10 ^ 14"
  by (subst decode_order_token_digits)
    (auto simp: encode_order_token_eq digits_nat_dec_digits dest: dec_digits_digits)

lemma decode_token_encode: "unat v < 10 ^ 14 \<Longrightarrow> decode_order_token (encode_order_token v) = v"
  using token_decode_encode_mod [of v] by (simp add: unsigned_word_eqI)

section \<open>Symbols\<close>

lemma dec_digits_5:
  "dec_digits 5 v = [48 + word_of_nat (v div 10000 mod 10), 48 + word_of_nat (v div 1000 mod 10),
     48 + word_of_nat (v div 100 mod 10), 48 + word_of_nat (v div 10 mod 10),
     48 + word_of_nat (v mod 10)]"
proof -
  have five: "(5::nat) = Suc (Suc (Suc (Suc (Suc 0))))" by simp
  show ?thesis
    by (subst five) (simp only: dec_digits.simps append.simps div_mult2_eq [symmetric], simp)
qed

lemma encode_symbol_eq: "encode_symbol inst = [83, 84, 75] @ dec_digits 5 (unat inst)"
proof -
  have "(ucast ((inst div k) mod 10) :: u8) = word_of_nat ((unat inst div unat k) mod 10)" for k :: u16
    by (simp add: ucast_of_unat unat_mod unat_div del: of_nat_unat)
  moreover have "(ucast (inst mod 10) :: u8) = word_of_nat (unat inst mod 10)"
    by (simp add: ucast_of_unat unat_mod del: of_nat_unat)
  ultimately show ?thesis
    by (simp add: encode_symbol_def dec_digits_5)
qed

lemma length_encode_symbol [simp]: "length (encode_symbol inst) = 8"
  by (simp add: encode_symbol_def)

lemma symbol_list_split:
  assumes "length s = 8" and "s ! 0 = a" and "s ! 1 = b" and "s ! 2 = c"
  shows "s = [a, b, c] @ drop 3 s"
proof -
  have "take 3 s = [s ! 0, s ! 1, s ! 2]"
    using assms(1) by (simp add: list_eq_iff_nth_eq less_Suc_eq numeral_eq_Suc)
  then show ?thesis
    using assms append_take_drop_id [of 3 s] by simp
qed

lemma decode_symbol_canonical:
  assumes "length s = 8" and "take 3 s = [83, 84, 75]" and "\<forall>c \<in> set (drop 3 s). is_digit c"
  shows "decode_symbol s = (if digits_nat (drop 3 s) 0 < 256 then word_of_nat (digits_nat (drop 3 s) 0)
                            else INVALID_INSTRUMENT)"
proof -
  let ?n = "digits_nat (drop 3 s) 0"
  have len: "length (drop 3 s) = 5" using assms(1) by simp
  have nths: "s ! 0 = 83" "s ! 1 = 84" "s ! 2 = 75"
    using assms(2) nth_take [of 0 3 s] nth_take [of 1 3 s] nth_take [of 2 3 s] by simp_all
  have b: "?n < 10 ^ 5" using digits_nat_bound [OF assms(3), of 0] len by simp
  have "digits_loop (drop 3 s) (0 :: u32) = Some (word_of_nat ?n)"
    using digits_loop_nat [OF assms(3), of "0 :: u32"] len by simp
  moreover have "unat (word_of_nat ?n :: u32) = ?n" using b by (simp add: unat_of_nat)
  moreover have "(ucast (word_of_nat ?n :: u32) :: u16) = word_of_nat ?n" if "?n < 256"
    using that b by (simp add: ucast_of_unat unat_of_nat del: of_nat_unat)
  ultimately show ?thesis
    using nths len by (simp add: decode_symbol_def MAX_INSTRUMENTS_def)
qed

lemma decode_symbol_cases:
  assumes "length s = 8"
  obtains (bad) "decode_symbol s = INVALID_INSTRUMENT"
    | (good) "take 3 s = [83, 84, 75]" "\<forall>c \<in> set (drop 3 s). is_digit c"
        "digits_nat (drop 3 s) 0 < 256" "decode_symbol s = word_of_nat (digits_nat (drop 3 s) 0)"
proof -
  consider "take 3 s \<noteq> [83, 84, 75]" | "take 3 s = [83, 84, 75]" "\<exists>c \<in> set (drop 3 s). \<not> is_digit c"
    | "take 3 s = [83, 84, 75]" "\<forall>c \<in> set (drop 3 s). is_digit c"
    by blast
  then show thesis
  proof cases
    case 1
    have "s ! 0 \<noteq> 83 \<or> s ! 1 \<noteq> 84 \<or> s ! 2 \<noteq> 75"
    proof (rule ccontr)
      assume "\<not> ?thesis"
      then have "s = [83, 84, 75] @ drop 3 s"
        using symbol_list_split [OF assms] by blast
      with 1 show False by (metis append_take_drop_id append_same_eq)
    qed
    then have "decode_symbol s = INVALID_INSTRUMENT"
      by (auto simp: decode_symbol_def)
    then show thesis by (rule bad)
  next
    case 2
    have "digits_loop (drop 3 s) (0 :: u32) = None"
      using 2(2) by (simp add: digits_loop_None)
    then have "decode_symbol s = INVALID_INSTRUMENT"
      using assms by (simp add: decode_symbol_def)
    then show thesis by (rule bad)
  next
    case 3
    then show thesis
      using decode_symbol_canonical [OF assms 3] bad good by (auto split: if_splits)
  qed
qed

lemma decode_symbol_range:
  assumes "length s = 8"
  shows "decode_symbol s = INVALID_INSTRUMENT \<or> unat (decode_symbol s) < MAX_INSTRUMENTS"
  using assms by (cases s rule: decode_symbol_cases) (simp_all add: unat_of_nat MAX_INSTRUMENTS_def)

lemma decode_symbol_bound:
  assumes "length s = 8" and "unat (decode_symbol s) < MAX_INSTRUMENTS"
  shows "decode_symbol s \<noteq> INVALID_INSTRUMENT"
  using assms by (auto simp: INVALID_INSTRUMENT_def MAX_INSTRUMENTS_def)

lemma symbol_encode_decode:
  assumes "length s = 8" and "decode_symbol s \<noteq> INVALID_INSTRUMENT"
  shows "encode_symbol (decode_symbol s) = s"
  using assms(1)
proof (cases s rule: decode_symbol_cases)
  case bad
  with assms show ?thesis by simp
next
  case good
  have "encode_symbol (decode_symbol s) = [83, 84, 75] @ drop 3 s"
    using good dec_digits_digits_nat [OF good(2), of 0] assms(1)
    by (simp add: encode_symbol_eq unat_of_nat)
  then show ?thesis
    using good(1) append_take_drop_id [of 3 s] by simp
qed

lemma symbol_decode_encode:
  "decode_symbol (encode_symbol inst) =
     (if unat inst < MAX_INSTRUMENTS then inst else INVALID_INSTRUMENT)"
proof -
  have "unat inst < 10 ^ 5" using unat_less [of inst] by simp
  then have "digits_nat (dec_digits 5 (unat inst)) 0 = unat inst"
    by (simp add: digits_nat_dec_digits)
  moreover have "\<forall>c \<in> set (drop 3 (encode_symbol inst)). is_digit c"
    by (auto simp: encode_symbol_eq dest: dec_digits_digits)
  ultimately show ?thesis
    using decode_symbol_canonical [of "encode_symbol inst"]
    by (simp add: encode_symbol_eq MAX_INSTRUMENTS_def)
qed

section \<open>Struct layouts\<close>

lemma length_w [simp]: "length (w16 a) = 2" "length (w32 b) = 4" "length (w64 c) = 8"
  by (simp_all add: w16_def w32_def w64_def)

lemma le_dec_w [simp]: "le_dec (w16 a) = unat a" "le_dec (w32 b) = unat b" "le_dec (w64 c) = unat c"
  using unat_less [of a] unat_less [of b] unat_less [of c]
  by (simp_all add: w16_def w32_def w64_def le_dec_enc)

lemma length_rchars [simp]: "off + n \<le> length b \<Longrightarrow> length (rchars off n b) = n"
  by (simp add: rchars_def)

lemma w32_r32: "off + 4 \<le> length b \<Longrightarrow> w32 (r32 off b) = rchars off 4 b"
  using le_dec_bound [of "take 4 (drop off b)"] le_enc_dec [of "take 4 (drop off b)"]
  by (simp add: w32_def r32_def rchars_def unat_of_nat)

lemma w64_r64: "off + 8 \<le> length b \<Longrightarrow> w64 (r64 off b) = rchars off 8 b"
  using le_dec_bound [of "take 8 (drop off b)"] le_enc_dec [of "take 8 (drop off b)"]
  by (simp add: w64_def r64_def rchars_def unat_of_nat)

lemma w16_r16: "off + 2 \<le> length b \<Longrightarrow> w16 (r16 off b) = rchars off 2 b"
  using le_dec_bound [of "take 2 (drop off b)"] le_enc_dec [of "take 2 (drop off b)"]
  by (simp add: w16_def r16_def rchars_def unat_of_nat)

lemma nth_rchars: "off < length b \<Longrightarrow> b ! off # zs = rchars off 1 b @ zs"
  by (simp add: rchars_def take_Suc_conv_app_nth hd_drop_conv_nth take_Suc)

lemma rchars_join:
  "p = off + n \<Longrightarrow> rchars off n b @ rchars p m b @ zs = rchars off (n + m) b @ zs"
  "p = off + n \<Longrightarrow> rchars off n b @ rchars p m b = rchars off (n + m) b"
  by (simp_all add: rchars_def take_add add.commute [of off n])

lemma rchars_all: "n = length b \<Longrightarrow> rchars 0 n b = b"
  by (simp add: rchars_def)

lemmas layout_simps = w32_r32 w64_r64 w16_r16 nth_rchars rchars_join rchars_all

lemma enter_order_dec_enc: "wf_enter_order r \<Longrightarrow> dec_enter_order (enc_enter_order r) = r"
  by (cases r) (simp add: wf_enter_order_def dec_enter_order_def enc_enter_order_def rchars_def
      r32_def r64_def nth_append)

lemma cancel_order_dec_enc: "wf_cancel_order r \<Longrightarrow> dec_cancel_order (enc_cancel_order r) = r"
  by (cases r) (simp add: wf_cancel_order_def dec_cancel_order_def enc_cancel_order_def rchars_def
      r32_def)

lemma execution_report_dec_enc:
  "wf_execution_report r \<Longrightarrow> dec_execution_report (enc_execution_report r) = r"
  by (cases r) (simp add: wf_execution_report_def dec_execution_report_def enc_execution_report_def
      rchars_def r32_def nth_append)

lemma itch_dec_enc: "dec_itch (enc_itch m) = m"
  by (cases m) (simp add: dec_itch_def enc_itch_def r16_def r32_def r64_def nth_append)

lemma enter_order_enc_dec:
  "length b = sizeof_OuchEnterOrder \<Longrightarrow> enc_enter_order (dec_enter_order b) = b"
  by (simp add: sizeof_OuchEnterOrder_def enc_enter_order_def dec_enter_order_def layout_simps)

lemma cancel_order_enc_dec:
  "length b = sizeof_OuchCancelOrder \<Longrightarrow> enc_cancel_order (dec_cancel_order b) = b"
  by (simp add: sizeof_OuchCancelOrder_def enc_cancel_order_def dec_cancel_order_def layout_simps)

lemma execution_report_enc_dec:
  "length b = sizeof_OuchExecutionReport \<Longrightarrow> enc_execution_report (dec_execution_report b) = b"
  by (simp add: sizeof_OuchExecutionReport_def enc_execution_report_def dec_execution_report_def
      layout_simps)

lemma itch_enc_dec: "length b = sizeof_ItchMessage \<Longrightarrow> enc_itch (dec_itch b) = b"
  by (simp add: sizeof_ItchMessage_def enc_itch_def dec_itch_def layout_simps)

lemma length_enc_enter_order [simp]:
  "wf_enter_order r \<Longrightarrow> length (enc_enter_order r) = sizeof_OuchEnterOrder"
  by (simp add: wf_enter_order_def enc_enter_order_def sizeof_OuchEnterOrder_def)

lemma length_enc_cancel_order [simp]:
  "wf_cancel_order r \<Longrightarrow> length (enc_cancel_order r) = sizeof_OuchCancelOrder"
  by (simp add: wf_cancel_order_def enc_cancel_order_def sizeof_OuchCancelOrder_def)

lemma length_enc_execution_report [simp]:
  "wf_execution_report r \<Longrightarrow> length (enc_execution_report r) = sizeof_OuchExecutionReport"
  by (simp add: wf_execution_report_def enc_execution_report_def sizeof_OuchExecutionReport_def)

lemma length_enc_itch [simp]: "length (enc_itch m) = sizeof_ItchMessage"
  by (simp add: enc_itch_def sizeof_ItchMessage_def)

lemma wf_dec_enter_order: "length b = sizeof_OuchEnterOrder \<Longrightarrow> wf_enter_order (dec_enter_order b)"
  by (simp add: wf_enter_order_def dec_enter_order_def sizeof_OuchEnterOrder_def)

lemma wf_dec_cancel_order: "length b = sizeof_OuchCancelOrder \<Longrightarrow> wf_cancel_order (dec_cancel_order b)"
  by (simp add: wf_cancel_order_def dec_cancel_order_def sizeof_OuchCancelOrder_def)

section \<open>Properties\<close>

text \<open>
  Order tokens round-trip in both directions: any value below \<open>10^14\<close> survives
  \<open>encode_order_token\<close> followed by \<open>decode_order_token\<close>, and a 14-byte field the decoder
  accepts is the encoding of the value it decodes to. Hence two different fields never decode to
  the same accepted token.
\<close>

theorem order_token_codec:
  "(unat v < 10 ^ 14 \<longrightarrow> decode_order_token (encode_order_token v) = v)
   \<and> (length tok = 14 \<and> decode_order_token tok \<noteq> INVALID_ORDER_TOKEN
        \<longrightarrow> encode_order_token (decode_order_token tok) = tok)"
proof (intro conjI impI)
  assume "unat v < 10 ^ 14"
  then have "unat (decode_order_token (encode_order_token v)) = unat v"
    by (simp add: token_decode_encode_mod)
  then show "decode_order_token (encode_order_token v) = v"
    by (rule unsigned_word_eqI)
next
  assume tok: "length tok = 14 \<and> decode_order_token tok \<noteq> INVALID_ORDER_TOKEN"
  then have "unat (decode_order_token tok) < 10 ^ 14"
    using decode_order_token_reject decode_order_token_valid_iff by blast
  then show "encode_order_token (decode_order_token tok) = tok"
    using tok by (intro token_encode_decode) simp_all
qed

theorem order_token_codec_witness:
  "decode_order_token (encode_order_token 42) = 42
   \<and> encode_order_token (decode_order_token (encode_order_token 7)) = encode_order_token 7"
proof -
  have "unat (decode_order_token (encode_order_token 7)) = 7"
    by (simp add: token_decode_encode_mod)
  then have "decode_order_token (encode_order_token 7) \<noteq> INVALID_ORDER_TOKEN"
    by (auto simp: INVALID_ORDER_TOKEN_def)
  then show ?thesis
    using order_token_codec [of 42 "encode_order_token 7"] by simp
qed

text \<open>
  Symbols: exactly the canonical symbols \<open>STK00000..STK00255\<close> are accepted. Encoding an
  instrument id and decoding it gives the id back when it is below \<open>MAX_INSTRUMENTS\<close> and
  \<open>INVALID_INSTRUMENT\<close> otherwise; whatever else the decoder accepts is the encoding of its
  result; and every accepted id is in range.
\<close>

theorem symbol_codec:
  "decode_symbol (encode_symbol inst) =
     (if unat inst < MAX_INSTRUMENTS then inst else INVALID_INSTRUMENT)
   \<and> (length s = 8 \<and> decode_symbol s \<noteq> INVALID_INSTRUMENT \<longrightarrow>
        unat (decode_symbol s) < MAX_INSTRUMENTS \<and> encode_symbol (decode_symbol s) = s)"
  using symbol_decode_encode symbol_encode_decode decode_symbol_range by blast

theorem symbol_codec_witness:
  "decode_symbol (encode_symbol 300) = INVALID_INSTRUMENT
   \<and> encode_symbol (decode_symbol (encode_symbol 7)) = encode_symbol 7"
proof -
  have "decode_symbol (encode_symbol 7) \<noteq> INVALID_INSTRUMENT"
    by (simp add: symbol_decode_encode INVALID_INSTRUMENT_def MAX_INSTRUMENTS_def)
  then show ?thesis
    using symbol_codec [of 300 "encode_symbol 7"] by (simp add: MAX_INSTRUMENTS_def)
qed

text \<open>
  The packed structs round-trip through their byte layout: decoding the bytes of a struct
  gives the struct, re-encoding any buffer of the struct's size gives the buffer, and the layouts
  have the sizes the header asserts (81, 19, 32 and 34 bytes).
\<close>

theorem wire_struct_layout:
  "(wf_enter_order eo \<longrightarrow> dec_enter_order (enc_enter_order eo) = eo
      \<and> length (enc_enter_order eo) = 81)
   \<and> (wf_cancel_order co \<longrightarrow> dec_cancel_order (enc_cancel_order co) = co
      \<and> length (enc_cancel_order co) = 19)
   \<and> (wf_execution_report er \<longrightarrow> dec_execution_report (enc_execution_report er) = er
      \<and> length (enc_execution_report er) = 32)
   \<and> dec_itch (enc_itch it) = it \<and> length (enc_itch it) = 34
   \<and> (length b = 81 \<longrightarrow> enc_enter_order (dec_enter_order b) = b)
   \<and> (length b = 19 \<longrightarrow> enc_cancel_order (dec_cancel_order b) = b)
   \<and> (length b = 32 \<longrightarrow> enc_execution_report (dec_execution_report b) = b)
   \<and> (length b = 34 \<longrightarrow> enc_itch (dec_itch b) = b)"
  using enter_order_dec_enc cancel_order_dec_enc execution_report_dec_enc itch_dec_enc
    enter_order_enc_dec cancel_order_enc_dec execution_report_enc_dec itch_enc_dec
  by (simp add: sizeof_OuchEnterOrder_def sizeof_OuchCancelOrder_def
      sizeof_OuchExecutionReport_def sizeof_ItchMessage_def)

theorem wire_struct_layout_witness:
  "enc_cancel_order (dec_cancel_order (replicate 19 88)) = replicate 19 88
   \<and> wf_cancel_order (dec_cancel_order (replicate 19 88))
   \<and> dec_cancel_order (enc_cancel_order (dec_cancel_order (replicate 19 88)))
       = dec_cancel_order (replicate 19 88)"
proof -
  have "wf_cancel_order (dec_cancel_order (replicate 19 88))"
    by (rule wf_dec_cancel_order) (simp add: sizeof_OuchCancelOrder_def)
  moreover have "length (replicate 19 88 :: bytes) = 19" by simp
  ultimately show ?thesis
    using wire_struct_layout [where b = "replicate 19 88" and co = "dec_cancel_order (replicate 19 88)"]
    by blast
qed

end
