(* ===== verification/Limit_List.thy ===== *)
theory Limit_List
  imports Wire
begin

text \<open>
  Orders (\<open>hft_engine/src/matching/order.h\<close>) and the intrusive doubly linked list of one price
  level, \<open>OrderBook::Limit\<close> (\<open>hft_engine/src/matching/orderbook.h\<close>). An order lives in a pool
  slot; a pointer is the slot's index, null is \<open>None\<close>. The interface \<open>level_queues\<close> states
  \<open>add\<close> and \<open>remove\<close> as list operations together with what they leave alone, and derives the
  rules for a whole family of levels that share one memory.
\<close>

section \<open>Orders\<close>

record order =
  internal_id :: nat
  client_order_id :: nat
  price :: nat
  quantity :: nat
  client_id :: nat
  instrument_id :: nat
  worker_id :: nat
  side :: Side

record order_node = order +
  o_next :: "nat option"
  o_prev :: "nat option"

type_synonym memory = "nat \<Rightarrow> order_node"

text \<open>The constructor \<open>Order(int_id, client_order_tok, owner, p, q, inst, s, wid)\<close>.\<close>

definition new_Order :: "nat \<Rightarrow> nat \<Rightarrow> nat \<Rightarrow> nat \<Rightarrow> nat \<Rightarrow> nat \<Rightarrow> Side \<Rightarrow> nat \<Rightarrow> order_node" where
  "new_Order int_id client_order_tok owner p q inst s wid =
     \<lparr> internal_id = int_id, client_order_id = client_order_tok, price = p, quantity = q,
       client_id = owner, instrument_id = inst, worker_id = wid, side = s,
       o_next = None, o_prev = None \<rparr>"

text \<open>The order stored in a node, without its links.\<close>

definition ord :: "memory \<Rightarrow> nat \<Rightarrow> order" where
  "ord m a = order.truncate (m a)"

section \<open>Limit\<close>

record limit =
  lim_head :: "nat option"
  lim_tail :: "nat option"

definition limit_init :: limit where
  "limit_init = \<lparr> lim_head = None, lim_tail = None \<rparr>"

definition limit_add :: "memory \<Rightarrow> limit \<Rightarrow> nat \<Rightarrow> memory \<times> limit" where
  "limit_add m lim a =
     (case lim_tail lim of
        None \<Rightarrow> (m(a := (m a)\<lparr> o_next := None, o_prev := None \<rparr>), \<lparr> lim_head = Some a, lim_tail = Some a \<rparr>)
      | Some t \<Rightarrow>
          (let m1 = m(t := (m t)\<lparr> o_next := Some a \<rparr>);
               m2 = m1(a := (m1 a)\<lparr> o_prev := Some t \<rparr>);
               m3 = m2(a := (m2 a)\<lparr> o_next := None \<rparr>)
           in (m3, lim\<lparr> lim_tail := Some a \<rparr>)))"

definition limit_remove :: "memory \<Rightarrow> limit \<Rightarrow> nat \<Rightarrow> memory \<times> limit" where
  "limit_remove m lim a =
     (let m1 = (case o_prev (m a) of None \<Rightarrow> m | Some p \<Rightarrow> m(p := (m p)\<lparr> o_next := o_next (m a) \<rparr>));
          m2 = (case o_next (m1 a) of None \<Rightarrow> m1 | Some n \<Rightarrow> m1(n := (m1 n)\<lparr> o_prev := o_prev (m1 a) \<rparr>));
          lim1 = (if lim_head lim = Some a then lim\<lparr> lim_head := o_next (m2 a) \<rparr> else lim);
          lim2 = (if lim_tail lim1 = Some a then lim1\<lparr> lim_tail := o_prev (m2 a) \<rparr> else lim1)
      in (m2(a := (m2 a)\<lparr> o_next := None, o_prev := None \<rparr>), lim2))"

section \<open>The interface of a price level\<close>

text \<open>A family of levels over one memory, each holding its own orders.\<close>

definition level_family :: "('m \<Rightarrow> 'l \<Rightarrow> nat list \<Rightarrow> bool) \<Rightarrow> 'm \<Rightarrow> ('k \<Rightarrow> 'l) \<Rightarrow> ('k \<Rightarrow> nat list) \<Rightarrow> bool" where
  "level_family rep m L V \<longleftrightarrow>
     (\<forall>k. rep m (L k) (V k)) \<and> (\<forall>j k. j \<noteq> k \<longrightarrow> set (V j) \<inter> set (V k) = {})"

locale level_queues =
  fixes rep :: "'m \<Rightarrow> 'l \<Rightarrow> nat list \<Rightarrow> bool"
    and data :: "'m \<Rightarrow> nat \<Rightarrow> 'd"
    and front :: "'l \<Rightarrow> nat option"
    and add :: "'m \<Rightarrow> 'l \<Rightarrow> nat \<Rightarrow> 'm \<times> 'l"
    and remove :: "'m \<Rightarrow> 'l \<Rightarrow> nat \<Rightarrow> 'm \<times> 'l"
  assumes rep_distinct: "rep m l xs \<Longrightarrow> distinct xs"
    and front_spec: "rep m l xs \<Longrightarrow> front l = hd_or xs None"
    and add_spec: "rep m l xs \<Longrightarrow> a \<notin> set xs \<Longrightarrow> add m l a = (m1, l1) \<Longrightarrow> rep m1 l1 (xs @ [a])"
    and add_data: "rep m l xs \<Longrightarrow> add m l a = (m1, l1) \<Longrightarrow> data m1 b = data m b"
    and add_frame: "rep m l xs \<Longrightarrow> add m l a = (m1, l1) \<Longrightarrow> rep m k ys \<Longrightarrow>
      set ys \<inter> insert a (set xs) = {} \<Longrightarrow> rep m1 k ys"
    and remove_spec: "rep m l xs \<Longrightarrow> a \<in> set xs \<Longrightarrow> remove m l a = (m1, l1) \<Longrightarrow> rep m1 l1 (remove1 a xs)"
    and remove_data: "rep m l xs \<Longrightarrow> remove m l a = (m1, l1) \<Longrightarrow> data m1 b = data m b"
    and remove_frame: "rep m l xs \<Longrightarrow> a \<in> set xs \<Longrightarrow> remove m l a = (m1, l1) \<Longrightarrow> rep m k ys \<Longrightarrow>
      set ys \<inter> set xs = {} \<Longrightarrow> rep m1 k ys"
begin

text \<open>Appending to and removing from one level of a family keeps every level of the family.\<close>

lemma family_add:
  assumes f: "level_family rep m L V" and a: "\<And>j. a \<notin> set (V j)" and e: "add m (L k) a = (m1, l1)"
  shows "level_family rep m1 (L(k := l1)) (V(k := V k @ [a]))" and "data m1 = data m"
proof -
  have r: "rep m (L j) (V j)" for j using f by (simp add: level_family_def)
  have d: "j \<noteq> i \<Longrightarrow> set (V j) \<inter> set (V i) = {}" for i j using f by (simp add: level_family_def)
  have "rep m1 (L j) (V j)" if "j \<noteq> k" for j
    using d [OF that] a by (intro add_frame [OF r e r]) auto
  then show "level_family rep m1 (L(k := l1)) (V(k := V k @ [a]))"
    using add_spec [OF r a e] d a unfolding level_family_def by auto
  show "data m1 = data m" using add_data [OF r e] by auto
qed

lemma family_remove:
  assumes f: "level_family rep m L V" and a: "a \<in> set (V k)" and e: "remove m (L k) a = (m1, l1)"
  shows "level_family rep m1 (L(k := l1)) (V(k := remove1 a (V k)))" and "data m1 = data m"
proof -
  have r: "rep m (L j) (V j)" for j using f by (simp add: level_family_def)
  have d: "j \<noteq> i \<Longrightarrow> set (V j) \<inter> set (V i) = {}" for i j using f by (simp add: level_family_def)
  have "rep m1 (L j) (V j)" if "j \<noteq> k" for j
    using d [OF that] by (intro remove_frame [OF r a e r])
  moreover have "set (V j) \<inter> set (remove1 a (V k)) = {}" if "j \<noteq> k" for j
    using d [OF that] set_remove1_subset [of a "V k"] by blast
  ultimately show "level_family rep m1 (L(k := l1)) (V(k := remove1 a (V k)))"
    using remove_spec [OF r a e] d unfolding level_family_def by (simp add: Int_commute)
  show "data m1 = data m" using remove_data [OF r e] by auto
qed

lemma family_distinct: "level_family rep m L V \<Longrightarrow> distinct (V k)"
  using rep_distinct by (auto simp: level_family_def)

lemma family_front: "level_family rep m L V \<Longrightarrow> front (L k) = hd_or (V k) None"
  using front_spec by (auto simp: level_family_def)

end

section \<open>Linked segments\<close>

fun dseg :: "memory \<Rightarrow> nat option \<Rightarrow> nat list \<Rightarrow> nat option \<Rightarrow> bool" where
  "dseg m p [] n \<longleftrightarrow> True"
| "dseg m p (x # xs) n \<longleftrightarrow> o_prev (m x) = p \<and> o_next (m x) = hd_or xs n \<and> dseg m (Some x) xs n"

definition dll :: "memory \<Rightarrow> limit \<Rightarrow> nat list \<Rightarrow> bool" where
  "dll m lim xs \<longleftrightarrow> distinct xs \<and> lim_head lim = hd_or xs None \<and> lim_tail lim = last_or xs None
     \<and> dseg m None xs None"

lemma dseg_append: "dseg m p (xs @ ys) n \<longleftrightarrow> dseg m p xs (hd_or ys n) \<and> dseg m (last_or xs p) ys n"
  by (induction xs arbitrary: p) (auto simp: hd_or_append)

lemma dseg_frame:
  "\<forall>x \<in> set xs. o_next (m1 x) = o_next (m x) \<and> o_prev (m1 x) = o_prev (m x) \<Longrightarrow> dseg m1 p xs n = dseg m p xs n"
  by (induction xs arbitrary: p) auto

lemma dll_links:
  "\<forall>x \<in> set xs. o_next (m1 x) = o_next (m x) \<and> o_prev (m1 x) = o_prev (m x) \<Longrightarrow> dll m1 lim xs = dll m lim xs"
  using dseg_frame [of xs m1 m None None] by (simp add: dll_def)

lemma dll_init: "dll m limit_init []"
  by (simp add: dll_def limit_init_def)

text \<open>Rewriting the link that leaves a segment at its right or left end.\<close>

lemma dseg_set_next:
  assumes "dseg m p xs n" and "distinct xs" and "last_or xs None = Some t"
  shows "dseg (m(t := (m t)\<lparr> o_next := n1 \<rparr>)) p xs n1"
proof -
  obtain ys where xs: "xs = ys @ [t]"
    using assms(3) by (cases xs rule: rev_cases) auto
  have "dseg (m(t := (m t)\<lparr> o_next := n1 \<rparr>)) p ys (Some t) = dseg m p ys (Some t)"
    using assms(2) xs by (intro dseg_frame) auto
  then show ?thesis using assms(1) xs by (simp add: dseg_append)
qed

lemma dseg_set_prev:
  assumes "dseg m p (x # xs) n" and "x \<notin> set xs"
  shows "dseg (m(x := (m x)\<lparr> o_prev := p1 \<rparr>)) p1 (x # xs) n"
proof -
  have "dseg (m(x := (m x)\<lparr> o_prev := p1 \<rparr>)) (Some x) xs n = dseg m (Some x) xs n"
    using assms(2) by (intro dseg_frame) auto
  then show ?thesis using assms(1) by simp
qed

lemma dll_add:
  assumes r: "dll m l xs" and a: "a \<notin> set xs" and e: "limit_add m l a = (m1, l1)"
  shows "dll m1 l1 (xs @ [a])"
proof (cases "lim_tail l")
  case None
  then have "xs = []" using r by (metis dll_def last_or_None)
  then show ?thesis using e None by (auto simp: limit_add_def dll_def)
next
  case (Some t)
  then have t: "last_or xs None = Some t" using r by (simp add: dll_def)
  let ?m = "m(t := (m t)\<lparr> o_next := Some a \<rparr>)"
  have m1: "m1 = ?m(a := (?m a)\<lparr> o_prev := Some t, o_next := None \<rparr>)" and l1: "l1 = l\<lparr> lim_tail := Some a \<rparr>"
    using e Some by (auto simp: limit_add_def Let_def)
  have "dseg ?m None xs (Some a)" using dseg_set_next [OF _ _ t, of m None None] r by (simp add: dll_def)
  moreover have "dseg m1 None xs (Some a) = dseg ?m None xs (Some a)"
    using a by (intro dseg_frame) (auto simp: m1)
  moreover have "hd_or (xs @ [a]) None = hd_or xs None" using t by (cases xs) auto
  ultimately show ?thesis
    using r a t by (simp add: dll_def dseg_append m1 l1)
qed

lemma dll_tail_mem: "dll m l xs \<Longrightarrow> lim_tail l = Some t \<Longrightarrow> t \<in> set xs"
  by (metis dll_def last_or_Some_mem)

lemma limit_add_ord: "limit_add m l a = (m1, l1) \<Longrightarrow> ord m1 b = ord m b"
  by (auto simp: limit_add_def Let_def ord_def order.defs split: option.splits)

lemma limit_add_frame:
  assumes "dll m l xs" and "limit_add m l a = (m1, l1)" and "dll m k ys" and "set ys \<inter> insert a (set xs) = {}"
  shows "dll m1 k ys"
proof -
  have "lim_tail l = Some t \<Longrightarrow> t \<notin> set ys" for t using dll_tail_mem [OF assms(1)] assms(4) by blast
  then have "\<forall>x \<in> set ys. m1 x = m x"
    using assms(2,4) by (auto simp: limit_add_def Let_def split: option.splits)
  then show ?thesis using dll_links [of ys m1 m k] assms(3) by simp
qed

text \<open>The links of a node in the middle of a level, and the memory after unlinking it.\<close>

lemma dll_split:
  assumes "dll m l (xs @ a # ys)"
  shows "o_prev (m a) = last_or xs None" and "o_next (m a) = hd_or ys None"
    and "dseg m None xs (Some a)" and "dseg m (Some a) ys None"
    and "distinct (xs @ ys)" and "a \<notin> set xs" and "a \<notin> set ys"
  using assms by (auto simp: dll_def dseg_append)

lemma unlink_mem:
  assumes r: "dll m l (xs @ a # ys)"
  defines "m1 \<equiv> (case last_or xs None of None \<Rightarrow> m | Some p \<Rightarrow> m(p := (m p)\<lparr> o_next := hd_or ys None \<rparr>))"
  defines "m2 \<equiv> (case hd_or ys None of None \<Rightarrow> m1 | Some n \<Rightarrow> m1(n := (m1 n)\<lparr> o_prev := last_or xs None \<rparr>))"
  shows "limit_remove m l a =
      (m2(a := (m a)\<lparr> o_next := None, o_prev := None \<rparr>),
       \<lparr> lim_head = hd_or (xs @ ys) None, lim_tail = last_or (xs @ ys) None \<rparr>)"
    and "dseg m2 None xs (hd_or ys None)" and "dseg m2 (last_or xs None) ys None"
    and "b \<notin> set (xs @ ys) \<Longrightarrow> m2 b = m b"
proof -
  note d = dll_split [OF r]
  have px: "last_or xs None = Some p \<Longrightarrow> p \<in> set xs" for p by (rule last_or_Some_mem)
  have nx: "hd_or ys None = Some n \<Longrightarrow> n \<in> set ys" for n by (rule hd_or_Some_mem)
  have a1: "m1 a = m a" using d(6) px by (auto simp: m1_def split: option.splits)
  have a2: "m2 a = m a" using d(7) nx a1 by (auto simp: m2_def split: option.splits)
  have lims: "lim_head l = hd_or (xs @ a # ys) None" "lim_tail l = last_or (xs @ a # ys) None"
    using r by (auto simp: dll_def)
  show "b \<notin> set (xs @ ys) \<Longrightarrow> m2 b = m b"
    using px nx by (auto simp: m1_def m2_def split: option.splits)
  have "dseg m1 None xs (hd_or ys None)"
    using dseg_set_next [OF d(3)] d(3,5) by (cases xs) (auto simp: m1_def split: option.splits)
  moreover have "dseg m2 None xs (hd_or ys None) = dseg m1 None xs (hd_or ys None)"
    using d(5) nx by (intro dseg_frame) (auto simp: m2_def split: option.splits)
  ultimately show "dseg m2 None xs (hd_or ys None)" by simp
  have f: "dseg m1 (Some a) ys None = dseg m (Some a) ys None"
    using d(5) px by (intro dseg_frame) (auto simp: m1_def split: option.splits)
  show "dseg m2 (last_or xs None) ys None"
    using dseg_set_prev [of m1 "Some a"] f d(4,5) by (cases ys) (auto simp: m2_def)
  have "(if lim_head l = Some a then hd_or ys None else lim_head l) = hd_or (xs @ ys) None"
    using lims(1) d(6) by (cases xs) auto
  moreover have "(if lim_tail l = Some a then last_or xs None else lim_tail l) = last_or (xs @ ys) None"
    using lims(2) d(7) by (cases ys rule: rev_cases) (auto simp: last_or_append)
  ultimately show "limit_remove m l a =
      (m2(a := (m a)\<lparr> o_next := None, o_prev := None \<rparr>),
       \<lparr> lim_head = hd_or (xs @ ys) None, lim_tail = last_or (xs @ ys) None \<rparr>)"
    unfolding limit_remove_def Let_def d(1,2) m1_def [symmetric] a1 m2_def [symmetric] a2
    by (cases l) auto
qed

lemma dll_remove:
  assumes r: "dll m l xs" and a: "a \<in> set xs" and e: "limit_remove m l a = (m1, l1)"
  shows "dll m1 l1 (remove1 a xs)" and "\<And>b. b \<notin> set xs \<Longrightarrow> m1 b = m b"
proof -
  obtain us vs where xs: "xs = us @ a # vs" "a \<notin> set us" using split_list_first [OF a] by blast
  note r' = r [unfolded xs(1)]
  note u = unlink_mem [OF r'] and d = dll_split [OF r']
  have rm: "remove1 a xs = us @ vs" using xs by (simp add: remove1_append)
  obtain m2 where m1: "m1 = m2(a := (m a)\<lparr> o_next := None, o_prev := None \<rparr>)"
    and l1: "l1 = \<lparr> lim_head = hd_or (us @ vs) None, lim_tail = last_or (us @ vs) None \<rparr>"
    and m2: "dseg m2 None us (hd_or vs None)" "dseg m2 (last_or us None) vs None"
      "\<And>b. b \<notin> set (us @ vs) \<Longrightarrow> m2 b = m b"
    using u e by auto
  have "dseg m1 None us (hd_or vs None)" "dseg m1 (last_or us None) vs None"
    using m2(1,2) dseg_frame [of us m1 m2] dseg_frame [of vs m1 m2] d(6,7) by (auto simp: m1)
  then show "dll m1 l1 (remove1 a xs)"
    using d(5) by (simp add: dll_def rm l1 dseg_append)
  show "m1 b = m b" if "b \<notin> set xs" for b using that m2(3) by (auto simp: m1 xs)
qed

lemma limit_remove_ord: "limit_remove m l a = (m1, l1) \<Longrightarrow> ord m1 b = ord m b"
  by (auto simp: limit_remove_def Let_def ord_def order.defs split: option.splits)

interpretation lq: level_queues dll ord lim_head limit_add limit_remove
proof unfold_locales
  show "dll m l xs \<Longrightarrow> distinct xs" for m l xs by (simp add: dll_def)
  show "dll m l xs \<Longrightarrow> lim_head l = hd_or xs None" for m l xs by (simp add: dll_def)
  show "dll m1 k ys" if "dll m l xs" "a \<in> set xs" "limit_remove m l a = (m1, l1)" "dll m k ys"
    "set ys \<inter> set xs = {}" for m l xs a m1 l1 k ys
  proof -
    have "\<forall>x \<in> set ys. m1 x = m x" using dll_remove(2) [OF that(1-3)] that(5) by blast
    then show ?thesis using dll_links [of ys m1 m k] that(4) by simp
  qed
qed (blast intro: dll_add limit_add_ord limit_add_frame dll_remove(1) limit_remove_ord)+

end
