(* ===== verification/Price_Bitmap.thy ===== *)
theory Price_Bitmap
  imports Prelude
begin

text \<open>
  The two-level price bitmaps of \<open>OrderBook\<close> (\<open>hft_engine/src/matching/orderbook.h\<close>): one bit
  per price in 64-bit words (L1), one summary bit per L1 word (L2), the bit-scan builtins, and the
  searches for the next non-empty price above or below a start price. The interface
  \<open>price_index\<close> states them as operations on a set of prices; the searches are shown to
  return the minimum or maximum of that set in range, without ever scanning a zero word or
  indexing outside the bitmaps.
\<close>

unbundle bit_operations_syntax

section \<open>Constants and bit scans\<close>

definition MAX_PRICE :: nat where "MAX_PRICE = 100001"
definition L1_WORDS :: nat where "L1_WORDS = MAX_PRICE div 64 + 1"
definition L2_WORDS :: nat where "L2_WORDS = MAX_PRICE div 4096 + 1"

text \<open>\<open>__builtin_ctzll\<close> and \<open>__builtin_clzll\<close>: trailing and leading zeros; undefined on 0.\<close>

definition ctzll :: "u64 \<Rightarrow> nat option" where
  "ctzll w = (if w = 0 then None else Some (length (takeWhile (\<lambda>n. \<not> bit w n) [0..<64])))"

definition clzll :: "u64 \<Rightarrow> nat option" where
  "clzll w = (if w = 0 then None else Some (length (takeWhile (\<lambda>n. \<not> bit w (63 - n)) [0..<64])))"

section \<open>The bitmaps and their operations\<close>

record bitmap2 =
  bm_l1 :: "nat \<Rightarrow> u64"
  bm_l2 :: "nat \<Rightarrow> u64"

definition bm_init :: bitmap2 where
  "bm_init = \<lparr> bm_l1 = (\<lambda>_. 0), bm_l2 = (\<lambda>_. 0) \<rparr>"

text \<open>On unsigned values \<open>x >> 6\<close> is \<open>x div 64\<close> and \<open>x & 63\<close> is \<open>x mod 64\<close>.\<close>

definition bm_set_bit :: "bitmap2 \<Rightarrow> nat \<Rightarrow> bitmap2 option" where
  "bm_set_bit b price =
     (let word_idx = price div 64 in do {
        w \<leftarrow> arr_get L1_WORDS (bm_l1 b) word_idx;
        l1 \<leftarrow> arr_set L1_WORDS (bm_l1 b) word_idx (w OR push_bit (price mod 64) 1);
        v \<leftarrow> arr_get L2_WORDS (bm_l2 b) (word_idx div 64);
        l2 \<leftarrow> arr_set L2_WORDS (bm_l2 b) (word_idx div 64) (v OR push_bit (word_idx mod 64) 1);
        Some \<lparr> bm_l1 = l1, bm_l2 = l2 \<rparr> })"

definition bm_clear_bit :: "bitmap2 \<Rightarrow> nat \<Rightarrow> bitmap2 option" where
  "bm_clear_bit b price =
     (let word_idx = price div 64 in do {
        w \<leftarrow> arr_get L1_WORDS (bm_l1 b) word_idx;
        let w1 = w AND NOT (push_bit (price mod 64) 1);
        l1 \<leftarrow> arr_set L1_WORDS (bm_l1 b) word_idx w1;
        if w1 = 0 then do {
          v \<leftarrow> arr_get L2_WORDS (bm_l2 b) (word_idx div 64);
          l2 \<leftarrow> arr_set L2_WORDS (bm_l2 b) (word_idx div 64) (v AND NOT (push_bit (word_idx mod 64) 1));
          Some \<lparr> bm_l1 = l1, bm_l2 = l2 \<rparr> }
        else Some \<lparr> bm_l1 = l1, bm_l2 = bm_l2 b \<rparr> })"

text \<open>The first price of L1 word \<open>i\<close>: \<open>(i << 6) + ctz(bitmap[i])\<close>, and the last one.\<close>

definition first_price_in :: "bitmap2 \<Rightarrow> nat \<Rightarrow> int option" where
  "first_price_in b i = do {
     w \<leftarrow> arr_get L1_WORDS (bm_l1 b) i;
     c \<leftarrow> ctzll w;
     Some (int (i * 64 + c)) }"

definition last_price_in :: "bitmap2 \<Rightarrow> nat \<Rightarrow> int option" where
  "last_price_in b i = do {
     w \<leftarrow> arr_get L1_WORDS (bm_l1 b) i;
     c \<leftarrow> clzll w;
     Some (int (i * 64 + (63 - c))) }"

text \<open>Step 3 of \<open>find_next_ask\<close>: \<open>for (i = l2_word_idx + 1; i < num_l2; ++i)\<close>.\<close>

function ask_groups :: "bitmap2 \<Rightarrow> nat \<Rightarrow> int option" where
  "ask_groups b i =
     (if i < L2_WORDS then do {
        v \<leftarrow> arr_get L2_WORDS (bm_l2 b) i;
        if v \<noteq> 0 then do { c \<leftarrow> ctzll v; first_price_in b (i * 64 + c) }
        else ask_groups b (Suc i) }
      else Some (- 1))"
  by pat_completeness auto
termination
  by (relation "measure (\<lambda>(b, i). L2_WORDS - i)") auto

definition find_next_ask :: "bitmap2 \<Rightarrow> nat \<Rightarrow> int option" where
  "find_next_ask b start_price =
     (let word_idx = start_price div 64 in do {
        w \<leftarrow> arr_get L1_WORDS (bm_l1 b) word_idx;
        let word = w AND push_bit (start_price mod 64) (- 1);
        if word \<noteq> 0 then do { c \<leftarrow> ctzll word; Some (int (word_idx * 64 + c)) }
        else do {
          let l2_word_idx = word_idx div 64;
          let bit_in_l2 = word_idx mod 64;
          let l2_mask = (if bit_in_l2 = 63 then 0 else push_bit (bit_in_l2 + 1) (- 1));
          v \<leftarrow> arr_get L2_WORDS (bm_l2 b) l2_word_idx;
          let l2_word = v AND l2_mask;
          if l2_word \<noteq> 0 then do { c \<leftarrow> ctzll l2_word; first_price_in b (l2_word_idx * 64 + c) }
          else ask_groups b (l2_word_idx + 1) } })"

text \<open>Step 3 of \<open>find_next_bid\<close>: \<open>for (i = l2_word_idx - 1; i >= 0; --i)\<close>; the argument is
  the number of groups still to visit, \<open>i + 1\<close>.\<close>

fun bid_groups :: "bitmap2 \<Rightarrow> nat \<Rightarrow> int option" where
  "bid_groups b 0 = Some (- 1)"
| "bid_groups b (Suc i) = do {
     v \<leftarrow> arr_get L2_WORDS (bm_l2 b) i;
     if v \<noteq> 0 then do { c \<leftarrow> clzll v; last_price_in b (i * 64 + (63 - c)) }
     else bid_groups b i }"

definition find_next_bid :: "bitmap2 \<Rightarrow> nat \<Rightarrow> int option" where
  "find_next_bid b start_price =
     (let word_idx = start_price div 64 in do {
        w \<leftarrow> arr_get L1_WORDS (bm_l1 b) word_idx;
        let word = w AND drop_bit (63 - start_price mod 64) (- 1);
        if word \<noteq> 0 then do { c \<leftarrow> clzll word; Some (int (word_idx * 64 + (63 - c))) }
        else do {
          let l2_word_idx = word_idx div 64;
          let bit_in_l2 = word_idx mod 64;
          let l2_mask = (if bit_in_l2 = 0 then 0 else drop_bit (64 - bit_in_l2) (- 1));
          v \<leftarrow> arr_get L2_WORDS (bm_l2 b) l2_word_idx;
          let l2_word = v AND l2_mask;
          if l2_word \<noteq> 0 then do { c \<leftarrow> clzll l2_word; last_price_in b (l2_word_idx * 64 + (63 - c)) }
          else bid_groups b l2_word_idx } })"

section \<open>The interface: a set of prices\<close>

definition next_ask :: "nat set \<Rightarrow> nat \<Rightarrow> int" where
  "next_ask S a = (if {p \<in> S. a \<le> p} = {} then - 1 else int (Min {p \<in> S. a \<le> p}))"

definition next_bid :: "nat set \<Rightarrow> nat \<Rightarrow> int" where
  "next_bid S a = (if {p \<in> S. p \<le> a} = {} then - 1 else int (Max {p \<in> S. p \<le> a}))"

locale price_index =
  fixes rep :: "'b \<Rightarrow> nat set \<Rightarrow> bool"
    and set_price :: "'b \<Rightarrow> nat \<Rightarrow> 'b option"
    and clear_price :: "'b \<Rightarrow> nat \<Rightarrow> 'b option"
    and next_up :: "'b \<Rightarrow> nat \<Rightarrow> int option"
    and next_down :: "'b \<Rightarrow> nat \<Rightarrow> int option"
  assumes rep_range: "rep b S \<Longrightarrow> S \<subseteq> {..<MAX_PRICE}"
    and set_spec: "rep b S \<Longrightarrow> p < MAX_PRICE \<Longrightarrow> \<exists>b1. set_price b p = Some b1 \<and> rep b1 (insert p S)"
    and clear_spec: "rep b S \<Longrightarrow> p < MAX_PRICE \<Longrightarrow> \<exists>b1. clear_price b p = Some b1 \<and> rep b1 (S - {p})"
    and up_spec: "rep b S \<Longrightarrow> a \<le> MAX_PRICE \<Longrightarrow> next_up b a = Some (next_ask S a)"
    and down_spec: "rep b S \<Longrightarrow> a < MAX_PRICE \<Longrightarrow> next_down b a = Some (next_bid S a)"
begin

text \<open>Clearing the level just emptied and searching on from it finds the next level of the
  remaining set.\<close>

lemma clear_then_up:
  assumes "rep b S" and "p < MAX_PRICE"
  obtains b1 where "clear_price b p = Some b1" "rep b1 (S - {p})"
    "next_up b1 (p + 1) = Some (next_ask (S - {p}) (p + 1))"
    "next_up b1 p = Some (next_ask (S - {p}) p)"
proof -
  obtain b1 where b1: "clear_price b p = Some b1" "rep b1 (S - {p})"
    using clear_spec [OF assms] by blast
  show thesis using that [OF b1] up_spec [OF b1(2)] assms(2) by simp
qed

lemma clear_then_down:
  assumes "rep b S" and "p < MAX_PRICE"
  obtains b1 where "clear_price b p = Some b1" "rep b1 (S - {p})"
    "next_down b1 (p - 1) = Some (next_bid (S - {p}) (p - 1))"
    "next_down b1 p = Some (next_bid (S - {p}) p)"
proof -
  obtain b1 where b1: "clear_price b p = Some b1" "rep b1 (S - {p})"
    using clear_spec [OF assms] by blast
  show thesis using that [OF b1] down_spec [OF b1(2)] assms(2) by simp
qed

end

section \<open>Bit scans\<close>

lemma first_hit:
  assumes "\<exists>n < m. P n"
  shows "P (length (takeWhile (\<lambda>n. \<not> P n) [0..<m]))"
    and "length (takeWhile (\<lambda>n. \<not> P n) [0..<m]) < m"
    and "k < length (takeWhile (\<lambda>n. \<not> P n) [0..<m]) \<Longrightarrow> \<not> P k"
proof -
  let ?t = "takeWhile (\<lambda>n. \<not> P n) [0..<m]"
  have "\<not> (\<forall>x \<in> set [0..<m]. \<not> P x)" using assms by auto
  then have "?t \<noteq> [0..<m]" by (metis takeWhile_eq_all_conv)
  then show l: "length ?t < m"
    using length_takeWhile_le [of _ "[0..<m]"]
    by (metis append.right_neutral append_take_drop_id diff_zero le_neq_implies_less length_upt
        takeWhile_dropWhile_id append_eq_append_conv)
  then show "P (length ?t)" using nth_length_takeWhile [of "\<lambda>n. \<not> P n" "[0..<m]"] by simp
  show "\<not> P k" if k: "k < length ?t"
  proof -
    have "?t ! k = k" using takeWhile_nth [OF k] k l by simp
    then show ?thesis using nth_mem [OF k] set_takeWhileD [of k "\<lambda>n. \<not> P n" "[0..<m]"] by simp
  qed
qed

lemma bit_u64_ex: "(w :: u64) \<noteq> 0 \<Longrightarrow> \<exists>n < 64. bit w n"
proof (rule ccontr)
  assume "w \<noteq> 0" and "\<not> (\<exists>n < 64. bit w n)"
  then have "w = 0" by (intro bit_eqI) simp
  with \<open>w \<noteq> 0\<close> show False by simp
qed

lemma ctzll_Some:
  assumes "w \<noteq> 0"
  obtains c where "ctzll w = Some c" "c < 64" "bit w c" "\<forall>k. bit w k \<longrightarrow> c \<le> k"
proof -
  let ?c = "length (takeWhile (\<lambda>n. \<not> bit w n) [0..<64])"
  note h = first_hit [OF bit_u64_ex [OF assms]]
  show thesis
  proof (rule that [of ?c])
    show "ctzll w = Some ?c" using assms by (simp add: ctzll_def)
    show "\<forall>k. bit w k \<longrightarrow> ?c \<le> k" using h(3) by (meson not_le)
  qed (use h in simp_all)
qed

lemma clzll_Some:
  assumes "w \<noteq> 0"
  obtains c where "clzll w = Some c" "c < 64" "bit w (63 - c)" "\<forall>k. bit w k \<longrightarrow> k \<le> 63 - c"
proof -
  let ?c = "length (takeWhile (\<lambda>n. \<not> bit w (63 - n)) [0..<64])"
  obtain n where "n < 64" "bit w n" using bit_u64_ex [OF assms] by blast
  then have "\<exists>n < 64. bit w (63 - n)" by (intro exI [of _ "63 - n"]) simp
  note h = first_hit [OF this]
  show thesis
  proof (rule that [of ?c])
    show "clzll w = Some ?c" using assms by (simp add: clzll_def)
    show "\<forall>k. bit w k \<longrightarrow> k \<le> 63 - ?c"
    proof (intro allI impI, rule ccontr)
      fix k assume that: "bit w k"
      assume "\<not> k \<le> 63 - ?c"
      moreover have "k < 64" using that bit_imp_le_length [of w k] by simp
      ultimately have "63 - k < ?c" and "63 - (63 - k) = k" by auto
      then show False using h(3) [of "63 - k"] that by simp
    qed
  qed (use h in simp_all)
qed

lemma bit_mask_up: "bit (w AND push_bit k (- 1) :: u64) n \<longleftrightarrow> bit w n \<and> k \<le> n"
  using bit_imp_le_length [of w n] by (auto simp: bit_simps)

lemma bit_mask_down: "k \<le> 63 \<Longrightarrow> bit (w AND drop_bit (63 - k) (- 1) :: u64) n \<longleftrightarrow> bit w n \<and> n \<le> k"
  using bit_imp_le_length [of w n] by (auto simp: bit_simps)

lemma word_zero_iff: "(w :: u64) = 0 \<longleftrightarrow> (\<forall>n. \<not> bit w n)"
  by (auto intro: bit_eqI)

section \<open>The bitmaps implement the interface\<close>

definition bm_rep :: "bitmap2 \<Rightarrow> nat set \<Rightarrow> bool" where
  "bm_rep b S \<longleftrightarrow> S \<subseteq> {..<MAX_PRICE}
     \<and> (\<forall>i < L1_WORDS. \<forall>n < 64. bit (bm_l1 b i) n \<longleftrightarrow> i * 64 + n \<in> S)
     \<and> (\<forall>g < L2_WORDS. \<forall>n < 64. bit (bm_l2 b g) n \<longleftrightarrow> g * 64 + n < L1_WORDS \<and> bm_l1 b (g * 64 + n) \<noteq> 0)"

lemma bm_rep_finite: "bm_rep b S \<Longrightarrow> finite S"
  by (auto simp: bm_rep_def intro: finite_subset)

lemma bm_init_rep: "bm_rep bm_init {}"
  by (simp add: bm_rep_def bm_init_def)

lemma l1_index: "p \<le> MAX_PRICE \<Longrightarrow> p div 64 < L1_WORDS"
  by (simp add: MAX_PRICE_def L1_WORDS_def)

lemma l2_index: "i < L1_WORDS \<Longrightarrow> i div 64 < L2_WORDS"
  by (simp add: MAX_PRICE_def L1_WORDS_def L2_WORDS_def)

lemma bm_l1_bit:
  assumes "bm_rep b S" and "p < MAX_PRICE"
  shows "bit (bm_l1 b (p div 64)) (p mod 64) \<longleftrightarrow> p \<in> S"
  using assms l1_index [of p] by (auto simp: bm_rep_def)

lemma bm_l1_nonzero: "bm_rep b S \<Longrightarrow> p \<in> S \<Longrightarrow> bm_l1 b (p div 64) \<noteq> 0"
  using bm_l1_bit [of b S p] by (auto simp: bm_rep_def)

lemma bm_l2_bit:
  assumes "bm_rep b S" and "i < L1_WORDS"
  shows "bit (bm_l2 b (i div 64)) (i mod 64) \<longleftrightarrow> bm_l1 b i \<noteq> 0"
  using assms l2_index [of i] by (auto simp: bm_rep_def)

lemma split64: "(n::nat) < 64 \<Longrightarrow> g * 64 + n = x \<longleftrightarrow> g = x div 64 \<and> n = x mod 64"
  by auto

lemma bm_set_spec:
  assumes r: "bm_rep b S" and p: "p < MAX_PRICE"
  shows "\<exists>b1. bm_set_bit b p = Some b1 \<and> bm_rep b1 (insert p S)"
proof -
  let ?i = "p div 64"
  have i: "?i < L1_WORDS" "?i div 64 < L2_WORDS" using l1_index [of p] l2_index [of ?i] p by auto
  let ?w = "bm_l1 b ?i OR push_bit (p mod 64) 1" and ?v = "bm_l2 b (?i div 64) OR push_bit (?i mod 64) 1"
  define b1 where "b1 = \<lparr> bm_l1 = (bm_l1 b)(?i := ?w), bm_l2 = (bm_l2 b)(?i div 64 := ?v) \<rparr>"
  have "bm_set_bit b p = Some b1"
    using i by (simp add: bm_set_bit_def b1_def arr_simps Let_def)
  moreover have "bit ?w (p mod 64)" by (simp add: bit_simps)
  then have "?w \<noteq> 0" by auto
  have "bm_rep b1 (insert p S)"
    unfolding bm_rep_def
  proof (intro conjI allI impI)
    show "insert p S \<subseteq> {..<MAX_PRICE}" using r p by (simp add: bm_rep_def)
  next
    fix j n assume jn: "j < L1_WORDS" "n < (64::nat)"
    have "j * 64 + n = p \<longleftrightarrow> j = ?i \<and> n = p mod 64" using jn(2) by (rule split64)
    then show "bit (bm_l1 b1 j) n \<longleftrightarrow> j * 64 + n \<in> insert p S"
      using r jn by (auto simp: b1_def bm_rep_def bit_simps)
  next
    fix g n assume gn: "g < L2_WORDS" "n < (64::nat)"
    have "g * 64 + n = ?i \<longleftrightarrow> g = ?i div 64 \<and> n = ?i mod 64" using gn(2) by (rule split64)
    then show "bit (bm_l2 b1 g) n \<longleftrightarrow> g * 64 + n < L1_WORDS \<and> bm_l1 b1 (g * 64 + n) \<noteq> 0"
      using r gn i \<open>?w \<noteq> 0\<close> by (auto simp: b1_def bm_rep_def bit_simps)
  qed
  ultimately show ?thesis by blast
qed

lemma bm_clear_spec:
  assumes r: "bm_rep b S" and p: "p < MAX_PRICE"
  shows "\<exists>b1. bm_clear_bit b p = Some b1 \<and> bm_rep b1 (S - {p})"
proof -
  let ?i = "p div 64"
  have i: "?i < L1_WORDS" "?i div 64 < L2_WORDS" using l1_index [of p] l2_index [of ?i] p by auto
  define w where "w = bm_l1 b ?i AND NOT (push_bit (p mod 64) 1)"
  define v where "v = (if w = 0 then bm_l2 b (?i div 64) AND NOT (push_bit (?i mod 64) 1) else bm_l2 b (?i div 64))"
  define b1 where "b1 = \<lparr> bm_l1 = (bm_l1 b)(?i := w), bm_l2 = (bm_l2 b)(?i div 64 := v) \<rparr>"
  have eq: "bm_clear_bit b p = Some b1"
    using i by (simp add: bm_clear_bit_def b1_def v_def w_def arr_simps Let_def)
  have wz: "w \<noteq> 0 \<Longrightarrow> bm_l1 b ?i \<noteq> 0" by (auto simp: w_def)
  have "bm_rep b1 (S - {p})"
    unfolding bm_rep_def
  proof (intro conjI allI impI)
    show "S - {p} \<subseteq> {..<MAX_PRICE}" using r by (auto simp: bm_rep_def)
  next
    fix j n assume jn: "j < L1_WORDS" "n < (64::nat)"
    have "j * 64 + n = p \<longleftrightarrow> j = ?i \<and> n = p mod 64" using jn(2) by (rule split64)
    then show "bit (bm_l1 b1 j) n \<longleftrightarrow> j * 64 + n \<in> S - {p}"
      using r jn by (auto simp: b1_def w_def bm_rep_def bit_simps)
  next
    fix g n assume gn: "g < L2_WORDS" "n < (64::nat)"
    have "g * 64 + n = ?i \<longleftrightarrow> g = ?i div 64 \<and> n = ?i mod 64" using gn(2) by (rule split64)
    moreover have "bit (bm_l2 b g) n \<longleftrightarrow> g * 64 + n < L1_WORDS \<and> bm_l1 b (g * 64 + n) \<noteq> 0"
      using r gn by (simp add: bm_rep_def)
    ultimately show "bit (bm_l2 b1 g) n \<longleftrightarrow> g * 64 + n < L1_WORDS \<and> bm_l1 b1 (g * 64 + n) \<noteq> 0"
      using gn i wz by (auto simp: b1_def v_def bit_simps)
  qed
  then show ?thesis using eq by blast
qed

text \<open>The first price of a non-empty word is the least price of the set in that word.\<close>

lemma first_price_in_spec:
  assumes r: "bm_rep b S" and i: "i < L1_WORDS" "bm_l1 b i \<noteq> 0"
  shows "\<exists>p. first_price_in b i = Some (int p) \<and> p \<in> S \<and> p div 64 = i \<and> (\<forall>q \<in> S. q div 64 = i \<longrightarrow> p \<le> q)"
proof -
  obtain c where c: "ctzll (bm_l1 b i) = Some c" "c < 64" "bit (bm_l1 b i) c" "\<forall>k. bit (bm_l1 b i) k \<longrightarrow> c \<le> k"
    using ctzll_Some [OF i(2)] by blast
  have "i * 64 + c \<le> q" if "q \<in> S" "q div 64 = i" for q
  proof -
    have "c \<le> q mod 64" using c(4) bm_l1_bit [OF r, of q] that r by (auto simp: bm_rep_def)
    then show ?thesis using that(2) div_mult_mod_eq [of q 64] by simp
  qed
  moreover have "i * 64 + c \<in> S" using r c i by (simp add: bm_rep_def)
  ultimately show ?thesis
    using c i by (intro exI [of _ "i * 64 + c"]) (simp add: first_price_in_def arr_simps)
qed

lemma last_price_in_spec:
  assumes r: "bm_rep b S" and i: "i < L1_WORDS" "bm_l1 b i \<noteq> 0"
  shows "\<exists>p. last_price_in b i = Some (int p) \<and> p \<in> S \<and> p div 64 = i \<and> (\<forall>q \<in> S. q div 64 = i \<longrightarrow> q \<le> p)"
proof -
  obtain c where c: "clzll (bm_l1 b i) = Some c" "c < 64" "bit (bm_l1 b i) (63 - c)"
    "\<forall>k. bit (bm_l1 b i) k \<longrightarrow> k \<le> 63 - c"
    using clzll_Some [OF i(2)] by blast
  have "q \<le> i * 64 + (63 - c)" if "q \<in> S" "q div 64 = i" for q
  proof -
    have "q mod 64 \<le> 63 - c" using c(4) bm_l1_bit [OF r, of q] that r by (auto simp: bm_rep_def)
    then show ?thesis using that(2) div_mult_mod_eq [of q 64] by simp
  qed
  moreover have "i * 64 + (63 - c) \<in> S" using r c i by (simp add: bm_rep_def)
  ultimately show ?thesis
    using c i by (intro exI [of _ "i * 64 + (63 - c)"]) (simp add: last_price_in_def arr_simps)
qed

lemma next_ask_eqI:
  "finite S \<Longrightarrow> p \<in> S \<Longrightarrow> a \<le> p \<Longrightarrow> (\<And>q. q \<in> S \<Longrightarrow> a \<le> q \<Longrightarrow> p \<le> q) \<Longrightarrow> next_ask S a = int p"
  by (auto simp: next_ask_def intro!: Min_eqI)

lemma next_bid_eqI:
  "finite S \<Longrightarrow> p \<in> S \<Longrightarrow> p \<le> a \<Longrightarrow> (\<And>q. q \<in> S \<Longrightarrow> q \<le> a \<Longrightarrow> q \<le> p) \<Longrightarrow> next_bid S a = int p"
  by (auto simp: next_bid_def intro!: Max_eqI)

text \<open>Once every candidate lies in word \<open>i\<close> or above (below), scanning word \<open>i\<close> answers the search.\<close>

lemma first_price_is_next:
  assumes r: "bm_rep b S" and i: "i < L1_WORDS" "bm_l1 b i \<noteq> 0" and a: "a div 64 < i"
    and all: "\<And>q. q \<in> S \<Longrightarrow> a \<le> q \<Longrightarrow> i \<le> q div 64"
  shows "first_price_in b i = Some (next_ask S a)"
proof -
  obtain p where p: "first_price_in b i = Some (int p)" "p \<in> S" "p div 64 = i"
    "\<forall>q \<in> S. q div 64 = i \<longrightarrow> p \<le> q"
    using first_price_in_spec [OF r i] by blast
  have "a \<le> p" using a p(3) div_le_mono [of p a 64] by (meson not_le less_imp_le)
  moreover have "p \<le> q" if "q \<in> S" "a \<le> q" for q
    using all [OF that] p(3,4) that(1) div_le_mono [of q p 64]
    by (metis le_neq_implies_less less_imp_le not_le)
  ultimately have "next_ask S a = int p"
    using p by (intro next_ask_eqI bm_rep_finite [OF r])
  then show ?thesis using p by simp
qed

lemma last_price_is_next:
  assumes r: "bm_rep b S" and i: "i < L1_WORDS" "bm_l1 b i \<noteq> 0" and a: "i < a div 64"
    and all: "\<And>q. q \<in> S \<Longrightarrow> q \<le> a \<Longrightarrow> q div 64 \<le> i"
  shows "last_price_in b i = Some (next_bid S a)"
proof -
  obtain p where p: "last_price_in b i = Some (int p)" "p \<in> S" "p div 64 = i"
    "\<forall>q \<in> S. q div 64 = i \<longrightarrow> q \<le> p"
    using last_price_in_spec [OF r i] by blast
  have "p \<le> a" using a p(3) div_le_mono [of a p 64] by (meson not_le less_imp_le)
  moreover have "q \<le> p" if "q \<in> S" "q \<le> a" for q
    using all [OF that] p(3,4) that(1) div_le_mono [of p q 64]
    by (metis le_neq_implies_less less_imp_le not_le)
  ultimately have "next_bid S a = int p"
    using p by (intro next_bid_eqI bm_rep_finite [OF r])
  then show ?thesis using p by simp
qed

lemma group_up: "i \<le> w div 64 \<Longrightarrow> (w div 64 = i \<Longrightarrow> c \<le> w mod 64) \<Longrightarrow> c < 64 \<Longrightarrow> i * 64 + c \<le> (w::nat)"
  using div_mult_mod_eq [of w 64] by (cases "w div 64 = i") auto

lemma group_down: "w div 64 \<le> i \<Longrightarrow> (w div 64 = i \<Longrightarrow> w mod 64 \<le> c) \<Longrightarrow> (w::nat) \<le> i * 64 + c"
  using div_mult_mod_eq [of w 64] by (cases "w div 64 = i") auto

lemma same_group_less:
  assumes "x \<le> y" and "x \<noteq> y" and "x div 64 = y div (64::nat)"
  shows "x mod 64 < y mod 64"
  using assms div_mult_mod_eq [of x 64] div_mult_mod_eq [of y 64] by linarith

lemma bm_price_l2:
  assumes "bm_rep b S" and "q \<in> S"
  shows "bit (bm_l2 b (q div 64 div 64)) (q div 64 mod 64)" and "q div 64 div 64 < L2_WORDS"
proof -
  have "q div 64 < L1_WORDS" using assms l1_index [of q] by (auto simp: bm_rep_def)
  then show "bit (bm_l2 b (q div 64 div 64)) (q div 64 mod 64)" and "q div 64 div 64 < L2_WORDS"
    using bm_l2_bit [OF assms(1)] bm_l1_nonzero [OF assms] l2_index by auto
qed

lemma bm_l2_bitD:
  assumes "bm_rep b S" and "g < L2_WORDS" and "bit (bm_l2 b g) c"
  shows "g * 64 + c < L1_WORDS" and "bm_l1 b (g * 64 + c) \<noteq> 0" and "c < 64"
  using assms bit_imp_le_length [OF assms(3)] by (auto simp: bm_rep_def)

lemma ask_groups_spec:
  assumes r: "bm_rep b S" and i: "a div 64 div 64 < i"
    and all: "\<forall>q \<in> S. a \<le> q \<longrightarrow> i \<le> q div 64 div 64"
  shows "ask_groups b i = Some (next_ask S a)"
  using i all
proof (induction "L2_WORDS - i" arbitrary: i rule: less_induct)
  case less
  consider "\<not> i < L2_WORDS" | "i < L2_WORDS" "bm_l2 b i = 0" | "i < L2_WORDS" "bm_l2 b i \<noteq> 0" by blast
  then show ?case
  proof cases
    case 1
    have none: "{q \<in> S. a \<le> q} = {}"
      using less.prems(2) 1 bm_price_l2(2) [OF r] by fastforce
    show ?thesis unfolding ask_groups.simps [of b i] using 1 none by (simp add: next_ask_def)
  next
    case 2
    have "i \<noteq> q div 64 div 64" if "q \<in> S" for q using bm_price_l2(1) [OF r that] 2 by auto
    then have "\<forall>q \<in> S. a \<le> q \<longrightarrow> Suc i \<le> q div 64 div 64"
      using less.prems(2) by (metis Suc_leI le_neq_implies_less)
    then have "ask_groups b (Suc i) = Some (next_ask S a)"
      using less.hyps [of "Suc i"] less.prems(1) 2 by simp
    then show ?thesis unfolding ask_groups.simps [of b i] using 2 by (simp add: arr_simps del: ask_groups.simps)
  next
    case 3
    then obtain c where c: "ctzll (bm_l2 b i) = Some c" "bit (bm_l2 b i) c"
      "\<forall>k. bit (bm_l2 b i) k \<longrightarrow> c \<le> k"
      using ctzll_Some by blast
    note w = bm_l2_bitD [OF r 3(1) c(2)]
    have "first_price_in b (i * 64 + c) = Some (next_ask S a)"
    proof (rule first_price_is_next [OF r w(1,2)])
      show "a div 64 < i * 64 + c" using less.prems(1) by linarith
      fix q assume q: "q \<in> S" "a \<le> q"
      then show "i * 64 + c \<le> q div 64"
        using less.prems(2) c(3) bm_price_l2(1) [OF r q(1)] w(3) by (intro group_up) auto
    qed
    then show ?thesis unfolding ask_groups.simps [of b i] using c 3 by (simp add: arr_simps del: ask_groups.simps)
  qed
qed

lemma bid_groups_spec:
  assumes r: "bm_rep b S" and "n \<le> a div 64 div 64" and "n \<le> L2_WORDS"
    and "\<forall>q \<in> S. q \<le> a \<longrightarrow> q div 64 div 64 < n"
  shows "bid_groups b n = Some (next_bid S a)"
  using assms(2-)
proof (induction n)
  case 0
  then show ?case by (auto simp: next_bid_def)
next
  case (Suc i)
  show ?case
  proof (cases "bm_l2 b i = 0")
    case True
    have "i \<noteq> q div 64 div 64" if "q \<in> S" for q using bm_price_l2(1) [OF r that] True by auto
    then have "bid_groups b i = Some (next_bid S a)"
      using Suc by (metis Suc_leD less_antisym)
    then show ?thesis using True Suc.prems by (simp add: arr_simps)
  next
    case False
    then obtain c where c: "clzll (bm_l2 b i) = Some c" "bit (bm_l2 b i) (63 - c)"
      "\<forall>k. bit (bm_l2 b i) k \<longrightarrow> k \<le> 63 - c"
      using clzll_Some by blast
    have i: "i < L2_WORDS" using Suc.prems by simp
    note w = bm_l2_bitD [OF r i c(2)]
    have "last_price_in b (i * 64 + (63 - c)) = Some (next_bid S a)"
    proof (rule last_price_is_next [OF r w(1,2)])
      show "i * 64 + (63 - c) < a div 64" using Suc.prems(1) w(3) by linarith
      fix q assume q: "q \<in> S" "q \<le> a"
      then show "q div 64 \<le> i * 64 + (63 - c)"
        using Suc.prems(3) c(3) bm_price_l2(1) [OF r q(1)] by (intro group_down) auto
    qed
    then show ?thesis using c i False by (simp add: arr_simps)
  qed
qed

lemma l2_mask_up: "k < 64 \<Longrightarrow> bit (w AND (if k = 63 then 0 else push_bit (k + 1) (- 1)) :: u64) n \<longleftrightarrow> bit w n \<and> k < n"
  using bit_imp_le_length [of w n] by (auto simp: bit_simps)

lemma l2_mask_down: "k < 64 \<Longrightarrow> bit (w AND (if k = 0 then 0 else drop_bit (64 - k) (- 1)) :: u64) n \<longleftrightarrow> bit w n \<and> n < k"
  using bit_imp_le_length [of w n] by (auto simp: bit_simps)

text \<open>When no price from \<open>a\<close> upwards (downwards) is in \<open>a\<close>'s own L1 word, the L2 words answer.\<close>

lemma ask_l2_search:
  assumes r: "bm_rep b S" and g: "g = a div 64 div 64" "g < L2_WORDS"
    and ne: "\<And>q. q \<in> S \<Longrightarrow> a \<le> q \<Longrightarrow> q div 64 \<noteq> a div 64"
    and vbit: "\<And>n. bit v n \<longleftrightarrow> bit (bm_l2 b g) n \<and> a div 64 mod 64 < n"
  shows "(if v \<noteq> 0 then do { c \<leftarrow> ctzll v; first_price_in b (g * 64 + c) } else ask_groups b (g + 1))
    = Some (next_ask S a)"
proof -
  have cand: "bit v (q div 64 mod 64)" if "q \<in> S" "a \<le> q" "q div 64 div 64 = g" for q
    using same_group_less [of "a div 64" "q div 64"] bm_price_l2(1) [OF r that(1)] vbit ne that g(1)
    by (metis div_le_mono)
  show ?thesis
  proof (cases "v = 0")
    case True
    have "g + 1 \<le> q div 64 div 64" if q: "q \<in> S" "a \<le> q" for q
      using cand [OF q] True div_le_mono [OF div_le_mono [OF q(2), of 64], of 64] g(1) by fastforce
    then have "ask_groups b (g + 1) = Some (next_ask S a)" using g(1) by (intro ask_groups_spec [OF r]) auto
    then show ?thesis using True by simp
  next
    case False
    then obtain c where c: "ctzll v = Some c" "c < 64" "bit v c" "\<forall>k. bit v k \<longrightarrow> c \<le> k"
      using ctzll_Some by blast
    have c2: "bit (bm_l2 b g) c" "a div 64 mod 64 < c" using c(3) vbit by auto
    note w = bm_l2_bitD [OF r g(2) c2(1)]
    have "first_price_in b (g * 64 + c) = Some (next_ask S a)"
    proof (rule first_price_is_next [OF r w(1,2)])
      show "a div 64 < g * 64 + c" using c2(2) div_mult_mod_eq [of "a div 64" 64] g(1) by linarith
      show "g * 64 + c \<le> q div 64" if "q \<in> S" "a \<le> q" for q
        using c(2,4) cand [OF that] g(1) that(2) by (intro group_up) (auto intro: div_le_mono)
    qed
    then show ?thesis using False c by simp
  qed
qed

lemma find_next_ask_spec:
  assumes r: "bm_rep b S" and a: "a \<le> MAX_PRICE"
  shows "find_next_ask b a = Some (next_ask S a)"
proof -
  let ?i = "a div 64" and ?g = "a div 64 div 64"
  have i: "?i < L1_WORDS" "?g < L2_WORDS" using l1_index [OF a] l2_index by auto
  define w where "w = bm_l1 b ?i AND push_bit (a mod 64) (- 1)"
  have wbit: "bit w n \<longleftrightarrow> bit (bm_l1 b ?i) n \<and> a mod 64 \<le> n" for n
    unfolding w_def by (rule bit_mask_up)
  have inw: "bit w (q mod 64)" if "q \<in> S" "a \<le> q" "q div 64 = ?i" for q
  proof -
    have "q < MAX_PRICE" using that r by (auto simp: bm_rep_def)
    moreover have "a mod 64 \<le> q mod 64" using that(2,3) div_mult_mod_eq [of a 64] div_mult_mod_eq [of q 64] by linarith
    ultimately show ?thesis using bm_l1_bit [OF r, of q] that wbit by auto
  qed
  show ?thesis
  proof (cases "w = 0")
    case False
    then obtain c where c: "ctzll w = Some c" "c < 64" "bit w c" "\<forall>k. bit w k \<longrightarrow> c \<le> k"
      using ctzll_Some by blast
    have "next_ask S a = int (?i * 64 + c)"
    proof (rule next_ask_eqI [OF bm_rep_finite [OF r]])
      show "?i * 64 + c \<in> S" using r i c wbit by (simp add: bm_rep_def)
      show "a \<le> ?i * 64 + c" using c(3) wbit by (intro group_down) auto
      show "?i * 64 + c \<le> q" if "q \<in> S" "a \<le> q" for q
        using c inw that by (intro group_up div_le_mono) auto
    qed
    then show ?thesis using False c i w_def [symmetric] by (simp add: find_next_ask_def arr_simps Let_def)
  next
    case True
    then have "\<And>q. q \<in> S \<Longrightarrow> a \<le> q \<Longrightarrow> q div 64 \<noteq> ?i" using inw by auto
    note l2 = ask_l2_search [OF r refl i(2) this l2_mask_up [of "?i mod 64" "bm_l2 b ?g"]]
    show ?thesis using True i w_def [symmetric] l2
      by (simp add: find_next_ask_def arr_simps Let_def del: ask_groups.simps)
  qed
qed

lemma bid_l2_search:
  assumes r: "bm_rep b S" and g: "g = a div 64 div 64" "g < L2_WORDS"
    and ne: "\<And>q. q \<in> S \<Longrightarrow> q \<le> a \<Longrightarrow> q div 64 \<noteq> a div 64"
    and vbit: "\<And>n. bit v n \<longleftrightarrow> bit (bm_l2 b g) n \<and> n < a div 64 mod 64"
  shows "(if v \<noteq> 0 then do { c \<leftarrow> clzll v; last_price_in b (g * 64 + (63 - c)) } else bid_groups b g)
    = Some (next_bid S a)"
proof -
  have cand: "bit v (q div 64 mod 64)" if "q \<in> S" "q \<le> a" "q div 64 div 64 = g" for q
    using same_group_less [of "q div 64" "a div 64"] bm_price_l2(1) [OF r that(1)] vbit ne that g(1)
    by (metis div_le_mono)
  show ?thesis
  proof (cases "v = 0")
    case True
    have "q div 64 div 64 < g" if q: "q \<in> S" "q \<le> a" for q
      using cand [OF q] True div_le_mono [OF div_le_mono [OF q(2), of 64], of 64] g(1) by fastforce
    then have "bid_groups b g = Some (next_bid S a)" using g by (intro bid_groups_spec [OF r]) auto
    then show ?thesis using True by simp
  next
    case False
    then obtain c where c: "clzll v = Some c" "bit v (63 - c)" "\<forall>k. bit v k \<longrightarrow> k \<le> 63 - c"
      using clzll_Some by blast
    have c2: "bit (bm_l2 b g) (63 - c)" "63 - c < a div 64 mod 64" using c(2) vbit by auto
    note w = bm_l2_bitD [OF r g(2) c2(1)]
    have "last_price_in b (g * 64 + (63 - c)) = Some (next_bid S a)"
    proof (rule last_price_is_next [OF r w(1,2)])
      show "g * 64 + (63 - c) < a div 64" using c2(2) div_mult_mod_eq [of "a div 64" 64] g(1) by linarith
      show "q div 64 \<le> g * 64 + (63 - c)" if "q \<in> S" "q \<le> a" for q
        using c(3) cand [OF that] g(1) that(2) by (intro group_down) (auto intro: div_le_mono)
    qed
    then show ?thesis using False c by simp
  qed
qed

lemma find_next_bid_spec:
  assumes r: "bm_rep b S" and a: "a < MAX_PRICE"
  shows "find_next_bid b a = Some (next_bid S a)"
proof -
  let ?i = "a div 64" and ?g = "a div 64 div 64"
  have i: "?i < L1_WORDS" "?g < L2_WORDS" using l1_index [of a] l2_index a by auto
  define w where "w = bm_l1 b ?i AND drop_bit (63 - a mod 64) (- 1)"
  have wbit: "bit w n \<longleftrightarrow> bit (bm_l1 b ?i) n \<and> n \<le> a mod 64" for n
    unfolding w_def by (rule bit_mask_down) simp
  have inw: "bit w (q mod 64)" if "q \<in> S" "q \<le> a" "q div 64 = ?i" for q
  proof -
    have "q mod 64 \<le> a mod 64" using that(2,3) div_mult_mod_eq [of a 64] div_mult_mod_eq [of q 64] by linarith
    then show ?thesis using bm_l1_bit [OF r, of q] that wbit a by auto
  qed
  show ?thesis
  proof (cases "w = 0")
    case False
    then obtain c where c: "clzll w = Some c" "bit w (63 - c)" "\<forall>k. bit w k \<longrightarrow> k \<le> 63 - c"
      using clzll_Some by blast
    have "next_bid S a = int (?i * 64 + (63 - c))"
    proof (rule next_bid_eqI [OF bm_rep_finite [OF r]])
      show "?i * 64 + (63 - c) \<in> S" using r i c wbit by (simp add: bm_rep_def)
      show "?i * 64 + (63 - c) \<le> a" using c(2) wbit by (intro group_up) auto
      show "q \<le> ?i * 64 + (63 - c)" if "q \<in> S" "q \<le> a" for q
        using c inw that by (intro group_down div_le_mono) auto
    qed
    then show ?thesis using False c i w_def [symmetric] by (simp add: find_next_bid_def arr_simps Let_def)
  next
    case True
    then have "\<And>q. q \<in> S \<Longrightarrow> q \<le> a \<Longrightarrow> q div 64 \<noteq> ?i" using inw by auto
    note l2 = bid_l2_search [OF r refl i(2) this l2_mask_down [of "?i mod 64" "bm_l2 b ?g"]]
    show ?thesis using True i w_def [symmetric] l2
      by (simp add: find_next_bid_def arr_simps Let_def)
  qed
qed

interpretation bm: price_index bm_rep bm_set_bit bm_clear_bit find_next_ask find_next_bid
proof unfold_locales
  show "bm_rep b S \<Longrightarrow> S \<subseteq> {..<MAX_PRICE}" for b S by (simp add: bm_rep_def)
qed (simp_all add: bm_set_spec bm_clear_spec find_next_ask_spec find_next_bid_spec)

section \<open>Properties\<close>

text \<open>A run of level openings (\<open>set_bit\<close>) and closings (\<open>clear_bit\<close>), and the set of prices it leaves.\<close>

datatype bm_op = Open nat | Close nat

fun run_bitmap :: "bm_op list \<Rightarrow> bitmap2 \<Rightarrow> bitmap2 option" where
  "run_bitmap [] b = Some b"
| "run_bitmap (Open p # ops) b = Option.bind (bm_set_bit b p) (run_bitmap ops)"
| "run_bitmap (Close p # ops) b = Option.bind (bm_clear_bit b p) (run_bitmap ops)"

fun open_prices :: "bm_op list \<Rightarrow> nat set \<Rightarrow> nat set" where
  "open_prices [] S = S"
| "open_prices (Open p # ops) S = open_prices ops (insert p S)"
| "open_prices (Close p # ops) S = open_prices ops (S - {p})"

lemma run_bitmap_rep:
  assumes "bm_rep b S" and "\<And>p. Open p \<in> set ops \<or> Close p \<in> set ops \<Longrightarrow> p < MAX_PRICE"
  shows "\<exists>b1. run_bitmap ops b = Some b1 \<and> bm_rep b1 (open_prices ops S)"
  using assms
proof (induction ops arbitrary: b S)
  case (Cons op ops)
  show ?case
  proof (cases op)
    case (Open p)
    then obtain b1 where "bm_set_bit b p = Some b1" "bm_rep b1 (insert p S)"
      using bm.set_spec [OF Cons.prems(1), of p] Cons.prems(2) by auto
    then show ?thesis using Cons.IH [of b1 "insert p S"] Cons.prems(2) Open by auto
  next
    case (Close p)
    then obtain b1 where "bm_clear_bit b p = Some b1" "bm_rep b1 (S - {p})"
      using bm.clear_spec [OF Cons.prems(1), of p] Cons.prems(2) by auto
    then show ?thesis using Cons.IH [of b1 "S - {p}"] Cons.prems(2) Close by auto
  qed
qed simp

text \<open>
  C14. The price searches are exact. After any sequence of level openings and closings at prices of the
  ladder, \<open>find_next_ask\<close> from any start price up to and including \<open>MAX_PRICE\<close> returns the least open price at or
  above it and \<open>find_next_bid\<close> the greatest at or below it, or -1 if there is none; no word outside the bitmaps is
  read and no builtin scans a zero word.
\<close>

theorem price_search_exact:
  assumes "\<And>p. Open p \<in> set ops \<or> Close p \<in> set ops \<Longrightarrow> p < MAX_PRICE"
  shows "\<exists>b. run_bitmap ops bm_init = Some b
    \<and> (\<forall>a \<le> MAX_PRICE. find_next_ask b a = Some (next_ask (open_prices ops {}) a))
    \<and> (\<forall>a < MAX_PRICE. find_next_bid b a = Some (next_bid (open_prices ops {}) a))"
proof -
  obtain b where "run_bitmap ops bm_init = Some b" "bm_rep b (open_prices ops {})"
    using run_bitmap_rep [OF bm_init_rep assms] by blast
  then show ?thesis using bm.up_spec bm.down_spec by blast
qed

theorem price_search_exact_witness:
  "\<exists>b. run_bitmap [Open 63, Open 4096, Open 70000, Close 4096] bm_init = Some b
    \<and> find_next_ask b 64 = Some 70000 \<and> find_next_bid b 69999 = Some 63 \<and> find_next_ask b 70001 = Some (- 1)"
proof -
  have "p < MAX_PRICE" if "Open p \<in> set [Open 63, Open 4096, Open 70000, Close 4096] \<or> Close p \<in> set [Open 63, Open 4096, Open 70000, Close 4096]" for p
    using that by (auto simp: MAX_PRICE_def)
  from price_search_exact [OF this] obtain b where b: "run_bitmap [Open 63, Open 4096, Open 70000, Close 4096] bm_init = Some b"
    "\<forall>a \<le> MAX_PRICE. find_next_ask b a = Some (next_ask (open_prices [Open 63, Open 4096, Open 70000, Close 4096] {}) a)"
    "\<forall>a < MAX_PRICE. find_next_bid b a = Some (next_bid (open_prices [Open 63, Open 4096, Open 70000, Close 4096] {}) a)"
    by blast
  have S: "open_prices [Open 63, Open 4096, Open 70000, Close 4096] {} = {63, 70000}" by auto
  have "next_ask {63, 70000} 64 = 70000" "next_bid {63, 70000} 69999 = 63" "next_ask {63, 70000} 70001 = - 1"
    using next_ask_eqI [of "{63, 70000}" 70000 64] next_bid_eqI [of "{63, 70000}" 63 69999] by (auto simp: next_ask_def)
  then show ?thesis using b(1) b(2,3) [unfolded S MAX_PRICE_def] by simp
qed

end
