(* ===== verification/Memory_Pool.thy ===== *)
theory Memory_Pool
  imports Ring_Queue
begin

text \<open>
  \<open>MemoryPool\<close> (\<open>hft_engine/src/core/memory_pool.h\<close>): a fixed array of slots split into one
  slice per gateway worker. A worker takes a slot from its recycle queue, or else from the
  untouched part of its slice above the high-water mark; whoever frees a slot pushes its index to
  the recycle queue of the slice that owns it. Slot 0 is never handed out: it is the null handle.

  A slot pointer is its index. The slots that are currently handed out are not stored anywhere in
  the pool; the invariant \<open>pool_inv\<close> takes them as a set. The interface \<open>slot_allocator\<close> states
  what the gateway and the engine rely on.
\<close>

section \<open>State and operations\<close>

record 'a pool =
  pool_mem :: "nat \<Rightarrow> 'a"
  recycle_queues :: "nat \<Rightarrow> nat lfq"
  pool_capacity :: nat
  slice_capacity :: nat
  num_workers :: nat
  high_water_mark :: "nat \<Rightarrow> nat"

definition RECYCLE_CAPACITY :: nat where
  "RECYCLE_CAPACITY = 524288"

definition pool_start :: "nat \<Rightarrow> nat \<Rightarrow> nat" where
  "pool_start sl i = i * sl + (if i = 0 then 1 else 0)"

definition pool_init :: "nat \<Rightarrow> nat \<Rightarrow> (nat \<Rightarrow> 'a) \<Rightarrow> 'a pool" where
  "pool_init cap workers mem =
     \<lparr> pool_mem = mem, recycle_queues = (\<lambda>_. lfq_init RECYCLE_CAPACITY (\<lambda>_. 0)),
       pool_capacity = cap, slice_capacity = cap div workers, num_workers = workers,
       high_water_mark = pool_start (cap div workers) \<rparr>"

text \<open>\<open>allocate\<close>: \<open>Some (None, p)\<close> is the \<open>nullptr\<close> of an exhausted slice; the outer
  \<open>None\<close> is a worker index outside the pool's vectors.\<close>

definition pool_allocate :: "'a pool \<Rightarrow> nat \<Rightarrow> 'a \<Rightarrow> (nat option \<times> 'a pool) option" where
  "pool_allocate p w obj =
     (if w < num_workers p then
        case lfq_pop (recycle_queues p w) of
          (Some index, rq) \<Rightarrow>
            Some (Some index, p\<lparr> recycle_queues := (recycle_queues p)(w := rq),
                                 pool_mem := (pool_mem p)(index := obj) \<rparr>)
        | (None, rq) \<Rightarrow>
            (let p1 = p\<lparr> recycle_queues := (recycle_queues p)(w := rq) \<rparr>;
                 nxt = high_water_mark p w
             in if nxt < (w + 1) * slice_capacity p
                then Some (Some nxt, p1\<lparr> high_water_mark := (high_water_mark p)(w := nxt + 1),
                                         pool_mem := (pool_mem p)(nxt := obj) \<rparr>)
                else Some (None, p1))
      else None)"

text \<open>\<open>deallocate\<close> spins while the recycle queue is full; \<open>None\<close> is that, a division by a zero
  slice, or an index whose slice has no queue.\<close>

definition pool_deallocate :: "'a pool \<Rightarrow> nat \<Rightarrow> 'a pool option" where
  "pool_deallocate p index =
     (let w = index div slice_capacity p
      in if 0 < slice_capacity p \<and> w < num_workers p then
           case lfq_push (recycle_queues p w) index of
             (True, rq) \<Rightarrow> Some (p\<lparr> recycle_queues := (recycle_queues p)(w := rq) \<rparr>)
           | (False, rq) \<Rightarrow> None
         else None)"

definition slots_used :: "'a pool \<Rightarrow> nat" where
  "slots_used p = (\<Sum>i < num_workers p. high_water_mark p i - i * slice_capacity p)"

section \<open>Invariant\<close>

definition pool_span :: "'a pool \<Rightarrow> nat \<Rightarrow> nat set" where
  "pool_span p w = {pool_start (slice_capacity p) w ..< high_water_mark p w}"

definition pool_inv :: "'a pool \<Rightarrow> nat set \<Rightarrow> bool" where
  "pool_inv p L \<longleftrightarrow>
     0 < slice_capacity p \<and> num_workers p * slice_capacity p \<le> pool_capacity p
     \<and> slice_capacity p < RECYCLE_CAPACITY
     \<and> L \<subseteq> (\<Union>w < num_workers p. pool_span p w)
     \<and> (\<forall>w < num_workers p.
          lfq_ok (recycle_queues p w) \<and> lfq_room (recycle_queues p w) = RECYCLE_CAPACITY - 1
          \<and> pool_start (slice_capacity p) w \<le> high_water_mark p w
          \<and> high_water_mark p w \<le> (w + 1) * slice_capacity p
          \<and> distinct (lfq_items (recycle_queues p w))
          \<and> set (lfq_items (recycle_queues p w)) = pool_span p w - L)"

locale slot_allocator =
  fixes alloc :: "'p \<Rightarrow> nat \<Rightarrow> 'a \<Rightarrow> (nat option \<times> 'p) option"
    and dealloc :: "'p \<Rightarrow> nat \<Rightarrow> 'p option"
    and inv :: "'p \<Rightarrow> nat set \<Rightarrow> bool"
    and workers :: "'p \<Rightarrow> nat"
    and cap :: "'p \<Rightarrow> nat"
    and mem :: "'p \<Rightarrow> nat \<Rightarrow> 'a"
  assumes alloc_spec: "inv p L \<Longrightarrow> w < workers p \<Longrightarrow>
      \<exists>r p1. alloc p w obj = Some (r, p1) \<and> workers p1 = workers p \<and> cap p1 = cap p
        \<and> (case r of
             None \<Rightarrow> inv p1 L \<and> mem p1 = mem p
           | Some i \<Rightarrow> i \<notin> L \<and> 0 < i \<and> i < cap p \<and> inv p1 (insert i L)
               \<and> mem p1 = (mem p)(i := obj))"
    and dealloc_spec: "inv p L \<Longrightarrow> i \<in> L \<Longrightarrow>
      \<exists>p1. dealloc p i = Some p1 \<and> workers p1 = workers p \<and> cap p1 = cap p
        \<and> inv p1 (L - {i}) \<and> mem p1 = mem p"
    and live_range: "inv p L \<Longrightarrow> i \<in> L \<Longrightarrow> 0 < i \<and> i < cap p"

text \<open>A sequence of pool operations, and its run: \<open>None\<close> as soon as one of them does not return,
  otherwise the slots handed out, in order, and the final pool.\<close>

datatype 'a pool_op = Alloc nat 'a | Free nat

fun run_pool :: "('p \<Rightarrow> nat \<Rightarrow> 'a \<Rightarrow> (nat option \<times> 'p) option) \<Rightarrow> ('p \<Rightarrow> nat \<Rightarrow> 'p option) \<Rightarrow>
    'a pool_op list \<Rightarrow> 'p \<Rightarrow> nat set \<Rightarrow> ('p \<times> nat set) option" where
  "run_pool al de [] p L = Some (p, L)"
| "run_pool al de (Alloc w obj # ops) p L =
     (case al p w obj of
        None \<Rightarrow> None
      | Some (None, p1) \<Rightarrow> run_pool al de ops p1 L
      | Some (Some i, p1) \<Rightarrow> if i \<in> L then None else run_pool al de ops p1 (insert i L))"
| "run_pool al de (Free i # ops) p L =
     (if i \<in> L then case de p i of None \<Rightarrow> None | Some p1 \<Rightarrow> run_pool al de ops p1 (L - {i})
      else run_pool al de ops p L)"

context slot_allocator
begin

text \<open>Whatever the order of allocations (by existing workers) and frees (of slots that are
  handed out), every call returns and no slot is handed out while it is live.\<close>

lemma run_pool_returns:
  assumes "inv p L" and "\<And>w obj. Alloc w obj \<in> set ops \<Longrightarrow> w < workers p"
  shows "\<exists>p1 L1. run_pool alloc dealloc ops p L = Some (p1, L1) \<and> inv p1 L1"
  using assms
proof (induction ops arbitrary: p L)
  case Nil
  then show ?case by simp
next
  case (Cons op ops)
  show ?case
  proof (cases op)
    case (Alloc w obj)
    then have w: "w < workers p" using Cons.prems(2) [of w obj] by simp
    obtain r p1 where a: "alloc p w obj = Some (r, p1)" "workers p1 = workers p"
      "case r of None \<Rightarrow> inv p1 L \<and> mem p1 = mem p
        | Some i \<Rightarrow> i \<notin> L \<and> 0 < i \<and> i < cap p \<and> inv p1 (insert i L) \<and> mem p1 = (mem p)(i := obj)"
      using alloc_spec [OF Cons.prems(1) w, of obj] by blast
    show ?thesis
      using a Alloc Cons.IH [of p1 L] Cons.IH [of p1 "insert (the r) L"] Cons.prems(2)
      by (cases r) auto
  next
    case (Free i)
    show ?thesis
    proof (cases "i \<in> L")
      case True
      then obtain p1 where "dealloc p i = Some p1" "workers p1 = workers p" "inv p1 (L - {i})"
        using dealloc_spec [OF Cons.prems(1)] by blast
      then show ?thesis using Free True Cons.IH [of p1 "L - {i}"] Cons.prems(2) by auto
    next
      case False
      then show ?thesis using Free Cons.IH [of p L] Cons.prems by auto
    qed
  qed
qed

end

section \<open>MemoryPool implements the interface\<close>

lemma pool_invD:
  assumes "pool_inv p L"
  shows "0 < slice_capacity p" and "num_workers p * slice_capacity p \<le> pool_capacity p"
    and "slice_capacity p < RECYCLE_CAPACITY" and "L \<subseteq> (\<Union>w < num_workers p. pool_span p w)"
  using assms by (simp_all add: pool_inv_def)

lemma pool_inv_worker:
  assumes "pool_inv p L" and "w < num_workers p"
  shows "lfq_ok (recycle_queues p w)" and "lfq_room (recycle_queues p w) = RECYCLE_CAPACITY - 1"
    and "pool_start (slice_capacity p) w \<le> high_water_mark p w"
    and "high_water_mark p w \<le> (w + 1) * slice_capacity p"
    and "distinct (lfq_items (recycle_queues p w))"
    and "set (lfq_items (recycle_queues p w)) = pool_span p w - L"
  using assms by (simp_all add: pool_inv_def)

lemma pool_start_ge: "0 < sl \<Longrightarrow> w * sl \<le> pool_start sl w \<and> 0 < pool_start sl w"
  by (simp add: pool_start_def)

lemma pool_span_bounds:
  assumes "pool_inv p L" and "w < num_workers p" and "i \<in> pool_span p w"
  shows "w * slice_capacity p \<le> i" and "i < (w + 1) * slice_capacity p" and "0 < i"
  using assms(3) pool_inv_worker(4) [OF assms(1,2)] pool_start_ge [OF pool_invD(1) [OF assms(1)], of w]
  unfolding pool_span_def by (simp_all only: atLeastLessThan_iff) linarith+

lemma pool_span_slice:
  assumes "pool_inv p L" and "w < num_workers p" and "i \<in> pool_span p w"
  shows "i div slice_capacity p = w" and "0 < i" and "i < pool_capacity p"
proof -
  let ?s = "slice_capacity p"
  note b = pool_span_bounds [OF assms]
  show "i div ?s = w" using b by (simp add: div_nat_eqI mult.commute)
  show "0 < i" by (rule b)
  have "(w + 1) * ?s \<le> num_workers p * ?s" using assms(2) by (intro mult_le_mono1) simp
  then show "i < pool_capacity p" using b pool_invD(2) [OF assms(1)] by linarith
qed

lemma pool_span_disjoint:
  assumes "pool_inv p L" and "w < num_workers p" and "v < num_workers p"
    and "i \<in> pool_span p w" and "i \<in> pool_span p v"
  shows "w = v"
  using pool_span_slice(1) [OF assms(1,2,4)] pool_span_slice(1) [OF assms(1,3,5)] by simp

lemma pool_live_range: "pool_inv p L \<Longrightarrow> i \<in> L \<Longrightarrow> 0 < i \<and> i < pool_capacity p"
  using pool_span_slice pool_invD(4) by blast

lemma pool_allocate_spec:
  assumes inv: "pool_inv p L" and w: "w < num_workers p"
  shows "\<exists>r p1. pool_allocate p w obj = Some (r, p1) \<and> num_workers p1 = num_workers p
     \<and> pool_capacity p1 = pool_capacity p
     \<and> (case r of
          None \<Rightarrow> pool_inv p1 L \<and> pool_mem p1 = pool_mem p
        | Some i \<Rightarrow> i \<notin> L \<and> 0 < i \<and> i < pool_capacity p \<and> pool_inv p1 (insert i L)
            \<and> pool_mem p1 = (pool_mem p)(i := obj))"
proof -
  let ?q = "recycle_queues p w" and ?s = "slice_capacity p"
  obtain v rq where pop: "lfq_pop ?q = (v, rq)" by (cases "lfq_pop ?q")
  have ok: "lfq_ok ?q" and its: "set (lfq_items ?q) = pool_span p w - L" "distinct (lfq_items ?q)"
    and room: "lfq_room ?q = RECYCLE_CAPACITY - 1"
    using inv w by (auto simp: pool_inv_def)
  note sp = lfq_pop_spec [OF ok pop]
  show ?thesis
  proof (cases "lfq_items ?q")
    case Nil
    then have v: "v = None" and rq: "lfq_ok rq" "lfq_items rq = []" "lfq_room rq = RECYCLE_CAPACITY - 1"
      using sp room by simp_all
    let ?p1 = "p\<lparr> recycle_queues := (recycle_queues p)(w := rq) \<rparr>" and ?n = "high_water_mark p w"
    have inv1: "pool_inv ?p1 L"
      using inv rq its Nil w by (auto simp: pool_inv_def pool_span_def)
    show ?thesis
    proof (cases "?n < (w + 1) * ?s")
      case False
      then show ?thesis using pop v w inv1 by (auto simp: pool_allocate_def Let_def)
    next
      case True
      define p2 where "p2 = ?p1\<lparr> high_water_mark := (high_water_mark p)(w := ?n + 1),
          pool_mem := (pool_mem p)(?n := obj) \<rparr>"
      have p2: "num_workers p2 = num_workers p" "recycle_queues p2 = recycle_queues ?p1"
        "slice_capacity p2 = ?s" "pool_capacity p2 = pool_capacity p"
        "high_water_mark p2 = (high_water_mark p)(w := ?n + 1)"
        by (simp_all add: p2_def)
      have span: "pool_span p2 u = (if u = w then insert ?n (pool_span p w) else pool_span p u)" for u
        using pool_inv_worker(3) [OF inv w] by (auto simp: pool_span_def p2)
      have fresh: "?n \<notin> pool_span p u" if "u < num_workers p" for u
      proof
        assume "?n \<in> pool_span p u"
        moreover have "w * ?s \<le> ?n"
          using pool_inv_worker(3) [OF inv w] pool_start_ge [OF pool_invD(1) [OF inv], of w] by linarith
        then have "?n div ?s = w" using True by (simp add: div_nat_eqI mult.commute)
        ultimately have "u = w" using pool_span_slice(1) [OF inv that] by simp
        then show False using \<open>?n \<in> pool_span p u\<close> by (simp add: pool_span_def)
      qed
      then have nL: "?n \<notin> L" using pool_invD(4) [OF inv] by blast
      have i2: "pool_inv p2 (insert ?n L)"
        unfolding pool_inv_def
      proof (intro conjI allI impI)
        show "insert ?n L \<subseteq> (\<Union>w < num_workers p2. pool_span p2 w)"
          using pool_invD(4) [OF inv] w by (auto simp: span p2)
      next
        fix u assume u: "u < num_workers p2"
        then show "set (lfq_items (recycle_queues p2 u)) = pool_span p2 u - insert ?n L"
          using fresh [of u] its(1) Nil rq pool_inv_worker(6) [OF inv, of u] by (auto simp: span p2)
      qed (use inv1 True in \<open>auto simp: pool_inv_def p2\<close>)
      have "?n \<in> pool_span p2 w" by (simp add: span)
      then have "0 < ?n" "?n < pool_capacity p"
        using pool_span_slice [OF i2, of w ?n] w p2 by auto
      then show ?thesis
        using pop v w True nL i2 by (auto simp: pool_allocate_def Let_def p2_def)
    qed
  next
    case (Cons i js)
    then have v: "v = Some i" and rq: "lfq_ok rq" "lfq_items rq = js" "lfq_room rq = RECYCLE_CAPACITY - 1"
      using sp room by simp_all
    let ?p1 = "p\<lparr> recycle_queues := (recycle_queues p)(w := rq), pool_mem := (pool_mem p)(i := obj) \<rparr>"
    have i: "i \<in> pool_span p w" "i \<notin> L" using its(1) Cons by auto
    have other: "i \<notin> pool_span p u" if "u < num_workers p" "u \<noteq> w" for u
      using pool_span_disjoint [OF inv w _ i(1)] that by blast
    have "pool_inv ?p1 (insert i L)"
      unfolding pool_inv_def
    proof (intro conjI allI impI)
      show "insert i L \<subseteq> (\<Union>w < num_workers ?p1. pool_span ?p1 w)"
        using inv w i by (auto simp: pool_inv_def pool_span_def)
    next
      fix u assume u: "u < num_workers ?p1"
      show "set (lfq_items (recycle_queues ?p1 u)) = pool_span ?p1 u - insert i L"
      proof (cases "u = w")
        case True
        then show ?thesis using its Cons rq by (auto simp: pool_span_def)
      next
        case False
        then show ?thesis using other [of u] u inv by (auto simp: pool_inv_def pool_span_def)
      qed
    qed (use inv its Cons rq w in \<open>auto simp: pool_inv_def\<close>)
    then show ?thesis
      using pop v w i pool_span_slice [OF inv w i(1)] by (auto simp: pool_allocate_def)
  qed
qed

lemma pool_free_room:
  assumes "pool_inv p L" and "w < num_workers p" and "i \<in> pool_span p w" and "i \<in> L"
  shows "length (lfq_items (recycle_queues p w)) < lfq_room (recycle_queues p w)"
proof -
  let ?q = "recycle_queues p w" and ?s = "slice_capacity p"
  note inv = pool_inv_worker [OF assms(1,2)]
  have "length (lfq_items ?q) = card (pool_span p w - L)"
    using distinct_card [OF inv(5)] inv(6) by simp
  also have "\<dots> < card (pool_span p w)"
  proof (rule psubset_card_mono)
    show "finite (pool_span p w)" by (simp add: pool_span_def)
    show "pool_span p w - L \<subset> pool_span p w" using assms(3,4) by blast
  qed
  also have "\<dots> = high_water_mark p w - pool_start ?s w"
    by (simp add: pool_span_def)
  also have "\<dots> \<le> ?s"
  proof -
    have "(w + 1) * ?s = w * ?s + ?s" by simp
    then show ?thesis
      using inv(4) pool_start_ge [OF pool_invD(1) [OF assms(1)], of w] by linarith
  qed
  finally show ?thesis using inv(2) pool_invD(3) [OF assms(1)] by simp
qed

lemma pool_deallocate_spec:
  assumes inv: "pool_inv p L" and i: "i \<in> L"
  shows "\<exists>p1. pool_deallocate p i = Some p1 \<and> num_workers p1 = num_workers p
     \<and> pool_capacity p1 = pool_capacity p \<and> pool_inv p1 (L - {i}) \<and> pool_mem p1 = pool_mem p"
proof -
  obtain w where w: "w < num_workers p" "i \<in> pool_span p w"
    using inv i by (auto simp: pool_inv_def)
  let ?q = "recycle_queues p w"
  have div: "i div slice_capacity p = w" by (rule pool_span_slice(1) [OF inv w])
  have ok: "lfq_ok ?q" using inv w by (auto simp: pool_inv_def)
  obtain rq where rq: "lfq_push ?q i = (True, rq)" "lfq_ok rq" "lfq_room rq = lfq_room ?q"
    "lfq_items rq = lfq_items ?q @ [i]"
    using lfq.push_fits [OF ok pool_free_room [OF inv w i]] by metis
  let ?p1 = "p\<lparr> recycle_queues := (recycle_queues p)(w := rq) \<rparr>"
  have other: "i \<notin> pool_span p u" if "u < num_workers p" "u \<noteq> w" for u
    using pool_span_disjoint [OF inv w(1) _ w(2)] that by blast
  have "pool_inv ?p1 (L - {i})"
    unfolding pool_inv_def
  proof (intro conjI allI impI)
    show "L - {i} \<subseteq> (\<Union>w < num_workers ?p1. pool_span ?p1 w)"
      using inv by (auto simp: pool_inv_def pool_span_def)
  next
    fix u assume u: "u < num_workers ?p1"
    show "set (lfq_items (recycle_queues ?p1 u)) = pool_span ?p1 u - (L - {i})"
    proof (cases "u = w")
      case True
      then show ?thesis using inv w rq by (auto simp: pool_inv_def pool_span_def)
    next
      case False
      then show ?thesis using other [of u] u inv by (auto simp: pool_inv_def pool_span_def)
    qed
  qed (use inv i rq w in \<open>auto simp: pool_inv_def\<close>)
  then show ?thesis
    using w div rq inv by (auto simp: pool_deallocate_def Let_def pool_inv_def)
qed

interpretation order_pool: slot_allocator pool_allocate pool_deallocate pool_inv num_workers pool_capacity pool_mem
  by unfold_locales
    (erule (1) pool_allocate_spec, erule (1) pool_deallocate_spec, erule (1) pool_live_range)

lemma pool_init_inv:
  assumes "0 < workers" and "workers \<le> cap" and "cap < RECYCLE_CAPACITY" and "1 < cap div workers"
  shows "pool_inv (pool_init cap workers mem) {}"
proof -
  have "lfq_ok (lfq_init RECYCLE_CAPACITY (\<lambda>_. 0 :: nat))
    \<and> lfq_items (lfq_init RECYCLE_CAPACITY (\<lambda>_. 0 :: nat)) = []
    \<and> lfq_room (lfq_init RECYCLE_CAPACITY (\<lambda>_. 0 :: nat)) = RECYCLE_CAPACITY - 1"
    using lfq_init_ok [of 19 "\<lambda>_. 0 :: nat"] by (simp add: RECYCLE_CAPACITY_def)
  moreover have "cap div workers < RECYCLE_CAPACITY"
    using assms(3) div_le_dividend le_less_trans by blast
  ultimately show ?thesis
    using assms by (auto simp: pool_inv_def pool_init_def pool_span_def pool_start_def div_times_less_eq_dividend mult.commute)
qed

lemma pool_deallocate_mem: "pool_deallocate p i = Some p1 \<Longrightarrow> pool_mem p1 = pool_mem p"
  by (auto simp: pool_deallocate_def Let_def split: if_splits prod.splits bool.splits)

lemma pool_inv_mem: "pool_inv (p\<lparr> pool_mem := m \<rparr>) L = pool_inv p L"
  by (simp add: pool_inv_def pool_span_def)

lemma pool_deallocate_mem_upd:
  "pool_deallocate (p\<lparr> pool_mem := m \<rparr>) i = map_option (\<lambda>p1. p1\<lparr> pool_mem := m \<rparr>) (pool_deallocate p i)"
  by (auto simp: pool_deallocate_def Let_def split: prod.splits bool.splits)

lemma run_pool_capacity:
  "run_pool pool_allocate pool_deallocate ops p L = Some (p1, L1) \<Longrightarrow> pool_capacity p1 = pool_capacity p"
proof (induction ops arbitrary: p L)
  case (Cons op ops)
  have a: "pool_allocate p w obj = Some (r, q) \<Longrightarrow> pool_capacity q = pool_capacity p" for w obj r and q :: "'a pool"
    by (auto simp: pool_allocate_def Let_def split: if_splits prod.splits option.splits)
  have d: "pool_deallocate p i = Some q \<Longrightarrow> pool_capacity q = pool_capacity p" for i and q :: "'a pool"
    by (auto simp: pool_deallocate_def Let_def split: if_splits prod.splits bool.splits)
  show ?case
    using Cons by (cases op) (auto dest!: a d split: option.splits prod.splits if_splits)
qed simp

lemma slots_used_bound:
  assumes "pool_inv p L"
  shows "slots_used p \<le> pool_capacity p"
proof -
  have "high_water_mark p i - i * slice_capacity p \<le> slice_capacity p" if "i < num_workers p" for i
    using assms that by (auto simp: pool_inv_def)
  then have "slots_used p \<le> (\<Sum>i < num_workers p. slice_capacity p)"
    unfolding slots_used_def by (intro sum_mono) auto
  also have "\<dots> \<le> pool_capacity p" using assms by (simp add: pool_inv_def)
  finally show ?thesis .
qed

section \<open>Properties\<close>

text \<open>
  C17. The order pool never hands out a slot twice. From a fresh pool of 500000 orders and 1 to 16 gateway
  workers, every sequence of allocations and of frees of live slots runs to the end: no call fails, no free
  spins on a full recycle queue, no slot is handed out while it is live, and every live slot is a
  valid non-null handle below the capacity.
\<close>

theorem pool_never_aliases:
  fixes mem :: "nat \<Rightarrow> 'a"
  assumes "0 < workers" and "workers \<le> 16" and "\<And>w obj. Alloc w obj \<in> set ops \<Longrightarrow> w < workers"
  shows "\<exists>p L. run_pool pool_allocate pool_deallocate ops (pool_init 500000 workers mem) {} = Some (p, L)
    \<and> (\<forall>i \<in> L. 0 < i \<and> i < 500000) \<and> slots_used p \<le> 500000"
proof -
  have "500000 div 16 \<le> 500000 div workers" using assms(1,2) by (intro div_le_mono2) auto
  then have i: "pool_inv (pool_init 500000 workers mem) {}"
    using assms(1,2) by (intro pool_init_inv) (auto simp: RECYCLE_CAPACITY_def)
  have w: "num_workers (pool_init 500000 workers mem) = workers" by (simp add: pool_init_def)
  obtain p L where r: "run_pool pool_allocate pool_deallocate ops (pool_init 500000 workers mem) {} = Some (p, L)" "pool_inv p L"
    using order_pool.run_pool_returns [OF i, of ops] assms(3) w by auto
  have "pool_capacity p = 500000" using run_pool_capacity [OF r(1)] by (simp add: pool_init_def)
  then show ?thesis using r pool_live_range [OF r(2)] slots_used_bound [OF r(2)] by auto
qed

theorem pool_never_aliases_witness:
  "\<exists>p L. run_pool pool_allocate pool_deallocate [Alloc 0 True, Alloc 1 False, Free 1, Alloc 0 True]
      (pool_init 500000 2 (\<lambda>_. False)) {} = Some (p, L)
    \<and> (\<forall>i \<in> L. 0 < i \<and> i < 500000) \<and> slots_used p \<le> 500000"
  by (rule pool_never_aliases) auto

text \<open>
  Allocation fails only when it must: when \<open>allocate\<close> returns null for a worker, every slot of that
  worker's slice is live (so a slot that was freed is always found again).
\<close>

theorem pool_null_only_when_full:
  assumes "pool_inv p L" and "w < num_workers p" and "pool_allocate p w obj = Some (None, p1)"
  shows "{pool_start (slice_capacity p) w ..< (w + 1) * slice_capacity p} \<subseteq> L"
proof -
  have ok: "lfq_ok (recycle_queues p w)" and le: "high_water_mark p w \<le> (w + 1) * slice_capacity p"
    and st: "set (lfq_items (recycle_queues p w)) = pool_span p w - L"
    using assms(1,2) by (auto simp: pool_inv_def)
  obtain r rq where pop: "lfq_pop (recycle_queues p w) = (r, rq)" by (cases "lfq_pop (recycle_queues p w)")
  have "r = None" and full: "\<not> high_water_mark p w < (w + 1) * slice_capacity p"
    using assms(2,3) pop by (auto simp: pool_allocate_def Let_def split: option.splits if_splits)
  then have "lfq_items (recycle_queues p w) = []" using lfq.pop_spec [OF ok pop] by simp
  then have "pool_span p w \<subseteq> L" using st by auto
  then show ?thesis using full le by (simp add: pool_span_def)
qed

text \<open>A pool of four slots and one worker: slot 0 is reserved, so the fourth allocation fails.\<close>

theorem pool_null_only_when_full_witness:
  "\<exists>p p1. pool_allocate p 0 () = Some (None, p1) \<and> {pool_start (slice_capacity p) 0 ..< (0 + 1) * slice_capacity p} \<subseteq> {1, 2, 3}"
proof -
  have i: "pool_inv (pool_init 4 1 (\<lambda>_. ())) {}" by (rule pool_init_inv) (auto simp: RECYCLE_CAPACITY_def)
  have r: "\<exists>p. run_pool pool_allocate pool_deallocate [Alloc 0 (), Alloc 0 (), Alloc 0 ()] (pool_init 4 1 (\<lambda>_. ())) {} = Some (p, {1, 2, 3})
      \<and> (\<exists>p1. pool_allocate p 0 () = Some (None, p1)) \<and> num_workers p = 1"
    by (simp add: pool_allocate_def pool_init_def lfq_pop_def lfq_init_def pool_start_def insert_commute numeral_2_eq_2 numeral_3_eq_3)
  then obtain p p1 where p: "run_pool pool_allocate pool_deallocate [Alloc 0 (), Alloc 0 (), Alloc 0 ()] (pool_init 4 1 (\<lambda>_. ())) {} = Some (p, {1, 2, 3})"
    "pool_allocate p 0 () = Some (None, p1)" "num_workers p = 1" by blast
  have "pool_inv p {1, 2, 3}"
    using order_pool.run_pool_returns [OF i, of "[Alloc 0 (), Alloc 0 (), Alloc 0 ()]"] p(1) by (auto simp: pool_init_def)
  from pool_null_only_when_full [OF this _ p(2)] show ?thesis using p(2,3) by auto
qed

end
