(* ===== verification/Order_Book.thy ===== *)
theory Order_Book
  imports Limit_List Price_Bitmap Memory_Pool
begin

text \<open>
  \<open>OrderBook\<close> (\<open>hft_engine/src/matching/orderbook.h\<close>): the price ladders of one instrument, the
  report emitters, self-trade prevention, cancels and the matching loop.

  The pool, the \<open>orders_by_id\<close> table and the report queues are shared by all books of a shard
  through pointers; they are the record \<open>shard\<close> that every operation takes and returns. Fields
  narrower than the values stored in them are reduced at the assignment, as the casts do.
\<close>

section \<open>Reports\<close>

datatype OrderState = ST_NEW | PARTIAL_FILL | FILLED | CANCELED | REJECTED

record DropCopyMessage =
  dc_client_order_id :: nat
  dc_internal_id :: nat
  dc_price :: nat
  dc_quantity :: nat
  dc_instrument_id :: nat
  dc_state :: OrderState
  dc_side :: Side

record OutboundAck =
  ack_report :: OuchExecutionReport
  ack_client_id :: nat

text \<open>The output side of a shard: the two report queues, the ack queues (\<open>None\<close> is the null
  pointer of a book without egress) and the two drop counters of \<open>g_stats\<close>.\<close>

record outputs =
  mkt_data_queue :: "ItchMessage lfq"
  drop_copy_queue :: "DropCopyMessage lfq"
  ack_queues :: "OutboundAck lfq list option"
  dropped_reports :: nat
  dropped_drop_copies :: nat

definition stat_inc :: "nat \<Rightarrow> nat" where
  "stat_inc n = (n + 1) mod 2 ^ 64"

definition side_char :: "Side \<Rightarrow> u8" where
  "side_char s = (if s = BUY then ch CHR ''B'' else ch CHR ''S'')"

definition broadcast :: "u8 \<Rightarrow> nat \<Rightarrow> nat \<Rightarrow> nat \<Rightarrow> nat \<Rightarrow> u8 \<Rightarrow> outputs \<Rightarrow> outputs" where
  "broadcast type int_id pr qty inst sd s =
     (let report = \<lparr> it_msg_type = type, it_stock_locate = word_of_nat inst, it_tracking_number = 0,
                     it_timestamp = 0, it_internal_id = word_of_nat int_id, it_shares = word_of_nat qty,
                     it_price = word_of_nat pr, it_side = sd \<rparr>;
          (pushed, q) = lfq_push (mkt_data_queue s) report;
          s1 = s\<lparr> mkt_data_queue := q \<rparr>
      in if pushed then s1 else s1\<lparr> dropped_reports := stat_inc (dropped_reports s1) \<rparr>)"

definition send_drop_copy :: "nat \<Rightarrow> nat \<Rightarrow> nat \<Rightarrow> nat \<Rightarrow> nat \<Rightarrow> Side \<Rightarrow> OrderState \<Rightarrow> outputs \<Rightarrow> outputs" where
  "send_drop_copy cl_id int_id pr qty inst sd st s =
     (let msg = \<lparr> dc_client_order_id = cl_id, dc_internal_id = int_id, dc_price = pr, dc_quantity = qty,
                  dc_instrument_id = inst, dc_state = st, dc_side = sd \<rparr>;
          (pushed, q) = lfq_push (drop_copy_queue s) msg;
          s1 = s\<lparr> drop_copy_queue := q \<rparr>
      in if pushed then s1 else s1\<lparr> dropped_drop_copies := stat_inc (dropped_drop_copies s1) \<rparr>)"

definition send_ack :: "order_node \<Rightarrow> nat \<Rightarrow> nat \<Rightarrow> u8 \<Rightarrow> outputs \<Rightarrow> outputs option" where
  "send_ack ob exec_shares exec_price liquidity_flag s =
     (case ack_queues s of
        None \<Rightarrow> Some s
      | Some qs \<Rightarrow>
          (let ack = \<lparr> ack_report = \<lparr> er_msg_type = ch CHR ''E'',
                                      er_order_token = encode_order_token (word_of_nat (client_order_id ob)),
                                      er_executed_shares = word_of_nat exec_shares,
                                      er_execution_price = word_of_nat exec_price,
                                      er_liquidity_flag = liquidity_flag,
                                      er_match_number = replicate 8 0 \<rparr>,
                       ack_client_id = client_id ob \<rparr>;
               w = worker_id ob
           in if w < length qs
              then Some (s\<lparr> ack_queues := Some (qs[w := snd (lfq_push (qs ! w) ack)]) \<rparr>)
              else None))"

section \<open>The shard and a book\<close>

definition POOL_CAPACITY_PER_SHARD :: nat where "POOL_CAPACITY_PER_SHARD = 500000"
definition MAX_ORDERS_LOOKUP :: nat where "MAX_ORDERS_LOOKUP = POOL_CAPACITY_PER_SHARD"

record shard =
  sh_pool :: "order_node pool"
  orders_by_id :: "nat \<Rightarrow> nat option"
  outs :: outputs

abbreviation mem :: "shard \<Rightarrow> memory" where
  "mem sh \<equiv> pool_mem (sh_pool sh)"

definition set_mem :: "shard \<Rightarrow> memory \<Rightarrow> shard" where
  "set_mem sh m = sh\<lparr> sh_pool := (sh_pool sh)\<lparr> pool_mem := m \<rparr> \<rparr>"

definition free_order :: "shard \<Rightarrow> nat \<Rightarrow> shard option" where
  "free_order sh a = do { p \<leftarrow> pool_deallocate (sh_pool sh) a; Some (sh\<lparr> sh_pool := p \<rparr>) }"

record book =
  bids :: "nat \<Rightarrow> limit"
  asks :: "nat \<Rightarrow> limit"
  bids_bm :: bitmap2
  asks_bm :: bitmap2
  cached_best_bid :: nat
  cached_best_ask :: nat

definition book_init :: book where
  "book_init = \<lparr> bids = (\<lambda>_. limit_init), asks = (\<lambda>_. limit_init), bids_bm = bm_init, asks_bm = bm_init,
                 cached_best_bid = 0, cached_best_ask = MAX_PRICE - 1 \<rparr>"

section \<open>Self-trade prevention and the fill\<close>

definition reject_self_trade :: "shard \<Rightarrow> nat \<Rightarrow> shard option" where
  "reject_self_trade sh a =
     (let ob = mem sh a
      in free_order (sh\<lparr> outs := send_drop_copy (client_order_id ob) (internal_id ob) (price ob) (quantity ob)
                                    (instrument_id ob) (side ob) REJECTED (outs sh) \<rparr>) a)"

text \<open>The body of the inner loop after the self-trade check: reports, then the quantities.\<close>

definition execute :: "shard \<Rightarrow> limit \<Rightarrow> nat \<Rightarrow> nat \<Rightarrow> (shard \<times> limit) option" where
  "execute sh level new_order resting =
     (let m = mem sh; n = m new_order; r = m resting;
          match_qty = min (quantity n) (quantity r);
          s1 = broadcast (ch CHR ''E'') (internal_id r) (price r) match_qty (instrument_id r) (side_char (side r)) (outs sh);
          s2 = broadcast (ch CHR ''E'') (internal_id n) (price r) match_qty (instrument_id n) (side_char (side n)) s1;
          s3 = send_drop_copy (client_order_id n) (internal_id n) (price r) match_qty (instrument_id n) (side n)
                 (if quantity n > quantity r then PARTIAL_FILL else FILLED) s2;
          s4 = send_drop_copy (client_order_id r) (internal_id r) (price r) match_qty (instrument_id r) (side r)
                 (if quantity r > quantity n then PARTIAL_FILL else FILLED) s3
      in do {
        s5 \<leftarrow> send_ack n match_qty (price r mod 2 ^ 32) (ch CHR ''R'') s4;
        s6 \<leftarrow> send_ack r match_qty (price r mod 2 ^ 32) (ch CHR ''A'') s5;
        if quantity n \<ge> quantity r then do {
          let m1 = m(new_order := n\<lparr> quantity := quantity n - quantity r \<rparr>);
          ids \<leftarrow> arr_set MAX_ORDERS_LOOKUP (orders_by_id sh) (internal_id (m1 resting)) None;
          let (m2, level1) = limit_remove m1 level resting;
          sh1 \<leftarrow> free_order (set_mem (sh\<lparr> outs := s6, orders_by_id := ids \<rparr>) m2) resting;
          Some (sh1, level1) }
        else do {
          let m1 = m(resting := r\<lparr> quantity := quantity r - quantity n \<rparr>);
          let m2 = m1(new_order := (m1 new_order)\<lparr> quantity := 0 \<rparr>);
          Some (set_mem (sh\<lparr> outs := s6 \<rparr>) m2, level) } })"

text \<open>\<open>while (new_order->quantity > 0 && level.head)\<close>; the flag says that the incoming order
  was rejected by self-trade prevention and \<open>match_order\<close> returns.\<close>

partial_function (option) match_level :: "shard \<Rightarrow> limit \<Rightarrow> nat \<Rightarrow> (bool \<times> shard \<times> limit) option" where
  "match_level sh level new_order =
     (if quantity (mem sh new_order) > 0 then
        case lim_head level of
          None \<Rightarrow> Some (False, sh, level)
        | Some resting \<Rightarrow>
            if client_id (mem sh resting) = client_id (mem sh new_order)
            then do { sh1 \<leftarrow> reject_self_trade sh new_order; Some (True, sh1, level) }
            else do { (sh1, level1) \<leftarrow> execute sh level new_order resting;
                      match_level sh1 level1 new_order }
      else Some (False, sh, level))"

section \<open>The sweep over the price levels\<close>

text \<open>The step to the next level once a level is empty; the resulting price is -1 when there is none.\<close>

definition advance_ask :: "book \<Rightarrow> nat \<Rightarrow> (book \<times> int) option" where
  "advance_ask b p = do {
     bm \<leftarrow> bm_clear_bit (asks_bm b) p;
     nxt \<leftarrow> find_next_ask bm (p + 1);
     let b1 = b\<lparr> asks_bm := bm \<rparr>;
     if nxt = - 1 then Some (b1, - 1) else Some (b1\<lparr> cached_best_ask := nat nxt \<rparr>, nxt) }"

definition advance_bid :: "book \<Rightarrow> nat \<Rightarrow> (book \<times> int) option" where
  "advance_bid b p = do {
     bm \<leftarrow> bm_clear_bit (bids_bm b) p;
     let b1 = b\<lparr> bids_bm := bm \<rparr>;
     if p > 0 then do {
       nxt \<leftarrow> find_next_bid bm (p - 1);
       if nxt = - 1 then Some (b1, - 1) else Some (b1\<lparr> cached_best_bid := nat nxt \<rparr>, nxt) }
     else Some (b1, - 1) }"

partial_function (option) match_asks ::
  "shard \<Rightarrow> book \<Rightarrow> nat \<Rightarrow> nat \<Rightarrow> int \<Rightarrow> (bool \<times> shard \<times> book) option" where
  "match_asks sh b new_order pr p =
     (if p \<noteq> - 1 \<and> p \<le> int pr \<and> quantity (mem sh new_order) > 0 then do {
        level \<leftarrow> arr_get MAX_PRICE (asks b) (nat p);
        (rejected, sh1, level1) \<leftarrow> match_level sh level new_order;
        let b1 = b\<lparr> asks := (asks b)(nat p := level1) \<rparr>;
        if rejected then Some (True, sh1, b1)
        else if lim_head level1 = None then do {
          (b2, p2) \<leftarrow> advance_ask b1 (nat p);
          match_asks sh1 b2 new_order pr p2 }
        else Some (False, sh1, b1) }
      else Some (False, sh, b))"

partial_function (option) match_bids ::
  "shard \<Rightarrow> book \<Rightarrow> nat \<Rightarrow> nat \<Rightarrow> int \<Rightarrow> (bool \<times> shard \<times> book) option" where
  "match_bids sh b new_order pr p =
     (if p \<noteq> - 1 \<and> p \<ge> int pr \<and> quantity (mem sh new_order) > 0 then do {
        level \<leftarrow> arr_get MAX_PRICE (bids b) (nat p);
        (rejected, sh1, level1) \<leftarrow> match_level sh level new_order;
        let b1 = b\<lparr> bids := (bids b)(nat p := level1) \<rparr>;
        if rejected then Some (True, sh1, b1)
        else if lim_head level1 = None then do {
          (b2, p2) \<leftarrow> advance_bid b1 (nat p);
          match_bids sh1 b2 new_order pr p2 }
        else Some (False, sh1, b1) }
      else Some (False, sh, b))"

section \<open>Resting, matching and cancelling\<close>

text \<open>The reports of an order that comes to rest, common to both sides.\<close>

definition report_resting :: "shard \<Rightarrow> nat \<Rightarrow> shard option" where
  "report_resting sh a =
     (let n = mem sh a in do {
        ids \<leftarrow> arr_set MAX_ORDERS_LOOKUP (orders_by_id sh) (internal_id n) (Some a);
        let s1 = broadcast (ch CHR ''A'') (internal_id n) (price n) (quantity n) (instrument_id n) (side_char (side n)) (outs sh);
        let s2 = send_drop_copy (client_order_id n) (internal_id n) (price n) (quantity n) (instrument_id n) (side n) ST_NEW s1;
        Some (sh\<lparr> orders_by_id := ids, outs := s2 \<rparr>) })"

definition rest_bid :: "shard \<Rightarrow> book \<Rightarrow> nat \<Rightarrow> nat \<Rightarrow> (shard \<times> book) option" where
  "rest_bid sh b new_order pr = do {
     level \<leftarrow> arr_get MAX_PRICE (bids b) pr;
     let is_new_level = (lim_head level = None);
     let (m1, level1) = limit_add (mem sh) level new_order;
     bm \<leftarrow> (if is_new_level then bm_set_bit (bids_bm b) pr else Some (bids_bm b));
     sh1 \<leftarrow> report_resting (set_mem sh m1) new_order;
     Some (sh1, b\<lparr> bids := (bids b)(pr := level1), bids_bm := bm,
                   cached_best_bid := (if pr > cached_best_bid b then pr else cached_best_bid b) \<rparr>) }"

definition rest_ask :: "shard \<Rightarrow> book \<Rightarrow> nat \<Rightarrow> nat \<Rightarrow> (shard \<times> book) option" where
  "rest_ask sh b new_order pr = do {
     level \<leftarrow> arr_get MAX_PRICE (asks b) pr;
     let is_new_level = (lim_head level = None);
     let (m1, level1) = limit_add (mem sh) level new_order;
     bm \<leftarrow> (if is_new_level then bm_set_bit (asks_bm b) pr else Some (asks_bm b));
     sh1 \<leftarrow> report_resting (set_mem sh m1) new_order;
     Some (sh1, b\<lparr> asks := (asks b)(pr := level1), asks_bm := bm,
                   cached_best_ask := (if pr < cached_best_ask b then pr else cached_best_ask b) \<rparr>) }"

definition match_order :: "shard \<Rightarrow> book \<Rightarrow> nat \<Rightarrow> (shard \<times> book) option" where
  "match_order sh b new_order =
     (let n = mem sh new_order
      in if internal_id n \<ge> MAX_ORDERS_LOOKUP \<or> price n \<ge> MAX_PRICE
         then do { sh1 \<leftarrow> free_order sh new_order; Some (sh1, b) }
         else
           (let pr = price n mod 2 ^ 32
            in if side n = BUY then do {
                 (rejected, sh1, b1) \<leftarrow> match_asks sh b new_order pr (int (cached_best_ask b));
                 if rejected then Some (sh1, b1)
                 else if quantity (mem sh1 new_order) > 0 then rest_bid sh1 b1 new_order pr
                 else do { sh2 \<leftarrow> free_order sh1 new_order; Some (sh2, b1) } }
               else do {
                 (rejected, sh1, b1) \<leftarrow> match_bids sh b new_order pr (int (cached_best_bid b));
                 if rejected then Some (sh1, b1)
                 else if quantity (mem sh1 new_order) > 0 then rest_ask sh1 b1 new_order pr
                 else do { sh2 \<leftarrow> free_order sh1 new_order; Some (sh2, b1) } }))"

text \<open>The index update of a cancel: when the level is empty, clear its bit and, if it was the cached
  best price, search for the next one.\<close>

definition cancel_bid_level :: "book \<Rightarrow> nat \<Rightarrow> book option" where
  "cancel_bid_level b p =
     (if lim_head (bids b p) = None then do {
        bm \<leftarrow> bm_clear_bit (bids_bm b) p;
        let b1 = b\<lparr> bids_bm := bm \<rparr>;
        if p = cached_best_bid b1 then do {
          nxt \<leftarrow> find_next_bid bm p;
          Some (b1\<lparr> cached_best_bid := (if nxt = - 1 then 0 else nat nxt) \<rparr>) }
        else Some b1 }
      else Some b)"

definition cancel_ask_level :: "book \<Rightarrow> nat \<Rightarrow> book option" where
  "cancel_ask_level b p =
     (if lim_head (asks b p) = None then do {
        bm \<leftarrow> bm_clear_bit (asks_bm b) p;
        let b1 = b\<lparr> asks_bm := bm \<rparr>;
        if p = cached_best_ask b1 then do {
          nxt \<leftarrow> find_next_ask bm p;
          Some (b1\<lparr> cached_best_ask := (if nxt = - 1 then MAX_PRICE - 1 else nat nxt) \<rparr>) }
        else Some b1 }
      else Some b)"

definition cancel_order :: "shard \<Rightarrow> book \<Rightarrow> nat \<Rightarrow> (shard \<times> book) option" where
  "cancel_order sh b oid =
     (if oid \<ge> MAX_ORDERS_LOOKUP then Some (sh, b)
      else case orders_by_id sh oid of
        None \<Rightarrow> Some (sh, b)
      | Some a \<Rightarrow>
          (let ob = mem sh a;
               s1 = broadcast (ch CHR ''X'') (internal_id ob) (price ob) (quantity ob) (instrument_id ob)
                      (side_char (side ob)) (outs sh);
               s2 = send_drop_copy (client_order_id ob) (internal_id ob) (price ob) (quantity ob) (instrument_id ob)
                      (side ob) CANCELED s1;
               p = price ob mod 2 ^ 32
           in do {
             (m1, b1) \<leftarrow>
               (if side ob = BUY then do {
                  level \<leftarrow> arr_get MAX_PRICE (bids b) p;
                  let (m1, level1) = limit_remove (mem sh) level a;
                  b1 \<leftarrow> cancel_bid_level (b\<lparr> bids := (bids b)(p := level1) \<rparr>) p;
                  Some (m1, b1) }
                else do {
                  level \<leftarrow> arr_get MAX_PRICE (asks b) p;
                  let (m1, level1) = limit_remove (mem sh) level a;
                  b1 \<leftarrow> cancel_ask_level (b\<lparr> asks := (asks b)(p := level1) \<rparr>) p;
                  Some (m1, b1) });
             ids \<leftarrow> arr_set MAX_ORDERS_LOOKUP (orders_by_id sh) oid None;
             sh1 \<leftarrow> free_order (set_mem (sh\<lparr> outs := s2, orders_by_id := ids \<rparr>) m1) a;
             Some (sh1, b1) }))"

end
