(* ===== verification/Book_Spec.thy ===== *)
theory Book_Spec
  imports Order_Book
begin

text \<open>
  What the order book promises, stated on lists of orders: an incoming order is filled against
  the opposite orders in price order and, within a price, in arrival order, until it is filled,
  no crossing order is left, or the next order belongs to the same client. The lemmas give the
  properties of this specification: the fills are the prefix of the priority list, quantities are
  conserved, no client trades with itself, resting quantities stay positive.
\<close>

section \<open>Filling against one list of orders\<close>

text \<open>The result: what is left of the incoming order, what is left of the list, the fills as pairs
  of the incoming and the resting order before each fill, and whether self-trade prevention stopped it.\<close>

fun spec_match :: "order \<Rightarrow> order list \<Rightarrow> order \<times> order list \<times> (order \<times> order) list \<times> bool" where
  "spec_match a [] = (a, [], [], False)"
| "spec_match a (r # rs) =
     (if quantity a = 0 then (a, r # rs, [], False)
      else if client_id r = client_id a then (a, r # rs, [], True)
      else if quantity a \<ge> quantity r then
        (let (a1, rs1, fs, st) = spec_match (a\<lparr> quantity := quantity a - quantity r \<rparr>) rs
         in (a1, rs1, (a, r) # fs, st))
      else (a\<lparr> quantity := 0 \<rparr>, r\<lparr> quantity := quantity r - quantity a \<rparr> # rs, [(a, r)], False))"

text \<open>The same over the levels of one side, visited in a given order of prices.\<close>

fun sweep :: "order \<Rightarrow> nat list \<Rightarrow> (nat \<Rightarrow> order list) \<Rightarrow>
    order \<times> (nat \<Rightarrow> order list) \<times> (order \<times> order) list \<times> bool" where
  "sweep a [] B = (a, B, [], False)"
| "sweep a (p # ps) B =
     (let (a1, rs, fs, st) = spec_match a (B p)
      in if st then (a1, B(p := rs), fs, True)
         else (let (a2, B2, fs2, st2) = sweep a1 ps (B(p := rs)) in (a2, B2, fs @ fs2, st2)))"

text \<open>The opposite prices an order may trade at, best first.\<close>

definition crossing :: "Side \<Rightarrow> nat \<Rightarrow> nat list" where
  "crossing s pr = (if s = BUY then [0 ..< pr + 1] else rev [pr ..< MAX_PRICE])"

fun opposite :: "Side \<Rightarrow> Side" where
  "opposite BUY = SELL"
| "opposite SELL = BUY"

section \<open>Properties of the list specification\<close>

lemma spec_match_idle: "quantity a = 0 \<Longrightarrow> spec_match a rs = (a, rs, [], False)"
  by (cases rs) auto

text \<open>The three ways a step against the first order can go.\<close>

lemma spec_match_ConsE:
  assumes "spec_match a (r # rs) = (a1, rs1, fs, st)"
  obtains (idle) "quantity a = 0 \<or> client_id r = client_id a" "a1 = a" "rs1 = r # rs" "fs = []"
      "st \<longleftrightarrow> quantity a \<noteq> 0"
  | (part) "0 < quantity a" "client_id r \<noteq> client_id a" "quantity a < quantity r"
      "a1 = a\<lparr> quantity := 0 \<rparr>" "rs1 = r\<lparr> quantity := quantity r - quantity a \<rparr> # rs" "fs = [(a, r)]" "\<not> st"
  | (full) fs2 where "0 < quantity a" "client_id r \<noteq> client_id a" "quantity r \<le> quantity a"
      "spec_match (a\<lparr> quantity := quantity a - quantity r \<rparr>) rs = (a1, rs1, fs2, st)" "fs = (a, r) # fs2"
  using assms by (auto split: if_splits prod.splits)

lemma spec_match_exhausts:
  "spec_match a rs = (a1, rs1, fs, False) \<Longrightarrow> quantity a1 > 0 \<Longrightarrow> rs1 = []"
proof (induction rs arbitrary: a fs)
  case (Cons r rs)
  from Cons.prems(1) show ?case
    by (cases rule: spec_match_ConsE) (use Cons in auto)
qed simp

lemma spec_match_fields:
  "spec_match a rs = (a1, rs1, fs, st) \<Longrightarrow> \<exists>q. a1 = a\<lparr> quantity := q \<rparr>"
proof (induction rs arbitrary: a fs)
  case Nil
  then show ?case by (auto intro: exI [of _ "quantity a"])
next
  case (Cons r rs)
  from Cons.prems show ?case
  proof (cases rule: spec_match_ConsE)
    case idle
    then show ?thesis by (auto intro: exI [of _ "quantity a"])
  next
    case part
    then show ?thesis by auto
  next
    case full
    then show ?thesis using Cons.IH [OF full(4)] by auto
  qed
qed

text \<open>Matching against a concatenation continues in the second list exactly when the first is used up.\<close>

lemma spec_match_append:
  assumes "spec_match a rs = (a1, rs1, fs, st)"
  shows "spec_match a (rs @ qs) =
    (if st \<or> quantity a1 = 0 then (a1, rs1 @ qs, fs, st)
     else let (a2, rs2, fs2, st2) = spec_match a1 qs in (a2, rs2, fs @ fs2, st2))"
  using assms
proof (induction rs arbitrary: a fs)
  case Nil
  then show ?case by (auto simp: spec_match_idle split: prod.splits)
next
  case (Cons r rs)
  from Cons.prems show ?case
  proof (cases rule: spec_match_ConsE)
    case full
    then show ?thesis using Cons.IH [OF full(4)] by (auto split: prod.splits)
  qed auto
qed

lemma sweep_idle: "quantity a = 0 \<Longrightarrow> sweep a ps B = (a, B, [], False)"
  by (induction ps arbitrary: B) (auto simp: spec_match_idle)

lemma sweep_skip: "\<forall>p \<in> set qs. B p = [] \<Longrightarrow> sweep a (qs @ ps) B = sweep a ps B"
proof (induction qs)
  case (Cons q qs)
  then have "B(q := []) = B" by auto
  then show ?case using Cons by (auto split: prod.splits)
qed simp

lemma sweep_skip_all: "\<forall>p \<in> set qs. B p = [] \<Longrightarrow> sweep a qs B = (a, B, [], False)"
  using sweep_skip [of qs B a "[]"] by simp

lemma sweep_fields: "sweep a ps B = (a1, B1, fs, st) \<Longrightarrow> \<exists>q. a1 = a\<lparr> quantity := q \<rparr>"
proof (induction ps arbitrary: a B fs)
  case Nil
  then show ?case by (auto intro: exI [of _ "quantity a"])
next
  case (Cons p ps)
  obtain a' rs' fs' st' where m: "spec_match a (B p) = (a', rs', fs', st')" by (cases "spec_match a (B p)")
  obtain q where q: "a' = a\<lparr> quantity := q \<rparr>" using spec_match_fields [OF m] by blast
  show ?case
  proof (cases st')
    case True
    then show ?thesis using Cons.prems m q by auto
  next
    case False
    then obtain fs2 where "sweep a' ps (B(p := rs')) = (a1, B1, fs2, st)"
      using Cons.prems m by (auto split: prod.splits)
    then show ?thesis using Cons.IH q by fastforce
  qed
qed

lemma sweep_other: "q \<notin> set ps \<Longrightarrow> sweep a ps B = (a1, B1, fs, st) \<Longrightarrow> B1 q = B q"
  by (induction ps arbitrary: a B fs) (fastforce split: prod.splits if_splits)+

text \<open>The fills of a sweep are the fills against the concatenation of the levels in price order.\<close>

lemma sweep_fills:
  assumes "distinct ps" and "\<forall>p \<in> set ps. \<forall>r \<in> set (B p). quantity r > 0"
    and "sweep a ps B = (a1, B1, fs, st)"
  shows "spec_match a (concat (map B ps)) = (a1, concat (map B1 ps), fs, st)"
  using assms
proof (induction ps arbitrary: a B fs)
  case (Cons p ps)
  obtain a' rs' fs' st' where m: "spec_match a (B p) = (a', rs', fs', st')" by (cases "spec_match a (B p)")
  have ne: "map (B(p := rs')) ps = map B ps" using Cons.prems(1) by auto
  note app = spec_match_append [OF m, of "concat (map B ps)"]
  show ?case
  proof (cases st')
    case True
    then show ?thesis using Cons.prems m app ne by auto
  next
    case False
    then obtain fs2 where w: "sweep a' ps (B(p := rs')) = (a1, B1, fs2, st)" and fs: "fs = fs' @ fs2"
      using Cons.prems(3) m by (auto split: prod.splits)
    have "\<forall>q \<in> set ps. \<forall>r \<in> set ((B(p := rs')) q). quantity r > 0" using Cons.prems(1,2) by auto
    then have ih: "spec_match a' (concat (map B ps)) = (a1, concat (map B1 ps), fs2, st)"
      using Cons.IH [OF _ _ w] Cons.prems(1) by (simp add: ne del: fun_upd_apply)
    have B1p: "B1 p = rs'" using sweep_other [OF _ w, of p] Cons.prems(1) by auto
    have "quantity a' > 0 \<Longrightarrow> rs' = []" using spec_match_exhausts [of a "B p" a' rs' fs'] m False by simp
    moreover have "quantity a' = 0 \<Longrightarrow> fs2 = [] \<and> st = False \<and> a1 = a' \<and> concat (map B1 ps) = concat (map B ps)"
      using ih spec_match_idle [of a' "concat (map B ps)"] by simp
    ultimately show ?thesis
      using app False ih fs B1p by (cases "quantity a' = 0") auto
  qed
qed simp

text \<open>Time priority: the orders filled are the first orders of the list, each at its full size
  except possibly the last.\<close>

definition fill_qty :: "order \<times> order \<Rightarrow> nat" where
  "fill_qty f = min (quantity (fst f)) (quantity (snd f))"

lemma spec_match_prefix:
  "spec_match a rs = (a1, rs1, fs, st) \<Longrightarrow> map snd fs = take (length fs) rs
     \<and> (rs1 = drop (length fs) rs
        \<or> (\<exists>q > 0. fs \<noteq> [] \<and> rs1 = (snd (last fs))\<lparr> quantity := q \<rparr> # drop (length fs) rs \<and> quantity a1 = 0))"
proof (induction rs arbitrary: a fs)
  case (Cons r rs)
  from Cons.prems show ?case
  proof (cases rule: spec_match_ConsE)
    case full
    then show ?thesis using Cons.IH [OF full(4)] by auto
  next
    case part
    then show ?thesis by (auto intro!: exI [of _ "quantity r - quantity a"])
  qed auto
qed simp

lemma spec_match_conserves:
  "spec_match a rs = (a1, rs1, fs, st) \<Longrightarrow>
     quantity a1 + sum_list (map fill_qty fs) = quantity a
     \<and> sum_list (map quantity rs1) + sum_list (map fill_qty fs) = sum_list (map quantity rs)"
proof (induction rs arbitrary: a fs)
  case (Cons r rs)
  from Cons.prems show ?case
  proof (cases rule: spec_match_ConsE)
    case full
    then show ?thesis using Cons.IH [OF full(4)] by (auto simp: fill_qty_def)
  qed (auto simp: fill_qty_def)
qed simp

lemma spec_match_no_self:
  "spec_match a rs = (a1, rs1, fs, st) \<Longrightarrow>
     \<forall>f \<in> set fs. client_id (fst f) = client_id a \<and> client_id (snd f) \<noteq> client_id a \<and> snd f \<in> set rs
       \<and> 0 < quantity (fst f)"
proof (induction rs arbitrary: a fs)
  case (Cons r rs)
  from Cons.prems show ?case
  proof (cases rule: spec_match_ConsE)
    case full
    then show ?thesis using Cons.IH [OF full(4)] by auto
  qed auto
qed simp

lemma spec_match_stopped:
  "spec_match a rs = (a1, rs1, fs, True) \<Longrightarrow>
     0 < quantity a1 \<and> (\<exists>r qs. rs1 = r # qs \<and> client_id r = client_id a)"
proof (induction rs arbitrary: a fs)
  case (Cons r rs)
  from Cons.prems show ?case
  proof (cases rule: spec_match_ConsE)
    case full
    then show ?thesis using Cons.IH [OF full(4)] by auto
  qed auto
qed simp

text \<open>What is left of the list is made of its orders, with only a smaller, positive quantity.\<close>

lemma spec_match_left:
  assumes "spec_match a rs = (a1, rs1, fs, st)" and "\<forall>r \<in> set rs. 0 < quantity r"
  shows "\<forall>r \<in> set rs1. 0 < quantity r \<and> (\<exists>r0 \<in> set rs. \<exists>q. r = r0\<lparr> quantity := q \<rparr>)"
  using assms
proof (induction rs arbitrary: a fs)
  case (Cons r rs)
  have self: "\<exists>q. x = x\<lparr> quantity := q \<rparr>" for x :: order by (rule exI [of _ "quantity x"]) simp
  from Cons.prems(1) show ?case
  proof (cases rule: spec_match_ConsE)
    case idle
    then show ?thesis using Cons.prems(2) self by blast
  next
    case part
    then show ?thesis using Cons.prems(2) self by simp blast
  next
    case full
    then show ?thesis using Cons.IH [OF full(4)] Cons.prems(2) by simp
  qed
qed simp

section \<open>Sweeps that end with quantity left\<close>

lemma sweep_exhausts:
  "distinct ps \<Longrightarrow> sweep a ps B = (a1, B1, fs, False) \<Longrightarrow> 0 < quantity a1 \<Longrightarrow> p \<in> set ps \<Longrightarrow> B1 p = []"
proof (induction ps arbitrary: a B fs)
  case (Cons q ps)
  obtain a' rs' fs' where m: "spec_match a (B q) = (a', rs', fs', False)"
    using Cons.prems(2) by (cases "spec_match a (B q)") (auto split: if_splits prod.splits)
  then obtain fs2 where w: "sweep a' ps (B(q := rs')) = (a1, B1, fs2, False)"
    using Cons.prems(2) by (auto split: prod.splits)
  have "0 < quantity a'" using sweep_idle [of a' ps] w Cons.prems(3) by (cases "quantity a' = 0") auto
  then have "rs' = []" using spec_match_exhausts m by blast
  then have "B1 q = []" using sweep_other [OF _ w, of q] Cons.prems(1) by simp
  then show ?case using Cons.IH [OF _ w] Cons.prems by auto
qed simp

lemma sweep_shrinks: "sweep a ps B = (a1, B1, fs, st) \<Longrightarrow> B1 p \<noteq> [] \<Longrightarrow> B p \<noteq> []"
proof (induction ps arbitrary: a B fs)
  case (Cons q ps)
  obtain a' rs' fs' st' where m: "spec_match a (B q) = (a', rs', fs', st')" by (cases "spec_match a (B q)")
  have ne: "rs' \<noteq> [] \<Longrightarrow> B q \<noteq> []" using m by (cases "B q") auto
  show ?case
  proof (cases st')
    case True
    then show ?thesis using Cons.prems m ne by (auto split: if_splits)
  next
    case False
    then obtain fs2 where "sweep a' ps (B(q := rs')) = (a1, B1, fs2, st)"
      using Cons.prems m by (auto split: prod.splits)
    then show ?thesis using Cons.IH Cons.prems(2) ne by (fastforce split: if_splits)
  qed
qed simp

section \<open>Reports\<close>

datatype report = RItch ItchMessage | RDrop DropCopyMessage | RAck nat OutboundAck

definition emit :: "report \<Rightarrow> outputs \<Rightarrow> outputs option" where
  "emit r s = (case r of
     RItch msg \<Rightarrow> (let (pushed, q) = lfq_push (mkt_data_queue s) msg; s1 = s\<lparr> mkt_data_queue := q \<rparr>
                  in Some (if pushed then s1 else s1\<lparr> dropped_reports := stat_inc (dropped_reports s1) \<rparr>))
   | RDrop msg \<Rightarrow> (let (pushed, q) = lfq_push (drop_copy_queue s) msg; s1 = s\<lparr> drop_copy_queue := q \<rparr>
                  in Some (if pushed then s1 else s1\<lparr> dropped_drop_copies := stat_inc (dropped_drop_copies s1) \<rparr>))
   | RAck w ack \<Rightarrow> (case ack_queues s of None \<Rightarrow> Some s
                   | Some qs \<Rightarrow> if w < length qs then Some (s\<lparr> ack_queues := Some (qs[w := snd (lfq_push (qs ! w) ack)]) \<rparr>)
                               else None))"

fun emits :: "report list \<Rightarrow> outputs \<Rightarrow> outputs option" where
  "emits [] s = Some s"
| "emits (r # rs) s = Option.bind (emit r s) (emits rs)"

lemma emits_append: "emits (xs @ ys) s = Option.bind (emits xs s) (emits ys)"
proof (induction xs arbitrary: s)
  case (Cons x xs)
  then show ?case by (cases "emit x s") auto
qed simp

definition itch_report :: "u8 \<Rightarrow> order \<Rightarrow> nat \<Rightarrow> nat \<Rightarrow> report" where
  "itch_report type ob px qty = RItch
     \<lparr> it_msg_type = type, it_stock_locate = word_of_nat (instrument_id ob), it_tracking_number = 0,
       it_timestamp = 0, it_internal_id = word_of_nat (internal_id ob), it_shares = word_of_nat qty,
       it_price = word_of_nat px, it_side = side_char (side ob) \<rparr>"

definition drop_report :: "OrderState \<Rightarrow> order \<Rightarrow> nat \<Rightarrow> nat \<Rightarrow> report" where
  "drop_report st ob px qty = RDrop
     \<lparr> dc_client_order_id = client_order_id ob, dc_internal_id = internal_id ob, dc_price = px,
       dc_quantity = qty, dc_instrument_id = instrument_id ob, dc_state = st, dc_side = side ob \<rparr>"

definition exec_report :: "u8 \<Rightarrow> order \<Rightarrow> nat \<Rightarrow> nat \<Rightarrow> report" where
  "exec_report flag ob px qty = RAck (worker_id ob)
     \<lparr> ack_report = \<lparr> er_msg_type = ch CHR ''E'',
                      er_order_token = encode_order_token (word_of_nat (client_order_id ob)),
                      er_executed_shares = word_of_nat qty, er_execution_price = word_of_nat px,
                      er_liquidity_flag = flag, er_match_number = replicate 8 0 \<rparr>,
       ack_client_id = client_id ob \<rparr>"

text \<open>The reports of one fill, in the order they leave: two executions on the market-data feed, two
  drop copies, and the private execution reports of the incoming and of the resting client, all at
  the resting order's price.\<close>

definition fill_reports :: "order \<times> order \<Rightarrow> report list" where
  "fill_reports f = (let (n, r) = f; q = fill_qty f; px = price r in
     [itch_report (ch CHR ''E'') r px q, itch_report (ch CHR ''E'') n px q,
      drop_report (if quantity n > quantity r then PARTIAL_FILL else FILLED) n px q,
      drop_report (if quantity r > quantity n then PARTIAL_FILL else FILLED) r px q,
      exec_report (ch CHR ''R'') n px q, exec_report (ch CHR ''A'') r px q])"

section \<open>The book as a whole\<close>

text \<open>A level of a shard: instrument, side and price.\<close>

type_synonym lkey = "nat \<times> Side \<times> nat"

definition side_view :: "(lkey \<Rightarrow> 'a) \<Rightarrow> nat \<Rightarrow> Side \<Rightarrow> nat \<Rightarrow> 'a" where
  "side_view B i s p = B (i, s, p)"

definition set_side :: "(lkey \<Rightarrow> 'a) \<Rightarrow> nat \<Rightarrow> Side \<Rightarrow> (nat \<Rightarrow> 'a) \<Rightarrow> lkey \<Rightarrow> 'a" where
  "set_side B i s L = (\<lambda>(j, t, p). if j = i \<and> t = s then L p else B (j, t, p))"

definition spec_order :: "(lkey \<Rightarrow> order list) \<Rightarrow> order \<Rightarrow> (lkey \<Rightarrow> order list) \<times> report list" where
  "spec_order B ob =
     (if price ob \<ge> MAX_PRICE then (B, [])
      else
        (let opp = opposite (side ob); k = (instrument_id ob, side ob, price ob);
             (a, L, fs, st) = sweep ob (crossing (side ob) (price ob)) (side_view B (instrument_id ob) opp);
             B1 = set_side B (instrument_id ob) opp L;
             reps = concat (map fill_reports fs)
         in if st then (B1, reps @ [drop_report REJECTED a (price a) (quantity a)])
            else if quantity a > 0
            then (B1(k := B1 k @ [a]),
                  reps @ [itch_report (ch CHR ''A'') a (price a) (quantity a), drop_report ST_NEW a (price a) (quantity a)])
            else (B1, reps)))"

definition spec_cancel :: "(lkey \<Rightarrow> order list) \<Rightarrow> order \<Rightarrow> (lkey \<Rightarrow> order list) \<times> report list" where
  "spec_cancel B ob =
     (let k = (instrument_id ob, side ob, price ob)
      in (B(k := remove1 ob (B k)),
          [itch_report (ch CHR ''X'') ob (price ob) (quantity ob), drop_report CANCELED ob (price ob) (quantity ob)]))"

definition uncrossed :: "(lkey \<Rightarrow> 'a list) \<Rightarrow> bool" where
  "uncrossed B \<longleftrightarrow> (\<forall>i p q. B (i, BUY, p) \<noteq> [] \<longrightarrow> B (i, SELL, q) \<noteq> [] \<longrightarrow> p < q)"

lemma distinct_crossing [simp]: "distinct (crossing s pr)"
  by (simp add: crossing_def)

lemma set_crossing: "set (crossing s pr) = (if s = BUY then {..pr} else {pr ..< MAX_PRICE})"
  by (auto simp: crossing_def)

lemma uncrossed_subset: "uncrossed B \<Longrightarrow> (\<And>k. B1 k \<noteq> [] \<Longrightarrow> B k \<noteq> []) \<Longrightarrow> uncrossed B1"
  unfolding uncrossed_def by blast

text \<open>Matching and cancelling never leave a crossed book.\<close>

lemma spec_order_uncrossed:
  assumes u: "uncrossed B" and lv: "\<And>i s p. MAX_PRICE \<le> p \<Longrightarrow> B (i, s, p) = []"
    and e: "spec_order B ob = (B1, reps)"
  shows "uncrossed B1"
proof (cases "price ob \<ge> MAX_PRICE")
  case True
  then show ?thesis using e u by (simp add: spec_order_def)
next
  case False
  obtain a L fs st where w: "sweep ob (crossing (side ob) (price ob))
      (side_view B (instrument_id ob) (opposite (side ob))) = (a, L, fs, st)"
    by (metis prod_cases4)
  let ?B = "set_side B (instrument_id ob) (opposite (side ob)) L"
  have sub: "?B k \<noteq> [] \<Longrightarrow> B k \<noteq> []" for k
    using sweep_shrinks [OF w] by (auto simp: set_side_def side_view_def split: prod.splits if_splits)
  have unc: "uncrossed ?B" using uncrossed_subset [OF u sub] by blast
  show ?thesis
  proof (cases "st \<or> quantity a = 0")
    case True
    then show ?thesis using unc e w False by (auto simp: spec_order_def Let_def split: if_splits)
  next
    case stop: False
    let ?k = "(instrument_id ob, side ob, price ob)"
    have B1: "B1 = ?B(?k := ?B ?k @ [a])" using stop e w False by (simp add: spec_order_def Let_def)
    have none: "L p = []" if "p \<in> set (crossing (side ob) (price ob))" for p
      using sweep_exhausts [OF distinct_crossing, of ob "side ob" "price ob"] w stop that by simp
    have far: "?B (instrument_id ob, opposite (side ob), p) = []" if "p \<in> set (crossing (side ob) (price ob))" for p
      using none [OF that] by (simp add: set_side_def)
    have high: "?B (i, s, p) = []" if "MAX_PRICE \<le> p" for i s p using sub lv [OF that] by blast
    show ?thesis
      unfolding uncrossed_def
    proof (intro allI impI)
      fix i p q assume b: "B1 (i, BUY, p) \<noteq> []" and s: "B1 (i, SELL, q) \<noteq> []"
      show "p < q"
      proof (rule ccontr)
        assume "\<not> p < q"
        then have "q \<le> p" by simp
        moreover have "p < MAX_PRICE \<or> p = price ob" 
          using b high [of p i BUY] by (cases "p < MAX_PRICE") (auto simp: B1 split: if_splits)
        moreover have "?B (i, BUY, p) = [] \<or> ?B (i, SELL, q) = []"
          using unc \<open>\<not> p < q\<close> unfolding uncrossed_def by blast
        ultimately show False
          using b s far [of p] far [of q] False
          by (cases "side ob") (auto simp: B1 set_crossing split: if_splits)
      qed
    qed
  qed
qed

lemma spec_cancel_uncrossed: "uncrossed B \<Longrightarrow> spec_cancel B ob = (B1, reps) \<Longrightarrow> uncrossed B1"
proof -
  assume "uncrossed B" and "spec_cancel B ob = (B1, reps)"
  then show ?thesis
    using uncrossed_subset [of B B1] by (fastforce simp: spec_cancel_def Let_def split: if_splits)
qed

end
