(* ===== verification/Book_Refine.thy ===== *)
theory Book_Refine
  imports Book_Spec
begin

text \<open>
  The order book of \<open>orderbook.h\<close> implements the list specification: the shard invariant
  (linked levels, pool ownership, the \<open>orders_by_id\<close> table), the effect of one fill and of the
  level loop, the sweeps over both ladders, resting and cancelling.
\<close>

section \<open>Output queues\<close>

definition outputs_ok :: "outputs \<Rightarrow> bool" where
  "outputs_ok s \<longleftrightarrow> lfq_ok (mkt_data_queue s) \<and> lfq_ok (drop_copy_queue s)
     \<and> (case ack_queues s of None \<Rightarrow> True | Some qs \<Rightarrow> \<forall>q \<in> set qs. lfq_ok q)"

text \<open>The number of ack queues; \<open>worker_known\<close> says that a worker has one, or that egress is not wired.\<close>

definition ack_workers :: "outputs \<Rightarrow> nat option" where
  "ack_workers s = map_option length (ack_queues s)"

definition worker_known :: "outputs \<Rightarrow> nat \<Rightarrow> bool" where
  "worker_known s w \<longleftrightarrow> (case ack_workers s of None \<Rightarrow> True | Some k \<Rightarrow> w < k)"

fun report_worker_ok :: "outputs \<Rightarrow> report \<Rightarrow> bool" where
  "report_worker_ok s (RAck w a) \<longleftrightarrow> worker_known s w"
| "report_worker_ok s _ \<longleftrightarrow> True"

lemma broadcast_emit:
  "emit (itch_report type ob px qty) s =
     Some (broadcast type (internal_id ob) px qty (instrument_id ob) (side_char (side ob)) s)"
  by (simp add: emit_def itch_report_def broadcast_def Let_def split: prod.splits)

lemma drop_copy_emit:
  "emit (drop_report st ob px qty) s =
     Some (send_drop_copy (client_order_id ob) (internal_id ob) px qty (instrument_id ob) (side ob) st s)"
  by (simp add: emit_def drop_report_def send_drop_copy_def Let_def split: prod.splits)

lemma send_ack_emit: "send_ack nd qty px flag s = emit (exec_report flag (order.truncate nd) px qty) s"
  by (simp add: emit_def exec_report_def send_ack_def Let_def order.defs split: option.splits)

lemma emit_ok:
  assumes "outputs_ok s" and "report_worker_ok s r"
  shows "\<exists>s1. emit r s = Some s1 \<and> outputs_ok s1 \<and> ack_workers s1 = ack_workers s"
proof (cases r)
  case (RItch msg)
  obtain b q where p: "lfq_push (mkt_data_queue s) msg = (b, q)" by (cases "lfq_push (mkt_data_queue s) msg")
  then have "lfq_ok q" using lfq.push_spec [OF _ p] assms(1) by (auto simp: outputs_ok_def)
  then show ?thesis using RItch p assms(1)
    by (auto simp: emit_def outputs_ok_def ack_workers_def Let_def)
next
  case (RDrop msg)
  obtain b q where p: "lfq_push (drop_copy_queue s) msg = (b, q)" by (cases "lfq_push (drop_copy_queue s) msg")
  then have "lfq_ok q" using lfq.push_spec [OF _ p] assms(1) by (auto simp: outputs_ok_def)
  then show ?thesis using RDrop p assms(1)
    by (auto simp: emit_def outputs_ok_def ack_workers_def Let_def)
next
  case (RAck w a)
  show ?thesis
  proof (cases "ack_queues s")
    case None
    then show ?thesis using RAck assms(1) by (auto simp: emit_def)
  next
    case (Some qs)
    then have w: "w < length qs" using assms(2) RAck by (simp add: worker_known_def ack_workers_def)
    obtain b q where p: "lfq_push (qs ! w) a = (b, q)" by (cases "lfq_push (qs ! w) a")
    then have "lfq_ok q" using lfq.push_spec [OF _ p] assms(1) Some w by (fastforce simp: outputs_ok_def)
    moreover have "set (qs[w := q]) \<subseteq> insert q (set qs)" by (rule set_update_subset_insert)
    ultimately have "\<forall>x \<in> set (qs[w := q]). lfq_ok x" using assms(1) Some by (auto simp: outputs_ok_def)
    then show ?thesis using RAck p Some w assms(1)
      by (auto simp: emit_def outputs_ok_def ack_workers_def)
  qed
qed

lemma worker_known_cong: "ack_workers s1 = ack_workers s \<Longrightarrow> worker_known s1 = worker_known s"
  by (simp add: worker_known_def fun_eq_iff)

lemma emits_ok:
  assumes "outputs_ok s" and "\<forall>r \<in> set rs. report_worker_ok s r"
  obtains s1 where "emits rs s = Some s1" "outputs_ok s1" "worker_known s1 = worker_known s" "ack_workers s1 = ack_workers s"
  using assms
proof (induction rs arbitrary: s thesis)
  case Nil
  then show ?case by simp
next
  case (Cons r rs)
  obtain s1 where s1: "emit r s = Some s1" "outputs_ok s1" "ack_workers s1 = ack_workers s"
    using emit_ok [of s r] Cons.prems by auto
  note wk = worker_known_cong [OF s1(3)]
  have "report_worker_ok s1 x = report_worker_ok s x" for x using wk by (cases x) auto
  then obtain s2 where "emits rs s1 = Some s2" "outputs_ok s2" "worker_known s2 = worker_known s1" "ack_workers s2 = ack_workers s1"
    using Cons.IH [of s1] s1 Cons.prems by auto
  then show ?case using Cons.prems(1) s1 wk by auto
qed

lemma emits_ack_workers: "emits rs s = Some s1 \<Longrightarrow> ack_workers s1 = ack_workers s"
proof (induction rs arbitrary: s)
  case (Cons r rs)
  then obtain s2 where "emit r s = Some s2" "emits rs s2 = Some s1" by (cases "emit r s") auto
  moreover from this(1) have "ack_workers s2 = ack_workers s"
    by (auto simp: emit_def ack_workers_def Let_def split: report.splits prod.splits option.splits if_splits)
  ultimately show ?case using Cons.IH by simp
qed simp

section \<open>The shard invariant\<close>

definition live :: "(lkey \<Rightarrow> nat list) \<Rightarrow> nat set" where
  "live V = (\<Union>k. set (V k))"

definition rests_at :: "lkey \<Rightarrow> order \<Rightarrow> bool" where
  "rests_at k ob \<longleftrightarrow> k = (instrument_id ob, side ob, price ob) \<and> 0 < quantity ob"

text \<open>\<open>V\<close> lists the slots resting at each level, \<open>P\<close> holds the allocated slots that are in no book.\<close>

definition shard_ok :: "shard \<Rightarrow> (lkey \<Rightarrow> limit) \<Rightarrow> (lkey \<Rightarrow> nat list) \<Rightarrow> nat set \<Rightarrow> bool" where
  "shard_ok sh L V P \<longleftrightarrow>
     level_family dll (mem sh) L V
     \<and> pool_inv (sh_pool sh) (live V \<union> P) \<and> pool_capacity (sh_pool sh) = POOL_CAPACITY_PER_SHARD
     \<and> live V \<inter> P = {}
     \<and> (\<forall>k. \<forall>a \<in> set (V k). rests_at k (ord (mem sh) a))
     \<and> (\<forall>a \<in> live V \<union> P. internal_id (ord (mem sh) a) = a \<and> worker_known (outs sh) (worker_id (ord (mem sh) a)))
     \<and> orders_by_id sh = (\<lambda>a. if a \<in> live V then Some a else None)
     \<and> outputs_ok (outs sh) \<and> ack_workers (outs sh) \<in> {None, Some (num_workers (sh_pool sh))}"

definition abook :: "shard \<Rightarrow> (lkey \<Rightarrow> nat list) \<Rightarrow> lkey \<Rightarrow> order list" where
  "abook sh V k = map (ord (mem sh)) (V k)"

lemma ord_sel [simp]:
  "internal_id (ord m a) = internal_id (m a)" "client_order_id (ord m a) = client_order_id (m a)"
  "price (ord m a) = price (m a)" "quantity (ord m a) = quantity (m a)"
  "client_id (ord m a) = client_id (m a)" "instrument_id (ord m a) = instrument_id (m a)"
  "worker_id (ord m a) = worker_id (m a)" "side (ord m a) = side (m a)"
  by (simp_all add: ord_def order.defs)

lemma ord_upd_quantity:
  "ord (m(a := (m a)\<lparr> quantity := q \<rparr>)) b = (if b = a then (ord m a)\<lparr> quantity := q \<rparr> else ord m b)"
  by (simp add: ord_def order.defs)

lemma set_mem_simps [simp]:
  "mem (set_mem sh m) = m" "orders_by_id (set_mem sh m) = orders_by_id sh" "outs (set_mem sh m) = outs sh"
  "pool_capacity (sh_pool (set_mem sh m)) = pool_capacity (sh_pool sh)"
  "pool_inv (sh_pool (set_mem sh m)) L = pool_inv (sh_pool sh) L"
  "num_workers (sh_pool (set_mem sh m)) = num_workers (sh_pool sh)"
  by (simp_all add: set_mem_def pool_inv_mem)

lemma free_order_ok:
  assumes "pool_inv (sh_pool sh) L" and "a \<in> L"
  obtains sh1 where "free_order sh a = Some sh1" "pool_inv (sh_pool sh1) (L - {a})" "mem sh1 = mem sh"
    "outs sh1 = outs sh" "orders_by_id sh1 = orders_by_id sh"
    "pool_capacity (sh_pool sh1) = pool_capacity (sh_pool sh)" "num_workers (sh_pool sh1) = num_workers (sh_pool sh)"
proof -
  obtain p1 where p1: "pool_deallocate (sh_pool sh) a = Some p1" "pool_inv p1 (L - {a})"
    "pool_mem p1 = mem sh" "pool_capacity p1 = pool_capacity (sh_pool sh)" "num_workers p1 = num_workers (sh_pool sh)"
    using order_pool.dealloc_spec [OF assms] by auto
  show thesis by (rule that [of "sh\<lparr> sh_pool := p1 \<rparr>"]) (use p1 in \<open>simp_all add: free_order_def\<close>)
qed

lemma shard_okD:
  assumes "shard_ok sh L V P"
  shows "level_family dll (mem sh) L V" and "pool_inv (sh_pool sh) (live V \<union> P)"
    and "live V \<inter> P = {}" and "\<And>k a. a \<in> set (V k) \<Longrightarrow> rests_at k (ord (mem sh) a)"
    and "\<And>a. a \<in> live V \<union> P \<Longrightarrow> internal_id (mem sh a) = a"
    and "\<And>a. a \<in> live V \<union> P \<Longrightarrow> worker_known (outs sh) (worker_id (mem sh a))"
    and "orders_by_id sh = (\<lambda>a. if a \<in> live V then Some a else None)"
    and "outputs_ok (outs sh)" and "pool_capacity (sh_pool sh) = POOL_CAPACITY_PER_SHARD"
    and "ack_workers (outs sh) \<in> {None, Some (num_workers (sh_pool sh))}"
  using assms by (auto simp: shard_ok_def)

lemma shard_ok_slot: "shard_ok sh L V P \<Longrightarrow> a \<in> live V \<union> P \<Longrightarrow> a < MAX_ORDERS_LOOKUP"
  using pool_live_range [of "sh_pool sh" "live V \<union> P" a] shard_okD(2,9) [of sh L V P]
  by (auto simp: MAX_ORDERS_LOOKUP_def)

lemma mem_live: "a \<in> set (V k) \<Longrightarrow> a \<in> live V"
  unfolding live_def by blast

lemma live_add: "live (V(k := V k @ [a])) = insert a (live V)"
  by (auto simp: live_def split: if_splits)

lemma live_remove:
  assumes f: "level_family dll m L V" and a: "a \<in> set (V k)"
  shows "live (V(k := remove1 a (V k))) = live V - {a}"
proof -
  have "a \<notin> set (V j)" if "j \<noteq> k" for j using f a that unfolding level_family_def by blast
  moreover have "set (remove1 a (V k)) = set (V k) - {a}" using lq.family_distinct [OF f] by (simp add: set_remove1_eq)
  ultimately show ?thesis by (fastforce simp: live_def split: if_splits)
qed

lemma family_links:
  "(\<And>a. o_next (m1 a) = o_next (m a) \<and> o_prev (m1 a) = o_prev (m a)) \<Longrightarrow>
     level_family dll m1 L V = level_family dll m L V"
  using dll_links [of _ m1 m] by (simp add: level_family_def)

section \<open>One fill\<close>

lemma exec_report_mod: "exec_report flag ob (px mod 2 ^ 32) qty = exec_report flag ob px qty"
proof -
  have "(word_of_nat (px mod 2 ^ 32) :: u32) = word_of_nat px"
    by (simp add: word_of_nat_eq_iff take_bit_eq_mod)
  then show ?thesis by (simp add: exec_report_def)
qed

lemma execute_reports:
  "execute sh level n r = Option.bind (emits (fill_reports (ord (mem sh) n, ord (mem sh) r)) (outs sh)) (\<lambda>s6.
     if quantity (mem sh n) \<ge> quantity (mem sh r) then
       let m1 = (mem sh)(n := (mem sh n)\<lparr> quantity := quantity (mem sh n) - quantity (mem sh r) \<rparr>) in
       Option.bind (arr_set MAX_ORDERS_LOOKUP (orders_by_id sh) (internal_id (m1 r)) None) (\<lambda>ids.
         let (m2, level1) = limit_remove m1 level r in
         Option.bind (free_order (set_mem (sh\<lparr> outs := s6, orders_by_id := ids \<rparr>) m2) r) (\<lambda>sh1. Some (sh1, level1)))
     else
       let m1 = (mem sh)(r := (mem sh r)\<lparr> quantity := quantity (mem sh r) - quantity (mem sh n) \<rparr>);
           m2 = m1(n := (m1 n)\<lparr> quantity := 0 \<rparr>)
       in Some (set_mem (sh\<lparr> outs := s6 \<rparr>) m2, level))"
  unfolding execute_def fill_reports_def fill_qty_def Let_def send_ack_emit exec_report_mod
  by (simp add: broadcast_emit drop_copy_emit ord_def [symmetric] Option.bind_assoc)

lemma fill_report_workers:
  assumes "shard_ok sh L V P" and "n \<in> live V \<union> P" and "r \<in> live V \<union> P"
  shows "\<forall>x \<in> set (fill_reports (ord (mem sh) n, ord (mem sh) r)). report_worker_ok (outs sh) x"
  using shard_okD(6) [OF assms(1)] assms(2,3)
  by (auto simp: fill_reports_def Let_def itch_report_def drop_report_def exec_report_def)

lemma execute_full:
  assumes ok: "shard_ok sh L V P" and n: "n \<in> P" and k: "V k = r # xs"
    and q: "quantity (mem sh r) \<le> quantity (mem sh n)"
  shows "\<exists>sh1 l1. execute sh (L k) n r = Some (sh1, l1) \<and> shard_ok sh1 (L(k := l1)) (V(k := xs)) P
    \<and> ord (mem sh1) = (ord (mem sh))(n := (ord (mem sh) n)\<lparr> quantity := quantity (mem sh n) - quantity (mem sh r) \<rparr>)
    \<and> emits (fill_reports (ord (mem sh) n, ord (mem sh) r)) (outs sh) = Some (outs sh1)"
proof -
  note D = shard_okD [OF ok]
  have r: "r \<in> set (V k)" "r \<in> live V" using k mem_live [of r V k] by auto
  have rn: "r \<noteq> n" using r n D(3) by blast
  obtain s6 where s6: "emits (fill_reports (ord (mem sh) n, ord (mem sh) r)) (outs sh) = Some s6"
    "outputs_ok s6" "worker_known s6 = worker_known (outs sh)" "ack_workers s6 = ack_workers (outs sh)"
    using emits_ok [OF D(8) fill_report_workers [OF ok]] n r by blast
  let ?m1 = "(mem sh)(n := (mem sh n)\<lparr> quantity := quantity (mem sh n) - quantity (mem sh r) \<rparr>)"
  let ?ids = "(orders_by_id sh)(r := None)"
  have f1: "level_family dll ?m1 L V" using D(1) by (subst family_links [where m = "mem sh"]) auto
  obtain m2 l1 where m2: "limit_remove ?m1 (L k) r = (m2, l1)" by (cases "limit_remove ?m1 (L k) r")
  note fr = lq.family_remove [OF f1 r(1) m2]
  have "remove1 r (V k) = xs" using k by simp
  note f2 = fr(1) [unfolded this] and lv = live_remove [OF D(1) r(1), unfolded this]
  let ?sh = "set_mem (sh\<lparr> outs := s6, orders_by_id := ?ids \<rparr>) m2"
  have "pool_inv (sh_pool ?sh) (live V \<union> P)" using D(2) by simp
  then obtain sh1 where sh1: "free_order ?sh r = Some sh1" "pool_inv (sh_pool sh1) (live V \<union> P - {r})"
    "mem sh1 = m2" "outs sh1 = s6" "orders_by_id sh1 = ?ids" "pool_capacity (sh_pool sh1) = POOL_CAPACITY_PER_SHARD"
    "num_workers (sh_pool sh1) = num_workers (sh_pool sh)"
    using free_order_ok [of ?sh "live V \<union> P" r] r D(9) by auto
  have un: "live (V(k := xs)) \<union> P = live V \<union> P - {r}" using lv r D(3) by blast
  have od: "ord m2 = (ord (mem sh))(n := (ord (mem sh) n)\<lparr> quantity := quantity (mem sh n) - quantity (mem sh r) \<rparr>)"
    using fr(2) by (auto simp: ord_upd_quantity)
  have "execute sh (L k) n r = Some (sh1, l1)"
    using s6(1) q D(5) [of r] r rn shard_ok_slot [OF ok, of r] m2 sh1(1)
    by (simp add: execute_reports arr_simps)
  moreover have "shard_ok sh1 (L(k := l1)) (V(k := xs)) P"
    unfolding shard_ok_def
  proof (intro conjI allI ballI)
    show "level_family dll (mem sh1) (L(k := l1)) (V(k := xs))" using f2 sh1(3) by simp
    show "pool_inv (sh_pool sh1) (live (V(k := xs)) \<union> P)" using sh1(2) un by simp
    show "live (V(k := xs)) \<inter> P = {}" using lv D(3) by blast
    show "outputs_ok (outs sh1)" using s6 sh1(4) by simp
    show "pool_capacity (sh_pool sh1) = POOL_CAPACITY_PER_SHARD" by (rule sh1(6))
    show "ack_workers (outs sh1) \<in> {None, Some (num_workers (sh_pool sh1))}" using D(10) s6(4) sh1(4,7) by simp
    show "orders_by_id sh1 = (\<lambda>a. if a \<in> live (V(k := xs)) then Some a else None)"
      by (simp add: sh1(5) D(7) lv fun_eq_iff)
  next
    fix j a assume a: "a \<in> set ((V(k := xs)) j)"
    then have "a \<in> set (V j)" using k by (auto split: if_splits)
    moreover from this have "a \<noteq> n" using n D(3) mem_live [of a V j] by blast
    ultimately show "rests_at j (ord (mem sh1) a)" using D(4) od sh1(3) by simp
  next
    fix a assume "a \<in> live (V(k := xs)) \<union> P"
    then have "a \<in> live V \<union> P" using lv by blast
    then show "internal_id (ord (mem sh1) a) = a" "worker_known (outs sh1) (worker_id (ord (mem sh1) a))"
      using D(5,6) s6(3) sh1(3,4) od by auto
  qed
  ultimately show ?thesis using od sh1(3,4) s6(1) by auto
qed

lemma execute_part:
  assumes ok: "shard_ok sh L V P" and n: "n \<in> P" and k: "V k = r # xs"
    and q: "quantity (mem sh n) < quantity (mem sh r)"
  shows "\<exists>sh1. execute sh (L k) n r = Some (sh1, L k) \<and> shard_ok sh1 L V P
    \<and> ord (mem sh1) = (ord (mem sh))(r := (ord (mem sh) r)\<lparr> quantity := quantity (mem sh r) - quantity (mem sh n) \<rparr>,
        n := (ord (mem sh) n)\<lparr> quantity := 0 \<rparr>)
    \<and> emits (fill_reports (ord (mem sh) n, ord (mem sh) r)) (outs sh) = Some (outs sh1)"
proof -
  note D = shard_okD [OF ok]
  have r: "r \<in> set (V k)" "r \<in> live V" using k mem_live [of r V k] by auto
  have rn: "r \<noteq> n" using r n D(3) by blast
  obtain s6 where s6: "emits (fill_reports (ord (mem sh) n, ord (mem sh) r)) (outs sh) = Some s6"
    "outputs_ok s6" "worker_known s6 = worker_known (outs sh)" "ack_workers s6 = ack_workers (outs sh)"
    using emits_ok [OF D(8) fill_report_workers [OF ok]] n r by blast
  let ?m1 = "(mem sh)(r := (mem sh r)\<lparr> quantity := quantity (mem sh r) - quantity (mem sh n) \<rparr>)"
  let ?m2 = "?m1(n := (?m1 n)\<lparr> quantity := 0 \<rparr>)"
  let ?sh = "set_mem (sh\<lparr> outs := s6 \<rparr>) ?m2"
  have f: "level_family dll ?m2 L V" using D(1) by (subst family_links [where m = "mem sh"]) auto
  have od: "ord ?m2 = (ord (mem sh))(r := (ord (mem sh) r)\<lparr> quantity := quantity (mem sh r) - quantity (mem sh n) \<rparr>,
        n := (ord (mem sh) n)\<lparr> quantity := 0 \<rparr>)"
    using rn by (auto simp: fun_eq_iff ord_def order.defs)
  have "execute sh (L k) n r = Some (?sh, L k)" using s6(1) q by (simp add: execute_reports Let_def)
  moreover have "shard_ok ?sh L V P"
    unfolding shard_ok_def
  proof (intro conjI allI ballI)
    fix j a assume a: "a \<in> set (V j)"
    then have "a \<noteq> n" using n D(3) mem_live [of a V j] by blast
    then show "rests_at j (ord (mem ?sh) a)"
      using D(4) [OF a] q by (simp add: od rests_at_def)
  next
    fix a assume "a \<in> live V \<union> P"
    then show "internal_id (ord (mem ?sh) a) = a" "worker_known (outs ?sh) (worker_id (ord (mem ?sh) a))"
      using D(5,6) s6(3) od by auto
  qed (use f s6 D in auto)
  ultimately show ?thesis using od s6(1) by auto
qed

section \<open>The loop over one level\<close>

lemma shard_ok_drop_pending:
  assumes ok: "shard_ok sh L V P" and n: "n \<in> P" and rs: "\<forall>x \<in> set rs. report_worker_ok (outs sh) x"
    and s: "emits rs (outs sh) = Some s"
  obtains sh1 where "free_order (sh\<lparr> outs := s \<rparr>) n = Some sh1" "shard_ok sh1 L V (P - {n})"
    "mem sh1 = mem sh" "outs sh1 = s"
proof -
  note D = shard_okD [OF ok]
  have "outputs_ok s" "worker_known s = worker_known (outs sh)" "ack_workers s = ack_workers (outs sh)" using emits_ok [OF D(8) rs] s by auto
  moreover obtain sh1 where "free_order (sh\<lparr> outs := s \<rparr>) n = Some sh1" "pool_inv (sh_pool sh1) (live V \<union> P - {n})"
    "mem sh1 = mem sh" "outs sh1 = s" "orders_by_id sh1 = orders_by_id sh"
    "pool_capacity (sh_pool sh1) = pool_capacity (sh_pool sh)" "num_workers (sh_pool sh1) = num_workers (sh_pool sh)"
    using free_order_ok [of "sh\<lparr> outs := s \<rparr>" "live V \<union> P" n] D(2) n by auto
  moreover have "live V \<union> P - {n} = live V \<union> (P - {n})" using n D(3) by blast
  moreover have "live V \<inter> (P - {n}) = {}" using D(3) by blast
  moreover have "\<forall>a \<in> live V \<union> (P - {n}). internal_id (mem sh a) = a \<and> worker_known (outs sh) (worker_id (mem sh a))"
    using D(5,6) by blast
  ultimately show thesis using that D by (simp add: shard_ok_def)
qed

text \<open>The reports of a stopped order, at the end of its fills.\<close>

definition stop_reports :: "bool \<Rightarrow> order \<Rightarrow> report list" where
  "stop_reports st a = (if st then [drop_report REJECTED a (price a) (quantity a)] else [])"

definition trade_reports :: "(order \<times> order) list \<Rightarrow> report list" where
  "trade_reports fs = concat (map fill_reports fs)"

text \<open>The outcome of a matching loop over levels: the flag, the remaining order, the fills reported,
  the orders outside the visited levels untouched.\<close>

definition matched :: "shard \<Rightarrow> shard \<Rightarrow> nat \<Rightarrow> order \<Rightarrow> (order \<times> order) list \<Rightarrow> bool \<Rightarrow> bool" where
  "matched sh sh1 n a1 fs st \<longleftrightarrow> ord (mem sh1) n = a1
     \<and> emits (trade_reports fs @ stop_reports st a1) (outs sh) = Some (outs sh1)"

lemma match_level_spec:
  assumes "shard_ok sh L V P" and "n \<in> P" and "V k = xs"
    and "spec_match (ord (mem sh) n) (map (ord (mem sh)) xs) = (a1, rs1, fs, st)"
  shows "\<exists>sh1 l1 ys. match_level sh (L k) n = Some (st, sh1, l1)
    \<and> shard_ok sh1 (L(k := l1)) (V(k := ys)) (if st then P - {n} else P)
    \<and> matched sh sh1 n a1 fs st \<and> map (ord (mem sh1)) ys = rs1 \<and> set ys \<subseteq> set xs
    \<and> (\<forall>a. a \<noteq> n \<and> a \<notin> set xs \<longrightarrow> ord (mem sh1) a = ord (mem sh) a)"
  using assms
proof (induction xs arbitrary: sh L V fs)
  case Nil
  have "lim_head (L k) = None" using lq.family_front [OF shard_okD(1) [OF Nil(1)], of k] Nil(3) by simp
  then have "match_level sh (L k) n = Some (False, sh, L k)" by (simp add: match_level.simps)
  then show ?case
    using Nil by (intro exI [of _ sh] exI [of _ "L k"] exI [of _ "[]"])
      (auto simp: matched_def trade_reports_def stop_reports_def fun_upd_idem)
next
  case (Cons r xs)
  note ok = Cons.prems(1)
  have hd: "lim_head (L k) = Some r" using lq.family_front [OF shard_okD(1) [OF ok], of k] Cons.prems(3) by simp
  have r: "r \<in> live V" using Cons.prems(3) mem_live [of r V k] by simp
  have rn: "r \<noteq> n" "r \<notin> set xs"
    using r Cons.prems(2,3) shard_okD(3) [OF ok] lq.family_distinct [OF shard_okD(1) [OF ok], of k] by auto
  have nx: "n \<notin> set xs"
    using Cons.prems(2,3) shard_okD(3) [OF ok] mem_live [of n V k] by auto
  have "spec_match (ord (mem sh) n) (ord (mem sh) r # map (ord (mem sh)) xs) = (a1, rs1, fs, st)"
    using Cons.prems(4) by simp
  then show ?case
  proof (cases rule: spec_match_ConsE)
    case idle
    show ?thesis
    proof (cases st)
      case False
      then have "match_level sh (L k) n = Some (False, sh, L k)" using idle by (simp add: match_level.simps)
      then show ?thesis using idle False Cons.prems
        by (intro exI [of _ sh] exI [of _ "L k"] exI [of _ "r # xs"])
          (simp add: matched_def trade_reports_def stop_reports_def fun_upd_idem)
    next
      case True
      let ?a = "ord (mem sh) n"
      let ?rs = "[drop_report REJECTED ?a (price ?a) (quantity ?a)]"
      let ?s = "send_drop_copy (client_order_id ?a) (internal_id ?a) (price ?a) (quantity ?a) (instrument_id ?a) (side ?a) REJECTED (outs sh)"
      have em: "emits ?rs (outs sh) = Some ?s" by (simp add: drop_copy_emit)
      obtain sh1 where sh1: "free_order (sh\<lparr> outs := ?s \<rparr>) n = Some sh1" "shard_ok sh1 L V (P - {n})"
        "mem sh1 = mem sh" "outs sh1 = ?s"
        using shard_ok_drop_pending [OF ok Cons.prems(2) _ em] by (auto simp: drop_report_def)
      then have "match_level sh (L k) n = Some (True, sh1, L k)"
        using idle True hd by (simp add: match_level.simps reject_self_trade_def Let_def)
      then show ?thesis using idle True sh1 em Cons.prems(3)
        by (intro exI [of _ sh1] exI [of _ "L k"] exI [of _ "r # xs"])
          (simp add: matched_def trade_reports_def stop_reports_def fun_upd_idem)
    qed
  next
    case part
    then obtain sh1 where sh1: "execute sh (L k) n r = Some (sh1, L k)" "shard_ok sh1 L V P"
      "ord (mem sh1) = (ord (mem sh))(r := (ord (mem sh) r)\<lparr> quantity := quantity (mem sh r) - quantity (mem sh n) \<rparr>,
          n := (ord (mem sh) n)\<lparr> quantity := 0 \<rparr>)"
      "emits (fill_reports (ord (mem sh) n, ord (mem sh) r)) (outs sh) = Some (outs sh1)"
      using execute_part [OF ok Cons.prems(2,3)] by auto
    have "quantity (ord (mem sh1) n) = 0" by (simp add: sh1(3) del: ord_sel)
    then have "match_level sh1 (L k) n = Some (False, sh1, L k)" by (simp add: match_level.simps)
    then have "match_level sh (L k) n = Some (False, sh1, L k)"
      using part hd sh1(1) by (subst match_level.simps) simp
    moreover have "map (ord (mem sh1)) (r # xs) = rs1" using part rn nx by (auto simp: sh1(3))
    ultimately show ?thesis using part sh1 Cons.prems(3) rn
      by (intro exI [of _ sh1] exI [of _ "L k"] exI [of _ "r # xs"])
        (simp add: matched_def trade_reports_def stop_reports_def fun_upd_idem)
  next
    case (full fs2)
    then obtain sh1 l1 where sh1: "execute sh (L k) n r = Some (sh1, l1)" "shard_ok sh1 (L(k := l1)) (V(k := xs)) P"
      "ord (mem sh1) = (ord (mem sh))(n := (ord (mem sh) n)\<lparr> quantity := quantity (mem sh n) - quantity (mem sh r) \<rparr>)"
      "emits (fill_reports (ord (mem sh) n, ord (mem sh) r)) (outs sh) = Some (outs sh1)"
      using execute_full [OF ok Cons.prems(2,3)] by auto
    have mp: "map (ord (mem sh1)) xs = map (ord (mem sh)) xs" using nx by (simp add: sh1(3))
    have "spec_match (ord (mem sh1) n) (map (ord (mem sh1)) xs) = (a1, rs1, fs2, st)"
      unfolding mp using full(4) by (simp add: sh1(3))
    from Cons.IH [OF sh1(2) Cons.prems(2) fun_upd_same this, unfolded fun_upd_same fun_upd_upd] obtain sh2 l2 ys where
      sh2: "match_level sh1 l1 n = Some (st, sh2, l2)" "shard_ok sh2 (L(k := l2)) (V(k := ys)) (if st then P - {n} else P)"
      "matched sh1 sh2 n a1 fs2 st" "map (ord (mem sh2)) ys = rs1" "set ys \<subseteq> set xs"
      "\<forall>a. a \<noteq> n \<and> a \<notin> set xs \<longrightarrow> ord (mem sh2) a = ord (mem sh1) a"
      by blast
    have "match_level sh (L k) n = Some (st, sh2, l2)"
      using full hd sh1(1) sh2(1) by (subst match_level.simps) simp
    moreover have "matched sh sh2 n a1 fs st"
      using sh2(3) full(5) sh1(4) by (simp add: matched_def trade_reports_def emits_append)
    moreover have "ord (mem sh2) a = ord (mem sh) a" if "a \<noteq> n \<and> a \<notin> set (r # xs)" for a
      using sh2(6) that sh1(3) by simp
    moreover have "set ys \<subseteq> set (r # xs)" using sh2(5) by auto
    ultimately show ?thesis using sh2(2,4) by blast
  qed
qed

end
