(* ===== verification/Book_Sweep.thy ===== *)
theory Book_Sweep
  imports Book_Refine
begin

text \<open>
  The outer matching loops of \<open>match_order\<close>. Both ladders offer the same interface, \<open>ladder\<close>: a
  level array, a price index and a step to the next level; the correctness of the sweep is proved once
  from it and obtained for the asks and for the bids by interpretation.
\<close>

section \<open>Levels of all books of a shard\<close>

definition lims :: "(nat \<Rightarrow> book) \<Rightarrow> lkey \<Rightarrow> limit" where
  "lims bs k = (case k of (i, BUY, p) \<Rightarrow> bids (bs i) p | (i, SELL, p) \<Rightarrow> asks (bs i) p)"

lemma side_view_set [simp]: "side_view (set_side V i s L) i s = L"
  by (simp add: side_view_def set_side_def fun_eq_iff)

lemma set_side_view [simp]: "set_side V i s (side_view V i s) = V"
  by (auto simp: side_view_def set_side_def fun_eq_iff)

lemma set_side_upd: "V((i, s, p) := x) = set_side V i s ((side_view V i s)(p := x))"
  by (auto simp: side_view_def set_side_def fun_eq_iff)

lemma set_side_twice [simp]: "set_side (set_side V i s L) i s M = set_side V i s M"
  by (auto simp: set_side_def fun_eq_iff)

section \<open>The interface of a ladder\<close>

locale ladder =
  fixes sd :: Side
    and better :: "nat \<Rightarrow> nat \<Rightarrow> bool"
    and rank :: "nat \<Rightarrow> nat"
    and crosses :: "nat \<Rightarrow> nat \<Rightarrow> bool"
    and remaining :: "nat \<Rightarrow> nat \<Rightarrow> nat list"
    and levels :: "book \<Rightarrow> nat \<Rightarrow> limit"
    and set_level :: "book \<Rightarrow> nat \<Rightarrow> limit \<Rightarrow> book"
    and same_other :: "book \<Rightarrow> book \<Rightarrow> bool"
    and index_ok :: "book \<Rightarrow> (nat \<Rightarrow> nat list) \<Rightarrow> bool"
    and advance :: "book \<Rightarrow> nat \<Rightarrow> (book \<times> int) option"
    and loop :: "shard \<Rightarrow> book \<Rightarrow> nat \<Rightarrow> nat \<Rightarrow> int \<Rightarrow> (bool \<times> shard \<times> book) option"
  assumes rank_less: "better q r \<Longrightarrow> r < MAX_PRICE \<Longrightarrow> rank r < rank q"
    and remaining_none: "\<not> crosses q pr \<Longrightarrow> remaining q pr = []"
    and remaining_skip: "crosses q pr \<Longrightarrow> better q r \<Longrightarrow>
      \<exists>skip. remaining q pr = q # skip @ remaining r pr \<and> (\<forall>x \<in> set skip. better x r)"
    and remaining_cons: "crosses q pr \<Longrightarrow> q < MAX_PRICE \<Longrightarrow> \<exists>rest. remaining q pr = q # rest \<and> q \<notin> set rest"
    and lims_level: "lims (bs(i := b)) (i, sd, q) = levels b q"
    and lims_set_level: "lims (bs(i := set_level b q l)) = (lims (bs(i := b)))((i, sd, q) := l)"
    and same_other_set: "same_other b (set_level b q l)"
    and same_other_refl: "same_other b b"
    and same_other_trans: "same_other b c \<Longrightarrow> same_other c d \<Longrightarrow> same_other b d"
    and index_set_level: "index_ok (set_level b q l) A = index_ok b A"
    and index_nonempty: "(\<And>p. A p = [] \<longleftrightarrow> A1 p = []) \<Longrightarrow> index_ok b A = index_ok b A1"
    and advance_spec: "index_ok b (A(q := xs)) \<Longrightarrow> A q = [] \<Longrightarrow> q < MAX_PRICE \<Longrightarrow> (\<And>p. better p q \<Longrightarrow> A p = []) \<Longrightarrow>
      \<exists>b2 p2. advance b q = Some (b2, p2) \<and> index_ok b2 A \<and> same_other b b2 \<and> (\<forall>bs i. lims (bs(i := b2)) = lims (bs(i := b)))
        \<and> (p2 = - 1 \<and> (\<forall>p. A p = [])
           \<or> (\<exists>r. p2 = int r \<and> r < MAX_PRICE \<and> better q r \<and> (\<forall>p. better p r \<longrightarrow> A p = [])))"
    and loop_end: "loop sh b n pr (- 1) = Some (False, sh, b)"
    and loop_step: "q < MAX_PRICE \<Longrightarrow> loop sh b n pr (int q) =
      (if crosses q pr \<and> quantity (mem sh n) > 0 then
         Option.bind (match_level sh (levels b q) n) (\<lambda>(rejected, sh1, l1).
           let b1 = set_level b q l1 in
           if rejected then Some (True, sh1, b1)
           else if lim_head l1 = None then Option.bind (advance b1 q) (\<lambda>(b2, p2). loop sh1 b2 n pr p2)
           else Some (False, sh1, b1))
       else Some (False, sh, b))"
begin

text \<open>What the sweep must deliver, for an instrument \<open>i\<close> of the shard.\<close>

definition swept :: "(nat \<Rightarrow> book) \<Rightarrow> nat \<Rightarrow> (lkey \<Rightarrow> nat list) \<Rightarrow> nat set \<Rightarrow> shard \<Rightarrow> book \<Rightarrow> nat \<Rightarrow>
    order \<Rightarrow> (nat \<Rightarrow> order list) \<Rightarrow> (order \<times> order) list \<Rightarrow> bool \<Rightarrow> shard \<Rightarrow> book \<Rightarrow> (nat \<Rightarrow> nat list) \<Rightarrow> bool" where
  "swept bs i V P sh b n a1 B1 fs st sh1 b1 A1 \<longleftrightarrow>
     shard_ok sh1 (lims (bs(i := b1))) (set_side V i sd A1) (if st then P - {n} else P)
     \<and> index_ok b1 A1 \<and> matched sh sh1 n a1 fs st \<and> (\<forall>p. map (ord (mem sh1)) (A1 p) = B1 p) \<and> same_other b b1
     \<and> (\<forall>a. a \<noteq> n \<and> (\<forall>p. a \<notin> set (V (i, sd, p))) \<longrightarrow> ord (mem sh1) a = ord (mem sh) a)"

lemma swept_stay:
  assumes "shard_ok sh (lims (bs(i := b))) V P" and "index_ok b (side_view V i sd)"
  shows "swept bs i V P sh b n (ord (mem sh) n) (\<lambda>p. map (ord (mem sh)) (V (i, sd, p))) [] False sh b (side_view V i sd)"
  using assms same_other_refl
  by (simp add: swept_def matched_def trade_reports_def stop_reports_def) (simp add: side_view_def)

lemma swept_trans:
  assumes m: "matched sh sh1 n a2 fs1 False" and ys: "\<And>p. set (V1 (i, sd, p)) \<subseteq> set (V (i, sd, p))"
    and fr: "\<And>a. a \<noteq> n \<Longrightarrow> (\<And>p. a \<notin> set (V (i, sd, p))) \<Longrightarrow> ord (mem sh1) a = ord (mem sh) a"
    and so: "same_other b b2" and V: "\<And>M. set_side V1 i sd M = set_side V i sd M"
    and w: "swept bs i V1 P sh1 b2 n a1 B1 fs2 st sh2 b3 A3"
  shows "swept bs i V P sh b n a1 B1 (fs1 @ fs2) st sh2 b3 A3"
proof -
  have "matched sh sh2 n a1 (fs1 @ fs2) st"
    using m w by (simp add: swept_def matched_def trade_reports_def stop_reports_def emits_append)
  moreover have "ord (mem sh2) a = ord (mem sh) a" if "a \<noteq> n" "\<forall>p. a \<notin> set (V (i, sd, p))" for a
  proof -
    have "\<forall>p. a \<notin> set (V1 (i, sd, p))" using ys that(2) by blast
    then show ?thesis using w that fr [of a] by (auto simp: swept_def)
  qed
  ultimately show ?thesis using w V same_other_trans [OF so] by (auto simp: swept_def)
qed

text \<open>The effect of the level loop inside the sweep.\<close>

lemma level_step:
  assumes ok: "shard_ok sh (lims (bs(i := b))) V P" and n: "n \<in> P"
    and m: "spec_match (ord (mem sh) n) (map (ord (mem sh)) (V (i, sd, q))) = (a2, rs, fs1, st1)"
  obtains sh1 l1 ys where "match_level sh (levels b q) n = Some (st1, sh1, l1)"
    "shard_ok sh1 (lims (bs(i := set_level b q l1))) (V((i, sd, q) := ys)) (if st1 then P - {n} else P)"
    "matched sh sh1 n a2 fs1 st1" "map (ord (mem sh1)) ys = rs" "set ys \<subseteq> set (V (i, sd, q))"
    "\<forall>a. a \<noteq> n \<and> a \<notin> set (V (i, sd, q)) \<longrightarrow> ord (mem sh1) a = ord (mem sh) a"
    "(\<lambda>p. map (ord (mem sh)) (V (i, sd, p)))(q := rs) = (\<lambda>p. map (ord (mem sh1)) ((V((i, sd, q) := ys)) (i, sd, p)))"
    "lim_head l1 = None \<longleftrightarrow> ys = []"
proof -
  let ?k = "(i, sd, q)"
  obtain sh1 l1 ys where ml: "match_level sh (levels b q) n = Some (st1, sh1, l1)"
    "shard_ok sh1 ((lims (bs(i := b)))(?k := l1)) (V(?k := ys)) (if st1 then P - {n} else P)"
    "matched sh sh1 n a2 fs1 st1" "map (ord (mem sh1)) ys = rs" "set ys \<subseteq> set (V ?k)"
    "\<forall>a. a \<noteq> n \<and> a \<notin> set (V ?k) \<longrightarrow> ord (mem sh1) a = ord (mem sh) a"
    using match_level_spec [OF ok n refl m] by (auto simp: lims_level)
  have same: "ord (mem sh1) a = ord (mem sh) a" if "a \<in> set (V (i, sd, p))" "p \<noteq> q" for a p
  proof -
    have "a \<noteq> n" using that n shard_okD(3) [OF ok] mem_live by blast
    moreover have "a \<notin> set (V ?k)" using shard_okD(1) [OF ok] that unfolding level_family_def by blast
    ultimately show ?thesis using ml(6) by blast
  qed
  show thesis
  proof (rule that [OF ml(1) _ ml(3-6)])
    show "shard_ok sh1 (lims (bs(i := set_level b q l1))) (V(?k := ys)) (if st1 then P - {n} else P)"
      using ml(2) by (simp add: lims_set_level)
    show "(\<lambda>p. map (ord (mem sh)) (V (i, sd, p)))(q := rs) = (\<lambda>p. map (ord (mem sh1)) ((V(?k := ys)) (i, sd, p)))"
      using same ml(4) by (auto simp: fun_eq_iff)
    show "lim_head l1 = None \<longleftrightarrow> ys = []"
      using lq.family_front [OF shard_okD(1) [OF ml(2)], of ?k] by simp
  qed
qed

text \<open>The sweep ends at a level that keeps orders.\<close>

lemma swept_stop:
  assumes sb: "shard_ok sh1 (lims (bs(i := set_level b q l1))) (V((i, sd, q) := ys)) (if st then P - {n} else P)"
    and ix: "index_ok b (side_view V i sd)" and m: "matched sh sh1 n a2 fs1 st"
    and ys: "ys \<noteq> []" "set ys \<subseteq> set (V (i, sd, q))"
    and fr: "\<forall>a. a \<noteq> n \<and> a \<notin> set (V (i, sd, q)) \<longrightarrow> ord (mem sh1) a = ord (mem sh) a"
    and B: "B1 = (\<lambda>p. map (ord (mem sh1)) ((V((i, sd, q) := ys)) (i, sd, p)))"
  shows "swept bs i V P sh b n a2 B1 fs1 st sh1 (set_level b q l1) ((side_view V i sd)(q := ys))"
proof -
  have "index_ok b (side_view V i sd) = index_ok b ((side_view V i sd)(q := ys))"
    by (rule index_nonempty) (use ys in \<open>auto simp: side_view_def\<close>)
  then show ?thesis
    using sb ix m fr same_other_set [of b q l1] by (auto simp: swept_def B set_side_upd [symmetric] index_set_level side_view_def)
qed

text \<open>Stepping from an emptied level to the next one does not change what is left to sweep.\<close>

lemma next_level:
  assumes ix: "index_ok b (A(q := xs))" and q: "A q = []" "q < MAX_PRICE" "crosses q pr" "remaining q pr = q # rest"
    and bt: "\<And>p. better p q \<Longrightarrow> A p = []" and B: "\<And>p. A p = [] \<Longrightarrow> B p = []"
  obtains b2 p2 where "advance b q = Some (b2, p2)" "index_ok b2 A" "same_other b b2"
    "\<forall>bs i. lims (bs(i := b2)) = lims (bs(i := b))"
    "p2 = - 1 \<and> sweep a rest B = (a, B, [], False)
     \<or> (\<exists>r. p2 = int r \<and> r < MAX_PRICE \<and> better q r \<and> (\<forall>p. better p r \<longrightarrow> A p = [])
          \<and> sweep a rest B = sweep a (remaining r pr) B)"
proof -
  obtain b2 p2 where ad: "advance b q = Some (b2, p2)" "index_ok b2 A" "same_other b b2"
    "\<forall>bs i. lims (bs(i := b2)) = lims (bs(i := b))"
    "p2 = - 1 \<and> (\<forall>p. A p = [])
     \<or> (\<exists>r. p2 = int r \<and> r < MAX_PRICE \<and> better q r \<and> (\<forall>p. better p r \<longrightarrow> A p = []))"
    using advance_spec [OF ix q(1,2) bt] by blast
  show thesis
  proof (rule that [OF ad(1-4)])
    have "sweep a rest B = (a, B, [], False)" if "\<forall>p. A p = []"
      using B that by (intro sweep_skip_all) auto
    moreover have "sweep a rest B = sweep a (remaining r pr) B" if r: "better q r" "\<forall>p. better p r \<longrightarrow> A p = []" for r
    proof -
      obtain skip where "rest = skip @ remaining r pr" "\<forall>x \<in> set skip. better x r"
        using remaining_skip [OF q(3) r(1)] q(4) by auto
      then show ?thesis using sweep_skip [of skip B a "remaining r pr"] r(2) B by blast
    qed
    ultimately show "p2 = - 1 \<and> sweep a rest B = (a, B, [], False)
     \<or> (\<exists>r. p2 = int r \<and> r < MAX_PRICE \<and> better q r \<and> (\<forall>p. better p r \<longrightarrow> A p = [])
          \<and> sweep a rest B = sweep a (remaining r pr) B)"
      using ad(5) by blast
  qed
qed

lemma loop_spec:
  assumes "shard_ok sh (lims (bs(i := b))) V P" and "n \<in> P" and "q < MAX_PRICE"
    and "index_ok b (side_view V i sd)" and "\<And>p. better p q \<Longrightarrow> V (i, sd, p) = []"
    and "sweep (ord (mem sh) n) (remaining q pr) (\<lambda>p. map (ord (mem sh)) (V (i, sd, p))) = (a1, B1, fs, st)"
  shows "\<exists>sh1 b1 A1. loop sh b n pr (int q) = Some (st, sh1, b1) \<and> swept bs i V P sh b n a1 B1 fs st sh1 b1 A1"
  using assms
proof (induction "rank q" arbitrary: q sh b V fs rule: less_induct)
  case less
  let ?B = "\<lambda>p. map (ord (mem sh)) (V (i, sd, p))"
  let ?k = "(i, sd, q)"
  show ?case
  proof (cases "crosses q pr \<and> quantity (mem sh n) > 0")
    case False
    then have "sweep (ord (mem sh) n) (remaining q pr) ?B = (ord (mem sh) n, ?B, [], False)"
      using remaining_none [of q pr] sweep_idle [of "ord (mem sh) n"] by auto
    moreover have "loop sh b n pr (int q) = Some (False, sh, b)" using False less.prems(3) by (auto simp: loop_step)
    ultimately show ?thesis using swept_stay [OF less.prems(1,4)] less.prems(6) by auto
  next
    case True
    obtain rest where rest: "remaining q pr = q # rest" using remaining_cons True less.prems(3) by blast
    obtain a2 rs fs1 st1 where m: "spec_match (ord (mem sh) n) (?B q) = (a2, rs, fs1, st1)"
      by (metis prod_cases4)
    from level_step [OF less.prems(1,2) m] obtain sh1 l1 ys where ml: "match_level sh (levels b q) n = Some (st1, sh1, l1)"
      "shard_ok sh1 (lims (bs(i := set_level b q l1))) (V(?k := ys)) (if st1 then P - {n} else P)"
      "matched sh sh1 n a2 fs1 st1" "map (ord (mem sh1)) ys = rs" "set ys \<subseteq> set (V ?k)"
      "\<forall>a. a \<noteq> n \<and> a \<notin> set (V ?k) \<longrightarrow> ord (mem sh1) a = ord (mem sh) a"
      "?B(q := rs) = (\<lambda>p. map (ord (mem sh1)) ((V(?k := ys)) (i, sd, p)))"
      "lim_head l1 = None \<longleftrightarrow> ys = []" .
    let ?b = "set_level b q l1" and ?V = "V(?k := ys)"
    have sw: "sweep (ord (mem sh) n) (q # rest) ?B = (a1, B1, fs, st)" using less.prems(6) rest by simp
    show ?thesis
    proof (cases "ys = []")
      case False
      have "st1 \<or> quantity a2 = 0"
        using m spec_match_exhausts [of "ord (mem sh) n" "?B q" a2 rs fs1] False ml(4) by (cases st1) auto
      then have r: "a1 = a2" "B1 = ?B(q := rs)" "fs = fs1" "st = st1"
        using sw m sweep_idle [of a2 rest "?B(q := rs)"] by (auto split: if_splits)
      have "loop sh b n pr (int q) = Some (st, sh1, ?b)"
        using True less.prems(3) ml(1,8) False r(4) by (auto simp: loop_step Let_def)
      then show ?thesis using swept_stop [OF ml(2) less.prems(4) ml(3) False ml(5,6), of B1] r ml(7) by auto
    next
      case ye: True
      then have nst: "\<not> st1" using m spec_match_stopped [of "ord (mem sh) n" "?B q" a2 rs fs1] ml(4) by (cases st1) auto
      then obtain fs2 where sw2: "sweep a2 rest (?B(q := rs)) = (a1, B1, fs2, st)" "fs = fs1 @ fs2"
        using sw m by (auto split: prod.splits)
      have a2: "ord (mem sh1) n = a2" using ml(3) by (simp add: matched_def)
      have sv: "side_view ?V i sd = (side_view V i sd)(q := [])" using ye by (auto simp: side_view_def)
      have ix: "index_ok ?b ((side_view ?V i sd)(q := V ?k))"
        using less.prems(4) unfolding sv index_set_level by (simp add: side_view_def fun_upd_idem)
      have bt: "side_view ?V i sd p = []" if "better p q" for p
        using less.prems(5) [OF that] ye by (simp add: side_view_def)
      have sq: "side_view ?V i sd q = []" using ye by (simp add: side_view_def)
      have Bz: "(?B(q := rs)) p = []" if "side_view ?V i sd p = []" for p
        using that unfolding ml(7) by (simp add: side_view_def)
      obtain b2 p2 where ad: "advance ?b q = Some (b2, p2)" "index_ok b2 (side_view ?V i sd)" "same_other ?b b2"
        "\<forall>bs i. lims (bs(i := b2)) = lims (bs(i := ?b))"
        "p2 = - 1 \<and> sweep a2 rest (?B(q := rs)) = (a2, ?B(q := rs), [], False)
         \<or> (\<exists>r. p2 = int r \<and> r < MAX_PRICE \<and> better q r \<and> (\<forall>p. better p r \<longrightarrow> side_view ?V i sd p = [])
              \<and> sweep a2 rest (?B(q := rs)) = sweep a2 (remaining r pr) (?B(q := rs)))"
        using next_level [where B = "?B(q := rs)" and a = a2, OF ix sq less.prems(3) conjunct1 [OF True] rest bt Bz] by blast
      have lp: "loop sh b n pr (int q) = loop sh1 b2 n pr p2"
        using True less.prems(3) ml(1,8) ye nst ad(1) by (simp add: loop_step Let_def)
      have sb2: "shard_ok sh1 (lims (bs(i := b2))) ?V P" using ml(2) nst ad(4) by simp
      have "\<exists>sh2 b3 A3. loop sh1 b2 n pr p2 = Some (st, sh2, b3) \<and> swept bs i ?V P sh1 b2 n a1 B1 fs2 st sh2 b3 A3"
      proof (cases "p2 = - 1")
        case True
        then have "a1 = a2" "B1 = ?B(q := rs)" "fs2 = []" "\<not> st" using sw2(1) ad(5) by auto
        then show ?thesis using swept_stay [OF sb2 ad(2), of n] True ml(7) a2 by (auto simp: loop_end)
      next
        case False
        then obtain r where r: "p2 = int r" "r < MAX_PRICE" "better q r" "\<forall>p. better p r \<longrightarrow> side_view ?V i sd p = []"
          "sweep a2 (remaining r pr) (?B(q := rs)) = (a1, B1, fs2, st)"
          using ad(5) sw2(1) by auto
        have em: "\<And>p. better p r \<Longrightarrow> ?V (i, sd, p) = []" using r(4) by (simp add: side_view_def)
        have "sweep (ord (mem sh1) n) (remaining r pr) (\<lambda>p. map (ord (mem sh1)) (?V (i, sd, p))) = (a1, B1, fs2, st)"
          using r(5) unfolding ml(7) a2 .
        from less.hyps [OF rank_less [OF r(3,2)] sb2 less.prems(2) r(2) ad(2) em this] show ?thesis unfolding r(1) .
      qed
      then obtain sh2 b3 A3 where sh2: "loop sh1 b2 n pr p2 = Some (st, sh2, b3)" "swept bs i ?V P sh1 b2 n a1 B1 fs2 st sh2 b3 A3"
        by blast
      have "matched sh sh1 n a2 fs1 False" using ml(3) nst by simp
      moreover have "set (?V (i, sd, p)) \<subseteq> set (V (i, sd, p))" for p using ye by simp
      moreover have "set_side ?V i sd M = set_side V i sd M" for M by (simp add: set_side_upd)
      ultimately have "swept bs i V P sh b n a1 B1 (fs1 @ fs2) st sh2 b3 A3"
        using ml(6) same_other_trans [OF same_other_set ad(3)] swept_trans [OF _ _ _ _ _ sh2(2)] by blast
      then show ?thesis using lp sh2(1) sw2(2) by auto
    qed
  qed
qed

text \<open>On the orders themselves the sweep replaces one side of one instrument.\<close>

lemma swept_abook:
  assumes w: "swept bs i V P sh b n a1 B1 fs st sh1 b1 A1" and ok: "shard_ok sh L V P" and n: "n \<in> P"
  shows "abook sh1 (set_side V i sd A1) = set_side (abook sh V) i sd B1"
    and "a \<in> P \<Longrightarrow> a \<noteq> n \<Longrightarrow> ord (mem sh1) a = ord (mem sh) a"
proof -
  have fr: "ord (mem sh1) a = ord (mem sh) a" if "a \<noteq> n" "\<forall>p. a \<notin> set (V (i, sd, p))" for a
    using w that by (auto simp: swept_def)
  have other: "map (ord (mem sh1)) (V (j, t, p)) = map (ord (mem sh)) (V (j, t, p))" if "j = i \<longrightarrow> t \<noteq> sd" for j t p
  proof (rule map_cong [OF refl])
    fix a assume a: "a \<in> set (V (j, t, p))"
    then have "a \<noteq> n" using n shard_okD(3) [OF ok] mem_live by blast
    moreover have "a \<notin> set (V (i, sd, r))" for r
    proof -
      have "(j, t, p) \<noteq> (i, sd, r)" using that by auto
      then show ?thesis using shard_okD(1) [OF ok] a unfolding level_family_def by blast
    qed
    ultimately show "ord (mem sh1) a = ord (mem sh) a" using fr by blast
  qed
  show "abook sh1 (set_side V i sd A1) = set_side (abook sh V) i sd B1"
    using w other by (auto simp: abook_def set_side_def swept_def fun_eq_iff)
  show "ord (mem sh1) a = ord (mem sh) a" if "a \<in> P" "a \<noteq> n"
  proof -
    have "a \<notin> set (V (i, sd, p))" for p using that shard_okD(3) [OF ok] mem_live by blast
    then show ?thesis using fr that by blast
  qed
qed

end

section \<open>Both ladders\<close>

definition asks_ok :: "book \<Rightarrow> (nat \<Rightarrow> nat list) \<Rightarrow> bool" where
  "asks_ok b A \<longleftrightarrow> bm_rep (asks_bm b) {p. A p \<noteq> []} \<and> cached_best_ask b < MAX_PRICE
     \<and> (\<forall>p. A p \<noteq> [] \<longrightarrow> cached_best_ask b \<le> p)"

definition bids_ok :: "book \<Rightarrow> (nat \<Rightarrow> nat list) \<Rightarrow> bool" where
  "bids_ok b A \<longleftrightarrow> bm_rep (bids_bm b) {p. A p \<noteq> []} \<and> cached_best_bid b < MAX_PRICE
     \<and> (\<forall>p. A p \<noteq> [] \<longrightarrow> p \<le> cached_best_bid b)"

definition set_ask :: "book \<Rightarrow> nat \<Rightarrow> limit \<Rightarrow> book" where
  "set_ask b q l = b\<lparr> asks := (asks b)(q := l) \<rparr>"

definition set_bid :: "book \<Rightarrow> nat \<Rightarrow> limit \<Rightarrow> book" where
  "set_bid b q l = b\<lparr> bids := (bids b)(q := l) \<rparr>"

definition same_bids :: "book \<Rightarrow> book \<Rightarrow> bool" where
  "same_bids b c \<longleftrightarrow> bids c = bids b \<and> bids_bm c = bids_bm b \<and> cached_best_bid c = cached_best_bid b"

definition same_asks :: "book \<Rightarrow> book \<Rightarrow> bool" where
  "same_asks b c \<longleftrightarrow> asks c = asks b \<and> asks_bm c = asks_bm b \<and> cached_best_ask c = cached_best_ask b"

lemma next_ask_cases:
  assumes "finite S"
  obtains "next_ask S a = - 1" "\<forall>p \<in> S. p < a"
  | r where "next_ask S a = int r" "r \<in> S" "a \<le> r" "\<forall>p \<in> S. a \<le> p \<longrightarrow> r \<le> p"
proof (cases "{p \<in> S. a \<le> p} = {}")
  case True
  then show thesis using that(1) by (auto simp: next_ask_def not_le)
next
  case False
  have f: "finite {p \<in> S. a \<le> p}" using assms by simp
  show thesis
    using that(2) [of "Min {p \<in> S. a \<le> p}"] Min_in [OF f False] Min_le [OF f] False by (auto simp: next_ask_def)
qed

lemma next_bid_cases:
  assumes "finite S"
  obtains "next_bid S a = - 1" "\<forall>p \<in> S. a < p"
  | r where "next_bid S a = int r" "r \<in> S" "r \<le> a" "\<forall>p \<in> S. p \<le> a \<longrightarrow> p \<le> r"
proof (cases "{p \<in> S. p \<le> a} = {}")
  case True
  then show thesis using that(1) by (auto simp: next_bid_def not_le)
next
  case False
  have f: "finite {p \<in> S. p \<le> a}" using assms by simp
  show thesis
    using that(2) [of "Max {p \<in> S. p \<le> a}"] Max_in [OF f False] Max_ge [OF f] False by (auto simp: next_bid_def)
qed

lemma lims_cong: "bids b = bids c \<Longrightarrow> asks b = asks c \<Longrightarrow> lims (bs(i := b)) = lims (bs(i := c))"
  by (auto simp: lims_def fun_eq_iff split: prod.splits Side.splits)

lemma advance_ask_spec:
  assumes ix: "asks_ok b (A(q := xs))" and q: "A q = []" "q < MAX_PRICE" and bt: "\<And>p. p < q \<Longrightarrow> A p = []"
  shows "\<exists>b2 p2. advance_ask b q = Some (b2, p2) \<and> asks_ok b2 A \<and> same_bids b b2
        \<and> (\<forall>bs i. lims (bs(i := b2)) = lims (bs(i := b)))
        \<and> (p2 = - 1 \<and> (\<forall>p. A p = [])
           \<or> (\<exists>r. p2 = int r \<and> r < MAX_PRICE \<and> q < r \<and> (\<forall>p. p < r \<longrightarrow> A p = [])))"
proof -
  have "bm_rep (asks_bm b) {p. (A(q := xs)) p \<noteq> []}" using ix by (simp add: asks_ok_def)
  from bm.clear_then_up [OF this q(2)] obtain bm1 where bm1: "bm_clear_bit (asks_bm b) q = Some bm1"
    "bm_rep bm1 ({p. (A(q := xs)) p \<noteq> []} - {q})"
    "find_next_ask bm1 (q + 1) = Some (next_ask ({p. (A(q := xs)) p \<noteq> []} - {q}) (q + 1))" by blast
  have S: "{p. (A(q := xs)) p \<noteq> []} - {q} = {p. A p \<noteq> []}" using q by auto
  note bm1 = bm1 [unfolded S]
  have lt: "p < MAX_PRICE" if "A p \<noteq> []" for p using bm1(2) that by (auto simp: bm_rep_def)
  have gt: "q < p" if "A p \<noteq> []" for p using bt [of p] q(1) that by (metis linorder_neqE_nat)
  from bm_rep_finite [OF bm1(2)] show ?thesis
  proof (cases rule: next_ask_cases [where a = "q + 1"])
    case 1
    then have none: "\<forall>p. A p = []" using gt by fastforce
    then have "asks_ok (b\<lparr> asks_bm := bm1 \<rparr>) A" using bm1(2) ix by (simp add: asks_ok_def)
    then show ?thesis using bm1 1(1) none by (auto simp: advance_ask_def same_bids_def intro!: lims_cong)
  next
    case (2 r)
    have lo: "p < r \<Longrightarrow> A p = []" for p using 2(4) gt by fastforce
    then have "asks_ok (b\<lparr> asks_bm := bm1, cached_best_ask := r \<rparr>) A"
      using bm1(2) lt 2(2) by (auto simp: asks_ok_def) (meson not_le)
    then show ?thesis using bm1 2 lo lt by (auto simp: advance_ask_def same_bids_def intro!: lims_cong)
  qed
qed

lemma advance_bid_spec:
  assumes ix: "bids_ok b (A(q := xs))" and q: "A q = []" "q < MAX_PRICE" and bt: "\<And>p. q < p \<Longrightarrow> A p = []"
  shows "\<exists>b2 p2. advance_bid b q = Some (b2, p2) \<and> bids_ok b2 A \<and> same_asks b b2
        \<and> (\<forall>bs i. lims (bs(i := b2)) = lims (bs(i := b)))
        \<and> (p2 = - 1 \<and> (\<forall>p. A p = [])
           \<or> (\<exists>r. p2 = int r \<and> r < MAX_PRICE \<and> r < q \<and> (\<forall>p. r < p \<longrightarrow> A p = [])))"
proof -
  have "bm_rep (bids_bm b) {p. (A(q := xs)) p \<noteq> []}" using ix by (simp add: bids_ok_def)
  from bm.clear_then_down [OF this q(2)] obtain bm1 where bm1: "bm_clear_bit (bids_bm b) q = Some bm1"
    "bm_rep bm1 ({p. (A(q := xs)) p \<noteq> []} - {q})"
    "find_next_bid bm1 (q - 1) = Some (next_bid ({p. (A(q := xs)) p \<noteq> []} - {q}) (q - 1))" by blast
  have S: "{p. (A(q := xs)) p \<noteq> []} - {q} = {p. A p \<noteq> []}" using q by auto
  note bm1 = bm1 [unfolded S]
  have lt: "p < q" if "A p \<noteq> []" for p using bt [of p] q(1) that by (metis linorder_neqE_nat)
  have none: ?thesis if none: "\<forall>p. A p = []" and e: "advance_bid b q = Some (b\<lparr> bids_bm := bm1 \<rparr>, - 1)"
  proof -
    have "bids_ok (b\<lparr> bids_bm := bm1 \<rparr>) A" using bm1(2) ix none by (simp add: bids_ok_def)
    then show ?thesis using none e by (auto simp: same_asks_def intro!: lims_cong)
  qed
  show ?thesis
  proof (cases "q = 0")
    case True
    then show ?thesis using none lt bm1(1) by (fastforce simp: advance_bid_def)
  next
    case q0: False
    from bm_rep_finite [OF bm1(2)] show ?thesis
    proof (cases rule: next_bid_cases [where a = "q - 1"])
      case 1
      then have "\<forall>p. A p = []" using lt by fastforce
      then show ?thesis using none bm1 1(1) q0 by (simp add: advance_bid_def)
    next
      case (2 r)
      have hi: "r < p \<Longrightarrow> A p = []" for p using 2(4) lt by fastforce
      have r: "r < MAX_PRICE" using lt 2(2) q(2) by fastforce
      then have "bids_ok (b\<lparr> bids_bm := bm1, cached_best_bid := r \<rparr>) A"
        using bm1(2) hi by (auto simp: bids_ok_def) (meson not_le)
      then show ?thesis using bm1 2 hi r q0 by (auto simp: advance_bid_def same_asks_def intro!: lims_cong)
    qed
  qed
qed

lemma lims_ask: "lims (bs(i := b)) (i, SELL, q) = asks b q"
  by (simp add: lims_def)

lemma lims_set_ask: "lims (bs(i := set_ask b q l)) = (lims (bs(i := b)))((i, SELL, q) := l)"
  by (auto simp: lims_def set_ask_def fun_eq_iff split: prod.splits Side.splits)

lemma lims_bid: "lims (bs(i := b)) (i, BUY, q) = bids b q"
  by (simp add: lims_def)

lemma lims_set_bid: "lims (bs(i := set_bid b q l)) = (lims (bs(i := b)))((i, BUY, q) := l)"
  by (auto simp: lims_def set_bid_def fun_eq_iff split: prod.splits Side.splits)

lemma match_asks_step:
  assumes "q < MAX_PRICE"
  shows "match_asks sh b n pr (int q) =
      (if q \<le> pr \<and> quantity (mem sh n) > 0 then
         Option.bind (match_level sh (asks b q) n) (\<lambda>(rejected, sh1, l1).
           let b1 = set_ask b q l1 in
           if rejected then Some (True, sh1, b1)
           else if lim_head l1 = None then Option.bind (advance_ask b1 q) (\<lambda>(b2, p2). match_asks sh1 b2 n pr p2)
           else Some (False, sh1, b1))
       else Some (False, sh, b))"
  by (subst match_asks.simps) (simp add: assms arr_simps set_ask_def cong: if_cong)

lemma match_bids_step:
  assumes "q < MAX_PRICE"
  shows "match_bids sh b n pr (int q) =
      (if pr \<le> q \<and> quantity (mem sh n) > 0 then
         Option.bind (match_level sh (bids b q) n) (\<lambda>(rejected, sh1, l1).
           let b1 = set_bid b q l1 in
           if rejected then Some (True, sh1, b1)
           else if lim_head l1 = None then Option.bind (advance_bid b1 q) (\<lambda>(b2, p2). match_bids sh1 b2 n pr p2)
           else Some (False, sh1, b1))
       else Some (False, sh, b))"
  by (subst match_bids.simps) (simp add: assms arr_simps set_bid_def cong: if_cong)

lemma upt_split: "a \<le> m \<Longrightarrow> m \<le> c \<Longrightarrow> [a ..< c] = [a ..< m] @ [m ..< c]"
  by (metis le_Suc_ex upt_add_eq_append)

lemma skip_up:
  assumes "q \<le> pr" and "q < r"
  shows "\<exists>skip. [q ..< pr + 1] = q # skip @ [r ..< pr + 1] \<and> (\<forall>x \<in> set skip. x < r)"
proof (cases "r \<le> pr")
  case True
  have "[q ..< pr + 1] = q # [q + 1 ..< pr + 1]" using assms(1) by (simp add: upt_conv_Cons)
  also have "[q + 1 ..< pr + 1] = [q + 1 ..< r] @ [r ..< pr + 1]" using assms(2) True by (intro upt_split) auto
  finally show ?thesis by (intro exI [of _ "[q + 1 ..< r]"]) simp
next
  case False
  then show ?thesis using assms(1) by (intro exI [of _ "[q + 1 ..< pr + 1]"]) (auto simp: upt_conv_Cons)
qed

lemma skip_down:
  assumes "pr \<le> q" and "r < (q :: nat)"
  shows "\<exists>skip. rev [pr ..< q + 1] = q # skip @ rev [pr ..< r + 1] \<and> (\<forall>x \<in> set skip. r < x)"
proof (cases "pr \<le> r")
  case True
  have "[pr ..< q + 1] = [pr ..< q] @ [q]" using assms(1) by simp
  also have "[pr ..< q] = [pr ..< r + 1] @ [r + 1 ..< q]" using assms(2) True by (intro upt_split) auto
  finally show ?thesis by (intro exI [of _ "rev [r + 1 ..< q]"]) simp
next
  case False
  then show ?thesis using assms(1) by (intro exI [of _ "rev [pr ..< q]"]) auto
qed

interpretation ask: ladder SELL "(<)" "\<lambda>q. MAX_PRICE - q" "\<lambda>q pr. q \<le> pr" "\<lambda>q pr. [q ..< pr + 1]"
  asks set_ask same_bids asks_ok advance_ask match_asks
proof unfold_locales
  fix q pr r :: nat
  assume "q \<le> pr" "q < r"
  then show "\<exists>skip. [q ..< pr + 1] = q # skip @ [r ..< pr + 1] \<and> (\<forall>x \<in> set skip. x < r)"
    by (rule skip_up)
next
  fix b :: book and A q xs assume "asks_ok b (A(q := xs))" "A q = []" "q < MAX_PRICE" "\<And>p. p < q \<Longrightarrow> A p = []"
  from advance_ask_spec [OF this] show "\<exists>b2 p2. advance_ask b q = Some (b2, p2) \<and> asks_ok b2 A \<and> same_bids b b2
      \<and> (\<forall>bs i. lims (bs(i := b2)) = lims (bs(i := b)))
      \<and> (p2 = - 1 \<and> (\<forall>p. A p = []) \<or> (\<exists>r. p2 = int r \<and> r < MAX_PRICE \<and> q < r \<and> (\<forall>p. p < r \<longrightarrow> A p = [])))"
    by simp
next
  show "match_asks sh b n pr (- 1) = Some (False, sh, b)" for sh b n pr by (simp add: match_asks.simps)
  show "\<exists>rest. [q ..< pr + 1] = q # rest \<and> q \<notin> set rest" if "q \<le> pr" for q pr
    using upt_conv_Cons [of q "pr + 1"] that by (intro exI [of _ "[q + 1 ..< pr + 1]"]) simp
qed (auto simp: lims_ask lims_set_ask match_asks_step same_bids_def asks_ok_def, auto simp: set_ask_def)

interpretation bid: ladder BUY "\<lambda>p q. q < p" "\<lambda>q. q" "\<lambda>q pr. pr \<le> q" "\<lambda>q pr. rev [pr ..< q + 1]"
  bids set_bid same_asks bids_ok advance_bid match_bids
proof unfold_locales
  fix q pr r :: nat
  assume "pr \<le> q" "r < q"
  then show "\<exists>skip. rev [pr ..< q + 1] = q # skip @ rev [pr ..< r + 1] \<and> (\<forall>x \<in> set skip. r < x)"
    by (rule skip_down)
next
  fix b :: book and A q xs assume "bids_ok b (A(q := xs))" "A q = []" "q < MAX_PRICE" "\<And>p. q < p \<Longrightarrow> A p = []"
  from advance_bid_spec [OF this] show "\<exists>b2 p2. advance_bid b q = Some (b2, p2) \<and> bids_ok b2 A \<and> same_asks b b2
      \<and> (\<forall>bs i. lims (bs(i := b2)) = lims (bs(i := b)))
      \<and> (p2 = - 1 \<and> (\<forall>p. A p = []) \<or> (\<exists>r. p2 = int r \<and> r < MAX_PRICE \<and> r < q \<and> (\<forall>p. r < p \<longrightarrow> A p = [])))"
    by simp
next
  show "match_bids sh b n pr (- 1) = Some (False, sh, b)" for sh b n pr by (simp add: match_bids.simps)
qed (auto simp: lims_bid lims_set_bid match_bids_step same_asks_def bids_ok_def, auto simp: set_bid_def)

end
