(* ===== verification/Book_Correct.thy ===== *)
theory Book_Correct
  imports Book_Sweep
begin

text \<open>
  The operations of \<open>OrderBook\<close> implement the specification: \<open>match_order\<close> and \<open>cancel_order\<close>
  always return, keep the invariant of all books of the shard, and change the books and emit the
  reports exactly as \<open>spec_order\<close> and \<open>spec_cancel\<close> say.
\<close>

section \<open>Resting an order\<close>

lemma rest_shard:
  assumes ok: "shard_ok sh L V P" and n: "n \<in> P" and k: "rests_at k (ord (mem sh) n)"
    and e: "limit_add (mem sh) (L k) n = (m1, l1)"
  shows "\<exists>sh1. report_resting (set_mem sh m1) n = Some sh1 \<and> shard_ok sh1 (L(k := l1)) (V(k := V k @ [n])) (P - {n})
    \<and> ord (mem sh1) = ord (mem sh)
    \<and> emits [itch_report (ch CHR ''A'') (ord (mem sh) n) (price (mem sh n)) (quantity (mem sh n)),
             drop_report ST_NEW (ord (mem sh) n) (price (mem sh n)) (quantity (mem sh n))] (outs sh) = Some (outs sh1)"
proof -
  note D = shard_okD [OF ok]
  have nl: "n \<notin> live V" using n D(3) by blast
  then have "n \<notin> set (V j)" for j using mem_live by blast
  note fa = lq.family_add [OF D(1) this e]
  have lv: "live (V(k := V k @ [n])) = insert n (live V)" by (rule live_add)
  have od: "ord m1 = ord (mem sh)" using fa(2) by simp
  have sel: "internal_id (m1 n) = n" "price (m1 n) = price (mem sh n)" "quantity (m1 n) = quantity (mem sh n)"
    "instrument_id (m1 n) = instrument_id (mem sh n)" "side (m1 n) = side (mem sh n)"
    "client_order_id (m1 n) = client_order_id (mem sh n)" "internal_id (mem sh n) = n"
    using od D(5) [of n] n by (metis UnCI ord_sel)+
  let ?rs = "[itch_report (ch CHR ''A'') (ord (mem sh) n) (price (mem sh n)) (quantity (mem sh n)),
             drop_report ST_NEW (ord (mem sh) n) (price (mem sh n)) (quantity (mem sh n))]"
  have "\<forall>x \<in> set ?rs. report_worker_ok (outs sh) x" by (simp add: itch_report_def drop_report_def)
  then obtain s where s: "emits ?rs (outs sh) = Some s" "outputs_ok s" "worker_known s = worker_known (outs sh)" "ack_workers s = ack_workers (outs sh)"
    using emits_ok [OF D(8)] by blast
  let ?sh = "(set_mem sh m1)\<lparr> orders_by_id := (orders_by_id sh)(n := Some n), outs := s \<rparr>"
  have "report_resting (set_mem sh m1) n = Some ?sh"
    using s(1) sel shard_ok_slot [OF ok, of n] n
    by (simp add: report_resting_def arr_simps Let_def broadcast_emit drop_copy_emit)
  moreover have "shard_ok ?sh (L(k := l1)) (V(k := V k @ [n])) (P - {n})"
    unfolding shard_ok_def
  proof (intro conjI allI ballI)
    show "level_family dll (mem ?sh) (L(k := l1)) (V(k := V k @ [n]))" using fa(1) by simp
    have "live (V(k := V k @ [n])) \<union> (P - {n}) = live V \<union> P" unfolding lv using n by blast
    then show "pool_inv (sh_pool ?sh) (live (V(k := V k @ [n])) \<union> (P - {n}))" using D(2) by simp
    show "live (V(k := V k @ [n])) \<inter> (P - {n}) = {}" using lv D(3) by blast
    show "orders_by_id ?sh = (\<lambda>a. if a \<in> live (V(k := V k @ [n])) then Some a else None)"
      by (simp add: D(7) lv fun_eq_iff)
  next
    fix j a assume "a \<in> set ((V(k := V k @ [n])) j)"
    then show "rests_at j (ord (mem ?sh) a)" using D(4) [of a k] D(4) [of a j] k od by (auto split: if_splits)
  next
    fix a assume "a \<in> live (V(k := V k @ [n])) \<union> (P - {n})"
    then have "a \<in> live V \<union> P" unfolding lv using n by blast
    then show "internal_id (ord (mem ?sh) a) = a" "worker_known (outs ?sh) (worker_id (ord (mem ?sh) a))"
      using D(5,6) od s(3) by (simp_all del: ord_sel) simp_all
  qed (use s(2,4) D(9,10) in simp_all)
  ultimately show ?thesis using od s(1) by auto
qed

lemma bids_ok_add:
  assumes "bids_ok b A" and "pr < MAX_PRICE"
  shows "\<exists>bm. (if A pr = [] then bm_set_bit (bids_bm b) pr else Some (bids_bm b)) = Some bm
    \<and> bids_ok (b\<lparr> bids := l, bids_bm := bm, cached_best_bid := (if pr > cached_best_bid b then pr else cached_best_bid b) \<rparr>)
        (A(pr := A pr @ [n]))"
proof -
  have S: "{p. (A(pr := A pr @ [n])) p \<noteq> []} = insert pr {p. A p \<noteq> []}" by auto
  have "\<exists>bm. (if A pr = [] then bm_set_bit (bids_bm b) pr else Some (bids_bm b)) = Some bm
    \<and> bm_rep bm (insert pr {p. A p \<noteq> []})"
    using bm.set_spec [of "bids_bm b" "{p. A p \<noteq> []}" pr] assms by (auto simp: bids_ok_def insert_absorb)
  then show ?thesis using assms S by (fastforce simp: bids_ok_def)
qed

lemma asks_ok_add:
  assumes "asks_ok b A" and "pr < MAX_PRICE"
  shows "\<exists>bm. (if A pr = [] then bm_set_bit (asks_bm b) pr else Some (asks_bm b)) = Some bm
    \<and> asks_ok (b\<lparr> asks := l, asks_bm := bm, cached_best_ask := (if pr < cached_best_ask b then pr else cached_best_ask b) \<rparr>)
        (A(pr := A pr @ [n]))"
proof -
  have S: "{p. (A(pr := A pr @ [n])) p \<noteq> []} = insert pr {p. A p \<noteq> []}" by auto
  have "\<exists>bm. (if A pr = [] then bm_set_bit (asks_bm b) pr else Some (asks_bm b)) = Some bm
    \<and> bm_rep bm (insert pr {p. A p \<noteq> []})"
    using bm.set_spec [of "asks_bm b" "{p. A p \<noteq> []}" pr] assms by (auto simp: asks_ok_def insert_absorb)
  then show ?thesis using assms S by (fastforce simp: asks_ok_def)
qed

lemma rest_bid_spec:
  assumes ok: "shard_ok sh (lims (bs(i := b))) V P" and n: "n \<in> P" and k: "rests_at (i, BUY, pr) (ord (mem sh) n)"
    and ix: "bids_ok b (side_view V i BUY)" and pr: "pr < MAX_PRICE"
  shows "\<exists>sh1 b1. rest_bid sh b n pr = Some (sh1, b1)
    \<and> shard_ok sh1 (lims (bs(i := b1))) (V((i, BUY, pr) := V (i, BUY, pr) @ [n])) (P - {n})
    \<and> bids_ok b1 ((side_view V i BUY)(pr := V (i, BUY, pr) @ [n])) \<and> same_asks b b1 \<and> ord (mem sh1) = ord (mem sh)
    \<and> emits [itch_report (ch CHR ''A'') (ord (mem sh) n) (price (mem sh n)) (quantity (mem sh n)),
             drop_report ST_NEW (ord (mem sh) n) (price (mem sh n)) (quantity (mem sh n))] (outs sh) = Some (outs sh1)"
proof -
  let ?k = "(i, BUY, pr)"
  obtain m1 l1 where e: "limit_add (mem sh) (bids b pr) n = (m1, l1)" by (cases "limit_add (mem sh) (bids b pr) n")
  obtain sh1 where sh1: "report_resting (set_mem sh m1) n = Some sh1"
    "shard_ok sh1 ((lims (bs(i := b)))(?k := l1)) (V(?k := V ?k @ [n])) (P - {n})" "ord (mem sh1) = ord (mem sh)"
    "emits [itch_report (ch CHR ''A'') (ord (mem sh) n) (price (mem sh n)) (quantity (mem sh n)),
            drop_report ST_NEW (ord (mem sh) n) (price (mem sh n)) (quantity (mem sh n))] (outs sh) = Some (outs sh1)"
    using rest_shard [OF ok n k] e by (auto simp: lims_bid)
  obtain bm where bm: "(if V ?k = [] then bm_set_bit (bids_bm b) pr else Some (bids_bm b)) = Some bm"
    "bids_ok (b\<lparr> bids := (bids b)(pr := l1), bids_bm := bm,
                cached_best_bid := (if pr > cached_best_bid b then pr else cached_best_bid b) \<rparr>)
       ((side_view V i BUY)(pr := V ?k @ [n]))" (is "bids_ok ?b _")
    using bids_ok_add [OF ix pr] by (auto simp: side_view_def)
  have "lim_head (bids b pr) = None \<longleftrightarrow> V ?k = []"
    using lq.family_front [OF shard_okD(1) [OF ok], of ?k] by (simp add: lims_bid)
  then have "rest_bid sh b n pr = Some (sh1, ?b)"
    using e sh1(1) bm(1) pr by (simp add: rest_bid_def arr_simps)
  moreover have "lims (bs(i := ?b)) = (lims (bs(i := b)))(?k := l1)"
    using lims_set_bid [of bs i b pr l1] lims_cong [of ?b "set_bid b pr l1"] by (simp add: set_bid_def)
  ultimately show ?thesis using sh1 bm(2) by (auto simp: same_asks_def)
qed

lemma rest_ask_spec:
  assumes ok: "shard_ok sh (lims (bs(i := b))) V P" and n: "n \<in> P" and k: "rests_at (i, SELL, pr) (ord (mem sh) n)"
    and ix: "asks_ok b (side_view V i SELL)" and pr: "pr < MAX_PRICE"
  shows "\<exists>sh1 b1. rest_ask sh b n pr = Some (sh1, b1)
    \<and> shard_ok sh1 (lims (bs(i := b1))) (V((i, SELL, pr) := V (i, SELL, pr) @ [n])) (P - {n})
    \<and> asks_ok b1 ((side_view V i SELL)(pr := V (i, SELL, pr) @ [n])) \<and> same_bids b b1 \<and> ord (mem sh1) = ord (mem sh)
    \<and> emits [itch_report (ch CHR ''A'') (ord (mem sh) n) (price (mem sh n)) (quantity (mem sh n)),
             drop_report ST_NEW (ord (mem sh) n) (price (mem sh n)) (quantity (mem sh n))] (outs sh) = Some (outs sh1)"
proof -
  let ?k = "(i, SELL, pr)"
  obtain m1 l1 where e: "limit_add (mem sh) (asks b pr) n = (m1, l1)" by (cases "limit_add (mem sh) (asks b pr) n")
  obtain sh1 where sh1: "report_resting (set_mem sh m1) n = Some sh1"
    "shard_ok sh1 ((lims (bs(i := b)))(?k := l1)) (V(?k := V ?k @ [n])) (P - {n})" "ord (mem sh1) = ord (mem sh)"
    "emits [itch_report (ch CHR ''A'') (ord (mem sh) n) (price (mem sh n)) (quantity (mem sh n)),
            drop_report ST_NEW (ord (mem sh) n) (price (mem sh n)) (quantity (mem sh n))] (outs sh) = Some (outs sh1)"
    using rest_shard [OF ok n k] e by (auto simp: lims_ask)
  obtain bm where bm: "(if V ?k = [] then bm_set_bit (asks_bm b) pr else Some (asks_bm b)) = Some bm"
    "asks_ok (b\<lparr> asks := (asks b)(pr := l1), asks_bm := bm,
                cached_best_ask := (if pr < cached_best_ask b then pr else cached_best_ask b) \<rparr>)
       ((side_view V i SELL)(pr := V ?k @ [n]))" (is "asks_ok ?b _")
    using asks_ok_add [OF ix pr] by (auto simp: side_view_def)
  have "lim_head (asks b pr) = None \<longleftrightarrow> V ?k = []"
    using lq.family_front [OF shard_okD(1) [OF ok], of ?k] by (simp add: lims_ask)
  then have "rest_ask sh b n pr = Some (sh1, ?b)"
    using e sh1(1) bm(1) pr by (simp add: rest_ask_def arr_simps)
  moreover have "lims (bs(i := ?b)) = (lims (bs(i := b)))(?k := l1)"
    using lims_set_ask [of bs i b pr l1] lims_cong [of ?b "set_ask b pr l1"] by (simp add: set_ask_def)
  ultimately show ?thesis using sh1 bm(2) by (auto simp: same_bids_def)
qed

section \<open>The invariant of all books of a shard\<close>

definition books_ok :: "shard \<Rightarrow> (nat \<Rightarrow> book) \<Rightarrow> (lkey \<Rightarrow> nat list) \<Rightarrow> nat set \<Rightarrow> bool" where
  "books_ok sh bs V P \<longleftrightarrow> shard_ok sh (lims bs) V P
     \<and> (\<forall>i. bids_ok (bs i) (side_view V i BUY) \<and> asks_ok (bs i) (side_view V i SELL)) \<and> uncrossed V"

lemma books_okD:
  assumes "books_ok sh bs V P"
  shows "shard_ok sh (lims bs) V P" and "bids_ok (bs i) (side_view V i BUY)" and "asks_ok (bs i) (side_view V i SELL)"
    and "uncrossed V"
  using assms by (auto simp: books_ok_def)

lemma uncrossed_abook: "uncrossed (abook sh V) = uncrossed V"
  by (simp add: uncrossed_def abook_def)

lemma books_ok_high: "books_ok sh bs V P \<Longrightarrow> MAX_PRICE \<le> p \<Longrightarrow> abook sh V (i, s, p) = []"
  using books_okD(2,3) [of sh bs V P i]
  by (cases s) (auto simp: abook_def bids_ok_def asks_ok_def bm_rep_def side_view_def subset_iff) 

text \<open>One instrument changes, the indices of the others do not.\<close>

lemma books_okI:
  assumes "books_ok sh bs V P" and "shard_ok sh1 (lims (bs(i := b1))) V1 P1"
    and "bids_ok b1 (side_view V1 i BUY)" and "asks_ok b1 (side_view V1 i SELL)"
    and "\<And>j s p. j \<noteq> i \<Longrightarrow> V1 (j, s, p) = V (j, s, p)" and "uncrossed V1"
  shows "books_ok sh1 (bs(i := b1)) V1 P1"
proof -
  have "side_view V1 j s = side_view V j s" if "j \<noteq> i" for j s using assms(5) [OF that] by (simp add: side_view_def fun_eq_iff)
  then show ?thesis using assms books_okD(2,3) [OF assms(1)] by (simp add: books_ok_def)
qed

lemma sweep_from_ask:
  assumes "\<And>p. p < c \<Longrightarrow> B p = []"
  shows "sweep a (crossing BUY pr) B = sweep a [c ..< pr + 1] B"
proof (cases "c \<le> pr + 1")
  case True
  then have "[0 ..< pr + 1] = [0 ..< c] @ [c ..< pr + 1]" by (intro upt_split) auto
  then show ?thesis using sweep_skip [of "[0 ..< c]" B a "[c ..< pr + 1]"] assms by (simp add: crossing_def)
next
  case False
  then show ?thesis using sweep_skip_all [of "[0 ..< pr + 1]" B a] assms by (simp add: crossing_def)
qed

lemma sweep_from_bid:
  assumes "\<And>p. c < p \<Longrightarrow> B p = []" and "c < MAX_PRICE"
  shows "sweep a (crossing SELL pr) B = sweep a (rev [pr ..< c + 1]) B"
proof (cases "pr \<le> c + 1")
  case True
  then have "[pr ..< MAX_PRICE] = [pr ..< c + 1] @ [c + 1 ..< MAX_PRICE]" using assms(2) by (intro upt_split) auto
  then have "crossing SELL pr = rev [c + 1 ..< MAX_PRICE] @ rev [pr ..< c + 1]" by (simp add: crossing_def)
  then show ?thesis using sweep_skip [of "rev [c + 1 ..< MAX_PRICE]" B a "rev [pr ..< c + 1]"] assms by simp
next
  case False
  then show ?thesis using sweep_skip_all [of "rev [pr ..< MAX_PRICE]" B a] assms by (simp add: crossing_def)
qed

section \<open>Matching\<close>

lemma match_asks_swept:
  assumes ok: "books_ok sh bs V P" and n: "n \<in> P"
    and w: "sweep (ord (mem sh) n) (crossing BUY pr) (side_view (abook sh V) i SELL) = (a1, B1, fs, st)"
  obtains sh1 b1 A1 where "match_asks sh (bs i) n pr (int (cached_best_ask (bs i))) = Some (st, sh1, b1)"
    "ask.swept bs i V P sh (bs i) n a1 B1 fs st sh1 b1 A1"
proof -
  let ?c = "cached_best_ask (bs i)"
  have ix: "asks_ok (bs i) (side_view V i SELL)" by (rule books_okD [OF ok])
  have lo: "V (i, SELL, p) = []" if "p < ?c" for p
    using ix that by (auto simp: asks_ok_def side_view_def)
  have B: "side_view (abook sh V) i SELL = (\<lambda>p. map (ord (mem sh)) (V (i, SELL, p)))"
    by (simp add: side_view_def abook_def fun_eq_iff)
  have "sweep (ord (mem sh) n) [?c ..< pr + 1] (\<lambda>p. map (ord (mem sh)) (V (i, SELL, p))) = (a1, B1, fs, st)"
    using w sweep_from_ask [of ?c "side_view (abook sh V) i SELL"] lo unfolding B by simp
  moreover have "shard_ok sh (lims (bs(i := bs i))) V P" using books_okD(1) [OF ok] by simp
  moreover have "?c < MAX_PRICE" using ix by (simp add: asks_ok_def)
  ultimately show thesis using ask.loop_spec [OF _ n _ ix lo] that by blast
qed

lemma match_bids_swept:
  assumes ok: "books_ok sh bs V P" and n: "n \<in> P"
    and w: "sweep (ord (mem sh) n) (crossing SELL pr) (side_view (abook sh V) i BUY) = (a1, B1, fs, st)"
  obtains sh1 b1 A1 where "match_bids sh (bs i) n pr (int (cached_best_bid (bs i))) = Some (st, sh1, b1)"
    "bid.swept bs i V P sh (bs i) n a1 B1 fs st sh1 b1 A1"
proof -
  let ?c = "cached_best_bid (bs i)"
  have ix: "bids_ok (bs i) (side_view V i BUY)" by (rule books_okD [OF ok])
  have c: "?c < MAX_PRICE" using ix by (simp add: bids_ok_def)
  have hi: "V (i, BUY, p) = []" if "?c < p" for p
    using ix that by (auto simp: bids_ok_def side_view_def)
  have B: "side_view (abook sh V) i BUY = (\<lambda>p. map (ord (mem sh)) (V (i, BUY, p)))"
    by (simp add: side_view_def abook_def fun_eq_iff)
  have "sweep (ord (mem sh) n) (rev [pr ..< ?c + 1]) (\<lambda>p. map (ord (mem sh)) (V (i, BUY, p))) = (a1, B1, fs, st)"
    using w sweep_from_bid [of ?c "side_view (abook sh V) i BUY"] hi c unfolding B by simp
  moreover have "shard_ok sh (lims (bs(i := bs i))) V P" using books_okD(1) [OF ok] by simp
  ultimately show thesis using bid.loop_spec [OF _ n c ix hi] that by blast
qed

text \<open>The result of an operation on the book of instrument \<open>i\<close> that consumes the pending order \<open>n\<close>.\<close>

definition book_step :: "shard \<Rightarrow> (nat \<Rightarrow> book) \<Rightarrow> nat \<Rightarrow> (lkey \<Rightarrow> nat list) \<Rightarrow> nat set \<Rightarrow>
    (lkey \<Rightarrow> order list) \<Rightarrow> report list \<Rightarrow> shard \<Rightarrow> book \<Rightarrow> (lkey \<Rightarrow> nat list) \<Rightarrow> nat set \<Rightarrow> bool" where
  "book_step sh bs i V P B1 reps sh1 b1 V1 P1 \<longleftrightarrow>
     books_ok sh1 (bs(i := b1)) V1 P1 \<and> abook sh1 V1 = B1 \<and> emits reps (outs sh) = Some (outs sh1)
     \<and> (\<forall>a \<in> P1. ord (mem sh1) a = ord (mem sh) a)"

text \<open>The end of \<open>match_order\<close> after the sweep, for both sides.\<close>

lemma finish_match:
  assumes ok: "books_ok sh bs V P" and n: "n \<in> P" and pr: "price (mem sh n) < MAX_PRICE"
    and sp: "spec_order (abook sh V) (ord (mem sh) n) = (B1, reps)"
    and w: "sweep (ord (mem sh) n) (crossing (side (mem sh n)) (price (mem sh n)))
              (side_view (abook sh V) i (opposite (side (mem sh n)))) = (a1, L, fs, st)"
    and i: "i = instrument_id (mem sh n)" and k: "k = (i, side (mem sh n), price (mem sh n))"
    and sh1: "shard_ok sh1 (lims (bs(i := b1))) V1 (if st then P - {n} else P)"
    and bid1: "bids_ok b1 (side_view V1 i BUY)" and ask1: "asks_ok b1 (side_view V1 i SELL)"
    and oth: "\<And>j t p. j \<noteq> i \<Longrightarrow> V1 (j, t, p) = V (j, t, p)"
    and ab: "abook sh1 V1 = set_side (abook sh V) i (opposite (side (mem sh n))) L"
    and fr: "\<And>a. a \<in> P \<Longrightarrow> a \<noteq> n \<Longrightarrow> ord (mem sh1) a = ord (mem sh) a" and m: "matched sh sh1 n a1 fs st"
    and rest: "\<not> st \<Longrightarrow> quantity a1 > 0 \<Longrightarrow> \<exists>sh2 b2. rest = Some (sh2, b2)
      \<and> shard_ok sh2 (lims (bs(i := b2))) (V1(k := V1 k @ [n])) (P - {n})
      \<and> bids_ok b2 (side_view (V1(k := V1 k @ [n])) i BUY) \<and> asks_ok b2 (side_view (V1(k := V1 k @ [n])) i SELL)
      \<and> ord (mem sh2) = ord (mem sh1)
      \<and> emits [itch_report (ch CHR ''A'') a1 (price a1) (quantity a1), drop_report ST_NEW a1 (price a1) (quantity a1)]
          (outs sh1) = Some (outs sh2)"
  shows "\<exists>sh2 b2 V2. (if st then Some (sh1, b1) else if quantity a1 > 0 then rest
      else Option.bind (free_order sh1 n) (\<lambda>sh2. Some (sh2, b1))) = Some (sh2, b2)
    \<and> book_step sh bs i V P B1 reps sh2 b2 V2 (P - {n})"
proof -
  have unc: "uncrossed B1"
    using spec_order_uncrossed [OF _ _ sp] books_okD(4) [OF ok] books_ok_high [OF ok] by (simp add: uncrossed_abook)
  have od: "ord (mem sh1) n = a1" and em: "emits (trade_reports fs @ stop_reports st a1) (outs sh) = Some (outs sh1)"
    using m by (auto simp: matched_def)
  consider "st" | "\<not> st" "quantity a1 > 0" | "\<not> st" "quantity a1 = 0" by blast
  then show ?thesis
  proof cases
    case 1
    then have r: "B1 = abook sh1 V1" "reps = trade_reports fs @ stop_reports st a1"
      using sp pr w i ab by (auto simp: spec_order_def Let_def trade_reports_def stop_reports_def)
    have "uncrossed V1" using unc unfolding r(1) uncrossed_abook .
    then have "books_ok sh1 (bs(i := b1)) V1 (P - {n})"
      using books_okI [OF ok _ bid1 ask1 oth] sh1 1 by simp
    then show ?thesis using 1 em r fr by (auto simp: book_step_def)
  next
    case 2
    then obtain sh2 b2 where sh2: "rest = Some (sh2, b2)"
      "shard_ok sh2 (lims (bs(i := b2))) (V1(k := V1 k @ [n])) (P - {n})"
      "bids_ok b2 (side_view (V1(k := V1 k @ [n])) i BUY)" "asks_ok b2 (side_view (V1(k := V1 k @ [n])) i SELL)"
      "ord (mem sh2) = ord (mem sh1)"
      "emits [itch_report (ch CHR ''A'') a1 (price a1) (quantity a1), drop_report ST_NEW a1 (price a1) (quantity a1)]
          (outs sh1) = Some (outs sh2)"
      using rest by blast
    let ?V = "V1(k := V1 k @ [n])"
    have ab2: "abook sh2 ?V = (abook sh1 V1)(k := abook sh1 V1 k @ [a1])"
      using sh2(5) od by (auto simp: abook_def fun_eq_iff)
    have r: "B1 = abook sh2 ?V" "reps = trade_reports fs @ [itch_report (ch CHR ''A'') a1 (price a1) (quantity a1),
        drop_report ST_NEW a1 (price a1) (quantity a1)]"
      using sp pr w i k ab 2 unfolding ab2 by (auto simp: spec_order_def Let_def trade_reports_def)
    have "uncrossed ?V" using unc unfolding r(1) uncrossed_abook .
    then have "books_ok sh2 (bs(i := b2)) ?V (P - {n})"
      using books_okI [OF ok sh2(2-4)] oth k by simp
    moreover have "emits reps (outs sh) = Some (outs sh2)"
      using em sh2(6) 2 by (simp add: r(2) emits_append stop_reports_def)
    ultimately show ?thesis using 2 sh2(1,5) fr r(1) by (auto simp: book_step_def)
  next
    case 3
    then have sh1': "shard_ok sh1 (lims (bs(i := b1))) V1 P" using sh1 by simp
    have sh1e: "sh1\<lparr> outs := outs sh1 \<rparr> = sh1" by simp
    obtain sh2 where sh2: "free_order sh1 n = Some sh2" "shard_ok sh2 (lims (bs(i := b1))) V1 (P - {n})"
      "mem sh2 = mem sh1" "outs sh2 = outs sh1"
      using shard_ok_drop_pending [OF sh1' n, of "[]" "outs sh1"] unfolding sh1e by auto
    have ab2: "abook sh2 V1 = abook sh1 V1" using sh2(3) by (simp add: abook_def fun_eq_iff)
    have r: "B1 = abook sh2 V1" "reps = trade_reports fs"
      using sp pr w i ab 3 unfolding ab2 by (auto simp: spec_order_def Let_def trade_reports_def)
    have "uncrossed V1" using unc unfolding r(1) uncrossed_abook .
    then have "books_ok sh2 (bs(i := b1)) V1 (P - {n})"
      using books_okI [OF ok sh2(2) bid1 ask1 oth] by simp
    then show ?thesis using 3 sh2 fr r em by (auto simp: book_step_def stop_reports_def)
  qed
qed

lemma match_buy:
  assumes ok: "books_ok sh bs V P" and n: "n \<in> P" and s: "side (mem sh n) = BUY"
    and pr: "price (mem sh n) < MAX_PRICE" and i: "i = instrument_id (mem sh n)"
    and sp: "spec_order (abook sh V) (ord (mem sh) n) = (B1, reps)"
  shows "\<exists>sh1 b1 V1. match_order sh (bs i) n = Some (sh1, b1) \<and> book_step sh bs i V P B1 reps sh1 b1 V1 (P - {n})"
proof -
  let ?pr = "price (mem sh n)" and ?k = "(i, BUY, price (mem sh n))"
  have small: "?pr mod 4294967296 = ?pr" "n < MAX_ORDERS_LOOKUP" "internal_id (mem sh n) = n"
    using pr shard_ok_slot [OF books_okD(1) [OF ok], of n] shard_okD(5) [OF books_okD(1) [OF ok], of n] n
    by (auto simp: MAX_PRICE_def)
  obtain a1 L fs st where w: "sweep (ord (mem sh) n) (crossing BUY ?pr) (side_view (abook sh V) i SELL) = (a1, L, fs, st)"
    by (metis prod_cases4)
  obtain q where a1: "a1 = (ord (mem sh) n)\<lparr> quantity := q \<rparr>" using sweep_fields [OF w] by blast
  from match_asks_swept [OF ok n w] obtain sh1 b1 A1 where
    m: "match_asks sh (bs i) n ?pr (int (cached_best_ask (bs i))) = Some (st, sh1, b1)"
    "ask.swept bs i V P sh (bs i) n a1 L fs st sh1 b1 A1" by blast
  let ?V = "set_side V i SELL A1"
  have sw: "shard_ok sh1 (lims (bs(i := b1))) ?V (if st then P - {n} else P)" "asks_ok b1 A1" "matched sh sh1 n a1 fs st"
    "same_bids (bs i) b1" using m(2) by (auto simp: ask.swept_def)
  note ab = ask.swept_abook [OF m(2) books_okD(1) [OF ok] n]
  have bv: "bids_ok b1 (side_view ?V i BUY)"
    using books_okD(2) [OF ok, of i] sw(4) by (simp add: bids_ok_def same_bids_def side_view_def set_side_def)
  have od: "ord (mem sh1) n = a1" using sw(3) by (simp add: matched_def)
  then have qa: "quantity (mem sh1 n) = quantity a1" "price (mem sh1 n) = price a1" by (metis ord_sel)+
  have mo: "match_order sh (bs i) n =
      (if st then Some (sh1, b1) else if quantity a1 > 0 then rest_bid sh1 b1 n ?pr
       else Option.bind (free_order sh1 n) (\<lambda>sh2. Some (sh2, b1)))"
    using s pr small m(1) qa(1) by (simp add: match_order_def Let_def not_le)
  have rest: "\<exists>sh2 b2. rest_bid sh1 b1 n ?pr = Some (sh2, b2)
      \<and> shard_ok sh2 (lims (bs(i := b2))) (?V(?k := ?V ?k @ [n])) (P - {n})
      \<and> bids_ok b2 (side_view (?V(?k := ?V ?k @ [n])) i BUY) \<and> asks_ok b2 (side_view (?V(?k := ?V ?k @ [n])) i SELL)
      \<and> ord (mem sh2) = ord (mem sh1)
      \<and> emits [itch_report (ch CHR ''A'') a1 (price a1) (quantity a1), drop_report ST_NEW a1 (price a1) (quantity a1)]
          (outs sh1) = Some (outs sh2)" if "\<not> st" "quantity a1 > 0"
  proof -
    have sh1: "shard_ok sh1 (lims (bs(i := b1))) ?V P" using sw(1) that by simp
    have "rests_at ?k (ord (mem sh1) n)" using that(2) s i unfolding od by (simp add: rests_at_def a1)
    from rest_bid_spec [OF sh1 n this bv pr] obtain sh2 b2 where r: "rest_bid sh1 b1 n ?pr = Some (sh2, b2)"
      "shard_ok sh2 (lims (bs(i := b2))) (?V(?k := ?V ?k @ [n])) (P - {n})"
      "bids_ok b2 ((side_view ?V i BUY)(?pr := ?V ?k @ [n]))" "same_asks b1 b2" "ord (mem sh2) = ord (mem sh1)"
      "emits [itch_report (ch CHR ''A'') a1 (price a1) (quantity a1), drop_report ST_NEW a1 (price a1) (quantity a1)]
          (outs sh1) = Some (outs sh2)"
      unfolding od qa by blast
    have "side_view (?V(?k := ?V ?k @ [n])) i BUY = (side_view ?V i BUY)(?pr := ?V ?k @ [n])"
      "side_view (?V(?k := ?V ?k @ [n])) i SELL = A1"
      by (auto simp: side_view_def set_side_def fun_eq_iff)
    moreover have "asks_ok b2 A1" using sw(2) r(4) by (simp add: asks_ok_def same_asks_def)
    ultimately show ?thesis using r by simp
  qed
  have w': "sweep (ord (mem sh) n) (crossing (side (mem sh n)) ?pr)
      (side_view (abook sh V) i (opposite (side (mem sh n)))) = (a1, L, fs, st)" using w s by simp
  have k: "?k = (i, side (mem sh n), ?pr)" using s by simp
  have av: "asks_ok b1 (side_view ?V i SELL)" using sw(2) by simp
  have ab1: "abook sh1 ?V = set_side (abook sh V) i (opposite (side (mem sh n))) L" using ab(1) s by simp
  have oth: "?V (j, t, p) = V (j, t, p)" if "j \<noteq> i" for j t p using that by (simp add: set_side_def)
  show ?thesis unfolding mo by (rule finish_match [OF ok n pr sp w' i k sw(1) bv av oth ab1 ab(2) sw(3) rest])
qed

lemma match_sell:
  assumes ok: "books_ok sh bs V P" and n: "n \<in> P" and s: "side (mem sh n) = SELL"
    and pr: "price (mem sh n) < MAX_PRICE" and i: "i = instrument_id (mem sh n)"
    and sp: "spec_order (abook sh V) (ord (mem sh) n) = (B1, reps)"
  shows "\<exists>sh1 b1 V1. match_order sh (bs i) n = Some (sh1, b1) \<and> book_step sh bs i V P B1 reps sh1 b1 V1 (P - {n})"
proof -
  let ?pr = "price (mem sh n)" and ?k = "(i, SELL, price (mem sh n))"
  have small: "?pr mod 4294967296 = ?pr" "n < MAX_ORDERS_LOOKUP" "internal_id (mem sh n) = n"
    using pr shard_ok_slot [OF books_okD(1) [OF ok], of n] shard_okD(5) [OF books_okD(1) [OF ok], of n] n
    by (auto simp: MAX_PRICE_def)
  obtain a1 L fs st where w: "sweep (ord (mem sh) n) (crossing SELL ?pr) (side_view (abook sh V) i BUY) = (a1, L, fs, st)"
    by (metis prod_cases4)
  obtain q where a1: "a1 = (ord (mem sh) n)\<lparr> quantity := q \<rparr>" using sweep_fields [OF w] by blast
  from match_bids_swept [OF ok n w] obtain sh1 b1 A1 where
    m: "match_bids sh (bs i) n ?pr (int (cached_best_bid (bs i))) = Some (st, sh1, b1)"
    "bid.swept bs i V P sh (bs i) n a1 L fs st sh1 b1 A1" by blast
  let ?V = "set_side V i BUY A1"
  have sw: "shard_ok sh1 (lims (bs(i := b1))) ?V (if st then P - {n} else P)" "bids_ok b1 A1" "matched sh sh1 n a1 fs st"
    "same_asks (bs i) b1" using m(2) by (auto simp: bid.swept_def)
  note ab = bid.swept_abook [OF m(2) books_okD(1) [OF ok] n]
  have av: "asks_ok b1 (side_view ?V i SELL)"
    using books_okD(3) [OF ok, of i] sw(4) by (simp add: asks_ok_def same_asks_def side_view_def set_side_def)
  have od: "ord (mem sh1) n = a1" using sw(3) by (simp add: matched_def)
  then have qa: "quantity (mem sh1 n) = quantity a1" "price (mem sh1 n) = price a1" by (metis ord_sel)+
  have mo: "match_order sh (bs i) n =
      (if st then Some (sh1, b1) else if quantity a1 > 0 then rest_ask sh1 b1 n ?pr
       else Option.bind (free_order sh1 n) (\<lambda>sh2. Some (sh2, b1)))"
    using s pr small m(1) qa(1) by (simp add: match_order_def Let_def not_le)
  have rest: "\<exists>sh2 b2. rest_ask sh1 b1 n ?pr = Some (sh2, b2)
      \<and> shard_ok sh2 (lims (bs(i := b2))) (?V(?k := ?V ?k @ [n])) (P - {n})
      \<and> bids_ok b2 (side_view (?V(?k := ?V ?k @ [n])) i BUY) \<and> asks_ok b2 (side_view (?V(?k := ?V ?k @ [n])) i SELL)
      \<and> ord (mem sh2) = ord (mem sh1)
      \<and> emits [itch_report (ch CHR ''A'') a1 (price a1) (quantity a1), drop_report ST_NEW a1 (price a1) (quantity a1)]
          (outs sh1) = Some (outs sh2)" if "\<not> st" "quantity a1 > 0"
  proof -
    have sh1: "shard_ok sh1 (lims (bs(i := b1))) ?V P" using sw(1) that by simp
    have "rests_at ?k (ord (mem sh1) n)" using that(2) s i unfolding od by (simp add: rests_at_def a1)
    from rest_ask_spec [OF sh1 n this av pr] obtain sh2 b2 where r: "rest_ask sh1 b1 n ?pr = Some (sh2, b2)"
      "shard_ok sh2 (lims (bs(i := b2))) (?V(?k := ?V ?k @ [n])) (P - {n})"
      "asks_ok b2 ((side_view ?V i SELL)(?pr := ?V ?k @ [n]))" "same_bids b1 b2" "ord (mem sh2) = ord (mem sh1)"
      "emits [itch_report (ch CHR ''A'') a1 (price a1) (quantity a1), drop_report ST_NEW a1 (price a1) (quantity a1)]
          (outs sh1) = Some (outs sh2)"
      unfolding od qa by blast
    have "side_view (?V(?k := ?V ?k @ [n])) i SELL = (side_view ?V i SELL)(?pr := ?V ?k @ [n])"
      "side_view (?V(?k := ?V ?k @ [n])) i BUY = A1"
      by (auto simp: side_view_def set_side_def fun_eq_iff)
    moreover have "bids_ok b2 A1" using sw(2) r(4) by (simp add: bids_ok_def same_bids_def)
    ultimately show ?thesis using r by simp
  qed
  have w': "sweep (ord (mem sh) n) (crossing (side (mem sh n)) ?pr)
      (side_view (abook sh V) i (opposite (side (mem sh n)))) = (a1, L, fs, st)" using w s by simp
  have k: "?k = (i, side (mem sh n), ?pr)" using s by simp
  have bv: "bids_ok b1 (side_view ?V i BUY)" using sw(2) by simp
  have ab1: "abook sh1 ?V = set_side (abook sh V) i (opposite (side (mem sh n))) L" using ab(1) s by simp
  have oth: "?V (j, t, p) = V (j, t, p)" if "j \<noteq> i" for j t p using that by (simp add: set_side_def)
  show ?thesis unfolding mo by (rule finish_match [OF ok n pr sp w' i k sw(1) bv av oth ab1 ab(2) sw(3) rest])
qed

text \<open>A pending order is matched, rested or dropped exactly as the specification says.\<close>

lemma match_order_correct:
  assumes ok: "books_ok sh bs V P" and n: "n \<in> P" and i: "i = instrument_id (mem sh n)"
    and sp: "spec_order (abook sh V) (ord (mem sh) n) = (B1, reps)"
  shows "\<exists>sh1 b1 V1. match_order sh (bs i) n = Some (sh1, b1) \<and> book_step sh bs i V P B1 reps sh1 b1 V1 (P - {n})"
proof (cases "price (mem sh n) < MAX_PRICE")
  case True
  then show ?thesis using match_buy [OF ok n _ True i sp] match_sell [OF ok n _ True i sp] by (cases "side (mem sh n)") auto
next
  case False
  have sh1e: "sh\<lparr> outs := outs sh \<rparr> = sh" by simp
  obtain sh2 where sh2: "free_order sh n = Some sh2" "shard_ok sh2 (lims bs) V (P - {n})"
    "mem sh2 = mem sh" "outs sh2 = outs sh"
    using shard_ok_drop_pending [OF books_okD(1) [OF ok] n, of "[]" "outs sh"] unfolding sh1e by auto
  have "abook sh2 V = abook sh V" by (rule ext) (simp add: abook_def sh2(3))
  then have "B1 = abook sh2 V" "reps = []" using sp False by (auto simp: spec_order_def)
  moreover have "books_ok sh2 bs V (P - {n})" using sh2(2) ok by (simp add: books_ok_def)
  moreover have "match_order sh (bs i) n = Some (sh2, bs i)" using False sh2(1) by (simp add: match_order_def)
  ultimately show ?thesis using sh2(3,4) by (auto simp: book_step_def)
qed

section \<open>Cancelling\<close>

lemma cancel_bid_level_spec:
  assumes ix: "bids_ok b A" and p: "p < MAX_PRICE" "lim_head (bids b p) = None \<longleftrightarrow> ys = []" and ys: "A p = [] \<Longrightarrow> ys = []"
  shows "\<exists>b1. cancel_bid_level b p = Some b1 \<and> bids_ok b1 (A(p := ys)) \<and> bids b1 = bids b \<and> same_asks b b1"
proof (cases "ys = []")
  case False
  then have "{q. (A(p := ys)) q \<noteq> []} = {q. A q \<noteq> []}" using ys by auto
  then show ?thesis using ix False p ys by (auto simp: cancel_bid_level_def bids_ok_def same_asks_def)
next
  case True
  have "bm_rep (bids_bm b) {q. A q \<noteq> []}" using ix by (simp add: bids_ok_def)
  from bm.clear_then_down [OF this p(1)] obtain bm1 where bm1: "bm_clear_bit (bids_bm b) p = Some bm1"
    "bm_rep bm1 ({q. A q \<noteq> []} - {p})" "find_next_bid bm1 p = Some (next_bid ({q. A q \<noteq> []} - {p}) p)" by blast
  have S: "{q. (A(p := ys)) q \<noteq> []} = {q. A q \<noteq> []} - {p}" using True by auto
  have le: "q \<le> cached_best_bid b" if "A q \<noteq> []" for q using ix that by (simp add: bids_ok_def)
  have c: "cached_best_bid b < MAX_PRICE" using ix by (simp add: bids_ok_def)
  show ?thesis
  proof (cases "p = cached_best_bid b")
    case False
    then show ?thesis using bm1 True p(2) S le c by (auto simp: cancel_bid_level_def bids_ok_def same_asks_def)
  next
    case pc: True
    have "next_bid ({q. A q \<noteq> []} - {p}) p = - 1 \<and> (\<forall>q. q \<noteq> p \<longrightarrow> A q = [])
      \<or> (\<exists>r < MAX_PRICE. next_bid ({q. A q \<noteq> []} - {p}) p = int r \<and> (\<forall>q. q \<noteq> p \<longrightarrow> A q \<noteq> [] \<longrightarrow> q \<le> r))"
      using bm_rep_finite [OF bm1(2)]
    proof (cases rule: next_bid_cases [where a = p])
      case 1
      have "A q = []" if "q \<noteq> p" for q
      proof (rule ccontr)
        assume q: "A q \<noteq> []"
        then have "p < q" using that 1(2) by blast
        then show False using le [OF q] pc by simp
      qed
      then show ?thesis using 1(1) by blast
    next
      case (2 r)
      have "r < MAX_PRICE" using 2(2) le [of r] c by simp
      moreover have "\<And>q. q \<noteq> p \<Longrightarrow> A q \<noteq> [] \<Longrightarrow> q \<le> r" using 2(4) le pc by auto
      ultimately show ?thesis using 2(1) by blast
    qed
    then show ?thesis using bm1 True p(2) S pc by (auto simp: cancel_bid_level_def bids_ok_def same_asks_def MAX_PRICE_def)
  qed
qed

lemma cancel_ask_level_spec:
  assumes ix: "asks_ok b A" and p: "p < MAX_PRICE" "lim_head (asks b p) = None \<longleftrightarrow> ys = []" and ys: "A p = [] \<Longrightarrow> ys = []"
  shows "\<exists>b1. cancel_ask_level b p = Some b1 \<and> asks_ok b1 (A(p := ys)) \<and> asks b1 = asks b \<and> same_bids b b1"
proof (cases "ys = []")
  case False
  then have "{q. (A(p := ys)) q \<noteq> []} = {q. A q \<noteq> []}" using ys by auto
  then show ?thesis using ix False p ys by (auto simp: cancel_ask_level_def asks_ok_def same_bids_def)
next
  case True
  have r: "bm_rep (asks_bm b) {q. A q \<noteq> []}" using ix by (simp add: asks_ok_def)
  from bm.clear_then_up [OF this p(1)] obtain bm1 where bm1: "bm_clear_bit (asks_bm b) p = Some bm1"
    "bm_rep bm1 ({q. A q \<noteq> []} - {p})" "find_next_ask bm1 p = Some (next_ask ({q. A q \<noteq> []} - {p}) p)" by blast
  have S: "{q. (A(p := ys)) q \<noteq> []} = {q. A q \<noteq> []} - {p}" using True by auto
  have ge: "cached_best_ask b \<le> q" if "A q \<noteq> []" for q using ix that by (simp add: asks_ok_def)
  have c: "q < MAX_PRICE" if "A q \<noteq> []" for q using r that by (auto simp: bm_rep_def)
  have c0: "cached_best_ask b < MAX_PRICE" using ix by (simp add: asks_ok_def)
  show ?thesis
  proof (cases "p = cached_best_ask b")
    case False
    then show ?thesis using bm1 True p(2) S ge c0 by (auto simp: cancel_ask_level_def asks_ok_def same_bids_def)
  next
    case pc: True
    have "next_ask ({q. A q \<noteq> []} - {p}) p = - 1 \<and> (\<forall>q. q \<noteq> p \<longrightarrow> A q = [])
      \<or> (\<exists>r < MAX_PRICE. next_ask ({q. A q \<noteq> []} - {p}) p = int r \<and> (\<forall>q. q \<noteq> p \<longrightarrow> A q \<noteq> [] \<longrightarrow> r \<le> q))"
      using bm_rep_finite [OF bm1(2)]
    proof (cases rule: next_ask_cases [where a = p])
      case 1
      have "A q = []" if "q \<noteq> p" for q
      proof (rule ccontr)
        assume q: "A q \<noteq> []"
        then have "q < p" using that 1(2) by blast
        then show False using ge [OF q] pc by simp
      qed
      then show ?thesis using 1(1) by blast
    next
      case (2 r)
      then have "r < MAX_PRICE" "\<And>q. q \<noteq> p \<Longrightarrow> A q \<noteq> [] \<Longrightarrow> r \<le> q" using c ge pc by auto
      then show ?thesis using 2(1) by blast
    qed
    then show ?thesis using bm1 True p(2) S pc by (auto simp: cancel_ask_level_def asks_ok_def same_bids_def MAX_PRICE_def)
  qed
qed

lemma cancel_shard:
  assumes ok: "shard_ok sh L V P" and a: "a \<in> set (V k)" and e: "limit_remove (mem sh) (L k) a = (m1, l1)"
    and rs: "\<forall>x \<in> set rs. report_worker_ok (outs sh) x" and s: "emits rs (outs sh) = Some s"
  shows "\<exists>sh1. free_order (set_mem (sh\<lparr> outs := s, orders_by_id := (orders_by_id sh)(a := None) \<rparr>) m1) a = Some sh1
    \<and> shard_ok sh1 (L(k := l1)) (V(k := remove1 a (V k))) P \<and> ord (mem sh1) = ord (mem sh) \<and> outs sh1 = s"
proof -
  note D = shard_okD [OF ok]
  note fr = lq.family_remove [OF D(1) a e] and lv = live_remove [OF D(1) a]
  have al: "a \<in> live V" using a mem_live by blast
  have so: "outputs_ok s" "worker_known s = worker_known (outs sh)" "ack_workers s = ack_workers (outs sh)" using emits_ok [OF D(8) rs] s by auto
  let ?sh = "set_mem (sh\<lparr> outs := s, orders_by_id := (orders_by_id sh)(a := None) \<rparr>) m1"
  have "pool_inv (sh_pool ?sh) (live V \<union> P)" using D(2) by simp
  then obtain sh1 where sh1: "free_order ?sh a = Some sh1" "pool_inv (sh_pool sh1) (live V \<union> P - {a})"
    "mem sh1 = m1" "outs sh1 = s" "orders_by_id sh1 = (orders_by_id sh)(a := None)"
    "pool_capacity (sh_pool sh1) = POOL_CAPACITY_PER_SHARD" "num_workers (sh_pool sh1) = num_workers (sh_pool sh)"
    using free_order_ok [of ?sh "live V \<union> P" a] al D(9) by auto
  let ?V = "V(k := remove1 a (V k))"
  have un: "live ?V \<union> P = live V \<union> P - {a}" unfolding lv using al D(3) by blast
  have "shard_ok sh1 (L(k := l1)) ?V P"
    unfolding shard_ok_def
  proof (intro conjI allI ballI)
    show "level_family dll (mem sh1) (L(k := l1)) ?V" using fr(1) sh1(3) by simp
    show "pool_inv (sh_pool sh1) (live ?V \<union> P)" using sh1(2) un by simp
    show "live ?V \<inter> P = {}" unfolding lv using D(3) by blast
    show "orders_by_id sh1 = (\<lambda>x. if x \<in> live ?V then Some x else None)" by (simp add: sh1(5) D(7) lv fun_eq_iff)
  next
    fix j x assume "x \<in> set (?V j)"
    then have "x \<in> set (V j)" using set_remove1_subset [of a "V k"] by (auto split: if_splits)
    then show "rests_at j (ord (mem sh1) x)" using D(4) fr(2) sh1(3) by simp
  next
    fix x assume "x \<in> live ?V \<union> P"
    then have "x \<in> live V \<union> P" unfolding lv by blast
    then show "internal_id (ord (mem sh1) x) = x" "worker_known (outs sh1) (worker_id (ord (mem sh1) x))"
      unfolding sh1(3,4) fr(2) so(2) using D(5,6) by simp_all
  qed (use so sh1 D(10) in simp_all)
  then show ?thesis using sh1 fr(2) by auto
qed

lemma remove1_map: "inj_on f (set xs) \<Longrightarrow> a \<in> set xs \<Longrightarrow> remove1 (f a) (map f xs) = map f (remove1 a xs)"
  by (induction xs) (auto simp: inj_on_def)

text \<open>The book side of a cancel, once the shard side is known to return \<open>sh1\<close>.\<close>

lemma cancel_book:
  assumes ok: "books_ok sh bs V P" and a: "a \<in> set (V (i, side (mem sh a), price (mem sh a)))"
    and ids: "orders_by_id sh = (\<lambda>x. if x \<in> live V then Some x else None)" and slot: "a \<in> live V \<union> P \<Longrightarrow> a < MAX_ORDERS_LOOKUP"
    and p: "price (mem sh a) < MAX_PRICE"
    and e: "limit_remove (mem sh) (lims bs (i, side (mem sh a), price (mem sh a))) a = (m1, l1)"
    and sh1: "shard_ok sh1 ((lims bs)((i, side (mem sh a), price (mem sh a)) := l1))
      (V((i, side (mem sh a), price (mem sh a)) := remove1 a (V (i, side (mem sh a), price (mem sh a))))) P"
    and fo: "free_order (set_mem (sh\<lparr> outs := s, orders_by_id := (orders_by_id sh)(a := None) \<rparr>) m1) a = Some sh1"
    and s: "emits [itch_report (ch CHR ''X'') (ord (mem sh) a) (price (mem sh a)) (quantity (mem sh a)),
              drop_report CANCELED (ord (mem sh) a) (price (mem sh a)) (quantity (mem sh a))] (outs sh) = Some s"
  shows "\<exists>b1. cancel_order sh (bs i) a = Some (sh1, b1)
    \<and> lims (bs(i := b1)) = (lims bs)((i, side (mem sh a), price (mem sh a)) := l1)
    \<and> bids_ok b1 (side_view (V((i, side (mem sh a), price (mem sh a)) := remove1 a (V (i, side (mem sh a), price (mem sh a))))) i BUY)
    \<and> asks_ok b1 (side_view (V((i, side (mem sh a), price (mem sh a)) := remove1 a (V (i, side (mem sh a), price (mem sh a))))) i SELL)"
proof -
  let ?p = "price (mem sh a)" and ?ys = "remove1 a (V (i, side (mem sh a), price (mem sh a)))"
  have al: "a \<in> live V" using a mem_live by blast
  then have al2: "a < MAX_ORDERS_LOOKUP" using slot by blast
  have pm: "?p mod 4294967296 = ?p" using p by (simp add: MAX_PRICE_def)
  have hd: "lim_head l1 = None \<longleftrightarrow> ?ys = []"
    using lq.family_front [OF shard_okD(1) [OF sh1], of "(i, side (mem sh a), ?p)"] by simp
  have bsi: "bs(i := bs i) = bs" by simp
  show ?thesis
  proof (cases "side (mem sh a)")
    case BUY
    have "bids_ok (set_bid (bs i) ?p l1) (side_view V i BUY)"
      using books_okD(2) [OF ok, of i] by (simp add: bids_ok_def set_bid_def)
    from cancel_bid_level_spec [OF this p, of ?ys] hd obtain b1 where b1: "cancel_bid_level (set_bid (bs i) ?p l1) ?p = Some b1"
      "bids_ok b1 ((side_view V i BUY)(?p := ?ys))" "bids b1 = bids (set_bid (bs i) ?p l1)" "same_asks (set_bid (bs i) ?p l1) b1"
      using BUY by (auto simp: side_view_def set_bid_def)
    have "cancel_order sh (bs i) a = Some (sh1, b1)"
      using BUY al al2 p pm e fo s b1(1)
      by (simp add: cancel_order_def ids Let_def arr_simps lims_def broadcast_emit drop_copy_emit set_bid_def)
    moreover have "lims (bs(i := b1)) = (lims bs)((i, BUY, ?p) := l1)"
      using lims_cong [OF b1(3)] b1(4) lims_set_bid [of bs i "bs i" ?p l1] bsi by (simp add: same_asks_def set_bid_def)
    moreover have "asks_ok b1 (side_view V i SELL)"
      using books_okD(3) [OF ok, of i] b1(4) by (simp add: asks_ok_def same_asks_def set_bid_def)
    moreover have "side_view (V((i, BUY, ?p) := ?ys)) i BUY = (side_view V i BUY)(?p := ?ys)"
      "side_view (V((i, BUY, ?p) := ?ys)) i SELL = side_view V i SELL" by (auto simp: side_view_def)
    ultimately show ?thesis using b1(2) BUY by simp
  next
    case SELL
    have "asks_ok (set_ask (bs i) ?p l1) (side_view V i SELL)"
      using books_okD(3) [OF ok, of i] by (simp add: asks_ok_def set_ask_def)
    from cancel_ask_level_spec [OF this p, of ?ys] hd obtain b1 where b1: "cancel_ask_level (set_ask (bs i) ?p l1) ?p = Some b1"
      "asks_ok b1 ((side_view V i SELL)(?p := ?ys))" "asks b1 = asks (set_ask (bs i) ?p l1)" "same_bids (set_ask (bs i) ?p l1) b1"
      using SELL by (auto simp: side_view_def set_ask_def)
    have "cancel_order sh (bs i) a = Some (sh1, b1)"
      using SELL al al2 p pm e fo s b1(1)
      by (simp add: cancel_order_def ids Let_def arr_simps lims_def broadcast_emit drop_copy_emit set_ask_def)
    moreover have "lims (bs(i := b1)) = (lims bs)((i, SELL, ?p) := l1)"
      using lims_cong [OF _ b1(3)] b1(4) lims_set_ask [of bs i "bs i" ?p l1] bsi by (simp add: same_bids_def set_ask_def)
    moreover have "bids_ok b1 (side_view V i BUY)"
      using books_okD(2) [OF ok, of i] b1(4) by (simp add: bids_ok_def same_bids_def set_ask_def)
    moreover have "side_view (V((i, SELL, ?p) := ?ys)) i SELL = (side_view V i SELL)(?p := ?ys)"
      "side_view (V((i, SELL, ?p) := ?ys)) i BUY = side_view V i BUY" by (auto simp: side_view_def)
    ultimately show ?thesis using b1(2) SELL by simp
  qed
qed

lemma cancel_order_correct:
  assumes ok: "books_ok sh bs V P" and a: "a \<in> live V" and i: "i = instrument_id (mem sh a)"
    and sp: "spec_cancel (abook sh V) (ord (mem sh) a) = (B1, reps)"
  shows "\<exists>sh1 b1 V1. cancel_order sh (bs i) a = Some (sh1, b1) \<and> book_step sh bs i V P B1 reps sh1 b1 V1 P"
proof -
  note D = shard_okD [OF books_okD(1) [OF ok]]
  let ?k = "(i, side (mem sh a), price (mem sh a))" and ?p = "price (mem sh a)"
  obtain k where "a \<in> set (V k)" using a by (auto simp: live_def)
  moreover from D(4) [OF this] have "k = ?k" by (simp add: rests_at_def i)
  ultimately have k: "a \<in> set (V ?k)" by simp
  have p: "?p < MAX_PRICE" using books_ok_high [OF ok, of ?p i "side (mem sh a)"] k by (force simp: abook_def not_less [symmetric])
  then have pm: "?p mod 4294967296 = ?p" by (simp add: MAX_PRICE_def)
  obtain m1 l1 where e: "limit_remove (mem sh) (lims bs ?k) a = (m1, l1)" by (cases "limit_remove (mem sh) (lims bs ?k) a")
  let ?rs = "[itch_report (ch CHR ''X'') (ord (mem sh) a) ?p (quantity (mem sh a)),
              drop_report CANCELED (ord (mem sh) a) ?p (quantity (mem sh a))]"
  have rw: "\<forall>x \<in> set ?rs. report_worker_ok (outs sh) x" by (simp add: itch_report_def drop_report_def)
  obtain s where s: "emits ?rs (outs sh) = Some s" using emits_ok [OF D(8) rw] by blast
  let ?V = "V(?k := remove1 a (V ?k))"
  from cancel_shard [OF books_okD(1) [OF ok] k e rw s] obtain sh1 where
    sh1: "free_order (set_mem (sh\<lparr> outs := s, orders_by_id := (orders_by_id sh)(a := None) \<rparr>) m1) a = Some sh1"
    "shard_ok sh1 ((lims bs)(?k := l1)) ?V P" "ord (mem sh1) = ord (mem sh)" "outs sh1 = s" by blast
  have idx: "internal_id (ord (mem sh) x) = x" if "x \<in> set (V ?k)" for x using D(5) [of x] mem_live [of x V ?k] that by simp
  have "inj_on (ord (mem sh)) (set (V ?k))" by (rule inj_onI) (metis idx)
  then have rm: "remove1 (ord (mem sh) a) (abook sh V ?k) = map (ord (mem sh)) (remove1 a (V ?k))"
    using remove1_map [OF _ k] by (simp add: abook_def)
  have B1: "B1 = (abook sh V)(?k := remove1 (ord (mem sh) a) (abook sh V ?k))"
    using sp by (auto simp: spec_cancel_def Let_def i)
  have "abook sh1 ?V = B1" unfolding B1 rm by (rule ext) (simp add: abook_def sh1(3))
  moreover have "reps = ?rs" using sp by (simp add: spec_cancel_def Let_def)
  moreover have "uncrossed ?V" by (rule uncrossed_subset [OF books_okD(4) [OF ok]]) (auto split: if_splits)
  moreover obtain b1 where b1: "cancel_order sh (bs i) a = Some (sh1, b1)" "lims (bs(i := b1)) = (lims bs)(?k := l1)"
    "bids_ok b1 (side_view ?V i BUY)" "asks_ok b1 (side_view ?V i SELL)"
    using cancel_book [OF ok k D(7) shard_ok_slot [OF books_okD(1) [OF ok], of a] p e sh1(2,1) s] a by blast
  moreover have "?V (j, t, p) = V (j, t, p)" if "j \<noteq> i" for j t p using that by simp
  ultimately show ?thesis
    using books_okI [OF ok, of sh1 i b1 ?V P] sh1 s by (auto simp: book_step_def)
qed

end
