(* ===== verification/Book_Props.thy ===== *)
theory Book_Props
  imports Book_Correct
begin

text \<open>
  The start state of a shard, the admission of an order into it (the allocation the gateway does), and
  the properties of \<open>match_order\<close> and \<open>cancel_order\<close> over every state that satisfies the invariant.
\<close>

section \<open>The start state\<close>

definition zero_node :: order_node where
  "zero_node = \<lparr> internal_id = 0, client_order_id = 0, price = 0, quantity = 0, client_id = 0,
                 instrument_id = 0, worker_id = 0, side = BUY, o_next = None, o_prev = None \<rparr>"

text \<open>The buffers of the queues have indeterminate contents: they are parameters.\<close>

definition outputs_init :: "nat \<Rightarrow> (nat \<Rightarrow> ItchMessage) \<Rightarrow> (nat \<Rightarrow> DropCopyMessage) \<Rightarrow> (nat \<Rightarrow> OutboundAck) \<Rightarrow> outputs" where
  "outputs_init workers bi bd ba =
     \<lparr> mkt_data_queue = lfq_init 1048576 bi, drop_copy_queue = lfq_init 1048576 bd,
       ack_queues = Some (replicate workers (lfq_init 524288 ba)), dropped_reports = 0, dropped_drop_copies = 0 \<rparr>"

definition shard_init :: "nat \<Rightarrow> outputs \<Rightarrow> shard" where
  "shard_init workers s =
     \<lparr> sh_pool = pool_init POOL_CAPACITY_PER_SHARD workers (\<lambda>_. zero_node), orders_by_id = (\<lambda>_. None), outs = s \<rparr>"

lemma outputs_init_ok:
  "outputs_ok (outputs_init workers bi bd ba)" "ack_workers (outputs_init workers bi bd ba) = Some workers"
  using lfq_init_ok [of 20 bi] lfq_init_ok [of 20 bd] lfq_init_ok [of 19 ba]
  by (auto simp: outputs_ok_def outputs_init_def ack_workers_def)

lemma books_init_ok:
  assumes "0 < workers" and "workers \<le> 16" and "outputs_ok s" and "ack_workers s = Some workers"
  shows "books_ok (shard_init workers s) (\<lambda>_. book_init) (\<lambda>_. []) {}"
proof -
  have "500000 div 16 \<le> 500000 div workers" using assms(1,2) by (intro div_le_mono2) auto
  then have "pool_inv (pool_init 500000 workers (\<lambda>_. zero_node)) {}"
    using assms(1,2) by (intro pool_init_inv) (auto simp: RECYCLE_CAPACITY_def)
  moreover have "lims (\<lambda>_. book_init) = (\<lambda>_. limit_init)"
    by (auto simp: lims_def book_init_def fun_eq_iff split: prod.splits Side.splits)
  ultimately have "shard_ok (shard_init workers s) (lims (\<lambda>_. book_init)) (\<lambda>_. []) {}"
    using assms(3,4) by (simp add: shard_ok_def shard_init_def live_def level_family_def dll_init
        POOL_CAPACITY_PER_SHARD_def pool_init_def)
  moreover have "bm_rep bm_init {p. False}" using bm_init_rep by simp
  ultimately show ?thesis
    by (auto simp: books_ok_def bids_ok_def asks_ok_def side_view_def uncrossed_def book_init_def MAX_PRICE_def)
qed

section \<open>Admitting an order\<close>

text \<open>\<open>pools[shard]->allocate(worker_id, 0, ...)\<close> followed by \<open>o->internal_id = index_of(o)\<close>;
  \<open>None\<close> as the slot is the null pointer of an exhausted pool.\<close>

definition place_order :: "shard \<Rightarrow> nat \<Rightarrow> order_node \<Rightarrow> (nat option \<times> shard) option" where
  "place_order sh w obj = do {
     (r, p) \<leftarrow> pool_allocate (sh_pool sh) w obj;
     let sh1 = sh\<lparr> sh_pool := p \<rparr>;
     case r of None \<Rightarrow> Some (None, sh1)
     | Some a \<Rightarrow> Some (Some a, set_mem sh1 ((mem sh1)(a := (mem sh1 a)\<lparr> internal_id := a \<rparr>))) }"

lemma family_agree:
  assumes "\<And>a. a \<in> live V \<Longrightarrow> m1 a = m a"
  shows "level_family dll m1 L V = level_family dll m L V"
proof -
  have "dll m1 (L k) (V k) = dll m (L k) (V k)" for k using assms mem_live [of _ V k] by (intro dll_links) auto
  then show ?thesis by (simp add: level_family_def)
qed

lemma place_order_ok:
  assumes ok: "books_ok sh bs V P" and w: "w < num_workers (sh_pool sh)" "worker_id obj = w"
  shows "\<exists>r sh1. place_order sh w obj = Some (r, sh1) \<and> outs sh1 = outs sh
    \<and> num_workers (sh_pool sh1) = num_workers (sh_pool sh)
    \<and> (case r of
         None \<Rightarrow> books_ok sh1 bs V P \<and> mem sh1 = mem sh
       | Some a \<Rightarrow> a \<notin> live V \<union> P \<and> books_ok sh1 bs V (insert a P)
           \<and> ord (mem sh1) = (ord (mem sh))(a := (order.truncate obj)\<lparr> internal_id := a \<rparr>))"
proof -
  note D = shard_okD [OF books_okD(1) [OF ok]]
  obtain r p where al: "pool_allocate (sh_pool sh) w obj = Some (r, p)" "num_workers p = num_workers (sh_pool sh)"
    "pool_capacity p = pool_capacity (sh_pool sh)"
    and r: "case r of None \<Rightarrow> pool_inv p (live V \<union> P) \<and> pool_mem p = mem sh
      | Some i \<Rightarrow> i \<notin> live V \<union> P \<and> 0 < i \<and> i < pool_capacity (sh_pool sh) \<and> pool_inv p (insert i (live V \<union> P))
          \<and> pool_mem p = (mem sh)(i := obj)"
    using order_pool.alloc_spec [OF D(2) w(1), of obj] by auto
  show ?thesis
  proof (cases r)
    case None
    then have "books_ok (sh\<lparr> sh_pool := p \<rparr>) bs V P"
      using r ok al(2,3) by (simp add: books_ok_def shard_ok_def)
    then show ?thesis using None r al by (simp add: place_order_def)
  next
    case (Some a)
    let ?m = "(mem sh)(a := obj\<lparr> internal_id := a \<rparr>)"
    let ?sh = "set_mem (sh\<lparr> sh_pool := p \<rparr>) ?m"
    have a: "a \<notin> live V \<union> P" "pool_inv p (insert a (live V \<union> P))" "pool_mem p = (mem sh)(a := obj)" using r Some by auto
    have od: "ord ?m = (ord (mem sh))(a := (order.truncate obj)\<lparr> internal_id := a \<rparr>)"
      by (auto simp: fun_eq_iff ord_def order.defs)
    have "level_family dll ?m (lims bs) V" using D(1) a(1) by (subst family_agree [where m = "mem sh"]) auto
    moreover have "live V \<union> insert a P = insert a (live V \<union> P)" by simp
    moreover have "live V \<inter> insert a P = {}" using D(3) a(1) by blast
    moreover have "worker_known (outs sh) w" using D(10) w(1) by (auto simp: worker_known_def)
    moreover have "rests_at k (ord ?m x)" if "x \<in> set (V k)" for k x
      using D(4) [OF that] a(1) mem_live [of x V k] that by (auto simp: od)
    moreover have "\<forall>x \<in> insert a (live V \<union> P). internal_id (?m x) = x \<and> worker_known (outs sh) (worker_id (?m x))"
      using D(5,6) calculation(4) w(2) by auto
    ultimately have "shard_ok ?sh (lims bs) V (insert a P)"
      unfolding shard_ok_def using a(2) D(7-10) al(2,3) by (simp del: insert_iff Un_insert_right fun_upd_apply)
    then have "books_ok ?sh bs V (insert a P)" using ok by (simp add: books_ok_def)
    moreover have "place_order sh w obj = Some (Some a, ?sh)"
      using al(1) Some a(3) by (simp add: place_order_def)
    ultimately show ?thesis using Some al(2) a(1) od by auto
  qed
qed

section \<open>A small concrete shard\<close>

text \<open>One worker; client 1 sells 5 at 100 (slot 1) and rests, client 2's buy of 8 at 101 (slot 2) is pending.\<close>

definition sample_outputs :: outputs where
  "sample_outputs = outputs_init 1
     (\<lambda>_. \<lparr> it_msg_type = 0, it_stock_locate = 0, it_tracking_number = 0, it_timestamp = 0, it_internal_id = 0,
            it_shares = 0, it_price = 0, it_side = 0 \<rparr>)
     (\<lambda>_. \<lparr> dc_client_order_id = 0, dc_internal_id = 0, dc_price = 0, dc_quantity = 0, dc_instrument_id = 0,
            dc_state = ST_NEW, dc_side = BUY \<rparr>)
     (\<lambda>_. \<lparr> ack_report = \<lparr> er_msg_type = 0, er_order_token = [], er_executed_shares = 0, er_execution_price = 0,
            er_liquidity_flag = 0, er_match_number = [] \<rparr>, ack_client_id = 0 \<rparr>)"

definition sample_sell :: order_node where "sample_sell = new_Order 0 11 1 100 5 0 SELL 0"
definition sample_buy :: order_node where "sample_buy = new_Order 0 22 2 101 8 0 BUY 0"

definition sample_a :: shard where "sample_a = snd (the (place_order (shard_init 1 sample_outputs) 0 sample_sell))"
definition sample_b :: shard where "sample_b = snd (the (place_order sample_a 0 sample_buy))"
definition sample_c :: "shard \<times> book" where "sample_c = the (match_order sample_b book_init 1)"

abbreviation sample_shard :: shard where "sample_shard \<equiv> fst sample_c"

definition sample_books :: "nat \<Rightarrow> book" where "sample_books = (\<lambda>_. book_init)(0 := snd sample_c)"

definition resting_sell :: order where "resting_sell = (order.truncate sample_sell)\<lparr> internal_id := 1 \<rparr>"
definition pending_buy :: order where "pending_buy = (order.truncate sample_buy)\<lparr> internal_id := 2 \<rparr>"

lemma sample_orders:
  "resting_sell = \<lparr> internal_id = 1, client_order_id = 11, price = 100, quantity = 5, client_id = 1,
     instrument_id = 0, worker_id = 0, side = SELL \<rparr>"
  "pending_buy = \<lparr> internal_id = 2, client_order_id = 22, price = 101, quantity = 8, client_id = 2,
     instrument_id = 0, worker_id = 0, side = BUY \<rparr>"
  by (simp_all add: resting_sell_def pending_buy_def sample_sell_def sample_buy_def new_Order_def order.defs)

lemma sample_outputs_ok: "outputs_ok sample_outputs" "ack_workers sample_outputs = Some 1"
  using outputs_init_ok [of 1] by (simp_all add: sample_outputs_def)

lemma sample_place:
  "\<exists>sh. place_order (shard_init 1 sample_outputs) 0 sample_sell = Some (Some 1, sh)"
  "\<exists>sh. place_order sample_a 0 sample_buy = Some (Some 2, sh)"
  by (simp_all add: sample_a_def place_order_def pool_allocate_def shard_init_def pool_init_def lfq_pop_def lfq_init_def
      pool_start_def POOL_CAPACITY_PER_SHARD_def set_mem_def)

lemma sample_b_ok:
  "books_ok sample_b (\<lambda>_. book_init) (\<lambda>_. []) {1, 2}" "ord (mem sample_b) 1 = resting_sell"
  "ord (mem sample_b) 2 = pending_buy"
proof -
  have w: "worker_id sample_sell = 0" "worker_id sample_buy = 0"
    by (simp_all add: sample_sell_def sample_buy_def new_Order_def)
  have "books_ok (shard_init 1 sample_outputs) (\<lambda>_. book_init) (\<lambda>_. []) {}"
    using sample_outputs_ok by (intro books_init_ok) auto
  from place_order_ok [OF this _ w(1)] sample_place(1) have a: "books_ok sample_a (\<lambda>_. book_init) (\<lambda>_. []) {1}"
    "ord (mem sample_a) 1 = resting_sell" "num_workers (sh_pool sample_a) = 1"
    by (auto simp: sample_a_def shard_init_def pool_init_def resting_sell_def)
  from place_order_ok [OF a(1) _ w(2)] sample_place(2) a(2,3)
  show "books_ok sample_b (\<lambda>_. book_init) (\<lambda>_. []) {1, 2}" "ord (mem sample_b) 1 = resting_sell"
    "ord (mem sample_b) 2 = pending_buy"
    by (auto simp: sample_b_def pending_buy_def insert_commute)
qed

text \<open>The sell order rests, since nothing crosses in an empty book; the buy stays pending.\<close>

lemma sample_ok:
  obtains V where "books_ok sample_shard sample_books V {2}" "ord (mem sample_shard) 2 = pending_buy"
    "abook sample_shard V = (\<lambda>_. [])((0, SELL, 100) := [resting_sell])"
proof -
  have sw: "sweep resting_sell (crossing SELL 100) (\<lambda>p. []) = (resting_sell, \<lambda>p. [], [], False)"
    by (rule sweep_skip_all) simp
  have av: "abook sample_b (\<lambda>_. []) = (\<lambda>_. [])" by (simp add: abook_def fun_eq_iff)
  have i: "0 = instrument_id (mem sample_b 1)" using sample_b_ok(2) sample_orders(1) by (metis ord_sel(6) order.select_convs(6))
  have ss: "set_side (\<lambda>_. []) 0 BUY (\<lambda>p. []) = (\<lambda>_. [])" by (auto simp: set_side_def fun_eq_iff)
  obtain reps where sp: "spec_order (abook sample_b (\<lambda>_. [])) (ord (mem sample_b) 1) = ((\<lambda>_. [])((0, SELL, 100) := [resting_sell]), reps)"
    using sw unfolding av sample_b_ok(2) sample_orders by (simp add: spec_order_def side_view_def [abs_def] ss MAX_PRICE_def)
  obtain sh1 b1 V1 where m: "match_order sample_b book_init 1 = Some (sh1, b1)"
    "book_step sample_b (\<lambda>_. book_init) 0 (\<lambda>_. []) {1, 2} ((\<lambda>_. [])((0, SELL, 100) := [resting_sell])) reps sh1 b1 V1 ({1, 2} - {1})"
    using match_order_correct [OF sample_b_ok(1) _ i sp] by auto
  have "{1, 2} - {1} = {2 :: nat}" by auto
  then show thesis using that [of V1] m sample_b_ok(3) by (simp add: sample_c_def sample_books_def book_step_def)
qed

section \<open>Properties of matching\<close>

text \<open>The orders an incoming order may trade with, best price first and, at a price, oldest first.\<close>

definition priority_list :: "(lkey \<Rightarrow> order list) \<Rightarrow> order \<Rightarrow> order list" where
  "priority_list B ob = concat (map (side_view B (instrument_id ob) (opposite (side ob))) (crossing (side ob) (price ob)))"

text \<open>
  C6. \<open>match_order\<close> implements the specification. For every pending order of a shard whose books
  satisfy the invariant, the call returns (no null dereference, no out-of-range index, no bit scan
  of zero, no endless loop), the books change and the reports are emitted exactly as the list
  specification of price-time matching says, and the invariant holds again.
\<close>

theorem match_order_refines:
  assumes "books_ok sh bs V P" and "n \<in> P"
  shows "\<exists>sh1 b1 V1 reps. match_order sh (bs (instrument_id (mem sh n))) n = Some (sh1, b1)
    \<and> spec_order (abook sh V) (ord (mem sh) n) = (abook sh1 V1, reps)
    \<and> emits reps (outs sh) = Some (outs sh1)
    \<and> books_ok sh1 (bs(instrument_id (mem sh n) := b1)) V1 (P - {n})"
proof -
  obtain B1 reps where sp: "spec_order (abook sh V) (ord (mem sh) n) = (B1, reps)" by (cases "spec_order (abook sh V) (ord (mem sh) n)")
  show ?thesis using match_order_correct [OF assms refl sp] sp by (auto simp: book_step_def)
qed

theorem match_order_refines_witness:
  "\<exists>sh1 b1 V1 reps. match_order sample_shard (sample_books 0) 2 = Some (sh1, b1)
    \<and> spec_order ((\<lambda>_. [])((0, SELL, 100) := [resting_sell])) pending_buy = (abook sh1 V1, reps)
    \<and> emits reps (outs sample_shard) = Some (outs sh1) \<and> books_ok sh1 (sample_books(0 := b1)) V1 {}"
proof -
  obtain V where V: "books_ok sample_shard sample_books V {2}" "ord (mem sample_shard) 2 = pending_buy"
    "abook sample_shard V = (\<lambda>_. [])((0, SELL, 100) := [resting_sell])" by (rule sample_ok)
  have "instrument_id (mem sample_shard 2) = 0" using V(2) sample_orders(2) by (metis ord_sel(6) order.select_convs(6))
  then show ?thesis using match_order_refines [OF V(1), of 2] V(2,3) by auto
qed

text \<open>Reports that announce an execution, on any of the three outputs.\<close>

definition is_execution :: "report \<Rightarrow> bool" where
  "is_execution r = (case r of
     RItch m \<Rightarrow> it_msg_type m = ch CHR ''E'' | RDrop d \<Rightarrow> dc_state d \<in> {PARTIAL_FILL, FILLED} | RAck w a \<Rightarrow> True)"

lemma resting_positive:
  assumes "books_ok sh bs V P" and "r \<in> set (abook sh V k)"
  shows "0 < quantity r"
  using shard_okD(4) [OF books_okD(1) [OF assms(1)], of _ k] assms(2) by (auto simp: abook_def rests_at_def)

text \<open>The report that ends the handling of an order: none when it is filled, a rejection when an
  order of its own client blocks it, otherwise the announcement that it rests.\<close>

definition closing_reports :: "bool \<Rightarrow> order \<Rightarrow> report list" where
  "closing_reports blocked a =
     (if quantity a = 0 then [] else if blocked then [drop_report REJECTED a (price a) (quantity a)]
      else [itch_report (ch CHR ''A'') a (price a) (quantity a), drop_report ST_NEW a (price a) (quantity a)])"

lemma closing_not_execution: "\<forall>r \<in> set (closing_reports st a). \<not> is_execution r"
  by (simp add: closing_reports_def is_execution_def itch_report_def drop_report_def)

lemma spec_order_fills:
  assumes pos: "\<And>k r. r \<in> set (B k) \<Longrightarrow> 0 < quantity r" and pr: "price ob < MAX_PRICE"
    and sp: "spec_order B ob = (B1, reps)"
  obtains a rs fs st where "spec_match ob (priority_list B ob) = (a, rs, fs, st)"
    "reps = trade_reports fs @ closing_reports st a" "priority_list B1 ob = rs"
    "B1 (instrument_id ob, side ob, price ob) =
       B (instrument_id ob, side ob, price ob) @ (if \<not> st \<and> 0 < quantity a then [a] else [])"
proof -
  let ?i = "instrument_id ob" and ?o = "opposite (side ob)" and ?k = "(instrument_id ob, side ob, price ob)"
  obtain a L fs st where w: "sweep ob (crossing (side ob) (price ob)) (side_view B ?i ?o) = (a, L, fs, st)" by (metis prod_cases4)
  have m: "spec_match ob (priority_list B ob) = (a, concat (map L (crossing (side ob) (price ob))), fs, st)"
    using sweep_fills [OF distinct_crossing _ w] pos by (auto simp: priority_list_def side_view_def)
  have q: "st \<Longrightarrow> 0 < quantity a" using spec_match_stopped [of ob "priority_list B ob" a _ fs] m by auto
  have ne: "?o \<noteq> side ob" "side ob \<noteq> ?o" by (cases "side ob"; simp)+
  have r: "reps = trade_reports fs @ closing_reports st a" and sv: "side_view B1 ?i ?o = L"
    and la: "B1 ?k = B ?k @ (if \<not> st \<and> 0 < quantity a then [a] else [])"
    using sp pr w ne q
    by (auto simp: spec_order_def Let_def trade_reports_def closing_reports_def side_view_def set_side_def split: if_splits)
  show thesis by (rule that [OF m r _ la]) (simp add: priority_list_def sv)
qed

text \<open>The fills of \<open>match_order\<close> and what becomes of the order, from which the properties follow.\<close>

lemma match_order_fills:
  assumes ok: "books_ok sh bs V P" and n: "n \<in> P" and "price (mem sh n) < MAX_PRICE"
  obtains sh1 b1 V1 a rs fs st where "match_order sh (bs (instrument_id (mem sh n))) n = Some (sh1, b1)"
    "books_ok sh1 (bs(instrument_id (mem sh n) := b1)) V1 (P - {n})"
    "spec_match (ord (mem sh) n) (priority_list (abook sh V) (ord (mem sh) n)) = (a, rs, fs, st)"
    "emits (trade_reports fs @ closing_reports st a) (outs sh) = Some (outs sh1)"
    "priority_list (abook sh1 V1) (ord (mem sh) n) = rs"
    "abook sh1 V1 (instrument_id (mem sh n), side (mem sh n), price (mem sh n)) =
       abook sh V (instrument_id (mem sh n), side (mem sh n), price (mem sh n)) @ (if \<not> st \<and> 0 < quantity a then [a] else [])"
proof -
  obtain B1 reps where sp: "spec_order (abook sh V) (ord (mem sh) n) = (B1, reps)" by (cases "spec_order (abook sh V) (ord (mem sh) n)")
  have pr: "price (ord (mem sh) n) < MAX_PRICE" using assms(3) by simp
  obtain a rs fs st where f: "spec_match (ord (mem sh) n) (priority_list (abook sh V) (ord (mem sh) n)) = (a, rs, fs, st)"
    "reps = trade_reports fs @ closing_reports st a" "priority_list B1 (ord (mem sh) n) = rs"
    "B1 (instrument_id (ord (mem sh) n), side (ord (mem sh) n), price (ord (mem sh) n)) =
       abook sh V (instrument_id (ord (mem sh) n), side (ord (mem sh) n), price (ord (mem sh) n))
         @ (if \<not> st \<and> 0 < quantity a then [a] else [])"
    by (rule spec_order_fills [OF resting_positive [OF ok] pr sp])
  obtain sh1 b1 V1 where m: "match_order sh (bs (instrument_id (mem sh n))) n = Some (sh1, b1)"
    "book_step sh bs (instrument_id (mem sh n)) V P B1 reps sh1 b1 V1 (P - {n})"
    using match_order_correct [OF ok n refl sp] by auto
  then have bs: "books_ok sh1 (bs(instrument_id (mem sh n) := b1)) V1 (P - {n})" "abook sh1 V1 = B1"
    "emits reps (outs sh) = Some (outs sh1)" by (auto simp: book_step_def)
  show thesis
    by (rule that [OF m(1) bs(1) f(1)]) (use bs f in simp_all)
qed

text \<open>
  C7. Price-time priority. The orders that trade with an incoming order are exactly the first ones
  of the opposite orders it crosses, taken best price first and oldest first at each price, and the
  executions reported are those fills in that order, before any other report of the call.
\<close>

theorem match_price_time_priority:
  assumes "books_ok sh bs V P" and "n \<in> P" and "price (mem sh n) < MAX_PRICE"
  shows "\<exists>sh1 b1 fs tail. match_order sh (bs (instrument_id (mem sh n))) n = Some (sh1, b1)
    \<and> emits (trade_reports fs @ tail) (outs sh) = Some (outs sh1) \<and> (\<forall>r \<in> set tail. \<not> is_execution r)
    \<and> map snd fs = take (length fs) (priority_list (abook sh V) (ord (mem sh) n))"
proof -
  obtain sh1 b1 V1 a rs fs st where f: "match_order sh (bs (instrument_id (mem sh n))) n = Some (sh1, b1)"
    "spec_match (ord (mem sh) n) (priority_list (abook sh V) (ord (mem sh) n)) = (a, rs, fs, st)"
    "emits (trade_reports fs @ closing_reports st a) (outs sh) = Some (outs sh1)"
    by (rule match_order_fills [OF assms])
  show ?thesis using f spec_match_prefix [OF f(2)] closing_not_execution by blast
qed

theorem match_price_time_priority_witness:
  "\<exists>sh1 b1 fs tail. match_order sample_shard (sample_books 0) 2 = Some (sh1, b1)
    \<and> emits (trade_reports fs @ tail) (outs sample_shard) = Some (outs sh1) \<and> (\<forall>r \<in> set tail. \<not> is_execution r)
    \<and> map snd fs = take (length fs) (priority_list ((\<lambda>_. [])((0, SELL, 100) := [resting_sell])) pending_buy)"
proof -
  obtain V where V: "books_ok sample_shard sample_books V {2}" "ord (mem sample_shard) 2 = pending_buy"
    "abook sample_shard V = (\<lambda>_. [])((0, SELL, 100) := [resting_sell])" by (rule sample_ok)
  have "instrument_id (mem sample_shard 2) = 0" "price (mem sample_shard 2) = 101"
    using V(2) sample_orders(2) by (metis ord_sel order.select_convs)+
  then show ?thesis using match_price_time_priority [OF V(1), of 2] V(2,3) by (simp add: MAX_PRICE_def)
qed

text \<open>
  C8. No self-trades. Every fill is between the incoming client and a different client. If quantity is
  left and an opposite order that crosses is still there, the first such order belongs to the incoming
  client and the rest of the incoming order is reported as rejected and does not enter the book;
  if none is left, it rests.
\<close>

theorem match_no_self_trade:
  assumes "books_ok sh bs V P" and "n \<in> P" and "price (mem sh n) < MAX_PRICE"
  shows "\<exists>sh1 b1 V1 fs a. match_order sh (bs (instrument_id (mem sh n))) n = Some (sh1, b1)
    \<and> emits (trade_reports fs @ closing_reports (priority_list (abook sh1 V1) (ord (mem sh) n) \<noteq> []) a) (outs sh) = Some (outs sh1)
    \<and> (\<forall>f \<in> set fs. client_id (fst f) = client_id (mem sh n) \<and> client_id (snd f) \<noteq> client_id (mem sh n))
    \<and> (0 < quantity a \<longrightarrow> (\<forall>r rs. priority_list (abook sh1 V1) (ord (mem sh) n) = r # rs \<longrightarrow> client_id r = client_id (mem sh n)))
    \<and> books_ok sh1 (bs(instrument_id (mem sh n) := b1)) V1 (P - {n})"
proof -
  obtain sh1 b1 V1 a rs fs st where f: "match_order sh (bs (instrument_id (mem sh n))) n = Some (sh1, b1)"
    "books_ok sh1 (bs(instrument_id (mem sh n) := b1)) V1 (P - {n})"
    "spec_match (ord (mem sh) n) (priority_list (abook sh V) (ord (mem sh) n)) = (a, rs, fs, st)"
    "emits (trade_reports fs @ closing_reports st a) (outs sh) = Some (outs sh1)"
    "priority_list (abook sh1 V1) (ord (mem sh) n) = rs"
    by (rule match_order_fills [OF assms])
  have "closing_reports st a = closing_reports (rs \<noteq> []) a \<and> (0 < quantity a \<longrightarrow> (\<forall>r qs. rs = r # qs \<longrightarrow> client_id r = client_id (mem sh n)))"
    using spec_match_stopped [of "ord (mem sh) n" _ a rs fs] spec_match_exhausts [of "ord (mem sh) n" _ a rs fs] f(3)
    by (cases st; cases "quantity a = 0") (auto simp: closing_reports_def)
  then show ?thesis using f spec_match_no_self [OF f(3)]
    by (intro exI [of _ sh1] exI [of _ b1] exI [of _ V1] exI [of _ fs] exI [of _ a]) simp
qed

theorem match_no_self_trade_witness:
  "\<exists>sh1 b1 V1 fs a. match_order sample_shard (sample_books 0) 2 = Some (sh1, b1)
    \<and> emits (trade_reports fs @ closing_reports (priority_list (abook sh1 V1) pending_buy \<noteq> []) a) (outs sample_shard) = Some (outs sh1)
    \<and> (\<forall>f \<in> set fs. client_id (fst f) = 2 \<and> client_id (snd f) \<noteq> 2)
    \<and> (0 < quantity a \<longrightarrow> (\<forall>r rs. priority_list (abook sh1 V1) pending_buy = r # rs \<longrightarrow> client_id r = 2))
    \<and> books_ok sh1 (sample_books(0 := b1)) V1 {}"
proof -
  obtain V where V: "books_ok sample_shard sample_books V {2}" "ord (mem sample_shard) 2 = pending_buy" by (rule sample_ok)
  have "instrument_id (mem sample_shard 2) = 0" "price (mem sample_shard 2) = 101" "client_id (mem sample_shard 2) = 2"
    using V(2) sample_orders(2) by (metis ord_sel order.select_convs)+
  then show ?thesis using match_no_self_trade [OF V(1), of 2] V(2) by (simp add: MAX_PRICE_def)
qed

text \<open>
  C9. Quantity is conserved. What an incoming order trades is taken from the orders it crosses, share for
  share; its remainder is what rests at the end of its level or is reported in the rejection, and it is
  zero when neither happens.
\<close>

theorem match_conserves_quantity:
  assumes "books_ok sh bs V P" and "n \<in> P" and "price (mem sh n) < MAX_PRICE"
  shows "\<exists>sh1 b1 V1 fs st a. match_order sh (bs (instrument_id (mem sh n))) n = Some (sh1, b1)
    \<and> emits (trade_reports fs @ closing_reports st a) (outs sh) = Some (outs sh1)
    \<and> quantity a + sum_list (map fill_qty fs) = quantity (mem sh n)
    \<and> sum_list (map quantity (priority_list (abook sh1 V1) (ord (mem sh) n))) + sum_list (map fill_qty fs)
        = sum_list (map quantity (priority_list (abook sh V) (ord (mem sh) n)))
    \<and> abook sh1 V1 (instrument_id (mem sh n), side (mem sh n), price (mem sh n)) =
        abook sh V (instrument_id (mem sh n), side (mem sh n), price (mem sh n)) @ (if \<not> st \<and> 0 < quantity a then [a] else [])
    \<and> books_ok sh1 (bs(instrument_id (mem sh n) := b1)) V1 (P - {n})"
proof -
  obtain sh1 b1 V1 a rs fs st where f: "match_order sh (bs (instrument_id (mem sh n))) n = Some (sh1, b1)"
    "books_ok sh1 (bs(instrument_id (mem sh n) := b1)) V1 (P - {n})"
    "spec_match (ord (mem sh) n) (priority_list (abook sh V) (ord (mem sh) n)) = (a, rs, fs, st)"
    "emits (trade_reports fs @ closing_reports st a) (outs sh) = Some (outs sh1)"
    "priority_list (abook sh1 V1) (ord (mem sh) n) = rs"
    "abook sh1 V1 (instrument_id (mem sh n), side (mem sh n), price (mem sh n)) =
       abook sh V (instrument_id (mem sh n), side (mem sh n), price (mem sh n)) @ (if \<not> st \<and> 0 < quantity a then [a] else [])"
    by (rule match_order_fills [OF assms])
  show ?thesis using f spec_match_conserves [OF f(3)]
    by (intro exI [of _ sh1] exI [of _ b1] exI [of _ V1] exI [of _ fs] exI [of _ st] exI [of _ a]) simp
qed

theorem match_conserves_quantity_witness:
  "\<exists>sh1 b1 V1 fs st a. match_order sample_shard (sample_books 0) 2 = Some (sh1, b1)
    \<and> emits (trade_reports fs @ closing_reports st a) (outs sample_shard) = Some (outs sh1)
    \<and> quantity a + sum_list (map fill_qty fs) = 8
    \<and> sum_list (map quantity (priority_list (abook sh1 V1) pending_buy)) + sum_list (map fill_qty fs) = 5
    \<and> abook sh1 V1 (0, BUY, 101) = (if \<not> st \<and> 0 < quantity a then [a] else [])
    \<and> books_ok sh1 (sample_books(0 := b1)) V1 {}"
proof -
  obtain V where V: "books_ok sample_shard sample_books V {2}" "ord (mem sample_shard) 2 = pending_buy"
    "abook sample_shard V = (\<lambda>_. [])((0, SELL, 100) := [resting_sell])" by (rule sample_ok)
  have n: "instrument_id (mem sample_shard 2) = 0" "price (mem sample_shard 2) = 101" "side (mem sample_shard 2) = BUY"
    "quantity (mem sample_shard 2) = 8"
    using V(2) sample_orders(2) by (metis ord_sel order.select_convs)+
  have "[0 ..< 102] = [0 ..< 100] @ [100, 101 :: nat]" using upt_split [of 0 100 102] by (simp add: upt_rec)
  then have "priority_list ((\<lambda>_. [])((0, SELL, 100) := [resting_sell])) pending_buy = [resting_sell]"
    by (simp add: priority_list_def sample_orders crossing_def side_view_def)
  then show ?thesis using match_conserves_quantity [OF V(1), of 2] n V(2,3) by (simp add: MAX_PRICE_def sample_orders(1) split del: if_split)
qed

section \<open>Delivery of the reports\<close>

fun itch_of :: "report list \<Rightarrow> ItchMessage list" where
  "itch_of [] = []"
| "itch_of (RItch m # rs) = m # itch_of rs"
| "itch_of (_ # rs) = itch_of rs"

fun drops_of :: "report list \<Rightarrow> DropCopyMessage list" where
  "drops_of [] = []"
| "drops_of (RDrop m # rs) = m # drops_of rs"
| "drops_of (_ # rs) = drops_of rs"

fun acks_of :: "nat \<Rightarrow> report list \<Rightarrow> OutboundAck list" where
  "acks_of w [] = []"
| "acks_of w (RAck v a # rs) = (if v = w then a # acks_of w rs else acks_of w rs)"
| "acks_of w (_ # rs) = acks_of w rs"

text \<open>A queue after a stream of messages was pushed to it, dropping those that find it full.\<close>

definition received :: "'a lfq \<Rightarrow> 'a list \<Rightarrow> 'a lfq \<Rightarrow> bool" where
  "received q xs q1 \<longleftrightarrow> lfq_items q1 = lfq_items q @ take (lfq_room q - length (lfq_items q)) xs
     \<and> lfq_room q1 = lfq_room q"

definition lost :: "'a lfq \<Rightarrow> 'a list \<Rightarrow> nat" where
  "lost q xs = length xs - (lfq_room q - length (lfq_items q))"

lemma received_Nil [simp]: "received q [] q" "lost q [] = 0"
  by (simp_all add: received_def lost_def)

lemma received_Cons:
  assumes "lfq_ok q" and "lfq_push q x = (b, q1)" and "received q1 xs q2"
  shows "received q (x # xs) q2" and "lost q (x # xs) = (if b then 0 else 1) + lost q1 xs"
proof -
  have p: "lfq_room q1 = lfq_room q" "b \<longleftrightarrow> length (lfq_items q) < lfq_room q" "lfq_items q1 = lfq_items q @ (if b then [x] else [])"
    using lfq.push_spec [OF assms(1,2)] by auto
  have "lfq_room q - length (lfq_items q) = (if b then Suc (lfq_room q1 - length (lfq_items q1)) else 0)"
    using p lfq_items_room [OF assms(1)] by auto
  then show "received q (x # xs) q2" "lost q (x # xs) = (if b then 0 else 1) + lost q1 xs"
    using assms(3) p lfq_items_room [OF assms(1)] by (auto simp: received_def lost_def split: if_splits)
qed

lemma emits_received:
  assumes "outputs_ok s" and "emits rs s = Some s1"
  shows "received (mkt_data_queue s) (itch_of rs) (mkt_data_queue s1)
    \<and> dropped_reports s1 mod 2 ^ 64 = (dropped_reports s + lost (mkt_data_queue s) (itch_of rs)) mod 2 ^ 64
    \<and> received (drop_copy_queue s) (drops_of rs) (drop_copy_queue s1)
    \<and> dropped_drop_copies s1 mod 2 ^ 64 = (dropped_drop_copies s + lost (drop_copy_queue s) (drops_of rs)) mod 2 ^ 64
    \<and> (\<forall>qs w. ack_queues s = Some qs \<longrightarrow> w < length qs \<longrightarrow>
         (\<exists>qs1. ack_queues s1 = Some qs1 \<and> length qs1 = length qs \<and> received (qs ! w) (acks_of w rs) (qs1 ! w)))"
  using assms
proof (induction rs arbitrary: s)
  case Nil
  then show ?case by simp
next
  case (Cons r rs)
  obtain s2 where s2: "emit r s = Some s2" "emits rs s2 = Some s1" using Cons.prems(2) by (cases "emit r s") auto
  show ?case
  proof (cases r)
    case (RItch m)
    obtain b q where q: "lfq_push (mkt_data_queue s) m = (b, q)" by (cases "lfq_push (mkt_data_queue s) m")
    have s2': "s2 = s\<lparr> mkt_data_queue := q, dropped_reports := (if b then dropped_reports s else stat_inc (dropped_reports s)) \<rparr>"
      using s2(1) q RItch by (auto simp: emit_def)
    have "outputs_ok s2" using Cons.prems(1) lfq.push_spec [OF _ q] by (simp add: outputs_ok_def s2')
    from Cons.IH [OF this s2(2)] show ?thesis
      using RItch received_Cons [OF _ q] Cons.prems(1)
      by (auto simp: s2' outputs_ok_def stat_inc_def mod_simps split: if_splits)
  next
    case (RDrop m)
    obtain b q where q: "lfq_push (drop_copy_queue s) m = (b, q)" by (cases "lfq_push (drop_copy_queue s) m")
    have s2': "s2 = s\<lparr> drop_copy_queue := q, dropped_drop_copies := (if b then dropped_drop_copies s else stat_inc (dropped_drop_copies s)) \<rparr>"
      using s2(1) q RDrop by (auto simp: emit_def)
    have "outputs_ok s2" using Cons.prems(1) lfq.push_spec [OF _ q] by (simp add: outputs_ok_def s2')
    from Cons.IH [OF this s2(2)] show ?thesis
      using RDrop received_Cons [OF _ q] Cons.prems(1)
      by (auto simp: s2' outputs_ok_def stat_inc_def mod_simps split: if_splits)
  next
    case (RAck v a)
    show ?thesis
    proof (cases "ack_queues s")
      case None
      then have "s2 = s" using s2(1) RAck by (simp add: emit_def)
      then show ?thesis using Cons.IH [OF Cons.prems(1)] s2(2) RAck None by auto
    next
      case (Some qs)
      obtain b q where q: "lfq_push (qs ! v) a = (b, q)" by (cases "lfq_push (qs ! v) a")
      have v: "v < length qs" and s2': "s2 = s\<lparr> ack_queues := Some (qs[v := q]) \<rparr>"
        using s2(1) q RAck Some by (auto simp: emit_def split: if_splits)
      have qv: "lfq_ok (qs ! v)" using Cons.prems(1) Some v by (auto simp: outputs_ok_def)
      then have "lfq_ok q" using lfq.push_spec [OF _ q] by simp
      then have "outputs_ok s2" using Cons.prems(1) Some set_update_subset_insert [of qs v q] by (auto simp: outputs_ok_def s2')
      note ih = Cons.IH [OF this s2(2)]
      have "\<exists>qs1. ack_queues s1 = Some qs1 \<and> length qs1 = length qs \<and> received (qs ! w) (acks_of w (r # rs)) (qs1 ! w)"
        if w: "w < length qs" for w
      proof -
        obtain qs1 where qs1: "ack_queues s1 = Some qs1" "length qs1 = length qs" "received ((qs[v := q]) ! w) (acks_of w rs) (qs1 ! w)"
          using ih w by (auto simp: s2')
        then show ?thesis using RAck received_Cons(1) [OF qv q] v by (cases "v = w") auto
      qed
      then show ?thesis using ih RAck Some by (simp add: s2')
    qed
  qed
qed

text \<open>
  C11. The reports of an order reach the output queues. After \<open>match_order\<close> the market-data queue, the
  drop-copy queue and the ack queue of every gateway worker hold what they held before followed by the
  reports the specification prescribes for them, in order, up to their capacity; the two drop counters
  grow by exactly the number of reports that found the queue full.
\<close>

theorem match_order_publishes:
  assumes "books_ok sh bs V P" and "n \<in> P"
  shows "\<exists>sh1 b1 B1 reps. match_order sh (bs (instrument_id (mem sh n))) n = Some (sh1, b1)
    \<and> spec_order (abook sh V) (ord (mem sh) n) = (B1, reps)
    \<and> received (mkt_data_queue (outs sh)) (itch_of reps) (mkt_data_queue (outs sh1))
    \<and> dropped_reports (outs sh1) mod 2 ^ 64 = (dropped_reports (outs sh) + lost (mkt_data_queue (outs sh)) (itch_of reps)) mod 2 ^ 64
    \<and> received (drop_copy_queue (outs sh)) (drops_of reps) (drop_copy_queue (outs sh1))
    \<and> dropped_drop_copies (outs sh1) mod 2 ^ 64 = (dropped_drop_copies (outs sh) + lost (drop_copy_queue (outs sh)) (drops_of reps)) mod 2 ^ 64
    \<and> (\<forall>qs w. ack_queues (outs sh) = Some qs \<longrightarrow> w < length qs \<longrightarrow>
         (\<exists>qs1. ack_queues (outs sh1) = Some qs1 \<and> length qs1 = length qs \<and> received (qs ! w) (acks_of w reps) (qs1 ! w)))"
proof -
  obtain B1 reps where sp: "spec_order (abook sh V) (ord (mem sh) n) = (B1, reps)" by (cases "spec_order (abook sh V) (ord (mem sh) n)")
  obtain sh1 b1 where m: "match_order sh (bs (instrument_id (mem sh n))) n = Some (sh1, b1)" "emits reps (outs sh) = Some (outs sh1)"
    using match_order_correct [OF assms refl sp] by (auto simp: book_step_def)
  have "outputs_ok (outs sh)" using shard_okD(8) [OF books_okD(1) [OF assms(1)]] .
  from emits_received [OF this m(2)] show ?thesis using m(1) sp by blast
qed

theorem match_order_publishes_witness:
  "\<exists>sh1 b1 B1 reps. match_order sample_shard (sample_books 0) 2 = Some (sh1, b1)
    \<and> spec_order ((\<lambda>_. [])((0, SELL, 100) := [resting_sell])) pending_buy = (B1, reps)
    \<and> received (mkt_data_queue (outs sample_shard)) (itch_of reps) (mkt_data_queue (outs sh1))
    \<and> received (drop_copy_queue (outs sample_shard)) (drops_of reps) (drop_copy_queue (outs sh1))"
proof -
  obtain V where V: "books_ok sample_shard sample_books V {2}" "ord (mem sample_shard) 2 = pending_buy"
    "abook sample_shard V = (\<lambda>_. [])((0, SELL, 100) := [resting_sell])" by (rule sample_ok)
  have n: "instrument_id (mem sample_shard 2) = 0" using V(2) sample_orders(2) by (metis ord_sel(6) order.select_convs(6))
  show ?thesis using match_order_publishes [OF V(1), of 2] unfolding n V(2,3) by blast
qed

section \<open>Properties of cancelling\<close>

text \<open>
  C10. \<open>cancel_order\<close> implements the specification. Cancelling a resting order returns, takes exactly that
  order out of its level, reports the cancel on the market-data feed and to the drop copy, and keeps the
  invariant; an id that names no resting order changes nothing.
\<close>

theorem cancel_order_refines:
  assumes "books_ok sh bs V P"
  shows "if a \<in> live V
    then \<exists>sh1 b1 V1 reps. cancel_order sh (bs (instrument_id (mem sh a))) a = Some (sh1, b1)
      \<and> spec_cancel (abook sh V) (ord (mem sh) a) = (abook sh1 V1, reps)
      \<and> emits reps (outs sh) = Some (outs sh1)
      \<and> books_ok sh1 (bs(instrument_id (mem sh a) := b1)) V1 P
    else \<forall>b. cancel_order sh b a = Some (sh, b)"
proof (cases "a \<in> live V")
  case True
  obtain B1 reps where sp: "spec_cancel (abook sh V) (ord (mem sh) a) = (B1, reps)" by (cases "spec_cancel (abook sh V) (ord (mem sh) a)")
  show ?thesis using cancel_order_correct [OF assms True refl sp] sp True by (auto simp: book_step_def)
next
  case False
  then have "orders_by_id sh a = None" using shard_okD(7) [OF books_okD(1) [OF assms]] by simp
  then show ?thesis using False by (simp add: cancel_order_def)
qed

theorem cancel_order_refines_witness:
  "\<exists>sh1 b1 V1 reps. cancel_order sample_shard (sample_books 0) 1 = Some (sh1, b1)
    \<and> spec_cancel ((\<lambda>_. [])((0, SELL, 100) := [resting_sell])) resting_sell = (abook sh1 V1, reps)
    \<and> emits reps (outs sample_shard) = Some (outs sh1) \<and> books_ok sh1 (sample_books(0 := b1)) V1 {2}"
proof -
  obtain V where V: "books_ok sample_shard sample_books V {2}"
    "abook sample_shard V = (\<lambda>_. [])((0, SELL, 100) := [resting_sell])" by (rule sample_ok)
  have "abook sample_shard V (0, SELL, 100) = [resting_sell]" using V(2) by simp
  then obtain x where x: "V (0, SELL, 100) = [x]" "ord (mem sample_shard) x = resting_sell" by (auto simp: abook_def)
  have "x \<in> live V" using x(1) mem_live [of x V "(0, SELL, 100)"] by simp
  moreover from this have "x = 1"
    using shard_okD(5) [OF books_okD(1) [OF V(1)], of x] x(2) sample_orders(1) by (metis UnI1 ord_sel(1) order.select_convs(1))
  ultimately have l: "1 \<in> live V" "ord (mem sample_shard) 1 = resting_sell" using x(2) by auto
  then have "instrument_id (mem sample_shard 1) = 0" using sample_orders(1) by (metis ord_sel(6) order.select_convs(6))
  then show ?thesis using cancel_order_refines [OF V(1), of 1] l V(2) by simp
qed

end
