(* ===== verification/Engine.thy ===== *)
theory Engine
  imports Book_Props "HOL-Library.Multiset"
begin

text \<open>
  The matching engine of a shard (\<open>hft_engine/src/matching/engine.h, engine.cpp\<close>): the wiring of its books
  in the constructor, the handling of one task and one pass of \<open>run()\<close> over the gateway queues. Each pass is
  shown to execute the oldest request of every queue, in queue order, as the book specification says.
\<close>

section \<open>State\<close>

text \<open>\<open>EngineTask\<close>: the tag and the union; the last component is \<open>ingress_tsc\<close>.\<close>

datatype EngineTask = TNew nat nat | TCancel nat nat nat

record engine =
  e_shard :: shard
  e_books :: "nat \<Rightarrow> book"
  e_wired :: "nat \<Rightarrow> bool"
  e_queues :: "EngineTask lfq list"
  e_shard_id :: nat
  e_tsc_queue :: "(nat \<times> nat) lfq"
  engine_orders_in :: nat
  engine_polls_idle :: nat
  engine_polls_active :: nat

text \<open>The constructor's loop \<open>for (i = shard_id; i < MAX_INSTRUMENTS; i += 4) books[i].init(...)\<close>.\<close>

function wire_books :: "nat \<Rightarrow> (nat \<Rightarrow> bool) \<Rightarrow> nat \<Rightarrow> bool" where
  "wire_books i w = (if i < MAX_INSTRUMENTS then wire_books (i + 4) (w(i := True)) else w)"
  by pat_completeness auto
termination
  by (relation "measure (\<lambda>(i, w). MAX_INSTRUMENTS - i)") auto

declare wire_books.simps [simp del]

definition engine_init :: "nat \<Rightarrow> shard \<Rightarrow> EngineTask lfq list \<Rightarrow> (nat \<times> nat) lfq \<Rightarrow> engine" where
  "engine_init shard_id sh qs tscq =
     \<lparr> e_shard = sh, e_books = (\<lambda>_. book_init), e_wired = wire_books shard_id (\<lambda>_. False), e_queues = qs,
       e_shard_id = shard_id, e_tsc_queue = tscq, engine_orders_in = 0, engine_polls_idle = 0, engine_polls_active = 0 \<rparr>"

section \<open>One task\<close>

text \<open>A book that was not wired holds null pointers: using it is undefined, as is an \<open>orders_by_id\<close>
  index out of range.\<close>

definition engine_new :: "engine \<Rightarrow> nat \<Rightarrow> engine option" where
  "engine_new e a =
     (let inst = instrument_id (mem (e_shard e) a)
      in if inst < MAX_INSTRUMENTS then
           if e_wired e inst then do {
             (sh1, b1) \<leftarrow> match_order (e_shard e) (e_books e inst) a;
             Some (e\<lparr> e_shard := sh1, e_books := (e_books e)(inst := b1),
                      engine_orders_in := stat_inc (engine_orders_in e) \<rparr>) }
           else None
         else Some e)"

definition engine_cancel :: "engine \<Rightarrow> nat \<Rightarrow> nat \<Rightarrow> engine option" where
  "engine_cancel e idx tok = do {
     ptr \<leftarrow> arr_get MAX_ORDERS_LOOKUP (orders_by_id (e_shard e)) idx;
     case ptr of
       None \<Rightarrow> Some e
     | Some a \<Rightarrow>
         if client_order_id (mem (e_shard e) a) = tok then
           (let inst = instrument_id (mem (e_shard e) a)
            in if inst < MAX_INSTRUMENTS \<and> e_wired e inst then do {
                 (sh1, b1) \<leftarrow> cancel_order (e_shard e) (e_books e inst) idx;
                 Some (e\<lparr> e_shard := sh1, e_books := (e_books e)(inst := b1) \<rparr>) }
               else None)
         else Some e }"

definition record_tsc :: "engine \<Rightarrow> nat \<Rightarrow> nat \<Rightarrow> engine" where
  "record_tsc e ingress now = e\<lparr> e_tsc_queue := snd (lfq_push (e_tsc_queue e) (ingress, now)) \<rparr>"

fun engine_task :: "engine \<Rightarrow> EngineTask \<Rightarrow> nat \<Rightarrow> engine option" where
  "engine_task e (TNew a ingress) now = do { e1 \<leftarrow> engine_new e a; Some (record_tsc e1 ingress now) }"
| "engine_task e (TCancel idx tok ingress) now = do { e1 \<leftarrow> engine_cancel e idx tok; Some (record_tsc e1 ingress now) }"

section \<open>One pass of \<open>run\<close>\<close>

text \<open>The loop over the queues; \<open>clk k\<close> is the clock read after the task of queue \<open>k\<close>.\<close>

fun poll_queues :: "nat list \<Rightarrow> (nat \<Rightarrow> nat) \<Rightarrow> bool \<Rightarrow> engine \<Rightarrow> (bool \<times> engine) option" where
  "poll_queues [] clk found e = Some (found, e)"
| "poll_queues (k # ks) clk found e =
     (case lfq_pop (e_queues e ! k) of
        (None, q) \<Rightarrow> poll_queues ks clk found (e\<lparr> e_queues := (e_queues e)[k := q] \<rparr>)
      | (Some t, q) \<Rightarrow> do {
          e1 \<leftarrow> engine_task (e\<lparr> e_queues := (e_queues e)[k := q] \<rparr>) t (clk k);
          poll_queues ks clk True e1 })"

definition engine_poll :: "engine \<Rightarrow> (nat \<Rightarrow> nat) \<Rightarrow> engine option" where
  "engine_poll e clk = do {
     (found, e1) \<leftarrow> poll_queues [0 ..< length (e_queues e)] clk False e;
     Some (if found then e1\<lparr> engine_polls_active := stat_inc (engine_polls_active e1) \<rparr>
           else e1\<lparr> engine_polls_idle := stat_inc (engine_polls_idle e1) \<rparr>) }"

section \<open>Requests\<close>

text \<open>What a task asks for, with the order it carries. A cancel names a handle and the client's token: it
  applies to the resting order with both, and to none otherwise.\<close>

datatype request = RqNew order | RqCancel nat nat

inductive spec_request :: "(lkey \<Rightarrow> order list) \<Rightarrow> request \<Rightarrow> (lkey \<Rightarrow> order list) \<Rightarrow> report list \<Rightarrow> bool" where
  new: "spec_order B ob = (B1, reps) \<Longrightarrow> spec_request B (RqNew ob) B1 reps"
| cancel: "ob \<in> set (B k) \<Longrightarrow> internal_id ob = idx \<Longrightarrow> client_order_id ob = tok \<Longrightarrow> spec_cancel B ob = (B1, reps) \<Longrightarrow>
    spec_request B (RqCancel idx tok) B1 reps"
| stale: "(\<And>k ob. ob \<in> set (B k) \<Longrightarrow> internal_id ob = idx \<Longrightarrow> client_order_id ob \<noteq> tok) \<Longrightarrow>
    spec_request B (RqCancel idx tok) B []"

inductive spec_requests :: "(lkey \<Rightarrow> order list) \<Rightarrow> request list \<Rightarrow> (lkey \<Rightarrow> order list) \<Rightarrow> report list \<Rightarrow> bool" where
  none: "spec_requests B [] B []"
| more: "spec_request B rq B1 reps \<Longrightarrow> spec_requests B1 rqs B2 reps2 \<Longrightarrow> spec_requests B (rq # rqs) B2 (reps @ reps2)"

fun request_of :: "memory \<Rightarrow> EngineTask \<Rightarrow> request" where
  "request_of m (TNew a t) = RqNew (ord m a)"
| "request_of m (TCancel idx tok t) = RqCancel idx tok"

section \<open>The invariant\<close>

fun task_orders :: "EngineTask list \<Rightarrow> nat list" where
  "task_orders [] = []"
| "task_orders (TNew a t # ts) = a # task_orders ts"
| "task_orders (TCancel _ _ _ # ts) = task_orders ts"

definition queued_orders :: "EngineTask lfq list \<Rightarrow> nat list" where
  "queued_orders qs = concat (map (\<lambda>q. task_orders (lfq_items q)) qs)"

fun task_ok :: "EngineTask \<Rightarrow> bool" where
  "task_ok (TNew a t) = True"
| "task_ok (TCancel idx tok t) = (idx < MAX_ORDERS_LOOKUP)"

definition our_instrument :: "nat \<Rightarrow> nat \<Rightarrow> bool" where
  "our_instrument shard_id i \<longleftrightarrow> i < MAX_INSTRUMENTS \<and> i mod 4 = shard_id"

definition engine_ok :: "engine \<Rightarrow> (lkey \<Rightarrow> nat list) \<Rightarrow> nat set \<Rightarrow> bool" where
  "engine_ok e V P \<longleftrightarrow> books_ok (e_shard e) (e_books e) V P
     \<and> (\<forall>q \<in> set (e_queues e). lfq_ok q \<and> (\<forall>t \<in> set (lfq_items q). task_ok t)) \<and> lfq_ok (e_tsc_queue e)
     \<and> (\<forall>i. e_wired e i \<longleftrightarrow> our_instrument (e_shard_id e) i)
     \<and> distinct (queued_orders (e_queues e)) \<and> set (queued_orders (e_queues e)) = P
     \<and> (\<forall>a \<in> P. our_instrument (e_shard_id e) (instrument_id (mem (e_shard e) a)))
     \<and> (\<forall>i s p. V (i, s, p) \<noteq> [] \<longrightarrow> our_instrument (e_shard_id e) i)"

lemma wire_books_spec: "wire_books i w j = (w j \<or> (i \<le> j \<and> j < MAX_INSTRUMENTS \<and> (j - i) mod 4 = 0))"
proof (induction i w rule: wire_books.induct)
  case (1 i w)
  have st: "i \<le> j \<and> (j - i) mod 4 = 0 \<longleftrightarrow> j = i \<or> i + 4 \<le> j \<and> (j - (i + 4)) mod 4 = 0" by presburger
  show ?case
  proof (cases "i < MAX_INSTRUMENTS")
    case True
    have "wire_books i w j = ((w(i := True)) j \<or> (i + 4 \<le> j \<and> j < MAX_INSTRUMENTS \<and> (j - (i + 4)) mod 4 = 0))"
      unfolding wire_books.simps [of i w] if_P [OF True] by (rule 1 [OF True])
    also have "\<dots> = (w j \<or> j = i \<or> (j < MAX_INSTRUMENTS \<and> i + 4 \<le> j \<and> (j - (i + 4)) mod 4 = 0))" by auto
    also have "\<dots> = (w j \<or> (i \<le> j \<and> j < MAX_INSTRUMENTS \<and> (j - i) mod 4 = 0))" using st True by (cases "j = i") auto
    finally show ?thesis .
  next
    case False
    then show ?thesis using wire_books.simps [of i w] by auto
  qed
qed

lemma wire_books_ours: "shard_id < 4 \<Longrightarrow> wire_books shard_id (\<lambda>_. False) j = our_instrument shard_id j"
proof -
  assume "shard_id < 4"
  then have "shard_id \<le> j \<and> (j - shard_id) mod 4 = 0 \<longleftrightarrow> j mod 4 = shard_id" by presburger
  then show ?thesis by (auto simp: wire_books_spec our_instrument_def)
qed

section \<open>One task keeps the invariant\<close>

lemma spec_order_other: "spec_order B ob = (B1, reps) \<Longrightarrow> j \<noteq> instrument_id ob \<Longrightarrow> B1 (j, s, p) = B (j, s, p)"
  by (auto simp: spec_order_def Let_def set_side_def split: prod.splits if_splits)

lemma spec_cancel_other: "spec_cancel B ob = (B1, reps) \<Longrightarrow> j \<noteq> instrument_id ob \<Longrightarrow> B1 (j, s, p) = B (j, s, p)"
  by (auto simp: spec_cancel_def Let_def)

lemma abook_empty: "abook sh V k = [] \<longleftrightarrow> V k = []"
  by (simp add: abook_def)

text \<open>The part of the engine a task works on: everything but its queues.\<close>

definition core_ok :: "engine \<Rightarrow> (lkey \<Rightarrow> nat list) \<Rightarrow> nat set \<Rightarrow> bool" where
  "core_ok e V P \<longleftrightarrow> books_ok (e_shard e) (e_books e) V P \<and> lfq_ok (e_tsc_queue e)
     \<and> (\<forall>i. e_wired e i \<longleftrightarrow> our_instrument (e_shard_id e) i)
     \<and> (\<forall>a \<in> P. our_instrument (e_shard_id e) (instrument_id (mem (e_shard e) a)))
     \<and> (\<forall>i s p. V (i, s, p) \<noteq> [] \<longrightarrow> our_instrument (e_shard_id e) i)"

lemma engine_ok_core:
  "engine_ok e V P \<longleftrightarrow> core_ok e V P \<and> (\<forall>q \<in> set (e_queues e). lfq_ok q \<and> (\<forall>t \<in> set (lfq_items q). task_ok t))
     \<and> distinct (queued_orders (e_queues e)) \<and> set (queued_orders (e_queues e)) = P"
  by (auto simp: engine_ok_def core_ok_def)

definition task_done :: "engine \<Rightarrow> (lkey \<Rightarrow> nat list) \<Rightarrow> request list \<Rightarrow> engine \<Rightarrow> (lkey \<Rightarrow> nat list) \<Rightarrow> nat set \<Rightarrow> bool" where
  "task_done e V rqs e1 V1 P1 \<longleftrightarrow> core_ok e1 V1 P1 \<and> e_queues e1 = e_queues e \<and> e_shard_id e1 = e_shard_id e
     \<and> (\<exists>reps. spec_requests (abook (e_shard e) V) rqs (abook (e_shard e1) V1) reps
          \<and> emits reps (outs (e_shard e)) = Some (outs (e_shard e1)))
     \<and> (\<forall>a \<in> P1. ord (mem (e_shard e1)) a = ord (mem (e_shard e)) a)"

lemma record_tsc_core: "core_ok e1 V1 P1 \<Longrightarrow> core_ok (record_tsc e1 t now) V1 P1"
proof -
  obtain b q where p: "lfq_push (e_tsc_queue e1) (t, now) = (b, q)" by (cases "lfq_push (e_tsc_queue e1) (t, now)")
  assume "core_ok e1 V1 P1"
  then show ?thesis using lfq.push_spec [OF _ p] by (simp add: core_ok_def record_tsc_def p)
qed

lemma record_tsc_done: "task_done e V rqs e1 V1 P1 \<Longrightarrow> task_done e V rqs (record_tsc e1 t now) V1 P1"
  using record_tsc_core [of e1 V1 P1] by (simp add: task_done_def) (simp add: record_tsc_def)

lemma book_step_core:
  assumes c: "core_ok e V P" and i: "our_instrument (e_shard_id e) i"
    and st: "book_step (e_shard e) (e_books e) i V P B1 reps sh1 b1 V1 P1" and P1: "P1 \<subseteq> P"
    and oth: "\<And>j s p. j \<noteq> i \<Longrightarrow> B1 (j, s, p) = abook (e_shard e) V (j, s, p)"
    and e1: "e1 = e\<lparr> e_shard := sh1, e_books := (e_books e)(i := b1), engine_orders_in := n \<rparr>"
    and rq: "spec_request (abook (e_shard e) V) rq B1 reps"
  shows "task_done e V [rq] e1 V1 P1"
proof -
  have s: "books_ok sh1 ((e_books e)(i := b1)) V1 P1" "abook sh1 V1 = B1" "emits reps (outs (e_shard e)) = Some (outs sh1)"
    "\<forall>a \<in> P1. ord (mem sh1) a = ord (mem (e_shard e)) a" using st by (auto simp: book_step_def)
  have "our_instrument (e_shard_id e) j" if "V1 (j, t, p) \<noteq> []" for j t p
  proof (cases "j = i")
    case False
    then have "V (j, t, p) \<noteq> []" using oth [OF False, of t p] that abook_empty s(2) by metis
    then show ?thesis using c unfolding core_ok_def by blast
  qed (use i in simp)
  moreover have "instrument_id (mem sh1 a) = instrument_id (mem (e_shard e) a)" if "a \<in> P1" for a
    using s(4) that by (metis ord_sel(6))
  moreover have "spec_requests (abook (e_shard e) V) [rq] (abook sh1 V1) reps"
    using spec_requests.more [OF rq spec_requests.none] s(2) by simp
  ultimately show ?thesis using c s P1 by (auto simp: task_done_def core_ok_def e1)
qed

lemma engine_new_ok:
  assumes c: "core_ok e V P" and a: "a \<in> P"
  shows "\<exists>e1 V1. engine_new e a = Some e1 \<and> task_done e V [RqNew (ord (mem (e_shard e)) a)] e1 V1 (P - {a})"
proof -
  let ?i = "instrument_id (mem (e_shard e) a)" and ?o = "ord (mem (e_shard e)) a"
  have i: "our_instrument (e_shard_id e) ?i" "e_wired e ?i" "?i < MAX_INSTRUMENTS"
    using c a by (auto simp: core_ok_def our_instrument_def)
  obtain B1 reps where sp: "spec_order (abook (e_shard e) V) ?o = (B1, reps)" by (cases "spec_order (abook (e_shard e) V) ?o")
  obtain sh1 b1 V1 where m: "match_order (e_shard e) (e_books e ?i) a = Some (sh1, b1)"
    "book_step (e_shard e) (e_books e) ?i V P B1 reps sh1 b1 V1 (P - {a})"
    using match_order_correct [OF _ a refl sp, of "e_books e"] c by (auto simp: core_ok_def)
  let ?e1 = "e\<lparr> e_shard := sh1, e_books := (e_books e)(?i := b1), engine_orders_in := stat_inc (engine_orders_in e) \<rparr>"
  have "engine_new e a = Some ?e1" using i m(1) by (simp add: engine_new_def)
  moreover have "task_done e V [RqNew ?o] ?e1 V1 (P - {a})"
    by (rule book_step_core [OF c i(1) m(2) _ _ refl spec_request.new [OF sp]])
      (use spec_order_other [OF sp] in auto)
  ultimately show ?thesis by blast
qed

lemma engine_cancel_ok:
  assumes c: "core_ok e V P" and idx: "idx < MAX_ORDERS_LOOKUP"
  shows "\<exists>e1 V1. engine_cancel e idx tok = Some e1 \<and> task_done e V [RqCancel idx tok] e1 V1 P"
proof -
  have b: "books_ok (e_shard e) (e_books e) V P" using c by (simp add: core_ok_def)
  note D = shard_okD [OF books_okD(1) [OF b]]
  show ?thesis
  proof (cases "idx \<in> live V \<and> client_order_id (mem (e_shard e) idx) = tok")
    case False
    then have "engine_cancel e idx tok = Some e" using idx D(7) by (auto simp: engine_cancel_def arr_simps)
    moreover have "client_order_id ob \<noteq> tok" if "ob \<in> set (abook (e_shard e) V k)" "internal_id ob = idx" for k ob
    proof -
      have "ob \<in> ord (mem (e_shard e)) ` set (V k)" using that(1) by (simp only: abook_def set_map)
      then obtain x where x: "x \<in> set (V k)" "ob = ord (mem (e_shard e)) x" by (elim imageE)
      then have "x \<in> live V" using mem_live [of x V k] by simp
      then show ?thesis using D(5) [of x] that(2) x(2) False by auto
    qed
    then have "spec_requests (abook (e_shard e) V) [RqCancel idx tok] (abook (e_shard e) V) []"
      using spec_requests.more [OF spec_request.stale spec_requests.none, of "abook (e_shard e) V" idx tok] by simp
    ultimately show ?thesis using c by (intro exI [of _ e] exI [of _ V]) (auto simp: task_done_def intro: exI [of _ "[]"])
  next
    case True
    let ?i = "instrument_id (mem (e_shard e) idx)" and ?o = "ord (mem (e_shard e)) idx"
    obtain k where k: "idx \<in> set (V k)" using True by (auto simp: live_def)
    then have kk: "k = (?i, side ?o, price ?o)" using D(4) [OF k] by (simp add: rests_at_def)
    have "V (?i, side ?o, price ?o) \<noteq> []" using k kk by auto
    then have i: "our_instrument (e_shard_id e) ?i" using c unfolding core_ok_def by blast
    then have w: "e_wired e ?i" "?i < MAX_INSTRUMENTS" using c by (auto simp: core_ok_def our_instrument_def)
    obtain B1 reps where sp: "spec_cancel (abook (e_shard e) V) ?o = (B1, reps)" by (cases "spec_cancel (abook (e_shard e) V) ?o")
    obtain sh1 b1 V1 where m: "cancel_order (e_shard e) (e_books e ?i) idx = Some (sh1, b1)"
      "book_step (e_shard e) (e_books e) ?i V P B1 reps sh1 b1 V1 P"
      using cancel_order_correct [OF b _ refl sp] True by blast
    let ?e1 = "e\<lparr> e_shard := sh1, e_books := (e_books e)(?i := b1), engine_orders_in := engine_orders_in e \<rparr>"
    have "engine_cancel e idx tok = Some ?e1" using w m(1) True idx D(7) by (simp add: engine_cancel_def arr_simps)
    moreover have "?o \<in> set (abook (e_shard e) V k)" using k by (simp add: abook_def)
    then have "spec_request (abook (e_shard e) V) (RqCancel idx tok) B1 reps"
      by (rule spec_request.cancel [OF _ _ _ sp]) (use True D(5) in auto)
    then have "task_done e V [RqCancel idx tok] ?e1 V1 P"
      by (rule book_step_core [OF c i m(2) _ _ refl, rotated 2]) (use spec_cancel_other [OF sp] in auto)
    ultimately show ?thesis by blast
  qed
qed

lemma engine_task_ok:
  assumes c: "core_ok e V P" and t: "task_ok t" "set (task_orders [t]) \<subseteq> P"
  shows "\<exists>e1 V1. engine_task e t now = Some e1
    \<and> task_done e V [request_of (mem (e_shard e)) t] e1 V1 (P - set (task_orders [t]))"
proof (cases t)
  case (TNew a ing)
  then have a: "a \<in> P" using t by simp
  obtain e1 V1 where "engine_new e a = Some e1" and d: "task_done e V [RqNew (ord (mem (e_shard e)) a)] e1 V1 (P - {a})"
    using engine_new_ok [OF c a] by blast
  then have "engine_task e t now = Some (record_tsc e1 ing now)" using TNew by simp
  moreover have "task_done e V [request_of (mem (e_shard e)) t] (record_tsc e1 ing now) V1 (P - set (task_orders [t]))"
    using record_tsc_done [OF d] TNew by simp
  ultimately show ?thesis by blast
next
  case (TCancel idx tok ing)
  then have i: "idx < MAX_ORDERS_LOOKUP" using t by simp
  obtain e1 V1 where "engine_cancel e idx tok = Some e1" and d: "task_done e V [RqCancel idx tok] e1 V1 P"
    using engine_cancel_ok [OF c i] by blast
  then have "engine_task e t now = Some (record_tsc e1 ing now)" using TCancel by simp
  moreover have "task_done e V [request_of (mem (e_shard e)) t] (record_tsc e1 ing now) V1 (P - set (task_orders [t]))"
    using record_tsc_done [OF d] TCancel by simp
  ultimately show ?thesis by blast
qed

section \<open>One pass keeps the invariant\<close>

lemma spec_requests_append:
  "spec_requests B xs B1 r1 \<Longrightarrow> spec_requests B1 ys B2 r2 \<Longrightarrow> spec_requests B (xs @ ys) B2 (r1 @ r2)"
proof (induction B xs B1 r1 rule: spec_requests.induct)
  case (more B rq B1 reps rqs B2' reps2)
  then show ?case using spec_requests.more by fastforce
qed simp

lemma task_done_trans:
  assumes "task_done e V xs e1 V1 P1" and "task_done e1 V1 ys e2 V2 P2" and "P2 \<subseteq> P1"
  shows "task_done e V (xs @ ys) e2 V2 P2"
proof -
  obtain r1 r2 where r: "spec_requests (abook (e_shard e) V) xs (abook (e_shard e1) V1) r1" "emits r1 (outs (e_shard e)) = Some (outs (e_shard e1))"
    "spec_requests (abook (e_shard e1) V1) ys (abook (e_shard e2) V2) r2" "emits r2 (outs (e_shard e1)) = Some (outs (e_shard e2))"
    using assms(1,2) by (auto simp: task_done_def)
  have "spec_requests (abook (e_shard e) V) (xs @ ys) (abook (e_shard e2) V2) (r1 @ r2)"
    "emits (r1 @ r2) (outs (e_shard e)) = Some (outs (e_shard e2))"
    using spec_requests_append [OF r(1,3)] r(2,4) by (auto simp: emits_append)
  then show ?thesis using assms unfolding task_done_def by (metis subsetD)
qed

text \<open>The requests at the head of the queues \<open>ks\<close>, in that order.\<close>

definition head_requests :: "engine \<Rightarrow> nat list \<Rightarrow> request list" where
  "head_requests e ks = concat (map (\<lambda>k. map (request_of (mem (e_shard e))) (take 1 (lfq_items (e_queues e ! k)))) ks)"


lemma task_orders_append: "task_orders (xs @ ys) = task_orders xs @ task_orders ys"
  by (induction xs rule: task_orders.induct) auto

lemma queued_orders_pop_mset:
  "k < length qs \<Longrightarrow> lfq_items q = tl (lfq_items (qs ! k)) \<Longrightarrow>
   mset (queued_orders qs) = mset (task_orders (take 1 (lfq_items (qs ! k))) @ queued_orders (qs[k := q]))"
proof (induction qs arbitrary: k)
  case (Cons q0 qs)
  show ?case
  proof (cases k)
    case 0
    have "lfq_items q0 = take 1 (lfq_items q0) @ tl (lfq_items q0)" by (cases "lfq_items q0") auto
    then have "task_orders (lfq_items q0) = task_orders (take 1 (lfq_items q0)) @ task_orders (tl (lfq_items q0))"
      by (metis task_orders_append)
    then show ?thesis using Cons.prems 0 by (simp add: queued_orders_def)
  next
    case (Suc k1)
    then show ?thesis using Cons.IH [of k1] Cons.prems by (simp add: queued_orders_def)
  qed
qed simp

lemma queued_orders_pop:
  assumes "k < length qs" and "lfq_items q = tl (lfq_items (qs ! k))" and "distinct (queued_orders qs)"
  shows "distinct (queued_orders (qs[k := q]))"
    and "set (queued_orders (qs[k := q])) = set (queued_orders qs) - set (task_orders (take 1 (lfq_items (qs ! k))))"
    and "set (task_orders (take 1 (lfq_items (qs ! k)))) \<subseteq> set (queued_orders qs)"
proof -
  note m = queued_orders_pop_mset [OF assms(1,2)]
  have "distinct (task_orders (take 1 (lfq_items (qs ! k))) @ queued_orders (qs[k := q]))"
    using mset_eq_imp_distinct_iff [OF m] assms(3) by simp
  moreover note mset_eq_setD [OF m]
  ultimately show "distinct (queued_orders (qs[k := q]))"
    "set (queued_orders (qs[k := q])) = set (queued_orders qs) - set (task_orders (take 1 (lfq_items (qs ! k))))"
    "set (task_orders (take 1 (lfq_items (qs ! k)))) \<subseteq> set (queued_orders qs)" by auto
qed

lemma in_set_tlD: "x \<in> set (tl xs) \<Longrightarrow> x \<in> set xs"
  by (cases xs) auto

lemma queued_orders_mem: "k < length qs \<Longrightarrow> TNew a t \<in> set (lfq_items (qs ! k)) \<Longrightarrow> a \<in> set (queued_orders qs)"
proof -
  assume k: "k < length qs" and "TNew a t \<in> set (lfq_items (qs ! k))"
  then obtain xs ys where "lfq_items (qs ! k) = xs @ TNew a t # ys" by (meson split_list)
  then have "a \<in> set (task_orders (lfq_items (qs ! k)))" by (simp add: task_orders_append)
  then show ?thesis using k by (auto simp: queued_orders_def)
qed

text \<open>The state after the queues \<open>ks\<close> were polled.\<close>

definition poll_done :: "engine \<Rightarrow> (lkey \<Rightarrow> nat list) \<Rightarrow> nat list \<Rightarrow> engine \<Rightarrow> (lkey \<Rightarrow> nat list) \<Rightarrow> nat set \<Rightarrow> bool" where
  "poll_done e V ks e1 V1 P1 \<longleftrightarrow> engine_ok e1 V1 P1 \<and> e_shard_id e1 = e_shard_id e
     \<and> map lfq_items (e_queues e1) = map (\<lambda>k. (if k \<in> set ks then tl else (\<lambda>x. x)) (lfq_items (e_queues e ! k))) [0 ..< length (e_queues e)]
     \<and> (\<exists>reps. spec_requests (abook (e_shard e) V) (head_requests e ks) (abook (e_shard e1) V1) reps
          \<and> emits reps (outs (e_shard e)) = Some (outs (e_shard e1)))
     \<and> (\<forall>a \<in> P1. ord (mem (e_shard e1)) a = ord (mem (e_shard e)) a)"

lemma poll_done_nil: "engine_ok e V P \<Longrightarrow> poll_done e V [] e V P"
  by (auto simp: poll_done_def head_requests_def map_nth intro!: exI [of _ "[]"] spec_requests.none nth_equalityI)

text \<open>Polling one queue.\<close>

lemma poll_one:
  assumes ok: "engine_ok e V P" and k: "k < length (e_queues e)"
    and pop: "lfq_pop (e_queues e ! k) = (r, q)"
  defines "e0 \<equiv> e\<lparr> e_queues := (e_queues e)[k := q] \<rparr>"
  shows "r = None \<Longrightarrow> poll_done e V [k] e0 V P \<and> lfq_items (e_queues e ! k) = []"
    and "r = Some t \<Longrightarrow> \<exists>e1 V1 P1. engine_task e0 t now = Some e1 \<and> poll_done e V [k] e1 V1 P1 \<and> lfq_items (e_queues e ! k) \<noteq> []"
proof -
  let ?q = "e_queues e ! k" and ?qs = "(e_queues e)[k := q]"
  have okq: "lfq_ok ?q" "\<forall>t \<in> set (lfq_items ?q). task_ok t" using ok k by (auto simp: engine_ok_def)
  note sp = lfq.pop_spec [OF okq(1) pop]
  have it: "lfq_items q = tl (lfq_items ?q)" "lfq_ok q" using sp by auto
  have dq: "distinct (queued_orders (e_queues e))" "set (queued_orders (e_queues e)) = P" using ok by (auto simp: engine_ok_def)
  note qo = queued_orders_pop [OF k it(1) dq(1)]
  have tlq: "set (tl (lfq_items ?q)) \<subseteq> set (lfq_items ?q)" by (cases "lfq_items ?q") auto
  have qsok: "\<forall>q \<in> set ?qs. lfq_ok q \<and> (\<forall>t \<in> set (lfq_items q). task_ok t)"
    using ok it okq tlq set_update_subset_insert [of "e_queues e" k q] unfolding engine_ok_def by fastforce
  have c0: "core_ok e0 V P" using ok by (simp add: engine_ok_core core_ok_def e0_def)
  have its: "map lfq_items ?qs = map (\<lambda>j. (if j \<in> set [k] then tl else (\<lambda>x. x)) (lfq_items (e_queues e ! j))) [0 ..< length (e_queues e)]"
    by (rule nth_equalityI) (auto simp: it(1) nth_list_update)
  show "poll_done e V [k] e0 V P \<and> lfq_items ?q = []" if "r = None"
  proof -
    have n: "lfq_items ?q = []" using sp that by (cases "lfq_items ?q") auto
    have "engine_ok e0 V P" using c0 qsok qo dq n by (simp add: engine_ok_core e0_def)
    then show ?thesis using its n spec_requests.none
      by (auto simp: poll_done_def head_requests_def e0_def intro: exI [of _ "[]"])
  qed
  show "\<exists>e1 V1 P1. engine_task e0 t now = Some e1 \<and> poll_done e V [k] e1 V1 P1 \<and> lfq_items ?q \<noteq> []" if rt: "r = Some t"
  proof -
    obtain ts where ts: "lfq_items ?q = t # ts" using sp rt by (cases "lfq_items ?q") auto
    then have o1: "task_orders (take 1 (lfq_items ?q)) = task_orders [t]" by simp
    have "task_ok t" "set (task_orders [t]) \<subseteq> P" using okq(2) ts qo(3) dq(2) o1 by auto
    then obtain e1 V1 where e1: "engine_task e0 t now = Some e1"
      "task_done e0 V [request_of (mem (e_shard e0)) t] e1 V1 (P - set (task_orders [t]))"
      using engine_task_ok [OF c0] by blast
    have "engine_ok e1 V1 (P - set (task_orders [t]))"
      using e1(2) qsok qo(1,2) dq(2) o1 by (simp add: engine_ok_core task_done_def e0_def)
    moreover have "head_requests e [k] = [request_of (mem (e_shard e0)) t]" by (simp add: head_requests_def ts e0_def)
    ultimately have "poll_done e V [k] e1 V1 (P - set (task_orders [t]))"
      using e1(2) its by (simp add: poll_done_def task_done_def e0_def)
    moreover have "lfq_items ?q \<noteq> []" using ts by simp
    ultimately show ?thesis using e1(1) by blast
  qed
qed

lemma head_requests_frame:
  assumes ok1: "engine_ok e1 V1 P1" and fr: "\<forall>a \<in> P1. ord (mem (e_shard e1)) a = ord (mem (e_shard e)) a"
    and ks: "\<forall>k \<in> set ks. k < length (e_queues e1) \<and> lfq_items (e_queues e1 ! k) = lfq_items (e_queues e ! k)"
  shows "head_requests e1 ks = head_requests e ks"
proof -
  have "map (request_of (mem (e_shard e1))) (take 1 (lfq_items (e_queues e1 ! k)))
      = map (request_of (mem (e_shard e))) (take 1 (lfq_items (e_queues e ! k)))" if "k \<in> set ks" for k
  proof (cases "lfq_items (e_queues e1 ! k)")
    case (Cons t ts)
    have "request_of (mem (e_shard e1)) t = request_of (mem (e_shard e)) t"
    proof (cases t)
      case (TNew a i)
      then have "a \<in> P1" using queued_orders_mem [of k "e_queues e1" a i] ks that Cons ok1 by (auto simp: engine_ok_def)
      then show ?thesis using fr TNew by simp
    qed simp
    then show ?thesis using Cons ks that by (metis list.simps(9) map_is_Nil_conv take_Suc_Cons One_nat_def take0)
  qed (use ks that in force)
  then show ?thesis unfolding head_requests_def by (metis (mono_tags, lifting) map_cong)
qed

lemma poll_done_items:
  assumes "poll_done e V ks e1 V1 P1"
  shows "length (e_queues e1) = length (e_queues e)"
    and "j < length (e_queues e) \<Longrightarrow> lfq_items (e_queues e1 ! j) = (if j \<in> set ks then tl else (\<lambda>x. x)) (lfq_items (e_queues e ! j))"
proof -
  have m: "map lfq_items (e_queues e1) = map (\<lambda>k. (if k \<in> set ks then tl else (\<lambda>x. x)) (lfq_items (e_queues e ! k))) [0 ..< length (e_queues e)]"
    using assms by (simp add: poll_done_def)
  show l: "length (e_queues e1) = length (e_queues e)" using arg_cong [OF m, of length] by simp
  show "lfq_items (e_queues e1 ! j) = (if j \<in> set ks then tl else (\<lambda>x. x)) (lfq_items (e_queues e ! j))" if "j < length (e_queues e)"
    using arg_cong [OF m, of "\<lambda>xs. xs ! j"] l that by simp
qed

lemma poll_done_cons:
  assumes a: "poll_done e V [k] e1 V1 P1" and b: "poll_done e1 V1 ks e2 V2 P2" and k: "k \<notin> set ks" "P2 \<subseteq> P1"
    and r: "k < length (e_queues e)" "\<forall>j \<in> set ks. j < length (e_queues e)"
  shows "poll_done e V (k # ks) e2 V2 P2"
proof -
  note la = poll_done_items [OF a] and lb = poll_done_items [OF b]
  have ia: "lfq_items (e_queues e1 ! j) = lfq_items (e_queues e ! j)" if "j \<in> set ks" for j
    using la(2) [of j] that r k by auto
  have h: "head_requests e1 ks = head_requests e ks"
    by (rule head_requests_frame [of e1 V1 P1]) (use a ia la(1) r in \<open>auto simp: poll_done_def\<close>)
  have hs: "head_requests e (k # ks) = head_requests e [k] @ head_requests e ks" by (simp add: head_requests_def)
  obtain r1 r2 where rr: "spec_requests (abook (e_shard e) V) (head_requests e [k]) (abook (e_shard e1) V1) r1"
    "emits r1 (outs (e_shard e)) = Some (outs (e_shard e1))"
    "spec_requests (abook (e_shard e1) V1) (head_requests e ks) (abook (e_shard e2) V2) r2"
    "emits r2 (outs (e_shard e1)) = Some (outs (e_shard e2))" using a b h by (auto simp: poll_done_def)
  have "map lfq_items (e_queues e2) = map (\<lambda>j. (if j \<in> set (k # ks) then tl else (\<lambda>x. x)) (lfq_items (e_queues e ! j))) [0 ..< length (e_queues e)]"
    by (rule nth_equalityI) (use la lb k in auto)
  moreover have "spec_requests (abook (e_shard e) V) (head_requests e (k # ks)) (abook (e_shard e2) V2) (r1 @ r2)"
    "emits (r1 @ r2) (outs (e_shard e)) = Some (outs (e_shard e2))"
    using spec_requests_append [OF rr(1,3)] rr(2,4) hs by (auto simp: emits_append)
  moreover have "engine_ok e2 V2 P2" "e_shard_id e2 = e_shard_id e"
    "\<forall>a \<in> P2. ord (mem (e_shard e2)) a = ord (mem (e_shard e)) a"
    using a b k(2) by (auto simp: poll_done_def subset_iff)
  ultimately show ?thesis unfolding poll_done_def by blast
qed

lemma poll_done_pending: "poll_done e V ks e1 V1 P1 \<Longrightarrow> engine_ok e V P \<Longrightarrow> P1 \<subseteq> P"
proof
  fix a
  assume d: "poll_done e V ks e1 V1 P1" and ok: "engine_ok e V P" and a: "a \<in> P1"
  have m: "\<exists>t. TNew a t \<in> set ts" if "a \<in> set (task_orders ts)" for ts
    using that by (induction ts rule: task_orders.induct) auto
  have "a \<in> set (queued_orders (e_queues e1))" using d a by (simp add: poll_done_def engine_ok_def)
  then obtain j where j: "j < length (e_queues e1)" "a \<in> set (task_orders (lfq_items (e_queues e1 ! j)))"
    by (auto simp: queued_orders_def in_set_conv_nth [of _ "e_queues e1"])
  then obtain t where "TNew a t \<in> set (lfq_items (e_queues e1 ! j))" using m by blast
  then have "TNew a t \<in> set (lfq_items (e_queues e ! j))"
    using poll_done_items [OF d] j(1) by (auto split: if_splits dest: in_set_tlD)
  then show "a \<in> P" using queued_orders_mem [of j "e_queues e" a t] ok j(1) poll_done_items(1) [OF d] by (simp add: engine_ok_def)
qed

lemma poll_queues_ok:
  assumes "engine_ok e V P" and "distinct ks" and "\<forall>k \<in> set ks. k < length (e_queues e)"
  shows "\<exists>e1 V1 P1. poll_queues ks clk f e = Some (f \<or> head_requests e ks \<noteq> [], e1) \<and> poll_done e V ks e1 V1 P1"
  using assms
proof (induction ks arbitrary: e V P f)
  case Nil
  then show ?case using poll_done_nil [of e V P] by (auto simp: head_requests_def)
next
  case (Cons k ks)
  obtain r q where pop: "lfq_pop (e_queues e ! k) = (r, q)" by (cases "lfq_pop (e_queues e ! k)")
  let ?e0 = "e\<lparr> e_queues := (e_queues e)[k := q] \<rparr>"
  have kl: "k < length (e_queues e)" using Cons.prems by simp
  note one = poll_one [OF Cons.prems(1) kl pop]
  obtain e1 V1 P1 where e1: "poll_done e V [k] e1 V1 P1"
    "poll_queues (k # ks) clk f e = poll_queues ks clk (f \<or> lfq_items (e_queues e ! k) \<noteq> []) e1"
  proof (cases r)
    case None
    then show thesis using one(1) that [of ?e0 V P] pop by simp
  next
    case (Some t)
    then show thesis using one(2) [of t "clk k"] that pop by auto
  qed
  have ok1: "engine_ok e1 V1 P1" using e1(1) by (simp add: poll_done_def)
  obtain e2 V2 P2 where e2: "poll_queues ks clk (f \<or> lfq_items (e_queues e ! k) \<noteq> []) e1
      = Some ((f \<or> lfq_items (e_queues e ! k) \<noteq> []) \<or> head_requests e1 ks \<noteq> [], e2)" "poll_done e1 V1 ks e2 V2 P2"
    using Cons.IH [OF ok1, of "f \<or> lfq_items (e_queues e ! k) \<noteq> []"] Cons.prems(2,3) poll_done_items(1) [OF e1(1)] by auto
  have "lfq_items (e_queues e1 ! j) = lfq_items (e_queues e ! j)" if "j \<in> set ks" for j
    using poll_done_items(2) [OF e1(1), of j] that Cons.prems by auto
  then have "head_requests e1 ks = head_requests e ks"
    using head_requests_frame [OF ok1, of e ks] e1(1) Cons.prems poll_done_items(1) [OF e1(1)] by (auto simp: poll_done_def)
  moreover have "head_requests e (k # ks) \<noteq> [] \<longleftrightarrow> lfq_items (e_queues e ! k) \<noteq> [] \<or> head_requests e ks \<noteq> []"
    by (simp add: head_requests_def)
  moreover have "poll_done e V (k # ks) e2 V2 P2"
    by (rule poll_done_cons [OF e1(1) e2(2)]) (use Cons.prems poll_done_pending [OF e2(2) ok1] in auto)
  ultimately show ?case using e1(2) e2(1) by auto
qed


lemma engine_ok_counters:
  "engine_ok (e\<lparr> engine_polls_active := x \<rparr>) V P = engine_ok e V P" "engine_ok (e\<lparr> engine_polls_idle := x \<rparr>) V P = engine_ok e V P"
  by (simp_all add: engine_ok_def)

lemma engine_poll_ok:
  assumes ok: "engine_ok e V P" and qs: "ks = [0 ..< length (e_queues e)]"
  shows "\<exists>e1 V1 P1. engine_poll e clk = Some e1 \<and> poll_done e V ks e1 V1 P1"
proof -
  obtain e1 V1 P1 where e1: "poll_queues ks clk False e = Some (head_requests e ks \<noteq> [], e1)" "poll_done e V ks e1 V1 P1"
    using poll_queues_ok [OF ok, of ks clk False] qs by auto
  let ?e2 = "if head_requests e ks \<noteq> [] then e1\<lparr> engine_polls_active := stat_inc (engine_polls_active e1) \<rparr>
           else e1\<lparr> engine_polls_idle := stat_inc (engine_polls_idle e1) \<rparr>"
  have "engine_poll e clk = Some ?e2" using e1(1) qs by (simp add: engine_poll_def)
  moreover have "poll_done e V ks ?e2 V1 P1" using e1(2)
    by (cases "head_requests e ks = []") (auto simp: poll_done_def engine_ok_counters)
  ultimately show ?thesis by blast
qed

text \<open>Repeated passes: the body of \<open>run\<close> while \<open>running\<close> stays set, with no new tasks arriving.\<close>

fun engine_polls :: "engine \<Rightarrow> (nat \<Rightarrow> nat) list \<Rightarrow> engine option" where
  "engine_polls e [] = Some e"
| "engine_polls e (clk # clks) = do { e1 \<leftarrow> engine_poll e clk; engine_polls e1 clks }"

text \<open>The requests waiting in the queues, in the order the passes take them: pass \<open>i\<close> takes the task at position
  \<open>i\<close> of every queue that is so long.\<close>

definition pass_requests :: "memory \<Rightarrow> EngineTask list list \<Rightarrow> nat \<Rightarrow> request list" where
  "pass_requests m tss i = concat (map (\<lambda>ts. map (request_of m) (take 1 (drop i ts))) tss)"

definition passes_requests :: "memory \<Rightarrow> EngineTask list list \<Rightarrow> nat \<Rightarrow> request list" where
  "passes_requests m tss n = concat (map (pass_requests m tss) [0 ..< n])"

lemma head_requests_pass:
  "head_requests e [0 ..< length (e_queues e)] = pass_requests (mem (e_shard e)) (map lfq_items (e_queues e)) 0"
proof -
  have "map (\<lambda>k. map (request_of (mem (e_shard e))) (take 1 (lfq_items (e_queues e ! k)))) [0 ..< length (e_queues e)]
      = map (\<lambda>q. map (request_of (mem (e_shard e))) (take 1 (lfq_items q))) (e_queues e)"
    by (rule nth_equalityI) auto
  then show ?thesis by (simp add: head_requests_def pass_requests_def o_def)
qed

lemma passes_requests_Suc:
  "passes_requests m tss (Suc n) = pass_requests m tss 0 @ passes_requests m (map tl tss) n"
proof -
  have "[0 ..< Suc n] = 0 # map Suc [0 ..< n]" by (simp add: map_Suc_upt upt_conv_Cons)
  then show ?thesis by (simp add: passes_requests_def pass_requests_def [abs_def] o_def drop_Suc)
qed

lemma passes_requests_cong:
  assumes "\<And>ts t. ts \<in> set tss \<Longrightarrow> t \<in> set ts \<Longrightarrow> request_of m1 t = request_of m t"
  shows "passes_requests m1 tss n = passes_requests m tss n"
proof -
  have "map (request_of m1) (take 1 (drop i ts)) = map (request_of m) (take 1 (drop i ts))" if "ts \<in> set tss" for i ts
    using assms [OF that] set_take_subset [of 1 "drop i ts"] set_drop_subset [of i ts] by (intro map_cong) auto
  then have "pass_requests m1 tss = pass_requests m tss" unfolding pass_requests_def by (metis (mono_tags, lifting) map_cong)
  then show ?thesis by (simp add: passes_requests_def)
qed

lemma request_of_frame:
  assumes ok: "engine_ok e1 V1 P1" and fr: "\<forall>a \<in> P1. ord (mem (e_shard e1)) a = ord (mem (e_shard e)) a"
    and q: "q \<in> set (e_queues e1)" "t \<in> set (lfq_items q)"
  shows "request_of (mem (e_shard e1)) t = request_of (mem (e_shard e)) t"
proof (cases t)
  case (TNew a i)
  obtain k where "k < length (e_queues e1)" "e_queues e1 ! k = q" using q(1) by (meson in_set_conv_nth)
  then have "a \<in> P1" using queued_orders_mem [of k "e_queues e1" a i] q(2) TNew ok by (auto simp: engine_ok_def)
  then show ?thesis using fr TNew by simp
qed simp

lemma engine_polls_ok:
  assumes "engine_ok e V P"
  shows "\<exists>e1 V1 P1 reps. engine_polls e clks = Some e1 \<and> engine_ok e1 V1 P1 \<and> e_shard_id e1 = e_shard_id e
    \<and> spec_requests (abook (e_shard e) V) (passes_requests (mem (e_shard e)) (map lfq_items (e_queues e)) (length clks))
        (abook (e_shard e1) V1) reps
    \<and> emits reps (outs (e_shard e)) = Some (outs (e_shard e1))
    \<and> map lfq_items (e_queues e1) = map (\<lambda>q. drop (length clks) (lfq_items q)) (e_queues e)"
  using assms
proof (induction clks arbitrary: e V P)
  case Nil
  then show ?case using spec_requests.none [of "abook (e_shard e) V"] by (fastforce simp: passes_requests_def)
next
  case (Cons clk clks)
  let ?ks = "[0 ..< length (e_queues e)]" and ?m = "mem (e_shard e)" and ?n = "length clks"
  obtain e1 V1 P1 where e1: "engine_poll e clk = Some e1" "poll_done e V ?ks e1 V1 P1"
    using engine_poll_ok [OF Cons.prems refl] by blast
  then obtain r1 where r1: "spec_requests (abook (e_shard e) V) (head_requests e ?ks) (abook (e_shard e1) V1) r1"
    "emits r1 (outs (e_shard e)) = Some (outs (e_shard e1))" "engine_ok e1 V1 P1" "e_shard_id e1 = e_shard_id e"
    "\<forall>a \<in> P1. ord (mem (e_shard e1)) a = ord (mem (e_shard e)) a"
    by (auto simp: poll_done_def)
  let ?rqs = "passes_requests (mem (e_shard e1)) (map lfq_items (e_queues e1)) ?n"
  obtain e2 V2 P2 r2 where e2: "engine_polls e1 clks = Some e2" "engine_ok e2 V2 P2" "e_shard_id e2 = e_shard_id e1"
    "spec_requests (abook (e_shard e1) V1) ?rqs (abook (e_shard e2) V2) r2" "emits r2 (outs (e_shard e1)) = Some (outs (e_shard e2))"
    "map lfq_items (e_queues e2) = map (\<lambda>q. drop (length clks) (lfq_items q)) (e_queues e1)"
    using Cons.IH [OF r1(3)] by blast
  note it = poll_done_items [OF e1(2)]
  have tls: "map lfq_items (e_queues e1) = map tl (map lfq_items (e_queues e))" by (rule nth_equalityI) (use it in auto)
  have "?rqs = passes_requests ?m (map lfq_items (e_queues e1)) ?n"
    by (rule passes_requests_cong) (use request_of_frame [OF r1(3,5)] in auto)
  then have rq: "passes_requests ?m (map lfq_items (e_queues e)) (length (clk # clks)) = head_requests e ?ks @ ?rqs"
    by (simp add: passes_requests_Suc head_requests_pass tls)
  have "map (\<lambda>q. drop ?n (lfq_items q)) (e_queues e1) = map (drop ?n) (map lfq_items (e_queues e1))" by simp
  also have "\<dots> = map (\<lambda>q. drop (length (clk # clks)) (lfq_items q)) (e_queues e)" unfolding tls by (simp add: drop_Suc)
  finally have "map lfq_items (e_queues e2) = map (\<lambda>q. drop (length (clk # clks)) (lfq_items q)) (e_queues e)" using e2(6) by simp
  moreover have "spec_requests (abook (e_shard e) V) (head_requests e ?ks @ ?rqs) (abook (e_shard e2) V2) (r1 @ r2)"
    "emits (r1 @ r2) (outs (e_shard e)) = Some (outs (e_shard e2))"
    using spec_requests_append [OF r1(1) e2(4)] r1(2) e2(5) by (auto simp: emits_append)
  moreover have "engine_polls e (clk # clks) = Some e2" using e1(1) e2(1) by simp
  ultimately show ?case using e2(2,3) r1(4) rq by metis
qed

section \<open>The start state and the property\<close>

lemma engine_init_ok:
  assumes "shard_id < 4" and "books_ok sh (\<lambda>_. book_init) (\<lambda>_. []) P" and "lfq_ok tscq"
    and "\<forall>q \<in> set qs. lfq_ok q \<and> (\<forall>t \<in> set (lfq_items q). task_ok t)"
    and "distinct (queued_orders qs)" and "set (queued_orders qs) = P"
    and "\<forall>a \<in> P. our_instrument shard_id (instrument_id (mem sh a))"
  shows "engine_ok (engine_init shard_id sh qs tscq) (\<lambda>_. []) P"
  using assms wire_books_ours [OF assms(1)] by (simp add: engine_ok_def engine_init_def)

lemma queued_orders_nil: "\<forall>q \<in> set qs. lfq_items q = [] \<Longrightarrow> queued_orders qs = []"
  by (simp add: queued_orders_def)

text \<open>
  C5. The engine executes everything that was queued. From every state that satisfies the invariant,
  as many passes of \<open>run\<close> as the longest queue is long return (no undefined behaviour in any of the
  handlers), leave every queue empty, and execute the queued requests in round-robin order over the queues
  and first-in first-out order in each, as the book specification says: a new order is matched, a cancel
  removes the resting order whose slot and client token it names and is ignored if there is none. The reports
  emitted are those of the specification and the books are uncrossed.
\<close>

theorem engine_executes_queued:
  assumes "engine_ok e V P" and "\<forall>q \<in> set (e_queues e). length (lfq_items q) \<le> length clks"
  shows "\<exists>e1 V1 reps. engine_polls e clks = Some e1 \<and> engine_ok e1 V1 {}
    \<and> (\<forall>q \<in> set (e_queues e1). lfq_items q = [])
    \<and> spec_requests (abook (e_shard e) V) (passes_requests (mem (e_shard e)) (map lfq_items (e_queues e)) (length clks))
        (abook (e_shard e1) V1) reps
    \<and> emits reps (outs (e_shard e)) = Some (outs (e_shard e1)) \<and> uncrossed (abook (e_shard e1) V1)"
proof -
  obtain e1 V1 P1 reps where e1: "engine_polls e clks = Some e1" "engine_ok e1 V1 P1"
    "spec_requests (abook (e_shard e) V) (passes_requests (mem (e_shard e)) (map lfq_items (e_queues e)) (length clks))
       (abook (e_shard e1) V1) reps"
    "emits reps (outs (e_shard e)) = Some (outs (e_shard e1))"
    "map lfq_items (e_queues e1) = map (\<lambda>q. drop (length clks) (lfq_items q)) (e_queues e)"
    using engine_polls_ok [OF assms(1)] by blast
  have "set (map lfq_items (e_queues e1)) \<subseteq> {[]}" unfolding e1(5) using assms(2) by auto
  then have d: "\<forall>q \<in> set (e_queues e1). lfq_items q = []" by auto
  then have "P1 = {}" using e1(2) queued_orders_nil by (auto simp: engine_ok_def)
  moreover have "uncrossed (abook (e_shard e1) V1)" using e1(2) by (simp add: engine_ok_def books_ok_def uncrossed_abook)
  ultimately show ?thesis using e1 d by blast
qed

text \<open>A concrete engine: shard 0, one worker, two new orders and a cancel in its queue.\<close>

definition sample_tasks :: "EngineTask list" where
  "sample_tasks = [TNew 1 0, TNew 2 0, TCancel 1 11 0]"

definition sample_engine :: engine where
  "sample_engine = engine_init 0 sample_b [snd (push_many lfq_push (lfq_init 524288 (\<lambda>_. TCancel 0 0 0)) sample_tasks)]
     (lfq_init 1048576 (\<lambda>_. (0, 0)))"

lemma sample_engine_ok:
  "engine_ok sample_engine (\<lambda>_. []) {1, 2}" "map lfq_items (e_queues sample_engine) = [sample_tasks]"
  "e_shard sample_engine = sample_b"
proof -
  let ?q0 = "lfq_init 524288 (\<lambda>_. TCancel 0 0 0)"
  obtain d q where p: "push_many lfq_push ?q0 sample_tasks = (d, q)" by (cases "push_many lfq_push ?q0 sample_tasks")
  have "lfq_ok ?q0" "lfq_items ?q0 = []" "lfq_room ?q0 = 524287" using lfq_init_ok [of 19] by auto
  then have q: "lfq_ok q" "lfq_items q = sample_tasks" using lfq.push_many_spec [OF _ p] by (simp_all add: sample_tasks_def)
  have i: "\<forall>a \<in> {1, 2}. instrument_id (mem sample_b a) = 0"
    using sample_b_ok(2,3) sample_orders by (metis insert_iff singletonD ord_sel(6) order.select_convs(6))
  show "engine_ok sample_engine (\<lambda>_. []) {1, 2}"
    unfolding sample_engine_def p snd_conv
    by (rule engine_init_ok) (use q i sample_b_ok(1) lfq_init_ok [of 20] in
        \<open>auto simp: queued_orders_def sample_tasks_def our_instrument_def MAX_ORDERS_LOOKUP_def POOL_CAPACITY_PER_SHARD_def MAX_INSTRUMENTS_def\<close>)
  show "map lfq_items (e_queues sample_engine) = [sample_tasks]" "e_shard sample_engine = sample_b"
    using q by (simp_all add: sample_engine_def engine_init_def p)
qed

theorem engine_executes_queued_witness:
  "\<exists>e1 V1 reps. engine_polls sample_engine [\<lambda>_. 1, \<lambda>_. 2, \<lambda>_. 3] = Some e1 \<and> engine_ok e1 V1 {}
    \<and> (\<forall>q \<in> set (e_queues e1). lfq_items q = [])
    \<and> spec_requests (\<lambda>_. []) [RqNew resting_sell, RqNew pending_buy, RqCancel 1 11] (abook (e_shard e1) V1) reps
    \<and> emits reps (outs sample_b) = Some (outs (e_shard e1)) \<and> uncrossed (abook (e_shard e1) V1)"
proof -
  have "\<forall>q \<in> set (e_queues sample_engine). length (lfq_items q) \<le> length [\<lambda>_::nat. 1::nat, \<lambda>_. 2, \<lambda>_. 3]"
    using sample_engine_ok(2) by (auto simp: sample_tasks_def)
  moreover have "passes_requests (mem sample_b) [sample_tasks] (length [\<lambda>_::nat. 1::nat, \<lambda>_. 2, \<lambda>_. 3])
      = [RqNew resting_sell, RqNew pending_buy, RqCancel 1 11]"
    using sample_b_ok by (simp add: passes_requests_def pass_requests_def sample_tasks_def eval_nat_numeral)
  moreover have "abook sample_b (\<lambda>_. []) = (\<lambda>_. [])" by (simp add: abook_def fun_eq_iff)
  ultimately show ?thesis
    using engine_executes_queued [OF sample_engine_ok(1), of "[\<lambda>_. 1, \<lambda>_. 2, \<lambda>_. 3]"] sample_engine_ok(2,3) by simp
qed

end
