(* ===== verification/Session.thy ===== *)
theory Session
  imports Wire
begin

text \<open>
  The gateway's two look-aside components. \<open>SessionManager\<close>
  (\<open>hft_engine/src/gateway/session_manager.h\<close>) maps an order token to the engine handle, the
  instrument and the owning connection, packed into one 64-bit word per token. \<open>RiskEngine\<close>
  (\<open>hft_engine/src/gateway/risk_engine.h\<close>) is the stateless pre-trade check. The interface
  \<open>token_store\<close> states what the gateway relies on; the lemmas show that the packing loses
  nothing in the ranges the exchange uses and that the risk check's 64-bit product cannot wrap.
\<close>

unbundle bit_operations_syntax

section \<open>SessionManager\<close>

record OrderSessionData =
  sd_internal_id :: u64
  sd_instrument_id :: u16
  sd_client_id :: u32

record SessionManager =
  client_to_internal :: "nat \<Rightarrow> u64"

definition MAX_CLIENT_ORDERS :: nat where "MAX_CLIENT_ORDERS = 50000000"
definition INST_BITS :: nat where "INST_BITS = 8"
definition ID_SHIFT :: nat where "ID_SHIFT = 8"
definition ID_BITS :: nat where "ID_BITS = 20"
definition CLIENT_SHIFT :: nat where "CLIENT_SHIFT = 32"
definition MAX_INTERNAL_ID :: u64 where "MAX_INTERNAL_ID = push_bit ID_BITS 1"

definition session_init :: SessionManager where
  "session_init = \<lparr> client_to_internal = (\<lambda>_. 0) \<rparr>"

definition pack_session :: "u64 \<Rightarrow> u16 \<Rightarrow> u32 \<Rightarrow> u64" where
  "pack_session internal_id instrument_id client_id =
     push_bit CLIENT_SHIFT (ucast client_id) OR push_bit ID_SHIFT internal_id OR ucast instrument_id"

definition unpack_session :: "u64 \<Rightarrow> OrderSessionData" where
  "unpack_session packed =
     \<lparr> sd_internal_id = drop_bit ID_SHIFT packed AND (MAX_INTERNAL_ID - 1),
       sd_instrument_id = ucast (packed AND (push_bit INST_BITS 1 - 1)),
       sd_client_id = ucast (drop_bit CLIENT_SHIFT packed) \<rparr>"

definition record_order ::
  "SessionManager \<Rightarrow> u64 \<Rightarrow> u64 \<Rightarrow> u16 \<Rightarrow> u32 \<Rightarrow> SessionManager" where
  "record_order sm client_order_id internal_id instrument_id client_id =
     (if unat client_order_id < MAX_CLIENT_ORDERS
      then sm\<lparr> client_to_internal := (client_to_internal sm)
             (unat client_order_id := pack_session internal_id instrument_id client_id) \<rparr>
      else sm)"

definition lookup_data :: "SessionManager \<Rightarrow> u64 \<Rightarrow> OrderSessionData" where
  "lookup_data sm client_order_id =
     (if unat client_order_id < MAX_CLIENT_ORDERS
      then unpack_session (client_to_internal sm (unat client_order_id))
      else \<lparr> sd_internal_id = 0, sd_instrument_id = 0, sd_client_id = 0 \<rparr>)"

section \<open>RiskEngine\<close>

record RiskEngine =
  max_order_qty :: u32
  max_price :: u64
  max_notional :: u64

definition default_risk :: RiskEngine where
  "default_risk = \<lparr> max_order_qty = 1000000, max_price = 10000000, max_notional = 10000000000 \<rparr>"

definition check_pre_trade :: "RiskEngine \<Rightarrow> OuchEnterOrder \<Rightarrow> u16 \<Rightarrow> bool" where
  "check_pre_trade re req mapped_inst =
     (if eo_shares req = 0 \<or> eo_shares req > max_order_qty re then False
      else if eo_price req = 0 \<or> (ucast (eo_price req) :: u64) > max_price re then False
      else if (ucast (eo_price req) :: u64) * ucast (eo_shares req) > max_notional re then False
      else if unat mapped_inst \<ge> MAX_INSTRUMENTS then False
      else True)"

section \<open>The packing\<close>

lemmas session_defs = INST_BITS_def ID_SHIFT_def ID_BITS_def CLIENT_SHIFT_def MAX_INTERNAL_ID_def

lemma unpack_pack_session:
  assumes "unat internal_id < 2 ^ 20" and "unat instrument_id < 2 ^ 8"
  shows "unpack_session (pack_session internal_id instrument_id client_id) =
    \<lparr> sd_internal_id = internal_id, sd_instrument_id = instrument_id, sd_client_id = client_id \<rparr>"
proof -
  let ?p = "pack_session internal_id instrument_id client_id"
  have bits: "bit ?p n \<longleftrightarrow> n < 64 \<and> (32 \<le> n \<and> bit client_id (n - 32)
      \<or> 8 \<le> n \<and> bit internal_id (n - 8) \<or> bit instrument_id n)" for n
    by (auto simp: pack_session_def session_defs bit_simps)
  note idb = bit_word_bound [OF assms(1)] and inb = bit_word_bound [OF assms(2)]
  have m20: "(push_bit 20 1 - 1 :: u64) = mask 20" and m8: "(push_bit 8 1 - 1 :: u64) = mask 8"
    by (simp_all add: mask_eq_exp_minus_1)
  have "drop_bit 8 ?p AND mask 20 = internal_id"
  proof (rule bit_eqI)
    fix n assume "possible_bit TYPE(u64) n"
    then show "bit (drop_bit 8 ?p AND mask 20) n = bit internal_id n"
      using idb [of n] inb [of "8 + n"] by (auto simp: bit_simps bits)
  qed
  moreover have "ucast (?p AND mask 8) = instrument_id"
  proof (rule bit_eqI)
    fix n assume "possible_bit TYPE(u16) n"
    then show "bit (ucast (?p AND mask 8) :: u16) n = bit instrument_id n"
      using inb [of n] by (auto simp: bit_simps bits)
  qed
  moreover have "ucast (drop_bit 32 ?p) = client_id"
  proof (rule bit_eqI)
    fix n assume "possible_bit TYPE(u32) n"
    then show "bit (ucast (drop_bit 32 ?p) :: u32) n = bit client_id n"
      using idb [of "24 + n"] inb [of "32 + n"] by (auto simp: bit_simps bits)
  qed
  ultimately show ?thesis
    by (simp only: unpack_session_def session_defs m20 m8)
qed

lemma unpack_zero:
  "unpack_session 0 = \<lparr> sd_internal_id = 0, sd_instrument_id = 0, sd_client_id = 0 \<rparr>"
  by (simp add: unpack_session_def)

section \<open>The interface\<close>

text \<open>
  A store of session data by token, as the gateway uses it: what a lookup returns after a record,
  for the values and tokens in the ranges \<open>fits\<close> and \<open>registrable\<close>.
\<close>

locale token_store =
  fixes rec_order :: "'s \<Rightarrow> u64 \<Rightarrow> u64 \<Rightarrow> u16 \<Rightarrow> u32 \<Rightarrow> 's"
    and lookup :: "'s \<Rightarrow> u64 \<Rightarrow> OrderSessionData"
    and registrable :: "u64 \<Rightarrow> bool"
    and fits :: "u64 \<Rightarrow> u16 \<Rightarrow> bool"
    and empty_store :: 's
  assumes lookup_same: "registrable tok \<Longrightarrow> fits i inst \<Longrightarrow> lookup (rec_order s tok i inst cid) tok =
      \<lparr> sd_internal_id = i, sd_instrument_id = inst, sd_client_id = cid \<rparr>"
    and lookup_other: "tok' \<noteq> tok \<Longrightarrow> lookup (rec_order s tok i inst cid) tok' = lookup s tok'"
    and lookup_empty: "sd_internal_id (lookup empty_store tok) = 0"

text \<open>One registration, and the data of the last registration of a token in a sequence of them.\<close>

type_synonym registration = "u64 \<times> u64 \<times> u16 \<times> u32"

fun last_reg :: "registration list \<Rightarrow> u64 \<Rightarrow> OrderSessionData option" where
  "last_reg [] t = None"
| "last_reg ((tok, i, inst, cid) # rs) t =
     (case last_reg rs t of
        Some d \<Rightarrow> Some d
      | None \<Rightarrow> if tok = t then Some \<lparr> sd_internal_id = i, sd_instrument_id = inst, sd_client_id = cid \<rparr>
                else None)"

context token_store
begin

lemma lookup_fold:
  assumes "\<forall>(tok, i, inst, cid) \<in> set rs. registrable tok \<and> fits i inst"
  shows "lookup (fold (\<lambda>(tok, i, inst, cid) s. rec_order s tok i inst cid) rs s) t =
    (case last_reg rs t of Some d \<Rightarrow> d | None \<Rightarrow> lookup s t)"
  using assms
proof (induction rs arbitrary: s)
  case Nil
  then show ?case by simp
next
  case (Cons r rs)
  obtain tok i inst cid where r: "r = (tok, i, inst, cid)" by (cases r)
  then show ?case
    using Cons by (cases "tok = t") (auto simp: lookup_same lookup_other split: option.splits)
qed

end

definition session_registrable :: "u64 \<Rightarrow> bool" where
  "session_registrable tok \<longleftrightarrow> unat tok < MAX_CLIENT_ORDERS"

definition session_fits :: "u64 \<Rightarrow> u16 \<Rightarrow> bool" where
  "session_fits i inst \<longleftrightarrow> unat i < 2 ^ 20 \<and> unat inst < MAX_INSTRUMENTS"

lemma lookup_record_same:
  "session_registrable tok \<Longrightarrow> session_fits i inst \<Longrightarrow>
     lookup_data (record_order sm tok i inst cid) tok =
       \<lparr> sd_internal_id = i, sd_instrument_id = inst, sd_client_id = cid \<rparr>"
  using unpack_pack_session [of i inst cid]
  by (simp add: lookup_data_def record_order_def session_registrable_def session_fits_def
      MAX_INSTRUMENTS_def)

lemma lookup_record_other:
  "tok' \<noteq> tok \<Longrightarrow> lookup_data (record_order sm tok i inst cid) tok' = lookup_data sm tok'"
  by (auto simp: lookup_data_def record_order_def unsigned_word_eqI)

lemma lookup_init: "sd_internal_id (lookup_data session_init tok) = 0"
  by (simp add: lookup_data_def session_init_def unpack_zero)

interpretation session: token_store record_order lookup_data session_registrable session_fits session_init
  by unfold_locales (erule (1) lookup_record_same, erule lookup_record_other, rule lookup_init)

section \<open>Properties\<close>

text \<open>
  After any sequence of registrations with tokens, handles and instruments in the exchange's
  ranges, \<open>lookup_data\<close> returns exactly what the last registration of that token recorded
  (handle, instrument and owning connection, through the packed 64-bit word), and handle 0 when
  the token was never registered.
\<close>

theorem session_last_registration:
  assumes "\<forall>(tok, i, inst, cid) \<in> set rs. unat tok < MAX_CLIENT_ORDERS \<and> unat i < 2 ^ 20
             \<and> unat inst < MAX_INSTRUMENTS"
  shows "case last_reg rs t of
      Some d \<Rightarrow> lookup_data (fold (\<lambda>(tok, i, inst, cid) sm. record_order sm tok i inst cid) rs session_init) t = d
    | None \<Rightarrow> sd_internal_id
        (lookup_data (fold (\<lambda>(tok, i, inst, cid) sm. record_order sm tok i inst cid) rs session_init) t) = 0"
proof -
  have "\<forall>(tok, i, inst, cid) \<in> set rs. session_registrable tok \<and> session_fits i inst"
    using assms by (auto simp: session_registrable_def session_fits_def)
  from session.lookup_fold [OF this, of session_init t] show ?thesis
    by (simp add: lookup_init split: option.splits)
qed

theorem session_last_registration_witness:
  "lookup_data (record_order (record_order session_init 5 7 3 9) 5 8 4 9) 5 =
     \<lparr> sd_internal_id = 8, sd_instrument_id = 4, sd_client_id = 9 \<rparr>"
  using session_last_registration [of "[(5, 7, 3, 9), (5, 8, 4, 9)]" 5]
  by (simp add: MAX_CLIENT_ORDERS_def MAX_INSTRUMENTS_def)

text \<open>
  The pre-trade check accepts exactly the orders with a positive quantity and price within
  the limits, a notional within the limit, and a real instrument; the 64-bit product of the two
  32-bit fields is the exact notional, so no order passes by wrap-around.
\<close>

theorem check_pre_trade_exact:
  "check_pre_trade re req inst \<longleftrightarrow>
     0 < unat (eo_shares req) \<and> unat (eo_shares req) \<le> unat (max_order_qty re)
     \<and> 0 < unat (eo_price req) \<and> unat (eo_price req) \<le> unat (max_price re)
     \<and> unat (eo_price req) * unat (eo_shares req) \<le> unat (max_notional re)
     \<and> unat inst < MAX_INSTRUMENTS"
proof -
  let ?p = "eo_price req" and ?s = "eo_shares req"
  have u: "unat (ucast x :: u64) = unat x" for x :: u32
    using unat_less [of x] by (simp add: unsigned_ucast_eq take_bit_nat_eq_self_iff)
  have "unat ?p * unat ?s \<le> (2 ^ 32 - 1) * (2 ^ 32 - 1)"
    using unat_less [of ?p] unat_less [of ?s] by (intro mult_le_mono) simp_all
  then have "unat ?p * unat ?s < 2 ^ 64" by simp
  then have "unat ((ucast ?p :: u64) * ucast ?s) = unat ?p * unat ?s"
    by (simp add: unat_word_ariths u)
  then show ?thesis
    by (auto simp: check_pre_trade_def word_less_nat_alt u not_less unat_eq_zero [symmetric])
qed

end
