(* ===== verification/Timer.thy ===== *)
theory Timer
  imports Prelude
begin

text \<open>
  The latency reservoir \<open>Timer\<close> (\<open>hft_engine/src/core/timer.h\<close>): a fixed array filled from the front, a
  counter that may run past its end, and the percentiles \<open>printStats\<close> reads from a sorted copy. The conversion to
  nanoseconds and the average are floating-point arithmetic and are left out; the clock calibration only sets the
  conversion factor.
\<close>

section \<open>The reservoir\<close>

record timer =
  latencies :: "u64 list"
  t_count :: nat

definition timer_init :: "nat \<Rightarrow> timer" where
  "timer_init reserve_size = \<lparr> latencies = replicate reserve_size 0, t_count = 0 \<rparr>"

text \<open>\<open>count.fetch_add(1)\<close> on \<open>size_t\<close> wraps modulo \<open>2^64\<close>.\<close>

definition add_latency :: "timer \<Rightarrow> u64 \<Rightarrow> timer" where
  "add_latency t duration =
     (let idx = t_count t; t1 = t\<lparr> t_count := (idx + 1) mod 2 ^ 64 \<rparr>
      in if idx < length (latencies t) then t1\<lparr> latencies := (latencies t1)[idx := duration] \<rparr> else t1)"

definition timer_clear :: "timer \<Rightarrow> timer" where
  "timer_clear t = t\<lparr> t_count := 0 \<rparr>"

section \<open>The report\<close>

record latency_report =
  lr_orders :: nat
  lr_p50 :: u64
  lr_p99 :: u64
  lr_p999 :: u64
  lr_p9999 :: u64
  lr_max :: u64

text \<open>\<open>printStats\<close>: \<open>None\<close> inside is an index out of range; the outer \<open>None\<close> is the early return on no samples.\<close>

definition print_stats :: "timer \<Rightarrow> latency_report option option" where
  "print_stats t =
     (let c = t_count t
      in if c = 0 then None
         else (let c1 = (if c > length (latencies t) then length (latencies t) else c);
                   s = sort (take c1 (latencies t)); n = length s
               in Some (do {
                    p50 \<leftarrow> list_get s (n div 2);
                    p99 \<leftarrow> list_get s (n * 99 div 100);
                    p999 \<leftarrow> list_get s (n * 999 div 1000);
                    p9999 \<leftarrow> list_get s (n * 9999 div 10000);
                    mx \<leftarrow> (if s = [] then None else Some (last s));
                    Some \<lparr> lr_orders = n, lr_p50 = p50, lr_p99 = p99, lr_p999 = p999, lr_p9999 = p9999, lr_max = mx \<rparr> })))"

section \<open>The samples\<close>

definition timer_ok :: "timer \<Rightarrow> bool" where
  "timer_ok t \<longleftrightarrow> length (latencies t) < 2 ^ 64 \<and> t_count t < 2 ^ 64"

definition samples :: "timer \<Rightarrow> u64 list" where
  "samples t = take (t_count t) (latencies t)"

lemma take_list_update: "i < length xs \<Longrightarrow> take (Suc i) (xs[i := x]) = take i xs @ [x]"
  by (simp add: take_Suc_conv_app_nth)

lemma add_latency_samples:
  assumes "Suc (t_count t) < 2 ^ 64"
  shows "samples (add_latency t d) = take (length (latencies t)) (samples t @ [d])"
    and "t_count (add_latency t d) = Suc (t_count t)"
    and "length (latencies (add_latency t d)) = length (latencies t)"
proof -
  have m: "(t_count t + 1) mod 2 ^ 64 = Suc (t_count t)" using assms by simp
  show "t_count (add_latency t d) = Suc (t_count t)"
    "length (latencies (add_latency t d)) = length (latencies t)"
    using m by (simp_all add: add_latency_def Let_def)
  show "samples (add_latency t d) = take (length (latencies t)) (samples t @ [d])"
  proof (cases "t_count t < length (latencies t)")
    case True
    then show ?thesis using m by (simp add: add_latency_def samples_def Let_def take_list_update)
  next
    case False
    then show ?thesis using m by (simp add: add_latency_def samples_def Let_def)
  qed
qed

lemma take_take_append: "take n (take n xs @ ys) = take n (xs @ ys)"
  by (cases "n \<le> length xs") simp_all

lemma fold_add_latency:
  assumes "t_count t + length ds < 2 ^ 64"
  shows "samples (fold (\<lambda>d u. add_latency u d) ds t) = take (length (latencies t)) (samples t @ ds)
    \<and> t_count (fold (\<lambda>d u. add_latency u d) ds t) = t_count t + length ds
    \<and> length (latencies (fold (\<lambda>d u. add_latency u d) ds t)) = length (latencies t)"
  using assms
proof (induction ds arbitrary: t)
  case Nil
  then show ?case by (simp add: samples_def min_def)
next
  case (Cons d ds)
  have c: "Suc (t_count t) < 2 ^ 64" using Cons.prems by simp
  show ?case using Cons.IH [of "add_latency t d"] Cons.prems add_latency_samples [OF c, of d]
      take_take_append [of "length (latencies t)" "samples t @ [d]" ds] by simp
qed

lemma sorted_nth_le: "sorted xs \<Longrightarrow> i \<le> j \<Longrightarrow> j < length xs \<Longrightarrow> xs ! i \<le> xs ! j"
  by (rule sorted_nth_mono)

lemma percentile_index: "0 < n \<Longrightarrow> k < d \<Longrightarrow> n * k div d < (n :: nat)"
  by (simp add: div_less_iff_less_mult)

lemma percentile_mono: "a * d \<le> b * c \<Longrightarrow> 0 < c \<Longrightarrow> 0 < d \<Longrightarrow> n * a div c \<le> (n :: nat) * b div d"
proof -
  assume h: "a * d \<le> b * c" "0 < c" "0 < d"
  have "n * a div c = n * a * d div (c * d)" using h by (simp add: div_mult_mult2)
  also have "\<dots> \<le> n * b * c div (c * d)" using mult_le_mono2 [OF h(1), of n] by (intro div_le_mono) (simp add: mult.assoc)
  also have "\<dots> = n * b div d" using h div_mult_mult1 [of c "n * b" d] by (simp add: mult.commute)
  finally show ?thesis .
qed

text \<open>
  C20. The latency report is well defined and ordered. Whatever was recorded since the last \<open>clear\<close> (fewer than
  \<open>2^64\<close> samples), \<open>printStats\<close> returns early exactly when nothing was recorded; otherwise every percentile index is
  inside the sorted copy, the window holds the first samples up to the reservoir's size, every percentile is one of
  these samples, they increase from the median to the maximum, and no sample exceeds the maximum.
\<close>

theorem timer_percentiles:
  assumes "0 < n" and "length ds < 2 ^ 64" and "t = fold (\<lambda>d u. add_latency u d) ds (timer_clear (timer_init n))"
  shows "(print_stats t = None \<longleftrightarrow> ds = []) \<and> (ds \<noteq> [] \<longrightarrow> (\<exists>r. print_stats t = Some (Some r)
      \<and> lr_orders r = min n (length ds) \<and> {lr_p50 r, lr_p99 r, lr_p999 r, lr_p9999 r, lr_max r} \<subseteq> set (take n ds)
      \<and> lr_p50 r \<le> lr_p99 r \<and> lr_p99 r \<le> lr_p999 r \<and> lr_p999 r \<le> lr_p9999 r \<and> lr_p9999 r \<le> lr_max r
      \<and> (\<forall>d \<in> set (take n ds). d \<le> lr_max r)))"
proof (intro conjI impI)
  have t0: "samples (timer_clear (timer_init n)) = []" "t_count (timer_clear (timer_init n)) = 0"
    "length (latencies (timer_clear (timer_init n))) = n"
    by (simp_all add: timer_clear_def timer_init_def samples_def)
  have f: "samples t = take n ds" "t_count t = length ds" "length (latencies t) = n"
    using fold_add_latency [of "timer_clear (timer_init n)" ds] assms(2) t0 by (simp_all only: assms(3)) simp_all
  show "print_stats t = None \<longleftrightarrow> ds = []" using f(2) by (simp add: print_stats_def Let_def)
  assume ne: "ds \<noteq> []"
  define s where "s = sort (take n ds)"
  let ?n = "length s"
  have n: "0 < ?n" "?n = min n (length ds)" using ne assms(1) by (auto simp: s_def)
  have ss: "sorted s" "set s = set (take n ds)" by (simp_all add: s_def)
  have c1: "take (if t_count t > length (latencies t) then length (latencies t) else t_count t) (latencies t) = take n ds"
    using f by (cases "n < length ds") (simp_all add: samples_def)
  have ix: "?n div 2 < ?n" "?n * 99 div 100 < ?n" "?n * 999 div 1000 < ?n" "?n * 9999 div 10000 < ?n"
    using n(1) percentile_index [OF n(1), of 1 2] percentile_index [OF n(1), of 99 100] percentile_index [OF n(1), of 999 1000]
      percentile_index [OF n(1), of 9999 10000] by simp_all
  define r where "r = \<lparr> lr_orders = ?n, lr_p50 = s ! (?n div 2), lr_p99 = s ! (?n * 99 div 100), lr_p999 = s ! (?n * 999 div 1000),
    lr_p9999 = s ! (?n * 9999 div 10000), lr_max = last s \<rparr>"
  have sn: "s \<noteq> []" using n(1) by auto
  have "print_stats t = Some (Some r)"
    using ne f(2) ix sn unfolding print_stats_def Let_def c1 s_def [symmetric] by (simp add: arr_simps r_def)
  moreover have "{lr_p50 r, lr_p99 r, lr_p999 r, lr_p9999 r, lr_max r} \<subseteq> set (take n ds)"
    using ix ss(2) last_in_set [OF sn] nth_mem [of _ s] by (auto simp: r_def)
  moreover have le: "s ! i \<le> s ! j" if "i \<le> j" "j < ?n" for i j using sorted_nth_mono [OF ss(1)] that by simp
  have mx: "s ! i \<le> last s" if "i < ?n" for i using le [of i "?n - 1"] that n(1) by (simp add: last_conv_nth [OF sn])
  then have "\<forall>d \<in> set (take n ds). d \<le> lr_max r" using ss(2) by (metis r_def latency_report.select_convs(6) in_set_conv_nth)
  moreover have "lr_p50 r \<le> lr_p99 r" "lr_p99 r \<le> lr_p999 r" "lr_p999 r \<le> lr_p9999 r" "lr_p9999 r \<le> lr_max r"
    using le ix mx percentile_mono [of 1 100 99 2 ?n] percentile_mono [of 99 1000 999 100 ?n] percentile_mono [of 999 10000 9999 1000 ?n]
    by (simp_all add: r_def)
  moreover have "lr_orders r = min n (length ds)" using n by (simp add: r_def)
  ultimately show "\<exists>r. print_stats t = Some (Some r)
      \<and> lr_orders r = min n (length ds) \<and> {lr_p50 r, lr_p99 r, lr_p999 r, lr_p9999 r, lr_max r} \<subseteq> set (take n ds)
      \<and> lr_p50 r \<le> lr_p99 r \<and> lr_p99 r \<le> lr_p999 r \<and> lr_p999 r \<le> lr_p9999 r \<and> lr_p9999 r \<le> lr_max r
      \<and> (\<forall>d \<in> set (take n ds). d \<le> lr_max r)"
    by blast
qed

theorem timer_percentiles_witness:
  "\<exists>r. print_stats (fold (\<lambda>d u. add_latency u d) [30, 10, 20, 40] (timer_clear (timer_init 3))) = Some (Some r)
    \<and> lr_orders r = 3 \<and> (\<forall>d \<in> set (take 3 [30, 10, 20, 40]). d \<le> lr_max r)"
  using timer_percentiles [of 3 "[30, 10, 20, 40]", OF _ _ refl] by auto

end
