(* ===== verification/Gateway.thy ===== *)
theory Gateway
  imports Engine Session Timer
begin

text \<open>
  The ingress side of the gateway (\<open>hft_engine/src/gateway/tcp_server.h\<close>): the receive buffer of a connection and
  the framing loop of \<open>handle_client\<close>, the admission of a new order (decode, risk check, allocation, registration,
  hand-over to the shard's engine) and the forwarding of a cancel.

  The shards are the engines of theory \<open>Engine\<close>: \<open>pools[s]\<close> is the pool in the engine's shard and
  \<open>queues[s][w]\<close> the engine's queue \<open>w\<close>. Clock readings (\<open>rdtscp\<close>) are inputs; the loop
  \<open>while (!push(task)) pause();\<close> on a full queue has the value \<open>None\<close>: it makes no progress until the engine pops.
\<close>

section \<open>Byte buffers\<close>

definition memcpy_at :: "(nat \<Rightarrow> u8) \<Rightarrow> nat \<Rightarrow> bytes \<Rightarrow> nat \<Rightarrow> u8" where
  "memcpy_at buf pos xs = (\<lambda>i. if pos \<le> i \<and> i < pos + length xs then xs ! (i - pos) else buf i)"

definition memmove_front :: "(nat \<Rightarrow> u8) \<Rightarrow> nat \<Rightarrow> nat \<Rightarrow> nat \<Rightarrow> u8" where
  "memmove_front buf from n = (\<lambda>i. if i < n then buf (from + i) else buf i)"

definition span :: "(nat \<Rightarrow> u8) \<Rightarrow> nat \<Rightarrow> nat \<Rightarrow> bytes" where
  "span buf from n = map buf [from ..< from + n]"

section \<open>State\<close>

definition BUF_CAP :: nat where "BUF_CAP = 16384"
definition OUT_BUF_CAP :: nat where "OUT_BUF_CAP = 65536"
definition NUM_SHARDS :: nat where "NUM_SHARDS = 4"

record ClientState =
  cs_buffer :: "nat \<Rightarrow> u8"
  write_pos :: nat
  read_pos :: nat
  cs_client_id :: u32
  out_buf :: "nat \<Rightarrow> u8"
  out_len :: nat
  want_write :: bool

text \<open>A fresh state; the arrays are uninitialised.\<close>

definition client_init :: "(nat \<Rightarrow> u8) \<Rightarrow> (nat \<Rightarrow> u8) \<Rightarrow> ClientState" where
  "client_init ib ob = \<lparr> cs_buffer = ib, write_pos = 0, read_pos = 0, cs_client_id = 0, out_buf = ob, out_len = 0,
                         want_write = False \<rparr>"

text \<open>The counters of the server, all \<open>atomic<uint64_t>\<close>, and its two reservoirs.\<close>

record gw_stats =
  total_udp :: u64
  total_trading :: u64
  total_q :: u64
  total_tcp :: u64
  total_e2e :: u64
  num_samples :: u64
  total_epoll_cycles :: u64
  total_read_cycles :: u64
  total_decode_cycles :: u64
  total_validation_cycles :: u64
  total_enqueue_cycles :: u64
  total_allocate_cycles :: u64
  total_record_cycles :: u64
  total_push_cycles :: u64
  total_orders_processed :: u64
  total_worker_cycles :: u64
  total_epoll_idle_cycles :: u64
  total_drain_cycles :: u64
  e2e_timer :: timer
  tcp_timer :: timer

record gateway =
  gw_engines :: "engine list"
  gw_reject_queues :: "DropCopyMessage lfq list"
  session_manager :: SessionManager
  risk_engine :: RiskEngine
  next_client_id :: u32
  profile_latency :: bool
  gws :: gw_stats

text \<open>The clock readings while one message is handled.\<close>

record stamps =
  st_d1 :: u64
  st_d2 :: u64
  st_v1 :: u64
  st_a1 :: u64
  st_r1 :: u64
  st_e1 :: u64
  st_ingress :: u64

section \<open>Handing over to the engine\<close>

definition upd_engine :: "gateway \<Rightarrow> nat \<Rightarrow> engine \<Rightarrow> gateway" where
  "upd_engine g s e = g\<lparr> gw_engines := (gw_engines g)[s := e] \<rparr>"

definition push_task :: "gateway \<Rightarrow> nat \<Rightarrow> nat \<Rightarrow> EngineTask \<Rightarrow> gateway option" where
  "push_task g s w t = do {
     e \<leftarrow> list_get (gw_engines g) s;
     q \<leftarrow> list_get (e_queues e) w;
     let (pushed, q1) = lfq_push q t;
     if pushed then Some (upd_engine g s (e\<lparr> e_queues := (e_queues e)[w := q1] \<rparr>)) else None }"

definition push_reject :: "gateway \<Rightarrow> nat \<Rightarrow> DropCopyMessage \<Rightarrow> gateway option" where
  "push_reject g w m = do {
     q \<leftarrow> list_get (gw_reject_queues g) w;
     Some (g\<lparr> gw_reject_queues := (gw_reject_queues g)[w := snd (lfq_push q m)] \<rparr>) }"

section \<open>New orders\<close>

definition record_latency :: "gateway \<Rightarrow> OuchEnterOrder \<Rightarrow> u64 \<Rightarrow> gateway" where
  "record_latency g req t5 =
     (if eo_t1_exchange_send req \<noteq> 0 \<and> eo_t2_trading_recv req \<noteq> 0 \<and> eo_t3_trading_enq req \<noteq> 0 \<and> eo_t4_network_deq req \<noteq> 0
      then (let s = gws g;
                s1 = s\<lparr> total_udp := total_udp s + (eo_t2_trading_recv req - eo_t1_exchange_send req),
                        total_trading := total_trading s + (eo_t3_trading_enq req - eo_t2_trading_recv req),
                        total_q := total_q s + (eo_t4_network_deq req - eo_t3_trading_enq req),
                        total_tcp := total_tcp s + (t5 - eo_t4_network_deq req),
                        total_e2e := total_e2e s + (t5 - eo_t1_exchange_send req),
                        num_samples := num_samples s + 1 \<rparr>;
                s2 = (if profile_latency g
                      then s1\<lparr> e2e_timer := add_latency (e2e_timer s1) (t5 - eo_t1_exchange_send req),
                               tcp_timer := add_latency (tcp_timer s1) (t5 - eo_t4_network_deq req) \<rparr>
                      else s1)
            in g\<lparr> gws := s2 \<rparr>)
      else g)"

definition reject_message :: "u64 \<Rightarrow> OuchEnterOrder \<Rightarrow> u16 \<Rightarrow> Side \<Rightarrow> DropCopyMessage" where
  "reject_message echo req inst sd =
     \<lparr> dc_client_order_id = unat echo, dc_internal_id = 0, dc_price = unat (eo_price req), dc_quantity = unat (eo_shares req),
       dc_instrument_id = unat inst, dc_state = REJECTED, dc_side = sd \<rparr>"

definition handle_new :: "gateway \<Rightarrow> nat \<Rightarrow> u32 \<Rightarrow> OuchEnterOrder \<Rightarrow> u64 \<Rightarrow> stamps \<Rightarrow> gateway option" where
  "handle_new g0 w cid req t5 ts =
     (let g = record_latency g0 req t5;
          order_token = decode_order_token (eo_order_token req);
          inst = decode_symbol (eo_stock req);
          sd = (if eo_side req = ch CHR ''B'' then BUY else SELL);
          safe = (unat order_token < MAX_CLIENT_ORDERS \<and> check_pre_trade (risk_engine g) req inst)
      in if \<not> safe then do {
             let echo = (if order_token = INVALID_ORDER_TOKEN then 0 else order_token);
             g1 \<leftarrow> push_reject g w (reject_message echo req inst sd);
             let s = gws g1;
             Some (g1\<lparr> gws := s\<lparr> total_decode_cycles := total_decode_cycles s + (st_d2 ts - st_d1 ts),
                                 total_validation_cycles := total_validation_cycles s + (st_v1 ts - st_d2 ts),
                                 total_enqueue_cycles := total_enqueue_cycles s + (st_e1 ts - st_v1 ts),
                                 total_orders_processed := total_orders_processed s + 1 \<rparr> \<rparr>) }
         else do {
             let shd = unat inst mod NUM_SHARDS;
             e \<leftarrow> list_get (gw_engines g) shd;
             (slot, sh1) \<leftarrow> place_order (e_shard e) w
                (new_Order 0 (unat order_token) (unat cid) (unat (eo_price req)) (unat (eo_shares req)) (unat inst) sd (w mod 2 ^ 16));
             let g1 = upd_engine g shd (e\<lparr> e_shard := sh1 \<rparr>);
             case slot of
               None \<Rightarrow> do {
                 g2 \<leftarrow> push_reject g1 w (reject_message order_token req inst sd);
                 Some (g2\<lparr> gws := (gws g2)\<lparr> total_orders_processed := total_orders_processed (gws g2) + 1 \<rparr> \<rparr>) }
             | Some a \<Rightarrow> do {
                 let g2 = g1\<lparr> session_manager := record_order (session_manager g1) order_token (word_of_nat a) inst cid \<rparr>;
                 g3 \<leftarrow> push_task g2 shd w (TNew a (unat (st_ingress ts)));
                 let s = gws g3;
                 Some (g3\<lparr> gws := s\<lparr> total_decode_cycles := total_decode_cycles s + (st_d2 ts - st_d1 ts),
                                     total_validation_cycles := total_validation_cycles s + (st_v1 ts - st_d2 ts),
                                     total_enqueue_cycles := total_enqueue_cycles s + (st_e1 ts - st_v1 ts),
                                     total_allocate_cycles := total_allocate_cycles s + (st_a1 ts - st_v1 ts),
                                     total_record_cycles := total_record_cycles s + (st_r1 ts - st_a1 ts),
                                     total_push_cycles := total_push_cycles s + (st_e1 ts - st_r1 ts),
                                     total_orders_processed := total_orders_processed s + 1 \<rparr> \<rparr>) } })"

section \<open>Cancels\<close>

definition handle_cancel :: "gateway \<Rightarrow> nat \<Rightarrow> u32 \<Rightarrow> OuchCancelOrder \<Rightarrow> stamps \<Rightarrow> gateway option" where
  "handle_cancel g w cid req ts = do {
     let order_token = decode_order_token (co_order_token req);
     let data = (if unat order_token < MAX_CLIENT_ORDERS then lookup_data (session_manager g) order_token
                 else \<lparr> sd_internal_id = 0, sd_instrument_id = 0, sd_client_id = 0 \<rparr>);
     g1 \<leftarrow> (if sd_internal_id data \<noteq> 0 \<and> sd_client_id data = cid
            then push_task g (unat (sd_instrument_id data) mod NUM_SHARDS) w
                   (TCancel (unat (sd_internal_id data)) (unat order_token) (unat (st_ingress ts)))
            else Some g);
     let s = gws g1;
     Some (g1\<lparr> gws := s\<lparr> total_decode_cycles := total_decode_cycles s + (st_d2 ts - st_d1 ts),
                         total_enqueue_cycles := total_enqueue_cycles s + (st_e1 ts - st_d2 ts),
                         total_orders_processed := total_orders_processed s + 1 \<rparr> \<rparr>) }"

section \<open>The framing loop\<close>

definition msg_size :: "u8 \<Rightarrow> nat option" where
  "msg_size msg_type =
     (if msg_type = ch CHR ''O'' then Some sizeof_OuchEnterOrder
      else if msg_type = ch CHR ''X'' then Some sizeof_OuchCancelOrder
      else None)"

text \<open>One complete message.\<close>

definition handle_frame :: "gateway \<Rightarrow> nat \<Rightarrow> u32 \<Rightarrow> bytes \<Rightarrow> u64 \<Rightarrow> stamps \<Rightarrow> gateway option" where
  "handle_frame g w cid b t5 ts =
     (if b ! 0 = ch CHR ''O'' then handle_new g w cid (dec_enter_order b) t5 ts
      else handle_cancel g w cid (dec_cancel_order b) ts)"

lemma msg_size_pos: "msg_size c = Some n \<Longrightarrow> 0 < n \<and> n \<le> 81"
  by (auto simp: msg_size_def sizeof_OuchEnterOrder_def sizeof_OuchCancelOrder_def split: if_splits)

text \<open>\<open>while (state.write_pos - state.read_pos >= 1)\<close>. The result says whether the connection is to be closed.
  \<open>clk k\<close> are the clock readings of the message number \<open>k\<close> of this call.\<close>

function parse_loop :: "gateway \<Rightarrow> nat \<Rightarrow> ClientState \<Rightarrow> u64 \<Rightarrow> (nat \<Rightarrow> stamps) \<Rightarrow> nat \<Rightarrow> (bool \<times> gateway \<times> ClientState \<times> nat) option" where
  "parse_loop g w st t5 clk k =
     (if write_pos st - read_pos st \<ge> 1 then
        (case msg_size (cs_buffer st (read_pos st)) of
           None \<Rightarrow> Some (True, g, st, k)
         | Some n \<Rightarrow>
             if write_pos st - read_pos st < n then Some (False, g, st, k)
             else do {
               g1 \<leftarrow> handle_frame g w (cs_client_id st) (span (cs_buffer st) (read_pos st) n) t5 (clk k);
               parse_loop g1 w (st\<lparr> read_pos := read_pos st + n \<rparr>) t5 clk (Suc k) })
      else Some (False, g, st, k))"
  by pat_completeness auto
termination
  by (relation "measure (\<lambda>(g, w, st, t5, clk, k). write_pos st - read_pos st)") (auto dest: msg_size_pos)

declare parse_loop.simps [simp del]

section \<open>Reading a connection\<close>

text \<open>
  The kernel's side of a connection: the bytes received and not yet read, the bytes that arrive before each of
  the following calls of \<open>read\<close>, and what the peer does after them.
\<close>

datatype peer = PeerOpen | PeerClosed | PeerFailed
datatype read_result = RData bytes | REof | RAgain | RError

record inbound =
  rx :: bytes
  arriving :: "bytes list"
  fin :: peer

definition sys_read :: "nat \<Rightarrow> inbound \<Rightarrow> read_result \<times> inbound" where
  "sys_read n s =
     (let avail = rx s @ concat (take 1 (arriving s)); s1 = s\<lparr> arriving := tl (arriving s) \<rparr>
      in if avail \<noteq> [] then (RData (take n avail), s1\<lparr> rx := drop n avail \<rparr>)
         else if arriving s1 \<noteq> [] then (RAgain, s1\<lparr> rx := [] \<rparr>)
         else (case fin s of PeerOpen \<Rightarrow> RAgain | PeerClosed \<Rightarrow> REof | PeerFailed \<Rightarrow> RError, s1\<lparr> rx := [] \<rparr>))"

text \<open>Reclaiming buffer space at the top of the loop.\<close>

definition reclaim :: "ClientState \<Rightarrow> ClientState" where
  "reclaim st =
     (if read_pos st = write_pos st then st\<lparr> read_pos := 0, write_pos := 0 \<rparr>
      else if read_pos st > 0 then
        (let frag = write_pos st - read_pos st
         in st\<lparr> cs_buffer := memmove_front (cs_buffer st) (read_pos st) frag, write_pos := frag, read_pos := 0 \<rparr>)
      else st)"

text \<open>The bytes still to come, in order: \<open>read\<close> removes a prefix of them.\<close>

definition to_come :: "inbound \<Rightarrow> bytes" where
  "to_come s = rx s @ concat (arriving s)"

lemma to_come_split: "to_come s = (rx s @ concat (take 1 (arriving s))) @ concat (tl (arriving s))"
  by (cases "arriving s") (auto simp: to_come_def)

lemma sys_read_data:
  assumes r: "sys_read n s = (RData bs, s1)" and n: "0 < n"
  shows "bs \<noteq> []" and "length bs \<le> n" and "to_come s = bs @ to_come s1" and "fin s1 = fin s"
proof -
  define av where "av = rx s @ concat (take 1 (arriving s))"
  have d: "bs = take n av" "s1 = s\<lparr> arriving := tl (arriving s), rx := drop n av \<rparr>" "av \<noteq> []"
    using r unfolding sys_read_def av_def [symmetric] by (auto simp: Let_def split: if_splits peer.splits)
  show "bs \<noteq> []" "length bs \<le> n" "fin s1 = fin s" using d n by auto
  show "to_come s = bs @ to_come s1" unfolding to_come_split [of s] av_def [symmetric] by (simp add: d to_come_def)
qed

lemma sys_read_other:
  assumes "sys_read n s = (r, s1)" and "\<And>bs. r \<noteq> RData bs"
  shows "to_come s = to_come s1" and "r = REof \<or> r = RError \<Longrightarrow> to_come s1 = []" and "fin s1 = fin s"
    and "r = REof \<Longrightarrow> fin s = PeerClosed" and "r = RError \<Longrightarrow> fin s = PeerFailed"
proof -
  define av where "av = rx s @ concat (take 1 (arriving s))"
  have d: "s1 = s\<lparr> arriving := tl (arriving s), rx := [] \<rparr>" "av = []" "r = REof \<or> r = RError \<Longrightarrow> tl (arriving s) = []"
    "r = REof \<Longrightarrow> fin s = PeerClosed" "r = RError \<Longrightarrow> fin s = PeerFailed"
    using assms unfolding sys_read_def av_def [symmetric] by (auto simp: Let_def split: if_splits peer.splits)
  show "to_come s = to_come s1" unfolding to_come_split [of s] av_def [symmetric] by (simp add: d(1,2) to_come_def)
  show "r = REof \<or> r = RError \<Longrightarrow> to_come s1 = []" "fin s1 = fin s" using d(1,3) by (auto simp: to_come_def)
  show "r = REof \<Longrightarrow> fin s = PeerClosed" "r = RError \<Longrightarrow> fin s = PeerFailed" by (rule d(4,5); assumption)+
qed

lemma sys_read_less: "sys_read n s = (RData bs, s1) \<Longrightarrow> 0 < n \<Longrightarrow> length (to_come s1) < length (to_come s)"
  using sys_read_data(1,3) [of n s bs s1] by simp

text \<open>The \<open>while (true)\<close> loop of \<open>handle_client\<close>; \<open>rclk j\<close> are the readings \<open>r1, r2\<close> around read number \<open>j\<close>.
  The flag says that \<open>close_client\<close> is called.\<close>

function read_loop :: "gateway \<Rightarrow> nat \<Rightarrow> ClientState \<Rightarrow> inbound \<Rightarrow> (nat \<Rightarrow> u64 \<times> u64) \<Rightarrow> nat \<Rightarrow> (nat \<Rightarrow> stamps) \<Rightarrow> nat \<Rightarrow>
    (bool \<times> gateway \<times> ClientState \<times> inbound) option" where
  "read_loop g w st0 s rclk j clk k =
     (let st = reclaim st0; remaining_space = BUF_CAP - write_pos st
      in if remaining_space = 0 then Some (True, g, st, s)
         else (case sys_read remaining_space s of
             (RData bs, s1) \<Rightarrow> do {
               let g1 = g\<lparr> gws := (gws g)\<lparr> total_read_cycles := total_read_cycles (gws g) + (snd (rclk j) - fst (rclk j)) \<rparr> \<rparr>;
               let st1 = st\<lparr> cs_buffer := memcpy_at (cs_buffer st) (write_pos st) bs, write_pos := write_pos st + length bs \<rparr>;
               (bad, g2, st2, k2) \<leftarrow> parse_loop g1 w st1 (snd (rclk j)) clk k;
               if bad then Some (True, g2, st2, s1) else read_loop g2 w st2 s1 rclk (Suc j) clk k2 }
           | (REof, s1) \<Rightarrow> Some (True, g, st, s1)
           | (RError, s1) \<Rightarrow> Some (True, g, st, s1)
           | (RAgain, s1) \<Rightarrow> Some (False, g, st, s1)))"
  by pat_completeness auto
termination
  by (relation "measure (\<lambda>(g, w, st, s, rclk, j, clk, k). length (to_come s))") (auto dest!: sys_read_less [OF sym])

declare read_loop.simps [simp del]

end
