(* ===== verification/Gateway_Framing.thy ===== *)
theory Gateway_Framing
  imports Gateway
begin

text \<open>
  The framing of the inbound byte stream. A reference definition \<open>frames\<close> cuts a whole stream into messages;
  the lemmas show that the receive buffer with its compaction and the two loops of \<open>handle_client\<close> handle exactly the
  messages of the bytes read so far, however the stream was segmented, and that the buffer never fills up.
\<close>

section \<open>The reference framing\<close>

text \<open>The complete messages at the front of a stream, the bytes left, and whether they start with an unknown type.\<close>

function frames :: "bytes \<Rightarrow> bytes list \<times> bytes \<times> bool" where
  "frames bs =
     (case bs of [] \<Rightarrow> ([], [], False)
      | c # _ \<Rightarrow>
          (case msg_size c of None \<Rightarrow> ([], bs, True)
           | Some n \<Rightarrow>
               if length bs < n then ([], bs, False)
               else (let (fs, rest, bad) = frames (drop n bs) in (take n bs # fs, rest, bad))))"
  by pat_completeness auto
termination
  by (relation "measure length") (auto dest: msg_size_pos)

declare frames.simps [simp del]

lemma frames_Nil [simp]: "frames [] = ([], [], False)"
  by (simp add: frames.simps)

lemma frames_bad: "bs \<noteq> [] \<Longrightarrow> msg_size (hd bs) = None \<Longrightarrow> frames bs = ([], bs, True)"
  by (cases bs; simp add: frames.simps)

lemma frames_short: "bs \<noteq> [] \<Longrightarrow> msg_size (hd bs) = Some n \<Longrightarrow> length bs < n \<Longrightarrow> frames bs = ([], bs, False)"
  by (cases bs; simp add: frames.simps)

lemma frames_message:
  "bs \<noteq> [] \<Longrightarrow> msg_size (hd bs) = Some n \<Longrightarrow> n \<le> length bs \<Longrightarrow> frames (drop n bs) = (fs, rest, bad) \<Longrightarrow>
   frames bs = (take n bs # fs, rest, bad)"
  by (cases bs; simp add: frames.simps)

text \<open>An induction over the three ways a stream starts.\<close>

lemma frames_cases [case_names empty bad short message]:
  assumes "bs = [] \<Longrightarrow> thesis" and "bs \<noteq> [] \<Longrightarrow> msg_size (hd bs) = None \<Longrightarrow> thesis"
    and "\<And>n. bs \<noteq> [] \<Longrightarrow> msg_size (hd bs) = Some n \<Longrightarrow> length bs < n \<Longrightarrow> thesis"
    and "\<And>n. bs \<noteq> [] \<Longrightarrow> msg_size (hd bs) = Some n \<Longrightarrow> n \<le> length bs \<Longrightarrow> thesis"
  shows thesis
  using assms by (cases "bs = []"; cases "msg_size (hd bs)") (auto simp: not_less [symmetric])

lemma frames_append:
  "frames xs = (fs, rest, bad) \<Longrightarrow>
   frames (xs @ ys) = (if bad then (fs, rest @ ys, True) else (let (gs, r, b) = frames (rest @ ys) in (fs @ gs, r, b)))"
proof (induction "length xs" arbitrary: xs fs rest bad rule: less_induct)
  case less
  show ?case
  proof (cases xs rule: frames_cases)
    case empty
    then show ?thesis using less.prems by (simp split: prod.splits)
  next
    case bad
    then have x: "fs = []" "rest = xs" "bad" using less.prems frames_bad [of xs] by auto
    show ?thesis using frames_bad [of "xs @ ys"] bad by (simp add: x)
  next
    case (short n)
    then show ?thesis using less.prems frames_short [of xs n] by (auto split: prod.splits)
  next
    case (message n)
    obtain gs r b where d: "frames (drop n xs) = (gs, r, b)" by (metis prod_cases3)
    have x: "fs = take n xs # gs" "rest = r" "bad = b" using less.prems frames_message [OF message d] by auto
    have l: "length (drop n xs) < length xs" using message msg_size_pos [OF message(2)] by simp
    have a: "xs @ ys \<noteq> []" "msg_size (hd (xs @ ys)) = Some n" "n \<le> length (xs @ ys)"
      "drop n (xs @ ys) = drop n xs @ ys" "take n (xs @ ys) = take n xs" using message by auto
    show ?thesis
      using less.hyps [OF l d] frames_message [OF a(1-3)] a(4,5) x
      by (auto split: if_splits prod.splits)
  qed
qed

lemma frames_rest:
  "frames xs = (fs, rest, bad) \<Longrightarrow> xs = concat fs @ rest \<and> (\<not> bad \<longrightarrow> length rest < 81 \<and> frames rest = ([], rest, False))"
proof (induction "length xs" arbitrary: xs fs rest bad rule: less_induct)
  case less
  show ?case
  proof (cases xs rule: frames_cases)
    case (short n)
    then show ?thesis using less.prems frames_short [of xs n] msg_size_pos [of "hd xs" n] by auto
  next
    case (message n)
    obtain gs r b where d: "frames (drop n xs) = (gs, r, b)" by (metis prod_cases3)
    have l: "length (drop n xs) < length xs" using message msg_size_pos [OF message(2)] by simp
    have "drop n xs = concat gs @ r" using less.hyps [OF l d] by simp
    then have "xs = take n xs @ concat gs @ r" by (metis append_take_drop_id)
    then show ?thesis using less.hyps [OF l d] less.prems frames_message [OF message d] by auto
  qed (use less.prems frames_bad [of xs] in auto)
qed

section \<open>Handling a list of messages\<close>

fun run_frames :: "gateway \<Rightarrow> nat \<Rightarrow> u32 \<Rightarrow> bytes list \<Rightarrow> u64 \<Rightarrow> (nat \<Rightarrow> stamps) \<Rightarrow> nat \<Rightarrow> gateway option" where
  "run_frames g w cid [] t5 clk k = Some g"
| "run_frames g w cid (f # fs) t5 clk k = do { g1 \<leftarrow> handle_frame g w cid f t5 (clk k); run_frames g1 w cid fs t5 clk (Suc k) }"

lemma run_frames_append:
  "run_frames g w cid (fs @ gs) t5 clk k = do { g1 \<leftarrow> run_frames g w cid fs t5 clk k; run_frames g1 w cid gs t5 clk (k + length fs) }"
  by (induction fs arbitrary: g k) (simp_all split: bind_splits)

definition unread :: "ClientState \<Rightarrow> bytes" where
  "unread st = span (cs_buffer st) (read_pos st) (write_pos st - read_pos st)"

lemma length_span [simp]: "length (span buf a n) = n"
  by (simp add: span_def)

lemma span_drop: "i \<le> n \<Longrightarrow> drop i (span buf a n) = span buf (a + i) (n - i)"
  by (simp add: span_def drop_map)

lemma span_take: "i \<le> n \<Longrightarrow> take i (span buf a n) = span buf a i"
  by (simp add: span_def take_map take_upt)

lemma span_hd: "0 < n \<Longrightarrow> hd (span buf a n) = buf a"
  by (simp add: span_def hd_map)

lemma parse_loop_frames:
  "frames (unread st) = (fs, rest, bad) \<Longrightarrow> read_pos st \<le> write_pos st \<Longrightarrow>
   parse_loop g w st t5 clk k =
     (case run_frames g w (cs_client_id st) fs t5 clk k of None \<Rightarrow> None
      | Some g1 \<Rightarrow> Some (bad, g1, st\<lparr> read_pos := write_pos st - length rest \<rparr>, k + length fs))"
proof (induction "length (unread st)" arbitrary: st fs g k rule: less_induct)
  case less
  let ?u = "unread st" and ?n = "write_pos st - read_pos st"
  have len: "length ?u = ?n" by (simp add: unread_def)
  have hdu: "?u \<noteq> [] \<Longrightarrow> cs_buffer st (read_pos st) = hd ?u"
    using len span_hd [of ?n "cs_buffer st" "read_pos st"] unfolding unread_def by (metis length_greater_0_conv)
  have ne: "?u \<noteq> [] \<Longrightarrow> Suc 0 \<le> ?n" using len by (cases ?u) auto
  show ?case
  proof (cases ?u rule: frames_cases)
    case empty
    then show ?thesis using less.prems len by (subst parse_loop.simps) auto
  next
    case bad
    then show ?thesis using less.prems len hdu ne frames_bad [of ?u] by (subst parse_loop.simps) auto
  next
    case (short m)
    then show ?thesis using less.prems len hdu ne frames_short [of ?u m] by (subst parse_loop.simps) auto
  next
    case (message m)
    let ?st = "st\<lparr> read_pos := read_pos st + m \<rparr>"
    have m: "0 < m" using msg_size_pos [OF message(2)] by simp
    have u: "unread ?st = drop m ?u" "take m ?u = span (cs_buffer st) (read_pos st) m"
      using message(3) len by (auto simp: unread_def span_drop span_take)
    obtain gs r b where d: "frames (drop m ?u) = (gs, r, b)" by (metis prod_cases3)
    have x: "fs = take m ?u # gs" "rest = r" "bad = b" using less.prems frames_message [OF message d] by auto
    have l: "length (unread ?st) < length ?u" unfolding u using message m by simp
    have "parse_loop g1 w ?st t5 clk (Suc k) =
      (case run_frames g1 w (cs_client_id st) gs t5 clk (Suc k) of None \<Rightarrow> None
       | Some g1 \<Rightarrow> Some (b, g1, st\<lparr> read_pos := write_pos st - length r \<rparr>, Suc k + length gs))" for g1
      using less.hyps [OF l] d message(3) len less.prems(2) x(2,3) by (simp add: u(1) split: option.splits)
    then show ?thesis using message len hdu ne less.prems
      by (subst parse_loop.simps) (auto simp: x u(2) split: bind_splits option.splits)
  qed
qed


section \<open>States that differ in their counters\<close>

text \<open>The counters of the server have no influence on what happens to the orders.\<close>

definition core_eq :: "gateway \<Rightarrow> gateway \<Rightarrow> bool" where
  "core_eq g h \<longleftrightarrow> h = g\<lparr> gws := gws h \<rparr>"

lemma core_eq_refl [simp]: "core_eq g g"
  by (simp add: core_eq_def)

lemma core_eq_gws [simp]: "core_eq g (g\<lparr> gws := x \<rparr>)" "core_eq (g\<lparr> gws := x \<rparr>) g"
  by (simp_all add: core_eq_def)

lemma core_eq_gws_iff [simp]:
  "core_eq (g\<lparr> gws := x \<rparr>) h = core_eq g h" "core_eq g (h\<lparr> gws := y \<rparr>) = core_eq g h"
  by (auto simp: core_eq_def) (metis gateway.surjective gateway.update_convs(7))+

lemma core_eq_trans: "core_eq g h \<Longrightarrow> core_eq h i \<Longrightarrow> core_eq g i"
  unfolding core_eq_def by (metis gateway.surjective gateway.update_convs(7))

lemma core_eqE:
  assumes "core_eq g h"
  obtains x where "h = g\<lparr> gws := x \<rparr>"
  using assms by (auto simp: core_eq_def)

lemma record_latency_gws: "\<exists>x. record_latency g req t5 = g\<lparr> gws := x \<rparr>"
  by (cases g) (auto simp: record_latency_def Let_def)

lemma push_reject_gws:
  "push_reject (g\<lparr> gws := x \<rparr>) w m = map_option (\<lambda>g. g\<lparr> gws := x \<rparr>) (push_reject g w m)"
  by (simp add: push_reject_def list_get_def)

lemma push_task_gws:
  "push_task (g\<lparr> gws := x \<rparr>) s w t = map_option (\<lambda>g. g\<lparr> gws := x \<rparr>) (push_task g s w t)"
  by (simp add: push_task_def list_get_def upd_engine_def split: prod.splits)

lemma handle_cancel_core: "rel_option core_eq (handle_cancel g w cid req ts) (handle_cancel (g\<lparr> gws := x \<rparr>) w cid req ts)"
  by (simp add: handle_cancel_def push_task_gws Let_def option.rel_map split: bind_splits)

lemma upd_engine_gws: "upd_engine (g\<lparr> gws := x \<rparr>) s e = (upd_engine g s e)\<lparr> gws := x \<rparr>"
  by (simp add: upd_engine_def)

lemma session_gws:
  "(g\<lparr> gws := x \<rparr>)\<lparr> session_manager := record_order (session_manager (g\<lparr> gws := x \<rparr>)) tok a i c \<rparr>
     = (g\<lparr> session_manager := record_order (session_manager g) tok a i c \<rparr>)\<lparr> gws := x \<rparr>"
  by simp

lemma rel_bind_same: "(\<And>a. rel_option R (f a) (f1 a)) \<Longrightarrow> rel_option R (A \<bind> f) (A \<bind> f1)"
  by (cases A) auto

lemma rel_bind_map:
  "(\<And>a. rel_option R (f (n a)) (f1 (m a))) \<Longrightarrow> rel_option R (map_option n A \<bind> f) (map_option m A \<bind> f1)"
  by (cases A) auto

lemma handle_new_core:
  "rel_option core_eq (handle_new g w cid req t5 ts) (handle_new (g\<lparr> gws := x \<rparr>) w cid req t6 ts)"
proof -
  obtain y z where r: "record_latency g req t5 = g\<lparr> gws := y \<rparr>" "record_latency (g\<lparr> gws := x \<rparr>) req t6 = g\<lparr> gws := z \<rparr>"
    using record_latency_gws [of g req t5] record_latency_gws [of "g\<lparr> gws := x \<rparr>" req t6] by auto
  let ?safe = "unat (decode_order_token (eo_order_token req)) < MAX_CLIENT_ORDERS \<and> check_pre_trade (risk_engine g) req (decode_symbol (eo_stock req))"
  show ?thesis
  proof (cases ?safe)
    case False
    then show ?thesis unfolding handle_new_def Let_def r
      by (simp add: push_reject_gws del: de_Morgan_conj split del: if_split) (intro rel_bind_map, simp)
  next
    case True
    then show ?thesis unfolding handle_new_def Let_def r
      apply (simp split del: if_split)
      apply (rule rel_bind_same)+
      apply (simp split: prod.split option.split split del: if_split)
      apply (intro allI conjI impI)
       apply (simp only: upd_engine_gws push_reject_gws, rule rel_bind_map, simp)
      apply (simp only: upd_engine_gws session_gws push_task_gws, rule rel_bind_map, simp)
      done
  qed
qed

lemma handle_frame_core:
  "core_eq g h \<Longrightarrow> rel_option core_eq (handle_frame g w cid b t5 ts) (handle_frame h w cid b t6 ts)"
  by (elim core_eqE) (simp add: handle_frame_def handle_new_core handle_cancel_core)

lemma run_frames_core:
  "core_eq g h \<Longrightarrow> rel_option core_eq (run_frames g w cid fs t5 clk k) (run_frames h w cid fs t6 clk k)"
proof (induction fs arbitrary: g h k)
  case (Cons f fs)
  show ?case using handle_frame_core [OF Cons.prems, of w cid f t5 "clk k" t6] Cons.IH
    by (cases "handle_frame g w cid f t5 (clk k)"; cases "handle_frame h w cid f t6 (clk k)") auto
qed simp

lemma run_frames_coreD:
  assumes "run_frames g w cid fs t5 clk k = Some g1" and "core_eq g h"
  obtains h1 where "run_frames h w cid fs t6 clk k = Some h1" "core_eq g1 h1"
  using run_frames_core [OF assms(2), of w cid fs t5 clk k t6] assms(1) by (cases "run_frames h w cid fs t6 clk k") auto

section \<open>The read loop\<close>

text \<open>The state of a connection between calls: the unread bytes are the beginning of one message.\<close>

definition client_ok :: "ClientState \<Rightarrow> bool" where
  "client_ok st \<longleftrightarrow> read_pos st \<le> write_pos st \<and> write_pos st \<le> BUF_CAP \<and> frames (unread st) = ([], unread st, False)"

lemma reclaim_simps:
  assumes "read_pos st \<le> write_pos st"
  shows "read_pos (reclaim st) = 0" and "write_pos (reclaim st) = length (unread st)" and "unread (reclaim st) = unread st"
    and "cs_client_id (reclaim st) = cs_client_id st"
proof -
  have "map (memmove_front (cs_buffer st) (read_pos st) n) [0 ..< n] = map (cs_buffer st) [read_pos st ..< read_pos st + n]" for n
    by (rule nth_equalityI) (auto simp: memmove_front_def)
  then show "read_pos (reclaim st) = 0" "write_pos (reclaim st) = length (unread st)" "unread (reclaim st) = unread st"
    "cs_client_id (reclaim st) = cs_client_id st"
    using assms by (auto simp: reclaim_def unread_def span_def Let_def)
qed

lemma append_unread:
  assumes "read_pos st = 0"
  shows "unread (st\<lparr> cs_buffer := memcpy_at (cs_buffer st) (write_pos st) bs, write_pos := write_pos st + length bs \<rparr>) = unread st @ bs"
  using assms by (intro nth_equalityI) (auto simp: unread_def span_def memcpy_at_def nth_append)

lemma parse_unread:
  "frames (unread st) = (fs, rest, bad) \<Longrightarrow> read_pos st \<le> write_pos st \<Longrightarrow>
   unread (st\<lparr> read_pos := write_pos st - length rest \<rparr>) = rest \<and> length rest \<le> write_pos st"
proof -
  assume f: "frames (unread st) = (fs, rest, bad)" and p: "read_pos st \<le> write_pos st"
  have u: "unread st = concat fs @ rest" using frames_rest [OF f] by simp
  then have l: "length (concat fs) + length rest = write_pos st - read_pos st" by (metis length_append length_span unread_def)
  have "rest = drop (length (concat fs)) (unread st)" by (simp add: u)
  also have "\<dots> = span (cs_buffer st) (read_pos st + length (concat fs)) (write_pos st - read_pos st - length (concat fs))"
    using l by (simp add: unread_def span_drop)
  finally have "rest = span (cs_buffer st) (write_pos st - length rest) (length rest)" using l p by (simp add: algebra_simps)
  then show ?thesis using l by (simp add: unread_def)
qed

text \<open>The effect of a call on the connection and the exchange, in terms of the bytes \<open>c\<close> it read.\<close>

definition handled :: "gateway \<Rightarrow> nat \<Rightarrow> ClientState \<Rightarrow> inbound \<Rightarrow> (nat \<Rightarrow> stamps) \<Rightarrow> nat \<Rightarrow> bool \<times> gateway \<times> ClientState \<times> inbound \<Rightarrow> bool" where
  "handled g w st s clk k = (\<lambda>(closed, g1, st1, s1). \<exists>c fs bad h1.
     to_come s = c @ to_come s1 \<and> frames (unread st @ c) = (fs, unread st1, bad)
     \<and> run_frames g w (cs_client_id st) fs 0 clk k = Some h1 \<and> core_eq h1 g1
     \<and> cs_client_id st1 = cs_client_id st \<and> fin s1 = fin s
     \<and> (closed \<longleftrightarrow> bad \<or> (fin s \<noteq> PeerOpen \<and> rx s1 = [] \<and> arriving s1 = []))
     \<and> (\<not> bad \<longrightarrow> client_ok st1))"

lemma handled_end:
  assumes "client_ok st" and "sys_read n s = (r, s1)" and "\<And>bs. r \<noteq> RData bs"
  shows "handled g w st s clk k (r \<noteq> RAgain, g, reclaim st, s1)"
proof -
  have p: "read_pos st \<le> write_pos st" using assms(1) by (simp add: client_ok_def)
  note rc = reclaim_simps [OF p]
  have a: "rx s1 = []" "r \<noteq> RAgain \<longleftrightarrow> fin s \<noteq> PeerOpen \<and> arriving s1 = []"
    using assms(2,3) by (auto simp: sys_read_def Let_def split: if_splits peer.splits)
  have "client_ok (reclaim st)" using assms(1) rc by (auto simp: client_ok_def unread_def)
  then show ?thesis using sys_read_other(1,3) [OF assms(2,3)] assms(1) rc a
    by (auto simp: handled_def client_ok_def intro!: exI [of _ "[]"])
qed

lemma handled_more:
  assumes ok: "client_ok st" and r: "sys_read (BUF_CAP - write_pos (reclaim st)) s = (RData bs, s1)" and sp: "write_pos (reclaim st) < BUF_CAP"
    and F: "frames (unread st @ to_come s) = (F, R, B)" and run: "run_frames g w (cs_client_id st) F 0 clk k = Some h"
    and g1: "core_eq g g1"
    and st1: "st1 = (reclaim st)\<lparr> cs_buffer := memcpy_at (cs_buffer (reclaim st)) (write_pos (reclaim st)) bs,
                                  write_pos := write_pos (reclaim st) + length bs \<rparr>"
  obtains fs rest bad g2 h2 where "frames (unread st @ bs) = (fs, rest, bad)"
    "run_frames g w (cs_client_id st) fs 0 clk k = Some h2" "core_eq h2 g2"
    "parse_loop g1 w st1 t5 clk k = Some (bad, g2, st1\<lparr> read_pos := write_pos st1 - length rest \<rparr>, k + length fs)"
    "unread (st1\<lparr> read_pos := write_pos st1 - length rest \<rparr>) = rest" "cs_client_id st1 = cs_client_id st"
    "\<not> bad \<longrightarrow> client_ok (st1\<lparr> read_pos := write_pos st1 - length rest \<rparr>)"
    "\<not> bad \<longrightarrow> (\<exists>F1. frames (rest @ to_come s1) = (F1, R, B) \<and> run_frames h2 w (cs_client_id st) F1 0 clk (k + length fs) = Some h)"
proof -
  have p: "read_pos st \<le> write_pos st" using ok by (simp add: client_ok_def)
  note rc = reclaim_simps [OF p]
  obtain fs rest bad where f: "frames (unread st @ bs) = (fs, rest, bad)" by (metis prod_cases3)
  have u1: "unread st1 = unread st @ bs" using append_unread [OF rc(1)] rc(3) by (simp add: st1)
  have p1: "read_pos st1 \<le> write_pos st1" "cs_client_id st1 = cs_client_id st" using rc by (auto simp: st1)
  have tc: "unread st @ to_come s = (unread st @ bs) @ to_come s1" using sys_read_data(3) [OF r] sp by simp
  obtain F1 R1 B1 where f1: "frames (rest @ to_come s1) = (F1, R1, B1)" by (metis prod_cases3)
  have fF: "if bad then F = fs else F = fs @ F1 \<and> R = R1 \<and> B = B1"
    using frames_append [OF f, of "to_come s1"] F f1 unfolding tc by (auto split: if_splits)
  obtain h2 where h2: "run_frames g w (cs_client_id st) fs 0 clk k = Some h2"
    "\<not> bad \<Longrightarrow> run_frames h2 w (cs_client_id st) F1 0 clk (k + length fs) = Some h"
    using run fF by (cases bad) (auto simp: run_frames_append bind_eq_Some_conv)
  obtain g2 where g2: "run_frames g1 w (cs_client_id st) fs t5 clk k = Some g2" "core_eq h2 g2"
    using run_frames_coreD [OF h2(1) g1] by blast
  have fu: "frames (unread st1) = (fs, rest, bad)" using f u1 by simp
  note pu = parse_unread [OF fu p1(1)]
  have "length bs \<le> BUF_CAP - write_pos (reclaim st)" using sys_read_data(2) [OF r] sp by simp
  then have cap: "write_pos st1 \<le> BUF_CAP" using sp by (simp add: st1)
  show thesis
  proof (rule that [OF f h2(1) g2(2)])
    show "parse_loop g1 w st1 t5 clk k = Some (bad, g2, st1\<lparr> read_pos := write_pos st1 - length rest \<rparr>, k + length fs)"
      using parse_loop_frames [OF fu p1(1)] g2(1) p1(2) by simp
    show "unread (st1\<lparr> read_pos := write_pos st1 - length rest \<rparr>) = rest" using pu by simp
    show "cs_client_id st1 = cs_client_id st" by (rule p1(2))
    show "\<not> bad \<longrightarrow> client_ok (st1\<lparr> read_pos := write_pos st1 - length rest \<rparr>)"
      using pu cap frames_rest [OF f] by (simp add: client_ok_def)
    show "\<not> bad \<longrightarrow> (\<exists>F1. frames (rest @ to_come s1) = (F1, R, B) \<and> run_frames h2 w (cs_client_id st) F1 0 clk (k + length fs) = Some h)"
      using h2(2) f1 fF by auto
  qed
qed

lemma handled_step:
  assumes "to_come s = bs @ to_come s1" and "fin s1 = fin s" and "frames (unread st @ bs) = (fs, unread st2, False)"
    and "run_frames g w (cs_client_id st) fs 0 clk k = Some h2" and "core_eq h2 g2" and "cs_client_id st2 = cs_client_id st"
    and "handled g2 w st2 s1 clk (k + length fs) res"
  shows "handled g w st s clk k res"
proof -
  obtain cl g3 st3 s3 where res: "res = (cl, g3, st3, s3)" by (metis prod_cases4)
  obtain c gs bad h3 where c: "to_come s1 = c @ to_come s3" "frames (unread st2 @ c) = (gs, unread st3, bad)"
    "run_frames g2 w (cs_client_id st) gs 0 clk (k + length fs) = Some h3" "core_eq h3 g3"
    "cs_client_id st3 = cs_client_id st" "fin s3 = fin s"
    "cl \<longleftrightarrow> bad \<or> (fin s \<noteq> PeerOpen \<and> rx s3 = [] \<and> arriving s3 = [])" "\<not> bad \<longrightarrow> client_ok st3"
    using assms(2,6,7) by (auto simp: handled_def res)
  have "core_eq g2 h2" using assms(5) by (elim core_eqE) simp
  then obtain h4 where h4: "run_frames h2 w (cs_client_id st) gs 0 clk (k + length fs) = Some h4" "core_eq h3 h4"
    using run_frames_coreD [OF c(3)] by blast
  have "core_eq h4 h3" using h4(2) by (elim core_eqE) simp
  then have "core_eq h4 g3" using c(4) core_eq_trans by blast
  moreover have "frames (unread st @ bs @ c) = (fs @ gs, unread st3, bad)"
    using frames_append [OF assms(3), of c] c(2) by simp
  moreover have "run_frames g w (cs_client_id st) (fs @ gs) 0 clk k = Some h4"
    using assms(4) h4(1) by (simp add: run_frames_append)
  ultimately show ?thesis unfolding handled_def res using assms(1) c
    by (intro case_prodI exI [of _ "bs @ c"] exI [of _ "fs @ gs"] exI [of _ bad] exI [of _ h4]) auto
qed

lemma read_loop_handled:
  assumes "client_ok st" and "frames (unread st @ to_come s) = (F, R, B)" and "run_frames g w (cs_client_id st) F 0 clk k = Some h"
  shows "\<exists>res. read_loop g w st s rclk j clk k = Some res \<and> handled g w st s clk k res"
  using assms
proof (induction "length (to_come s)" arbitrary: g st s j k F h rule: less_induct)
  case less
  note ok = less.prems(1)
  have p: "read_pos st \<le> write_pos st" using ok by (simp add: client_ok_def)
  have "length (unread st) < 81" using ok frames_rest [of "unread st"] by (auto simp: client_ok_def)
  then have sp: "write_pos (reclaim st) < BUF_CAP" using reclaim_simps(2) [OF p] by (simp add: BUF_CAP_def)
  obtain r s1 where r: "sys_read (BUF_CAP - write_pos (reclaim st)) s = (r, s1)" by (metis surj_pair)
  show ?case
  proof (cases "\<exists>bs. r = RData bs")
    case False
    then have "read_loop g w st s rclk j clk k = Some (r \<noteq> RAgain, g, reclaim st, s1)"
      using r sp by (subst read_loop.simps) (cases r; simp add: Let_def)
    then show ?thesis using handled_end [OF ok r] False by blast
  next
    case True
    then obtain bs where bs: "r = RData bs" by blast
    note rb = r [unfolded bs]
    define g1 where "g1 = g\<lparr> gws := (gws g)\<lparr> total_read_cycles := total_read_cycles (gws g) + (snd (rclk j) - fst (rclk j)) \<rparr> \<rparr>"
    define st1 where "st1 = (reclaim st)\<lparr> cs_buffer := memcpy_at (cs_buffer (reclaim st)) (write_pos (reclaim st)) bs,
                                  write_pos := write_pos (reclaim st) + length bs \<rparr>"
    have cg: "core_eq g g1" by (simp add: g1_def)
    obtain fs rest bad g2 h2 where m: "frames (unread st @ bs) = (fs, rest, bad)"
      "run_frames g w (cs_client_id st) fs 0 clk k = Some h2" "core_eq h2 g2"
      "parse_loop g1 w st1 (snd (rclk j)) clk k = Some (bad, g2, st1\<lparr> read_pos := write_pos st1 - length rest \<rparr>, k + length fs)"
      "unread (st1\<lparr> read_pos := write_pos st1 - length rest \<rparr>) = rest" "cs_client_id st1 = cs_client_id st"
      "\<not> bad \<longrightarrow> client_ok (st1\<lparr> read_pos := write_pos st1 - length rest \<rparr>)"
      "\<not> bad \<longrightarrow> (\<exists>F1. frames (rest @ to_come s1) = (F1, R, B) \<and> run_frames h2 w (cs_client_id st) F1 0 clk (k + length fs) = Some h)"
      by (rule handled_more [OF ok rb sp less.prems(2,3) cg st1_def])
    let ?st2 = "st1\<lparr> read_pos := write_pos st1 - length rest \<rparr>"
    have lp: "read_loop g w st s rclk j clk k =
      (if bad then Some (True, g2, ?st2, s1) else read_loop g2 w ?st2 s1 rclk (Suc j) clk (k + length fs))"
      using rb sp m(4) by (subst read_loop.simps) (simp add: Let_def g1_def st1_def)
    have sr: "to_come s = bs @ to_come s1" "fin s1 = fin s" "length (to_come s1) < length (to_come s)"
      using sys_read_data(3,4) [OF rb] sys_read_less [OF rb] sp by auto
    show ?thesis
    proof (cases bad)
      case True
      then have "handled g w st s clk k (True, g2, ?st2, s1)"
        unfolding handled_def using sr(1,2) m by (intro case_prodI exI [of _ bs] exI [of _ fs] exI [of _ True] exI [of _ h2]) auto
      then show ?thesis using lp True by auto
    next
      case False
      then obtain F1 where F1: "frames (rest @ to_come s1) = (F1, R, B)" "run_frames h2 w (cs_client_id st) F1 0 clk (k + length fs) = Some h"
        using m(8) by blast
      obtain h3 where h3: "run_frames g2 w (cs_client_id st) F1 0 clk (k + length fs) = Some h3"
        using run_frames_coreD [OF F1(2) m(3)] by blast
      obtain res where res: "read_loop g2 w ?st2 s1 rclk (Suc j) clk (k + length fs) = Some res"
        "handled g2 w ?st2 s1 clk (k + length fs) res"
        using less.hyps [OF sr(3), of ?st2 F1 g2 "k + length fs" h3 "Suc j"] m(5,6,7) F1(1) h3 False by auto
      have "handled g w st s clk k res"
        using handled_step [OF sr(1,2) _ m(2,3) _ res(2)] m(1,5,6) False by simp
      then show ?thesis using lp res(1) False by auto
    qed
  qed
qed

section \<open>The property\<close>

text \<open>
  C4. Framing does not depend on segmentation. For a connection between two calls and any way the inbound bytes
  arrive, \<open>handle_client\<close>'s read loop returns (provided no message finds its engine queue full), and what it did is
  determined by the concatenation \<open>c\<close> of the bytes it read: the complete messages of \<open>c\<close>, appended to the fragment kept
  from the last call, were handled one after the other; the bytes left in the buffer are the rest; the connection is
  closed exactly if an unknown message type follows or the peer closed or failed after its last byte; a connection that
  stays open holds less than one message, so the buffer never overflows.
\<close>

theorem framing_segmentation:
  assumes "client_ok st" and "frames (unread st @ to_come s) = (F, R, B)"
    and "run_frames g w (cs_client_id st) F 0 clk k = Some h"
  shows "\<exists>closed g1 st1 s1 c fs bad h1. read_loop g w st s rclk j clk k = Some (closed, g1, st1, s1)
    \<and> to_come s = c @ to_come s1 \<and> frames (unread st @ c) = (fs, unread st1, bad)
    \<and> run_frames g w (cs_client_id st) fs 0 clk k = Some h1 \<and> g1 = h1\<lparr> gws := gws g1 \<rparr>
    \<and> (closed \<longleftrightarrow> bad \<or> (fin s \<noteq> PeerOpen \<and> rx s1 = [] \<and> arriving s1 = []))
    \<and> (\<not> bad \<longrightarrow> client_ok st1 \<and> length (unread st1) < sizeof_OuchEnterOrder)"
proof -
  obtain closed g1 st1 s1 where l: "read_loop g w st s rclk j clk k = Some (closed, g1, st1, s1)"
    and h: "handled g w st s clk k (closed, g1, st1, s1)"
    using read_loop_handled [OF assms, of rclk j] by (metis prod_cases4)
  have "length (unread st1) < 81" if "client_ok st1"
    using that frames_rest [of "unread st1"] by (auto simp: client_ok_def)
  then show ?thesis using l h unfolding handled_def core_eq_def sizeof_OuchEnterOrder_def by (auto 0 4)
qed

text \<open>A cancel of an unknown token, arriving in two pieces and followed by a byte that starts no message.\<close>

definition sample_timer :: timer where "sample_timer = timer_init 4"

definition sample_gateway :: gateway where
  "sample_gateway = \<lparr> gw_engines = [], gw_reject_queues = [], session_manager = session_init, risk_engine = default_risk,
     next_client_id = 2, profile_latency = False,
     gws = \<lparr> total_udp = 0, total_trading = 0, total_q = 0, total_tcp = 0, total_e2e = 0, num_samples = 0,
       total_epoll_cycles = 0, total_read_cycles = 0, total_decode_cycles = 0, total_validation_cycles = 0,
       total_enqueue_cycles = 0, total_allocate_cycles = 0, total_record_cycles = 0, total_push_cycles = 0,
       total_orders_processed = 0, total_worker_cycles = 0, total_epoll_idle_cycles = 0, total_drain_cycles = 0,
       e2e_timer = sample_timer, tcp_timer = sample_timer \<rparr> \<rparr>"

definition sample_cancel :: bytes where
  "sample_cancel = enc_cancel_order \<lparr> co_msg_type = ch CHR ''X'', co_order_token = encode_order_token 7, co_shares = 0 \<rparr>"

definition sample_inbound :: inbound where
  "sample_inbound = \<lparr> rx = take 5 sample_cancel, arriving = [[], drop 5 sample_cancel @ [0]], fin = PeerOpen \<rparr>"

definition sample_client :: ClientState where "sample_client = client_init (\<lambda>_. 0) (\<lambda>_. 0)"

definition sample_stamps :: "nat \<Rightarrow> stamps" where
  "sample_stamps k = \<lparr> st_d1 = 1, st_d2 = 2, st_v1 = 3, st_a1 = 4, st_r1 = 5, st_e1 = 6, st_ingress = 7 \<rparr>"

lemma sample_frames: "frames (sample_cancel @ [0]) = ([sample_cancel], [0], True)"
proof -
  have l: "length sample_cancel = 19" "hd sample_cancel = ch CHR ''X''" "sample_cancel \<noteq> []"
    by (auto simp: sample_cancel_def enc_cancel_order_def w32_def)
  have "frames [0] = ([], [0], True)" by (rule frames_bad) (auto simp: msg_size_def)
  then show ?thesis
    using frames_message [of "sample_cancel @ [0]" 19 "[]" "[0]" True] l
    by (simp add: msg_size_def sizeof_OuchCancelOrder_def)
qed

lemma sample_run: "\<exists>h. run_frames sample_gateway 0 0 [sample_cancel] 0 sample_stamps 0 = Some h"
proof -
  have s: "session_manager sample_gateway = session_init" by (simp add: sample_gateway_def)
  have "\<exists>h. handle_cancel sample_gateway 0 0 (dec_cancel_order sample_cancel) (sample_stamps 0) = Some h"
    unfolding handle_cancel_def Let_def s using lookup_init by simp
  moreover have "sample_cancel ! 0 \<noteq> ch CHR ''O''" by (simp add: sample_cancel_def enc_cancel_order_def)
  ultimately show ?thesis by (auto simp: handle_frame_def)
qed

theorem framing_segmentation_witness:
  "\<exists>closed g1 st1 s1 c fs bad h1.
      read_loop sample_gateway 0 sample_client sample_inbound (\<lambda>_. (1, 2)) 0 sample_stamps 0 = Some (closed, g1, st1, s1)
    \<and> sample_cancel @ [0] = c @ to_come s1 \<and> frames c = (fs, unread st1, bad)
    \<and> run_frames sample_gateway 0 0 fs 0 sample_stamps 0 = Some h1 \<and> g1 = h1\<lparr> gws := gws g1 \<rparr>"
proof -
  have c: "client_ok sample_client" "unread sample_client = []" "cs_client_id sample_client = 0"
    by (simp_all add: client_ok_def sample_client_def client_init_def unread_def span_def)
  have t: "to_come sample_inbound = sample_cancel @ [0]" by (simp add: to_come_def sample_inbound_def)
  obtain h where "run_frames sample_gateway 0 0 [sample_cancel] 0 sample_stamps 0 = Some h" using sample_run by blast
  then show ?thesis
    using framing_segmentation [of sample_client sample_inbound "[sample_cancel]" "[0]" True sample_gateway 0 sample_stamps 0 h
        "\<lambda>_. (1, 2)" 0] c t sample_frames by (auto 0 4)
qed

end
