(* ===== verification/Gateway_Admit.thy ===== *)
theory Gateway_Admit
  imports Gateway_Framing
begin

text \<open>
  What the gateway does with one message: the invariant of the whole trading state (four shards, the reject
  queues, the session map) and the effect of a new order and of a cancel on every branch. The invariant includes who
  owns an order: the session map never maps a token to a slot that holds an order of that token by another client.
\<close>

section \<open>Tasks entering an engine\<close>

lemma queued_orders_push_mset:
  "k < length qs \<Longrightarrow> lfq_items q = lfq_items (qs ! k) @ [t] \<Longrightarrow>
   mset (queued_orders (qs[k := q])) = mset (task_orders [t] @ queued_orders qs)"
proof (induction qs arbitrary: k)
  case (Cons q0 qs)
  then show ?case by (cases k) (auto simp: queued_orders_def task_orders_append)
qed simp

lemma queued_orders_push:
  assumes "k < length qs" and "lfq_items q = lfq_items (qs ! k) @ [t]"
  shows "distinct (queued_orders (qs[k := q])) \<longleftrightarrow> distinct (task_orders [t] @ queued_orders qs)"
    and "set (queued_orders (qs[k := q])) = set (task_orders [t]) \<union> set (queued_orders qs)"
  using mset_eq_imp_distinct_iff [OF queued_orders_push_mset [OF assms]] mset_eq_setD [OF queued_orders_push_mset [OF assms]]
  by auto

lemma engine_ok_queue:
  assumes ok: "engine_ok e V P" and k: "k < length (e_queues e)" and q: "lfq_push (e_queues e ! k) t = (True, q)" and t: "task_ok t"
  shows "lfq_items q = lfq_items (e_queues e ! k) @ [t]"
    and "\<forall>q1 \<in> set ((e_queues e)[k := q]). lfq_ok q1 \<and> (\<forall>t \<in> set (lfq_items q1). task_ok t)"
proof -
  have "lfq_ok (e_queues e ! k)" using ok k by (auto simp: engine_ok_def)
  then show it: "lfq_items q = lfq_items (e_queues e ! k) @ [t]" using lfq.push_spec [OF _ q] by auto
  have "lfq_ok q" using lfq.push_spec [OF _ q] ok k by (auto simp: engine_ok_def)
  then show "\<forall>q1 \<in> set ((e_queues e)[k := q]). lfq_ok q1 \<and> (\<forall>t \<in> set (lfq_items q1). task_ok t)"
    using ok k t it set_update_subset_insert [of "e_queues e" k q] unfolding engine_ok_def by (fastforce simp: subset_iff)
qed

lemma engine_push_cancel:
  assumes ok: "engine_ok e V P" and k: "k < length (e_queues e)" and q: "lfq_push (e_queues e ! k) (TCancel idx tok i) = (True, q)"
    and idx: "idx < MAX_ORDERS_LOOKUP"
  shows "engine_ok (e\<lparr> e_queues := (e_queues e)[k := q] \<rparr>) V P"
proof -
  have t: "task_ok (TCancel idx tok i)" using idx by simp
  note eq = engine_ok_queue [OF ok k q t]
  show ?thesis using ok eq(2) queued_orders_push [OF k eq(1)] by (simp add: engine_ok_def)
qed

lemma engine_push_new:
  assumes ok: "engine_ok e V P" and k: "k < length (e_queues e)" and q: "lfq_push (e_queues e ! k) (TNew a i) = (True, q)"
    and bk: "books_ok sh1 (e_books e) V (insert a P)" "a \<notin> P"
    and md: "ord (mem sh1) = (ord (mem (e_shard e)))(a := ob)" and inst: "our_instrument (e_shard_id e) (instrument_id ob)"
  shows "engine_ok (e\<lparr> e_shard := sh1, e_queues := (e_queues e)[k := q] \<rparr>) V (insert a P)"
proof -
  have t: "task_ok (TNew a i)" by simp
  note eq = engine_ok_queue [OF ok k q t]
  have "instrument_id (mem sh1 x) = (if x = a then instrument_id ob else instrument_id (mem (e_shard e) x))" for x
    using arg_cong [OF fun_cong [OF md, of x], of instrument_id] by auto
  then have "\<forall>x \<in> insert a P. our_instrument (e_shard_id e) (instrument_id (mem sh1 x))" using ok inst by (auto simp: engine_ok_def)
  then show ?thesis using ok eq(2) queued_orders_push [OF k eq(1)] bk by (simp add: engine_ok_def)
qed

section \<open>Who owns an order\<close>

definition ident :: "order \<Rightarrow> order" where
  "ident ob = ob\<lparr> quantity := 0 \<rparr>"

text \<open>The orders of a shard, resting or waiting, without their quantities.\<close>

definition idents :: "engine \<Rightarrow> (lkey \<Rightarrow> nat list) \<Rightarrow> nat set \<Rightarrow> order set" where
  "idents e V P = (\<lambda>a. ident (ord (mem (e_shard e)) a)) ` (live V \<union> P)"

definition owner_ok :: "SessionManager \<Rightarrow> nat \<Rightarrow> order set \<Rightarrow> bool" where
  "owner_ok sm s I \<longleftrightarrow> (\<forall>ob \<in> I. client_order_id ob < MAX_CLIENT_ORDERS \<and> client_id ob < 2 ^ 32
     \<and> (let d = lookup_data sm (word_of_nat (client_order_id ob))
        in unat (sd_internal_id d) = internal_id ob \<and> unat (sd_instrument_id d) mod NUM_SHARDS = s
           \<longrightarrow> client_id ob = unat (sd_client_id d) \<and> instrument_id ob = unat (sd_instrument_id d)))"

definition session_ok :: "SessionManager \<Rightarrow> bool" where
  "session_ok sm \<longleftrightarrow> (\<forall>tok. unat (sd_internal_id (lookup_data sm tok)) < MAX_ORDERS_LOOKUP
                            \<and> unat (sd_instrument_id (lookup_data sm tok)) < MAX_INSTRUMENTS)"

definition gw_ok :: "nat \<Rightarrow> gateway \<Rightarrow> (nat \<Rightarrow> lkey \<Rightarrow> nat list) \<Rightarrow> (nat \<Rightarrow> nat set) \<Rightarrow> bool" where
  "gw_ok W g V P \<longleftrightarrow> 0 < W \<and> W \<le> 16 \<and> length (gw_engines g) = NUM_SHARDS \<and> length (gw_reject_queues g) = W
     \<and> (\<forall>s < NUM_SHARDS. engine_ok (gw_engines g ! s) (V s) (P s) \<and> e_shard_id (gw_engines g ! s) = s
          \<and> length (e_queues (gw_engines g ! s)) = W \<and> ack_workers (outs (e_shard (gw_engines g ! s))) = Some W
          \<and> owner_ok (session_manager g) s (idents (gw_engines g ! s) (V s) (P s)))
     \<and> (\<forall>q \<in> set (gw_reject_queues g). lfq_ok q) \<and> session_ok (session_manager g)"

lemma gw_okD:
  assumes "gw_ok W g V P"
  shows "0 < W" and "W \<le> 16" and "length (gw_engines g) = NUM_SHARDS" and "length (gw_reject_queues g) = W"
    and "s < NUM_SHARDS \<Longrightarrow> engine_ok (gw_engines g ! s) (V s) (P s)"
    and "s < NUM_SHARDS \<Longrightarrow> e_shard_id (gw_engines g ! s) = s"
    and "s < NUM_SHARDS \<Longrightarrow> length (e_queues (gw_engines g ! s)) = W"
    and "s < NUM_SHARDS \<Longrightarrow> ack_workers (outs (e_shard (gw_engines g ! s))) = Some W"
    and "s < NUM_SHARDS \<Longrightarrow> owner_ok (session_manager g) s (idents (gw_engines g ! s) (V s) (P s))"
    and "q \<in> set (gw_reject_queues g) \<Longrightarrow> lfq_ok q" and "session_ok (session_manager g)"
  using assms by (simp_all add: gw_ok_def)

lemma gw_ok_gws [simp]: "gw_ok W (g\<lparr> gws := x \<rparr>) V P = gw_ok W g V P"
  by (simp add: gw_ok_def)

lemma record_latency_simps [simp]:
  "gw_engines (record_latency g req t5) = gw_engines g" "gw_reject_queues (record_latency g req t5) = gw_reject_queues g"
  "session_manager (record_latency g req t5) = session_manager g" "risk_engine (record_latency g req t5) = risk_engine g"
  "next_client_id (record_latency g req t5) = next_client_id g" "gw_ok W (record_latency g req t5) V P = gw_ok W g V P"
  using record_latency_gws [of g req t5] by auto

text \<open>Replacing one shard.\<close>

lemma gw_ok_upd:
  assumes ok: "gw_ok W g V P" and s: "s < NUM_SHARDS" and e: "engine_ok e V1 P1" "e_shard_id e = s" "length (e_queues e) = W"
    "ack_workers (outs (e_shard e)) = Some W"
    and sm: "session_ok sm" "owner_ok sm s (idents e V1 P1)"
    and oth: "\<And>r. r < NUM_SHARDS \<Longrightarrow> r \<noteq> s \<Longrightarrow> owner_ok sm r (idents (gw_engines g ! r) (V r) (P r))"
  shows "gw_ok W ((upd_engine g s e)\<lparr> session_manager := sm \<rparr>) (V(s := V1)) (P(s := P1))"
  unfolding gw_ok_def using gw_okD [OF ok] s e sm oth by (auto simp: upd_engine_def nth_list_update)

lemma push_reject_ok:
  assumes ok: "gw_ok W g V P" and w: "w < W"
  shows "\<exists>g1. push_reject g w m = Some g1 \<and> gw_ok W g1 V P \<and> g1 = g\<lparr> gw_reject_queues := gw_reject_queues g1 \<rparr>
    \<and> map lfq_items (gw_reject_queues g1) = (map lfq_items (gw_reject_queues g))[w := lfq_items (gw_reject_queues g ! w)
        @ take (lfq_room (gw_reject_queues g ! w) - length (lfq_items (gw_reject_queues g ! w))) [m]]"
proof -
  let ?q = "gw_reject_queues g ! w"
  have l: "w < length (gw_reject_queues g)" using gw_okD(4) [OF ok] w by simp
  then have q: "lfq_ok ?q" using gw_okD(10) [OF ok] by simp
  obtain b q1 where p: "lfq_push ?q m = (b, q1)" by (cases "lfq_push ?q m")
  note sp = lfq.push_spec [OF q p]
  let ?g = "g\<lparr> gw_reject_queues := (gw_reject_queues g)[w := q1] \<rparr>"
  have "gw_ok W ?g V P" using ok sp set_update_subset_insert [of "gw_reject_queues g" w q1] unfolding gw_ok_def by auto
  moreover have "lfq_items q1 = lfq_items ?q @ take (lfq_room ?q - length (lfq_items ?q)) [m]"
    using sp lfq.items_room [OF q] by (cases b) auto
  ultimately show ?thesis using l p by (intro exI [of _ ?g]) (simp add: push_reject_def list_get_def map_update)
qed

section \<open>A new order\<close>

lemma owner_ok_record:
  assumes "owner_ok sm s I" and "session_registrable tok" and "session_fits i inst"
    and "\<And>ob. ob \<in> I \<Longrightarrow> internal_id ob \<noteq> unat i \<or> unat inst mod NUM_SHARDS \<noteq> s"
  shows "owner_ok (record_order sm tok i inst cid) s I"
  unfolding owner_ok_def
proof
  fix ob
  assume ob: "ob \<in> I"
  show "client_order_id ob < MAX_CLIENT_ORDERS \<and> client_id ob < 2 ^ 32
     \<and> (let d = lookup_data (record_order sm tok i inst cid) (word_of_nat (client_order_id ob))
        in unat (sd_internal_id d) = internal_id ob \<and> unat (sd_instrument_id d) mod NUM_SHARDS = s
           \<longrightarrow> client_id ob = unat (sd_client_id d) \<and> instrument_id ob = unat (sd_instrument_id d))"
    using assms(1-3) assms(4) [OF ob] ob
    by (cases "word_of_nat (client_order_id ob) = tok") (auto simp: owner_ok_def Let_def session.lookup_same session.lookup_other)
qed

lemma session_ok_record:
  assumes "session_ok sm" and "session_registrable tok" and "session_fits i inst" and "unat i < MAX_ORDERS_LOOKUP"
  shows "session_ok (record_order sm tok i inst cid)"
  unfolding session_ok_def
proof
  fix t
  show "unat (sd_internal_id (lookup_data (record_order sm tok i inst cid) t)) < MAX_ORDERS_LOOKUP
    \<and> unat (sd_instrument_id (lookup_data (record_order sm tok i inst cid) t)) < MAX_INSTRUMENTS"
    using assms by (cases "t = tok") (auto simp: session_ok_def session.lookup_same session.lookup_other session_fits_def)
qed

lemma idents_slot: "engine_ok e V P \<Longrightarrow> ob \<in> idents e V P \<Longrightarrow> internal_id ob \<in> live V \<union> P"
proof -
  assume "engine_ok e V P" and "ob \<in> idents e V P"
  then obtain a where a: "a \<in> live V \<union> P" "ob = ident (ord (mem (e_shard e)) a)"
    and b: "books_ok (e_shard e) (e_books e) V P" by (auto simp: idents_def engine_ok_def)
  have "internal_id (mem (e_shard e) a) = a" using shard_okD(5) [OF books_okD(1) [OF b]] a(1) by blast
  then show ?thesis using a by (simp add: ident_def)
qed

lemma idents_place:
  assumes "ord (mem sh1) = (ord (mem (e_shard e)))(a := ob)" and "a \<notin> live V \<union> P"
  shows "idents (e\<lparr> e_shard := sh1, e_queues := qs \<rparr>) V (insert a P) = insert (ident ob) (idents e V P)"
proof -
  have "(\<lambda>x. ident (ord (mem sh1) x)) ` (live V \<union> P) = (\<lambda>x. ident (ord (mem (e_shard e)) x)) ` (live V \<union> P)"
    using assms by (intro image_cong) auto
  then show ?thesis using assms(1) by (simp add: idents_def)
qed

text \<open>The order a request asks for, in slot \<open>a\<close>.\<close>

definition requested :: "nat \<Rightarrow> u32 \<Rightarrow> OuchEnterOrder \<Rightarrow> nat \<Rightarrow> order" where
  "requested w cid req a = \<lparr> internal_id = a, client_order_id = unat (decode_order_token (eo_order_token req)),
     price = unat (eo_price req), quantity = unat (eo_shares req), client_id = unat cid,
     instrument_id = unat (decode_symbol (eo_stock req)), worker_id = w, side = (if eo_side req = ch CHR ''B'' then BUY else SELL) \<rparr>"

abbreviation requested_node :: "nat \<Rightarrow> u32 \<Rightarrow> OuchEnterOrder \<Rightarrow> order_node" where
  "requested_node w cid req \<equiv> new_Order 0 (unat (decode_order_token (eo_order_token req))) (unat cid) (unat (eo_price req))
     (unat (eo_shares req)) (unat (decode_symbol (eo_stock req))) (if eo_side req = ch CHR ''B'' then BUY else SELL) (w mod 2 ^ 16)"

lemma requested_node: "w < 2 ^ 16 \<Longrightarrow> (order.truncate (requested_node w cid req))\<lparr> internal_id := a \<rparr> = requested w cid req a"
  by (simp add: new_Order_def requested_def order.defs)

definition acceptable :: "gateway \<Rightarrow> OuchEnterOrder \<Rightarrow> bool" where
  "acceptable g req \<longleftrightarrow> unat (decode_order_token (eo_order_token req)) < MAX_CLIENT_ORDERS
     \<and> check_pre_trade (risk_engine g) req (decode_symbol (eo_stock req))"

lemma acceptable_inst: "acceptable g req \<Longrightarrow> unat (decode_symbol (eo_stock req)) < MAX_INSTRUMENTS"
  by (auto simp: acceptable_def check_pre_trade_def split: if_splits)

text \<open>A rejection: the message goes to the reject queue of the worker, if it has room.\<close>

definition rejected :: "gateway \<Rightarrow> gateway \<Rightarrow> nat \<Rightarrow> DropCopyMessage \<Rightarrow> bool" where
  "rejected g g1 w m \<longleftrightarrow> session_manager g1 = session_manager g
     \<and> map lfq_items (gw_reject_queues g1) = (map lfq_items (gw_reject_queues g))[w := lfq_items (gw_reject_queues g ! w)
         @ take (lfq_room (gw_reject_queues g ! w) - length (lfq_items (gw_reject_queues g ! w))) [m]]"

lemma handle_new_refused:
  assumes ok: "gw_ok W g V P" and w: "w < W" and na: "\<not> acceptable g req"
  defines "tok \<equiv> decode_order_token (eo_order_token req)"
  shows "\<exists>g1. handle_new g w cid req t5 ts = Some g1 \<and> gw_ok W g1 V P \<and> gw_engines g1 = gw_engines g
    \<and> rejected g g1 w (reject_message (if tok = INVALID_ORDER_TOKEN then 0 else tok) req (decode_symbol (eo_stock req))
         (if eo_side req = ch CHR ''B'' then BUY else SELL))"
proof -
  let ?g = "record_latency g req t5" and ?m = "reject_message (if tok = INVALID_ORDER_TOKEN then 0 else tok) req (decode_symbol (eo_stock req))
         (if eo_side req = ch CHR ''B'' then BUY else SELL)"
  have "gw_ok W ?g V P" using ok by simp
  from push_reject_ok [OF this w, of ?m] obtain g1 where g1: "push_reject ?g w ?m = Some g1" "gw_ok W g1 V P"
    "g1 = ?g\<lparr> gw_reject_queues := gw_reject_queues g1 \<rparr>" and
    r: "map lfq_items (gw_reject_queues g1) = (map lfq_items (gw_reject_queues g))[w := lfq_items (gw_reject_queues g ! w)
        @ take (lfq_room (gw_reject_queues g ! w) - length (lfq_items (gw_reject_queues g ! w))) [?m]]"
    by auto
  have s: "gw_engines g1 = gw_engines g" "session_manager g1 = session_manager g"
    using arg_cong [OF g1(3), of gw_engines] arg_cong [OF g1(3), of session_manager] by auto
  obtain x where "handle_new g w cid req t5 ts = Some (g1\<lparr> gws := x \<rparr>)"
    using na g1(1) unfolding handle_new_def Let_def acceptable_def tok_def by (simp del: de_Morgan_conj)
  then show ?thesis using g1(2) s r by (simp add: rejected_def)
qed

lemma place_requested:
  assumes ok: "gw_ok W g V P" and w: "w < W" and s: "s < NUM_SHARDS"
  shows "\<exists>r sh1. place_order (e_shard (gw_engines g ! s)) w (requested_node w cid req) = Some (r, sh1)
    \<and> ack_workers (outs sh1) = Some W
    \<and> (case r of None \<Rightarrow> books_ok sh1 (e_books (gw_engines g ! s)) (V s) (P s) \<and> mem sh1 = mem (e_shard (gw_engines g ! s))
       | Some a \<Rightarrow> a \<notin> live (V s) \<union> P s \<and> 0 < a \<and> a < MAX_ORDERS_LOOKUP
           \<and> books_ok sh1 (e_books (gw_engines g ! s)) (V s) (insert a (P s))
           \<and> ord (mem sh1) = (ord (mem (e_shard (gw_engines g ! s))))(a := requested w cid req a))"
proof -
  let ?e = "gw_engines g ! s"
  have b: "books_ok (e_shard ?e) (e_books ?e) (V s) (P s)" using gw_okD(5) [OF ok s] by (simp add: engine_ok_def)
  have "num_workers (sh_pool (e_shard ?e)) = W"
    using shard_okD(10) [OF books_okD(1) [OF b]] gw_okD(8) [OF ok s] by auto
  then have ww: "w < num_workers (sh_pool (e_shard ?e))" "w < 2 ^ 16" using gw_okD(2) [OF ok] w by auto
  have wid: "worker_id (requested_node w cid req) = w" using ww(2) by (simp add: new_Order_def)
  obtain r sh1 where r: "place_order (e_shard ?e) w (requested_node w cid req) = Some (r, sh1)"
    "outs sh1 = outs (e_shard ?e)"
    "case r of None \<Rightarrow> books_ok sh1 (e_books ?e) (V s) (P s) \<and> mem sh1 = mem (e_shard ?e)
       | Some a \<Rightarrow> a \<notin> live (V s) \<union> P s \<and> books_ok sh1 (e_books ?e) (V s) (insert a (P s))
           \<and> ord (mem sh1) = (ord (mem (e_shard ?e)))(a := (order.truncate (requested_node w cid req))\<lparr> internal_id := a \<rparr>)"
    using place_order_ok [OF b ww(1) wid] by blast
  have rng: "0 < a \<and> a < MAX_ORDERS_LOOKUP" if "r = Some a" for a
  proof -
    have "books_ok sh1 (e_books ?e) (V s) (insert a (P s))" using r(3) that by simp
    note D = shard_okD [OF books_okD(1) [OF this]]
    show ?thesis using pool_live_range [OF D(2), of a] D(9) by (simp add: MAX_ORDERS_LOOKUP_def)
  qed
  note r3 = r(3) [unfolded requested_node [OF ww(2)]]
  show ?thesis
    using r(1,2) r3 rng gw_okD(8) [OF ok s] by (cases r; simp split del: if_split; blast)
qed

lemma handle_new_exhausted:
  assumes ok: "gw_ok W g V P" and w: "w < W" and ac: "acceptable g req" and s: "s = unat (decode_symbol (eo_stock req)) mod NUM_SHARDS"
    and pl: "place_order (e_shard (gw_engines g ! s)) w (requested_node w cid req) = Some (None, sh1)"
  shows "\<exists>g1. handle_new g w cid req t5 ts = Some g1 \<and> gw_ok W g1 V P
    \<and> map e_queues (gw_engines g1) = map e_queues (gw_engines g)
    \<and> rejected g g1 w (reject_message (decode_order_token (eo_order_token req)) req (decode_symbol (eo_stock req))
         (if eo_side req = ch CHR ''B'' then BUY else SELL))"
proof -
  let ?e = "gw_engines g ! s" and ?g = "record_latency g req t5"
  let ?m = "reject_message (decode_order_token (eo_order_token req)) req (decode_symbol (eo_stock req))
         (if eo_side req = ch CHR ''B'' then BUY else SELL)"
  have sl: "s < NUM_SHARDS" "s < length (gw_engines g)" using s gw_okD(3) [OF ok] by (auto simp: NUM_SHARDS_def)
  have bk: "books_ok sh1 (e_books ?e) (V s) (P s)" "mem sh1 = mem (e_shard ?e)" "ack_workers (outs sh1) = Some W"
    using place_requested [OF ok w sl(1), where cid = cid and req = req] pl by auto
  let ?g1 = "upd_engine ?g s (?e\<lparr> e_shard := sh1 \<rparr>)"
  have "engine_ok (?e\<lparr> e_shard := sh1 \<rparr>) (V s) (P s)" using gw_okD(5) [OF ok sl(1)] bk by (simp add: engine_ok_def)
  moreover have "idents (?e\<lparr> e_shard := sh1 \<rparr>) (V s) (P s) = idents ?e (V s) (P s)" using bk(2) by (simp add: idents_def)
  moreover have "gw_ok W ?g V P" using ok by simp
  ultimately have "gw_ok W (?g1\<lparr> session_manager := session_manager g \<rparr>) (V(s := V s)) (P(s := P s))"
    using gw_okD [OF ok] sl(1) bk(3) by (intro gw_ok_upd) auto
  moreover have "?g1\<lparr> session_manager := session_manager g \<rparr> = ?g1"
    using record_latency_gws [of g req t5] by (cases g) (auto simp: upd_engine_def)
  ultimately have "gw_ok W ?g1 V P" by simp
  from push_reject_ok [OF this w, of ?m] obtain g2 where g2: "push_reject ?g1 w ?m = Some g2" "gw_ok W g2 V P"
    "g2 = ?g1\<lparr> gw_reject_queues := gw_reject_queues g2 \<rparr>" and
    r: "map lfq_items (gw_reject_queues g2) = (map lfq_items (gw_reject_queues g))[w := lfq_items (gw_reject_queues g ! w)
        @ take (lfq_room (gw_reject_queues g ! w) - length (lfq_items (gw_reject_queues g ! w))) [?m]]"
    by (auto simp: upd_engine_def)
  have e2: "map e_queues (gw_engines g2) = map e_queues (gw_engines g)" "session_manager g2 = session_manager g"
    using arg_cong [OF g2(3), of gw_engines] arg_cong [OF g2(3), of session_manager] sl(2)
    by (auto simp: upd_engine_def map_update list_update_same_conv)
  obtain x where "handle_new g w cid req t5 ts = Some (g2\<lparr> gws := x \<rparr>)"
    using ac g2(1) pl sl(2) unfolding handle_new_def Let_def acceptable_def by (simp add: s list_get_def)
  then show ?thesis using g2(2) e2 r by (simp add: rejected_def)
qed

lemma handle_new_placed:
  assumes ok: "gw_ok W g V P" and w: "w < W" and ac: "acceptable g req" and s: "s = unat (decode_symbol (eo_stock req)) mod NUM_SHARDS"
    and pl: "place_order (e_shard (gw_engines g ! s)) w (requested_node w cid req) = Some (Some a, sh1)"
    and room: "length (lfq_items (e_queues (gw_engines g ! s) ! w)) < lfq_room (e_queues (gw_engines g ! s) ! w)"
  shows "\<exists>g1 q. handle_new g w cid req t5 ts = Some g1 \<and> gw_ok W g1 V (P(s := insert a (P s)))
    \<and> gw_engines g1 = (gw_engines g)[s := (gw_engines g ! s)\<lparr> e_shard := sh1, e_queues := (e_queues (gw_engines g ! s))[w := q] \<rparr>]
    \<and> lfq_items q = lfq_items (e_queues (gw_engines g ! s) ! w) @ [TNew a (unat (st_ingress ts))]
    \<and> session_manager g1 = record_order (session_manager g) (decode_order_token (eo_order_token req)) (word_of_nat a)
        (decode_symbol (eo_stock req)) cid
    \<and> gw_reject_queues g1 = gw_reject_queues g"
proof -
  let ?e = "gw_engines g ! s" and ?g = "record_latency g req t5" and ?ob = "requested w cid req a"
  let ?tok = "decode_order_token (eo_order_token req)" and ?inst = "decode_symbol (eo_stock req)"
  have sl: "s < NUM_SHARDS" "s < length (gw_engines g)" using s gw_okD(3) [OF ok] by (auto simp: NUM_SHARDS_def)
  have bk: "books_ok sh1 (e_books ?e) (V s) (insert a (P s))" "a \<notin> live (V s) \<union> P s" "0 < a" "a < MAX_ORDERS_LOOKUP"
    "ord (mem sh1) = (ord (mem (e_shard ?e)))(a := ?ob)" "ack_workers (outs sh1) = Some W"
    using place_requested [OF ok w sl(1), where cid = cid and req = req] pl by auto
  have eo: "engine_ok ?e (V s) (P s)" using gw_okD(5) [OF ok sl(1)] .
  have wl: "w < length (e_queues ?e)" using gw_okD(7) [OF ok sl(1)] w by simp
  then have "lfq_ok (e_queues ?e ! w)" using eo by (simp add: engine_ok_def)
  then obtain q where q: "lfq_push (e_queues ?e ! w) (TNew a (unat (st_ingress ts))) = (True, q)"
    using lfq.push_fits [OF _ room] by metis
  have inst: "unat ?inst < MAX_INSTRUMENTS" "instrument_id ?ob = unat ?inst" using acceptable_inst [OF ac] by (auto simp: requested_def)
  then have oi: "our_instrument (e_shard_id ?e) (instrument_id ?ob)"
    using s gw_okD(6) [OF ok sl(1)] by (auto simp: our_instrument_def NUM_SHARDS_def)
  let ?e1 = "?e\<lparr> e_shard := sh1, e_queues := (e_queues ?e)[w := q] \<rparr>"
  have e1: "engine_ok ?e1 (V s) (insert a (P s))"
    by (rule engine_push_new [OF eo wl q bk(1) _ bk(5) oi]) (use bk(2) in simp)
  have ua: "unat (word_of_nat a :: u64) = a" using bk(4) by (simp add: unat_of_nat MAX_ORDERS_LOOKUP_def POOL_CAPACITY_PER_SHARD_def)
  have fits: "session_registrable ?tok" "session_fits (word_of_nat a) ?inst"
    using ac inst(1) bk(4) by (simp_all add: session_registrable_def acceptable_def session_fits_def ua MAX_ORDERS_LOOKUP_def POOL_CAPACITY_PER_SHARD_def)
  let ?sm = "record_order (session_manager g) ?tok (word_of_nat a) ?inst cid"
  have so: "session_ok ?sm" using session_ok_record [OF gw_okD(11) [OF ok] fits] bk(4) by (simp add: ua)
  have old: "owner_ok ?sm s (idents ?e (V s) (P s))"
    by (rule owner_ok_record [OF gw_okD(9) [OF ok sl(1)] fits]) (use idents_slot [OF eo] bk(2) ua in auto)
  have oth: "owner_ok ?sm r (idents (gw_engines g ! r) (V r) (P r))" if "r < NUM_SHARDS" "r \<noteq> s" for r
    by (rule owner_ok_record [OF gw_okD(9) [OF ok that(1)] fits]) (use that s in auto)
  have "idents ?e1 (V s) (insert a (P s)) = insert (ident ?ob) (idents ?e (V s) (P s))"
    by (rule idents_place [OF bk(5,2)])
  moreover have "owner_ok ?sm s {ident ?ob}"
    using ac session.lookup_same [OF fits] unat_less [of cid]
    by (simp add: owner_ok_def ident_def requested_def acceptable_def ua)
  ultimately have new: "owner_ok ?sm s (idents ?e1 (V s) (insert a (P s)))" using old by (simp add: owner_ok_def)
  define g3 where "g3 = (upd_engine ?g s ?e1)\<lparr> session_manager := ?sm \<rparr>"
  have "gw_ok W g3 (V(s := V s)) (P(s := insert a (P s)))"
    using gw_okD(6-8) [OF ok sl(1)] ok sl(1) e1 bk(6) so new oth unfolding g3_def by (intro gw_ok_upd) auto
  moreover have "push_task ((upd_engine ?g s (?e\<lparr> e_shard := sh1 \<rparr>))\<lparr> session_manager := ?sm \<rparr>) s w (TNew a (unat (st_ingress ts))) = Some g3"
    using sl(2) wl q by (simp add: g3_def push_task_def upd_engine_def list_get_def)
  then have "\<exists>x. handle_new g w cid req t5 ts = Some (g3\<lparr> gws := x \<rparr>)"
    using ac pl sl(2) unfolding handle_new_def Let_def acceptable_def
    by (simp add: s list_get_def upd_engine_def) (rule exI, rule refl)
  moreover have "lfq_items q = lfq_items (e_queues ?e ! w) @ [TNew a (unat (st_ingress ts))]" by (rule engine_ok_queue(1) [OF eo wl q]) simp
  ultimately show ?thesis by (auto simp: g3_def upd_engine_def)
qed


section \<open>A cancel\<close>

lemma push_task_cancel_ok:
  assumes ok: "gw_ok W g V P" and w: "w < W" and s: "s < NUM_SHARDS" and idx: "idx < MAX_ORDERS_LOOKUP"
    and room: "length (lfq_items (e_queues (gw_engines g ! s) ! w)) < lfq_room (e_queues (gw_engines g ! s) ! w)"
  shows "\<exists>g1 q. push_task g s w (TCancel idx tok i) = Some g1 \<and> gw_ok W g1 V P
    \<and> g1 = upd_engine g s ((gw_engines g ! s)\<lparr> e_queues := (e_queues (gw_engines g ! s))[w := q] \<rparr>)
    \<and> lfq_items q = lfq_items (e_queues (gw_engines g ! s) ! w) @ [TCancel idx tok i]"
proof -
  let ?e = "gw_engines g ! s"
  have eo: "engine_ok ?e (V s) (P s)" using gw_okD(5) [OF ok s] .
  have l: "s < length (gw_engines g)" "w < length (e_queues ?e)" using gw_okD(3,7) [OF ok] s w by auto
  then have "lfq_ok (e_queues ?e ! w)" using eo by (simp add: engine_ok_def)
  then obtain q where q: "lfq_push (e_queues ?e ! w) (TCancel idx tok i) = (True, q)"
    using lfq.push_fits [OF _ room] by metis
  let ?e1 = "?e\<lparr> e_queues := (e_queues ?e)[w := q] \<rparr>"
  have "idents ?e1 (V s) (P s) = idents ?e (V s) (P s)" by (simp add: idents_def)
  then have "gw_ok W ((upd_engine g s ?e1)\<lparr> session_manager := session_manager g \<rparr>) (V(s := V s)) (P(s := P s))"
    using gw_okD [OF ok] ok s engine_push_cancel [OF eo l(2) q idx] by (intro gw_ok_upd) auto
  moreover have "(upd_engine g s ?e1)\<lparr> session_manager := session_manager g \<rparr> = upd_engine g s ?e1"
    by (cases g) (simp add: upd_engine_def)
  moreover have "lfq_items q = lfq_items (e_queues ?e ! w) @ [TCancel idx tok i]" by (rule engine_ok_queue(1) [OF eo l(2) q]) (simp add: idx)
  ultimately show ?thesis using l q by (auto simp: push_task_def list_get_def)
qed

text \<open>A cancel the gateway passes on: the session map knows the token and this client registered it.\<close>

definition cancellable :: "gateway \<Rightarrow> u32 \<Rightarrow> OuchCancelOrder \<Rightarrow> bool" where
  "cancellable g cid req \<longleftrightarrow> (let tok = decode_order_token (co_order_token req); d = lookup_data (session_manager g) tok
     in unat tok < MAX_CLIENT_ORDERS \<and> sd_internal_id d \<noteq> 0 \<and> sd_client_id d = cid)"

lemma handle_cancel_cases:
  assumes ok: "gw_ok W g V P" and w: "w < W"
    and d: "d = lookup_data (session_manager g) (decode_order_token (co_order_token req))"
    and s: "s = unat (sd_instrument_id d) mod NUM_SHARDS"
    and room: "cancellable g cid req \<Longrightarrow> length (lfq_items (e_queues (gw_engines g ! s) ! w)) < lfq_room (e_queues (gw_engines g ! s) ! w)"
  shows "\<exists>g1 q. handle_cancel g w cid req ts = Some g1 \<and> gw_ok W g1 V P
    \<and> session_manager g1 = session_manager g \<and> gw_reject_queues g1 = gw_reject_queues g
    \<and> gw_engines g1 = (if cancellable g cid req
        then (gw_engines g)[s := (gw_engines g ! s)\<lparr> e_queues := (e_queues (gw_engines g ! s))[w := q] \<rparr>] else gw_engines g)
    \<and> (cancellable g cid req \<longrightarrow> lfq_items q = lfq_items (e_queues (gw_engines g ! s) ! w)
         @ [TCancel (unat (sd_internal_id d)) (unat (decode_order_token (co_order_token req))) (unat (st_ingress ts))])"
proof (cases "cancellable g cid req")
  case True
  let ?tok = "decode_order_token (co_order_token req)"
  have c: "unat ?tok < MAX_CLIENT_ORDERS" "sd_internal_id d \<noteq> 0" "sd_client_id d = cid" using True d by (auto simp: cancellable_def Let_def)
  have sl: "s < NUM_SHARDS" using s by (simp add: NUM_SHARDS_def)
  have idx: "unat (sd_internal_id d) < MAX_ORDERS_LOOKUP" using gw_okD(11) [OF ok] d by (simp add: session_ok_def)
  obtain g1 q where g1: "push_task g s w (TCancel (unat (sd_internal_id d)) (unat ?tok) (unat (st_ingress ts))) = Some g1"
    "gw_ok W g1 V P" "g1 = upd_engine g s ((gw_engines g ! s)\<lparr> e_queues := (e_queues (gw_engines g ! s))[w := q] \<rparr>)"
    "lfq_items q = lfq_items (e_queues (gw_engines g ! s) ! w) @ [TCancel (unat (sd_internal_id d)) (unat ?tok) (unat (st_ingress ts))]"
    using push_task_cancel_ok [OF ok w sl idx room [OF True]] by blast
  have "\<exists>x. handle_cancel g w cid req ts = Some (g1\<lparr> gws := x \<rparr>)"
    using c g1(1) unfolding handle_cancel_def Let_def d [symmetric] by (auto simp: s)
  then show ?thesis using True g1 by (auto simp: upd_engine_def)
next
  case False
  then have n: "\<not> (unat (decode_order_token (co_order_token req)) < MAX_CLIENT_ORDERS \<and> sd_internal_id d \<noteq> 0 \<and> sd_client_id d = cid)"
    using d by (simp add: cancellable_def Let_def)
  have "\<exists>x. handle_cancel g w cid req ts = Some (g\<lparr> gws := x \<rparr>)"
    using n unfolding handle_cancel_def Let_def d [symmetric] by auto
  then show ?thesis using False ok by auto
qed

section \<open>The start state\<close>

text \<open>The buffers of the queues are uninitialised memory: parameters.\<close>

record raw_memory =
  raw_itch :: "nat \<Rightarrow> ItchMessage"
  raw_drop :: "nat \<Rightarrow> DropCopyMessage"
  raw_ack :: "nat \<Rightarrow> OutboundAck"
  raw_task :: "nat \<Rightarrow> EngineTask"
  raw_tsc :: "nat \<Rightarrow> nat \<times> nat"

text \<open>The number of gateway workers from \<open>GATEWAY_THREADS\<close>: 1 if unset, clamped to \<open>1 .. 16\<close>.\<close>

definition num_gateways :: "int option \<Rightarrow> nat" where
  "num_gateways env_threads =
     (let n = (case env_threads of None \<Rightarrow> 1 | Some k \<Rightarrow> k);
          n1 = (if n < 1 then 1 else n);
          n2 = (if n1 > 16 then 16 else n1)
      in nat n2)"

definition shard_start :: "nat \<Rightarrow> raw_memory \<Rightarrow> nat \<Rightarrow> engine" where
  "shard_start num_gw raw i =
     engine_init i (shard_init num_gw (outputs_init num_gw (raw_itch raw) (raw_drop raw) (raw_ack raw)))
       (replicate num_gw (lfq_init 524288 (raw_task raw))) (lfq_init 1048576 (raw_tsc raw))"

definition gw_stats_init :: gw_stats where
  "gw_stats_init = \<lparr> total_udp = 0, total_trading = 0, total_q = 0, total_tcp = 0, total_e2e = 0, num_samples = 0,
     total_epoll_cycles = 0, total_read_cycles = 0, total_decode_cycles = 0, total_validation_cycles = 0,
     total_enqueue_cycles = 0, total_allocate_cycles = 0, total_record_cycles = 0, total_push_cycles = 0,
     total_orders_processed = 0, total_worker_cycles = 0, total_epoll_idle_cycles = 0, total_drain_cycles = 0,
     e2e_timer = timer_init 1000000, tcp_timer = timer_init 1000000 \<rparr>"

definition exchange_init :: "int option \<Rightarrow> bool \<Rightarrow> raw_memory \<Rightarrow> gateway" where
  "exchange_init env_threads profile raw =
     (let num_gw = num_gateways env_threads
      in \<lparr> gw_engines = map (shard_start num_gw raw) [0 ..< NUM_SHARDS],
           gw_reject_queues = replicate num_gw (lfq_init 1048576 (raw_drop raw)),
           session_manager = session_init, risk_engine = default_risk, next_client_id = 1, profile_latency = profile,
           gws = gw_stats_init \<rparr>)"

lemma num_gateways_range: "0 < num_gateways n" "num_gateways n \<le> 16"
  by (auto simp: num_gateways_def Let_def split: option.splits)

lemma shard_start_ok:
  assumes "0 < W" and "W \<le> 16" and "i < NUM_SHARDS"
  shows "engine_ok (shard_start W raw i) (\<lambda>_. []) {}" and "e_shard_id (shard_start W raw i) = i"
    and "length (e_queues (shard_start W raw i)) = W" and "ack_workers (outs (e_shard (shard_start W raw i))) = Some W"
proof -
  have q: "lfq_ok (lfq_init 524288 (raw_task raw))" "lfq_items (lfq_init 524288 (raw_task raw)) = []" "lfq_ok (lfq_init 1048576 (raw_tsc raw))"
    using lfq_init_ok [of 19 "raw_task raw"] lfq_init_ok [of 20 "raw_tsc raw"] by auto
  then have "queued_orders (replicate W (lfq_init 524288 (raw_task raw))) = []" by (simp add: queued_orders_def)
  then show "engine_ok (shard_start W raw i) (\<lambda>_. []) {}"
    unfolding shard_start_def
    using books_init_ok [OF assms(1,2) outputs_init_ok] assms(3) q by (intro engine_init_ok) (auto simp: NUM_SHARDS_def)
  show "e_shard_id (shard_start W raw i) = i" "length (e_queues (shard_start W raw i)) = W"
    "ack_workers (outs (e_shard (shard_start W raw i))) = Some W"
    using outputs_init_ok(2) by (simp_all add: shard_start_def engine_init_def shard_init_def)
qed

lemma session_ok_init: "session_ok session_init"
proof -
  have "unat (sd_instrument_id (lookup_data session_init tok)) = 0" for tok
    by (simp add: lookup_data_def session_init_def unpack_zero)
  then show ?thesis
    by (simp add: session_ok_def lookup_init MAX_ORDERS_LOOKUP_def POOL_CAPACITY_PER_SHARD_def MAX_INSTRUMENTS_def)
qed

lemma exchange_init_ok: "gw_ok (num_gateways n) (exchange_init n pr raw) (\<lambda>_ _. []) (\<lambda>_. {})"
proof -
  have "lfq_ok (lfq_init 1048576 (raw_drop raw))" using lfq_init_ok [of 20 "raw_drop raw"] by auto
  then show ?thesis
    using num_gateways_range [of n] shard_start_ok [of "num_gateways n" _ raw] session_ok_init
    by (simp add: gw_ok_def exchange_init_def Let_def idents_def live_def owner_ok_def)
qed

section \<open>Properties\<close>

text \<open>
  C2. Admission of a new order, on every branch. In a state that satisfies the invariant, with room in the worker's
  engine queues, the handler returns and keeps the invariant. A request with a malformed or too large token or one that
  fails the risk check changes no shard and no registration and is reported on the worker's reject queue; so is one that
  finds the worker's part of the pool exhausted. Otherwise the order gets a slot no other order of the shard uses, is stored
  with exactly the requested fields and the connection's identity, is registered under its token, and is queued behind
  the earlier requests of this worker at the engine of its instrument; nothing else changes.
\<close>

theorem new_order_admission:
  assumes "gw_ok W g V P" and "w < W" and "s = unat (decode_symbol (eo_stock req)) mod NUM_SHARDS"
    and "\<forall>e \<in> set (gw_engines g). length (lfq_items (e_queues e ! w)) < lfq_room (e_queues e ! w)"
    and "tok = decode_order_token (eo_order_token req)" and "sd = (if eo_side req = ch CHR ''B'' then BUY else SELL)"
  shows "\<exists>g1 P1. handle_new g w cid req t5 ts = Some g1 \<and> gw_ok W g1 V P1
    \<and> (if \<not> acceptable g req
       then P1 = P \<and> gw_engines g1 = gw_engines g
         \<and> rejected g g1 w (reject_message (if tok = INVALID_ORDER_TOKEN then 0 else tok) req (decode_symbol (eo_stock req)) sd)
       else case place_order (e_shard (gw_engines g ! s)) w (requested_node w cid req) of
         None \<Rightarrow> False
       | Some (None, sh1) \<Rightarrow> P1 = P \<and> map e_queues (gw_engines g1) = map e_queues (gw_engines g)
           \<and> rejected g g1 w (reject_message tok req (decode_symbol (eo_stock req)) sd)
       | Some (Some a, sh1) \<Rightarrow> a \<notin> live (V s) \<union> P s \<and> P1 = P(s := insert a (P s))
           \<and> ord (mem (e_shard (gw_engines g1 ! s))) = (ord (mem (e_shard (gw_engines g ! s))))(a := requested w cid req a)
           \<and> lfq_items (e_queues (gw_engines g1 ! s) ! w) = lfq_items (e_queues (gw_engines g ! s) ! w) @ [TNew a (unat (st_ingress ts))]
           \<and> lookup_data (session_manager g1) (decode_order_token (eo_order_token req))
               = \<lparr> sd_internal_id = word_of_nat a, sd_instrument_id = decode_symbol (eo_stock req), sd_client_id = cid \<rparr>
           \<and> gw_reject_queues g1 = gw_reject_queues g \<and> (\<forall>r. r \<noteq> s \<longrightarrow> gw_engines g1 ! r = gw_engines g ! r))"
proof (cases "acceptable g req")
  case False
  then show ?thesis using handle_new_refused [OF assms(1,2) False, of cid t5 ts] unfolding assms(5,6) by auto
next
  case ac: True
  have sl: "s < NUM_SHARDS" "s < length (gw_engines g)" using assms(3) gw_okD(3) [OF assms(1)] by (auto simp: NUM_SHARDS_def)
  have room: "length (lfq_items (e_queues (gw_engines g ! s) ! w)) < lfq_room (e_queues (gw_engines g ! s) ! w)"
    using assms(4) sl(2) by simp
  have wl: "w < length (e_queues (gw_engines g ! s))" using gw_okD(7) [OF assms(1) sl(1)] assms(2) by simp
  obtain r sh1 where pl: "place_order (e_shard (gw_engines g ! s)) w (requested_node w cid req) = Some (r, sh1)"
    and rc: "case r of None \<Rightarrow> True | Some a \<Rightarrow> a \<notin> live (V s) \<union> P s \<and> a < MAX_ORDERS_LOOKUP
      \<and> ord (mem sh1) = (ord (mem (e_shard (gw_engines g ! s))))(a := requested w cid req a)"
    using place_requested [OF assms(1,2) sl(1), where cid = cid and req = req] by (auto split: option.splits)
  show ?thesis
  proof (cases r)
    case None
    then show ?thesis using handle_new_exhausted [OF assms(1,2) ac assms(3) pl [unfolded None], of t5 ts] pl ac
      unfolding assms(5,6) by (auto split del: if_split)
  next
    case (Some a)
    obtain g1 q where g1: "handle_new g w cid req t5 ts = Some g1" "gw_ok W g1 V (P(s := insert a (P s)))"
      "gw_engines g1 = (gw_engines g)[s := (gw_engines g ! s)\<lparr> e_shard := sh1, e_queues := (e_queues (gw_engines g ! s))[w := q] \<rparr>]"
      "lfq_items q = lfq_items (e_queues (gw_engines g ! s) ! w) @ [TNew a (unat (st_ingress ts))]"
      "session_manager g1 = record_order (session_manager g) (decode_order_token (eo_order_token req)) (word_of_nat a)
        (decode_symbol (eo_stock req)) cid" "gw_reject_queues g1 = gw_reject_queues g"
      using handle_new_placed [OF assms(1,2) ac assms(3) pl [unfolded Some] room, of t5 ts] by blast
    have a: "a \<notin> live (V s) \<union> P s" "a < MAX_ORDERS_LOOKUP"
      "ord (mem sh1) = (ord (mem (e_shard (gw_engines g ! s))))(a := requested w cid req a)" using rc Some by auto
    have "session_registrable (decode_order_token (eo_order_token req))" "session_fits (word_of_nat a) (decode_symbol (eo_stock req))"
      using ac acceptable_inst [OF ac] a(2)
      by (simp_all add: session_registrable_def acceptable_def session_fits_def unat_of_nat MAX_ORDERS_LOOKUP_def POOL_CAPACITY_PER_SHARD_def)
    then have "lookup_data (session_manager g1) (decode_order_token (eo_order_token req))
        = \<lparr> sd_internal_id = word_of_nat a, sd_instrument_id = decode_symbol (eo_stock req), sd_client_id = cid \<rparr>"
      using session.lookup_same g1(5) by simp
    moreover have "gw_engines g1 ! s = (gw_engines g ! s)\<lparr> e_shard := sh1, e_queues := (e_queues (gw_engines g ! s))[w := q] \<rparr>"
      "r \<noteq> s \<Longrightarrow> gw_engines g1 ! r = gw_engines g ! r" for r using g1(3) sl(2) by auto
    ultimately show ?thesis using g1 a ac pl Some wl by (simp split del: if_split)
  qed
qed

text \<open>A gateway with one worker, freshly started, and a request for 10 shares of instrument 5 at price 100.\<close>

definition sample_raw :: raw_memory where
  "sample_raw = \<lparr> raw_itch = q_buffer (mkt_data_queue sample_outputs), raw_drop = q_buffer (drop_copy_queue sample_outputs),
     raw_ack = (\<lambda>_. \<lparr> ack_report = \<lparr> er_msg_type = 0, er_order_token = [], er_executed_shares = 0, er_execution_price = 0,
            er_liquidity_flag = 0, er_match_number = [] \<rparr>, ack_client_id = 0 \<rparr>),
     raw_task = (\<lambda>_. TCancel 0 0 0), raw_tsc = (\<lambda>_. (0, 0)) \<rparr>"

definition sample_exchange :: gateway where "sample_exchange = exchange_init None False sample_raw"

definition sample_enter :: OuchEnterOrder where
  "sample_enter = \<lparr> eo_msg_type = ch CHR ''O'', eo_order_token = encode_order_token 77, eo_side = ch CHR ''B'', eo_shares = 10,
     eo_stock = encode_symbol 5, eo_price = 100, eo_time_in_force = 0, eo_firm = [0, 0, 0, 0], eo_display = 0, eo_capacity = 0,
     eo_iso_eligibility = 0, eo_min_quantity = 0, eo_cross_type = 0, eo_customer_type = 0, eo_t1_exchange_send = 0,
     eo_t2_trading_recv = 0, eo_t3_trading_enq = 0, eo_t4_network_deq = 0 \<rparr>"

lemma num_gateways_None [simp]: "num_gateways None = 1"
  by (simp add: num_gateways_def)

lemma sample_exchange_ok:
  "gw_ok 1 sample_exchange (\<lambda>_ _. []) (\<lambda>_. {})"
  "\<forall>e \<in> set (gw_engines sample_exchange). length (lfq_items (e_queues e ! 0)) < lfq_room (e_queues e ! 0)"
proof -
  show "gw_ok 1 sample_exchange (\<lambda>_ _. []) (\<lambda>_. {})" using exchange_init_ok [of None False sample_raw] by (simp add: sample_exchange_def)
  have "lfq_items (lfq_init 524288 b) = [] \<and> lfq_room (lfq_init 524288 b) = 524287" for b :: "nat \<Rightarrow> EngineTask"
    using lfq_init_ok [of 19 b] by simp
  then show "\<forall>e \<in> set (gw_engines sample_exchange). length (lfq_items (e_queues e ! 0)) < lfq_room (e_queues e ! 0)"
    by (simp add: sample_exchange_def exchange_init_def Let_def shard_start_def engine_init_def)
qed

lemma sample_enter_simps:
  "decode_order_token (eo_order_token sample_enter) = 77" "decode_symbol (eo_stock sample_enter) = 5" "eo_side sample_enter = ch CHR ''B''"
  using decode_token_encode [of 77] symbol_decode_encode [of 5] by (simp_all add: sample_enter_def MAX_INSTRUMENTS_def)

lemma sample_acceptable: "acceptable sample_exchange sample_enter"
  by (simp add: acceptable_def sample_enter_simps MAX_CLIENT_ORDERS_def)
    (simp add: sample_exchange_def exchange_init_def Let_def check_pre_trade_def default_risk_def sample_enter_def MAX_INSTRUMENTS_def)

theorem new_order_admission_witness:
  "\<exists>g1 a. handle_new sample_exchange 0 3 sample_enter 0 (sample_stamps 0) = Some g1 \<and> gw_ok 1 g1 (\<lambda>_ _. []) ((\<lambda>_. {})(1 := {a}))
    \<and> ord (mem (e_shard (gw_engines g1 ! 1))) a = requested 0 3 sample_enter a
    \<and> lookup_data (session_manager g1) 77 = \<lparr> sd_internal_id = word_of_nat a, sd_instrument_id = 5, sd_client_id = 3 \<rparr>"
proof -
  have s: "1 = unat (decode_symbol (eo_stock sample_enter)) mod NUM_SHARDS" by (simp add: sample_enter_simps NUM_SHARDS_def)
  have "gw_engines sample_exchange ! 1 = shard_start 1 sample_raw 1"
    by (simp add: sample_exchange_def exchange_init_def Let_def NUM_SHARDS_def)
  then have "\<exists>a sh1. place_order (e_shard (gw_engines sample_exchange ! 1)) 0 (requested_node 0 3 sample_enter) = Some (Some a, sh1)"
    by (simp add: shard_start_def engine_init_def place_order_def pool_allocate_def shard_init_def pool_init_def lfq_pop_def
        lfq_init_def pool_start_def POOL_CAPACITY_PER_SHARD_def set_mem_def)
  then obtain a sh1 where pl: "place_order (e_shard (gw_engines sample_exchange ! 1)) 0 (requested_node 0 3 sample_enter) = Some (Some a, sh1)"
    by blast
  show ?thesis
    using new_order_admission [OF sample_exchange_ok(1) _ s sample_exchange_ok(2) refl refl, of 3 0 "sample_stamps 0"] pl sample_acceptable
    by (auto simp: sample_enter_simps)
qed

text \<open>
  C3. Only the owner's order can be cancelled. In a state that satisfies the invariant, with room in the worker's engine
  queues, handling a cancel returns and keeps the invariant and every registration. If the token is unknown or was last
  registered by another connection, nothing is queued. Otherwise one cancel task is queued behind the worker's earlier
  requests at the shard of the order, and every order of that shard the task could name, by slot and token, belongs to the
  connection that sent the cancel.
\<close>

theorem cancel_only_own:
  assumes "gw_ok W g V P" and "w < W"
    and "\<forall>e \<in> set (gw_engines g). length (lfq_items (e_queues e ! w)) < lfq_room (e_queues e ! w)"
    and "tok = decode_order_token (co_order_token req)" and "d = lookup_data (session_manager g) tok"
    and "s = unat (sd_instrument_id d) mod NUM_SHARDS"
  shows "\<exists>g1. handle_cancel g w cid req ts = Some g1 \<and> gw_ok W g1 V P \<and> session_manager g1 = session_manager g
    \<and> gw_reject_queues g1 = gw_reject_queues g
    \<and> (if unat tok < MAX_CLIENT_ORDERS \<and> sd_internal_id d \<noteq> 0 \<and> sd_client_id d = cid
       then lfq_items (e_queues (gw_engines g1 ! s) ! w)
              = lfq_items (e_queues (gw_engines g ! s) ! w) @ [TCancel (unat (sd_internal_id d)) (unat tok) (unat (st_ingress ts))]
            \<and> (\<forall>r. r \<noteq> s \<longrightarrow> gw_engines g1 ! r = gw_engines g ! r)
            \<and> (\<forall>a \<in> live (V s) \<union> P s. a = unat (sd_internal_id d) \<and> client_order_id (mem (e_shard (gw_engines g ! s)) a) = unat tok
                 \<longrightarrow> client_id (mem (e_shard (gw_engines g ! s)) a) = unat cid)
       else gw_engines g1 = gw_engines g)"
proof -
  have sl: "s < NUM_SHARDS" "s < length (gw_engines g)" using assms(6) gw_okD(3) [OF assms(1)] by (auto simp: NUM_SHARDS_def)
  have wl: "w < length (e_queues (gw_engines g ! s))" using gw_okD(7) [OF assms(1) sl(1)] assms(2) by simp
  have c: "cancellable g cid req \<longleftrightarrow> unat tok < MAX_CLIENT_ORDERS \<and> sd_internal_id d \<noteq> 0 \<and> sd_client_id d = cid"
    using assms(4,5) by (simp add: cancellable_def Let_def)
  have room: "length (lfq_items (e_queues (gw_engines g ! s) ! w)) < lfq_room (e_queues (gw_engines g ! s) ! w)" using assms(3) sl(2) by simp
  obtain g1 q where g1: "handle_cancel g w cid req ts = Some g1" "gw_ok W g1 V P" "session_manager g1 = session_manager g"
    "gw_reject_queues g1 = gw_reject_queues g"
    "gw_engines g1 = (if cancellable g cid req
        then (gw_engines g)[s := (gw_engines g ! s)\<lparr> e_queues := (e_queues (gw_engines g ! s))[w := q] \<rparr>] else gw_engines g)"
    "cancellable g cid req \<longrightarrow> lfq_items q = lfq_items (e_queues (gw_engines g ! s) ! w)
         @ [TCancel (unat (sd_internal_id d)) (unat tok) (unat (st_ingress ts))]"
    using handle_cancel_cases [OF assms(1,2) assms(5) [unfolded assms(4)] assms(6) room, of cid ts] unfolding assms(4) by blast
  have own: "client_id (mem (e_shard (gw_engines g ! s)) a) = unat (sd_client_id d)"
    if "a \<in> live (V s) \<union> P s" "a = unat (sd_internal_id d)" "client_order_id (mem (e_shard (gw_engines g ! s)) a) = unat tok" for a
  proof -
    let ?ob = "ident (ord (mem (e_shard (gw_engines g ! s))) a)"
    have i: "?ob \<in> idents (gw_engines g ! s) (V s) (P s)" using that(1) by (auto simp: idents_def)
    have b: "books_ok (e_shard (gw_engines g ! s)) (e_books (gw_engines g ! s)) (V s) (P s)"
      using gw_okD(5) [OF assms(1) sl(1)] by (simp add: engine_ok_def)
    have "internal_id ?ob = a" "client_order_id ?ob = unat tok"
      using shard_okD(5) [OF books_okD(1) [OF b] that(1)] that(3) by (auto simp: ident_def)
    then have "client_id ?ob = unat (sd_client_id d)"
      using gw_okD(9) [OF assms(1) sl(1)] i assms(5,6) that(2) by (auto simp: owner_ok_def Let_def)
    then show ?thesis by (simp add: ident_def)
  qed
  show ?thesis
  proof (cases "cancellable g cid req")
    case True
    then have "gw_engines g1 ! s = (gw_engines g ! s)\<lparr> e_queues := (e_queues (gw_engines g ! s))[w := q] \<rparr>"
      "\<forall>r. r \<noteq> s \<longrightarrow> gw_engines g1 ! r = gw_engines g ! r" using g1(5) sl(2) by auto
    then show ?thesis using g1 True own wl c by auto
  next
    case False
    then show ?thesis using g1 c by auto
  qed
qed

definition sample_cancel_request :: OuchCancelOrder where
  "sample_cancel_request = \<lparr> co_msg_type = ch CHR ''X'', co_order_token = encode_order_token 77, co_shares = 0 \<rparr>"

theorem cancel_only_own_witness:
  "\<exists>g1. handle_cancel sample_exchange 0 3 sample_cancel_request (sample_stamps 0) = Some g1 \<and> gw_ok 1 g1 (\<lambda>_ _. []) (\<lambda>_. {})
    \<and> gw_engines g1 = gw_engines sample_exchange"
proof -
  have "session_manager sample_exchange = session_init" by (simp add: sample_exchange_def exchange_init_def Let_def)
  then have "sd_internal_id (lookup_data (session_manager sample_exchange) (decode_order_token (co_order_token sample_cancel_request))) = 0"
    using lookup_init by simp
  then show ?thesis
    using cancel_only_own [OF sample_exchange_ok(1) _ sample_exchange_ok(2) refl refl refl, where req = sample_cancel_request and cid = 3 and ts = "sample_stamps 0"]
    by auto
qed

end
