(* ===== verification/Exchange.thy ===== *)
theory Exchange
  imports Gateway_Admit
begin

text \<open>
  The exchange as a state machine: gateway workers, the engines of the four shards and the consumers of the output
  queues (publisher, order manager, the egress side of the gateway) take turns. A step is one message handled by a worker,
  one queue polled by an engine, or one item taken by a consumer. Every reachable state satisfies the invariant of theory
  \<open>Gateway_Admit\<close>, and in it no operation has undefined behaviour.
\<close>

section \<open>Matching keeps the identity of orders\<close>

lemma ident_quantity [simp]: "ident (ob\<lparr> quantity := q \<rparr>) = ident ob"
  by (simp add: ident_def)

lemma spec_match_ident:
  "spec_match a rs = (a1, rs1, fs, st) \<Longrightarrow> ident a1 = ident a \<and> ident ` set rs1 \<subseteq> ident ` set rs"
proof (induction a rs arbitrary: a1 rs1 fs st rule: spec_match.induct)
  case (2 a r rs)
  show ?case
  proof (cases "quantity a = 0 \<or> client_id r = client_id a \<or> quantity a < quantity r")
    case False
    obtain a2 rs2 fs2 st2 where m: "spec_match (a\<lparr> quantity := quantity a - quantity r \<rparr>) rs = (a2, rs2, fs2, st2)" by (metis prod_cases4)
    then show ?thesis using "2.IH" [OF _ _ _ m] "2.prems" False by auto
  qed (use "2.prems" in \<open>auto split: if_splits\<close>)
qed simp

lemma sweep_ident:
  "sweep a ps B = (a1, B1, fs, st) \<Longrightarrow> ident a1 = ident a \<and> (\<forall>p. ident ` set (B1 p) \<subseteq> ident ` set (B p))"
proof (induction ps arbitrary: a B a1 B1 fs st)
  case (Cons p ps)
  obtain a2 rs fs2 st2 where m: "spec_match a (B p) = (a2, rs, fs2, st2)" by (metis prod_cases4)
  obtain a3 B3 fs3 st3 where s: "sweep a2 ps (B(p := rs)) = (a3, B3, fs3, st3)" by (metis prod_cases4)
  have r: "\<forall>q. ident ` set ((B(p := rs)) q) \<subseteq> ident ` set (B q)" "ident a2 = ident a" using spec_match_ident [OF m] by auto
  have i: "ident a3 = ident a2" "\<forall>q. ident ` set (B3 q) \<subseteq> ident ` set ((B(p := rs)) q)" using Cons.IH [OF s] by auto
  show ?case
  proof (cases st2)
    case True
    then show ?thesis using Cons.prems m r by auto
  next
    case False
    then have "a1 = a3" "B1 = B3" using Cons.prems m s by auto
    then show ?thesis using r i by (metis order_trans)
  qed
qed simp

definition book_idents :: "(lkey \<Rightarrow> order list) \<Rightarrow> order set" where
  "book_idents B = ident ` (\<Union>k. set (B k))"

fun rq_idents :: "request \<Rightarrow> order set" where
  "rq_idents (RqNew ob) = {ident ob}"
| "rq_idents (RqCancel idx tok) = {}"

lemma book_identsI: "(\<And>k. ident ` set (B1 k) \<subseteq> I) \<Longrightarrow> book_idents B1 \<subseteq> I"
  unfolding book_idents_def by blast

lemma book_idents_mem: "ident ` set (B k) \<subseteq> book_idents B"
  unfolding book_idents_def by blast

lemma spec_order_ident: "spec_order B ob = (B1, reps) \<Longrightarrow> book_idents B1 \<subseteq> insert (ident ob) (book_idents B)"
proof (rule book_identsI)
  fix k
  assume sp: "spec_order B ob = (B1, reps)"
  let ?i = "instrument_id ob" and ?o = "opposite (side ob)"
  obtain a L fs st where w: "sweep ob (crossing (side ob) (price ob)) (side_view B ?i ?o) = (a, L, fs, st)" by (metis prod_cases4)
  have s: "ident a = ident ob" "\<And>p. ident ` set (L p) \<subseteq> book_idents B"
    using sweep_ident [OF w] book_idents_mem [of B "(?i, ?o, _)"] unfolding side_view_def by blast+
  have ss: "ident ` set (set_side B ?i ?o L j) \<subseteq> book_idents B" for j
    using s(2) book_idents_mem [of B j] by (cases j) (auto simp: set_side_def)
  have "set (B1 k) \<subseteq> insert a (set (set_side B ?i ?o L k)) \<or> B1 = B"
    using sp w by (auto simp: spec_order_def Let_def split: if_splits)
  then show "ident ` set (B1 k) \<subseteq> insert (ident ob) (book_idents B)"
    using ss [of k] s(1) book_idents_mem [of B k] by (elim disjE) blast+
qed

lemma spec_request_ident: "spec_request B rq B1 reps \<Longrightarrow> book_idents B1 \<subseteq> rq_idents rq \<union> book_idents B"
proof (induction rule: spec_request.induct)
  case (new B ob B1 reps)
  then show ?case using spec_order_ident by simp
next
  case (cancel ob B k idx tok B1 reps)
  have "set (B1 j) \<subseteq> set (B j)" for j
    using cancel.hyps(4) set_remove1_subset [of ob "B j"] by (auto simp: spec_cancel_def Let_def split: if_splits)
  then show ?case unfolding book_idents_def by blast
qed simp

lemma spec_requests_ident: "spec_requests B rqs B1 reps \<Longrightarrow> book_idents B1 \<subseteq> (\<Union>rq \<in> set rqs. rq_idents rq) \<union> book_idents B"
proof (induction rule: spec_requests.induct)
  case (more B rq B1 reps rqs B2 reps2)
  then show ?case using spec_request_ident [OF more.hyps(1)] by auto
qed simp

lemma idents_split: "idents e V P = book_idents (abook (e_shard e) V) \<union> (\<lambda>a. ident (ord (mem (e_shard e)) a)) ` P"
proof -
  have "ident ` (\<Union>k. set (abook (e_shard e) V k)) = (\<lambda>a. ident (ord (mem (e_shard e)) a)) ` live V"
    unfolding abook_def live_def set_map by blast
  then show ?thesis by (simp add: idents_def book_idents_def image_Un)
qed

lemma poll_done_idents:
  assumes ok: "engine_ok e V P" and d: "poll_done e V ks e1 V1 P1" and ks: "\<forall>k \<in> set ks. k < length (e_queues e)"
  shows "idents e1 V1 P1 \<subseteq> idents e V P"
proof -
  obtain reps where r: "spec_requests (abook (e_shard e) V) (head_requests e ks) (abook (e_shard e1) V1) reps"
    "\<forall>a \<in> P1. ord (mem (e_shard e1)) a = ord (mem (e_shard e)) a" using d by (auto simp: poll_done_def)
  have "rq_idents rq \<subseteq> (\<lambda>a. ident (ord (mem (e_shard e)) a)) ` P" if rq: "rq \<in> set (head_requests e ks)" for rq
  proof -
    obtain k t where t: "k \<in> set ks" "t \<in> set (take 1 (lfq_items (e_queues e ! k)))" "rq = request_of (mem (e_shard e)) t"
      using rq by (auto simp: head_requests_def)
    have "a \<in> P" if "t = TNew a i" for a i
      using queued_orders_mem [of k "e_queues e" a i] ks t(1) in_set_takeD [OF t(2)] that ok by (auto simp: engine_ok_def)
    then show ?thesis using t(3) by (cases t) auto
  qed
  then have "book_idents (abook (e_shard e1) V1) \<subseteq> idents e V P"
    using spec_requests_ident [OF r(1)] unfolding idents_split [of e] by blast
  moreover have "(\<lambda>a. ident (ord (mem (e_shard e1)) a)) ` P1 \<subseteq> idents e V P"
    using r(2) poll_done_pending [OF d ok] by (auto simp: idents_def)
  ultimately show ?thesis unfolding idents_split [of e1] by blast
qed


section \<open>The consumers\<close>

definition pop_mkt :: "engine \<Rightarrow> ItchMessage option \<times> engine" where
  "pop_mkt e = (let (r, q) = lfq_pop (mkt_data_queue (outs (e_shard e)))
     in (r, e\<lparr> e_shard := (e_shard e)\<lparr> outs := (outs (e_shard e))\<lparr> mkt_data_queue := q \<rparr> \<rparr> \<rparr>))"

definition pop_drop :: "engine \<Rightarrow> DropCopyMessage option \<times> engine" where
  "pop_drop e = (let (r, q) = lfq_pop (drop_copy_queue (outs (e_shard e)))
     in (r, e\<lparr> e_shard := (e_shard e)\<lparr> outs := (outs (e_shard e))\<lparr> drop_copy_queue := q \<rparr> \<rparr> \<rparr>))"

definition pop_ack :: "nat \<Rightarrow> engine \<Rightarrow> (OutboundAck option \<times> engine) option" where
  "pop_ack w e = do {
     qs \<leftarrow> ack_queues (outs (e_shard e));
     q0 \<leftarrow> list_get qs w;
     let (r, q) = lfq_pop q0;
     Some (r, e\<lparr> e_shard := (e_shard e)\<lparr> outs := (outs (e_shard e))\<lparr> ack_queues := Some (qs[w := q]) \<rparr> \<rparr> \<rparr>) }"

definition pop_tsc :: "engine \<Rightarrow> (nat \<times> nat) option \<times> engine" where
  "pop_tsc e = (let (r, q) = lfq_pop (e_tsc_queue e) in (r, e\<lparr> e_tsc_queue := q \<rparr>))"

definition pop_reject :: "nat \<Rightarrow> gateway \<Rightarrow> (DropCopyMessage option \<times> gateway) option" where
  "pop_reject w g = do {
     q0 \<leftarrow> list_get (gw_reject_queues g) w;
     let (r, q) = lfq_pop q0;
     Some (r, g\<lparr> gw_reject_queues := (gw_reject_queues g)[w := q] \<rparr>) }"

lemma books_ok_outs:
  assumes "books_ok sh bs V P" and "outputs_ok s" and "ack_workers s = ack_workers (outs sh)"
  shows "books_ok (sh\<lparr> outs := s \<rparr>) bs V P"
  using assms by (simp add: books_ok_def shard_ok_def worker_known_def)

lemma engine_ok_outs:
  assumes "engine_ok e V P" and "outputs_ok s" and "ack_workers s = ack_workers (outs (e_shard e))"
  shows "engine_ok (e\<lparr> e_shard := (e_shard e)\<lparr> outs := s \<rparr> \<rparr>) V P"
  using assms books_ok_outs [of "e_shard e"] by (simp add: engine_ok_def)

lemma engine_outputs_ok: "engine_ok e V P \<Longrightarrow> outputs_ok (outs (e_shard e))"
  using shard_okD(8) [OF books_okD(1)] unfolding engine_ok_def by blast

text \<open>What a consumer leaves of an engine: the invariant, its orders, its queues of requests.\<close>

definition consumed :: "engine \<Rightarrow> engine \<Rightarrow> bool" where
  "consumed e e1 \<longleftrightarrow> e_shard_id e1 = e_shard_id e \<and> e_queues e1 = e_queues e \<and> sh_pool (e_shard e1) = sh_pool (e_shard e)
     \<and> ack_workers (outs (e_shard e1)) = ack_workers (outs (e_shard e)) \<and> (\<forall>V P. engine_ok e V P \<longrightarrow> engine_ok e1 V P)"

lemma consume_mkt:
  assumes "engine_ok e V P"
  shows "consumed e (snd (pop_mkt e))"
    "fst (pop_mkt e) = hd_or (lfq_items (mkt_data_queue (outs (e_shard e)))) None"
    "lfq_items (mkt_data_queue (outs (e_shard (snd (pop_mkt e))))) = tl (lfq_items (mkt_data_queue (outs (e_shard e))))"
proof -
  obtain r q where p: "lfq_pop (mkt_data_queue (outs (e_shard e))) = (r, q)" by (metis surj_pair)
  note o = engine_outputs_ok [OF assms]
  have sp: "lfq_ok q" "r = hd_or (lfq_items (mkt_data_queue (outs (e_shard e)))) None" "lfq_items q = tl (lfq_items (mkt_data_queue (outs (e_shard e))))"
    using lfq.pop_spec [OF _ p] o by (auto simp: outputs_ok_def)
  let ?s = "(outs (e_shard e))\<lparr> mkt_data_queue := q \<rparr>"
  have s: "outputs_ok ?s" "ack_workers ?s = ack_workers (outs (e_shard e))" using o sp(1) by (simp_all add: outputs_ok_def ack_workers_def)
  show "consumed e (snd (pop_mkt e))" using engine_ok_outs [OF _ s] s(2) by (simp add: consumed_def pop_mkt_def p)
  show "fst (pop_mkt e) = hd_or (lfq_items (mkt_data_queue (outs (e_shard e)))) None"
    "lfq_items (mkt_data_queue (outs (e_shard (snd (pop_mkt e))))) = tl (lfq_items (mkt_data_queue (outs (e_shard e))))"
    using sp by (simp_all add: pop_mkt_def p)
qed

lemma consume_drop:
  assumes "engine_ok e V P"
  shows "consumed e (snd (pop_drop e))"
    "fst (pop_drop e) = hd_or (lfq_items (drop_copy_queue (outs (e_shard e)))) None"
    "lfq_items (drop_copy_queue (outs (e_shard (snd (pop_drop e))))) = tl (lfq_items (drop_copy_queue (outs (e_shard e))))"
proof -
  obtain r q where p: "lfq_pop (drop_copy_queue (outs (e_shard e))) = (r, q)" by (metis surj_pair)
  note o = engine_outputs_ok [OF assms]
  have sp: "lfq_ok q" "r = hd_or (lfq_items (drop_copy_queue (outs (e_shard e)))) None" "lfq_items q = tl (lfq_items (drop_copy_queue (outs (e_shard e))))"
    using lfq.pop_spec [OF _ p] o by (auto simp: outputs_ok_def)
  let ?s = "(outs (e_shard e))\<lparr> drop_copy_queue := q \<rparr>"
  have s: "outputs_ok ?s" "ack_workers ?s = ack_workers (outs (e_shard e))" using o sp(1) by (simp_all add: outputs_ok_def ack_workers_def)
  show "consumed e (snd (pop_drop e))" using engine_ok_outs [OF _ s] s(2) by (simp add: consumed_def pop_drop_def p)
  show "fst (pop_drop e) = hd_or (lfq_items (drop_copy_queue (outs (e_shard e)))) None"
    "lfq_items (drop_copy_queue (outs (e_shard (snd (pop_drop e))))) = tl (lfq_items (drop_copy_queue (outs (e_shard e))))"
    using sp by (simp_all add: pop_drop_def p)
qed

lemma consume_tsc:
  assumes "engine_ok e V P"
  shows "consumed e (snd (pop_tsc e))"
proof -
  obtain r q where p: "lfq_pop (e_tsc_queue e) = (r, q)" by (metis surj_pair)
  have "lfq_ok q" using lfq.pop_spec [OF _ p] assms by (auto simp: engine_ok_def)
  then show ?thesis by (simp add: consumed_def pop_tsc_def p engine_ok_def)
qed

lemma consume_ack:
  assumes ok: "engine_ok e V P" and a: "ack_workers (outs (e_shard e)) = Some W" "w < W"
  obtains r e1 where "pop_ack w e = Some (r, e1)" "consumed e e1"
proof -
  obtain qs where qs: "ack_queues (outs (e_shard e)) = Some qs" "length qs = W" using a(1) by (auto simp: ack_workers_def)
  obtain r q where p: "lfq_pop (qs ! w) = (r, q)" by (metis surj_pair)
  note o = engine_outputs_ok [OF ok]
  have "lfq_ok q" using lfq.pop_spec [OF _ p] o qs a(2) by (auto simp: outputs_ok_def)
  then have s: "outputs_ok ((outs (e_shard e))\<lparr> ack_queues := Some (qs[w := q]) \<rparr>)"
    "ack_workers ((outs (e_shard e))\<lparr> ack_queues := Some (qs[w := q]) \<rparr>) = ack_workers (outs (e_shard e))"
    using o qs set_update_subset_insert [of qs w q] by (auto simp: outputs_ok_def ack_workers_def)
  show thesis
    by (rule that [of r "e\<lparr> e_shard := (e_shard e)\<lparr> outs := (outs (e_shard e))\<lparr> ack_queues := Some (qs[w := q]) \<rparr> \<rparr> \<rparr>"])
      (use qs a(2) p s engine_ok_outs [OF _ s] in \<open>simp_all add: pop_ack_def list_get_def consumed_def\<close>)
qed

section \<open>Steps\<close>

text \<open>
  A step of the whole system. A worker whose engine queue is full spins: it has no step until the engine has taken a
  task. \<open>connect\<close> is the identity assigned by \<open>accept\<close>.
\<close>

inductive xstep :: "nat \<Rightarrow> gateway \<Rightarrow> gateway \<Rightarrow> bool" for W where
  connect: "xstep W g (g\<lparr> next_client_id := next_client_id g + 1 \<rparr>)"
| new_order: "w < W \<Longrightarrow> handle_new g w cid req t5 ts = Some g1 \<Longrightarrow> xstep W g g1"
| cancel: "w < W \<Longrightarrow> handle_cancel g w cid req ts = Some g1 \<Longrightarrow> xstep W g g1"
| engine: "s < NUM_SHARDS \<Longrightarrow> k < W \<Longrightarrow> poll_queues [k] clk f (gw_engines g ! s) = Some (f1, e1) \<Longrightarrow> xstep W g (upd_engine g s e1)"
| publisher: "s < NUM_SHARDS \<Longrightarrow> pop_mkt (gw_engines g ! s) = (r, e1) \<Longrightarrow> xstep W g (upd_engine g s e1)"
| audit: "s < NUM_SHARDS \<Longrightarrow> pop_drop (gw_engines g ! s) = (r, e1) \<Longrightarrow> xstep W g (upd_engine g s e1)"
| latency: "s < NUM_SHARDS \<Longrightarrow> pop_tsc (gw_engines g ! s) = (t, e1) \<Longrightarrow> xstep W g (upd_engine g s e1)"
| egress: "s < NUM_SHARDS \<Longrightarrow> w < W \<Longrightarrow> pop_ack w (gw_engines g ! s) = Some (a, e1) \<Longrightarrow> xstep W g (upd_engine g s e1)"
| audit_reject: "w < W \<Longrightarrow> pop_reject w g = Some (r, g1) \<Longrightarrow> xstep W g g1"

inductive reachable :: "nat \<Rightarrow> gateway \<Rightarrow> gateway \<Rightarrow> bool" for W g0 where
  start: "reachable W g0 g0"
| step: "reachable W g0 g \<Longrightarrow> xstep W g g1 \<Longrightarrow> reachable W g0 g1"

inductive_cases xstepE: "xstep W g g1"

section \<open>The invariant is kept\<close>

lemma owner_ok_mono: "owner_ok sm s J \<Longrightarrow> I \<subseteq> J \<Longrightarrow> owner_ok sm s I"
  by (auto simp: owner_ok_def)

lemma gw_ok_engine:
  assumes ok: "gw_ok W g V P" and s: "s < NUM_SHARDS" and e: "engine_ok e V1 P1" "e_shard_id e = s" "length (e_queues e) = W"
    "ack_workers (outs (e_shard e)) = Some W" and i: "idents e V1 P1 \<subseteq> idents (gw_engines g ! s) (V s) (P s)"
  shows "gw_ok W (upd_engine g s e) (V(s := V1)) (P(s := P1))"
proof -
  have "gw_ok W ((upd_engine g s e)\<lparr> session_manager := session_manager g \<rparr>) (V(s := V1)) (P(s := P1))"
    using gw_okD(9,11) [OF ok] s owner_ok_mono [OF _ i] by (intro gw_ok_upd [OF ok s e]) auto
  moreover have "(upd_engine g s e)\<lparr> session_manager := session_manager g \<rparr> = upd_engine g s e"
    by (cases g) (simp add: upd_engine_def)
  ultimately show ?thesis by simp
qed

lemma gw_ok_consumed:
  assumes ok: "gw_ok W g V P" and s: "s < NUM_SHARDS" and c: "consumed (gw_engines g ! s) e1"
  shows "gw_ok W (upd_engine g s e1) V P"
proof -
  have "idents e1 (V s) (P s) = idents (gw_engines g ! s) (V s) (P s)" using c by (simp add: consumed_def idents_def)
  then have "gw_ok W (upd_engine g s e1) (V(s := V s)) (P(s := P s))"
    using gw_okD [OF ok] s c by (intro gw_ok_engine [OF ok s]) (auto simp: consumed_def)
  then show ?thesis by simp
qed

lemma push_task_full:
  assumes "lfq_ok (e_queues (gw_engines g ! s) ! w)" and "\<not> length (lfq_items (e_queues (gw_engines g ! s) ! w)) < lfq_room (e_queues (gw_engines g ! s) ! w)"
  shows "push_task g s w t = None"
proof -
  obtain b q where p: "lfq_push (e_queues (gw_engines g ! s) ! w) t = (b, q)" by (metis surj_pair)
  then show ?thesis using lfq.push_spec [OF assms(1) p] assms(2) by (simp add: push_task_def list_get_def)
qed

lemma gw_queue_ok: "gw_ok W g V P \<Longrightarrow> s < NUM_SHARDS \<Longrightarrow> w < W \<Longrightarrow> lfq_ok (e_queues (gw_engines g ! s) ! w)"
  using gw_okD(5,7) [of W g V P s] by (simp add: engine_ok_def)

lemma handle_new_ok:
  assumes ok: "gw_ok W g V P" and w: "w < W" and h: "handle_new g w cid req t5 ts = Some g1"
  shows "\<exists>P1. gw_ok W g1 V P1"
proof (cases "acceptable g req")
  case False
  then show ?thesis using handle_new_refused [OF ok w False, of cid t5 ts] h by auto
next
  case ac: True
  define s where "s = unat (decode_symbol (eo_stock req)) mod NUM_SHARDS"
  have sl: "s < NUM_SHARDS" "s < length (gw_engines g)" using gw_okD(3) [OF ok] by (auto simp: s_def NUM_SHARDS_def)
  obtain r sh1 where pl: "place_order (e_shard (gw_engines g ! s)) w (requested_node w cid req) = Some (r, sh1)"
    using place_requested [OF ok w sl(1), where cid = cid and req = req] by blast
  show ?thesis
  proof (cases r)
    case None
    then show ?thesis using handle_new_exhausted [OF ok w ac s_def pl [unfolded None], of t5 ts] h by auto
  next
    case (Some a)
    show ?thesis
    proof (cases "length (lfq_items (e_queues (gw_engines g ! s) ! w)) < lfq_room (e_queues (gw_engines g ! s) ! w)")
      case True
      then show ?thesis using handle_new_placed [OF ok w ac s_def pl [unfolded Some] True, of t5 ts] h by auto
    next
      case False
      let ?g = "(upd_engine (record_latency g req t5) s ((gw_engines g ! s)\<lparr> e_shard := sh1 \<rparr>))\<lparr> session_manager :=
        record_order (session_manager g) (decode_order_token (eo_order_token req)) (word_of_nat a) (decode_symbol (eo_stock req)) cid \<rparr>"
      have "push_task ?g s w (TNew a (unat (st_ingress ts))) = None"
        using gw_queue_ok [OF ok sl(1) w] False sl(2) by (intro push_task_full) (auto simp: upd_engine_def)
      then have "handle_new g w cid req t5 ts = None"
        using ac pl Some sl(2) unfolding handle_new_def Let_def acceptable_def by (simp add: s_def list_get_def upd_engine_def)
      then show ?thesis using h by simp
    qed
  qed
qed

lemma handle_cancel_ok:
  assumes ok: "gw_ok W g V P" and w: "w < W" and h: "handle_cancel g w cid req ts = Some g1"
  shows "gw_ok W g1 V P"
proof -
  define d where "d = lookup_data (session_manager g) (decode_order_token (co_order_token req))"
  define s where "s = unat (sd_instrument_id d) mod NUM_SHARDS"
  have sl: "s < NUM_SHARDS" by (simp add: s_def NUM_SHARDS_def)
  show ?thesis
  proof (cases "cancellable g cid req \<longrightarrow> length (lfq_items (e_queues (gw_engines g ! s) ! w)) < lfq_room (e_queues (gw_engines g ! s) ! w)")
    case True
    then show ?thesis using handle_cancel_cases [OF ok w d_def s_def, of cid ts] h by auto
  next
    case False
    then have "push_task g s w t = None" for t using push_task_full gw_queue_ok [OF ok sl w] by blast
    then have "handle_cancel g w cid req ts = None"
      using False unfolding handle_cancel_def Let_def d_def [symmetric] by (simp add: s_def cancellable_def Let_def d_def)
    then show ?thesis using h by simp
  qed
qed

lemma poll_one_queue:
  assumes ok: "gw_ok W g V P" and s: "s < NUM_SHARDS" and k: "k < W"
  obtains f1 e1 V1 P1 where "poll_queues [k] clk f (gw_engines g ! s) = Some (f1, e1)" "gw_ok W (upd_engine g s e1) (V(s := V1)) (P(s := P1))"
proof -
  let ?e = "gw_engines g ! s"
  have eo: "engine_ok ?e (V s) (P s)" "k < length (e_queues ?e)" using gw_okD(5,7) [OF ok s] k by auto
  obtain e1 V1 P1 where e1: "poll_queues [k] clk f ?e = Some (f \<or> head_requests ?e [k] \<noteq> [], e1)" "poll_done ?e (V s) [k] e1 V1 P1"
    using poll_queues_ok [OF eo(1), of "[k]" clk f] eo(2) by auto
  have d: "engine_ok e1 V1 P1" "e_shard_id e1 = s" "length (e_queues e1) = W"
    using e1(2) gw_okD(6,7) [OF ok s] poll_done_items(1) [OF e1(2)] by (auto simp: poll_done_def)
  have "ack_workers (outs (e_shard e1)) = Some W"
    using e1(2) emits_ack_workers gw_okD(8) [OF ok s] by (auto simp: poll_done_def)
  then have "gw_ok W (upd_engine g s e1) (V(s := V1)) (P(s := P1))"
    using gw_ok_engine [OF ok s d] poll_done_idents [OF eo(1) e1(2)] eo(2) by simp
  then show thesis using that e1(1) by blast
qed

lemma xstep_ok:
  assumes "xstep W g g1" and ok: "gw_ok W g V P"
  shows "\<exists>V1 P1. gw_ok W g1 V1 P1"
  using assms(1)
proof cases
  case connect
  then show ?thesis using ok by (auto simp: gw_ok_def intro!: exI [of _ V] exI [of _ P])
next
  case (new_order w cid req t5 ts)
  then show ?thesis using handle_new_ok [OF ok] by blast
next
  case (cancel w cid req ts)
  then show ?thesis using handle_cancel_ok [OF ok] by blast
next
  case (engine s k clk f f1 e1)
  then show ?thesis using poll_one_queue [OF ok engine(2,3), of clk f] by (metis option.inject prod.inject)
next
  case (publisher s r e1)
  then show ?thesis using gw_ok_consumed [OF ok publisher(2)] consume_mkt(1) [OF gw_okD(5) [OF ok publisher(2)]] by (metis snd_conv)
next
  case (audit s r e1)
  then show ?thesis using gw_ok_consumed [OF ok audit(2)] consume_drop(1) [OF gw_okD(5) [OF ok audit(2)]] by (metis snd_conv)
next
  case (latency s t e1)
  then show ?thesis using gw_ok_consumed [OF ok latency(2)] consume_tsc [OF gw_okD(5) [OF ok latency(2)]] by (metis snd_conv)
next
  case (egress s w a e1)
  then have "consumed (gw_engines g ! s) e1"
    using consume_ack [OF gw_okD(5) [OF ok egress(2)] gw_okD(8) [OF ok egress(2)] egress(3)] by (metis option.inject prod.inject)
  then show ?thesis using gw_ok_consumed [OF ok egress(2)] egress(1) by blast
next
  case (audit_reject w r)
  have w: "w < length (gw_reject_queues g)" using gw_okD(4) [OF ok] audit_reject(1) by simp
  obtain r1 q where p: "lfq_pop (gw_reject_queues g ! w) = (r1, q)" by (metis surj_pair)
  have "lfq_ok q" using lfq.pop_spec [OF _ p] gw_okD(10) [OF ok] w by auto
  moreover have "g1 = g\<lparr> gw_reject_queues := (gw_reject_queues g)[w := q] \<rparr>"
    using audit_reject(2) w p by (simp add: pop_reject_def list_get_def)
  ultimately have "gw_ok W g1 V P" using ok set_update_subset_insert [of "gw_reject_queues g" w q] by (auto simp: gw_ok_def)
  then show ?thesis by blast
qed

lemma reachable_ok:
  assumes "reachable W g0 g" and "gw_ok W g0 V0 P0"
  shows "\<exists>V P. gw_ok W g V P"
  using assms(1)
proof (induction rule: reachable.induct)
  case start
  then show ?case using assms(2) by blast
next
  case (step g g1)
  then show ?case using xstep_ok by blast
qed

section \<open>Properties\<close>

lemma gw_ok_returns:
  assumes ok: "gw_ok W g V P" and w: "w < W"
    and room: "\<forall>e \<in> set (gw_engines g). length (lfq_items (e_queues e ! w)) < lfq_room (e_queues e ! w)"
  shows "handle_new g w cid req t5 ts \<noteq> None" and "handle_cancel g w cid creq ts \<noteq> None"
proof -
  have rm: "length (lfq_items (e_queues (gw_engines g ! s) ! w)) < lfq_room (e_queues (gw_engines g ! s) ! w)" if "s < NUM_SHARDS" for s
    using room that gw_okD(3) [OF ok] by simp
  define s where "s = unat (decode_symbol (eo_stock req)) mod NUM_SHARDS"
  have sl: "s < NUM_SHARDS" by (simp add: s_def NUM_SHARDS_def)
  obtain r sh1 where pl: "place_order (e_shard (gw_engines g ! s)) w (requested_node w cid req) = Some (r, sh1)"
    using place_requested [OF ok w sl, where cid = cid and req = req] by blast
  show "handle_new g w cid req t5 ts \<noteq> None"
  proof (cases "acceptable g req")
    case False
    then show ?thesis using handle_new_refused [OF ok w False, of cid t5 ts] by auto
  next
    case True
    then show ?thesis
      using handle_new_exhausted [OF ok w True s_def, of cid sh1 t5 ts] handle_new_placed [OF ok w True s_def _ rm [OF sl], of cid _ sh1 t5 ts] pl
      by (cases r) auto
  qed
  show "handle_cancel g w cid creq ts \<noteq> None"
    using handle_cancel_cases [OF ok w refl refl, where req = creq and cid = cid and ts = ts] rm by (auto simp: NUM_SHARDS_def)
qed

text \<open>
  C1. Safety of the running exchange. However workers, engines and consumers interleave after the start, for any number
  of gateway threads the configuration may ask for, every reachable state satisfies the invariant of all four shards and
  every order book is uncrossed. In every such state an engine that polls a queue returns and takes its oldest task, and a
  worker that handles a new order or a cancel returns, unless its queue to an engine is full: there is no null dereference,
  no index out of range, no double use or loss of an order slot and no endless loop.
\<close>

theorem exchange_always_safe:
  assumes "reachable (num_gateways n) (exchange_init n pr raw) g"
  shows "\<exists>V P. gw_ok (num_gateways n) g V P
    \<and> (\<forall>s < NUM_SHARDS. uncrossed (abook (e_shard (gw_engines g ! s)) (V s)))
    \<and> (\<forall>s < NUM_SHARDS. \<forall>k < num_gateways n. \<forall>clk f. \<exists>f1 e1. poll_queues [k] clk f (gw_engines g ! s) = Some (f1, e1)
         \<and> lfq_items (e_queues e1 ! k) = tl (lfq_items (e_queues (gw_engines g ! s) ! k)))
    \<and> (\<forall>w < num_gateways n. (\<forall>e \<in> set (gw_engines g). length (lfq_items (e_queues e ! w)) < lfq_room (e_queues e ! w)) \<longrightarrow>
         (\<forall>cid req t5 ts. handle_new g w cid req t5 ts \<noteq> None) \<and> (\<forall>cid req ts. handle_cancel g w cid req ts \<noteq> None))"
proof -
  let ?W = "num_gateways n"
  obtain V P where ok: "gw_ok ?W g V P" using reachable_ok [OF assms exchange_init_ok] by blast
  have "uncrossed (abook (e_shard (gw_engines g ! s)) (V s))" if "s < NUM_SHARDS" for s
    using gw_okD(5) [OF ok that] by (simp add: engine_ok_def books_ok_def uncrossed_abook)
  moreover have "\<exists>f1 e1. poll_queues [k] clk f (gw_engines g ! s) = Some (f1, e1)
         \<and> lfq_items (e_queues e1 ! k) = tl (lfq_items (e_queues (gw_engines g ! s) ! k))" if "s < NUM_SHARDS" "k < ?W" for s k clk f
  proof -
    have eo: "engine_ok (gw_engines g ! s) (V s) (P s)" "k < length (e_queues (gw_engines g ! s))"
      using gw_okD(5,7) [OF ok that(1)] that(2) by auto
    show ?thesis using poll_queues_ok [OF eo(1), of "[k]" clk f] eo(2) poll_done_items(2) by fastforce
  qed
  ultimately show ?thesis using ok gw_ok_returns [OF ok] by blast
qed

theorem exchange_always_safe_witness:
  "\<exists>g V P. reachable 1 sample_exchange g \<and> gw_ok 1 g V P \<and> lookup_data (session_manager g) 77 \<noteq> lookup_data (session_manager sample_exchange) 77
    \<and> (\<forall>s < NUM_SHARDS. uncrossed (abook (e_shard (gw_engines g ! s)) (V s)))"
proof -
  have sl: "1 < NUM_SHARDS" by (simp add: NUM_SHARDS_def)
  have s: "1 = unat (decode_symbol (eo_stock sample_enter)) mod NUM_SHARDS" by (simp add: sample_enter_simps NUM_SHARDS_def)
  have "gw_engines sample_exchange ! 1 = shard_start 1 sample_raw 1"
    by (simp add: sample_exchange_def exchange_init_def Let_def NUM_SHARDS_def)
  then have "\<exists>sh1. place_order (e_shard (gw_engines sample_exchange ! 1)) 0 (requested_node 0 3 sample_enter) = Some (Some 1, sh1)"
    by (simp add: shard_start_def engine_init_def place_order_def pool_allocate_def shard_init_def pool_init_def lfq_pop_def
        lfq_init_def pool_start_def POOL_CAPACITY_PER_SHARD_def set_mem_def)
  then obtain sh1 where pl: "place_order (e_shard (gw_engines sample_exchange ! 1)) 0 (requested_node 0 3 sample_enter) = Some (Some 1, sh1)"
    by blast
  have rm: "length (lfq_items (e_queues (gw_engines sample_exchange ! 1) ! 0)) < lfq_room (e_queues (gw_engines sample_exchange ! 1) ! 0)"
    using sample_exchange_ok(2) gw_okD(3) [OF sample_exchange_ok(1)] sl by simp
  obtain g where g: "handle_new sample_exchange 0 3 sample_enter 0 (sample_stamps 0) = Some g"
    "session_manager g = record_order (session_manager sample_exchange) 77 (word_of_nat 1) 5 3"
    using handle_new_placed [OF sample_exchange_ok(1) _ sample_acceptable s pl rm, of 0 "sample_stamps 0"] by (auto simp: sample_enter_simps)
  have "reachable 1 sample_exchange g"
    using reachable.step [OF reachable.start xstep.new_order [OF _ g(1)]] by simp
  moreover have "lookup_data (session_manager g) 77 \<noteq> lookup_data (session_manager sample_exchange) 77"
  proof -
    have "sd_internal_id (lookup_data (session_manager g) 77) = 1"
      using session.lookup_same [of 77 "word_of_nat 1" 5 "session_manager sample_exchange" 3] g(2)
      by (simp add: session_registrable_def session_fits_def MAX_CLIENT_ORDERS_def MAX_INSTRUMENTS_def)
    moreover have "sd_internal_id (lookup_data (session_manager sample_exchange) 77) = 0"
      using lookup_init by (simp add: sample_exchange_def exchange_init_def Let_def)
    ultimately show ?thesis by auto
  qed
  moreover have r: "reachable (num_gateways None) (exchange_init None False sample_raw) g"
    using calculation(1) by (simp add: sample_exchange_def)
  obtain V P where "gw_ok (num_gateways None) g V P" "\<forall>s < NUM_SHARDS. uncrossed (abook (e_shard (gw_engines g ! s)) (V s))"
    using exchange_always_safe [OF r] by (elim exE conjE) (rule that)
  ultimately show ?thesis unfolding num_gateways_None by blast
qed

end
