(* ===== verification/Consumers.thy ===== *)
theory Consumers
  imports Order_Book Timer
begin

text \<open>
  The two threads that only consume: the market-data publisher
  (\<open>hft_engine/src/market_data/publisher.h\<close>), which timestamps reports and sends them in batches of 64, and the order
  manager (\<open>hft_engine/src/auxiliary/order_manager.h\<close>), which appends every drop copy to the memory-mapped audit log,
  keeps the counters and feeds the latency reservoir. Both drain their queues with \<open>while (q.pop(x)) f(x);\<close>, so their
  passes are folds over the queued items; sockets, files and the console are outside the model.
\<close>

section \<open>Draining several queues\<close>

fun drain_all :: "('a \<Rightarrow> 's \<Rightarrow> 's) \<Rightarrow> 'a lfq list \<Rightarrow> 's \<Rightarrow> ('a lfq list \<times> 's) option" where
  "drain_all f [] s = Some ([], s)"
| "drain_all f (q # qs) s = do {
     (q1, s1) \<leftarrow> drain lfq_pop f q s;
     (qs1, s2) \<leftarrow> drain_all f qs s1;
     Some (q1 # qs1, s2) }"

definition drained_to :: "'a lfq list \<Rightarrow> 'a lfq list \<Rightarrow> bool" where
  "drained_to qs qs1 \<longleftrightarrow> length qs1 = length qs \<and> (\<forall>q \<in> set qs1. lfq_ok q \<and> lfq_items q = []) \<and> map lfq_room qs1 = map lfq_room qs"

lemma drain_all_spec:
  "\<forall>q \<in> set qs. lfq_ok q \<Longrightarrow> \<exists>qs1. drain_all f qs s = Some (qs1, fold f (concat (map lfq_items qs)) s) \<and> drained_to qs qs1"
proof (induction qs arbitrary: s)
  case (Cons q qs)
  obtain q1 where q1: "drain lfq_pop f q s = Some (q1, fold f (lfq_items q) s)" "lfq_ok q1" "lfq_room q1 = lfq_room q" "lfq_items q1 = []"
    using lfq.drain_spec [of q f s] Cons.prems by auto
  obtain qs1 where qs1: "drain_all f qs (fold f (lfq_items q) s) = Some (qs1, fold f (concat (map lfq_items qs)) (fold f (lfq_items q) s))"
    "drained_to qs qs1"
    using Cons.IH [of "fold f (lfq_items q) s"] Cons.prems by auto
  then show ?case using q1 by (auto simp: drained_to_def)
qed (simp add: drained_to_def)

section \<open>The publisher\<close>

definition BATCH_SIZE :: nat where "BATCH_SIZE = 64"

text \<open>\<open>sent\<close> are the messages handed to each call of \<open>sendmmsg\<close>; \<open>pb_clock k\<close> is the \<open>k\<close>-th clock reading.
  A write outside \<open>batch[BATCH_SIZE]\<close> makes the state \<open>None\<close>.\<close>

record publisher =
  batch :: "nat \<Rightarrow> ItchMessage"
  current_batch_count :: nat
  sent :: "ItchMessage list list"
  found_any :: bool
  pb_stamped :: nat

definition flush_batch :: "publisher \<Rightarrow> publisher" where
  "flush_batch p = p\<lparr> sent := sent p @ [map (batch p) [0 ..< current_batch_count p]], current_batch_count := 0 \<rparr>"

definition publish_one :: "(nat \<Rightarrow> u64) \<Rightarrow> ItchMessage \<Rightarrow> publisher option \<Rightarrow> publisher option" where
  "publish_one clk report ps = do {
     p \<leftarrow> ps;
     b \<leftarrow> arr_set BATCH_SIZE (batch p) (current_batch_count p) (report\<lparr> it_timestamp := clk (pb_stamped p) \<rparr>);
     let p1 = p\<lparr> batch := b, current_batch_count := current_batch_count p + 1, pb_stamped := pb_stamped p + 1 \<rparr>;
     let p2 = (if current_batch_count p1 = BATCH_SIZE then flush_batch p1 else p1);
     Some (p2\<lparr> found_any := True \<rparr>) }"

definition publish_pass :: "(nat \<Rightarrow> u64) \<Rightarrow> ItchMessage lfq list \<Rightarrow> publisher \<Rightarrow> (ItchMessage lfq list \<times> publisher) option" where
  "publish_pass clk qs p = do {
     (qs1, ps) \<leftarrow> drain_all (publish_one clk) qs (Some (p\<lparr> found_any := False \<rparr>));
     p1 \<leftarrow> ps;
     Some (qs1, if \<not> found_any p1 \<and> current_batch_count p1 > 0 then flush_batch p1 else p1) }"

text \<open>Everything the publisher accepted, in order: what was sent and what waits in the batch.\<close>

definition published :: "publisher \<Rightarrow> ItchMessage list" where
  "published p = concat (sent p) @ map (batch p) [0 ..< current_batch_count p]"

definition publisher_ok :: "publisher \<Rightarrow> bool" where
  "publisher_ok p \<longleftrightarrow> current_batch_count p < BATCH_SIZE \<and> (\<forall>b \<in> set (sent p). 0 < length b \<and> length b \<le> BATCH_SIZE)"

fun stamped :: "(nat \<Rightarrow> u64) \<Rightarrow> nat \<Rightarrow> ItchMessage list \<Rightarrow> ItchMessage list" where
  "stamped clk k [] = []"
| "stamped clk k (m # ms) = m\<lparr> it_timestamp := clk k \<rparr> # stamped clk (Suc k) ms"

lemma publish_one_ok:
  assumes "publisher_ok p"
  shows "\<exists>p1. publish_one clk m (Some p) = Some p1 \<and> publisher_ok p1 \<and> published p1 = published p @ [m\<lparr> it_timestamp := clk (pb_stamped p) \<rparr>]
    \<and> pb_stamped p1 = Suc (pb_stamped p) \<and> found_any p1"
proof -
  let ?n = "current_batch_count p" and ?m = "m\<lparr> it_timestamp := clk (pb_stamped p) \<rparr>"
  have n: "?n < BATCH_SIZE" using assms by (simp add: publisher_ok_def)
  have b: "map ((batch p)(?n := ?m)) [0 ..< Suc ?n] = map (batch p) [0 ..< ?n] @ [?m]" by simp
  show ?thesis
  proof (cases "Suc ?n = BATCH_SIZE")
    case True
    then show ?thesis using n assms b
      by (simp add: publish_one_def arr_simps flush_batch_def published_def publisher_ok_def BATCH_SIZE_def)
  next
    case False
    then show ?thesis using n assms b
      by (simp add: publish_one_def arr_simps published_def publisher_ok_def)
  qed
qed

lemma publish_fold:
  assumes "publisher_ok p"
  shows "\<exists>p1. fold (publish_one clk) ms (Some p) = Some p1 \<and> publisher_ok p1
    \<and> published p1 = published p @ stamped clk (pb_stamped p) ms \<and> (found_any p1 \<longleftrightarrow> found_any p \<or> ms \<noteq> [])
    \<and> pb_stamped p1 = pb_stamped p + length ms \<and> (ms = [] \<longrightarrow> p1 = p)"
  using assms
proof (induction ms arbitrary: p)
  case (Cons m ms)
  obtain p1 where p1: "publish_one clk m (Some p) = Some p1" "publisher_ok p1"
    "published p1 = published p @ [m\<lparr> it_timestamp := clk (pb_stamped p) \<rparr>]" "pb_stamped p1 = Suc (pb_stamped p)" "found_any p1"
    using publish_one_ok [OF Cons.prems] by blast
  then show ?case using Cons.IH [OF p1(2)] by auto
qed simp

lemma flush_batch_ok:
  assumes "publisher_ok p" and "0 < current_batch_count p"
  shows "publisher_ok (flush_batch p)" and "published (flush_batch p) = published p" and "current_batch_count (flush_batch p) = 0"
  using assms by (auto simp: publisher_ok_def flush_batch_def published_def)

lemma publish_pass_ok:
  assumes "publisher_ok p" and "\<forall>q \<in> set qs. lfq_ok q"
  shows "\<exists>qs1 p1. publish_pass clk qs p = Some (qs1, p1) \<and> publisher_ok p1 \<and> drained_to qs qs1
    \<and> published p1 = published p @ stamped clk (pb_stamped p) (concat (map lfq_items qs))
    \<and> ((\<forall>q \<in> set qs. lfq_items q = []) \<longrightarrow> concat (sent p1) = published p \<and> current_batch_count p1 = 0)"
proof -
  let ?p = "p\<lparr> found_any := False \<rparr>" and ?ms = "concat (map lfq_items qs)"
  have p: "publisher_ok ?p" "published ?p = published p" using assms(1) by (simp_all add: publisher_ok_def published_def)
  obtain p1 where p1: "fold (publish_one clk) ?ms (Some ?p) = Some p1" "publisher_ok p1"
    "published p1 = published p @ stamped clk (pb_stamped p) ?ms" "found_any p1 \<longleftrightarrow> ?ms \<noteq> []" "?ms = [] \<longrightarrow> p1 = ?p"
    using publish_fold [OF p(1), of clk ?ms] p(2) by auto
  obtain qs1 where qs1: "drain_all (publish_one clk) qs (Some ?p) = Some (qs1, Some p1)" "drained_to qs qs1"
    using drain_all_spec [OF assms(2), of "publish_one clk" "Some ?p"] p1(1) by auto
  define p2 where "p2 = (if \<not> found_any p1 \<and> current_batch_count p1 > 0 then flush_batch p1 else p1)"
  have "publish_pass clk qs p = Some (qs1, p2)" using qs1(1) by (simp add: publish_pass_def p2_def)
  moreover have p2: "publisher_ok p2" "published p2 = published p1" using flush_batch_ok [OF p1(2)] p1(2) by (auto simp: p2_def)
  moreover have "current_batch_count p2 = 0 \<and> concat (sent p2) = published p" if "\<forall>q \<in> set qs. lfq_items q = []"
  proof -
    have e: "?ms = []" using that by simp
    have "published p2 = published p" using p2(2) p1(3) unfolding e by simp
    moreover have "current_batch_count p2 = 0" using flush_batch_ok(3) [OF p1(2)] p1(4) unfolding e p2_def by auto
    ultimately show ?thesis by (simp add: published_def [of p2])
  qed
  ultimately show ?thesis using qs1(2) p1(3) by (intro exI [of _ qs1] exI [of _ p2]) auto
qed

text \<open>
  The publisher neither loses, repeats nor reorders reports. A pass returns with all queues empty; what it sent and
  what waits in the batch is what it had before followed by the queued reports of the queues in order, each stamped with its
  clock reading; no batch exceeds the 64 slots and none is empty; and a pass that finds nothing leaves the batch empty, so a
  report waits at most until the first idle pass.
\<close>

theorem publisher_in_order:
  assumes "publisher_ok p" and "\<forall>q \<in> set qs. lfq_ok q"
  shows "\<exists>qs1 p1. publish_pass clk qs p = Some (qs1, p1) \<and> publisher_ok p1 \<and> drained_to qs qs1
    \<and> published p1 = published p @ stamped clk (pb_stamped p) (concat (map lfq_items qs))
    \<and> ((\<forall>q \<in> set qs. lfq_items q = []) \<longrightarrow> concat (sent p1) = published p \<and> current_batch_count p1 = 0)"
  by (rule publish_pass_ok [OF assms])

definition sample_itch :: ItchMessage where
  "sample_itch = \<lparr> it_msg_type = ch CHR ''A'', it_stock_locate = 5, it_tracking_number = 0, it_timestamp = 0, it_internal_id = 1,
     it_shares = 10, it_price = 100, it_side = ch CHR ''B'' \<rparr>"

definition sample_publisher :: publisher where
  "sample_publisher = \<lparr> batch = (\<lambda>_. sample_itch), current_batch_count = 1, sent = [], found_any = True, pb_stamped = 1 \<rparr>"

theorem publisher_in_order_witness:
  "\<exists>qs1 p1. publish_pass (\<lambda>_. 9) [lfq_init 8 (\<lambda>_. sample_itch)] sample_publisher = Some (qs1, p1) \<and> concat (sent p1) = [sample_itch]"
proof -
  have "lfq_ok (lfq_init 8 (\<lambda>_. sample_itch))" "lfq_items (lfq_init 8 (\<lambda>_. sample_itch)) = []"
    using lfq_init_ok [of 3 "\<lambda>_. sample_itch"] by auto
  then show ?thesis
    using publisher_in_order [of sample_publisher "[lfq_init 8 (\<lambda>_. sample_itch)]" "\<lambda>_. 9"]
    by (auto simp: publisher_ok_def sample_publisher_def BATCH_SIZE_def published_def)
qed

section \<open>The order manager\<close>

definition MAX_LOG_ENTRIES :: nat where "MAX_LOG_ENTRIES = 20000000"
definition AUDIT_LOG_MAGIC :: u64 where "AUDIT_LOG_MAGIC = 0x48465441554401"

record AuditLogHeader =
  ah_magic :: u64
  ah_version :: u32
  ah_entry_size :: u32
  write_index :: nat

text \<open>\<open>ShardStats\<close>: the counters the order manager owns and the depths sampled by the coordinator.\<close>

record ShardStats =
  ss_orders_in :: nat
  ss_fills :: nat
  ss_cancels :: nat
  ss_rejects :: nat
  ss_engine_q_depth :: nat
  ss_dropcopy_q_depth :: nat
  ss_mktdata_q_depth :: nat
  ss_pool_high_water :: nat

record order_manager =
  om_header :: AuditLogHeader
  mmap_entries :: "nat \<Rightarrow> u64 \<times> DropCopyMessage"
  log_index :: nat
  om_new_orders :: nat
  om_trades :: nat
  om_rejects :: nat
  om_stats :: "(nat \<Rightarrow> ShardStats) option"
  om_heartbeat :: nat
  om_timer :: timer
  om_found :: bool
  om_reads :: nat

definition shard_stats_init :: ShardStats where
  "shard_stats_init = \<lparr> ss_orders_in = 0, ss_fills = 0, ss_cancels = 0, ss_rejects = 0, ss_engine_q_depth = 0,
     ss_dropcopy_q_depth = 0, ss_mktdata_q_depth = 0, ss_pool_high_water = 0 \<rparr>"

text \<open>The constructor: a fresh log file of zeroes behind its header; \<open>sizeof(OrderLogEntry)\<close> is passed in.\<close>

definition om_init :: "(nat \<Rightarrow> u64 \<times> DropCopyMessage) \<Rightarrow> u32 \<Rightarrow> (nat \<Rightarrow> ShardStats) option \<Rightarrow> timer \<Rightarrow> order_manager" where
  "om_init zeroes entry_size stats tmr =
     \<lparr> om_header = \<lparr> ah_magic = AUDIT_LOG_MAGIC, ah_version = 1, ah_entry_size = entry_size, write_index = 0 \<rparr>,
       mmap_entries = zeroes, log_index = 0, om_new_orders = 0, om_trades = 0, om_rejects = 0, om_stats = stats,
       om_heartbeat = 0, om_timer = tmr, om_found = False, om_reads = 0 \<rparr>"

text \<open>The lambda \<open>consume\<close>, in its three parts: the log, the window counters, the shard counters.\<close>

definition log_entry :: "(nat \<Rightarrow> u64) \<Rightarrow> DropCopyMessage \<Rightarrow> order_manager \<Rightarrow> order_manager" where
  "log_entry clk m om =
     (if log_index om < MAX_LOG_ENTRIES
      then om\<lparr> mmap_entries := (mmap_entries om)(log_index om := (clk (om_reads om), m)), om_reads := om_reads om + 1,
               log_index := log_index om + 1, om_header := (om_header om)\<lparr> write_index := log_index om + 1 \<rparr> \<rparr>
      else om)"

definition count_window :: "DropCopyMessage \<Rightarrow> order_manager \<Rightarrow> order_manager" where
  "count_window m om =
     (if dc_state m = ST_NEW then om\<lparr> om_new_orders := stat_inc (om_new_orders om) \<rparr>
      else if dc_state m = FILLED \<or> dc_state m = PARTIAL_FILL then om\<lparr> om_trades := stat_inc (om_trades om) \<rparr>
      else if dc_state m = REJECTED then om\<lparr> om_rejects := stat_inc (om_rejects om) \<rparr>
      else om)"

definition count_shard :: "DropCopyMessage \<Rightarrow> ShardStats \<Rightarrow> ShardStats" where
  "count_shard m S =
     (if dc_state m = ST_NEW then S\<lparr> ss_orders_in := stat_inc (ss_orders_in S) \<rparr>
      else if dc_state m = FILLED \<or> dc_state m = PARTIAL_FILL then S\<lparr> ss_fills := stat_inc (ss_fills S) \<rparr>
      else if dc_state m = CANCELED then S\<lparr> ss_cancels := stat_inc (ss_cancels S) \<rparr>
      else if dc_state m = REJECTED then S\<lparr> ss_rejects := stat_inc (ss_rejects S) \<rparr>
      else S)"

definition om_consume :: "(nat \<Rightarrow> u64) \<Rightarrow> DropCopyMessage \<Rightarrow> order_manager \<Rightarrow> order_manager" where
  "om_consume clk m om0 =
     (let om = count_window m (log_entry clk m (om0\<lparr> om_found := True \<rparr>)); s = dc_instrument_id m mod 4
      in case om_stats om of None \<Rightarrow> om
         | Some st \<Rightarrow> om\<lparr> om_stats := Some (st(s := count_shard m (st s))) \<rparr>)"

definition om_latency :: "nat \<times> nat \<Rightarrow> order_manager \<Rightarrow> order_manager" where
  "om_latency t om = om\<lparr> om_found := True, om_timer := add_latency (om_timer om) (word_of_nat (snd t) - word_of_nat (fst t)) \<rparr>"

definition om_heartbeat_write :: "nat \<Rightarrow> order_manager \<Rightarrow> order_manager" where
  "om_heartbeat_write now om = (case om_stats om of None \<Rightarrow> om | Some _ \<Rightarrow> om\<lparr> om_heartbeat := now \<rparr>)"

text \<open>The window report: after a second, if anything happened, the counters and the reservoir start again.\<close>

definition om_window :: "bool \<Rightarrow> order_manager \<Rightarrow> order_manager" where
  "om_window second_elapsed om =
     (if second_elapsed \<and> (om_new_orders om > 0 \<or> om_trades om > 0 \<or> om_rejects om > 0)
      then om\<lparr> om_timer := timer_clear (om_timer om), om_new_orders := 0, om_trades := 0, om_rejects := 0 \<rparr>
      else om)"

text \<open>One iteration of \<open>run\<close>: heartbeat, drop copies of the shards, rejects of the workers, latency samples, report.\<close>

definition om_pass :: "(nat \<Rightarrow> u64) \<Rightarrow> nat \<Rightarrow> bool \<Rightarrow> DropCopyMessage lfq list \<Rightarrow> DropCopyMessage lfq list \<Rightarrow> (nat \<times> nat) lfq list \<Rightarrow>
    order_manager \<Rightarrow> (DropCopyMessage lfq list \<times> DropCopyMessage lfq list \<times> (nat \<times> nat) lfq list \<times> order_manager) option" where
  "om_pass clk now second_elapsed dqs rqs tqs om = do {
     (dqs1, om1) \<leftarrow> drain_all (om_consume clk) dqs (om_heartbeat_write now (om\<lparr> om_found := False \<rparr>));
     (rqs1, om2) \<leftarrow> drain_all (om_consume clk) rqs om1;
     (tqs1, om3) \<leftarrow> drain_all om_latency tqs om2;
     Some (dqs1, rqs1, tqs1, om_window second_elapsed om3) }"

text \<open>The entries a reader of the log may look at.\<close>

definition audit_log :: "order_manager \<Rightarrow> DropCopyMessage list" where
  "audit_log om = map (\<lambda>i. snd (mmap_entries om i)) [0 ..< write_index (om_header om)]"

definition om_ok :: "order_manager \<Rightarrow> bool" where
  "om_ok om \<longleftrightarrow> write_index (om_header om) = log_index om \<and> log_index om \<le> MAX_LOG_ENTRIES"

text \<open>The counter of one shard for one kind of message.\<close>

definition msg_count :: "(OrderState \<Rightarrow> bool) \<Rightarrow> nat \<Rightarrow> DropCopyMessage list \<Rightarrow> nat" where
  "msg_count K s ms = length (filter (\<lambda>m. K (dc_state m) \<and> dc_instrument_id m mod 4 = s) ms)"

lemma om_consume_simps:
  "log_index (om_consume clk m om) = (if log_index om < MAX_LOG_ENTRIES then log_index om + 1 else log_index om)"
  "mmap_entries (om_consume clk m om) =
     (if log_index om < MAX_LOG_ENTRIES then (mmap_entries om)(log_index om := (clk (om_reads om), m)) else mmap_entries om)"
  "om_ok om \<Longrightarrow> om_ok (om_consume clk m om)"
  "om_stats (om_consume clk m om) = map_option (\<lambda>st. st(dc_instrument_id m mod 4 := count_shard m (st (dc_instrument_id m mod 4)))) (om_stats om)"
  "om_timer (om_consume clk m om) = om_timer om"
  by (auto simp: om_consume_def Let_def log_entry_def count_window_def om_ok_def split: option.splits)

lemma om_consume_log:
  assumes "om_ok om"
  shows "audit_log (om_consume clk m om) = take MAX_LOG_ENTRIES (audit_log om @ [m])"
proof -
  have w: "write_index (om_header om) = log_index om" "write_index (om_header (om_consume clk m om)) = log_index (om_consume clk m om)"
    using assms om_consume_simps(3) [OF assms, of clk m] by (auto simp: om_ok_def)
  show ?thesis
  proof (cases "log_index om < MAX_LOG_ENTRIES")
    case True
    then show ?thesis unfolding audit_log_def w by (simp add: om_consume_simps)
  next
    case False
    then show ?thesis using assms unfolding audit_log_def w by (simp add: om_consume_simps om_ok_def)
  qed
qed

lemma om_fold_log:
  assumes "om_ok om"
  shows "om_ok (fold (om_consume clk) ms om) \<and> audit_log (fold (om_consume clk) ms om) = take MAX_LOG_ENTRIES (audit_log om @ ms)"
  using assms
proof (induction ms arbitrary: om)
  case Nil
  then show ?case by (simp add: audit_log_def om_ok_def)
next
  case (Cons m ms)
  show ?case
    using Cons.IH [OF om_consume_simps(3) [OF Cons.prems, of clk m]] om_consume_log [OF Cons.prems, of clk m]
      take_take_append [of MAX_LOG_ENTRIES "audit_log om @ [m]" ms] by simp
qed

lemma om_fold_append_only:
  assumes "om_ok om" and "i < log_index om"
  shows "mmap_entries (fold (om_consume clk) ms om) i = mmap_entries om i"
  using assms
proof (induction ms arbitrary: om)
  case (Cons m ms)
  have "i < log_index (om_consume clk m om)" "mmap_entries (om_consume clk m om) i = mmap_entries om i"
    using Cons.prems(2) by (auto simp: om_consume_simps)
  then show ?case using Cons.IH [OF om_consume_simps(3) [OF Cons.prems(1), of clk m]] by simp
qed simp

definition counts_added :: "ShardStats \<Rightarrow> ShardStats \<Rightarrow> nat \<Rightarrow> DropCopyMessage list \<Rightarrow> bool" where
  "counts_added S S1 s ms \<longleftrightarrow>
     ss_orders_in S1 mod 2 ^ 64 = (ss_orders_in S + msg_count (\<lambda>x. x = ST_NEW) s ms) mod 2 ^ 64
     \<and> ss_fills S1 mod 2 ^ 64 = (ss_fills S + msg_count (\<lambda>x. x = FILLED \<or> x = PARTIAL_FILL) s ms) mod 2 ^ 64
     \<and> ss_cancels S1 mod 2 ^ 64 = (ss_cancels S + msg_count (\<lambda>x. x = CANCELED) s ms) mod 2 ^ 64
     \<and> ss_rejects S1 mod 2 ^ 64 = (ss_rejects S + msg_count (\<lambda>x. x = REJECTED) s ms) mod 2 ^ 64"

lemma mod_add_chain: "(c :: nat) mod n = (b + y) mod n \<Longrightarrow> b mod n = (a + x) mod n \<Longrightarrow> c mod n = (a + (x + y)) mod n"
  by (metis add.assoc mod_add_left_eq)

lemma counts_added_append:
  "counts_added S S1 s xs \<Longrightarrow> counts_added S1 S2 s ys \<Longrightarrow> counts_added S S2 s (xs @ ys)"
  unfolding counts_added_def msg_count_def filter_append length_append using mod_add_chain by meson

lemma counts_added_one: "counts_added S (if dc_instrument_id m mod 4 = s then count_shard m S else S) s [m]"
  by (cases "dc_state m") (simp_all add: counts_added_def msg_count_def count_shard_def stat_inc_def)

lemma om_fold_stats:
  "om_stats om = Some st \<Longrightarrow> \<exists>st1. om_stats (fold (om_consume clk) ms om) = Some st1 \<and> (\<forall>s. counts_added (st s) (st1 s) s ms)"
proof (induction ms arbitrary: om st)
  case Nil
  then show ?case by (simp add: counts_added_def msg_count_def)
next
  case (Cons m ms)
  let ?i = "dc_instrument_id m mod 4" and ?st = "st(dc_instrument_id m mod 4 := count_shard m (st (dc_instrument_id m mod 4)))"
  have "om_stats (om_consume clk m om) = Some ?st" using Cons.prems by (simp add: om_consume_simps)
  from Cons.IH [OF this] obtain st1 where st1: "om_stats (fold (om_consume clk) ms (om_consume clk m om)) = Some st1"
    "\<forall>s. counts_added (?st s) (st1 s) s ms" by blast
  have one: "counts_added (st s) (?st s) s [m]" for s using counts_added_one [of "st s" m s] by auto
  have "counts_added (st s) (st1 s) s ([m] @ ms)" for s by (rule counts_added_append [OF one st1(2) [rule_format]])
  then have "\<forall>s. counts_added (st s) (st1 s) s (m # ms)" by simp
  then show ?case using st1(1) by simp
qed

lemma om_latency_frame:
  "om_header (fold om_latency ts om) = om_header om \<and> mmap_entries (fold om_latency ts om) = mmap_entries om
   \<and> log_index (fold om_latency ts om) = log_index om \<and> om_stats (fold om_latency ts om) = om_stats om
   \<and> om_timer (fold om_latency ts om) = fold (\<lambda>d u. add_latency u d) (map (\<lambda>t. word_of_nat (snd t) - word_of_nat (fst t)) ts) (om_timer om)"
  by (induction ts arbitrary: om) (simp_all add: om_latency_def)

lemma om_window_frame:
  "om_header (om_window b om) = om_header om" "mmap_entries (om_window b om) = mmap_entries om" "log_index (om_window b om) = log_index om"
  "om_stats (om_window b om) = om_stats om"
  by (simp_all add: om_window_def)

text \<open>
  C19. The audit log is complete and append-only. A pass of the order manager returns with all its queues empty. The log a
  reader sees (the entries below \<open>write_index\<close>) is the old log followed by every drop copy of the shards and then every
  reject of the workers, in queue order, up to the capacity of the file; no published entry is changed, and the index never
  passes the capacity. If the statistics region is mapped, the counters of each shard grow by the number of new, filled,
  cancelled and rejected messages of its instruments, modulo \<open>2^64\<close>.
\<close>

theorem audit_log_append_only:
  assumes "om_ok om" and "\<forall>q \<in> set dqs. lfq_ok q" and "\<forall>q \<in> set rqs. lfq_ok q" and "\<forall>q \<in> set tqs. lfq_ok q"
    and "ms = concat (map lfq_items dqs) @ concat (map lfq_items rqs)"
  shows "\<exists>dqs1 rqs1 tqs1 om1. om_pass clk now sec dqs rqs tqs om = Some (dqs1, rqs1, tqs1, om1)
    \<and> drained_to dqs dqs1 \<and> drained_to rqs rqs1 \<and> drained_to tqs tqs1
    \<and> om_ok om1 \<and> audit_log om1 = take MAX_LOG_ENTRIES (audit_log om @ ms)
    \<and> (\<forall>i < write_index (om_header om). mmap_entries om1 i = mmap_entries om i)
    \<and> (\<forall>st. om_stats om = Some st \<longrightarrow> (\<exists>st1. om_stats om1 = Some st1 \<and> (\<forall>s. counts_added (st s) (st1 s) s ms)))"
proof -
  define om0 where "om0 = om_heartbeat_write now (om\<lparr> om_found := False \<rparr>)"
  have f0: "om_ok om0" "audit_log om0 = audit_log om" "mmap_entries om0 = mmap_entries om" "log_index om0 = log_index om" "om_stats om0 = om_stats om"
    using assms(1) by (auto simp: om0_def om_heartbeat_write_def om_ok_def audit_log_def split: option.splits)
  define om2 where "om2 = fold (om_consume clk) ms om0"
  obtain dqs1 where d: "drain_all (om_consume clk) dqs om0 = Some (dqs1, fold (om_consume clk) (concat (map lfq_items dqs)) om0)" "drained_to dqs dqs1"
    using drain_all_spec [OF assms(2), of "om_consume clk" om0] by blast
  obtain rqs1 where r: "drain_all (om_consume clk) rqs (fold (om_consume clk) (concat (map lfq_items dqs)) om0) = Some (rqs1, om2)" "drained_to rqs rqs1"
    using drain_all_spec [OF assms(3), of "om_consume clk" "fold (om_consume clk) (concat (map lfq_items dqs)) om0"]
    by (auto simp: om2_def assms(5))
  obtain tqs1 where t: "drain_all om_latency tqs om2 = Some (tqs1, fold om_latency (concat (map lfq_items tqs)) om2)" "drained_to tqs tqs1"
    using drain_all_spec [OF assms(4), of om_latency om2] by blast
  define om1 where "om1 = om_window sec (fold om_latency (concat (map lfq_items tqs)) om2)"
  have fr: "om_header om1 = om_header om2" "mmap_entries om1 = mmap_entries om2" "log_index om1 = log_index om2" "om_stats om1 = om_stats om2"
    using om_latency_frame [of "concat (map lfq_items tqs)" om2] by (simp_all add: om1_def om_window_frame)
  have "om_pass clk now sec dqs rqs tqs om = Some (dqs1, rqs1, tqs1, om1)"
    using d(1) r(1) t(1) by (simp add: om_pass_def om0_def [symmetric] om1_def)
  moreover have "om_ok om1" "audit_log om1 = take MAX_LOG_ENTRIES (audit_log om @ ms)"
  proof -
    have "om_ok om1 = om_ok om2" "audit_log om1 = audit_log om2" using fr by (simp_all add: om_ok_def audit_log_def)
    then show "om_ok om1" "audit_log om1 = take MAX_LOG_ENTRIES (audit_log om @ ms)"
      using om_fold_log [OF f0(1), of clk ms] unfolding om2_def f0(2) by (simp_all del: take_append)
  qed
  moreover have "\<forall>i < write_index (om_header om). mmap_entries om1 i = mmap_entries om i"
    using om_fold_append_only [OF f0(1), of _ clk ms] f0(3,4) fr(2) assms(1) by (simp add: om2_def om_ok_def)
  moreover have "\<exists>st1. om_stats om1 = Some st1 \<and> (\<forall>s. counts_added (st s) (st1 s) s ms)" if "om_stats om = Some st" for st
    using om_fold_stats [of om0 st clk ms] that f0(5) fr(4) by (simp add: om2_def)
  ultimately show ?thesis using d(2) r(2) t(2)
    by (intro exI [of _ dqs1] exI [of _ rqs1] exI [of _ tqs1] exI [of _ om1]) simp
qed

definition sample_drop :: DropCopyMessage where
  "sample_drop = \<lparr> dc_client_order_id = 7, dc_internal_id = 0, dc_price = 1, dc_quantity = 2, dc_instrument_id = 6, dc_state = REJECTED, dc_side = BUY \<rparr>"

definition sample_om :: order_manager where
  "sample_om = om_init (\<lambda>_. (0, sample_drop)) 48 (Some (\<lambda>_. shard_stats_init)) (timer_init 10)"

theorem audit_log_append_only_witness:
  "\<exists>dqs1 rqs1 tqs1 om1. om_pass (\<lambda>_. 5) 3 True [] [snd (lfq_push (lfq_init 8 (\<lambda>_. sample_drop)) sample_drop)] [] sample_om = Some (dqs1, rqs1, tqs1, om1)
    \<and> audit_log om1 = [sample_drop]"
proof -
  let ?q0 = "lfq_init 8 (\<lambda>_. sample_drop)"
  have "lfq_ok ?q0" "lfq_items ?q0 = []" "lfq_room ?q0 = 7" using lfq_init_ok [of 3 "\<lambda>_. sample_drop"] by auto
  then obtain q where q: "lfq_push ?q0 sample_drop = (True, q)" "lfq_ok q" "lfq_items q = [sample_drop]"
    using lfq.push_fits [of ?q0 sample_drop] by auto
  have "om_ok sample_om" "audit_log sample_om = []" by (simp_all add: sample_om_def om_init_def om_ok_def audit_log_def)
  then show ?thesis
    using audit_log_append_only [of sample_om "[]" "[q]" "[]" "[sample_drop]" "\<lambda>_. 5" 3 True] q by (auto simp: MAX_LOG_ENTRIES_def)
qed

end
