(* ===== verification/Gateway_Egress.thy ===== *)
theory Gateway_Egress
  imports Gateway_Admit Consumers "HOL-Library.AList"
begin

text \<open>
  The egress side of the gateway and its worker loop (\<open>hft_engine/src/gateway/tcp_server.h\<close>): the connection table of
  a worker, the output buffer of a connection with its \<open>EPOLLOUT\<close> arming, the delivery of execution reports, and one
  iteration of \<open>worker_loop\<close>. The kernel's part of a connection is a record: the bytes it accepted, a script of the
  results of the coming \<open>send\<close> calls, the interest in \<open>EPOLLOUT\<close>, and whether the descriptor is open.
\<close>

section \<open>State\<close>

text \<open>\<open>send\<close> accepts up to \<open>n\<close> bytes, would block, or fails; a result of 0 bytes counts as a failure.\<close>

datatype send_result = SSent nat | SAgain | SError

record outbound =
  tx :: bytes
  script :: "send_result list"
  armed :: bool
  is_open :: bool

record worker =
  client_states :: "(nat \<times> ClientState) list"
  fd_by_client :: "u32 \<Rightarrow> nat option"
  inb :: "nat \<Rightarrow> inbound"
  outb :: "nat \<Rightarrow> outbound"

definition sys_send :: "bytes \<Rightarrow> outbound \<Rightarrow> send_result \<times> outbound" where
  "sys_send data k =
     (case script k of
        [] \<Rightarrow> (SAgain, k)
      | SSent n # rs \<Rightarrow> (SSent (min n (length data)), k\<lparr> tx := tx k @ take n data, script := rs \<rparr>)
      | r # rs \<Rightarrow> (r, k\<lparr> script := rs \<rparr>))"

definition set_state :: "worker \<Rightarrow> nat \<Rightarrow> ClientState \<Rightarrow> outbound \<Rightarrow> worker" where
  "set_state wk fd st k = wk\<lparr> client_states := AList.update fd st (client_states wk), outb := (outb wk)(fd := k) \<rparr>"

section \<open>Operations\<close>

definition close_client :: "worker \<Rightarrow> nat \<Rightarrow> worker" where
  "close_client wk fd =
     (let wk1 = (case map_of (client_states wk) fd of
            None \<Rightarrow> wk
          | Some st \<Rightarrow> wk\<lparr> fd_by_client := (fd_by_client wk)(cs_client_id st := None),
                           client_states := AList.delete fd (client_states wk) \<rparr>)
      in wk1\<lparr> outb := (outb wk1)(fd := (outb wk1 fd)\<lparr> is_open := False \<rparr>) \<rparr>)"

definition arm_epollout :: "ClientState \<Rightarrow> outbound \<Rightarrow> bool \<Rightarrow> ClientState \<times> outbound" where
  "arm_epollout st k on = (if want_write st = on then (st, k) else (st\<lparr> want_write := on \<rparr>, k\<lparr> armed := on \<rparr>))"

text \<open>The flag of the result is false for the return value \<open>-1\<close>.\<close>

function flush_out :: "ClientState \<Rightarrow> outbound \<Rightarrow> bool \<times> ClientState \<times> outbound" where
  "flush_out st k =
     (if out_len st > 0 then
        (case sys_send (span (out_buf st) 0 (out_len st)) k of
           (SSent n, k1) \<Rightarrow>
             if n > 0 then
               (let left = out_len st - n
                in flush_out (st\<lparr> out_len := left,
                                  out_buf := (if left > 0 then memmove_front (out_buf st) n left else out_buf st) \<rparr>) k1)
             else (False, st, k1)
         | (SAgain, k1) \<Rightarrow> (True, arm_epollout st k1 True)
         | (SError, k1) \<Rightarrow> (False, st, k1))
      else (True, arm_epollout st k False))"
  by pat_completeness auto
termination
  by (relation "measure (\<lambda>(st, k). out_len st)") auto

declare flush_out.simps [simp del]

text \<open>\<open>states[fd]\<close> inserts a zeroed state when there is none.\<close>

definition state_of :: "worker \<Rightarrow> nat \<Rightarrow> ClientState" where
  "state_of wk fd = (case map_of (client_states wk) fd of None \<Rightarrow> client_init (\<lambda>_. 0) (\<lambda>_. 0) | Some st \<Rightarrow> st)"

definition append_out :: "ClientState \<Rightarrow> bytes \<Rightarrow> ClientState" where
  "append_out st data = st\<lparr> out_buf := memcpy_at (out_buf st) (out_len st) data, out_len := out_len st + length data \<rparr>"

definition send_report :: "worker \<Rightarrow> nat \<Rightarrow> bytes \<Rightarrow> worker" where
  "send_report wk fd data =
     (let st = state_of wk fd
      in if out_len st + length data > OUT_BUF_CAP then
           (let (ok, st1, k1) = flush_out st (outb wk fd); wk1 = set_state wk fd st1 k1
            in if \<not> ok then close_client wk1 fd
               else if out_len st1 + length data > OUT_BUF_CAP then close_client wk1 fd
               else set_state wk1 fd (append_out st1 data) k1)
         else set_state wk fd (append_out st data) (outb wk fd))"

definition deliver_ack :: "OutboundAck \<Rightarrow> worker \<Rightarrow> worker" where
  "deliver_ack ack wk =
     (case fd_by_client wk (word_of_nat (ack_client_id ack)) of
        None \<Rightarrow> wk
      | Some fd \<Rightarrow> send_report wk fd (enc_execution_report (ack_report ack)))"

definition flush_client :: "nat \<Rightarrow> worker \<Rightarrow> worker" where
  "flush_client fd wk =
     (case map_of (client_states wk) fd of
        None \<Rightarrow> wk
      | Some st \<Rightarrow>
          if out_len st > 0 then
            (let (ok, st1, k1) = flush_out st (outb wk fd); wk1 = set_state wk fd st1 k1
             in if ok then wk1 else close_client wk1 fd)
          else wk)"

text \<open>The drain of the four ack queues of the worker and the flush of all its connections. The order in which the
  hash map is traversed does not matter to the result for a connection; here it is the order of the table.\<close>

definition drain_acks :: "OutboundAck lfq list \<Rightarrow> worker \<Rightarrow> (OutboundAck lfq list \<times> worker) option" where
  "drain_acks qs wk = do {
     (qs1, wk1) \<leftarrow> drain_all deliver_ack qs wk;
     Some (qs1, fold flush_client (map fst (client_states wk1)) wk1) }"

section \<open>The worker loop\<close>

text \<open>\<open>accept\<close>: the connection gets the next identity.\<close>

definition accept_client :: "gateway \<Rightarrow> worker \<Rightarrow> nat \<Rightarrow> gateway \<times> worker" where
  "accept_client g wk fd =
     (let cid = next_client_id g
      in (g\<lparr> next_client_id := cid + 1 \<rparr>,
          wk\<lparr> client_states := AList.update fd ((state_of wk fd)\<lparr> cs_client_id := cid \<rparr>) (client_states wk),
              fd_by_client := (fd_by_client wk)(cid := Some fd) \<rparr>))"

definition handle_client :: "gateway \<Rightarrow> nat \<Rightarrow> worker \<Rightarrow> nat \<Rightarrow> (nat \<Rightarrow> u64 \<times> u64) \<Rightarrow> (nat \<Rightarrow> stamps) \<Rightarrow> (gateway \<times> worker) option" where
  "handle_client g w wk fd rclk clk =
     (case map_of (client_states wk) fd of
        None \<Rightarrow> Some (g, wk)
      | Some st \<Rightarrow> do {
          (closed, g1, st1, s1) \<leftarrow> read_loop g w st (inb wk fd) rclk 0 clk 0;
          let wk1 = wk\<lparr> client_states := AList.update fd st1 (client_states wk), inb := (inb wk)(fd := s1) \<rparr>;
          Some (g1, if closed then close_client wk1 fd else wk1) })"

datatype event = EvAccept "nat option" | EvClient nat bool bool

text \<open>One entry of \<open>events[]\<close>: a pending connection (\<open>accept\<close> may fail), or a client with its \<open>EPOLLOUT\<close> and
  \<open>EPOLLIN | EPOLLERR | EPOLLHUP\<close> bits.\<close>

fun worker_event :: "nat \<Rightarrow> event \<Rightarrow> (nat \<Rightarrow> u64 \<times> u64) \<Rightarrow> (nat \<Rightarrow> stamps) \<Rightarrow> gateway \<times> worker \<Rightarrow> (gateway \<times> worker) option" where
  "worker_event w (EvAccept None) rclk clk (g, wk) = Some (g, wk)"
| "worker_event w (EvAccept (Some fd)) rclk clk (g, wk) = Some (accept_client g wk fd)"
| "worker_event w (EvClient fd o_bit i_bit) rclk clk (g, wk) =
     (let (ok, wk1) =
        (if o_bit then
           (case map_of (client_states wk) fd of
              None \<Rightarrow> (True, wk)
            | Some st \<Rightarrow> (let (ok, st1, k1) = flush_out st (outb wk fd); wk2 = set_state wk fd st1 k1
                           in (ok, if ok then wk2 else close_client wk2 fd)))
         else (True, wk))
      in if ok \<and> i_bit then handle_client g w wk1 fd rclk clk else Some (g, wk1))"

fun worker_events :: "nat \<Rightarrow> (event \<times> (nat \<Rightarrow> u64 \<times> u64) \<times> (nat \<Rightarrow> stamps)) list \<Rightarrow> gateway \<times> worker \<Rightarrow> (gateway \<times> worker) option" where
  "worker_events w [] x = Some x"
| "worker_events w ((ev, rclk, clk) # evs) x = do { x1 \<leftarrow> worker_event w ev rclk clk x; worker_events w evs x1 }"

text \<open>The ack queues \<open>ack_queues[s][w]\<close> of all shards, and their replacement.\<close>

definition worker_acks :: "gateway \<Rightarrow> nat \<Rightarrow> OutboundAck lfq list option" where
  "worker_acks g w = those (map (\<lambda>e. do { qs \<leftarrow> ack_queues (outs (e_shard e)); list_get qs w }) (gw_engines g))"

definition put_acks :: "gateway \<Rightarrow> nat \<Rightarrow> OutboundAck lfq list \<Rightarrow> gateway" where
  "put_acks g w qs = g\<lparr> gw_engines := map2 (\<lambda>e q. e\<lparr> e_shard := (e_shard e)\<lparr> outs := (outs (e_shard e))
     \<lparr> ack_queues := map_option (\<lambda>l. l[w := q]) (ack_queues (outs (e_shard e))) \<rparr> \<rparr> \<rparr>) (gw_engines g) qs \<rparr>"

text \<open>One iteration; \<open>(e1, e2, dr1, dr2, w2)\<close> are its clock readings.\<close>

definition worker_pass :: "nat \<Rightarrow> (event \<times> (nat \<Rightarrow> u64 \<times> u64) \<times> (nat \<Rightarrow> stamps)) list \<Rightarrow> u64 \<times> u64 \<times> u64 \<times> u64 \<times> u64 \<Rightarrow>
    gateway \<times> worker \<Rightarrow> (gateway \<times> worker) option" where
  "worker_pass w evs clks x = (case clks of (e1, e2, dr1, dr2, w2) \<Rightarrow> do {
     let g0 = fst x;
     let s = gws g0;
     let s0 = (if evs \<noteq> [] then s\<lparr> total_epoll_cycles := total_epoll_cycles s + (e2 - e1) \<rparr>
               else s\<lparr> total_epoll_idle_cycles := total_epoll_idle_cycles s + (e2 - e1) \<rparr>);
     (g, wk) \<leftarrow> worker_events w evs (g0\<lparr> gws := s0 \<rparr>, snd x);
     qs \<leftarrow> worker_acks g w;
     (qs1, wk1) \<leftarrow> drain_acks qs wk;
     let g1 = put_acks g w qs1;
     let s1 = gws g1;
     Some (g1\<lparr> gws := s1\<lparr> total_drain_cycles := total_drain_cycles s1 + (dr2 - dr1),
                         total_worker_cycles := total_worker_cycles s1 + (w2 - e1) \<rparr> \<rparr>, wk1) })"

section \<open>The output stream of a connection\<close>

definition pending_out :: "ClientState \<Rightarrow> bytes" where
  "pending_out st = span (out_buf st) 0 (out_len st)"

lemma pending_append: "pending_out (append_out st data) = pending_out st @ data"
  by (rule nth_equalityI) (auto simp: pending_out_def append_out_def span_def memcpy_at_def nth_append)

lemma pending_sent:
  "n \<le> out_len st \<Longrightarrow>
   pending_out (st\<lparr> out_len := out_len st - n, out_buf := (if out_len st - n > 0 then memmove_front (out_buf st) n (out_len st - n) else out_buf st) \<rparr>)
     = drop n (pending_out st)"
  by (rule nth_equalityI) (auto simp: pending_out_def span_def memmove_front_def)

lemma arm_epollout_simps:
  assumes "arm_epollout st k on = (st1, k1)" and "armed k = want_write st"
  shows "tx k1 = tx k" "pending_out st1 = pending_out st" "out_len st1 = out_len st" "armed k1 = want_write st1" "want_write st1 = on"
    "is_open k1 = is_open k" "cs_client_id st1 = cs_client_id st" "unread st1 = unread st" "client_ok st1 = client_ok st"
  using assms by (auto simp: arm_epollout_def pending_out_def unread_def client_ok_def split: if_splits)

lemma span_take_min: "take (min n m) (span b a m) = take n (span b a m)"
  by (cases "n \<le> m") (simp_all add: min_def)

lemma flush_out_spec:
  assumes "flush_out st k = (ok, st1, k1)" and "armed k = want_write st"
  shows "tx k1 @ pending_out st1 = tx k @ pending_out st \<and> out_len st1 \<le> out_len st \<and> armed k1 = want_write st1
    \<and> (ok \<longrightarrow> (out_len st1 > 0 \<longrightarrow> want_write st1)) \<and> is_open k1 = is_open k \<and> cs_client_id st1 = cs_client_id st
    \<and> client_ok st1 = client_ok st"
  using assms
proof (induction st k rule: flush_out.induct)
  case (1 st k)
  show ?case
  proof (cases "out_len st > 0")
    case False
    then show ?thesis using "1.prems" arm_epollout_simps [of st k False st1 k1] by (auto simp: flush_out.simps [of st k])
  next
    case True
    obtain r k0 where s: "sys_send (pending_out st) k = (r, k0)" by (metis surj_pair)
    have k0: "armed k0 = armed k" "is_open k0 = is_open k" "\<And>n. r = SSent n \<Longrightarrow> n \<le> out_len st \<and> tx k0 = tx k @ take n (pending_out st)"
      "\<And>n. r \<noteq> SSent n \<Longrightarrow> r = SAgain \<or> r = SError \<Longrightarrow> tx k0 = tx k"
      using s by (auto simp: sys_send_def pending_out_def span_take_min split: list.splits send_result.splits)
    note fl = flush_out.simps [of st k, folded pending_out_def]
    show ?thesis
    proof (cases r)
      case (SSent n)
      let ?st = "st\<lparr> out_len := out_len st - n, out_buf := (if out_len st - n > 0 then memmove_front (out_buf st) n (out_len st - n) else out_buf st) \<rparr>"
      have n: "n \<le> out_len st" "tx k0 = tx k @ take n (pending_out st)" using k0(3) [OF SSent] by auto
      show ?thesis
      proof (cases "n > 0")
        case True
        have "flush_out ?st k0 = (ok, st1, k1)" using "1.prems"(1) s SSent True \<open>out_len st > 0\<close> by (simp add: fl Let_def)
        then have "tx k1 @ pending_out st1 = tx k0 @ pending_out ?st \<and> out_len st1 \<le> out_len ?st \<and> armed k1 = want_write st1
          \<and> (ok \<longrightarrow> (out_len st1 > 0 \<longrightarrow> want_write st1)) \<and> is_open k1 = is_open k0 \<and> cs_client_id st1 = cs_client_id ?st
          \<and> client_ok st1 = client_ok ?st"
          using "1.IH" [OF \<open>out_len st > 0\<close> s [unfolded pending_out_def, symmetric] SSent True refl] "1.prems"(2) k0(1) by simp
        moreover have "client_ok ?st = client_ok st" "out_len ?st \<le> out_len st" by (simp_all add: client_ok_def unread_def)
        ultimately show ?thesis using pending_sent [OF n(1)] n(2) k0(2) by auto
      next
        case False
        then show ?thesis using "1.prems" s SSent \<open>out_len st > 0\<close> k0 n by (auto simp: fl)
      qed
    next
      case SAgain
      then show ?thesis using "1.prems" s \<open>out_len st > 0\<close> k0 arm_epollout_simps [of st k0 True st1 k1] by (auto simp: fl)
    next
      case SError
      then show ?thesis using "1.prems" s \<open>out_len st > 0\<close> k0 by (auto simp: fl)
    qed
  qed
qed

section \<open>The connection table\<close>

definition worker_ok :: "worker \<Rightarrow> bool" where
  "worker_ok wk \<longleftrightarrow> distinct (map fst (client_states wk))
     \<and> (\<forall>c fd. fd_by_client wk c = Some fd \<longleftrightarrow> (\<exists>st. map_of (client_states wk) fd = Some st \<and> cs_client_id st = c))
     \<and> (\<forall>fd st. map_of (client_states wk) fd = Some st \<longrightarrow> out_len st \<le> OUT_BUF_CAP \<and> client_ok st \<and> armed (outb wk fd) = want_write st \<and> is_open (outb wk fd))"

text \<open>The bytes sent and to be sent to a client; \<open>None\<close> when it is not connected.\<close>

definition stream_of :: "worker \<Rightarrow> u32 \<Rightarrow> bytes option" where
  "stream_of wk c = (case fd_by_client wk c of None \<Rightarrow> None
     | Some fd \<Rightarrow> map_option (\<lambda>st. tx (outb wk fd) @ pending_out st) (map_of (client_states wk) fd))"

lemma worker_okD:
  assumes "worker_ok wk"
  shows "distinct (map fst (client_states wk))"
    and "fd_by_client wk c = Some fd \<longleftrightarrow> (\<exists>st. map_of (client_states wk) fd = Some st \<and> cs_client_id st = c)"
    and "map_of (client_states wk) fd = Some st \<Longrightarrow> out_len st \<le> OUT_BUF_CAP \<and> client_ok st \<and> armed (outb wk fd) = want_write st \<and> is_open (outb wk fd)"
  using assms unfolding worker_ok_def by blast+

lemma set_state_simps:
  "client_states (set_state wk fd st k) = AList.update fd st (client_states wk)" "fd_by_client (set_state wk fd st k) = fd_by_client wk"
  "outb (set_state wk fd st k) = (outb wk)(fd := k)" "inb (set_state wk fd st k) = inb wk"
  by (simp_all add: set_state_def)

lemma map_of_update [simp]: "map_of (AList.update k v al) = (map_of al)(k \<mapsto> v)"
  by (rule update_conv')

lemma map_of_delete [simp]: "map_of (AList.delete k al) = (map_of al)(k := None)"
  by (rule delete_conv')

lemma set_state_ok:
  assumes ok: "worker_ok wk" and st: "map_of (client_states wk) fd = Some st" "cs_client_id st1 = cs_client_id st"
    and new: "out_len st1 \<le> OUT_BUF_CAP" "client_ok st1" "armed k1 = want_write st1" "is_open k1"
  shows "worker_ok (set_state wk fd st1 k1)"
  unfolding worker_ok_def set_state_simps using worker_okD [OF ok] st new by (auto simp: distinct_update simp del: map_of_eq_Some_iff split: if_splits)

lemma set_state_stream:
  assumes ok: "worker_ok wk" and st: "map_of (client_states wk) fd = Some st" "cs_client_id st1 = cs_client_id st"
  shows "stream_of (set_state wk fd st1 k1) c = (if c = cs_client_id st then Some (tx k1 @ pending_out st1) else stream_of wk c)"
proof (cases "fd_by_client wk c")
  case None
  then show ?thesis using worker_okD(2) [OF ok, of c fd] st by (auto simp: stream_of_def set_state_simps)
next
  case (Some fd1)
  then show ?thesis using worker_okD(2) [OF ok, of c fd1] worker_okD(2) [OF ok, of c fd] st by (auto simp: stream_of_def set_state_simps)
qed

lemma close_client_ok:
  assumes ok: "worker_ok wk" and st: "map_of (client_states wk) fd = Some st"
  shows "worker_ok (close_client wk fd)"
    and "stream_of (close_client wk fd) c = (if c = cs_client_id st then None else stream_of wk c)"
    and "map_of (client_states (close_client wk fd)) = (map_of (client_states wk))(fd := None)"
proof -
  have s: "client_states (close_client wk fd) = AList.delete fd (client_states wk)"
    "fd_by_client (close_client wk fd) = (fd_by_client wk)(cs_client_id st := None)"
    "outb (close_client wk fd) = (outb wk)(fd := (outb wk fd)\<lparr> is_open := False \<rparr>)"
    using st by (simp_all add: close_client_def)
  have uq: "fd1 = fd" if "map_of (client_states wk) fd1 = Some st1" "cs_client_id st1 = cs_client_id st" for fd1 st1
    using worker_okD(2) [OF ok, of "cs_client_id st"] st that by (metis option.inject)
  have m: "((fd_by_client wk)(cs_client_id st := None)) c = Some fd1
      \<longleftrightarrow> (\<exists>st1. ((map_of (client_states wk))(fd := None)) fd1 = Some st1 \<and> cs_client_id st1 = c)" for c fd1
  proof (cases "fd1 = fd")
    case True
    then show ?thesis using worker_okD(2) [OF ok, of c fd] st by (simp del: map_of_eq_Some_iff)
  next
    case False
    then show ?thesis using worker_okD(2) [OF ok, of c fd1] uq [of fd1] by (simp del: map_of_eq_Some_iff) metis
  qed
  show "worker_ok (close_client wk fd)"
    unfolding worker_ok_def s map_of_delete
  proof (intro conjI allI)
    show "distinct (map fst (AList.delete fd (client_states wk)))" by (rule distinct_delete [OF worker_okD(1) [OF ok]])
    fix fd1 st1
    show "((map_of (client_states wk))(fd := None)) fd1 = Some st1 \<longrightarrow> out_len st1 \<le> OUT_BUF_CAP \<and> client_ok st1
      \<and> armed (((outb wk)(fd := (outb wk fd)\<lparr> is_open := False \<rparr>)) fd1) = want_write st1
      \<and> is_open (((outb wk)(fd := (outb wk fd)\<lparr> is_open := False \<rparr>)) fd1)"
      using worker_okD(3) [OF ok, of fd1 st1] by (cases "fd1 = fd") (simp_all del: map_of_eq_Some_iff)
  qed (rule m)
  show "map_of (client_states (close_client wk fd)) = (map_of (client_states wk))(fd := None)" by (simp add: s)
  have "fd_by_client wk c = Some fd \<Longrightarrow> c = cs_client_id st" using worker_okD(2) [OF ok, of c fd] st by auto
  then show "stream_of (close_client wk fd) c = (if c = cs_client_id st then None else stream_of wk c)"
    unfolding stream_of_def s by (auto split: option.splits)
qed

section \<open>Delivery of reports\<close>

text \<open>What an operation does to the streams: every client is dropped or its stream grows by its part.\<close>

definition grows :: "worker \<Rightarrow> worker \<Rightarrow> (u32 \<Rightarrow> bytes) \<Rightarrow> bool" where
  "grows wk wk1 add \<longleftrightarrow> worker_ok wk1 \<and> (\<forall>c. stream_of wk1 c = None \<or> stream_of wk1 c = map_option (\<lambda>s. s @ add c) (stream_of wk c))"

lemma grows_trans: "grows wk wk1 f \<Longrightarrow> grows wk1 wk2 h \<Longrightarrow> grows wk wk2 (\<lambda>c. f c @ h c)"
  unfolding grows_def
proof (intro conjI allI; elim conjE)
  fix c
  assume "\<forall>c. stream_of wk1 c = None \<or> stream_of wk1 c = map_option (\<lambda>s. s @ f c) (stream_of wk c)"
    and "\<forall>c. stream_of wk2 c = None \<or> stream_of wk2 c = map_option (\<lambda>s. s @ h c) (stream_of wk1 c)"
  then show "stream_of wk2 c = None \<or> stream_of wk2 c = map_option (\<lambda>s. s @ f c @ h c) (stream_of wk c)"
    by (cases "stream_of wk c"; cases "stream_of wk1 c") (force dest!: spec [where x = c])+
qed

lemma grows_refl: "worker_ok wk \<Longrightarrow> grows wk wk (\<lambda>_. [])"
  by (simp add: grows_def option.map_ident)

lemma stream_of_fd: "worker_ok wk \<Longrightarrow> map_of (client_states wk) fd = Some st \<Longrightarrow> stream_of wk (cs_client_id st) = Some (tx (outb wk fd) @ pending_out st)"
  using worker_okD(2) [of wk "cs_client_id st" fd] by (auto simp: stream_of_def)

lemma set_state_grows:
  assumes ok: "worker_ok wk" and st: "map_of (client_states wk) fd = Some st" "cs_client_id st1 = cs_client_id st"
    and new: "out_len st1 \<le> OUT_BUF_CAP" "client_ok st1" "armed k1 = want_write st1" "is_open k1"
    and tr: "tx k1 @ pending_out st1 = tx (outb wk fd) @ pending_out st @ data"
  shows "grows wk (set_state wk fd st1 k1) (\<lambda>c. if c = cs_client_id st then data else [])"
  using set_state_ok [OF ok st new] set_state_stream [OF ok st] stream_of_fd [OF ok st(1)] tr
  by (simp add: grows_def option.map_ident)

lemma close_grows:
  assumes "worker_ok wk" and "map_of (client_states wk) fd = Some st"
  shows "grows wk (close_client wk fd) (\<lambda>c. if c = cs_client_id st then data else [])"
  using close_client_ok [OF assms] by (simp add: grows_def option.map_ident)

lemma append_out_simps [simp]:
  "cs_client_id (append_out st data) = cs_client_id st" "out_len (append_out st data) = out_len st + length data"
  "want_write (append_out st data) = want_write st" "client_ok (append_out st data) = client_ok st"
  by (simp_all add: append_out_def client_ok_def unread_def)

lemma flush_state:
  assumes ok: "worker_ok wk" and st: "map_of (client_states wk) fd = Some st" and f: "flush_out st (outb wk fd) = (r, st1, k1)"
  shows "grows wk (set_state wk fd st1 k1) (\<lambda>_. [])" and "map_of (client_states (set_state wk fd st1 k1)) fd = Some st1"
    and "cs_client_id st1 = cs_client_id st" and "outb (set_state wk fd st1 k1) fd = k1"
    and "out_len st1 \<le> OUT_BUF_CAP" and "client_ok st1" and "armed k1 = want_write st1" and "is_open k1"
    and "r \<Longrightarrow> out_len st1 > 0 \<longrightarrow> want_write st1"
proof -
  note o = worker_okD(3) [OF ok st]
  have s: "tx k1 @ pending_out st1 = tx (outb wk fd) @ pending_out st @ []" "out_len st1 \<le> OUT_BUF_CAP" "client_ok st1"
    "armed k1 = want_write st1" "is_open k1" "cs_client_id st1 = cs_client_id st" using flush_out_spec [OF f] o by auto
  show "grows wk (set_state wk fd st1 k1) (\<lambda>_. [])" using set_state_grows [OF ok st s(6,2-5,1)] by simp
  show "map_of (client_states (set_state wk fd st1 k1)) fd = Some st1" "outb (set_state wk fd st1 k1) fd = k1"
    by (simp_all add: set_state_simps)
  show "cs_client_id st1 = cs_client_id st" "out_len st1 \<le> OUT_BUF_CAP" "client_ok st1" "armed k1 = want_write st1" "is_open k1"
    by (fact s)+
  show "r \<Longrightarrow> out_len st1 > 0 \<longrightarrow> want_write st1" using flush_out_spec [OF f] o by auto
qed

lemma send_report_grows:
  assumes ok: "worker_ok wk" and c: "fd_by_client wk c = Some fd"
  shows "grows wk (send_report wk fd data) (\<lambda>d. if d = c then data else [])"
proof -
  obtain st where st: "map_of (client_states wk) fd = Some st" "cs_client_id st = c" using worker_okD(2) [OF ok] c by blast
  note o = worker_okD(3) [OF ok st(1)]
  have so: "state_of wk fd = st" using st by (simp add: state_of_def)
  show ?thesis
  proof (cases "out_len st + length data > OUT_BUF_CAP")
    case False
    have "grows wk (set_state wk fd (append_out st data) (outb wk fd)) (\<lambda>d. if d = cs_client_id st then data else [])"
      by (rule set_state_grows [OF ok st(1)]) (use o False in \<open>auto simp: pending_append\<close>)
    then show ?thesis using False so st(2) by (simp add: send_report_def)
  next
    case True
    obtain r st1 k1 where f: "flush_out st (outb wk fd) = (r, st1, k1)" by (metis prod_cases3)
    let ?wk = "set_state wk fd st1 k1"
    note fs = flush_state [OF ok st(1) f]
    have ok1: "worker_ok ?wk" using fs(1) by (simp add: grows_def)
    have tr: "grows wk wk2 (\<lambda>d. if d = c then data else [])" if "grows ?wk wk2 (\<lambda>d. if d = cs_client_id st1 then data else [])" for wk2
      using grows_trans [OF fs(1) that] fs(3) st(2) by simp
    show ?thesis
    proof (cases "\<not> r \<or> out_len st1 + length data > OUT_BUF_CAP")
      case True
      then have "send_report wk fd data = close_client ?wk fd" using so f \<open>out_len st + length data > OUT_BUF_CAP\<close>
        by (auto simp: send_report_def Let_def)
      then show ?thesis using tr close_grows [OF ok1 fs(2)] by simp
    next
      case False
      then have sr: "send_report wk fd data = set_state ?wk fd (append_out st1 data) k1" using so f \<open>out_len st + length data > OUT_BUF_CAP\<close>
        by (auto simp: send_report_def Let_def)
      have "grows ?wk (set_state ?wk fd (append_out st1 data) k1) (\<lambda>d. if d = cs_client_id st1 then data else [])"
        by (rule set_state_grows [OF ok1 fs(2)]) (use fs False in \<open>auto simp: pending_append\<close>)
      then show ?thesis using tr sr by simp
    qed
  qed
qed

text \<open>The reports of a client among a list of acks, as bytes.\<close>

definition acks_for :: "OutboundAck list \<Rightarrow> u32 \<Rightarrow> bytes" where
  "acks_for as c = concat (map (\<lambda>a. enc_execution_report (ack_report a)) (filter (\<lambda>a. word_of_nat (ack_client_id a) = c) as))"

lemma deliver_ack_grows:
  assumes ok: "worker_ok wk"
  shows "grows wk (deliver_ack a wk) (acks_for [a])"
proof (cases "fd_by_client wk (word_of_nat (ack_client_id a))")
  case None
  then have "stream_of wk (word_of_nat (ack_client_id a)) = None" by (simp add: stream_of_def)
  then show ?thesis using ok None by (auto simp: grows_def deliver_ack_def acks_for_def option.map_ident)
next
  case (Some fd)
  have "acks_for [a] = (\<lambda>d. if d = word_of_nat (ack_client_id a) then enc_execution_report (ack_report a) else [])"
    by (auto simp: acks_for_def fun_eq_iff)
  then show ?thesis using send_report_grows [OF ok Some] Some by (simp add: deliver_ack_def)
qed

lemma deliver_acks_grow:
  "worker_ok wk \<Longrightarrow> grows wk (fold deliver_ack as wk) (acks_for as)"
proof (induction as arbitrary: wk)
  case Nil
  then show ?case using grows_refl by (simp add: acks_for_def)
next
  case (Cons a as)
  have "grows wk (fold deliver_ack (a # as) wk) (\<lambda>c. acks_for [a] c @ acks_for as c)"
    using grows_trans [OF deliver_ack_grows [OF Cons.prems] Cons.IH] deliver_ack_grows [OF Cons.prems, of a] by (simp add: grows_def)
  moreover have "(\<lambda>c. acks_for [a] c @ acks_for as c) = acks_for (a # as)" by (auto simp: acks_for_def fun_eq_iff)
  ultimately show ?case by simp
qed

section \<open>Flushing\<close>

definition settled :: "worker \<Rightarrow> nat \<Rightarrow> bool" where
  "settled wk fd \<longleftrightarrow> (\<forall>st. map_of (client_states wk) fd = Some st \<longrightarrow> out_len st > 0 \<longrightarrow> want_write st)"

lemma flush_client_ok:
  assumes ok: "worker_ok wk"
  shows "grows wk (flush_client fd wk) (\<lambda>_. [])" and "settled (flush_client fd wk) fd"
    and "fd1 \<noteq> fd \<Longrightarrow> map_of (client_states (flush_client fd wk)) fd1 = map_of (client_states wk) fd1"
proof -
  consider (idle) "flush_client fd wk = wk" "settled wk fd"
    | (flush) st r st1 k1 where "map_of (client_states wk) fd = Some st" "flush_out st (outb wk fd) = (r, st1, k1)"
        "flush_client fd wk = (if r then set_state wk fd st1 k1 else close_client (set_state wk fd st1 k1) fd)"
  proof (cases "map_of (client_states wk) fd")
    case None
    then show ?thesis using idle by (simp add: flush_client_def settled_def)
  next
    case (Some st)
    obtain r st1 k1 where f: "flush_out st (outb wk fd) = (r, st1, k1)" by (metis prod_cases3)
    show ?thesis
    proof (cases "out_len st > 0")
      case True
      then show ?thesis using flush [OF Some f] Some f by (simp add: flush_client_def)
    next
      case False
      then show ?thesis using idle Some by (simp add: flush_client_def settled_def)
    qed
  qed
  then have "grows wk (flush_client fd wk) (\<lambda>_. []) \<and> settled (flush_client fd wk) fd
    \<and> (fd1 \<noteq> fd \<longrightarrow> map_of (client_states (flush_client fd wk)) fd1 = map_of (client_states wk) fd1)"
  proof cases
    case idle
    then show ?thesis using grows_refl [OF ok] by simp
  next
    case (flush st r st1 k1)
    note fs = flush_state [OF ok flush(1,2)]
    have ok1: "worker_ok (set_state wk fd st1 k1)" using fs(1) by (simp add: grows_def)
    show ?thesis
    proof (cases r)
      case True
      then show ?thesis using flush(3) fs(1) fs(9) by (simp add: settled_def set_state_simps)
    next
      case False
      have "grows wk (close_client (set_state wk fd st1 k1) fd) (\<lambda>_. [])"
        using grows_trans [OF fs(1) close_grows [OF ok1 fs(2), of "[]"]] by simp
      then show ?thesis using flush(3) False close_client_ok(3) [OF ok1 fs(2)] by (simp add: settled_def set_state_simps)
    qed
  qed
  then show "grows wk (flush_client fd wk) (\<lambda>_. [])" "settled (flush_client fd wk) fd"
    "fd1 \<noteq> fd \<Longrightarrow> map_of (client_states (flush_client fd wk)) fd1 = map_of (client_states wk) fd1" by blast+
qed

lemma flush_all_ok:
  assumes "worker_ok wk"
  shows "grows wk (fold flush_client fds wk) (\<lambda>_. []) \<and> (\<forall>fd. fd \<in> set fds \<or> settled wk fd \<longrightarrow> settled (fold flush_client fds wk) fd)"
  using assms
proof (induction fds arbitrary: wk)
  case Nil
  then show ?case using grows_refl by simp
next
  case (Cons fd fds)
  note f = flush_client_ok [OF Cons.prems, where fd = fd]
  have ok1: "worker_ok (flush_client fd wk)" using f(1) by (simp add: grows_def)
  have "settled (flush_client fd wk) fd1" if "fd1 = fd \<or> settled wk fd1" for fd1
    using that f(2) f(3) [where ?fd1.0 = fd1] by (cases "fd1 = fd") (simp_all add: settled_def)
  then show ?case using grows_trans [OF f(1)] Cons.IH [OF ok1] by auto
qed

text \<open>
  C18. Execution reports reach their client complete and in order. Draining the ack queues of a worker returns with the
  queues empty. For every client the bytes sent to it and still buffered for it are extended by exactly its own reports,
  in the order the engines produced them and as encoded on the wire, or its connection was closed and left no entry in the
  table; no other client's stream is touched. The table stays consistent in both directions, no buffer exceeds its
  capacity, and a connection with unsent bytes has \<open>EPOLLOUT\<close> armed, so that the flush is resumed.
\<close>

theorem reports_in_order:
  assumes "worker_ok wk" and "\<forall>q \<in> set qs. lfq_ok q"
  shows "\<exists>qs1 wk1. drain_acks qs wk = Some (qs1, wk1) \<and> worker_ok wk1 \<and> drained_to qs qs1
    \<and> (\<forall>c. stream_of wk1 c = None \<or> stream_of wk1 c = map_option (\<lambda>s. s @ acks_for (concat (map lfq_items qs)) c) (stream_of wk c))
    \<and> (\<forall>fd st. map_of (client_states wk1) fd = Some st \<longrightarrow> out_len st \<le> OUT_BUF_CAP \<and> (out_len st > 0 \<longrightarrow> want_write st \<and> armed (outb wk1 fd)))"
proof -
  let ?as = "concat (map lfq_items qs)"
  obtain qs1 where d: "drain_all deliver_ack qs wk = Some (qs1, fold deliver_ack ?as wk)" "drained_to qs qs1"
    using drain_all_spec [OF assms(2), of deliver_ack wk] by blast
  define wk0 where "wk0 = fold deliver_ack ?as wk"
  define wk1 where "wk1 = fold flush_client (map fst (client_states wk0)) wk0"
  have g0: "grows wk wk0 (acks_for ?as)" using deliver_acks_grow [OF assms(1)] by (simp add: wk0_def)
  then have ok0: "worker_ok wk0" by (simp add: grows_def)
  note fl = flush_all_ok [OF ok0, of "map fst (client_states wk0)", folded wk1_def]
  have g: "grows wk wk1 (acks_for ?as)" using grows_trans [OF g0, of wk1 "\<lambda>_. []"] fl by simp
  have st: "settled wk1 fd" for fd
  proof (cases "fd \<in> set (map fst (client_states wk0))")
    case False
    then have "map_of (client_states wk0) fd = None" by (simp add: map_of_eq_None_iff)
    then have "settled wk0 fd" by (simp add: settled_def)
    then show ?thesis using fl by blast
  qed (use fl in blast)
  have "drain_acks qs wk = Some (qs1, wk1)" using d(1) by (simp add: drain_acks_def wk0_def wk1_def)
  moreover have "out_len s \<le> OUT_BUF_CAP \<and> (out_len s > 0 \<longrightarrow> want_write s \<and> armed (outb wk1 fd))" if "map_of (client_states wk1) fd = Some s" for fd s
    using worker_okD(3) [of wk1 fd s] g st [of fd] that by (auto simp: grows_def settled_def)
  ultimately show ?thesis using d(2) g unfolding grows_def by blast
qed

text \<open>One connected client; one report for it is queued.\<close>

definition sample_ack :: OutboundAck where
  "sample_ack = \<lparr> ack_report = \<lparr> er_msg_type = ch CHR ''E'', er_order_token = encode_order_token 7, er_executed_shares = 5,
     er_execution_price = 100, er_liquidity_flag = ch CHR ''A'', er_match_number = replicate 8 0 \<rparr>, ack_client_id = 1 \<rparr>"

definition sample_worker :: worker where
  "sample_worker = snd (accept_client sample_gateway
     \<lparr> client_states = [], fd_by_client = (\<lambda>_. None), inb = (\<lambda>_. sample_inbound),
       outb = (\<lambda>_. \<lparr> tx = [], script = [SSent 10], armed = False, is_open = True \<rparr>) \<rparr> 9)"

lemma sample_worker_ok: "worker_ok sample_worker"
  by (auto simp: worker_ok_def sample_worker_def accept_client_def Let_def state_of_def client_init_def client_ok_def unread_def span_def)

theorem reports_in_order_witness:
  "\<exists>qs1 wk1. drain_acks [snd (lfq_push (lfq_init 8 (\<lambda>_. sample_ack)) sample_ack)] sample_worker = Some (qs1, wk1) \<and> worker_ok wk1"
proof -
  let ?q0 = "lfq_init 8 (\<lambda>_. sample_ack)"
  have "lfq_ok ?q0" "lfq_items ?q0 = []" "lfq_room ?q0 = 7" using lfq_init_ok [of 3 "\<lambda>_. sample_ack"] by auto
  then obtain q where q: "lfq_push ?q0 sample_ack = (True, q)" "lfq_ok q" "lfq_items q = [sample_ack]"
    using lfq.push_fits [of ?q0 sample_ack] by auto
  then show ?thesis using reports_in_order [OF sample_worker_ok, of "[q]"] by auto
qed

end
