(* ===== verification/Seqlock.thy ===== *)
theory Seqlock
  imports Prelude
begin

text \<open>
  The sequence lock around the shared statistics regions: \<open>stats_write\<close> of
  \<open>hft_engine/src/core/stats_region.h\<close> and \<open>firm_stats_write\<close> of
  \<open>hft-trading-firm/src/monitoring/firm_stats.h\<close> are the same single-writer section, and the
  monitors' \<open>read\<close> loop is the matching reader. Every load and store of a cell is a step of its
  own; writer, reader and the other threads that store to cells outside the lock interleave
  arbitrarily. The interleaving is sequentially consistent: there is one writer, and on the
  target x86-64 its stores become visible in program order, which the release fences also keep
  the compiler to.

  What a section publishes is a value of type \<open>'p\<close>; \<open>stores p\<close> is the list of stores its
  body makes. The published values, the numbers of completed sections and the value in the
  writer's program counter are history variables: no step depends on them.
\<close>

section \<open>Writer, reader and their steps\<close>

datatype ('a, 'v, 'p) seq_writer =
    W_idle
  | W_body 'p u32 "('a \<times> 'v) list"  \<comment> \<open>\<open>s\<close> loaded, \<open>s + 1\<close> stored; the stores left\<close>

datatype ('a, 'v) seq_reader =
    R_idle
  | R_copy nat u32 "'a list" "('a \<times> 'v) list"  \<comment> \<open>\<open>s0\<close> loaded and even; cells left and cells copied\<close>
  | R_ok nat nat "('a \<times> 'v) list"  \<comment> \<open>the sequence was unchanged: snapshot returned\<close>

record ('a, 'v, 'p) seqlock =
  sq_seq :: u32
  sq_cells :: "'a \<Rightarrow> 'v"
  sq_writer :: "('a, 'v, 'p) seq_writer"
  sq_reader :: "('a, 'v) seq_reader"
  sq_published :: "'p list"

definition seqlock_init :: "('a \<Rightarrow> 'v) \<Rightarrow> ('a, 'v, 'p) seqlock" where
  "seqlock_init m = \<lparr>sq_seq = 0, sq_cells = m, sq_writer = W_idle, sq_reader = R_idle, sq_published = []\<rparr>"

definition write_begin :: "('p \<Rightarrow> ('a \<times> 'v) list) \<Rightarrow> 'p \<Rightarrow> ('a, 'v, 'p) seqlock \<Rightarrow> ('a, 'v, 'p) seqlock" where
  "write_begin stores p s = s\<lparr>sq_seq := sq_seq s + 1, sq_writer := W_body p (sq_seq s) (stores p)\<rparr>"

definition write_cell :: "'a \<Rightarrow> 'v \<Rightarrow> ('a, 'v, 'p) seqlock \<Rightarrow> ('a, 'v, 'p) seqlock" where
  "write_cell a v s = s\<lparr>sq_cells := (sq_cells s)(a := v)\<rparr>"

definition write_end :: "'p \<Rightarrow> u32 \<Rightarrow> ('a, 'v, 'p) seqlock \<Rightarrow> ('a, 'v, 'p) seqlock" where
  "write_end p s0 s = s\<lparr>sq_seq := s0 + 2, sq_writer := W_idle, sq_published := sq_published s @ [p]\<rparr>"

definition read_begin :: "'a list \<Rightarrow> ('a, 'v, 'p) seqlock \<Rightarrow> ('a, 'v, 'p) seqlock" where
  "read_begin as s = (if odd (sq_seq s) then s
     else s\<lparr>sq_reader := R_copy (length (sq_published s)) (sq_seq s) as []\<rparr>)"

definition read_cell :: "('a, 'v, 'p) seqlock \<Rightarrow> ('a, 'v, 'p) seqlock" where
  "read_cell s = (case sq_reader s of
     R_copy n s0 (a # as) got \<Rightarrow> s\<lparr>sq_reader := R_copy n s0 as (got @ [(a, sq_cells s a)])\<rparr>
   | _ \<Rightarrow> s)"

definition read_end :: "('a, 'v, 'p) seqlock \<Rightarrow> ('a, 'v, 'p) seqlock" where
  "read_end s = (case sq_reader s of
     R_copy n s0 [] got \<Rightarrow> if sq_seq s = s0 then s\<lparr>sq_reader := R_ok n (length (sq_published s)) got\<rparr>
                          else s\<lparr>sq_reader := R_idle\<rparr>
   | _ \<Rightarrow> s)"

inductive seq_step :: "('p \<Rightarrow> ('a \<times> 'v) list) \<Rightarrow> 'a set \<Rightarrow> ('a, 'v, 'p) seqlock \<Rightarrow> ('a, 'v, 'p) seqlock \<Rightarrow> bool"
  for stores guarded where
  w_begin: "sq_writer s = W_idle \<Longrightarrow> seq_step stores guarded s (write_begin stores p s)"
| w_store: "sq_writer s = W_body p s0 ((a, v) # rest) \<Longrightarrow>
    seq_step stores guarded s ((write_cell a v s)\<lparr>sq_writer := W_body p s0 rest\<rparr>)"
| w_end: "sq_writer s = W_body p s0 [] \<Longrightarrow> seq_step stores guarded s (write_end p s0 s)"
| other: "a \<notin> guarded \<Longrightarrow> seq_step stores guarded s (write_cell a v s)"
| r_begin: "sq_reader s = R_idle \<or> sq_reader s = R_ok n m old \<Longrightarrow> seq_step stores guarded s (read_begin as s)"
| r_cell: "sq_reader s = R_copy n s0 (a # as) got \<Longrightarrow> seq_step stores guarded s (read_cell s)"
| r_end: "sq_reader s = R_copy n s0 [] got \<Longrightarrow> seq_step stores guarded s (read_end s)"

inductive seq_reach :: "('p \<Rightarrow> ('a \<times> 'v) list) \<Rightarrow> 'a set \<Rightarrow> ('a \<Rightarrow> 'v) \<Rightarrow> ('a, 'v, 'p) seqlock \<Rightarrow> bool"
  for stores guarded m0 where
  reach_init: "seq_reach stores guarded m0 (seqlock_init m0)"
| reach_step: "seq_reach stores guarded m0 s \<Longrightarrow> seq_step stores guarded s s' \<Longrightarrow> seq_reach stores guarded m0 s'"

section \<open>Whole sections and whole reads\<close>

text \<open>A write section without interruption, and an attempt of the reader while no section runs.\<close>

definition store_all :: "('a \<times> 'v) list \<Rightarrow> ('a \<Rightarrow> 'v) \<Rightarrow> 'a \<Rightarrow> 'v" where
  "store_all xs m = fold (\<lambda>(a, v) m. m(a := v)) xs m"

lemma store_all_eq: "store_all xs m a = (case map_of (rev xs) a of Some v \<Rightarrow> v | None \<Rightarrow> m a)"
proof (induction xs arbitrary: m)
  case (Cons x xs)
  then show ?case by (cases x) (auto simp: store_all_def map_add_def split: option.splits)
qed (simp add: store_all_def)

definition stats_write :: "('p \<Rightarrow> ('a \<times> 'v) list) \<Rightarrow> 'p \<Rightarrow> ('a, 'v, 'p) seqlock \<Rightarrow> ('a, 'v, 'p) seqlock" where
  "stats_write stores p s = (let s0 = sq_seq s; s1 = write_begin stores p s in
     write_end p s0 (s1\<lparr>sq_cells := store_all (stores p) (sq_cells s1)\<rparr>))"

lemma reach_body:
  "seq_reach stores guarded m0 s \<Longrightarrow> sq_writer s = W_body p s0 xs \<Longrightarrow>
   seq_reach stores guarded m0 (s\<lparr>sq_cells := store_all xs (sq_cells s), sq_writer := W_body p s0 []\<rparr>)"
proof (induction xs arbitrary: s)
  case Nil
  have "s = s\<lparr>sq_cells := store_all [] (sq_cells s), sq_writer := W_body p s0 []\<rparr>" using Nil(2) by (simp add: store_all_def)
  then show ?case using Nil(1) by metis
next
  case (Cons x xs)
  obtain a v where x: "x = (a, v)" by (cases x)
  have "seq_reach stores guarded m0 ((write_cell a v s)\<lparr>sq_writer := W_body p s0 xs\<rparr>)"
    using Cons.prems x by (blast intro: reach_step w_store)
  from Cons.IH [OF this] show ?case by (simp add: write_cell_def store_all_def x fun_upd_def)
qed

lemma reach_section:
  assumes "seq_reach stores guarded m0 s" "sq_writer s = W_idle"
  shows "seq_reach stores guarded m0 (stats_write stores p s)"
proof -
  define s1 where "s1 = write_begin stores p s"
  have "seq_reach stores guarded m0 s1" unfolding s1_def using assms by (blast intro: reach_step w_begin)
  moreover have "sq_writer s1 = W_body p (sq_seq s) (stores p)" by (simp add: s1_def write_begin_def)
  ultimately have "seq_reach stores guarded m0 (s1\<lparr>sq_cells := store_all (stores p) (sq_cells s1), sq_writer := W_body p (sq_seq s) []\<rparr>)"
    by (rule reach_body)
  then have "seq_reach stores guarded m0
      (write_end p (sq_seq s) (s1\<lparr>sq_cells := store_all (stores p) (sq_cells s1), sq_writer := W_body p (sq_seq s) []\<rparr>))"
    by (rule reach_step) (simp add: w_end)
  then show ?thesis by (simp add: stats_write_def Let_def s1_def write_end_def)
qed

lemma reach_copy:
  "seq_reach stores guarded m0 s \<Longrightarrow> sq_reader s = R_copy n s0 as got \<Longrightarrow>
   seq_reach stores guarded m0 (s\<lparr>sq_reader := R_copy n s0 [] (got @ map (\<lambda>a. (a, sq_cells s a)) as)\<rparr>)"
proof (induction as arbitrary: s got)
  case Nil
  have "s = s\<lparr>sq_reader := R_copy n s0 [] (got @ map (\<lambda>a. (a, sq_cells s a)) [])\<rparr>" using Nil(2) by simp
  then show ?case using Nil(1) by metis
next
  case (Cons a as)
  have "seq_reach stores guarded m0 (read_cell s)" using Cons.prems by (blast intro: reach_step r_cell)
  moreover have "read_cell s = s\<lparr>sq_reader := R_copy n s0 as (got @ [(a, sq_cells s a)])\<rparr>"
    using Cons.prems(2) by (simp add: read_cell_def)
  ultimately show ?case using Cons.IH [of "read_cell s"] by simp
qed

lemma reach_quiet_read:
  assumes "seq_reach stores guarded m0 s" "even (sq_seq s)" "sq_reader s = R_idle"
  shows "seq_reach stores guarded m0 (s\<lparr>sq_reader :=
    R_ok (length (sq_published s)) (length (sq_published s)) (map (\<lambda>a. (a, sq_cells s a)) as)\<rparr>)"
proof -
  define s1 where "s1 = read_begin as s"
  have s1: "seq_reach stores guarded m0 s1" unfolding s1_def using assms by (blast intro: reach_step r_begin)
  have eq: "s1 = s\<lparr>sq_reader := R_copy (length (sq_published s)) (sq_seq s) as []\<rparr>"
    using assms(2) by (simp add: s1_def read_begin_def)
  define s2 where "s2 = s1\<lparr>sq_reader := R_copy (length (sq_published s)) (sq_seq s) [] (map (\<lambda>a. (a, sq_cells s a)) as)\<rparr>"
  have "seq_reach stores guarded m0 s2"
    using reach_copy [OF s1, of "length (sq_published s)" "sq_seq s" as "[]"] by (simp add: eq s2_def)
  moreover have "seq_step stores guarded s2 (read_end s2)" by (rule r_end) (simp add: s2_def)
  ultimately have "seq_reach stores guarded m0 (read_end s2)" by (rule reach_step)
  then show ?thesis by (simp add: read_end_def s2_def eq)
qed

section \<open>The invariant\<close>

text \<open>The value of a cell after the first \<open>n\<close> published sections.\<close>

definition cell_after :: "('p \<Rightarrow> ('a \<times> 'v) list) \<Rightarrow> ('a \<Rightarrow> 'v) \<Rightarrow> 'p list \<Rightarrow> nat \<Rightarrow> 'a \<Rightarrow> 'v" where
  "cell_after stores m0 ps n = fold (\<lambda>p. store_all (stores p)) (take n ps) m0"

lemma cell_after_append: "n \<le> length ps \<Longrightarrow> cell_after stores m0 (ps @ qs) n = cell_after stores m0 ps n"
  by (simp add: cell_after_def)

lemma cell_after_0 [simp]: "cell_after stores m0 ps 0 = m0"
  by (simp add: cell_after_def)

lemma cell_after_Suc: "n < length ps \<Longrightarrow> cell_after stores m0 ps (Suc n) = store_all (stores (ps ! n)) (cell_after stores m0 ps n)"
  by (simp add: cell_after_def take_Suc_conv_app_nth)

lemma store_all_snoc: "store_all (xs @ [(a, v)]) m = (store_all xs m)(a := v)"
  by (simp add: store_all_def)

lemma even_counter: "even (word_of_nat (2 * n) :: u32)" "odd (word_of_nat (2 * n) + 1 :: u32)"
  by simp_all

lemma counter_inj: "(word_of_nat (2 * m) :: u32) = word_of_nat (2 * n) \<Longrightarrow> n \<le> m \<Longrightarrow> m < n + 2 ^ 31 \<Longrightarrow> m = n"
proof -
  assume eq: "(word_of_nat (2 * m) :: u32) = word_of_nat (2 * n)" and le: "n \<le> m" "m < n + 2 ^ 31"
  have "(word_of_nat (2 * m - 2 * n) :: u32) = 0" using eq le(1) by (simp add: of_nat_diff)
  then have "2 ^ 32 dvd 2 * m - 2 * n" by (simp add: word_of_nat_eq_0_iff)
  moreover have "2 * m - 2 * n < 2 ^ 32" using le by simp
  ultimately have "2 * m - 2 * n = 0" using nat_dvd_not_less by blast
  then show "m = n" using le(1) by simp
qed

text \<open>
  The contract of the published sections: the guarded cells are stored by no one else, and each
  section stores at least those in \<open>always\<close>.
\<close>

locale guarded_section =
  fixes stores :: "'p \<Rightarrow> ('a \<times> 'v) list" and guarded :: "'a set" and always :: "'a set"
  assumes covers: "a \<in> always \<Longrightarrow> a \<in> guarded \<and> a \<in> fst ` set (stores p)"
begin

fun writer_inv :: "('a \<Rightarrow> 'v) \<Rightarrow> ('a, 'v, 'p) seqlock \<Rightarrow> ('a, 'v, 'p) seq_writer \<Rightarrow> bool" where
  "writer_inv m0 s W_idle = (sq_seq s = word_of_nat (2 * length (sq_published s)) \<and>
     (\<forall>a \<in> guarded. sq_cells s a = cell_after stores m0 (sq_published s) (length (sq_published s)) a))"
| "writer_inv m0 s (W_body p s0 rest) = (s0 = word_of_nat (2 * length (sq_published s)) \<and> sq_seq s = s0 + 1 \<and>
     (\<exists>xs. stores p = xs @ rest \<and>
       (\<forall>a \<in> guarded. sq_cells s a = store_all xs (cell_after stores m0 (sq_published s) (length (sq_published s))) a)))"

fun reader_inv :: "('a \<Rightarrow> 'v) \<Rightarrow> ('a, 'v, 'p) seqlock \<Rightarrow> ('a, 'v) seq_reader \<Rightarrow> bool" where
  "reader_inv m0 s R_idle = True"
| "reader_inv m0 s (R_copy n s0 as got) = (n \<le> length (sq_published s) \<and> s0 = word_of_nat (2 * n) \<and>
     (sq_writer s = W_idle \<and> length (sq_published s) = n \<longrightarrow>
       (\<forall>(a, v) \<in> set got. a \<in> guarded \<longrightarrow> v = cell_after stores m0 (sq_published s) n a)))"
| "reader_inv m0 s (R_ok n m got) = (n \<le> length (sq_published s) \<and> (m < n + 2 ^ 31 \<longrightarrow>
     (\<forall>(a, v) \<in> set got. a \<in> guarded \<longrightarrow> v = cell_after stores m0 (sq_published s) n a)))"

definition seq_inv :: "('a \<Rightarrow> 'v) \<Rightarrow> ('a, 'v, 'p) seqlock \<Rightarrow> bool" where
  "seq_inv m0 s \<longleftrightarrow> writer_inv m0 s (sq_writer s) \<and> reader_inv m0 s (sq_reader s)"

lemma map_of_rev_Some: "a \<in> fst ` set xs \<Longrightarrow> \<exists>v. map_of (rev xs) a = Some v"
  by (metis (no_types) image_set set_rev map_of_eq_None_iff not_None_eq)

lemma body_end:
  assumes "writer_inv m0 s (W_body p s0 [])" "a \<in> guarded"
  shows "sq_cells s a = cell_after stores m0 (sq_published s @ [p]) (Suc (length (sq_published s))) a"
  using assms by (auto simp: cell_after_Suc cell_after_append)

lemma idle_if_even:
  assumes "writer_inv m0 s (sq_writer s)" "even (sq_seq s)"
  shows "sq_writer s = W_idle"
  using assms by (cases "sq_writer s") (auto simp: even_counter)

lemma accepted_same:
  assumes "writer_inv m0 s (sq_writer s)" "sq_seq s = word_of_nat (2 * n)" "n \<le> length (sq_published s)"
    and "length (sq_published s) < n + 2 ^ 31"
  shows "sq_writer s = W_idle" "length (sq_published s) = n"
proof -
  show idle: "sq_writer s = W_idle"
    by (rule idle_if_even [OF assms(1)]) (simp only: assms(2) even_counter)
  then have "(word_of_nat (2 * length (sq_published s)) :: u32) = word_of_nat (2 * n)" using assms(1,2) by simp
  then show "length (sq_published s) = n" using counter_inj [of "length (sq_published s)" n] assms(3,4) by simp
qed

lemma writer_inv_step:
  assumes "writer_inv m0 s (sq_writer s)" "seq_step stores guarded s s'"
  shows "writer_inv m0 s' (sq_writer s')"
  using assms(2,1)
proof (cases rule: seq_step.cases)
  case (w_begin p)
  then show ?thesis using assms(1) by (auto simp: write_begin_def store_all_def)
next
  case (w_store p s0 a v rest)
  then obtain xs where xs: "stores p = xs @ (a, v) # rest"
    "\<forall>b \<in> guarded. sq_cells s b = store_all xs (cell_after stores m0 (sq_published s) (length (sq_published s))) b" using assms(1) by auto
  then show ?thesis using w_store assms(1) by (auto simp: write_cell_def store_all_snoc intro!: exI [of _ "xs @ [(a, v)]"])
next
  case (w_end p s0)
  then have "\<forall>a \<in> guarded. sq_cells s a = cell_after stores m0 (sq_published s @ [p]) (Suc (length (sq_published s))) a"
    using body_end [of m0 s p s0] assms(1) by auto
  then show ?thesis using w_end assms(1) by (auto simp: write_end_def)
next
  case (other a v)
  then have "\<forall>b \<in> guarded. sq_cells s' b = sq_cells s b" by (auto simp: write_cell_def)
  moreover have "sq_seq s' = sq_seq s" "sq_published s' = sq_published s" "sq_writer s' = sq_writer s"
    using other by (simp_all add: write_cell_def)
  ultimately show ?thesis using assms(1) by (cases "sq_writer s") simp_all
next
  case (r_begin n m old as)
  then show ?thesis using assms(1) by (cases "sq_writer s") (auto simp: read_begin_def)
next
  case (r_cell n s0 a as got)
  then show ?thesis using assms(1) by (cases "sq_writer s") (auto simp: read_cell_def)
next
  case (r_end n s0 got)
  then show ?thesis using assms(1) by (cases "sq_writer s") (auto simp: read_end_def)
qed

lemma reader_inv_frame:
  assumes "reader_inv m0 s r" "sq_published s' = sq_published s" "sq_writer s' = W_idle \<longrightarrow> sq_writer s = W_idle"
  shows "reader_inv m0 s' r"
  using assms by (cases r) auto

lemma reader_inv_publish:
  assumes "reader_inv m0 s r" "sq_published s' = sq_published s @ [p]"
  shows "reader_inv m0 s' r"
  using assms by (cases r) (auto simp: cell_after_append)

lemma reader_inv_step:
  assumes "writer_inv m0 s (sq_writer s)" "reader_inv m0 s (sq_reader s)" "seq_step stores guarded s s'"
  shows "reader_inv m0 s' (sq_reader s')"
  using assms(3)
proof (cases rule: seq_step.cases)
  case (r_begin n m old as)
  show ?thesis
  proof (cases "odd (sq_seq s)")
    case False
    then have "sq_writer s = W_idle" using idle_if_even [OF assms(1)] by simp
    then show ?thesis using False r_begin assms(1) by (simp add: read_begin_def)
  qed (use r_begin assms(2) in \<open>simp add: read_begin_def\<close>)
next
  case (r_cell n s0 a as got)
  then show ?thesis using assms(1,2) by (auto simp: read_cell_def)
next
  case (r_end n s0 got)
  show ?thesis
  proof (cases "sq_seq s = s0")
    case True
    then have "length (sq_published s) < n + 2 ^ 31 \<longrightarrow> sq_writer s = W_idle \<and> length (sq_published s) = n"
      using accepted_same [OF assms(1), of n] assms(2) r_end by auto
    then show ?thesis using True r_end assms(2) by (auto simp: read_end_def)
  qed (use r_end in \<open>simp add: read_end_def\<close>)
qed (use assms(2) in \<open>auto simp: write_begin_def write_cell_def write_end_def intro: reader_inv_frame reader_inv_publish\<close>)

lemma reach_inv: "seq_reach stores guarded m0 s \<Longrightarrow> seq_inv m0 s"
proof (induction rule: seq_reach.induct)
  case reach_init
  show ?case by (simp add: seq_inv_def seqlock_init_def cell_after_def)
next
  case (reach_step s s')
  then show ?case using writer_inv_step [of m0 s s'] reader_inv_step [of m0 s s'] by (simp add: seq_inv_def)
qed

text \<open>A snapshot the reader accepts is one published state.\<close>

lemma not_torn:
  assumes "seq_reach stores guarded m0 s" "sq_reader s = R_ok n m got" "m < n + 2 ^ 31" "(a, v) \<in> set got" "a \<in> guarded"
  shows "v = cell_after stores m0 (sq_published s) n a"
  using reach_inv [OF assms(1)] assms(2-) by (auto simp: seq_inv_def)

lemma one_section:
  assumes "seq_reach stores guarded m0 s" "sq_reader s = R_ok n m got" "m < n + 2 ^ 31" "(a, v) \<in> set got" "a \<in> always"
  shows "n = 0 \<Longrightarrow> v = m0 a" "n \<noteq> 0 \<Longrightarrow> (a, v) \<in> set (stores (sq_published s ! (n - 1)))"
proof -
  have v: "v = cell_after stores m0 (sq_published s) n a" using not_torn [OF assms(1-4)] covers [OF assms(5)] by blast
  then show "n = 0 \<Longrightarrow> v = m0 a" by simp
  have n: "n \<le> length (sq_published s)" using reach_inv [OF assms(1)] assms(2) by (simp add: seq_inv_def)
  define xs where "xs = stores (sq_published s ! (n - 1))"
  obtain w where w: "map_of (rev xs) a = Some w" using map_of_rev_Some [of a xs] covers [OF assms(5)] by (auto simp: xs_def)
  have "v = w" if "n \<noteq> 0" using v cell_after_Suc [of "n - 1" "sq_published s" stores m0] n that w by (simp add: store_all_eq xs_def)
  then show "n \<noteq> 0 \<Longrightarrow> (a, v) \<in> set (stores (sq_published s ! (n - 1)))"
    using map_of_SomeD [OF w] by (simp add: xs_def)
qed

end

end
