(* ===== verification/Stats_Region.thy ===== *)
theory Stats_Region
  imports Complex_Main Seqlock Gateway_Admit
begin

text \<open>
  The exchange's statistics region (\<open>hft_engine/src/core/stats_region.h\<close>) and the sampling loop
  of \<open>app/exchange.cpp\<close> that mirrors queue depths, pool marks and counters into it. A cell of the
  region is a field of \<open>HftStatsRegion\<close>. The order manager stores its own counters and the
  heartbeat (theory \<open>Consumers\<close>) outside the lock.

  Arithmetic on \<open>double\<close> is a parameter: a record of the operations the code uses.
\<close>

section \<open>The region\<close>

definition HFT_STATS_MAGIC :: u32 where
  "HFT_STATS_MAGIC = 0x48465431"

definition STATS_MAX_SHARDS :: nat where
  "STATS_MAX_SHARDS = 8"

datatype stat_cell =
    C_magic | C_protocol_version | C_num_shards
  | C_tsc_at_anchor | C_unix_ns_at_anchor | C_cycles_per_ns
  | C_heartbeat_tsc | C_dropped_reports | C_dropped_drop_copies
  | C_epoll_cycles | C_read_cycles | C_decode_cycles | C_validation_cycles | C_enqueue_cycles | C_orders_processed
  | C_drop_copies_processed | C_engine_orders_in nat
  | C_orders_in nat | C_fills nat | C_cancels nat | C_rejects nat
  | C_engine_q_depth nat | C_dropcopy_q_depth nat | C_mktdata_q_depth nat | C_pool_high_water nat

datatype 'd cell_value = U64 u64 | Double 'd

record 'd double_unit =
  db_of_u64 :: "u64 \<Rightarrow> 'd"
  db_div :: "'d \<Rightarrow> 'd \<Rightarrow> 'd"
  db_sub :: "'d \<Rightarrow> 'd \<Rightarrow> 'd"
  db_neg :: "'d \<Rightarrow> 'd"
  db_less :: "'d \<Rightarrow> 'd \<Rightarrow> bool"
  db_zero :: 'd
  db_fifth :: 'd

record 'd AnchorBaseline =
  ab_tsc0 :: u64
  ab_mono_ns0 :: u64
  ab_startup_cycles_per_ns :: 'd

definition ANCHOR_MIN_BASELINE_NS :: u64 where
  "ANCHOR_MIN_BASELINE_NS = 1000000000"

definition ANCHOR_MAX_RATE_DEVIATION :: "'d double_unit \<Rightarrow> 'd" where
  "ANCHOR_MAX_RATE_DEVIATION db = db_fifth db"

text \<open>A \<open>timespec\<close> in nanoseconds, on \<open>uint64_t\<close>.\<close>

definition timespec_ns :: "u64 \<times> u64 \<Rightarrow> u64" where
  "timespec_ns ts = fst ts * 1000000000 + snd ts"

definition zero_cells :: "'d double_unit \<Rightarrow> stat_cell \<Rightarrow> 'd cell_value" where
  "zero_cells db c = (if c = C_cycles_per_ns then Double (db_zero db) else U64 0)"

definition map_stats_region :: "'d double_unit \<Rightarrow> bool \<Rightarrow> bool \<Rightarrow> bool \<Rightarrow> (stat_cell, 'd cell_value, 'p) seqlock option" where
  "map_stats_region db opened truncated mapped =
     (if \<not> opened then None
      else if \<not> truncated then None
      else if \<not> mapped then None
      else Some (seqlock_init (zero_cells db)))"

definition init_stats_region ::
  "u64 \<times> u64 \<Rightarrow> u64 \<times> u64 \<Rightarrow> u64 \<Rightarrow> nat \<Rightarrow> 'd \<Rightarrow> 'd AnchorBaseline option \<Rightarrow> (stat_cell, 'd cell_value, 'p) seqlock \<Rightarrow>
   (stat_cell, 'd cell_value, 'p) seqlock \<times> 'd AnchorBaseline option" where
  "init_stats_region real_ts mono_ts tsc num_shards cycles_per_ns baseline r =
     (let r = write_cell C_cycles_per_ns (Double cycles_per_ns)
            (write_cell C_unix_ns_at_anchor (U64 (timespec_ns real_ts)) (write_cell C_tsc_at_anchor (U64 tsc) r));
          baseline = map_option (\<lambda>_. \<lparr>ab_tsc0 = tsc, ab_mono_ns0 = timespec_ns mono_ts,
            ab_startup_cycles_per_ns = cycles_per_ns\<rparr>) baseline;
          r = write_cell C_protocol_version (U64 (ucast PROTOCOL_VERSION))
            (write_cell C_num_shards (U64 (ucast (word_of_nat num_shards :: u32))) r)
      in (write_cell C_magic (U64 (ucast HFT_STATS_MAGIC)) (r\<lparr>sq_seq := 0\<rparr>), baseline))"

text \<open>The stores of \<open>refresh_anchor\<close>; the clocks are read monotonic first, then the counter, then wall time.\<close>

definition refresh_anchor ::
  "'d double_unit \<Rightarrow> u64 \<times> u64 \<Rightarrow> u64 \<Rightarrow> u64 \<times> u64 \<Rightarrow> 'd AnchorBaseline \<Rightarrow> (stat_cell \<times> 'd cell_value) list" where
  "refresh_anchor db mono_ts tsc_now real_ts base =
     (let mono_ns = timespec_ns mono_ts;
          anchor = [(C_tsc_at_anchor, U64 tsc_now), (C_unix_ns_at_anchor, U64 (timespec_ns real_ts))] in
      if mono_ns \<le> ab_mono_ns0 base \<or> tsc_now \<le> ab_tsc0 base then anchor
      else let elapsed_ns = mono_ns - ab_mono_ns0 base in
        if elapsed_ns < ANCHOR_MIN_BASELINE_NS then anchor
        else let rate = db_div db (db_of_u64 db (tsc_now - ab_tsc0 base)) (db_of_u64 db elapsed_ns);
                 deviation = db_div db (db_sub db rate (ab_startup_cycles_per_ns base)) (ab_startup_cycles_per_ns base) in
          if db_less db (db_neg db (ANCHOR_MAX_RATE_DEVIATION db)) deviation \<and> db_less db deviation (ANCHOR_MAX_RATE_DEVIATION db)
          then anchor @ [(C_cycles_per_ns, Double rate)]
          else anchor)"

section \<open>The sampling loop\<close>

text \<open>
  The loop reads live queues and counters one after the other while the other threads run:
  \<open>gs k\<close> is the exchange's state that the \<open>k\<close>-th group of loads sees, the groups being the
  shards in order, the gateway's counters, the drop counters, and the shards' order counters.
\<close>

record 'd stats_sample =
  sm_mono :: "u64 \<times> u64"
  sm_tsc :: u64
  sm_real :: "u64 \<times> u64"
  sm_base :: "'d AnchorBaseline"
  sm_states :: "nat \<Rightarrow> gateway"

definition shard_stores :: "nat \<Rightarrow> gateway \<Rightarrow> (stat_cell \<times> 'd cell_value) list" where
  "shard_stores i g = (let e = gw_engines g ! i; sh = e_shard e in
     [(C_engine_q_depth i, U64 (sum_list (map (\<lambda>q. word_of_nat (lfq_size q)) (e_queues e)))),
      (C_dropcopy_q_depth i, U64 (word_of_nat (lfq_size (drop_copy_queue (outs sh))))),
      (C_mktdata_q_depth i, U64 (word_of_nat (lfq_size (mkt_data_queue (outs sh))))),
      (C_pool_high_water i, U64 (word_of_nat (slots_used (sh_pool sh))))])"

definition counter_stores :: "gw_stats \<Rightarrow> (stat_cell \<times> 'd cell_value) list" where
  "counter_stores st =
     [(C_epoll_cycles, U64 (total_epoll_cycles st)), (C_read_cycles, U64 (total_read_cycles st)),
      (C_decode_cycles, U64 (total_decode_cycles st)), (C_validation_cycles, U64 (total_validation_cycles st)),
      (C_enqueue_cycles, U64 (total_enqueue_cycles st)), (C_orders_processed, U64 (total_orders_processed st))]"

text \<open>The drop counters of \<open>g_stats\<close> are shared by the shards; the model keeps each shard's part.\<close>

definition drop_stores :: "gateway \<Rightarrow> (stat_cell \<times> 'd cell_value) list" where
  "drop_stores g =
     [(C_dropped_reports, U64 (sum_list (map (\<lambda>e. word_of_nat (dropped_reports (outs (e_shard e)))) (gw_engines g)))),
      (C_dropped_drop_copies, U64 (sum_list (map (\<lambda>e. word_of_nat (dropped_drop_copies (outs (e_shard e)))) (gw_engines g))))]"

definition sample_stats :: "'d double_unit \<Rightarrow> 'd stats_sample \<Rightarrow> (stat_cell \<times> 'd cell_value) list" where
  "sample_stats db p =
     refresh_anchor db (sm_mono p) (sm_tsc p) (sm_real p) (sm_base p) @
     concat (map (\<lambda>i. shard_stores i (sm_states p i)) [0 ..< NUM_SHARDS]) @
     counter_stores (gws (sm_states p NUM_SHARDS)) @
     drop_stores (sm_states p (NUM_SHARDS + 1)) @
     map (\<lambda>i. (C_engine_orders_in i, U64 (word_of_nat (engine_orders_in (gw_engines (sm_states p (NUM_SHARDS + 2 + i)) ! i)))))
       [0 ..< NUM_SHARDS]"

text \<open>The cells every sample stores; the rate is stored only when it is refined.\<close>

definition sampled_cells :: "stat_cell set" where
  "sampled_cells = {C_tsc_at_anchor, C_unix_ns_at_anchor, C_epoll_cycles, C_read_cycles, C_decode_cycles, C_validation_cycles,
     C_enqueue_cycles, C_orders_processed, C_dropped_reports, C_dropped_drop_copies} \<union>
     (\<Union>i \<in> {..< NUM_SHARDS}. {C_engine_q_depth i, C_dropcopy_q_depth i, C_mktdata_q_depth i, C_pool_high_water i, C_engine_orders_in i})"

text \<open>The cells the sampling section alone stores: those, and the rate.\<close>

definition locked_cells :: "stat_cell set" where
  "locked_cells = insert C_cycles_per_ns sampled_cells"

lemma refresh_anchor_cells: "{C_tsc_at_anchor, C_unix_ns_at_anchor} \<subseteq> fst ` set (refresh_anchor db mono_ts tsc real_ts base)"
  by (auto simp: refresh_anchor_def Let_def)

interpretation stats_lock: guarded_section "sample_stats db" locked_cells sampled_cells
proof
  fix a and p :: "'a stats_sample"
  assume a: "a \<in> sampled_cells"
  then have "a \<in> fst ` set (sample_stats db p)"
    using refresh_anchor_cells [of db "sm_mono p" "sm_tsc p" "sm_real p" "sm_base p"]
    unfolding sampled_cells_def sample_stats_def
    by (auto simp: shard_stores_def counter_stores_def drop_stores_def Let_def image_Un image_UN image_image)
  then show "a \<in> locked_cells \<and> a \<in> fst ` set (sample_stats db p)" using a by (simp add: locked_cells_def)
qed

text \<open>A refined rate comes from at least a second of uptime and stays within the allowed deviation.\<close>

lemma refined_rate:
  assumes "(C_cycles_per_ns, Double rate) \<in> set (refresh_anchor db mono_ts tsc real_ts base)"
  shows "ANCHOR_MIN_BASELINE_NS \<le> timespec_ns mono_ts - ab_mono_ns0 base" "ab_tsc0 base < tsc"
    "rate = db_div db (db_of_u64 db (tsc - ab_tsc0 base)) (db_of_u64 db (timespec_ns mono_ts - ab_mono_ns0 base))"
    "db_less db (db_div db (db_sub db rate (ab_startup_cycles_per_ns base)) (ab_startup_cycles_per_ns base)) (ANCHOR_MAX_RATE_DEVIATION db)"
  using assms by (auto simp: refresh_anchor_def Let_def not_le not_less split: if_splits)

text \<open>
  The rate in force after some samples: a sample taken at least a second after the start whose
  counter has advanced replaces it by the ratio of the two intervals, if that is within a fifth
  of the rate measured at the start.
\<close>

definition resampled_rate :: "'d double_unit \<Rightarrow> 'd stats_sample \<Rightarrow> 'd option" where
  "resampled_rate db p =
     (let base = sm_base p; elapsed = timespec_ns (sm_mono p) - ab_mono_ns0 base;
          rate = db_div db (db_of_u64 db (sm_tsc p - ab_tsc0 base)) (db_of_u64 db elapsed);
          deviation = db_div db (db_sub db rate (ab_startup_cycles_per_ns base)) (ab_startup_cycles_per_ns base)
      in if ab_mono_ns0 base < timespec_ns (sm_mono p) \<and> ab_tsc0 base < sm_tsc p \<and> 1000000000 \<le> elapsed
            \<and> db_less db (db_neg db (db_fifth db)) deviation \<and> db_less db deviation (db_fifth db)
         then Some rate else None)"

fun rate_after :: "'d double_unit \<Rightarrow> 'd \<Rightarrow> 'd stats_sample list \<Rightarrow> 'd" where
  "rate_after db r [] = r"
| "rate_after db r (p # ps) = rate_after db (case resampled_rate db p of Some r' \<Rightarrow> r' | None \<Rightarrow> r) ps"

lemma sample_stores_rate:
  fixes p :: "'a stats_sample"
  assumes "m C_cycles_per_ns = Double r"
  shows "store_all (sample_stats db p) m C_cycles_per_ns = Double (case resampled_rate db p of Some r' \<Rightarrow> r' | None \<Rightarrow> r)"
proof -
  define later :: "(stat_cell \<times> 'a cell_value) list" where "later = concat (map (\<lambda>i. shard_stores i (sm_states p i)) [0 ..< NUM_SHARDS]) @
     counter_stores (gws (sm_states p NUM_SHARDS)) @ drop_stores (sm_states p (NUM_SHARDS + 1)) @
     map (\<lambda>i. (C_engine_orders_in i, U64 (word_of_nat (engine_orders_in (gw_engines (sm_states p (NUM_SHARDS + 2 + i)) ! i)))))
       [0 ..< NUM_SHARDS]"
  have "(C_cycles_per_ns, v) \<notin> set later" for v
    by (auto simp: later_def shard_stores_def counter_stores_def drop_stores_def Let_def)
  then have none: "map_of (rev later) C_cycles_per_ns = None" by (simp add: map_of_eq_None_iff image_iff) fastforce
  have "store_all (sample_stats db p) m C_cycles_per_ns =
      store_all (refresh_anchor db (sm_mono p) (sm_tsc p) (sm_real p) (sm_base p)) m C_cycles_per_ns"
    unfolding sample_stats_def later_def [symmetric] using none by (simp add: store_all_eq map_add_def)
  also have "\<dots> = Double (case resampled_rate db p of Some r' \<Rightarrow> r' | None \<Rightarrow> r)"
    using assms
    by (auto simp: refresh_anchor_def resampled_rate_def store_all_def Let_def ANCHOR_MIN_BASELINE_NS_def ANCHOR_MAX_RATE_DEVIATION_def not_le not_less)
  finally show ?thesis .
qed

lemma cell_after_rate:
  assumes "m0 C_cycles_per_ns = Double r"
  shows "cell_after (sample_stats db) m0 ps n C_cycles_per_ns = Double (rate_after db r (take n ps))"
proof -
  have "fold (\<lambda>p. store_all (sample_stats db p)) qs m C_cycles_per_ns = Double (rate_after db x qs)"
    if "m C_cycles_per_ns = Double x" for qs m x
    using that by (induction qs arbitrary: m x) (simp_all add: sample_stores_rate)
  then show ?thesis using assms by (simp add: cell_after_def)
qed

text \<open>The region as the loop finds it: mapped and initialised.\<close>

definition started_region ::
  "'d double_unit \<Rightarrow> u64 \<times> u64 \<Rightarrow> u64 \<times> u64 \<Rightarrow> u64 \<Rightarrow> 'd \<Rightarrow> (stat_cell, 'd cell_value, 'p) seqlock \<times> 'd AnchorBaseline" where
  "started_region db real_ts mono_ts tsc cycles_per_ns =
     (let zero = \<lparr>ab_tsc0 = 0, ab_mono_ns0 = 0, ab_startup_cycles_per_ns = db_zero db\<rparr>;
          (r, b) = init_stats_region real_ts mono_ts tsc NUM_SHARDS cycles_per_ns (Some zero) (seqlock_init (zero_cells db))
      in (r, the b))"

lemma started_region_init:
  assumes "started_region db real_ts mono_ts tsc rate = (s0, base)"
  shows "s0 = seqlock_init (sq_cells s0)" "sq_cells s0 C_magic = U64 (ucast HFT_STATS_MAGIC)"
    "sq_cells s0 C_cycles_per_ns = Double rate" "ab_startup_cycles_per_ns base = rate"
  using assms by (auto simp: started_region_def init_stats_region_def write_cell_def seqlock_init_def Let_def)

section \<open>Property\<close>

text \<open>
  C30. The exchange's monitor never sees a torn sample: from the initialised region, in every
  interleaving of the sampling loop, store by store, of the order manager's stores outside the
  lock and of the monitor's reads, cell by cell, a snapshot the monitor accepts shows, in all
  cells the loop stores under the lock, the state after the same number of samples, the latest
  that was complete when the read began, provided fewer than 2^31 samples complete during the
  read. The cells every sample stores are those of the last of these samples (of the initial
  region before the first); the rate, which a sample stores only when it refines it, is the one
  the last refining sample among them measured.
\<close>
theorem exchange_stats_not_torn:
  assumes "started_region db real_ts mono_ts tsc rate = (s0, base)"
    and "seq_reach (sample_stats db) locked_cells (sq_cells s0) s"
    and "sq_reader s = R_ok n m got" "m < n + 2 ^ 31"
  shows "\<forall>(c, v) \<in> set got.
    (c \<in> locked_cells \<longrightarrow> v = cell_after (sample_stats db) (sq_cells s0) (sq_published s) n c) \<and>
    (c \<in> sampled_cells \<longrightarrow> (if n = 0 then v = sq_cells s0 c else (c, v) \<in> set (sample_stats db (sq_published s ! (n - 1))))) \<and>
    (c = C_cycles_per_ns \<longrightarrow> v = Double (rate_after db rate (take n (sq_published s))))"
proof (rule ballI, unfold split_paired_all prod.case, intro conjI impI)
  fix c v assume cv: "(c, v) \<in> set got"
  show state: "v = cell_after (sample_stats db) (sq_cells s0) (sq_published s) n c" if "c \<in> locked_cells"
    using stats_lock.not_torn [OF assms(2-4) cv that] .
  show "if n = 0 then v = sq_cells s0 c else (c, v) \<in> set (sample_stats db (sq_published s ! (n - 1)))" if "c \<in> sampled_cells"
    using stats_lock.one_section [OF assms(2-4) cv that] by simp
  show "v = Double (rate_after db rate (take n (sq_published s)))" if "c = C_cycles_per_ns"
    using state that cell_after_rate [of "sq_cells s0" rate db "sq_published s" n] started_region_init(3) [OF assms(1)] by (simp add: locked_cells_def)
qed

definition exact_double :: "rat double_unit" where
  "exact_double = \<lparr>db_of_u64 = (\<lambda>w. of_int (uint w)), db_div = (/), db_sub = (-), db_neg = uminus, db_less = (<),
     db_zero = 0, db_fifth = 1 / 5\<rparr>"

definition sample_start :: "(stat_cell, rat cell_value, rat stats_sample) seqlock \<times> rat AnchorBaseline" where
  "sample_start = started_region exact_double (5, 7) (2, 0) 1000 3"

definition late_sample :: "rat stats_sample" where
  "late_sample = \<lparr>sm_mono = (4, 0), sm_tsc = 6200001000, sm_real = (7, 9), sm_base = snd sample_start,
     sm_states = (\<lambda>_. sample_exchange)\<rparr>"

definition sampled_region :: "(stat_cell, rat cell_value, rat stats_sample) seqlock" where
  "sampled_region = stats_write (sample_stats exact_double) late_sample (fst sample_start)"

text \<open>Two seconds after the start a sample refines the rate to 31/10; the monitor reads the new anchor.\<close>
theorem exchange_stats_not_torn_witness:
  "sq_cells sampled_region C_cycles_per_ns = Double (31 / 10) \<and>
   (C_tsc_at_anchor, sq_cells sampled_region C_tsc_at_anchor) \<in> set (sample_stats exact_double late_sample) \<and>
   (C_unix_ns_at_anchor, sq_cells sampled_region C_unix_ns_at_anchor) \<in> set (sample_stats exact_double late_sample) \<and>
   (C_engine_q_depth 2, sq_cells sampled_region (C_engine_q_depth 2)) \<in> set (sample_stats exact_double late_sample)"
proof -
  have start: "started_region exact_double (5, 7) (2, 0) 1000 3 = (fst sample_start, snd sample_start)"
    by (simp add: sample_start_def)
  note init = started_region_init(1) [OF start]
  have "sq_writer (fst sample_start) = W_idle" "sq_reader (fst sample_start) = R_idle" "sq_seq (fst sample_start) = 0"
    "sq_published (fst sample_start) = []"
    by (subst init, simp add: seqlock_init_def)+
  moreover have "seq_reach (sample_stats exact_double) locked_cells (sq_cells (fst sample_start)) (fst sample_start)"
    using reach_init [of "sample_stats exact_double" locked_cells "sq_cells (fst sample_start)"] init by metis
  ultimately have pub: "seq_reach (sample_stats exact_double) locked_cells (sq_cells (fst sample_start)) sampled_region"
    "sq_seq sampled_region = 2" "sq_reader sampled_region = R_idle" "sq_published sampled_region = [late_sample]"
    using reach_section [of "sample_stats exact_double" locked_cells "sq_cells (fst sample_start)" "fst sample_start" late_sample]
    by (simp_all add: sampled_region_def stats_write_def write_begin_def write_end_def Let_def)
  let ?as = "[C_tsc_at_anchor, C_cycles_per_ns, C_unix_ns_at_anchor, C_engine_q_depth 2]"
  let ?got = "map (\<lambda>a. (a, sq_cells sampled_region a)) ?as"
  have "seq_reach (sample_stats exact_double) locked_cells (sq_cells (fst sample_start)) (sampled_region\<lparr>sq_reader := R_ok 1 1 ?got\<rparr>)"
    using reach_quiet_read [OF pub(1), of ?as] pub(2-4) by simp
  note accepted = exchange_stats_not_torn [OF start this, of 1 1 ?got, simplified pub(4)]
  have base: "ab_tsc0 (snd sample_start) = 1000" "ab_mono_ns0 (snd sample_start) = 2000000000" "ab_startup_cycles_per_ns (snd sample_start) = 3"
    by (simp_all add: sample_start_def started_region_def init_stats_region_def Let_def timespec_ns_def)
  have "resampled_rate exact_double late_sample = Some (31 / 10)"
    by (simp add: resampled_rate_def late_sample_def base timespec_ns_def exact_double_def Let_def)
  then have "sq_cells sampled_region C_cycles_per_ns = Double (31 / 10)" using accepted pub(4) by simp
  moreover have "\<forall>c \<in> {C_tsc_at_anchor, C_unix_ns_at_anchor, C_engine_q_depth 2}. (c, sq_cells sampled_region c) \<in> set (sample_stats exact_double late_sample)"
    using accepted pub(4) by (auto simp: sampled_cells_def NUM_SHARDS_def)
  ultimately show ?thesis by simp
qed

end
