(* ===== verification/Firm_Models.thy ===== *)
theory Firm_Models
  imports Prelude
begin

text \<open>
  The venue-independent messages the parts of the trading firm exchange
  (\<open>include/models/NormalizedModels.h\<close>): the tick a connector delivers, and the order action a
  strategy emits. Field widths are those of the C++ structs.
\<close>

record NormalizedTick =
  nt_instrument_id :: u16
  nt_price :: u64
  nt_quantity :: u32
  nt_is_bid :: bool
  nt_is_trade :: bool
  nt_t1_exchange_send :: u64
  nt_t2_trading_recv :: u64

record NormalizedOrderAction =
  na_internal_order_id :: u64
  na_instrument_id :: u16
  na_price :: u64
  na_quantity :: u32
  na_is_buy :: bool
  na_is_cancel :: bool
  na_t1_exchange_send :: u64
  na_t2_trading_recv :: u64
  na_t3_trading_enq :: u64

text \<open>\<open>NUM_INSTRUMENTS\<close> of \<open>book_builder.h\<close>, also the length of the firm's other per-instrument arrays.\<close>

definition NUM_INSTRUMENTS :: nat where
  "NUM_INSTRUMENTS = 1000"

end
