(* ===== verification/Firm_Codec.thy ===== *)
theory Firm_Codec
  imports Gateway_Framing Firm_Models
begin

text \<open>
  The firm's side of the wire (\<open>network/LocalExchangeConnector.h\<close>): how an order action becomes
  an OUCH message, how a datagram of ITCH messages becomes ticks, and how received bytes become
  execution callbacks. The structs and the symbol encoder are those of \<open>protocol/messages.h\<close>,
  which both programs include.
\<close>

section \<open>Order tokens\<close>

text \<open>
  \<open>std::to_chars\<close> in base ten: the digits without leading zeros. When they do not fit the
  buffer its contents are unspecified, which is \<open>None\<close>.
\<close>

fun dec_string :: "nat \<Rightarrow> bytes" where
  "dec_string n = (if n < 10 then [48 + word_of_nat n] else dec_string (n div 10) @ [48 + word_of_nat (n mod 10)])"

declare dec_string.simps [simp del]

definition to_chars :: "nat \<Rightarrow> u64 \<Rightarrow> bytes option" where
  "to_chars room v = (let s = dec_string (unat v) in if length s \<le> room then Some s else None)"

text \<open>\<open>memset(token, '0', 14)\<close>, then the digits copied to the end.\<close>

definition format_token :: "u64 \<Rightarrow> bytes option" where
  "format_token v = do {
     temp \<leftarrow> to_chars 14 v;
     Some (replicate (14 - length temp) 48 @ temp)
   }"

lemma dec_digits_pad: "v < 10 ^ n \<Longrightarrow> dec_digits (m + n) v = replicate m 48 @ dec_digits n v"
proof (induction n arbitrary: v)
  case 0
  then show ?case by (induction m) (auto simp: replicate_app_Cons_same)
next
  case (Suc n)
  then have "v div 10 < 10 ^ n" by (simp add: less_mult_imp_div_less mult.commute)
  then show ?case using Suc.IH by simp
qed

lemma dec_string_digits: "dec_string v = dec_digits (length (dec_string v)) v \<and> v < 10 ^ length (dec_string v)"
proof (induction v rule: dec_string.induct)
  case (1 n)
  show ?case
  proof (cases "n < 10")
    case True
    then show ?thesis by (simp add: dec_string.simps)
  next
    case False
    note s = dec_string.simps [of n]
    have "n < 10 * 10 ^ length (dec_string (n div 10))" using 1 [OF False] by linarith
    then show ?thesis using 1 [OF False] False by (simp add: s)
  qed
qed

lemma dec_string_shortest: "v < 10 ^ Suc n \<Longrightarrow> length (dec_string v) \<le> Suc n"
proof (induction n arbitrary: v)
  case (Suc n)
  show ?case
  proof (cases "v < 10")
    case False
    have "v div 10 < 10 ^ Suc n" using Suc.prems by (simp add: less_mult_imp_div_less mult.commute)
    then show ?thesis using Suc.IH [of "v div 10"] False by (simp add: dec_string.simps [of v])
  qed (simp add: dec_string.simps)
qed (simp add: dec_string.simps)

lemma format_token_eq:
  assumes "unat v < 10 ^ 14"
  shows "format_token v = Some (encode_order_token v)"
proof -
  define n where "n = length (dec_string (unat v))"
  have n: "n \<le> 14" using dec_string_shortest [of "unat v" 13] assms by (simp add: n_def)
  have "dec_digits ((14 - n) + n) (unat v) = replicate (14 - n) 48 @ dec_digits n (unat v)"
    by (rule dec_digits_pad) (use dec_string_digits [of "unat v"] in \<open>simp add: n_def\<close>)
  then show ?thesis
    using n dec_string_digits [of "unat v"] by (simp add: format_token_def to_chars_def Let_def n_def encode_order_token_eq)
qed

section \<open>Outgoing messages\<close>

definition ouch_enter :: "bytes \<Rightarrow> u64 \<Rightarrow> NormalizedOrderAction \<Rightarrow> u64 \<Rightarrow> OuchEnterOrder option" where
  "ouch_enter firm_id token_base action t4 = do {
     token \<leftarrow> format_token (token_base + na_internal_order_id action);
     Some \<lparr>eo_msg_type = ch CHR ''O'', eo_order_token = token,
       eo_side = (if na_is_buy action then ch CHR ''B'' else ch CHR ''S''),
       eo_shares = na_quantity action, eo_stock = encode_symbol (na_instrument_id action),
       eo_price = ucast (na_price action), eo_time_in_force = 99998, eo_firm = firm_id,
       eo_display = ch CHR ''Y'', eo_capacity = ch CHR ''P'', eo_iso_eligibility = ch CHR ''Y'',
       eo_min_quantity = 0, eo_cross_type = ch CHR ''N'', eo_customer_type = ch CHR ''R'',
       eo_t1_exchange_send = na_t1_exchange_send action, eo_t2_trading_recv = na_t2_trading_recv action,
       eo_t3_trading_enq = na_t3_trading_enq action, eo_t4_network_deq = t4\<rparr>
   }"

definition ouch_cancel :: "u64 \<Rightarrow> NormalizedOrderAction \<Rightarrow> OuchCancelOrder option" where
  "ouch_cancel token_base action = do {
     token \<leftarrow> format_token (token_base + na_internal_order_id action);
     Some \<lparr>co_msg_type = ch CHR ''X'', co_order_token = token, co_shares = na_quantity action\<rparr>
   }"

text \<open>The bytes of one action, as the unbatched sender writes them.\<close>

definition ouch_bytes :: "bytes \<Rightarrow> u64 \<Rightarrow> NormalizedOrderAction \<Rightarrow> u64 \<Rightarrow> bytes option" where
  "ouch_bytes firm_id token_base action t4 =
     (if \<not> na_is_cancel action then map_option enc_enter_order (ouch_enter firm_id token_base action t4)
      else map_option enc_cancel_order (ouch_cancel token_base action))"

section \<open>Market data\<close>

definition itch_tick :: "ItchMessage \<Rightarrow> u64 \<Rightarrow> NormalizedTick" where
  "itch_tick raw start_cycles =
     \<lparr>nt_instrument_id = it_stock_locate raw, nt_price = it_price raw, nt_quantity = it_shares raw,
      nt_is_bid = (it_side raw = ch CHR ''B''), nt_is_trade = (it_msg_type raw = ch CHR ''E''),
      nt_t1_exchange_send = it_timestamp raw, nt_t2_trading_recv = start_cycles\<rparr>"

definition datagram_ticks :: "bytes \<Rightarrow> (nat \<Rightarrow> u64) \<Rightarrow> NormalizedTick list" where
  "datagram_ticks buf clk =
     (let num_msgs = length buf div sizeof_ItchMessage in
      map (\<lambda>i. itch_tick (dec_itch (take sizeof_ItchMessage (drop (i * sizeof_ItchMessage) buf))) (clk i)) [0 ..< num_msgs])"

section \<open>Received bytes\<close>

text \<open>
  \<open>std::stoull\<close>: leading white space, an optional sign, then the longest run of digits; with no
  digit it throws. The receive thread does not catch, so a throw ends the process: \<open>None\<close>.
  Fourteen characters cannot exceed 64 bits; a minus sign negates modulo \<open>2 ^ 64\<close>.
\<close>

definition is_space :: "u8 \<Rightarrow> bool" where
  "is_space c \<longleftrightarrow> c = 32 \<or> (9 \<le> c \<and> c \<le> 13)"

definition stoull :: "bytes \<Rightarrow> u64 option" where
  "stoull s =
     (let s1 = dropWhile is_space s;
          (neg, s2) = (case s1 of
             c # r \<Rightarrow> if c = ch CHR ''-'' then (True, r) else if c = ch CHR ''+'' then (False, r) else (False, s1)
           | [] \<Rightarrow> (False, s1));
          ds = takeWhile is_digit s2
      in if ds = [] then None else Some (if neg then - word_of_nat (digits_nat ds 0) else word_of_nat (digits_nat ds 0)))"

text \<open>The callback of one report, if one is set: nothing for a token below the firm's base.\<close>

definition report_callback :: "bool \<Rightarrow> u64 \<Rightarrow> OuchExecutionReport \<Rightarrow> (u64 \<times> u32 \<times> u32) list option" where
  "report_callback exec_callback token_base rep = (if exec_callback then do {
     token_val \<leftarrow> stoull (er_order_token rep);
     Some (if token_val \<ge> token_base
           then [(token_val - token_base, er_executed_shares rep, er_execution_price rep)] else [])
   } else Some [])"

text \<open>The parse loop over the bytes of one \<open>recv\<close>. It stops at an incomplete report and at an unknown message type.\<close>

function rx_parse :: "bool \<Rightarrow> u64 \<Rightarrow> bytes \<Rightarrow> (u64 \<times> u32 \<times> u32) list option" where
  "rx_parse exec_callback token_base buf =
     (case buf of
        [] \<Rightarrow> Some []
      | msg_type # _ \<Rightarrow>
          if msg_type = ch CHR ''E'' then
            if sizeof_OuchExecutionReport \<le> length buf then do {
              cb \<leftarrow> report_callback exec_callback token_base (dec_execution_report (take sizeof_OuchExecutionReport buf));
              cbs \<leftarrow> rx_parse exec_callback token_base (drop sizeof_OuchExecutionReport buf);
              Some (cb @ cbs)
            } else Some []
          else Some [])"
  by pat_completeness auto
termination
  by (relation "measure (length \<circ> snd \<circ> snd)") (auto simp: sizeof_OuchExecutionReport_def)

declare rx_parse.simps [simp del]

text \<open>
  \<open>TCPClient::drain_socket\<close>: read until the socket is empty or gone, one parse per read. The
  result also says whether the client is still connected.
\<close>

datatype recv_result = Received bytes | Recv_empty | Recv_gone

fun drain_socket :: "bool \<Rightarrow> u64 \<Rightarrow> recv_result list \<Rightarrow> ((u64 \<times> u32 \<times> u32) list \<times> bool \<times> recv_result list) option" where
  "drain_socket exec_callback token_base [] = None"
| "drain_socket exec_callback token_base (Received bs # rs) =
     (if bs = [] then Some ([], False, rs) else do {
        cbs \<leftarrow> rx_parse exec_callback token_base bs;
        (cbs', conn, rest) \<leftarrow> drain_socket exec_callback token_base rs;
        Some (cbs @ cbs', conn, rest)
      })"
| "drain_socket exec_callback token_base (Recv_empty # rs) = Some ([], True, rs)"
| "drain_socket exec_callback token_base (Recv_gone # rs) = Some ([], False, rs)"

section \<open>Messages of fixed size\<close>

lemma frames_messages:
  "\<forall>f \<in> set fs. f \<noteq> [] \<and> msg_size (hd f) = Some (length f) \<Longrightarrow> frames (concat fs) = (fs, [], False)"
proof (induction fs)
  case (Cons f fs)
  then show ?case using frames_message [of "f @ concat fs" "length f" fs "[]" False] by simp
qed simp

lemma chunks_of_concat:
  assumes "\<forall>f \<in> set fs. length f = n" "k < length fs" "0 < n"
  shows "take n (drop (k * n) (concat fs)) = fs ! k" "length (concat fs) div n = length fs"
proof -
  have len: "length (concat xs) = n * length xs" if "\<forall>f \<in> set xs. length f = n" for xs :: "'a list list"
    using that by (induction xs) auto
  then show "length (concat fs) div n = length fs" using assms by simp
  show "take n (drop (k * n) (concat fs)) = fs ! k"
    using assms
  proof (induction fs arbitrary: k)
    case (Cons f fs)
    then show ?case by (cases k) auto
  qed simp
qed

lemma wf_ouch_enter:
  "ouch_enter firm base a t4 = Some r \<Longrightarrow> length firm = 4 \<Longrightarrow> unat (base + na_internal_order_id a) < 10 ^ 14 \<Longrightarrow>
   wf_enter_order r \<and> eo_msg_type r = ch CHR ''O'' \<and> eo_order_token r = encode_order_token (base + na_internal_order_id a)"
  by (auto simp: ouch_enter_def format_token_eq wf_enter_order_def)

text \<open>What the gateway must decode from the message of an action.\<close>

definition message_of :: "bytes \<Rightarrow> u64 \<Rightarrow> NormalizedOrderAction \<Rightarrow> bytes \<Rightarrow> bool" where
  "message_of firm base a b \<longleftrightarrow>
     (if na_is_cancel a then b ! 0 = ch CHR ''X'' \<and>
        (let r = dec_cancel_order b in decode_order_token (co_order_token r) = base + na_internal_order_id a \<and>
          co_shares r = na_quantity a)
      else b ! 0 = ch CHR ''O'' \<and>
        (let r = dec_enter_order b in decode_order_token (eo_order_token r) = base + na_internal_order_id a \<and>
          decode_symbol (eo_stock r) = na_instrument_id a \<and> eo_shares r = na_quantity a \<and>
          eo_price r = ucast (na_price a) \<and> eo_firm r = firm \<and>
          eo_side r = (if na_is_buy a then ch CHR ''B'' else ch CHR ''S'')))"

lemma nth_0_enc: "enc_enter_order r ! 0 = eo_msg_type r" "enc_cancel_order c ! 0 = co_msg_type c"
  by (simp_all add: enc_enter_order_def enc_cancel_order_def)

lemma ouch_bytes_ok:
  assumes "length firm = 4" "unat (base + na_internal_order_id a) < 10 ^ 14" "unat (na_instrument_id a) < MAX_INSTRUMENTS"
  shows "\<exists>b. ouch_bytes firm base a t4 = Some b \<and> b \<noteq> [] \<and> msg_size (hd b) = Some (length b) \<and> message_of firm base a b"
proof (cases "na_is_cancel a")
  case True
  define r where "r = \<lparr>co_msg_type = ch CHR ''X'', co_order_token = encode_order_token (base + na_internal_order_id a),
    co_shares = na_quantity a\<rparr>"
  have wf: "wf_cancel_order r" by (simp add: wf_cancel_order_def r_def)
  have "ouch_bytes firm base a t4 = Some (enc_cancel_order r)"
    using True assms(2) by (simp add: ouch_bytes_def ouch_cancel_def format_token_eq r_def)
  moreover have "message_of firm base a (enc_cancel_order r)"
    using True assms(2) cancel_order_dec_enc [OF wf] decode_token_encode [OF assms(2)]
    by (simp add: message_of_def nth_0_enc Let_def) (simp add: r_def)
  moreover have "hd (enc_cancel_order r) = ch CHR ''X''" by (simp add: enc_cancel_order_def r_def)
  ultimately show ?thesis
    using length_enc_cancel_order [OF wf]
    by (auto simp: msg_size_def sizeof_OuchCancelOrder_def)
next
  case False
  obtain r where r: "ouch_enter firm base a t4 = Some r" using assms(2) by (simp add: ouch_enter_def format_token_eq)
  have wf: "wf_enter_order r" "eo_msg_type r = ch CHR ''O''"
      "eo_order_token r = encode_order_token (base + na_internal_order_id a)"
    using wf_ouch_enter [OF r assms(1,2)] by auto
  have "message_of firm base a (enc_enter_order r)"
    using False assms(2,3) r wf
    by (auto simp: message_of_def enter_order_dec_enc nth_0_enc Let_def decode_token_encode ouch_enter_def
        symbol_decode_encode format_token_eq)
  moreover have "hd (enc_enter_order r) = ch CHR ''O''" by (simp add: enc_enter_order_def wf(2))
  ultimately show ?thesis
    using length_enc_enter_order [OF wf(1)] False r
    by (auto simp: msg_size_def sizeof_OuchEnterOrder_def ouch_bytes_def)
qed

text \<open>The stream of a list of actions, each with the clock reading the sender stamps it with.\<close>

fun ouch_stream :: "bytes \<Rightarrow> u64 \<Rightarrow> (NormalizedOrderAction \<times> u64) list \<Rightarrow> bytes option" where
  "ouch_stream firm base [] = Some []"
| "ouch_stream firm base ((a, t4) # as) = do {
     b \<leftarrow> ouch_bytes firm base a t4;
     bs \<leftarrow> ouch_stream firm base as;
     Some (b @ bs)
   }"

definition sendable :: "u64 \<Rightarrow> NormalizedOrderAction \<Rightarrow> bool" where
  "sendable base a \<longleftrightarrow> unat (base + na_internal_order_id a) < 10 ^ 14 \<and> unat (na_instrument_id a) < MAX_INSTRUMENTS"

lemma ouch_stream_ok:
  assumes "length firm = 4" "\<forall>x \<in> set as. sendable base (fst x)"
  shows "\<exists>fs. ouch_stream firm base as = Some (concat fs) \<and>
    (\<forall>f \<in> set fs. f \<noteq> [] \<and> msg_size (hd f) = Some (length f)) \<and> list_all2 (message_of firm base) (map fst as) fs"
  using assms(2)
proof (induction as)
  case (Cons x as)
  obtain a t4 where x: "x = (a, t4)" by (cases x)
  obtain b where "ouch_bytes firm base a t4 = Some b" "b \<noteq> []" "msg_size (hd b) = Some (length b)" "message_of firm base a b"
    using ouch_bytes_ok [OF assms(1), of base a t4] Cons.prems x by (auto simp: sendable_def)
  moreover obtain fs where "ouch_stream firm base as = Some (concat fs)"
    "\<forall>f \<in> set fs. f \<noteq> [] \<and> msg_size (hd f) = Some (length f)" "list_all2 (message_of firm base) (map fst as) fs"
    using Cons by auto
  ultimately show ?case by (intro exI [of _ "b # fs"]) (simp add: x)
qed (auto intro: exI [of _ "[]"])

section \<open>Execution reports\<close>

definition report_for :: "u64 \<Rightarrow> OuchExecutionReport \<Rightarrow> bool" where
  "report_for v r \<longleftrightarrow> er_msg_type r = ch CHR ''E'' \<and> er_order_token r = encode_order_token v \<and> unat v < 10 ^ 14 \<and>
     length (er_match_number r) = 8"

lemma stoull_digits:
  assumes "s \<noteq> []" "\<forall>c \<in> set s. is_digit c"
  shows "stoull s = Some (word_of_nat (digits_nat s 0))"
proof -
  obtain c r where s: "s = c # r" using assms(1) by (cases s) auto
  have c: "48 \<le> unat c" "unat c \<le> 57" using assms(2) s by (auto simp: is_digit_iff)
  then have "\<not> is_space c" "c \<noteq> ch CHR ''-''" "c \<noteq> ch CHR ''+''"
    by (auto simp: is_space_def word_le_nat_alt)
  moreover have "takeWhile is_digit s = s" using assms(2) by (simp add: takeWhile_eq_all_conv)
  ultimately show ?thesis by (simp add: stoull_def s)
qed

lemma stoull_token: "unat v < 10 ^ 14 \<Longrightarrow> stoull (encode_order_token v) = Some v"
proof -
  assume v: "unat v < 10 ^ 14"
  have d: "\<forall>c \<in> set (encode_order_token v). is_digit c"
    by (auto simp: encode_order_token_eq dest: dec_digits_digits)
  have "stoull (encode_order_token v) = Some (word_of_nat (digits_nat (encode_order_token v) 0))"
    by (rule stoull_digits [OF _ d]) (simp flip: length_greater_0_conv)
  then show ?thesis
    using decode_order_token_digits(2) [OF _ d] decode_token_encode [OF v] by simp
qed

lemma rx_parse_report:
  assumes "report_for v r"
  shows "rx_parse True base (enc_execution_report r @ rest) = map_option
    (\<lambda>cbs. (if base \<le> v then [(v - base, er_executed_shares r, er_execution_price r)] else []) @ cbs) (rx_parse True base rest)"
proof -
  have wf: "wf_execution_report r" using assms by (simp add: report_for_def wf_execution_report_def)
  have hd: "enc_execution_report r = ch CHR ''E'' # tl (enc_execution_report r)"
    using assms by (simp add: enc_execution_report_def report_for_def)
  have "report_callback True base r = Some (if base \<le> v then [(v - base, er_executed_shares r, er_execution_price r)] else [])"
    using assms by (simp add: report_callback_def report_for_def stoull_token)
  then show ?thesis
    using length_enc_execution_report [OF wf] execution_report_dec_enc [OF wf]
    by (subst rx_parse.simps, subst hd) (cases "rx_parse True base rest"; simp)
qed

section \<open>Properties\<close>

text \<open>
  C26. What the firm writes is what the gateway reads: for any list of actions whose tokens have
  at most fourteen digits and whose instruments exist, the sender produces a byte stream, the
  gateway's framing cuts it into exactly one message per action with nothing left over, and each
  message decodes to the action's token, instrument, side, quantity, price and firm (a cancel to
  its token and quantity). The token characters written with \<open>to_chars\<close> and zero padding are
  those of the canonical encoder.
\<close>
theorem firm_messages_reach_gateway:
  assumes "length firm = 4" "\<forall>x \<in> set as. sendable base (fst x)"
  shows "\<exists>bs fs. ouch_stream firm base as = Some bs \<and> frames bs = (fs, [], False) \<and>
    list_all2 (message_of firm base) (map fst as) fs"
  using ouch_stream_ok [OF assms] frames_messages by blast

definition sample_orders_out :: "(NormalizedOrderAction \<times> u64) list" where
  "sample_orders_out = (let a = \<lparr>na_internal_order_id = 5, na_instrument_id = 3, na_price = 100, na_quantity = 10,
     na_is_buy = True, na_is_cancel = False, na_t1_exchange_send = 0, na_t2_trading_recv = 0, na_t3_trading_enq = 0\<rparr>
   in [(a, 1), (a\<lparr>na_is_cancel := True\<rparr>, 2)])"

theorem firm_messages_reach_gateway_witness:
  "\<exists>bs fs. ouch_stream [72, 70, 84, 49] 3125000 sample_orders_out = Some bs \<and> frames bs = (fs, [], False) \<and> length fs = 2 \<and>
    decode_order_token (eo_order_token (dec_enter_order (fs ! 0))) = 3125005 \<and>
    decode_order_token (co_order_token (dec_cancel_order (fs ! 1))) = 3125005"
proof -
  obtain bs fs where s: "ouch_stream [72, 70, 84, 49] 3125000 sample_orders_out = Some bs" "frames bs = (fs, [], False)"
    "list_all2 (message_of [72, 70, 84, 49] 3125000) (map fst sample_orders_out) fs"
    using firm_messages_reach_gateway [of "[72, 70, 84, 49]" sample_orders_out 3125000]
    by (auto simp: sample_orders_out_def sendable_def MAX_INSTRUMENTS_def)
  then obtain f g where "fs = [f, g]"
    by (auto simp: sample_orders_out_def Let_def list_all2_Cons1)
  then show ?thesis using s by (auto simp: sample_orders_out_def message_of_def Let_def)
qed

text \<open>
  Every execution report the exchange writes reaches the firm's callback once, in order: for
  any list of reports that arrive in one read, the parse loop terminates without an exception
  and calls back, for each report whose token is at or above the firm's base, with the token
  relative to the base and the executed quantity and price; reports for lower tokens are skipped.
\<close>
theorem reports_reach_callback:
  assumes "list_all2 report_for vs rs"
  shows "rx_parse True base (concat (map enc_execution_report rs)) =
    Some (map (\<lambda>(v, r). (v - base, er_executed_shares r, er_execution_price r)) (filter (\<lambda>(v, r). base \<le> v) (zip vs rs)))"
  using assms
proof (induction vs rs rule: list_all2_induct)
  case Nil
  then show ?case by (simp add: rx_parse.simps)
next
  case (Cons v vs r rs)
  then show ?case using rx_parse_report [OF Cons(1), of base] by simp
qed

definition sample_report :: "u64 \<Rightarrow> OuchExecutionReport" where
  "sample_report v = \<lparr>er_msg_type = ch CHR ''E'', er_order_token = encode_order_token v, er_executed_shares = 7,
     er_execution_price = 101, er_liquidity_flag = ch CHR ''A'', er_match_number = replicate 8 0\<rparr>"

theorem reports_reach_callback_witness:
  "rx_parse True 3125000 (concat (map enc_execution_report [sample_report 3125009, sample_report 4])) = Some [(9, 7, 101)]"
proof -
  have "list_all2 report_for [3125009, 4] [sample_report 3125009, sample_report 4]"
    by (simp add: report_for_def sample_report_def)
  from reports_reach_callback [OF this, of 3125000] show ?thesis by (simp add: sample_report_def)
qed

text \<open>
  A report that a read cuts in two is lost: when the first read ends inside the token of a
  report, the parse loop drops the first part (it keeps no buffer between reads) and stops at
  the first byte of the second part, which is a digit and no message type. No callback is made
  for the report, nor for any report that follows it in the second read.
\<close>
theorem split_report_is_lost:
  assumes "report_for v r" "0 < k" "k \<le> 14"
  shows "drain_socket True base [Received (take k (enc_execution_report r)),
      Received (drop k (enc_execution_report r) @ later), Recv_empty] = Some ([], True, [])"
proof -
  define t where "t = encode_order_token v"
  define z where "z = w32 (er_executed_shares r) @ w32 (er_execution_price r) @ [er_liquidity_flag r] @ er_match_number r"
  have b: "enc_execution_report r = 69 # t @ z" and t: "length t = 14"
    using assms(1) by (simp_all add: enc_execution_report_def report_for_def t_def z_def)
  obtain j where j: "k = Suc j" "j < 14" using assms(2,3) by (cases k) auto
  have "is_digit (t ! j)" using j(2) t unfolding t_def encode_order_token_eq by (metis dec_digits_digits nth_mem)
  then have digit: "t ! j \<noteq> 69" by (auto simp: is_digit_def word_le_nat_alt)
  have "drop k (enc_execution_report r) @ later = t ! j # drop (Suc j) t @ z @ later"
    using j t by (simp add: b Cons_nth_drop_Suc [symmetric])
  then have "rx_parse True base (drop k (enc_execution_report r) @ later) = Some []"
    using digit by (simp add: rx_parse.simps)
  moreover have "rx_parse True base (take k (enc_execution_report r)) = Some []"
    using j t by (simp add: b rx_parse.simps sizeof_OuchExecutionReport_def)
  moreover have "take k (enc_execution_report r) \<noteq> []" "drop k (enc_execution_report r) @ later \<noteq> []"
    using j t by (simp_all add: b)
  ultimately show ?thesis by simp
qed

theorem split_report_is_lost_witness:
  "drain_socket True 0 [Received (take 10 (enc_execution_report (sample_report 9))),
      Received (drop 10 (enc_execution_report (sample_report 9)) @ enc_execution_report (sample_report 10)), Recv_empty] = Some ([], True, [])"
  by (rule split_report_is_lost [of 9]) (simp_all add: report_for_def sample_report_def)

text \<open>
  Market data survives the datagram: the messages of a published datagram come out as one
  tick each, in order, with the instrument, price, quantity and side of the message, and a tick
  counts as a trade exactly when the message type is an execution.
\<close>
theorem datagram_round_trip:
  "datagram_ticks (concat (map enc_itch ms)) clk = map (\<lambda>k. itch_tick (ms ! k) (clk k)) [0 ..< length ms]"
proof (cases "ms = []")
  case False
  have len: "\<forall>f \<in> set (map enc_itch ms). length f = sizeof_ItchMessage" by simp
  have pos: "0 < sizeof_ItchMessage" by (simp add: sizeof_ItchMessage_def)
  have "length (concat (map enc_itch ms)) div sizeof_ItchMessage = length ms"
    using chunks_of_concat(2) [OF len _ pos, of 0] False by simp
  then show ?thesis
    using chunks_of_concat(1) [OF len _ pos]
    unfolding datagram_ticks_def Let_def by (intro map_cong) (simp_all add: itch_dec_enc)
qed (simp add: datagram_ticks_def)

end
