(* ===== verification/Firm_Risk.thy ===== *)
theory Firm_Risk
  imports Firm_Models
begin

text \<open>
  The firm's pre-trade risk gate (\<open>risk/risk_manager.h\<close>): kill switch, fat-finger limit,
  position limit and message rate limit, and the confirmed positions and cash flow that fills
  move. Positions are 32-bit and the cash flow 64-bit two's complement words, read signed; the
  atomic updates wrap, while the signed arithmetic of \<open>check_order\<close> and the product in
  \<open>on_fill\<close> overflow into undefined behaviour, which is \<open>None\<close>.

  The time stamp counter is an input: each call of \<open>check_order\<close> takes the value it reads.
\<close>

section \<open>State and operations\<close>

definition MAX_ORDER_QTY :: u32 where "MAX_ORDER_QTY = 1000"
definition MAX_POSITION :: int where "MAX_POSITION = 10000"
definition MSG_RATE_LIMIT_PER_SEC :: u64 where "MSG_RATE_LIMIT_PER_SEC = 5000"

record RiskManager =
  rm_kill_switch :: bool
  rm_positions :: "nat \<Rightarrow> 32 word"
  rm_realized_pnl :: "64 word"
  rm_msg_count :: u64
  rm_current_second :: u64

definition risk_init :: RiskManager where
  "risk_init = \<lparr>rm_kill_switch = False, rm_positions = (\<lambda>_. 0), rm_realized_pnl = 0,
     rm_msg_count = 0, rm_current_second = 0\<rparr>"

definition get_time_seconds :: "u64 \<Rightarrow> u64" where
  "get_time_seconds tsc = tsc div 3500000000"

definition trigger_kill_switch :: "RiskManager \<Rightarrow> RiskManager" where
  "trigger_kill_switch r = r\<lparr>rm_kill_switch := True\<rparr>"

text \<open>Signed results that fit their type; a result that does not is undefined behaviour.\<close>

definition checked_int :: "nat \<Rightarrow> int \<Rightarrow> int option" where
  "checked_int w i = (if - (2 ^ (w - 1)) \<le> i \<and> i < 2 ^ (w - 1) then Some i else None)"

definition on_fill :: "u16 \<Rightarrow> bool \<Rightarrow> u32 \<Rightarrow> u32 \<Rightarrow> RiskManager \<Rightarrow> RiskManager option" where
  "on_fill instrument_id is_buy qty price r = do {
     notional \<leftarrow> checked_int 64 (uint price * uint qty);
     pos \<leftarrow> arr_get NUM_INSTRUMENTS (rm_positions r) (unat instrument_id);
     ps \<leftarrow> arr_set NUM_INSTRUMENTS (rm_positions r) (unat instrument_id) (if is_buy then pos + qty else pos - qty);
     Some (r\<lparr>rm_positions := ps,
             rm_realized_pnl := (if is_buy then rm_realized_pnl r - word_of_int notional
                                 else rm_realized_pnl r + word_of_int notional)\<rparr>)
   }"

definition position :: "u16 \<Rightarrow> RiskManager \<Rightarrow> int option" where
  "position instrument_id r = do {
     p \<leftarrow> arr_get NUM_INSTRUMENTS (rm_positions r) (unat instrument_id);
     Some (sint p)
   }"

definition realized_pnl :: "RiskManager \<Rightarrow> int" where
  "realized_pnl r = sint (rm_realized_pnl r)"

definition kill_switch_engaged :: "RiskManager \<Rightarrow> bool" where
  "kill_switch_engaged r = rm_kill_switch r"

text \<open>The inventory check: the position the order would lead to, and whether it is within the limit.\<close>

definition inventory_ok :: "NormalizedOrderAction \<Rightarrow> RiskManager \<Rightarrow> bool option" where
  "inventory_ok action r = do {
     current_pos \<leftarrow> position (na_instrument_id action) r;
     if na_is_buy action then do {
       s \<leftarrow> checked_int 32 (current_pos + sint (na_quantity action));
       Some (\<not> s > MAX_POSITION)
     } else do {
       s \<leftarrow> checked_int 32 (current_pos - sint (na_quantity action));
       Some (\<not> s < - MAX_POSITION)
     }
   }"

text \<open>The rolling message counter of the current second.\<close>

definition count_message :: "u64 \<Rightarrow> RiskManager \<Rightarrow> RiskManager" where
  "count_message tsc r = (let now_sec = get_time_seconds tsc;
       r = (if now_sec \<noteq> rm_current_second r then r\<lparr>rm_current_second := now_sec, rm_msg_count := 0\<rparr> else r)
     in r\<lparr>rm_msg_count := rm_msg_count r + 1\<rparr>)"

definition check_order :: "u64 \<Rightarrow> NormalizedOrderAction \<Rightarrow> RiskManager \<Rightarrow> (bool \<times> RiskManager) option" where
  "check_order tsc action r =
     (if rm_kill_switch r then Some (False, r)
      else if na_is_cancel action then Some (True, r)
      else if na_quantity action > MAX_ORDER_QTY then Some (False, r)
      else do {
        ok \<leftarrow> inventory_ok action r;
        if \<not> ok then Some (False, r)
        else (let r' = count_message tsc r in
          Some (if rm_msg_count r' > MSG_RATE_LIMIT_PER_SEC then (False, r') else (True, r')))
      })"

section \<open>What one check decides\<close>

lemma checked_int_in: "- (2 ^ (w - 1)) \<le> i \<Longrightarrow> i < 2 ^ (w - 1) \<Longrightarrow> checked_int w i = Some i"
  by (simp add: checked_int_def)

lemma small_quantity: "\<not> na_quantity a > MAX_ORDER_QTY \<Longrightarrow> sint (na_quantity a) = uint (na_quantity a)"
  "\<not> na_quantity a > MAX_ORDER_QTY \<Longrightarrow> uint (na_quantity a) \<le> 1000"
proof -
  assume "\<not> na_quantity a > MAX_ORDER_QTY"
  then show le: "uint (na_quantity a) \<le> 1000"
    by (simp add: MAX_ORDER_QTY_def word_le_def not_less)
  have "signed_take_bit 31 (uint (na_quantity a)) = uint (na_quantity a)"
    using le by (intro signed_take_bit_int_eq_self) (auto intro: order_trans [OF _ uint_ge_0])
  then show "sint (na_quantity a) = uint (na_quantity a)" by (simp add: sint_uint)
qed

text \<open>The signed position after an order of either side.\<close>

definition position_after :: "NormalizedOrderAction \<Rightarrow> int \<Rightarrow> int" where
  "position_after a pos = (if na_is_buy a then pos + uint (na_quantity a) else pos - uint (na_quantity a))"

definition within_limit :: "NormalizedOrderAction \<Rightarrow> int \<Rightarrow> bool" where
  "within_limit a pos \<longleftrightarrow> (if na_is_buy a then position_after a pos \<le> MAX_POSITION
                          else - MAX_POSITION \<le> position_after a pos)"

text \<open>The positions for which the inventory sum stays in 32 bits, whatever the order.\<close>

definition sane_position :: "int \<Rightarrow> bool" where
  "sane_position pos \<longleftrightarrow> - (2 ^ 31) + 1000 \<le> pos \<and> pos < 2 ^ 31 - 1000"

lemma inventory_ok_eq:
  assumes "position (na_instrument_id a) r = Some pos" "sane_position pos" "\<not> na_quantity a > MAX_ORDER_QTY"
  shows "inventory_ok a r = Some (within_limit a pos)"
proof -
  define q where "q = uint (na_quantity a)"
  have "0 \<le> q" "q \<le> 1000" "sint (na_quantity a) = q"
    using small_quantity [OF assms(3)] by (simp_all add: q_def)
  then show ?thesis
    using assms(1,2)
    by (auto simp: inventory_ok_def within_limit_def position_after_def sane_position_def checked_int_def
        q_def [symmetric])
qed

lemma position_in: "unat i < NUM_INSTRUMENTS \<Longrightarrow> position i r = Some (sint (rm_positions r (unat i)))"
  by (simp add: position_def arr_get_in)

lemma check_order_eq:
  assumes "unat (na_instrument_id a) < NUM_INSTRUMENTS"
    and "sane_position (sint (rm_positions r (unat (na_instrument_id a))))"
  shows "check_order tsc a r =
    (let pos = sint (rm_positions r (unat (na_instrument_id a)));
         passed = na_quantity a \<le> MAX_ORDER_QTY \<and> within_limit a pos in
     if rm_kill_switch r then Some (False, r)
     else if na_is_cancel a then Some (True, r)
     else if \<not> passed then Some (False, r)
     else Some (rm_msg_count (count_message tsc r) \<le> MSG_RATE_LIMIT_PER_SEC, count_message tsc r))"
  using inventory_ok_eq [OF position_in [OF assms(1)] assms(2)]
  by (auto simp: check_order_def Let_def not_less)

section \<open>Fills\<close>

lemma sint_in_range:
  "- (2 ^ 31) \<le> i \<Longrightarrow> i < 2 ^ 31 \<Longrightarrow> sint (word_of_int i :: 32 word) = i"
  by (simp add: sint_uint signed_take_bit_take_bit signed_take_bit_int_eq_self take_bit_eq_mod [symmetric]
      unsigned_of_int)

lemma sint_add_unsigned:
  fixes p q :: "32 word"
  assumes "\<bar>sint p\<bar> + uint q < 2 ^ 31"
  shows "sint (p + q) = sint p + uint q" "sint (p - q) = sint p - uint q"
proof -
  have q: "0 \<le> uint q" by simp
  have "sint (word_of_int (sint p + uint q) :: 32 word) = sint p + uint q"
    by (rule sint_in_range) (use assms q in linarith)+
  then show "sint (p + q) = sint p + uint q" by simp
  have "sint (word_of_int (sint p - uint q) :: 32 word) = sint p - uint q"
    by (rule sint_in_range) (use assms q in linarith)+
  then show "sint (p - q) = sint p - uint q" by simp
qed

definition bounded_positions :: "int \<Rightarrow> RiskManager \<Rightarrow> bool" where
  "bounded_positions b r \<longleftrightarrow> (\<forall>i < NUM_INSTRUMENTS. \<bar>sint (rm_positions r i)\<bar> \<le> b)"

text \<open>The signed quantity a fill moves.\<close>

definition signed_qty :: "bool \<Rightarrow> u32 \<Rightarrow> int" where
  "signed_qty is_buy qty = (if is_buy then uint qty else - uint qty)"

lemma on_fill_eq:
  assumes "unat i < NUM_INSTRUMENTS" "uint price * uint qty < 2 ^ 63"
  shows "on_fill i is_buy qty price r = Some (r\<lparr>
    rm_positions := (rm_positions r)(unat i := rm_positions r (unat i) + word_of_int (signed_qty is_buy qty)),
    rm_realized_pnl := rm_realized_pnl r - word_of_int (uint price * signed_qty is_buy qty)\<rparr>)"
proof -
  have "checked_int 64 (uint price * uint qty) = Some (uint price * uint qty)"
    using assms(2) by (intro checked_int_in) (auto intro: order_trans [OF _ mult_nonneg_nonneg])
  then show ?thesis
    using assms(1) by (simp add: on_fill_def arr_get_in arr_set_in signed_qty_def)
qed

lemma on_fill_bounded:
  assumes "bounded_positions b r" "b + uint qty < 2 ^ 31" "unat i < NUM_INSTRUMENTS"
  shows "bounded_positions (b + uint qty) (r\<lparr>
    rm_positions := (rm_positions r)(unat i := rm_positions r (unat i) + word_of_int (signed_qty is_buy qty)),
    rm_realized_pnl := c\<rparr>)"
proof -
  have b: "\<bar>sint (rm_positions r j)\<bar> \<le> b" if "j < NUM_INSTRUMENTS" for j
    using that assms(1) by (simp add: bounded_positions_def)
  have q: "0 \<le> uint qty" by simp
  have small: "\<bar>sint (rm_positions r (unat i))\<bar> + uint qty < 2 ^ 31" using b [OF assms(3)] assms(2) by linarith
  have "sint (rm_positions r (unat i) + word_of_int (signed_qty is_buy qty)) =
      sint (rm_positions r (unat i)) + signed_qty is_buy qty"
    using sint_add_unsigned [OF small] by (simp add: signed_qty_def)
  moreover have "\<bar>signed_qty is_buy qty\<bar> = uint qty" by (simp add: signed_qty_def)
  ultimately have "\<bar>sint (rm_positions r (unat i) + word_of_int (signed_qty is_buy qty))\<bar> \<le> b + uint qty"
    using b [OF assms(3)] by linarith
  moreover have "\<bar>sint (rm_positions r j)\<bar> \<le> b + uint qty" if "j < NUM_INSTRUMENTS" for j
    using b [OF that] q by linarith
  ultimately show ?thesis by (simp add: bounded_positions_def)
qed

section \<open>Runs of the gate\<close>

text \<open>
  The calls the gate receives, in the order they take effect: checks from the market-data
  thread, fills from the receive thread, and the kill switch. A run collects the second and the
  action of every accepted check.
\<close>

datatype risk_event = Check u64 NormalizedOrderAction | Fill u16 bool u32 u32 | Kill

fun risk_run :: "risk_event list \<Rightarrow> RiskManager \<Rightarrow> ((u64 \<times> NormalizedOrderAction) list \<times> RiskManager) option" where
  "risk_run [] r = Some ([], r)"
| "risk_run (Check tsc a # es) r = do {
     (safe, r1) \<leftarrow> check_order tsc a r;
     (acc, r2) \<leftarrow> risk_run es r1;
     Some (if safe then (get_time_seconds tsc, a) # acc else acc, r2)
   }"
| "risk_run (Fill i b q p # es) r = do { r1 \<leftarrow> on_fill i b q p r; risk_run es r1 }"
| "risk_run (Kill # es) r = risk_run es (trigger_kill_switch r)"

text \<open>
  The inputs the gate is built for: instruments in range, products and the total filled quantity
  within the signed types, a time stamp counter that does not run backwards.
\<close>

fun event_ok :: "risk_event \<Rightarrow> bool" where
  "event_ok (Check tsc a) = (unat (na_instrument_id a) < NUM_INSTRUMENTS)"
| "event_ok (Fill i b q p) = (unat i < NUM_INSTRUMENTS \<and> uint p * uint q < 2 ^ 63)"
| "event_ok Kill = True"

fun filled :: "risk_event list \<Rightarrow> int" where
  "filled [] = 0"
| "filled (Fill i b q p # es) = uint q + filled es"
| "filled (e # es) = filled es"

fun check_times :: "risk_event list \<Rightarrow> u64 list" where
  "check_times [] = []"
| "check_times (Check tsc a # es) = get_time_seconds tsc # check_times es"
| "check_times (e # es) = check_times es"

definition risk_input_ok :: "risk_event list \<Rightarrow> bool" where
  "risk_input_ok es \<longleftrightarrow> list_all event_ok es \<and> filled es < 2 ^ 31 - 1000 \<and>
     sorted (check_times es) \<and> length es < 2 ^ 64"

definition accepted_in :: "u64 \<Rightarrow> (u64 \<times> NormalizedOrderAction) list \<Rightarrow> nat" where
  "accepted_in s acc = length (filter (\<lambda>x. fst x = s \<and> \<not> na_is_cancel (snd x)) acc)"

lemma accepted_in_Cons [simp]:
  "accepted_in s (x # acc) = (if fst x = s \<and> \<not> na_is_cancel (snd x) then 1 else 0) + accepted_in s acc"
  by (simp add: accepted_in_def)

lemma filled_nonneg: "0 \<le> filled es"
  by (induction es rule: filled.induct) auto

text \<open>What is left of the current second's allowance, and of any other second's.\<close>

definition allowance :: "RiskManager \<Rightarrow> u64 \<Rightarrow> nat" where
  "allowance r s = (if s = rm_current_second r then 5000 - unat (rm_msg_count r)
                    else if s < rm_current_second r then 0 else 5000)"

lemma count_message_allowance:
  assumes "unat (rm_msg_count r) + 1 < 2 ^ 64" "rm_current_second r \<le> get_time_seconds tsc"
  defines "r' \<equiv> count_message tsc r"
  shows "rm_current_second r' = get_time_seconds tsc" "unat (rm_msg_count r') \<le> Suc (unat (rm_msg_count r))"
    and "allowance r' s \<le> allowance r s"
    and "rm_msg_count r' \<le> MSG_RATE_LIMIT_PER_SEC \<Longrightarrow> allowance r' (get_time_seconds tsc) < allowance r (get_time_seconds tsc)"
    and "rm_positions r' = rm_positions r" "rm_kill_switch r' = rm_kill_switch r"
proof -
  have "unat (rm_msg_count r + 1) = Suc (unat (rm_msg_count r))"
    using assms(1) by (simp add: unat_word_ariths)
  then have cases: "(if get_time_seconds tsc = rm_current_second r then unat (rm_msg_count r') = Suc (unat (rm_msg_count r))
      else unat (rm_msg_count r') = 1)" and now: "rm_current_second r' = get_time_seconds tsc"
    by (simp_all add: r'_def count_message_def Let_def)
  then show "rm_current_second r' = get_time_seconds tsc" "unat (rm_msg_count r') \<le> Suc (unat (rm_msg_count r))"
    by (simp_all split: if_splits)
  show "rm_positions r' = rm_positions r" "rm_kill_switch r' = rm_kill_switch r"
    by (simp_all add: r'_def count_message_def Let_def)
  show "allowance r' s \<le> allowance r s"
    using cases now assms(2) by (cases "get_time_seconds tsc = rm_current_second r") (auto simp: allowance_def)
  show "allowance r' (get_time_seconds tsc) < allowance r (get_time_seconds tsc)"
    if "rm_msg_count r' \<le> MSG_RATE_LIMIT_PER_SEC"
  proof -
    have "unat (rm_msg_count r') \<le> 5000" using that by (simp add: MSG_RATE_LIMIT_PER_SEC_def word_le_nat_alt)
    then show ?thesis
      using cases now assms(2) by (cases "get_time_seconds tsc = rm_current_second r") (auto simp: allowance_def)
  qed
qed

lemma check_order_step:
  assumes "bounded_positions b r" "b < 2 ^ 31 - 1000" "unat (na_instrument_id a) < NUM_INSTRUMENTS"
    and "unat (rm_msg_count r) + 1 < 2 ^ 64" "rm_current_second r \<le> get_time_seconds tsc"
  shows "\<exists>safe r'. check_order tsc a r = Some (safe, r') \<and> bounded_positions b r' \<and>
    rm_current_second r' \<le> get_time_seconds tsc \<and> unat (rm_msg_count r') \<le> Suc (unat (rm_msg_count r)) \<and>
    (safe \<longrightarrow> na_is_cancel a \<or> na_quantity a \<le> MAX_ORDER_QTY) \<and>
    (\<forall>s. (if safe \<and> \<not> na_is_cancel a \<and> s = get_time_seconds tsc then 1 else 0) + allowance r' s \<le> allowance r s)"
proof -
  have "\<bar>sint (rm_positions r (unat (na_instrument_id a)))\<bar> \<le> b"
    using assms(1,3) by (simp add: bounded_positions_def)
  then have "sane_position (sint (rm_positions r (unat (na_instrument_id a))))"
    using assms(2) by (auto simp: sane_position_def)
  note eq = check_order_eq [OF assms(3) this, of tsc]
  note cm = count_message_allowance [OF assms(4,5)]
  have "bounded_positions b (count_message tsc r)"
    using assms(1) cm(5) by (simp add: bounded_positions_def)
  then show ?thesis
    using assms(1,5) cm(1-3) Suc_leI [OF cm(4)] unfolding eq Let_def by (auto simp: not_le)
qed

lemma kill_frame:
  "bounded_positions b (trigger_kill_switch r) = bounded_positions b r"
  "allowance (trigger_kill_switch r) = allowance r"
  "rm_current_second (trigger_kill_switch r) = rm_current_second r"
  "rm_msg_count (trigger_kill_switch r) = rm_msg_count r"
  by (simp_all add: trigger_kill_switch_def bounded_positions_def allowance_def fun_eq_iff)

lemma risk_run_ok:
  assumes "bounded_positions b r" "0 \<le> b" "list_all event_ok es" "b + filled es < 2 ^ 31 - 1000"
    and "sorted (check_times es)" "\<forall>s \<in> set (check_times es). rm_current_second r \<le> s"
    and "unat (rm_msg_count r) + length es < 2 ^ 64"
  shows "\<exists>acc r'. risk_run es r = Some (acc, r') \<and>
    (\<forall>x \<in> set acc. na_is_cancel (snd x) \<or> na_quantity (snd x) \<le> MAX_ORDER_QTY) \<and>
    (\<forall>s. accepted_in s acc \<le> allowance r s)"
  using assms
proof (induction es r arbitrary: b rule: risk_run.induct)
  case (2 tsc a es r)
  obtain safe r1 where r1: "check_order tsc a r = Some (safe, r1)" "bounded_positions b r1"
    "rm_current_second r1 \<le> get_time_seconds tsc" "unat (rm_msg_count r1) \<le> Suc (unat (rm_msg_count r))"
    "safe \<longrightarrow> na_is_cancel a \<or> na_quantity a \<le> MAX_ORDER_QTY"
    and allow: "\<And>s. (if safe \<and> \<not> na_is_cancel a \<and> s = get_time_seconds tsc then 1 else 0) + allowance r1 s \<le> allowance r s"
    using check_order_step [of b r a tsc] 2 filled_nonneg [of es] by auto
  have "\<exists>acc r'. risk_run es r1 = Some (acc, r') \<and>
    (\<forall>x \<in> set acc. na_is_cancel (snd x) \<or> na_quantity (snd x) \<le> MAX_ORDER_QTY) \<and>
    (\<forall>s. accepted_in s acc \<le> allowance r1 s)"
    using 2 r1 by (intro 2(1) [OF r1(1) refl r1(2)]) auto
  then obtain acc r' where "risk_run es r1 = Some (acc, r')"
    "\<forall>x \<in> set acc. na_is_cancel (snd x) \<or> na_quantity (snd x) \<le> MAX_ORDER_QTY"
    and le: "\<And>s. accepted_in s acc \<le> allowance r1 s" by blast
  moreover have "accepted_in s (if safe then (get_time_seconds tsc, a) # acc else acc) \<le> allowance r s" for s
    using allow [of s] le [of s] by (auto split: if_splits)
  ultimately show ?case using r1(1,5) by auto
next
  case (3 i bu q p es r)
  then have small: "b + uint q < 2 ^ 31" and e: "unat i < NUM_INSTRUMENTS" "uint p * uint q < 2 ^ 63"
    using filled_nonneg [of es] by simp_all
  define r1 where "r1 = the (on_fill i bu q p r)"
  have r1: "on_fill i bu q p r = Some r1" "bounded_positions (b + uint q) r1" "allowance r1 = allowance r"
    "rm_current_second r1 = rm_current_second r" "rm_msg_count r1 = rm_msg_count r"
    unfolding r1_def on_fill_eq [OF e]
    by (simp_all add: on_fill_bounded [OF 3(2) small e(1)] allowance_def fun_eq_iff del: of_int_mult)
  show ?case
    using 3(1) [OF r1(1,2)] 3(3-) r1 by (simp add: ac_simps)
next
  case (4 es r)
  then show ?case using 4(1) [of b] by (simp add: kill_frame)
qed (simp_all add: accepted_in_def)

lemma risk_run_append:
  "risk_run (xs @ ys) r = do { (acc, r1) \<leftarrow> risk_run xs r; (acc', r2) \<leftarrow> risk_run ys r1; Some (acc @ acc', r2) }"
  by (induction xs r rule: risk_run.induct) (auto split: Option.bind_splits)

lemma risk_run_killed: "rm_kill_switch r \<Longrightarrow> risk_run es r = Some (acc, r') \<Longrightarrow> acc = []"
proof (induction es r arbitrary: acc rule: risk_run.induct)
  case (2 tsc a es r)
  have "check_order tsc a r = Some (False, r)" using 2(2) by (simp add: check_order_def)
  note c = this
  then have "risk_run es r = Some (acc, r')" using 2(3) by (auto split: Option.bind_splits)
  then show ?case by (rule 2(1) [OF c refl 2(2)])
next
  case (3 i b q p es r)
  then show ?case
    by (auto simp: on_fill_def split: Option.bind_splits)
qed (auto simp: trigger_kill_switch_def)

lemma risk_run_keeps_kill: "rm_kill_switch r \<Longrightarrow> risk_run es r = Some (acc, r') \<Longrightarrow> rm_kill_switch r'"
proof (induction es r arbitrary: acc rule: risk_run.induct)
  case (2 tsc a es r)
  then obtain safe r1 acc1 where c: "check_order tsc a r = Some (safe, r1)" "risk_run es r1 = Some (acc1, r')"
    by (auto split: Option.bind_splits)
  have "rm_kill_switch r1" using c(1) 2(2) by (simp add: check_order_def)
  then show ?case by (rule 2(1) [OF c(1) refl _ c(2)])
next
  case (3 i b q p es r)
  then show ?case by (auto simp: on_fill_def split: Option.bind_splits)
qed (auto simp: trigger_kill_switch_def)

text \<open>Net quantity and cash flow of the fills of a history.\<close>

fun net_filled :: "nat \<Rightarrow> risk_event list \<Rightarrow> int" where
  "net_filled i [] = 0"
| "net_filled i (Fill j b q p # es) = (if unat j = i then signed_qty b q else 0) + net_filled i es"
| "net_filled i (e # es) = net_filled i es"

fun cash_flow :: "risk_event list \<Rightarrow> int" where
  "cash_flow [] = 0"
| "cash_flow (Fill j b q p # es) = cash_flow es - uint p * signed_qty b q"
| "cash_flow (e # es) = cash_flow es"

lemma check_order_frame:
  "check_order tsc a r = Some (safe, r') \<Longrightarrow>
    rm_positions r' = rm_positions r \<and> rm_realized_pnl r' = rm_realized_pnl r \<and> rm_kill_switch r' = rm_kill_switch r"
  by (auto simp: check_order_def count_message_def Let_def split: if_splits Option.bind_splits)

lemma risk_run_ledger:
  assumes "list_all event_ok es" "risk_run es r = Some (acc, r')"
  shows "rm_positions r' i = rm_positions r i + word_of_int (net_filled i es) \<and>
    rm_realized_pnl r' = rm_realized_pnl r + word_of_int (cash_flow es)"
  using assms
proof (induction es r arbitrary: acc rule: risk_run.induct)
  case (2 tsc a es r)
  then obtain safe r1 acc1 where c: "check_order tsc a r = Some (safe, r1)" "risk_run es r1 = Some (acc1, r')"
    by (auto split: Option.bind_splits)
  then show ?case using 2(1) [OF c(1) refl _ c(2)] 2(2) check_order_frame [OF c(1)] by simp
next
  case (3 j b q p es r)
  then have e: "unat j < NUM_INSTRUMENTS" "uint p * uint q < 2 ^ 63" by simp_all
  note fill = on_fill_eq [OF e, of b r]
  have "risk_run es (the (on_fill j b q p r)) = Some (acc, r')" using 3(3) by (simp add: fill)
  then show ?case using 3(1) [of "the (on_fill j b q p r)"] 3(2) by (simp add: fill)
next
  case (4 es r)
  then show ?case by (simp add: trigger_kill_switch_def)
qed simp_all

lemma net_filled_bound: "\<bar>net_filled i es\<bar> \<le> filled es"
proof (induction es rule: filled.induct)
  case (2 j b q p es)
  have "\<bar>signed_qty b q\<bar> = uint q" "0 \<le> uint q" by (simp_all add: signed_qty_def)
  then have "\<bar>(if unat j = i then signed_qty b q else 0)\<bar> \<le> uint q" by simp
  then show ?case using 2 unfolding net_filled.simps filled.simps by linarith
qed simp_all

lemma risk_init_bounded: "bounded_positions 0 risk_init"
  by (simp add: bounded_positions_def risk_init_def)

lemma risk_run_init:
  assumes "risk_input_ok es"
  shows "\<exists>acc r'. risk_run es risk_init = Some (acc, r') \<and>
    (\<forall>x \<in> set acc. na_is_cancel (snd x) \<or> na_quantity (snd x) \<le> MAX_ORDER_QTY) \<and>
    (\<forall>s. accepted_in s acc \<le> 5000) \<and>
    (\<forall>i < NUM_INSTRUMENTS. sint (rm_positions r' i) = net_filled i es)"
proof -
  have ok: "list_all event_ok es" "filled es < 2 ^ 31 - 1000" using assms by (simp_all add: risk_input_ok_def)
  obtain acc r' where run: "risk_run es risk_init = Some (acc, r')"
    "\<forall>x \<in> set acc. na_is_cancel (snd x) \<or> na_quantity (snd x) \<le> MAX_ORDER_QTY"
    "\<And>s. accepted_in s acc \<le> allowance risk_init s"
    using risk_run_ok [OF risk_init_bounded, of es] assms
    by (auto simp: risk_input_ok_def) (auto simp: risk_init_def)
  have "accepted_in s acc \<le> 5000" for s
    using run(3) [of s] by (auto simp: allowance_def split: if_splits)
  moreover have "sint (rm_positions r' i) = net_filled i es" for i
    using risk_run_ledger [OF ok(1) run(1), of i] sint_in_range [of "net_filled i es"]
      net_filled_bound [of i es] ok(2) by (simp add: risk_init_def)
  ultimately show ?thesis using run(1,2) by auto
qed

section \<open>Properties\<close>

text \<open>
  C23. The risk gate over a whole session: for every history of checks, fills and kill-switch
  requests with instruments in range, a time stamp counter that does not run backwards and fills
  that fit the signed counters, every check returns without overflow; every accepted new order
  has at most 1000 shares; at most 5000 new orders are accepted in any one second; and every
  position equals the net of the confirmed fills.
\<close>
theorem risk_gate_sound:
  assumes "risk_input_ok es"
  shows "\<exists>acc r'. risk_run es risk_init = Some (acc, r') \<and>
    (\<forall>x \<in> set acc. na_is_cancel (snd x) \<or> unat (na_quantity (snd x)) \<le> 1000) \<and>
    (\<forall>s. accepted_in s acc \<le> 5000) \<and>
    (\<forall>i < 1000. position (word_of_nat i) r' = Some (net_filled i es))"
proof -
  have "unat (word_of_nat i :: u16) = i" if "i < 1000" for i using that by (simp add: unat_of_nat)
  then show ?thesis
    using risk_run_init [OF assms]
    by (fastforce simp: position_in NUM_INSTRUMENTS_def MAX_ORDER_QTY_def word_le_nat_alt)
qed

definition sample_action :: "u64 \<Rightarrow> u32 \<Rightarrow> bool \<Rightarrow> bool \<Rightarrow> NormalizedOrderAction" where
  "sample_action oid q buy cancel = \<lparr>na_internal_order_id = oid, na_instrument_id = 3, na_price = 100, na_quantity = q,
     na_is_buy = buy, na_is_cancel = cancel, na_t1_exchange_send = 0, na_t2_trading_recv = 0, na_t3_trading_enq = 0\<rparr>"

definition sample_session :: "risk_event list" where
  "sample_session = [Check 0 (sample_action 1 900 True False), Fill 3 True 900 100,
     Check 1 (sample_action 2 1001 True False), Kill, Check 2 (sample_action 3 1 False False)]"

lemma sample_session_ok: "risk_input_ok sample_session"
  by (simp add: risk_input_ok_def sample_session_def sample_action_def NUM_INSTRUMENTS_def get_time_seconds_def)

text \<open>The first order is accepted, the oversized one and the one after the kill switch are not.\<close>
theorem risk_gate_sound_witness:
  "\<exists>acc r'. risk_run sample_session risk_init = Some (acc, r') \<and> acc = [(0, sample_action 1 900 True False)] \<and>
    (\<forall>x \<in> set acc. na_is_cancel (snd x) \<or> unat (na_quantity (snd x)) \<le> 1000) \<and>
    (\<forall>s. accepted_in s acc \<le> 5000) \<and> position 3 r' = Some 900"
proof -
  have "\<exists>r'. risk_run sample_session risk_init = Some ([(0, sample_action 1 900 True False)], r')"
    by (simp add: sample_session_def sample_action_def risk_init_def check_order_def inventory_ok_def position_def
        arr_get_def arr_set_def checked_int_def on_fill_def NUM_INSTRUMENTS_def MAX_ORDER_QTY_def MAX_POSITION_def
        count_message_def get_time_seconds_def MSG_RATE_LIMIT_PER_SEC_def trigger_kill_switch_def Let_def)
  moreover have "net_filled 3 sample_session = 900"
    by (simp add: sample_session_def signed_qty_def)
  moreover have three: "(3 :: nat) < 1000" by simp
  ultimately show ?thesis
    using risk_gate_sound [OF sample_session_ok] by (metis Pair_inject of_nat_numeral option.inject)
qed

text \<open>
  The decision of one check against the confirmed ledger: after any such history, a check of
  an action returns, and it is accepted exactly when the kill switch is off and the action is a
  cancel, or is at most 1000 shares, would leave the net filled position of its instrument
  within 10000 on the side it increases, and is among the first 5000 counted in its second.
\<close>
theorem check_order_decides:
  assumes "risk_input_ok es" "risk_run es risk_init = Some (acc, r)"
    and "unat (na_instrument_id a) < NUM_INSTRUMENTS"
  shows "\<exists>safe r'. check_order tsc a r = Some (safe, r') \<and>
    (safe \<longleftrightarrow> \<not> kill_switch_engaged r \<and> (na_is_cancel a \<or>
       na_quantity a \<le> MAX_ORDER_QTY \<and> within_limit a (net_filled (unat (na_instrument_id a)) es) \<and>
       rm_msg_count (count_message tsc r) \<le> MSG_RATE_LIMIT_PER_SEC))"
proof -
  define i where "i = unat (na_instrument_id a)"
  have pos: "sint (rm_positions r i) = net_filled i es"
    using risk_run_init [OF assms(1)] assms(2,3) by (auto simp: i_def)
  have "sane_position (net_filled i es)"
    using net_filled_bound [of i es] assms(1) by (auto simp: risk_input_ok_def sane_position_def)
  then show ?thesis
    using check_order_eq [OF assms(3), of r tsc, folded i_def] pos
    by (auto simp: kill_switch_engaged_def Let_def i_def)
qed

theorem check_order_decides_witness:
  "\<exists>safe r'. check_order 7 (sample_action 9 5 True False) risk_init = Some (safe, r') \<and> safe"
  using check_order_decides [of "[]" "[]" risk_init "sample_action 9 5 True False" 7]
  by (simp add: risk_input_ok_def sample_action_def NUM_INSTRUMENTS_def risk_init_def kill_switch_engaged_def
      MAX_ORDER_QTY_def within_limit_def position_after_def MAX_POSITION_def count_message_def
      get_time_seconds_def MSG_RATE_LIMIT_PER_SEC_def Let_def)

text \<open>
  The kill switch is final: what a history accepts after the switch is engaged is nothing,
  so the orders accepted by the whole history are those accepted before it, cancels included.
\<close>
theorem kill_switch_final:
  assumes "risk_input_ok (xs @ Kill # ys)"
  shows "\<exists>acc r r'. risk_run xs risk_init = Some (acc, r) \<and>
    risk_run (xs @ Kill # ys) risk_init = Some (acc, r') \<and> kill_switch_engaged r'"
proof -
  obtain r1 r' acc1 acc2 where r1: "risk_run xs risk_init = Some (acc1, r1)"
    "risk_run ys (trigger_kill_switch r1) = Some (acc2, r')"
    "risk_run (xs @ Kill # ys) risk_init = Some (acc1 @ acc2, r')"
    using risk_run_init [OF assms] by (auto simp: risk_run_append split: Option.bind_splits)
  then show ?thesis
    using risk_run_killed [OF _ r1(2)] risk_run_keeps_kill [OF _ r1(2)]
    by (auto simp: trigger_kill_switch_def kill_switch_engaged_def)
qed

theorem kill_switch_final_witness:
  "\<exists>acc r r'. risk_run (take 3 sample_session) risk_init = Some (acc, r) \<and>
    risk_run sample_session risk_init = Some (acc, r') \<and> kill_switch_engaged r'"
proof -
  have "sample_session = take 3 sample_session @ Kill # drop 4 sample_session"
    by (simp add: sample_session_def)
  then show ?thesis
    using kill_switch_final [of "take 3 sample_session" "drop 4 sample_session"] sample_session_ok by simp
qed

end
