(* ===== verification/Firm_Exec.thy ===== *)
theory Firm_Exec
  imports Firm_Risk
begin

text \<open>
  The firm's execution engine (\<open>execution/execution_engine.h\<close>): the flat table of live orders,
  the acknowledgement counters, the dispatch of an action to the connector, and the handling of
  an execution report.

  The connector is an interface (\<open>IExchangeConnector\<close>): its \<open>send_order\<close> is an argument
  \<open>send\<close> of the dispatch, on the connector's own state. The table's plain fields are not
  initialised by the constructor, so the initial table takes their values as an argument.

  The reference is a ledger: which orders are open with how many shares, and which fills were
  booked.
\<close>

section \<open>State and operations\<close>

definition MAX_LIVE_ORDERS :: nat where
  "MAX_LIVE_ORDERS = 1000000"

record TrackedOrder =
  tr_instrument_id :: u16
  tr_is_buy :: bool
  tr_remaining_qty :: u32
  tr_is_active :: bool

record ExecutionEngine =
  ee_order_tracker :: "nat \<Rightarrow> TrackedOrder"
  ee_orders_acked :: u64
  ee_in_flight :: u64

definition exec_init :: "(nat \<Rightarrow> TrackedOrder) \<Rightarrow> ExecutionEngine" where
  "exec_init raw = \<lparr>ee_order_tracker = (\<lambda>i. (raw i)\<lparr>tr_is_active := False\<rparr>), ee_orders_acked = 0, ee_in_flight = 0\<rparr>"

definition on_execution_report ::
  "u64 \<Rightarrow> u32 \<Rightarrow> u32 \<Rightarrow> ExecutionEngine \<times> RiskManager \<Rightarrow> (ExecutionEngine \<times> RiskManager) option" where
  "on_execution_report order_id filled_qty price = (\<lambda>(e, r).
     let i = unat order_id in
     if i < MAX_LIVE_ORDERS \<and> tr_is_active (ee_order_tracker e i) then do {
       track \<leftarrow> arr_get MAX_LIVE_ORDERS (ee_order_tracker e) i;
       r' \<leftarrow> on_fill (tr_instrument_id track) (tr_is_buy track) filled_qty price r;
       let e = e\<lparr>ee_orders_acked := ee_orders_acked e + 1\<rparr>;
       if filled_qty \<ge> tr_remaining_qty track then do {
         t \<leftarrow> arr_set MAX_LIVE_ORDERS (ee_order_tracker e) i (track\<lparr>tr_remaining_qty := 0, tr_is_active := False\<rparr>);
         Some (e\<lparr>ee_order_tracker := t, ee_in_flight := ee_in_flight e - 1\<rparr>, r')
       } else do {
         t \<leftarrow> arr_set MAX_LIVE_ORDERS (ee_order_tracker e) i
                (track\<lparr>tr_remaining_qty := tr_remaining_qty track - filled_qty\<rparr>);
         Some (e\<lparr>ee_order_tracker := t\<rparr>, r')
       }
     } else Some (e, r))"

definition track_order :: "NormalizedOrderAction \<Rightarrow> ExecutionEngine \<Rightarrow> ExecutionEngine option" where
  "track_order action e =
     (if \<not> na_is_cancel action \<and> unat (na_internal_order_id action) < MAX_LIVE_ORDERS then do {
        t \<leftarrow> arr_set MAX_LIVE_ORDERS (ee_order_tracker e) (unat (na_internal_order_id action))
               \<lparr>tr_instrument_id = na_instrument_id action, tr_is_buy = na_is_buy action,
                tr_remaining_qty = na_quantity action, tr_is_active = True\<rparr>;
        Some (e\<lparr>ee_order_tracker := t, ee_in_flight := ee_in_flight e + 1\<rparr>)
      } else Some e)"

definition execute_action ::
  "(NormalizedOrderAction \<Rightarrow> 'c \<Rightarrow> 'c option) \<Rightarrow> NormalizedOrderAction \<Rightarrow>
   ExecutionEngine \<times> 'c \<Rightarrow> (ExecutionEngine \<times> 'c) option" where
  "execute_action send action = (\<lambda>(e, c). do {
     e' \<leftarrow> track_order action e;
     c' \<leftarrow> send action c;
     Some (e', c')
   })"

definition orders_acked :: "ExecutionEngine \<Rightarrow> u64" where
  "orders_acked e = ee_orders_acked e"

definition in_flight :: "ExecutionEngine \<Rightarrow> u64" where
  "in_flight e = ee_in_flight e"

section \<open>The ledger\<close>

type_synonym open_order = "u16 \<times> bool \<times> nat"

record ledger =
  lg_open :: "nat \<rightharpoonup> open_order"
  lg_fills :: "(u16 \<times> bool \<times> u32 \<times> u32) list"

definition ledger_init :: ledger where
  "ledger_init = \<lparr>lg_open = Map.empty, lg_fills = []\<rparr>"

definition ledger_send :: "NormalizedOrderAction \<Rightarrow> ledger \<Rightarrow> ledger" where
  "ledger_send a l = (if \<not> na_is_cancel a \<and> unat (na_internal_order_id a) < MAX_LIVE_ORDERS
     then l\<lparr>lg_open := (lg_open l)(unat (na_internal_order_id a) \<mapsto>
       (na_instrument_id a, na_is_buy a, unat (na_quantity a)))\<rparr> else l)"

definition ledger_report :: "u64 \<Rightarrow> u32 \<Rightarrow> u32 \<Rightarrow> ledger \<Rightarrow> ledger" where
  "ledger_report order_id qty price l = (case lg_open l (unat order_id) of
     None \<Rightarrow> l
   | Some (i, b, n) \<Rightarrow> l\<lparr>lg_fills := lg_fills l @ [(i, b, qty, price)],
       lg_open := (lg_open l)(unat order_id := if n \<le> unat qty then None else Some (i, b, n - unat qty))\<rparr>)"

fun net_position :: "nat \<Rightarrow> (u16 \<times> bool \<times> u32 \<times> u32) list \<Rightarrow> int" where
  "net_position i [] = 0"
| "net_position i ((j, b, q, p) # fs) = (if unat j = i then signed_qty b q else 0) + net_position i fs"

fun net_cash :: "(u16 \<times> bool \<times> u32 \<times> u32) list \<Rightarrow> int" where
  "net_cash [] = 0"
| "net_cash ((j, b, q, p) # fs) = net_cash fs - uint p * signed_qty b q"

lemma net_position_snoc: "net_position i (fs @ [(j, b, q, p)]) = net_position i fs + (if unat j = i then signed_qty b q else 0)"
  by (induction i fs rule: net_position.induct) auto

lemma net_cash_snoc: "net_cash (fs @ [(j, b, q, p)]) = net_cash fs - uint p * signed_qty b q"
  by (induction fs rule: net_cash.induct) auto

text \<open>The table and the counters stand for the ledger.\<close>

definition exec_rep :: "ledger \<Rightarrow> ExecutionEngine \<Rightarrow> bool" where
  "exec_rep l e \<longleftrightarrow>
     (\<forall>i < MAX_LIVE_ORDERS. case lg_open l i of
        None \<Rightarrow> \<not> tr_is_active (ee_order_tracker e i)
      | Some (j, b, n) \<Rightarrow> tr_is_active (ee_order_tracker e i) \<and> tr_instrument_id (ee_order_tracker e i) = j \<and>
          tr_is_buy (ee_order_tracker e i) = b \<and> unat (tr_remaining_qty (ee_order_tracker e i)) = n) \<and>
     dom (lg_open l) \<subseteq> {..< MAX_LIVE_ORDERS} \<and>
     ee_in_flight e = word_of_nat (card (dom (lg_open l))) \<and>
     ee_orders_acked e = word_of_nat (length (lg_fills l))"

definition risk_rep :: "ledger \<Rightarrow> RiskManager \<Rightarrow> bool" where
  "risk_rep l r \<longleftrightarrow> (\<forall>i < NUM_INSTRUMENTS. rm_positions r i = word_of_int (net_position i (lg_fills l))) \<and>
     rm_realized_pnl r = word_of_int (net_cash (lg_fills l))"

definition open_in_range :: "ledger \<Rightarrow> bool" where
  "open_in_range l \<longleftrightarrow> (\<forall>i j b n. lg_open l i = Some (j, b, n) \<longrightarrow> unat j < NUM_INSTRUMENTS)"

lemma exec_repD:
  assumes "exec_rep l e" "i < MAX_LIVE_ORDERS"
  shows "lg_open l i = None \<Longrightarrow> \<not> tr_is_active (ee_order_tracker e i)"
    and "lg_open l i = Some (j, b, n) \<Longrightarrow> tr_is_active (ee_order_tracker e i) \<and>
      tr_instrument_id (ee_order_tracker e i) = j \<and> tr_is_buy (ee_order_tracker e i) = b \<and>
      unat (tr_remaining_qty (ee_order_tracker e i)) = n"
  using assms by (auto simp: exec_rep_def dest!: spec [of _ i])

lemma exec_rep_outside: "exec_rep l e \<Longrightarrow> MAX_LIVE_ORDERS \<le> i \<Longrightarrow> lg_open l i = None"
  unfolding exec_rep_def by (metis domIff lessThan_iff not_less subsetD)

lemma exec_rep_finite: "exec_rep l e \<Longrightarrow> finite (dom (lg_open l))"
  by (auto simp: exec_rep_def intro: finite_subset)

text \<open>Changing one slot together with its ledger entry.\<close>

lemma exec_rep_upd:
  assumes rep: "exec_rep l e" and i: "i < MAX_LIVE_ORDERS"
    and slot: "case v of None \<Rightarrow> \<not> tr_is_active t | Some (j, b, n) \<Rightarrow>
      tr_is_active t \<and> tr_instrument_id t = j \<and> tr_is_buy t = b \<and> unat (tr_remaining_qty t) = n"
    and flight: "f = word_of_nat (card (dom ((lg_open l)(i := v))))"
    and acked: "c = word_of_nat (length fs)"
  shows "exec_rep (l\<lparr>lg_fills := fs, lg_open := (lg_open l)(i := v)\<rparr>)
    (e\<lparr>ee_orders_acked := c, ee_order_tracker := (ee_order_tracker e)(i := t), ee_in_flight := f\<rparr>)"
  using rep i slot unfolding exec_rep_def flight acked by (auto split: option.splits)

lemma word_of_nat_Suc_card: "finite A \<Longrightarrow> i \<notin> A \<Longrightarrow> (word_of_nat (card (insert i A)) :: 'a::len word) = word_of_nat (card A) + 1"
  by simp

lemma word_of_nat_remove_card: "finite A \<Longrightarrow> i \<in> A \<Longrightarrow> (word_of_nat (card (A - {i})) :: 'a::len word) = word_of_nat (card A) - 1"
  using card_Suc_Diff1 [of A i] by (metis add_diff_cancel_right' of_nat_Suc add.commute)

lemma track_order_rep:
  assumes rep: "exec_rep l e" and fresh: "na_is_cancel a \<or> unat (na_internal_order_id a) \<notin> dom (lg_open l)"
  shows "\<exists>e'. track_order a e = Some e' \<and> exec_rep (ledger_send a l) e'"
proof (cases "\<not> na_is_cancel a \<and> unat (na_internal_order_id a) < MAX_LIVE_ORDERS")
  case True
  define i where "i = unat (na_internal_order_id a)"
  let ?t = "\<lparr>tr_instrument_id = na_instrument_id a, tr_is_buy = na_is_buy a,
    tr_remaining_qty = na_quantity a, tr_is_active = True\<rparr>"
  let ?v = "(na_instrument_id a, na_is_buy a, unat (na_quantity a))"
  have i: "i < MAX_LIVE_ORDERS" "i \<notin> dom (lg_open l)" using True fresh by (auto simp: i_def)
  have "exec_rep (l\<lparr>lg_fills := lg_fills l, lg_open := (lg_open l)(i := Some ?v)\<rparr>)
    (e\<lparr>ee_orders_acked := ee_orders_acked e, ee_order_tracker := (ee_order_tracker e)(i := ?t),
       ee_in_flight := ee_in_flight e + 1\<rparr>)"
    by (rule exec_rep_upd [OF rep i(1)])
      (use rep i(2) exec_rep_finite [OF rep] in \<open>simp_all add: exec_rep_def\<close>)
  then show ?thesis
    using True by (simp add: track_order_def ledger_send_def arr_set_in i_def)
qed (use rep in \<open>auto simp: track_order_def ledger_send_def\<close>)

text \<open>What a report does to the slot and the counter of the order it names.\<close>

definition reported_slot :: "u32 \<Rightarrow> TrackedOrder \<Rightarrow> TrackedOrder" where
  "reported_slot qty t = (if tr_remaining_qty t \<le> qty then t\<lparr>tr_remaining_qty := 0, tr_is_active := False\<rparr>
     else t\<lparr>tr_remaining_qty := tr_remaining_qty t - qty\<rparr>)"

lemma report_run:
  assumes "unat order_id = i" "i < MAX_LIVE_ORDERS" "tr_is_active (ee_order_tracker e i)"
    and "on_fill (tr_instrument_id (ee_order_tracker e i)) (tr_is_buy (ee_order_tracker e i)) qty price r = Some r'"
  shows "on_execution_report order_id qty price (e, r) = Some (e\<lparr>ee_orders_acked := ee_orders_acked e + 1,
    ee_order_tracker := (ee_order_tracker e)(i := reported_slot qty (ee_order_tracker e i)),
    ee_in_flight := (if tr_remaining_qty (ee_order_tracker e i) \<le> qty then ee_in_flight e - 1 else ee_in_flight e)\<rparr>, r')"
  using assms by (auto simp: on_execution_report_def Let_def arr_get_in arr_set_in reported_slot_def)

lemma report_exec_rep:
  fixes qty :: u32
  assumes rep: "exec_rep l e" and o: "lg_open l i = Some (j, b, n)"
  defines "v \<equiv> (if n \<le> unat qty then None else Some (j, b, n - unat qty))"
  shows "exec_rep (l\<lparr>lg_fills := lg_fills l @ [x], lg_open := (lg_open l)(i := v)\<rparr>)
    (e\<lparr>ee_orders_acked := ee_orders_acked e + 1,
       ee_order_tracker := (ee_order_tracker e)(i := reported_slot qty (ee_order_tracker e i)),
       ee_in_flight := (if tr_remaining_qty (ee_order_tracker e i) \<le> qty then ee_in_flight e - 1 else ee_in_flight e)\<rparr>)"
proof -
  have i: "i < MAX_LIVE_ORDERS" using exec_rep_outside [OF rep, of i] o by (cases "i < MAX_LIVE_ORDERS") auto
  note slot = exec_repD(2) [OF rep i o]
  have mem: "i \<in> dom (lg_open l)" using o by auto
  then have dom: "dom ((lg_open l)(i := v)) = (if n \<le> unat qty then dom (lg_open l) - {i} else dom (lg_open l))"
    by (auto simp: v_def)
  show ?thesis
  proof (rule exec_rep_upd [OF rep i])
    show "case v of None \<Rightarrow> \<not> tr_is_active (reported_slot qty (ee_order_tracker e i)) | Some (j, b, n) \<Rightarrow>
      tr_is_active (reported_slot qty (ee_order_tracker e i)) \<and> tr_instrument_id (reported_slot qty (ee_order_tracker e i)) = j \<and>
      tr_is_buy (reported_slot qty (ee_order_tracker e i)) = b \<and>
      unat (tr_remaining_qty (reported_slot qty (ee_order_tracker e i))) = n"
      using slot by (auto simp: v_def reported_slot_def unat_sub_if' word_le_nat_alt)
    show "(if tr_remaining_qty (ee_order_tracker e i) \<le> qty then ee_in_flight e - 1 else ee_in_flight e) =
        word_of_nat (card (dom ((lg_open l)(i := v))))"
      using word_of_nat_remove_card [OF exec_rep_finite [OF rep] mem, where 'a = 64] rep slot
      unfolding dom by (simp add: exec_rep_def word_le_nat_alt)
    show "ee_orders_acked e + 1 = word_of_nat (length (lg_fills l @ [x]))"
      using rep by (simp add: exec_rep_def)
  qed
qed

lemma report_rep:
  assumes rep: "exec_rep l e" and risk: "risk_rep l r" and range: "open_in_range l"
    and fits: "uint price * uint qty < 2 ^ 63"
  shows "\<exists>e' r'. on_execution_report order_id qty price (e, r) = Some (e', r') \<and>
    exec_rep (ledger_report order_id qty price l) e' \<and> risk_rep (ledger_report order_id qty price l) r' \<and>
    r' = r\<lparr>rm_positions := rm_positions r', rm_realized_pnl := rm_realized_pnl r'\<rparr>"
proof (cases "lg_open l (unat order_id)")
  case None
  then have "\<not> (unat order_id < MAX_LIVE_ORDERS \<and> tr_is_active (ee_order_tracker e (unat order_id)))"
    using exec_repD(1) [OF rep] by auto
  then show ?thesis using None rep risk by (auto simp: on_execution_report_def ledger_report_def)
next
  case (Some x)
  obtain j b n where x: "x = (j, b, n)" by (cases x) auto
  define i where "i = unat order_id"
  note o = Some [unfolded x, folded i_def]
  have i: "i < MAX_LIVE_ORDERS" using exec_rep_outside [OF rep, of i] o by (cases "i < MAX_LIVE_ORDERS") auto
  note slot = exec_repD(2) [OF rep i o]
  have j: "unat j < NUM_INSTRUMENTS" using range o by (auto simp: open_in_range_def)
  define r' where "r' = the (on_fill j b qty price r)"
  have fill: "on_fill j b qty price r = Some r'" by (simp add: r'_def on_fill_eq [OF j fits])
  have ledger: "ledger_report order_id qty price l = l\<lparr>lg_fills := lg_fills l @ [(j, b, qty, price)],
      lg_open := (lg_open l)(i := if n \<le> unat qty then None else Some (j, b, n - unat qty))\<rparr>"
    using o by (simp add: ledger_report_def i_def)
  have "risk_rep (ledger_report order_id qty price l) r'"
    using risk j unfolding ledger r'_def on_fill_eq [OF j fits] risk_rep_def
    by (auto simp: net_position_snoc net_cash_snoc)
  moreover have "r' = r\<lparr>rm_positions := rm_positions r', rm_realized_pnl := rm_realized_pnl r'\<rparr>"
    unfolding r'_def on_fill_eq [OF j fits] by simp
  ultimately show ?thesis
    using report_run [OF i_def [symmetric] i, of e qty price r r'] slot fill report_exec_rep [OF rep o, of qty]
    unfolding ledger by auto
qed

section \<open>Runs\<close>

text \<open>
  Dispatches by the market-data thread and reports on the receive thread, in the order they take
  effect. \<open>send_all\<close> is what the connector makes of the dispatched actions.
\<close>

datatype exec_event = Dispatch NormalizedOrderAction | Report u64 u32 u32

fun exec_run :: "(NormalizedOrderAction \<Rightarrow> 'c \<Rightarrow> 'c option) \<Rightarrow> exec_event list \<Rightarrow>
    ExecutionEngine \<times> RiskManager \<times> 'c \<Rightarrow> (ExecutionEngine \<times> RiskManager \<times> 'c) option" where
  "exec_run send [] s = Some s"
| "exec_run send (Dispatch a # es) (e, r, c) = do {
     (e', c') \<leftarrow> execute_action send a (e, c); exec_run send es (e', r, c') }"
| "exec_run send (Report i q p # es) (e, r, c) = do {
     (e', r') \<leftarrow> on_execution_report i q p (e, r); exec_run send es (e', r', c) }"

fun send_all :: "(NormalizedOrderAction \<Rightarrow> 'c \<Rightarrow> 'c option) \<Rightarrow> NormalizedOrderAction list \<Rightarrow> 'c \<Rightarrow> 'c option" where
  "send_all send [] c = Some c"
| "send_all send (a # as) c = do { c' \<leftarrow> send a c; send_all send as c' }"

fun dispatched :: "exec_event list \<Rightarrow> NormalizedOrderAction list" where
  "dispatched [] = []"
| "dispatched (Dispatch a # es) = a # dispatched es"
| "dispatched (Report i q p # es) = dispatched es"

fun ledger_event :: "exec_event \<Rightarrow> ledger \<Rightarrow> ledger" where
  "ledger_event (Dispatch a) l = ledger_send a l"
| "ledger_event (Report i q p) l = ledger_report i q p l"

definition ledger_run :: "exec_event list \<Rightarrow> ledger" where
  "ledger_run es = fold ledger_event es ledger_init"

text \<open>
  What the engine is used for: instruments in range, notionals that fit 63 bits, and identifiers
  of new orders that are not open.
\<close>

fun exec_event_ok :: "ledger \<Rightarrow> exec_event \<Rightarrow> bool" where
  "exec_event_ok l (Dispatch a) = (unat (na_instrument_id a) < NUM_INSTRUMENTS \<and>
     (na_is_cancel a \<or> lg_open l (unat (na_internal_order_id a)) = None))"
| "exec_event_ok l (Report i q p) = (uint p * uint q < 2 ^ 63)"

fun exec_events_ok :: "ledger \<Rightarrow> exec_event list \<Rightarrow> bool" where
  "exec_events_ok l [] = True"
| "exec_events_ok l (x # es) = (exec_event_ok l x \<and> exec_events_ok (ledger_event x l) es)"

lemma open_in_range_event: "open_in_range l \<Longrightarrow> exec_event_ok l x \<Longrightarrow> open_in_range (ledger_event x l)"
proof (cases x)
  case (Dispatch a)
  then show "open_in_range l \<Longrightarrow> exec_event_ok l x \<Longrightarrow> open_in_range (ledger_event x l)"
    unfolding open_in_range_def by (auto simp: ledger_send_def)
next
  case (Report i q p)
  then show "open_in_range l \<Longrightarrow> exec_event_ok l x \<Longrightarrow> open_in_range (ledger_event x l)"
    unfolding open_in_range_def by (auto simp: ledger_report_def split: option.splits if_splits)
qed

lemma exec_run_rep:
  assumes "exec_rep l e" "risk_rep l r" "open_in_range l" "exec_events_ok l es"
    and "send_all send (dispatched es) c = Some c'"
  shows "\<exists>e' r'. exec_run send es (e, r, c) = Some (e', r', c') \<and>
    exec_rep (fold ledger_event es l) e' \<and> risk_rep (fold ledger_event es l) r'"
  using assms
proof (induction es arbitrary: l e r c)
  case (Cons x es)
  note range = open_in_range_event [OF Cons.prems(3), of x]
  show ?case
  proof (cases x)
    case (Dispatch a)
    obtain e1 where e1: "track_order a e = Some e1" "exec_rep (ledger_send a l) e1"
      using track_order_rep [OF Cons.prems(1), of a] Cons.prems(4) Dispatch by auto
    moreover have "risk_rep (ledger_send a l) r"
      using Cons.prems(2) by (simp add: risk_rep_def ledger_send_def)
    ultimately show ?thesis
      using Cons.IH [OF e1(2)] Cons.prems Dispatch range
      by (auto simp: execute_action_def split: Option.bind_splits)
  next
    case (Report i q p)
    then obtain e1 r1 where "on_execution_report i q p (e, r) = Some (e1, r1)"
      "exec_rep (ledger_report i q p l) e1" "risk_rep (ledger_report i q p l) r1"
      using report_rep [OF Cons.prems(1-3), of p q i] Cons.prems(4) by auto
    then show ?thesis using Cons.IH [of "ledger_report i q p l" e1 r1] Cons.prems Report range by auto
  qed
qed simp

lemma exec_init_rep: "exec_rep ledger_init (exec_init raw)" "risk_rep ledger_init risk_init" "open_in_range ledger_init"
  by (simp_all add: exec_rep_def exec_init_def risk_rep_def risk_init_def ledger_init_def open_in_range_def)

lemma exec_rep_in_flight:
  assumes "exec_rep l e"
  shows "unat (in_flight e) = card (dom (lg_open l))"
proof -
  have "card (dom (lg_open l)) \<le> card {..< MAX_LIVE_ORDERS}"
    using assms by (intro card_mono) (auto simp: exec_rep_def)
  then show ?thesis
    using assms by (simp add: exec_rep_def in_flight_def MAX_LIVE_ORDERS_def unat_of_nat)
qed

section \<open>Properties\<close>

text \<open>
  C24. The execution engine keeps the ledger: for every sequence of dispatches and execution
  reports in which a new order never reuses an identifier that is still open, every step
  returns, the connector is handed exactly the dispatched actions in their order, the in-flight
  counter equals the number of open orders (a partial fill keeps an order open, a full fill
  closes it), the acknowledgement counter counts the reports that named an open order, and the
  positions and the cash flow are the net of exactly these fills; reports for other orders
  change nothing.
\<close>
theorem execution_keeps_ledger:
  assumes "exec_events_ok ledger_init es" "send_all send (dispatched es) c = Some c'"
  shows "\<exists>e r. exec_run send es (exec_init raw, risk_init, c) = Some (e, r, c') \<and>
    unat (in_flight e) = card (dom (lg_open (ledger_run es))) \<and>
    orders_acked e = word_of_nat (length (lg_fills (ledger_run es))) \<and>
    (\<forall>i < NUM_INSTRUMENTS. rm_positions r i = word_of_int (net_position i (lg_fills (ledger_run es)))) \<and>
    rm_realized_pnl r = word_of_int (net_cash (lg_fills (ledger_run es)))"
proof -
  obtain e r where run: "exec_run send es (exec_init raw, risk_init, c) = Some (e, r, c')"
    "exec_rep (ledger_run es) e" "risk_rep (ledger_run es) r"
    using exec_run_rep [OF exec_init_rep assms, of raw] by (auto simp: ledger_run_def)
  then show ?thesis
    using exec_rep_in_flight [OF run(2)] by (auto simp: exec_rep_def risk_rep_def orders_acked_def)
qed

definition sample_flow :: "exec_event list" where
  "sample_flow = [Dispatch (sample_action 1 900 True False), Dispatch (sample_action 2 50 False False),
     Report 1 400 100, Report 2 50 101, Report 7 5 100]"

definition sample_slots :: "nat \<Rightarrow> TrackedOrder" where
  "sample_slots = (\<lambda>_. \<lparr>tr_instrument_id = 0, tr_is_buy = False, tr_remaining_qty = 0, tr_is_active = True\<rparr>)"

lemma sample_flow_ledger:
  "ledger_run sample_flow = \<lparr>lg_open = [1 \<mapsto> (3, True, 500)], lg_fills = [(3, True, 400, 100), (3, False, 50, 101)]\<rparr>"
  by (simp add: ledger_run_def sample_flow_def ledger_send_def ledger_report_def ledger_init_def sample_action_def
      MAX_LIVE_ORDERS_def fun_eq_iff)

text \<open>One order partly filled, one closed, one unknown report: one order in flight, net position 350.\<close>
theorem execution_keeps_ledger_witness:
  "\<exists>e r. exec_run (\<lambda>a c. Some (c @ [a])) sample_flow (exec_init sample_slots, risk_init, []) =
      Some (e, r, [sample_action 1 900 True False, sample_action 2 50 False False]) \<and>
    unat (in_flight e) = 1 \<and> orders_acked e = 2 \<and> sint (rm_positions r 3) = 350"
proof -
  have "exec_events_ok ledger_init sample_flow"
    by (simp add: sample_flow_def sample_action_def ledger_init_def ledger_send_def MAX_LIVE_ORDERS_def NUM_INSTRUMENTS_def)
  moreover have "send_all (\<lambda>a c. Some (c @ [a])) (dispatched sample_flow) [] =
      Some [sample_action 1 900 True False, sample_action 2 50 False False]"
    by (simp add: sample_flow_def)
  ultimately show ?thesis
    using execution_keeps_ledger [of sample_flow "\<lambda>a c. Some (c @ [a])" "[]" _ sample_slots]
    by (fastforce simp: sample_flow_ledger NUM_INSTRUMENTS_def signed_qty_def)
qed

end
