(* ===== verification/Firm_Book.thy ===== *)
theory Firm_Book
  imports Firm_Models
begin

text \<open>
  The firm's picture of the exchange's books (\<open>data/book_builder.h\<close>): aggregated quantity per
  price, held in flat arrays for the first 64 instruments (\<open>HotBook\<close>) and in sorted maps for
  the others (\<open>ColdBook\<close>).

  The sorted maps are \<open>boost::container::flat_map\<close>, which is not part of the sources: the
  cold book takes its operations as an argument, a record \<open>flat_map\<close>, and \<open>flat_map_laws\<close>
  states what the library documents about them. Everything proved of the cold books holds for
  any implementation that satisfies these laws.

  The reference is a plain depth function \<open>depth\<close> on natural numbers: adds increase a level,
  trades decrease it down to zero at most. Both kinds of book are shown to answer every
  \<open>get_snapshot\<close> with the best non-empty levels of the reference.
\<close>

section \<open>Hot books\<close>

definition MAX_PRICE_LEVELS :: nat where
  "MAX_PRICE_LEVELS = 100001"

record BookSnapshot =
  bs_best_bid :: u32
  bs_best_ask :: u32
  bs_bid_qty :: u32
  bs_ask_qty :: u32

record HotBook =
  hb_bids :: "nat \<Rightarrow> u32"
  hb_asks :: "nat \<Rightarrow> u32"
  hb_best_bid :: u32
  hb_best_ask :: u32

definition hot_init :: HotBook where
  "hot_init = \<lparr>hb_bids = (\<lambda>_. 0), hb_asks = (\<lambda>_. 0), hb_best_bid = 0,
     hb_best_ask = word_of_nat (MAX_PRICE_LEVELS - 1)\<rparr>"

text \<open>The two scans for the next non-empty level. Both end: the first counts down to zero, the second up to the last level.\<close>

function scan_bids :: "(nat \<Rightarrow> u32) \<Rightarrow> u32 \<Rightarrow> u32 option" where
  "scan_bids bids p =
     (if p > 0 then do {
        q \<leftarrow> arr_get MAX_PRICE_LEVELS bids (unat p);
        if q = 0 then scan_bids bids (p - 1) else Some p
      } else Some p)"
  by pat_completeness auto
termination
  by (relation "measure (unat \<circ> snd)") (auto simp: word_gt_0 unat_minus_one unat_gt_0)

function scan_asks :: "(nat \<Rightarrow> u32) \<Rightarrow> u32 \<Rightarrow> u32 option" where
  "scan_asks asks p =
     (if unat p < MAX_PRICE_LEVELS - 1 then do {
        q \<leftarrow> arr_get MAX_PRICE_LEVELS asks (unat p);
        if q = 0 then scan_asks asks (p + 1) else Some p
      } else Some p)"
  by pat_completeness auto
termination
  by (relation "measure (\<lambda>(_, p). MAX_PRICE_LEVELS - unat p)")
    (auto simp: MAX_PRICE_LEVELS_def unat_word_ariths)

text \<open>The quantity left after a trade: subtract, or clear the level when the trade is larger.\<close>

definition hot_reduce :: "u32 \<Rightarrow> u32 \<Rightarrow> u32" where
  "hot_reduce level quantity = (if level \<ge> quantity then level - quantity else 0)"

definition hot_process_bid :: "NormalizedTick \<Rightarrow> HotBook \<Rightarrow> HotBook option" where
  "hot_process_bid tick h = (let i = unat (nt_price tick) in
     if \<not> nt_is_trade tick then do {
       q \<leftarrow> arr_get MAX_PRICE_LEVELS (hb_bids h) i;
       bids \<leftarrow> arr_set MAX_PRICE_LEVELS (hb_bids h) i (q + nt_quantity tick);
       Some (h\<lparr>hb_bids := bids,
               hb_best_bid := if nt_price tick > ucast (hb_best_bid h)
                              then ucast (nt_price tick) else hb_best_bid h\<rparr>)
     } else do {
       q \<leftarrow> arr_get MAX_PRICE_LEVELS (hb_bids h) i;
       bids \<leftarrow> arr_set MAX_PRICE_LEVELS (hb_bids h) i (hot_reduce q (nt_quantity tick));
       if bids i = 0 \<and> nt_price tick = ucast (hb_best_bid h) then do {
         p \<leftarrow> scan_bids bids (hb_best_bid h);
         Some (h\<lparr>hb_bids := bids, hb_best_bid := p\<rparr>)
       } else Some (h\<lparr>hb_bids := bids\<rparr>)
     })"

definition hot_process_ask :: "NormalizedTick \<Rightarrow> HotBook \<Rightarrow> HotBook option" where
  "hot_process_ask tick h = (let i = unat (nt_price tick) in
     if \<not> nt_is_trade tick then do {
       q \<leftarrow> arr_get MAX_PRICE_LEVELS (hb_asks h) i;
       asks \<leftarrow> arr_set MAX_PRICE_LEVELS (hb_asks h) i (q + nt_quantity tick);
       Some (h\<lparr>hb_asks := asks,
               hb_best_ask := if nt_price tick < ucast (hb_best_ask h)
                              then ucast (nt_price tick) else hb_best_ask h\<rparr>)
     } else do {
       q \<leftarrow> arr_get MAX_PRICE_LEVELS (hb_asks h) i;
       asks \<leftarrow> arr_set MAX_PRICE_LEVELS (hb_asks h) i (hot_reduce q (nt_quantity tick));
       if asks i = 0 \<and> nt_price tick = ucast (hb_best_ask h) then do {
         p \<leftarrow> scan_asks asks (hb_best_ask h);
         Some (h\<lparr>hb_asks := asks, hb_best_ask := p\<rparr>)
       } else Some (h\<lparr>hb_asks := asks\<rparr>)
     })"

definition hot_process_tick :: "NormalizedTick \<Rightarrow> HotBook \<Rightarrow> HotBook option" where
  "hot_process_tick tick h =
     (if unat (nt_price tick) \<ge> MAX_PRICE_LEVELS then Some h
      else if nt_is_bid tick then hot_process_bid tick h
      else hot_process_ask tick h)"

definition hot_get_snapshot :: "HotBook \<Rightarrow> BookSnapshot option" where
  "hot_get_snapshot h = do {
     bq \<leftarrow> arr_get MAX_PRICE_LEVELS (hb_bids h) (unat (hb_best_bid h));
     aq \<leftarrow> arr_get MAX_PRICE_LEVELS (hb_asks h) (unat (hb_best_ask h));
     Some \<lparr>bs_best_bid = hb_best_bid h, bs_best_ask = hb_best_ask h, bs_bid_qty = bq, bs_ask_qty = aq\<rparr>
   }"

section \<open>Cold books\<close>

text \<open>
  What the cold book uses of \<open>flat_map\<close>: the empty map, \<open>find\<close>, assignment through
  \<open>operator[]\<close> or an iterator, \<open>erase\<close>, and the first element in the order of the map's
  comparator.
\<close>

record 'm flat_map =
  fm_empty :: 'm
  fm_find :: "'m \<Rightarrow> u32 \<Rightarrow> u32 option"
  fm_assign :: "'m \<Rightarrow> u32 \<Rightarrow> u32 \<Rightarrow> 'm"
  fm_erase :: "'m \<Rightarrow> u32 \<Rightarrow> 'm"
  fm_begin :: "'m \<Rightarrow> (u32 \<times> u32) option"

definition flat_map_laws :: "(u32 \<Rightarrow> u32 \<Rightarrow> bool) \<Rightarrow> 'm flat_map \<Rightarrow> bool" where
  "flat_map_laws before ops \<longleftrightarrow>
     fm_find ops (fm_empty ops) = Map.empty \<and>
     (\<forall>m k v. fm_find ops (fm_assign ops m k v) = (fm_find ops m)(k \<mapsto> v)) \<and>
     (\<forall>m k. fm_find ops (fm_erase ops m k) = (fm_find ops m)(k := None)) \<and>
     (\<forall>m. fm_begin ops m = None \<longleftrightarrow> fm_find ops m = Map.empty) \<and>
     (\<forall>m k v. fm_begin ops m = Some (k, v) \<longrightarrow>
        fm_find ops m k = Some v \<and> (\<forall>k' \<in> dom (fm_find ops m). k' = k \<or> before k k'))"

record 'm ColdBook =
  cb_bids :: 'm
  cb_asks :: 'm

definition cold_init :: "'m flat_map \<Rightarrow> 'm flat_map \<Rightarrow> 'm ColdBook" where
  "cold_init bo ao = \<lparr>cb_bids = fm_empty bo, cb_asks = fm_empty ao\<rparr>"

text \<open>One side of \<open>ColdBook::process_tick\<close>; \<open>operator[]\<close> inserts a zero for an absent key, and the 64-bit price is truncated to the 32-bit key.\<close>

definition cold_side :: "'m flat_map \<Rightarrow> NormalizedTick \<Rightarrow> 'm \<Rightarrow> 'm" where
  "cold_side ops tick m = (let k = ucast (nt_price tick) in
     if \<not> nt_is_trade tick then
       fm_assign ops m k ((case fm_find ops m k of None \<Rightarrow> 0 | Some v \<Rightarrow> v) + nt_quantity tick)
     else (case fm_find ops m k of
       None \<Rightarrow> m
     | Some v \<Rightarrow> if v > nt_quantity tick then fm_assign ops m k (v - nt_quantity tick)
                 else fm_erase ops m k))"

definition cold_process_tick ::
  "'m flat_map \<Rightarrow> 'm flat_map \<Rightarrow> NormalizedTick \<Rightarrow> 'm ColdBook \<Rightarrow> 'm ColdBook" where
  "cold_process_tick bo ao tick c =
     (if nt_is_bid tick then c\<lparr>cb_bids := cold_side bo tick (cb_bids c)\<rparr>
      else c\<lparr>cb_asks := cold_side ao tick (cb_asks c)\<rparr>)"

definition cold_get_snapshot :: "'m flat_map \<Rightarrow> 'm flat_map \<Rightarrow> 'm ColdBook \<Rightarrow> BookSnapshot" where
  "cold_get_snapshot bo ao c =
     \<lparr>bs_best_bid = (case fm_begin bo (cb_bids c) of None \<Rightarrow> 0 | Some (k, v) \<Rightarrow> k),
      bs_best_ask = (case fm_begin ao (cb_asks c) of
                       None \<Rightarrow> word_of_nat (MAX_PRICE_LEVELS - 1) | Some (k, v) \<Rightarrow> k),
      bs_bid_qty = (case fm_begin bo (cb_bids c) of None \<Rightarrow> 0 | Some (k, v) \<Rightarrow> v),
      bs_ask_qty = (case fm_begin ao (cb_asks c) of None \<Rightarrow> 0 | Some (k, v) \<Rightarrow> v)\<rparr>"

section \<open>The book builder\<close>

definition NUM_HOT :: nat where
  "NUM_HOT = 64"

record 'm BookBuilder =
  bb_hot :: "nat \<Rightarrow> HotBook"
  bb_cold :: "nat \<Rightarrow> 'm ColdBook"

definition builder_init :: "'m flat_map \<Rightarrow> 'm flat_map \<Rightarrow> 'm BookBuilder" where
  "builder_init bo ao = \<lparr>bb_hot = (\<lambda>_. hot_init), bb_cold = (\<lambda>_. cold_init bo ao)\<rparr>"

definition builder_process_tick ::
  "'m flat_map \<Rightarrow> 'm flat_map \<Rightarrow> NormalizedTick \<Rightarrow> 'm BookBuilder \<Rightarrow> 'm BookBuilder option" where
  "builder_process_tick bo ao tick b = (let i = unat (nt_instrument_id tick) in
     if i < NUM_HOT then do {
       h \<leftarrow> arr_get NUM_HOT (bb_hot b) i;
       h' \<leftarrow> hot_process_tick tick h;
       hot \<leftarrow> arr_set NUM_HOT (bb_hot b) i h';
       Some (b\<lparr>bb_hot := hot\<rparr>)
     } else if i < NUM_INSTRUMENTS then do {
       c \<leftarrow> arr_get (NUM_INSTRUMENTS - NUM_HOT) (bb_cold b) (i - NUM_HOT);
       cold \<leftarrow> arr_set (NUM_INSTRUMENTS - NUM_HOT) (bb_cold b) (i - NUM_HOT) (cold_process_tick bo ao tick c);
       Some (b\<lparr>bb_cold := cold\<rparr>)
     } else Some b)"

definition builder_get_snapshot ::
  "'m flat_map \<Rightarrow> 'm flat_map \<Rightarrow> 'm BookBuilder \<Rightarrow> u16 \<Rightarrow> BookSnapshot option" where
  "builder_get_snapshot bo ao b instrument_id = (let i = unat instrument_id in
     if i < NUM_HOT then do {
       h \<leftarrow> arr_get NUM_HOT (bb_hot b) i;
       hot_get_snapshot h
     } else do {
       c \<leftarrow> arr_get (NUM_INSTRUMENTS - NUM_HOT) (bb_cold b) (i - NUM_HOT);
       Some (cold_get_snapshot bo ao c)
     })"

fun process_ticks ::
  "'m flat_map \<Rightarrow> 'm flat_map \<Rightarrow> NormalizedTick list \<Rightarrow> 'm BookBuilder \<Rightarrow> 'm BookBuilder option" where
  "process_ticks bo ao [] b = Some b"
| "process_ticks bo ao (t # ts) b = do { b' \<leftarrow> builder_process_tick bo ao t b; process_ticks bo ao ts b' }"

section \<open>The reference: depth per instrument, side and price\<close>

type_synonym depth = "nat \<Rightarrow> bool \<Rightarrow> nat \<Rightarrow> nat"

definition level_after :: "NormalizedTick \<Rightarrow> nat \<Rightarrow> nat" where
  "level_after tick n = (if nt_is_trade tick then n - unat (nt_quantity tick) else n + unat (nt_quantity tick))"

definition depth_tick :: "NormalizedTick \<Rightarrow> depth \<Rightarrow> depth" where
  "depth_tick tick d = (\<lambda>i s p.
     if i = unat (nt_instrument_id tick) \<and> s = nt_is_bid tick \<and> p = unat (nt_price tick)
     then level_after tick (d i s p) else d i s p)"

text \<open>
  The ticks the books are meant for: prices on the grid, adds with a positive quantity, and no
  level whose aggregate leaves 32 bits.
\<close>

definition tick_fits :: "depth \<Rightarrow> NormalizedTick \<Rightarrow> bool" where
  "tick_fits d tick \<longleftrightarrow>
     unat (nt_price tick) < MAX_PRICE_LEVELS \<and>
     (\<not> nt_is_trade tick \<longrightarrow> 0 < nt_quantity tick \<and>
        d (unat (nt_instrument_id tick)) (nt_is_bid tick) (unat (nt_price tick)) + unat (nt_quantity tick) < 2 ^ 32)"

fun ticks_fit :: "depth \<Rightarrow> NormalizedTick list \<Rightarrow> bool" where
  "ticks_fit d [] = True"
| "ticks_fit d (t # ts) = (tick_fits d t \<and> ticks_fit (depth_tick t d) ts)"

definition depth_after :: "NormalizedTick list \<Rightarrow> depth" where
  "depth_after ts = fold depth_tick ts (\<lambda>_ _ _. 0)"

text \<open>
  The best levels of one side: the highest non-empty bid or 0, the lowest non-empty ask or the
  last level, with the quantity there.
\<close>

definition best_bid_of :: "(nat \<Rightarrow> nat) \<Rightarrow> u32 \<Rightarrow> bool" where
  "best_bid_of f b \<longleftrightarrow> unat b < MAX_PRICE_LEVELS \<and> (0 < f (unat b) \<or> b = 0) \<and>
     (\<forall>p. 0 < f p \<longrightarrow> p \<le> unat b)"

definition best_ask_of :: "(nat \<Rightarrow> nat) \<Rightarrow> u32 \<Rightarrow> bool" where
  "best_ask_of f a \<longleftrightarrow> unat a < MAX_PRICE_LEVELS \<and> (0 < f (unat a) \<or> unat a = MAX_PRICE_LEVELS - 1) \<and>
     (\<forall>p. 0 < f p \<longrightarrow> unat a \<le> p)"

definition snapshot_of :: "(bool \<Rightarrow> nat \<Rightarrow> nat) \<Rightarrow> BookSnapshot \<Rightarrow> bool" where
  "snapshot_of d s \<longleftrightarrow>
     best_bid_of (d True) (bs_best_bid s) \<and> unat (bs_bid_qty s) = d True (unat (bs_best_bid s)) \<and>
     best_ask_of (d False) (bs_best_ask s) \<and> unat (bs_ask_qty s) = d False (unat (bs_best_ask s))"

section \<open>Hot books answer as the reference\<close>

declare scan_bids.simps [simp del] scan_asks.simps [simp del]

lemma MAX_PRICE_LEVELS_val [simp]: "MAX_PRICE_LEVELS = 100001"
  by (simp add: MAX_PRICE_LEVELS_def)

lemma unat_last_level [simp]: "unat (word_of_nat (MAX_PRICE_LEVELS - 1) :: u32) = 100000"
  by simp

lemma scan_bids_spec:
  assumes "unat p < MAX_PRICE_LEVELS" "\<And>q. unat p < q \<Longrightarrow> q < MAX_PRICE_LEVELS \<Longrightarrow> bids q = 0"
  shows "\<exists>r. scan_bids bids p = Some r \<and> unat r < MAX_PRICE_LEVELS \<and> (bids (unat r) \<noteq> 0 \<or> r = 0) \<and>
    (\<forall>q. unat r < q \<longrightarrow> q < MAX_PRICE_LEVELS \<longrightarrow> bids q = 0)"
  using assms
proof (induction bids p rule: scan_bids.induct)
  case (1 bids p)
  show ?case
  proof (cases "p > 0 \<and> bids (unat p) = 0")
    case True
    then have lt: "Suc (unat (p - 1)) = unat p"
      by (simp add: word_gt_0 unat_minus_one unat_gt_0)
    have "scan_bids bids p = scan_bids bids (p - 1)"
      using True 1(2) by (simp add: scan_bids.simps [of bids p] arr_get_in)
    moreover have "bids q = 0" if "unat (p - 1) < q" "q < MAX_PRICE_LEVELS" for q
      using that True lt 1(3) by (cases "q = unat p") auto
    ultimately show ?thesis
      using 1(1) [of "bids (unat p)"] True lt 1(2) by (simp add: arr_get_in)
  next
    case False
    then have "scan_bids bids p = Some p"
      using 1(2) by (auto simp: scan_bids.simps [of bids p] arr_get_in)
    then show ?thesis using False 1(2,3) by (auto simp: word_gt_0)
  qed
qed

lemma scan_asks_spec:
  assumes "unat p < MAX_PRICE_LEVELS" "\<And>q. q < unat p \<Longrightarrow> asks q = 0"
  shows "\<exists>r. scan_asks asks p = Some r \<and> unat r < MAX_PRICE_LEVELS \<and>
    (asks (unat r) \<noteq> 0 \<or> unat r = MAX_PRICE_LEVELS - 1) \<and> (\<forall>q. q < unat r \<longrightarrow> asks q = 0)"
  using assms
proof (induction asks p rule: scan_asks.induct)
  case (1 asks p)
  show ?case
  proof (cases "unat p < MAX_PRICE_LEVELS - 1 \<and> asks (unat p) = 0")
    case True
    then have sc: "unat (p + 1) = Suc (unat p)" by (simp add: unat_word_ariths)
    have "scan_asks asks p = scan_asks asks (p + 1)"
      using True by (simp add: scan_asks.simps [of asks p] arr_get_in)
    moreover have "asks q = 0" if "q < unat (p + 1)" for q
      using that True sc 1(3) by (cases "q = unat p") auto
    ultimately show ?thesis
      using 1(1) [of "asks (unat p)"] True sc by (simp add: arr_get_in)
  next
    case False
    then have "scan_asks asks p = Some p"
      using 1(2) by (auto simp: scan_asks.simps [of asks p] arr_get_in)
    then show ?thesis using False 1(2,3) by auto
  qed
qed

text \<open>One array with the reference level function it stands for.\<close>

definition levels_rep :: "(nat \<Rightarrow> nat) \<Rightarrow> (nat \<Rightarrow> u32) \<Rightarrow> bool" where
  "levels_rep f a \<longleftrightarrow> (\<forall>p. if p < MAX_PRICE_LEVELS then unat (a p) = f p else f p = 0)"

definition hot_rep :: "(bool \<Rightarrow> nat \<Rightarrow> nat) \<Rightarrow> HotBook \<Rightarrow> bool" where
  "hot_rep d h \<longleftrightarrow> levels_rep (d True) (hb_bids h) \<and> best_bid_of (d True) (hb_best_bid h) \<and>
     levels_rep (d False) (hb_asks h) \<and> best_ask_of (d False) (hb_best_ask h)"

lemma levels_rep_at: "levels_rep f a \<Longrightarrow> p < MAX_PRICE_LEVELS \<Longrightarrow> unat (a p) = f p"
  by (simp add: levels_rep_def split: if_splits)

lemma levels_rep_off: "levels_rep f a \<Longrightarrow> 0 < f p \<Longrightarrow> p < MAX_PRICE_LEVELS"
  unfolding levels_rep_def by (metis less_irrefl)

lemma levels_rep_upd:
  "levels_rep f a \<Longrightarrow> p < MAX_PRICE_LEVELS \<Longrightarrow> unat v = n \<Longrightarrow> levels_rep (f(p := n)) (a(p := v))"
  by (simp add: levels_rep_def)

lemma hot_reduce_unat: "unat (hot_reduce v q) = unat v - unat q"
  by (simp add: hot_reduce_def word_le_nat_alt unat_sub_if')

lemma levels_rep_zero: "levels_rep f a \<Longrightarrow> p < MAX_PRICE_LEVELS \<Longrightarrow> a p = 0 \<longleftrightarrow> f p = 0"
  by (metis levels_rep_at unat_eq_zero)

lemma unat_price_ucast:
  "unat (w :: u64) < MAX_PRICE_LEVELS \<Longrightarrow> unat (ucast w :: u32) = unat w"
  by (simp add: unsigned_ucast_eq take_bit_nat_eq_self)

lemma unat_ucast_best: "unat (ucast (w :: u32) :: u64) = unat w"
  using unat_less [of w] by (simp add: unsigned_ucast_eq take_bit_nat_eq_self)

lemma best_bid_add:
  fixes w :: u64
  assumes "best_bid_of f b" "unat w < MAX_PRICE_LEVELS" "0 < n"
  shows "best_bid_of (f(unat w := n)) (if w > ucast b then ucast w else b)"
proof (cases "unat b < unat w")
  case True
  then have "w > ucast b" by (simp add: word_less_nat_alt unat_ucast_best)
  moreover have "p \<le> unat w" if "0 < f p" for p
    using that True assms(1) unfolding best_bid_of_def by (meson le_less_trans less_imp_le)
  ultimately show ?thesis
    using assms(2,3) by (auto simp: best_bid_of_def unat_price_ucast)
next
  case False
  then have "\<not> w > ucast b" by (simp add: word_less_nat_alt unat_ucast_best)
  then show ?thesis using False assms by (auto simp: best_bid_of_def)
qed

lemma best_ask_add:
  fixes w :: u64
  assumes "best_ask_of f b" "unat w < MAX_PRICE_LEVELS" "0 < n"
  shows "best_ask_of (f(unat w := n)) (if w < ucast b then ucast w else b)"
proof (cases "unat w < unat b")
  case True
  then have "w < ucast b" by (simp add: word_less_nat_alt unat_ucast_best)
  moreover have "unat w \<le> p" if "0 < f p" for p
    using that True assms(1) unfolding best_ask_of_def by (meson le_trans less_imp_le)
  ultimately show ?thesis
    using assms(2,3) by (auto simp: best_ask_of_def unat_price_ucast)
next
  case False
  then have "\<not> w < ucast b" by (simp add: word_less_nat_alt unat_ucast_best)
  then show ?thesis using False assms by (auto simp: best_ask_of_def)
qed

lemma best_bid_rescan:
  assumes rep: "levels_rep f bids" and best: "best_bid_of g b" and le: "\<And>q. f q \<le> g q"
  shows "\<exists>r. scan_bids bids b = Some r \<and> best_bid_of f r"
proof -
  have top: "q \<le> unat b" if "0 < f q" for q
    using le [of q] that best by (simp add: best_bid_of_def)
  have "bids q = 0" if "unat b < q" "q < MAX_PRICE_LEVELS" for q
    using levels_rep_zero [OF rep that(2)] top [of q] that(1) by auto
  then obtain r where r: "scan_bids bids b = Some r" "unat r < MAX_PRICE_LEVELS"
      "bids (unat r) \<noteq> 0 \<or> r = 0" "\<And>q. unat r < q \<Longrightarrow> q < MAX_PRICE_LEVELS \<Longrightarrow> bids q = 0"
    using scan_bids_spec [of b bids] best by (auto simp: best_bid_of_def)
  have "p \<le> unat r" if "0 < f p" for p
    using that r(4) [of p] levels_rep_off [OF rep that] levels_rep_zero [OF rep, of p]
    by (cases "unat r < p") auto
  then show ?thesis using r levels_rep_zero [OF rep r(2)] by (auto simp: best_bid_of_def)
qed

lemma best_bid_keep:
  assumes "best_bid_of g b" "\<And>q. f q \<le> g q" "0 < f (unat b) \<or> b = 0"
  shows "best_bid_of f b"
  using assms(1,3) order_less_le_trans [OF _ assms(2)] by (auto simp: best_bid_of_def)

lemma hot_process_bid_trade:
  assumes "nt_is_trade tick" "unat (nt_price tick) = p" "p < MAX_PRICE_LEVELS"
  shows "hot_process_bid tick h = (let bids = (hb_bids h)(p := hot_reduce (hb_bids h p) (nt_quantity tick)) in
     if bids p = 0 \<and> nt_price tick = ucast (hb_best_bid h)
     then do { r \<leftarrow> scan_bids bids (hb_best_bid h); Some (h\<lparr>hb_bids := bids, hb_best_bid := r\<rparr>) }
     else Some (h\<lparr>hb_bids := bids\<rparr>))"
  unfolding hot_process_bid_def assms(2) Let_def
  by (simp only: assms(1) arr_get_in [OF assms(3)] arr_set_in [OF assms(3)] bind.bind_lunit if_False simp_thms)

lemma hot_process_bid_rep:
  assumes rep: "hot_rep d h" and fits: "tick_fits (\<lambda>_. d) tick" and side: "nt_is_bid tick = True"
    and p: "unat (nt_price tick) = p"
  shows "\<exists>h'. hot_process_bid tick h = Some h' \<and>
    hot_rep (d(True := (d True)(p := level_after tick (d True p)))) h'"
proof -
  define f where "f = (d True)(p := level_after tick (d True p))"
  have pl: "p < MAX_PRICE_LEVELS" using fits p by (simp add: tick_fits_def)
  have lr: "levels_rep (d True) (hb_bids h)" and best: "best_bid_of (d True) (hb_best_bid h)"
    using rep by (simp_all add: hot_rep_def)
  have at: "unat (hb_bids h p) = d True p" by (rule levels_rep_at [OF lr pl])
  show ?thesis
  proof (cases "nt_is_trade tick")
    case False
    have sum: "unat (hb_bids h p + nt_quantity tick) = level_after tick (d True p)" (is "unat ?v = _")
      using False fits side at p by (simp add: tick_fits_def level_after_def unat_word_ariths)
    have "levels_rep f ((hb_bids h)(p := ?v))"
      unfolding f_def by (rule levels_rep_upd [OF lr pl sum])
    moreover have "best_bid_of f (if nt_price tick > ucast (hb_best_bid h) then ucast (nt_price tick) else hb_best_bid h)"
      unfolding f_def p [symmetric] using False fits pl
      by (intro best_bid_add [OF best]) (simp_all add: level_after_def tick_fits_def word_gt_0 unat_gt_0)
    ultimately show ?thesis
      using rep False p pl
      by (simp add: hot_process_bid_def Let_def arr_get_in arr_set_in hot_rep_def f_def)
  next
    case True
    define bids where "bids = (hb_bids h)(p := hot_reduce (hb_bids h p) (nt_quantity tick))"
    note run = hot_process_bid_trade [OF True p pl, of h, folded bids_def, unfolded Let_def]
    have rep': "levels_rep f bids"
      unfolding f_def bids_def using True at
      by (intro levels_rep_upd [OF lr pl]) (simp add: hot_reduce_unat level_after_def)
    have le: "f q \<le> d True q" for q using True by (simp add: f_def level_after_def)
    show ?thesis
    proof (cases "bids p = 0 \<and> nt_price tick = ucast (hb_best_bid h)")
      case scan: True
      from best_bid_rescan [OF rep' best le] obtain r where
        "scan_bids bids (hb_best_bid h) = Some r" "best_bid_of f r" by blast
      then show ?thesis
        using rep rep' by (simp add: run if_P [OF scan] hot_rep_def f_def)
    next
      case noscan: False
      have "0 < f (unat (hb_best_bid h)) \<or> hb_best_bid h = 0"
        using noscan levels_rep_zero [OF rep' pl] best
        by (cases "p = unat (hb_best_bid h)")
          (auto simp: p [symmetric] word_unat_eq_iff unat_ucast_best best_bid_of_def f_def)
      then have "best_bid_of f (hb_best_bid h)" by (rule best_bid_keep [OF best le])
      then show ?thesis
        using rep rep' by (simp add: run if_not_P [OF noscan] hot_rep_def f_def)
    qed
  qed
qed

lemma best_ask_rescan:
  assumes rep: "levels_rep f asks" and best: "best_ask_of g b" and le: "\<And>q. f q \<le> g q"
  shows "\<exists>r. scan_asks asks b = Some r \<and> best_ask_of f r"
proof -
  have low: "unat b \<le> q" if "0 < f q" for q
    using le [of q] that best by (simp add: best_ask_of_def)
  have b: "unat b < MAX_PRICE_LEVELS" using best by (simp add: best_ask_of_def)
  have "asks q = 0" if "q < unat b" for q
    using levels_rep_zero [OF rep less_trans [OF that b]] low [of q] that by auto
  then obtain r where r: "scan_asks asks b = Some r" "unat r < MAX_PRICE_LEVELS"
      "asks (unat r) \<noteq> 0 \<or> unat r = MAX_PRICE_LEVELS - 1" "\<And>q. q < unat r \<Longrightarrow> asks q = 0"
    using scan_asks_spec [OF b, of asks] by auto
  have "unat r \<le> p" if "0 < f p" for p
    using that r(4) [of p] levels_rep_off [OF rep that] levels_rep_zero [OF rep, of p]
    by (cases "p < unat r") auto
  then show ?thesis using r levels_rep_zero [OF rep r(2)] by (auto simp: best_ask_of_def)
qed

lemma best_ask_keep:
  assumes "best_ask_of g b" "\<And>q. f q \<le> g q" "0 < f (unat b) \<or> unat b = MAX_PRICE_LEVELS - 1"
  shows "best_ask_of f b"
  using assms(1,3) order_less_le_trans [OF _ assms(2)] by (auto simp: best_ask_of_def)

lemma hot_process_ask_trade:
  assumes "nt_is_trade tick" "unat (nt_price tick) = p" "p < MAX_PRICE_LEVELS"
  shows "hot_process_ask tick h = (let asks = (hb_asks h)(p := hot_reduce (hb_asks h p) (nt_quantity tick)) in
     if asks p = 0 \<and> nt_price tick = ucast (hb_best_ask h)
     then do { r \<leftarrow> scan_asks asks (hb_best_ask h); Some (h\<lparr>hb_asks := asks, hb_best_ask := r\<rparr>) }
     else Some (h\<lparr>hb_asks := asks\<rparr>))"
  unfolding hot_process_ask_def assms(2) Let_def
  by (simp only: assms(1) arr_get_in [OF assms(3)] arr_set_in [OF assms(3)] bind.bind_lunit if_False simp_thms)

lemma hot_process_ask_rep:
  assumes rep: "hot_rep d h" and fits: "tick_fits (\<lambda>_. d) tick" and side: "nt_is_bid tick = False"
    and p: "unat (nt_price tick) = p"
  shows "\<exists>h'. hot_process_ask tick h = Some h' \<and>
    hot_rep (d(False := (d False)(p := level_after tick (d False p)))) h'"
proof -
  define f where "f = (d False)(p := level_after tick (d False p))"
  have pl: "p < MAX_PRICE_LEVELS" using fits p by (simp add: tick_fits_def)
  have lr: "levels_rep (d False) (hb_asks h)" and best: "best_ask_of (d False) (hb_best_ask h)"
    using rep by (simp_all add: hot_rep_def)
  have at: "unat (hb_asks h p) = d False p" by (rule levels_rep_at [OF lr pl])
  show ?thesis
  proof (cases "nt_is_trade tick")
    case False
    have sum: "unat (hb_asks h p + nt_quantity tick) = level_after tick (d False p)" (is "unat ?v = _")
      using False fits side at p by (simp add: tick_fits_def level_after_def unat_word_ariths)
    have "levels_rep f ((hb_asks h)(p := ?v))"
      unfolding f_def by (rule levels_rep_upd [OF lr pl sum])
    moreover have "best_ask_of f (if nt_price tick < ucast (hb_best_ask h) then ucast (nt_price tick) else hb_best_ask h)"
      unfolding f_def p [symmetric] using False fits pl
      by (intro best_ask_add [OF best]) (simp_all add: level_after_def tick_fits_def word_gt_0 unat_gt_0)
    ultimately show ?thesis
      using rep False p pl
      by (simp add: hot_process_ask_def Let_def arr_get_in arr_set_in hot_rep_def f_def)
  next
    case True
    define asks where "asks = (hb_asks h)(p := hot_reduce (hb_asks h p) (nt_quantity tick))"
    note run = hot_process_ask_trade [OF True p pl, of h, folded asks_def, unfolded Let_def]
    have rep': "levels_rep f asks"
      unfolding f_def asks_def using True at
      by (intro levels_rep_upd [OF lr pl]) (simp add: hot_reduce_unat level_after_def)
    have le: "f q \<le> d False q" for q using True by (simp add: f_def level_after_def)
    show ?thesis
    proof (cases "asks p = 0 \<and> nt_price tick = ucast (hb_best_ask h)")
      case scan: True
      from best_ask_rescan [OF rep' best le] obtain r where
        "scan_asks asks (hb_best_ask h) = Some r" "best_ask_of f r" by blast
      then show ?thesis
        using rep rep' by (simp add: run if_P [OF scan] hot_rep_def f_def)
    next
      case noscan: False
      have "0 < f (unat (hb_best_ask h)) \<or> unat (hb_best_ask h) = MAX_PRICE_LEVELS - 1"
        using noscan levels_rep_zero [OF rep' pl] best
        by (cases "p = unat (hb_best_ask h)")
          (auto simp: p [symmetric] word_unat_eq_iff unat_ucast_best best_ask_of_def f_def)
      then have "best_ask_of f (hb_best_ask h)" by (rule best_ask_keep [OF best le])
      then show ?thesis
        using rep rep' by (simp add: run if_not_P [OF noscan] hot_rep_def f_def)
    qed
  qed
qed

definition side_tick :: "NormalizedTick \<Rightarrow> (bool \<Rightarrow> nat \<Rightarrow> nat) \<Rightarrow> bool \<Rightarrow> nat \<Rightarrow> nat" where
  "side_tick tick d = d(nt_is_bid tick := (d (nt_is_bid tick))
     (unat (nt_price tick) := level_after tick (d (nt_is_bid tick) (unat (nt_price tick)))))"

lemma depth_tick_same:
  "i = unat (nt_instrument_id tick) \<Longrightarrow> depth_tick tick d i = side_tick tick (d i)"
  by (auto simp: depth_tick_def side_tick_def fun_eq_iff)

lemma depth_tick_other:
  "i \<noteq> unat (nt_instrument_id tick) \<Longrightarrow> depth_tick tick d i = d i"
  by (simp add: depth_tick_def)

lemma tick_fits_side:
  "tick_fits d tick \<longleftrightarrow> tick_fits (\<lambda>_. d (unat (nt_instrument_id tick))) tick"
  by (simp add: tick_fits_def)

lemma hot_init_rep: "hot_rep (\<lambda>_ _. 0) hot_init"
  by (simp add: hot_rep_def hot_init_def levels_rep_def best_bid_of_def best_ask_of_def)

lemma hot_process_tick_rep:
  assumes "hot_rep d h" "tick_fits (\<lambda>_. d) tick"
  shows "\<exists>h'. hot_process_tick tick h = Some h' \<and> hot_rep (side_tick tick d) h'"
proof -
  have "\<not> unat (nt_price tick) \<ge> MAX_PRICE_LEVELS" using assms(2) by (simp add: tick_fits_def)
  then show ?thesis
    using hot_process_bid_rep [OF assms _ refl] hot_process_ask_rep [OF assms _ refl]
    by (cases "nt_is_bid tick") (simp_all add: hot_process_tick_def side_tick_def)
qed

lemma hot_get_snapshot_rep:
  assumes "hot_rep d h"
  shows "\<exists>s. hot_get_snapshot h = Some s \<and> snapshot_of d s"
proof -
  have "unat (hb_best_bid h) < MAX_PRICE_LEVELS" "unat (hb_best_ask h) < MAX_PRICE_LEVELS"
    using assms by (simp_all add: hot_rep_def best_bid_of_def best_ask_of_def)
  then show ?thesis
    using assms levels_rep_at [of "d True" "hb_bids h"] levels_rep_at [of "d False" "hb_asks h"]
    by (simp add: hot_get_snapshot_def arr_get_in snapshot_of_def hot_rep_def)
qed

section \<open>Cold books answer as the reference\<close>

text \<open>A map holds exactly the non-empty levels, all of them on the price grid.\<close>

definition map_rep :: "'m flat_map \<Rightarrow> (nat \<Rightarrow> nat) \<Rightarrow> 'm \<Rightarrow> bool" where
  "map_rep ops f m \<longleftrightarrow>
     (\<forall>k. case fm_find ops m k of None \<Rightarrow> f (unat k) = 0 | Some v \<Rightarrow> f (unat k) = unat v \<and> 0 < f (unat k)) \<and>
     (\<forall>p. 0 < f p \<longrightarrow> p < MAX_PRICE_LEVELS)"

definition cold_rep :: "'m flat_map \<Rightarrow> 'm flat_map \<Rightarrow> (bool \<Rightarrow> nat \<Rightarrow> nat) \<Rightarrow> 'm ColdBook \<Rightarrow> bool" where
  "cold_rep bo ao d c \<longleftrightarrow> map_rep bo (d True) (cb_bids c) \<and> map_rep ao (d False) (cb_asks c)"

lemma flat_map_find:
  assumes "flat_map_laws before ops"
  shows "fm_find ops (fm_empty ops) = Map.empty"
    and "fm_find ops (fm_assign ops m k v) = (fm_find ops m)(k \<mapsto> v)"
    and "fm_find ops (fm_erase ops m k) = (fm_find ops m)(k := None)"
  using assms by (simp_all add: flat_map_laws_def)

lemma map_repD:
  assumes "map_rep ops f m"
  shows "fm_find ops m k = None \<Longrightarrow> f (unat k) = 0"
    and "fm_find ops m k = Some v \<Longrightarrow> f (unat k) = unat v \<and> 0 < unat v"
    and "0 < f p \<Longrightarrow> p < MAX_PRICE_LEVELS"
  using assms [unfolded map_rep_def, THEN conjunct1, THEN spec, of k]
    assms [unfolded map_rep_def, THEN conjunct2, THEN spec, of p] by auto

lemma map_rep_upd:
  assumes rep: "map_rep ops f m" and k: "unat k < MAX_PRICE_LEVELS"
    and find: "fm_find ops m' = (fm_find ops m)(k := (if n = 0 then None else Some v))"
    and n: "n \<noteq> 0 \<Longrightarrow> n = unat v"
  shows "map_rep ops (f(unat k := n)) m'"
  using map_repD [OF rep] k n unfolding map_rep_def find
  by (auto split: option.splits simp: word_unat_eq_iff)

lemma cold_side_rep:
  assumes laws: "flat_map_laws before ops" and rep: "map_rep ops f m"
    and fits: "tick_fits (\<lambda>_ _. f) tick"
  shows "map_rep ops (f(unat (nt_price tick) := level_after tick (f (unat (nt_price tick))))) (cold_side ops tick m)"
proof -
  define k :: u32 where "k = ucast (nt_price tick)"
  have p: "unat (nt_price tick) < MAX_PRICE_LEVELS" using fits by (simp add: tick_fits_def)
  have k: "unat k = unat (nt_price tick)" using p by (simp add: k_def unat_price_ucast)
  define v where "v = (case fm_find ops m k of None \<Rightarrow> 0 | Some v \<Rightarrow> v)"
  have v: "unat v = f (unat k)"
    using map_repD(1,2) [OF rep, of k] by (cases "fm_find ops m k") (auto simp: v_def)
  have pk: "unat k < MAX_PRICE_LEVELS" using p k by simp
  show ?thesis
  proof (cases "nt_is_trade tick")
    case False
    then have "unat (v + nt_quantity tick) = level_after tick (f (unat k))" "0 < level_after tick (f (unat k))"
      using fits v k by (simp_all add: tick_fits_def level_after_def unat_word_ariths word_gt_0 unat_gt_0)
    then show ?thesis
      unfolding k [symmetric] using False
      by (intro map_rep_upd [OF rep pk, where v = "v + nt_quantity tick"])
        (simp_all add: cold_side_def Let_def k_def [symmetric] v_def [symmetric] flat_map_find [OF laws])
  next
    case True
    have lvl: "level_after tick (f (unat k)) = unat v - unat (nt_quantity tick)"
      using True v by (simp add: level_after_def)
    show ?thesis
      unfolding k [symmetric]
    proof (intro map_rep_upd [OF rep pk, where v = "v - nt_quantity tick"])
      show "fm_find ops (cold_side ops tick m) = (fm_find ops m)
          (k := (if level_after tick (f (unat k)) = 0 then None else Some (v - nt_quantity tick)))"
        using True lvl by (cases "fm_find ops m k")
          (auto simp: cold_side_def Let_def k_def [symmetric] v_def flat_map_find [OF laws] word_less_nat_alt)
    qed (use lvl in \<open>simp add: unat_sub_if'\<close>)
  qed
qed

lemma cold_init_rep:
  assumes "flat_map_laws (>) bo" "flat_map_laws (<) ao"
  shows "cold_rep bo ao (\<lambda>_ _. 0) (cold_init bo ao)"
  by (simp add: cold_rep_def map_rep_def cold_init_def flat_map_find(1) [OF assms(1)] flat_map_find(1) [OF assms(2)])

lemma cold_process_tick_rep:
  assumes laws: "flat_map_laws (>) bo" "flat_map_laws (<) ao"
    and rep: "cold_rep bo ao d c" and fits: "tick_fits (\<lambda>_. d) tick"
  shows "cold_rep bo ao (side_tick tick d) (cold_process_tick bo ao tick c)"
proof -
  have "tick_fits (\<lambda>_ _. d (nt_is_bid tick)) tick" using fits by (simp add: tick_fits_def)
  then show ?thesis
    using rep cold_side_rep [OF laws(1), of "d True" "cb_bids c" tick]
      cold_side_rep [OF laws(2), of "d False" "cb_asks c" tick]
    by (cases "nt_is_bid tick") (simp_all add: cold_rep_def cold_process_tick_def side_tick_def)
qed

lemma cold_first:
  assumes laws: "flat_map_laws before ops" and rep: "map_rep ops f m" and first: "fm_begin ops m = Some (k, v)"
  shows "f (unat k) = unat v" "0 < f (unat k)" "unat k < MAX_PRICE_LEVELS"
    and "\<And>p. 0 < f p \<Longrightarrow> p = unat k \<or> before k (word_of_nat p)"
proof -
  have fk: "fm_find ops m k = Some v" and dom: "\<And>k'. k' \<in> dom (fm_find ops m) \<Longrightarrow> k' = k \<or> before k k'"
    using laws first by (auto simp: flat_map_laws_def)
  show 1: "f (unat k) = unat v" "0 < f (unat k)" "unat k < MAX_PRICE_LEVELS"
    using map_repD(2) [OF rep fk] map_repD(3) [OF rep, of "unat k"] by auto
  fix p assume p: "0 < f p"
  then have "unat (word_of_nat p :: u32) = p"
    using map_repD(3) [OF rep p] by (simp add: unat_of_nat)
  then show "p = unat k \<or> before k (word_of_nat p)"
    using dom [of "word_of_nat p"] p map_repD(1) [OF rep, of "word_of_nat p"] by fastforce
qed

lemma cold_none:
  assumes laws: "flat_map_laws before ops" and rep: "map_rep ops f m" and first: "fm_begin ops m = None"
  shows "f p = 0"
proof (rule ccontr)
  assume "f p \<noteq> 0"
  moreover from this have "unat (word_of_nat p :: u32) = p"
    using map_repD(3) [OF rep, of p] by (simp add: unat_of_nat)
  ultimately show False
    using laws first map_repD(1) [OF rep, of "word_of_nat p"] by (simp add: flat_map_laws_def)
qed

lemma cold_best_bid:
  assumes "flat_map_laws (>) ops" "map_rep ops f m"
  shows "best_bid_of f (case fm_begin ops m of None \<Rightarrow> 0 | Some (k, v) \<Rightarrow> k)"
    and "unat (case fm_begin ops m of None \<Rightarrow> 0 | Some (k, v) \<Rightarrow> v) =
      f (unat (case fm_begin ops m of None \<Rightarrow> 0 | Some (k, v) \<Rightarrow> k))"
proof -
  have "best_bid_of f k" if "fm_begin ops m = Some (k, v)" for k v
  proof -
    have "p \<le> unat k" if p: "0 < f p" for p
      using cold_first(4) [OF assms \<open>fm_begin ops m = Some (k, v)\<close> p] map_repD(3) [OF assms(2) p]
      by (auto simp: word_less_nat_alt unat_of_nat)
    then show ?thesis using cold_first(2,3) [OF assms that] by (simp add: best_bid_of_def)
  qed
  then show "best_bid_of f (case fm_begin ops m of None \<Rightarrow> 0 | Some (k, v) \<Rightarrow> k)"
    using cold_none [OF assms] by (auto simp: best_bid_of_def split: option.splits)
  show "unat (case fm_begin ops m of None \<Rightarrow> 0 | Some (k, v) \<Rightarrow> v) =
      f (unat (case fm_begin ops m of None \<Rightarrow> 0 | Some (k, v) \<Rightarrow> k))"
    using cold_none [OF assms] cold_first(1) [OF assms] by (auto split: option.splits)
qed

lemma cold_best_ask:
  assumes "flat_map_laws (<) ops" "map_rep ops f m"
  shows "best_ask_of f (case fm_begin ops m of None \<Rightarrow> word_of_nat (MAX_PRICE_LEVELS - 1) | Some (k, v) \<Rightarrow> k)"
    and "unat (case fm_begin ops m of None \<Rightarrow> 0 | Some (k, v) \<Rightarrow> v) =
      f (unat (case fm_begin ops m of None \<Rightarrow> word_of_nat (MAX_PRICE_LEVELS - 1) | Some (k, v) \<Rightarrow> k))"
proof -
  have "best_ask_of f k" if "fm_begin ops m = Some (k, v)" for k v
  proof -
    have "unat k \<le> p" if p: "0 < f p" for p
      using cold_first(4) [OF assms \<open>fm_begin ops m = Some (k, v)\<close> p] map_repD(3) [OF assms(2) p]
      by (auto simp: word_less_nat_alt unat_of_nat)
    then show ?thesis using cold_first(2,3) [OF assms that] by (simp add: best_ask_of_def)
  qed
  then show "best_ask_of f (case fm_begin ops m of None \<Rightarrow> word_of_nat (MAX_PRICE_LEVELS - 1) | Some (k, v) \<Rightarrow> k)"
    using cold_none [OF assms] by (auto simp: best_ask_of_def split: option.splits)
  show "unat (case fm_begin ops m of None \<Rightarrow> 0 | Some (k, v) \<Rightarrow> v) =
      f (unat (case fm_begin ops m of None \<Rightarrow> word_of_nat (MAX_PRICE_LEVELS - 1) | Some (k, v) \<Rightarrow> k))"
    using cold_none [OF assms] cold_first(1) [OF assms] by (auto split: option.splits)
qed

section \<open>The builder\<close>

definition builder_rep :: "'m flat_map \<Rightarrow> 'm flat_map \<Rightarrow> depth \<Rightarrow> 'm BookBuilder \<Rightarrow> bool" where
  "builder_rep bo ao d b \<longleftrightarrow>
     (\<forall>i < NUM_HOT. hot_rep (d i) (bb_hot b i)) \<and>
     (\<forall>i. NUM_HOT \<le> i \<and> i < NUM_INSTRUMENTS \<longrightarrow> cold_rep bo ao (d i) (bb_cold b (i - NUM_HOT)))"

lemma builder_init_rep:
  assumes "flat_map_laws (>) bo" "flat_map_laws (<) ao"
  shows "builder_rep bo ao (\<lambda>_ _ _. 0) (builder_init bo ao)"
  by (simp add: builder_rep_def builder_init_def hot_init_rep cold_init_rep [OF assms])

lemma builder_process_tick_rep:
  assumes laws: "flat_map_laws (>) bo" "flat_map_laws (<) ao"
    and rep: "builder_rep bo ao d b" and fits: "tick_fits d tick"
  shows "\<exists>b'. builder_process_tick bo ao tick b = Some b' \<and> builder_rep bo ao (depth_tick tick d) b'"
proof -
  define i where "i = unat (nt_instrument_id tick)"
  have fits: "tick_fits (\<lambda>_. d i) tick" using fits tick_fits_side by (simp add: i_def)
  have same: "depth_tick tick d i = side_tick tick (d i)" and
    other: "\<And>j. j \<noteq> i \<Longrightarrow> depth_tick tick d j = d j"
    by (simp_all add: i_def depth_tick_same depth_tick_other)
  consider "i < NUM_HOT" | "NUM_HOT \<le> i" "i < NUM_INSTRUMENTS" | "NUM_HOT \<le> i" "NUM_INSTRUMENTS \<le> i" by linarith
  then show ?thesis
  proof cases
    case 1
    then obtain h' where "hot_process_tick tick (bb_hot b i) = Some h'" "hot_rep (side_tick tick (d i)) h'"
      using hot_process_tick_rep [OF _ fits, of "bb_hot b i"] rep by (auto simp: builder_rep_def)
    then show ?thesis
      using 1 rep same other
      by (auto simp: builder_process_tick_def Let_def i_def [symmetric] arr_get_in arr_set_in builder_rep_def)
  next
    case 2
    have "cold_rep bo ao (side_tick tick (d i)) (cold_process_tick bo ao tick (bb_cold b (i - NUM_HOT)))"
      using cold_process_tick_rep [OF laws _ fits] rep 2 by (auto simp: builder_rep_def)
    moreover have "j - NUM_HOT = i - NUM_HOT \<longleftrightarrow> j = i" if "NUM_HOT \<le> j" for j using that 2 by auto
    moreover have "i - NUM_HOT < NUM_INSTRUMENTS - NUM_HOT" using 2 by simp
    ultimately show ?thesis
      using 2 rep same other
      by (auto simp: builder_process_tick_def Let_def i_def [symmetric] arr_get_in arr_set_in builder_rep_def)
  next
    case 3
    then show ?thesis
      using rep other by (auto simp: builder_process_tick_def Let_def i_def [symmetric] builder_rep_def)
  qed
qed

lemma process_ticks_rep:
  assumes "flat_map_laws (>) bo" "flat_map_laws (<) ao"
  shows "builder_rep bo ao d b \<Longrightarrow> ticks_fit d ts \<Longrightarrow>
    \<exists>b'. process_ticks bo ao ts b = Some b' \<and> builder_rep bo ao (fold depth_tick ts d) b'"
proof (induction ts arbitrary: d b)
  case (Cons t ts)
  then obtain b' where b': "builder_process_tick bo ao t b = Some b'" "builder_rep bo ao (depth_tick t d) b'"
    using builder_process_tick_rep [OF assms, of d b t] by auto
  show ?case using Cons.IH [OF b'(2)] Cons.prems(2) b'(1) by simp
qed simp

lemma builder_get_snapshot_rep:
  assumes laws: "flat_map_laws (>) bo" "flat_map_laws (<) ao"
    and rep: "builder_rep bo ao d b" and i: "unat i < NUM_INSTRUMENTS"
  shows "\<exists>s. builder_get_snapshot bo ao b i = Some s \<and> snapshot_of (d (unat i)) s"
proof (cases "unat i < NUM_HOT")
  case True
  then show ?thesis
    using rep hot_get_snapshot_rep [of "d (unat i)" "bb_hot b (unat i)"]
    by (simp add: builder_get_snapshot_def Let_def arr_get_in builder_rep_def)
next
  case False
  then have c: "cold_rep bo ao (d (unat i)) (bb_cold b (unat i - NUM_HOT))"
    using rep i by (simp add: builder_rep_def)
  have "unat i - NUM_HOT < NUM_INSTRUMENTS - NUM_HOT" using False i by simp
  then show ?thesis
    using False cold_best_bid [OF laws(1)] cold_best_ask [OF laws(2)] c
    by (simp add: builder_get_snapshot_def Let_def arr_get_in cold_get_snapshot_def snapshot_of_def cold_rep_def)
qed

lemma snapshot_of_unique:
  assumes "snapshot_of d s" "snapshot_of d s'"
  shows "s = s'"
proof -
  have bid: "bs_best_bid s = bs_best_bid s'"
  proof -
    have "unat (bs_best_bid s) = unat (bs_best_bid s')"
      using assms unfolding snapshot_of_def best_bid_of_def by (metis le_antisym le_zero_eq unat_0)
    then show ?thesis by (simp add: word_unat_eq_iff)
  qed
  have ask: "bs_best_ask s = bs_best_ask s'"
  proof -
    have "unat (bs_best_ask s) = unat (bs_best_ask s')"
      using assms unfolding snapshot_of_def best_ask_of_def MAX_PRICE_LEVELS_val by (force intro: le_antisym)
    then show ?thesis by (simp add: word_unat_eq_iff)
  qed
  have "unat (bs_bid_qty s) = unat (bs_bid_qty s')" "unat (bs_ask_qty s) = unat (bs_ask_qty s')"
    using assms bid ask by (simp_all add: snapshot_of_def)
  then show ?thesis using bid ask by (simp add: word_unat_eq_iff)
qed

lemma depth_readdressed:
  assumes "d' (unat j) = d (unat i)" "\<forall>t \<in> set ts. nt_instrument_id t = i" "ticks_fit d ts"
  shows "ticks_fit d' (map (nt_instrument_id_update (\<lambda>_. j)) ts) \<and>
    fold depth_tick (map (nt_instrument_id_update (\<lambda>_. j)) ts) d' (unat j) = fold depth_tick ts d (unat i)"
  using assms
proof (induction ts arbitrary: d d')
  case (Cons t ts)
  let ?t = "nt_instrument_id_update (\<lambda>_. j) t"
  have "depth_tick ?t d' (unat j) = depth_tick t d (unat i)"
    using Cons.prems(1,2) by (simp add: depth_tick_def level_after_def fun_eq_iff)
  then show ?case
    using Cons.IH [of "depth_tick ?t d'" "depth_tick t d"] Cons.prems by (simp add: tick_fits_def)
qed simp

section \<open>A flat map on association lists\<close>

text \<open>A concrete map that satisfies the laws: the latest binding of a key counts, and the first key is searched for.\<close>

fun first_key :: "(u32 \<Rightarrow> u32 \<Rightarrow> bool) \<Rightarrow> (u32 \<times> u32) list \<Rightarrow> u32 option" where
  "first_key before [] = None"
| "first_key before (x # m) = (case first_key before m of
     None \<Rightarrow> Some (fst x) | Some k \<Rightarrow> Some (if before k (fst x) then k else fst x))"

definition assoc_map :: "(u32 \<Rightarrow> u32 \<Rightarrow> bool) \<Rightarrow> (u32 \<times> u32) list flat_map" where
  "assoc_map before = \<lparr>fm_empty = [], fm_find = map_of, fm_assign = (\<lambda>m k v. (k, v) # m),
     fm_erase = (\<lambda>m k. filter (\<lambda>x. fst x \<noteq> k) m),
     fm_begin = (\<lambda>m. case first_key before m of None \<Rightarrow> None | Some k \<Rightarrow> map_option (Pair k) (map_of m k))\<rparr>"

lemma first_key_None: "first_key before m = None \<longleftrightarrow> m = []"
  by (cases m) (auto split: option.splits)

lemma first_key_least:
  assumes "\<And>a b. a = b \<or> before a b \<or> before b a" "\<And>a b c. before a b \<Longrightarrow> before b c \<Longrightarrow> before a c"
  shows "first_key before m = Some k \<Longrightarrow> k \<in> fst ` set m \<and> (\<forall>k' \<in> fst ` set m. k' = k \<or> before k k')"
proof (induction m arbitrary: k)
  case (Cons x m)
  show ?case
  proof (cases "first_key before m")
    case None
    then show ?thesis using Cons.prems by (simp add: first_key_None)
  next
    case (Some l)
    have l: "l \<in> fst ` set m" "\<And>k'. k' \<in> fst ` set m \<Longrightarrow> k' = l \<or> before l k'"
      using Cons.IH [OF Some] by auto
    show ?thesis
    proof (cases "before l (fst x)")
      case True
      then have "k = l" using Cons.prems Some by simp
      then show ?thesis using l True by auto
    next
      case False
      then have k: "k = fst x" using Cons.prems Some by simp
      have "k' = k \<or> before k k'" if "k' \<in> fst ` set m" for k'
        using l(2) [OF that] assms(1) [of l k] False assms(2) [of k l k'] k by auto
      then show ?thesis using k by auto
    qed
  qed
qed simp

lemma map_of_filter_key: "map_of (filter (\<lambda>x. fst x \<noteq> k) m) = (map_of m)(k := None)"
  by (induction m) auto

lemma assoc_map_laws:
  assumes "\<And>a b. a = b \<or> before a b \<or> before b a" "\<And>a b c. before a b \<Longrightarrow> before b c \<Longrightarrow> before a c"
  shows "flat_map_laws before (assoc_map before)"
proof -
  have some: "False" if "first_key before m = Some k" "map_of m k = None" for m :: "(u32 \<times> u32) list" and k
    using first_key_least [OF assms that(1)] that(2) by (simp add: map_of_eq_None_iff)
  have empty: "map_of m = Map.empty \<longleftrightarrow> m = []" for m :: "(u32 \<times> u32) list" by (cases m) auto
  have "k' = k \<or> before k k'" if "first_key before m = Some k" "map_of m k' = Some v" for m :: "(u32 \<times> u32) list" and k k' v
    using first_key_least [OF assms that(1)] map_of_SomeD [OF that(2)] by force
  then show ?thesis
    by (auto simp: flat_map_laws_def assoc_map_def map_of_filter_key first_key_None empty split: option.splits dest: some)
qed

lemma assoc_maps_ok: "flat_map_laws (>) (assoc_map (>))" "flat_map_laws (<) (assoc_map (<))"
  by (auto intro!: assoc_map_laws)

section \<open>Properties\<close>

text \<open>
  C22. For every tick sequence on the price grid whose adds are positive and whose levels stay
  within 32 bits, the firm's book builder processes all ticks and returns, and the snapshot of
  every instrument is exact: the best bid is the highest non-empty bid level (0 when there is
  none), the best ask the lowest non-empty ask level (the last level when there is none), each
  with the aggregated quantity that adds and trades leave there. This covers the flat arrays
  with their scans and the sorted maps, for any map implementation that keeps its laws.
\<close>
theorem book_builder_exact:
  assumes "flat_map_laws (>) bo" "flat_map_laws (<) ao" "ticks_fit (\<lambda>_ _ _. 0) ts"
    and "unat i < NUM_INSTRUMENTS"
  shows "\<exists>b s. process_ticks bo ao ts (builder_init bo ao) = Some b \<and>
    builder_get_snapshot bo ao b i = Some s \<and> snapshot_of (depth_after ts (unat i)) s"
  using process_ticks_rep [OF assms(1,2) builder_init_rep [OF assms(1,2)] assms(3)]
    builder_get_snapshot_rep [OF assms(1,2) _ assms(4)]
  unfolding depth_after_def by blast

definition sample_tick :: "u16 \<Rightarrow> u64 \<Rightarrow> u32 \<Rightarrow> bool \<Rightarrow> bool \<Rightarrow> NormalizedTick" where
  "sample_tick i p q bid trade = \<lparr>nt_instrument_id = i, nt_price = p, nt_quantity = q, nt_is_bid = bid,
     nt_is_trade = trade, nt_t1_exchange_send = 0, nt_t2_trading_recv = 0\<rparr>"

definition sample_ticks :: "NormalizedTick list" where
  "sample_ticks = [sample_tick 3 100 10 True False, sample_tick 3 101 5 True False,
     sample_tick 3 105 7 False False, sample_tick 3 101 5 True True, sample_tick 3 103 9 False False]"

lemma sample_ticks_fit: "ticks_fit (\<lambda>_ _ _. 0) sample_ticks"
  by (simp add: sample_ticks_def sample_tick_def tick_fits_def depth_tick_def level_after_def)

lemma sample_depth:
  "depth_after sample_ticks 3 = (\<lambda>s p. if s then (if p = 100 then 10 else 0)
     else if p = 103 then 9 else if p = 105 then 7 else 0)"
  by (simp add: depth_after_def sample_ticks_def sample_tick_def depth_tick_def level_after_def fun_eq_iff)

text \<open>After a trade takes the whole level 101, the best bid is 100 again.\<close>
theorem book_builder_exact_witness:
  "\<exists>b s. process_ticks (assoc_map (>)) (assoc_map (<)) sample_ticks (builder_init (assoc_map (>)) (assoc_map (<))) = Some b \<and>
    builder_get_snapshot (assoc_map (>)) (assoc_map (<)) b 3 = Some s \<and>
    bs_best_bid s = 100 \<and> bs_best_ask s = 103 \<and> bs_bid_qty s = 10 \<and> bs_ask_qty s = 9"
proof -
  have "snapshot_of (depth_after sample_ticks 3) \<lparr>bs_best_bid = 100, bs_best_ask = 103, bs_bid_qty = 10, bs_ask_qty = 9\<rparr>"
    by (simp add: sample_depth snapshot_of_def best_bid_of_def best_ask_of_def)
  note unique = snapshot_of_unique [OF _ this]
  show ?thesis
    using book_builder_exact [OF assoc_maps_ok sample_ticks_fit, of 3] unique
    by (fastforce simp: NUM_INSTRUMENTS_def)
qed

text \<open>
  The two book implementations are interchangeable: the ticks of one instrument give the
  same snapshot when they are addressed to another instrument, whether either of the two is
  kept in the flat arrays (below 64) or in the sorted maps.
\<close>
theorem hot_cold_equivalent:
  assumes "flat_map_laws (>) bo" "flat_map_laws (<) ao" "ticks_fit (\<lambda>_ _ _. 0) ts"
    and "\<forall>t \<in> set ts. nt_instrument_id t = i" "unat i < NUM_INSTRUMENTS" "unat j < NUM_INSTRUMENTS"
  shows "\<exists>b b' s. process_ticks bo ao ts (builder_init bo ao) = Some b \<and>
    process_ticks bo ao (map (nt_instrument_id_update (\<lambda>_. j)) ts) (builder_init bo ao) = Some b' \<and>
    builder_get_snapshot bo ao b i = Some s \<and> builder_get_snapshot bo ao b' j = Some s"
proof -
  note rep = process_ticks_rep [OF assms(1,2) builder_init_rep [OF assms(1,2)]]
  have re: "ticks_fit (\<lambda>_ _ _. 0) (map (nt_instrument_id_update (\<lambda>_. j)) ts)"
    "fold depth_tick (map (nt_instrument_id_update (\<lambda>_. j)) ts) (\<lambda>_ _ _. 0) (unat j) =
     fold depth_tick ts (\<lambda>_ _ _. 0) (unat i)"
    using depth_readdressed [of "\<lambda>_ _ _. 0" j "\<lambda>_ _ _. 0" i ts] assms(3,4) by simp_all
  obtain b where b: "process_ticks bo ao ts (builder_init bo ao) = Some b"
    "builder_rep bo ao (fold depth_tick ts (\<lambda>_ _ _. 0)) b" using rep [OF assms(3)] by blast
  let ?ts = "map (nt_instrument_id_update (\<lambda>_. j)) ts"
  obtain b' where b': "process_ticks bo ao ?ts (builder_init bo ao) = Some b'"
    "builder_rep bo ao (fold depth_tick ?ts (\<lambda>_ _ _. 0)) b'"
    using rep [OF re(1)] by blast
  show ?thesis
    using builder_get_snapshot_rep [OF assms(1,2) b(2) assms(5)]
      builder_get_snapshot_rep [OF assms(1,2) b'(2) assms(6)] b(1) b'(1) snapshot_of_unique
    unfolding re(2) by blast
qed

theorem hot_cold_equivalent_witness:
  "\<exists>b b' s. process_ticks (assoc_map (>)) (assoc_map (<)) sample_ticks (builder_init (assoc_map (>)) (assoc_map (<))) = Some b \<and>
    process_ticks (assoc_map (>)) (assoc_map (<)) (map (nt_instrument_id_update (\<lambda>_. 700)) sample_ticks)
      (builder_init (assoc_map (>)) (assoc_map (<))) = Some b' \<and>
    builder_get_snapshot (assoc_map (>)) (assoc_map (<)) b 3 = Some s \<and>
    builder_get_snapshot (assoc_map (>)) (assoc_map (<)) b' 700 = Some s"
  by (rule hot_cold_equivalent [OF assoc_maps_ok sample_ticks_fit])
    (auto simp: sample_ticks_def sample_tick_def NUM_INSTRUMENTS_def)

text \<open>
  \<open>BookBuilder::get_snapshot\<close> has no upper guard: for an instrument the builder does not keep
  it reads past \<open>cold_books\<close>, although \<open>process_tick\<close> ignored the tick.
\<close>
lemma snapshot_beyond_cold: "NUM_INSTRUMENTS \<le> unat i \<Longrightarrow> builder_get_snapshot bo ao b i = None"
  by (simp add: builder_get_snapshot_def arr_get_def NUM_INSTRUMENTS_def NUM_HOT_def Let_def)

end
