(* ===== verification/Firm_Connector.thy ===== *)
theory Firm_Connector
  imports Firm_Codec Firm_Exec Firm_Book
begin

text \<open>
  The connector to the local exchange (\<open>network/LocalExchangeConnector.h\<close>,
  \<open>network/tcp_client.h\<close>): its configuration, the queue between the market-data thread and the
  transmit thread, and the two transmit loops over the TCP connections.

  The kernel's answers to \<open>send\<close> are an input: a list of results per connection. A loop that
  needs more answers than the list holds has the value \<open>None\<close>: it is still spinning.
\<close>

section \<open>The TCP client\<close>

text \<open>One call of \<open>send\<close>: bytes accepted (never more than offered), the two transient errors, a fatal error.\<close>

datatype send_result = Sent nat | Would_block | Interrupted | Send_failed

record TCPClient =
  tc_connected :: bool
  tc_kernel :: "send_result list"
  tc_wire :: bytes

text \<open>\<open>send_bytes\<close>: whether everything was sent, whether the connection survived, the bytes the kernel took and its further answers.\<close>

fun send_loop :: "bytes \<Rightarrow> nat \<Rightarrow> send_result list \<Rightarrow> bytes \<Rightarrow> (bool \<times> bool \<times> bytes \<times> send_result list) option" where
  "send_loop data total_sent ks wire =
     (if total_sent < length data then
        (case ks of
           [] \<Rightarrow> None
         | Sent n # ks' \<Rightarrow>
             (let sent = min n (length data - total_sent) in
              if sent > 0 then send_loop data (total_sent + sent) ks' (wire @ take sent (drop total_sent data))
              else Some (False, False, wire, ks'))
         | Would_block # ks' \<Rightarrow>
             if total_sent = 0 then Some (False, True, wire, ks') else send_loop data total_sent ks' wire
         | Interrupted # ks' \<Rightarrow> send_loop data total_sent ks' wire
         | Send_failed # ks' \<Rightarrow> Some (False, False, wire, ks'))
      else Some (True, True, wire, ks))"

declare send_loop.simps [simp del]

definition send_bytes :: "bytes \<Rightarrow> TCPClient \<Rightarrow> (bool \<times> TCPClient) option" where
  "send_bytes data c = do {
     (ok, alive, wire, ks) \<leftarrow> send_loop data 0 (tc_kernel c) (tc_wire c);
     Some (ok, c\<lparr>tc_kernel := ks, tc_wire := wire, tc_connected := tc_connected c \<and> alive\<rparr>)
   }"

lemma send_loop_step:
  assumes "send_loop data n0 (k # ks) wire = Some res" "n0 < length data"
  obtains (more) m where "0 < m" "n0 + m \<le> length data"
      "send_loop data (n0 + m) ks (wire @ take m (drop n0 data)) = Some res"
    | (again) "send_loop data n0 ks wire = Some res"
    | (stop) alive where "res = (False, alive, wire, ks)" "alive \<Longrightarrow> n0 = 0"
proof (cases k)
  case (Sent n)
  define m where "m = min n (length data - n0)"
  show thesis
    using assms Sent more [of m] stop [of False]
    by (auto simp: send_loop.simps [of data n0] Let_def m_def [symmetric] split: if_splits) (auto simp: m_def)
qed (use assms again stop in \<open>auto simp: send_loop.simps [of data n0] split: if_splits\<close>)

text \<open>What a call leaves: everything on the wire, or a proper prefix, which is empty while the connection lives.\<close>

definition send_outcome :: "bytes \<Rightarrow> nat \<Rightarrow> send_result list \<Rightarrow> bytes \<Rightarrow> bool \<times> bool \<times> bytes \<times> send_result list \<Rightarrow> bool" where
  "send_outcome data n0 ks wire = (\<lambda>(ok, alive, wire', ks').
     length ks' \<le> length ks \<and> (\<not> ok \<longrightarrow> length ks' < length ks) \<and>
     (ok \<longrightarrow> alive \<and> wire' = wire @ drop n0 data) \<and> (\<exists>n. wire' = wire @ take n (drop n0 data)) \<and>
     (\<not> ok \<longrightarrow> alive \<longrightarrow> n0 = 0 \<and> wire' = wire))"

lemma send_loop_outcome:
  "send_loop data n0 ks wire = Some res \<Longrightarrow> n0 \<le> length data \<Longrightarrow> send_outcome data n0 ks wire res"
proof (induction ks arbitrary: n0 wire)
  case (Cons k ks)
  show ?case
  proof (cases "n0 < length data")
    case True
    with Cons.prems(1) show ?thesis
    proof (cases rule: send_loop_step)
      case (more m)
      have "\<exists>j. take m (drop n0 data) @ take n (drop (n0 + m) data) = take j (drop n0 data)" for n
        by (rule exI [of _ "m + n"]) (simp add: take_add add.commute)
      moreover have "take m (drop n0 data) @ drop (n0 + m) data = drop n0 data"
        by (metis add.commute append_take_drop_id drop_drop)
      ultimately show ?thesis
        using Cons.IH [OF more(3,2)] more(1) by (cases res) (auto simp: send_outcome_def)
    next
      case again
      then show ?thesis
        using Cons.IH [OF again Cons.prems(2)] by (cases res) (auto simp: send_outcome_def)
    next
      case (stop alive)
      then show ?thesis by (auto simp: send_outcome_def intro: exI [of _ 0])
    qed
  qed (use Cons.prems in \<open>auto simp: send_loop.simps [of data "length data"] send_outcome_def\<close>)
qed (auto simp: send_loop.simps [of data] send_outcome_def split: if_splits)

lemma send_bytes_spec:
  assumes "send_bytes data c = Some (ok, c')"
  shows "\<not> ok \<Longrightarrow> length (tc_kernel c') < length (tc_kernel c)"
    and "\<exists>n. tc_wire c' = tc_wire c @ take n data" "ok \<Longrightarrow> tc_wire c' = tc_wire c @ data \<and> tc_connected c' = tc_connected c"
    and "\<not> ok \<Longrightarrow> tc_connected c' \<Longrightarrow> tc_wire c' = tc_wire c" "tc_connected c' \<Longrightarrow> tc_connected c"
  using assms send_loop_outcome [of data 0 "tc_kernel c" "tc_wire c"]
  by (auto simp: send_bytes_def send_outcome_def split: Option.bind_splits intro: exI [of _ "length data"])

text \<open>\<open>while (!send_bytes(..)) { if (!is_connected()) break; pause; }\<close>\<close>

function transmit :: "bytes \<Rightarrow> TCPClient \<Rightarrow> TCPClient option" where
  "transmit data c = do {
     (ok, c') \<leftarrow> send_bytes data c;
     if ok then Some c' else if \<not> tc_connected c' then Some c' else transmit data c'
   }"
  by pat_completeness auto
termination
proof (relation "measure (\<lambda>(data, c). length (tc_kernel c))", goal_cases)
  case (2 data c x ok c')
  then show ?case using send_bytes_spec(1) [of data c ok c'] by simp
qed simp

declare transmit.simps [simp del]

lemma transmit_spec:
  "transmit data c = Some c' \<Longrightarrow> (\<exists>n. tc_wire c' = tc_wire c @ take n data) \<and>
    (tc_connected c' \<longrightarrow> tc_connected c \<and> tc_wire c' = tc_wire c @ data)"
proof (induction data c rule: transmit.induct)
  case (1 data c)
  obtain ok c1 where s: "send_bytes data c = Some (ok, c1)"
    "(if ok then Some c1 else if \<not> tc_connected c1 then Some c1 else transmit data c1) = Some c'"
    using 1(2) by (auto simp: transmit.simps [of data c] split: Option.bind_splits)
  show ?case
    using 1(1) [OF s(1) refl] s(2) send_bytes_spec(2-) [OF s(1)] by (auto split: if_splits intro: exI [of _ "length data"])
qed

section \<open>The connector\<close>

definition MAX_FIRMS :: nat where "MAX_FIRMS = 16"
definition TOKEN_SLICE :: u64 where "TOKEN_SLICE = word_of_nat (MAX_CLIENT_ORDERS div MAX_FIRMS)"

record LocalExchangeConnector =
  lc_order_queue :: "NormalizedOrderAction spscq"
  lc_total_serialize_cycles :: u64
  lc_total_send_cycles :: u64
  lc_total_enqueue_cycles :: u64
  lc_total_dequeue_cycles :: u64
  lc_total_orders_sent :: u64
  lc_firm_id :: bytes
  lc_token_base :: u64
  lc_tcp_mode :: int
  lc_num_connections :: nat
  lc_tcp_clients :: "TCPClient list"
  lc_occupancies :: "nat list"

definition connector_init :: "(nat \<Rightarrow> NormalizedOrderAction) \<Rightarrow> LocalExchangeConnector" where
  "connector_init raw = \<lparr>lc_order_queue = spscq_init 1024 raw, lc_total_serialize_cycles = 0, lc_total_send_cycles = 0,
     lc_total_enqueue_cycles = 0, lc_total_dequeue_cycles = 0, lc_total_orders_sent = 0,
     lc_firm_id = map ch ''HFT1'', lc_token_base = 0, lc_tcp_mode = 2, lc_num_connections = 1,
     lc_tcp_clients = [], lc_occupancies = []\<rparr>"

text \<open>The environment variables \<open>initialize\<close> reads, after \<open>atoi\<close> and \<open>strtoull\<close>.\<close>

record connector_env =
  env_TCP_MODE :: "int option"
  env_GATEWAY_THREADS :: "int option"
  env_FIRM_ID :: "bytes option"
  env_TOKEN_BASE :: "u64 option"

text \<open>The configuration part of \<open>initialize\<close>; the flag is false where it returns false.\<close>

definition configure :: "connector_env \<Rightarrow> LocalExchangeConnector \<Rightarrow> bool \<times> LocalExchangeConnector" where
  "configure env c =
     (let c = (case env_TCP_MODE env of None \<Rightarrow> c | Some m \<Rightarrow> c\<lparr>lc_tcp_mode := m\<rparr>);
          n = (case env_GATEWAY_THREADS env of None \<Rightarrow> int (lc_num_connections c) | Some n \<Rightarrow> n);
          c = c\<lparr>lc_num_connections := (if n < 1 then 1 else nat n)\<rparr>;
          c = (case env_FIRM_ID env of None \<Rightarrow> c
               | Some f \<Rightarrow> c\<lparr>lc_firm_id := take 4 f @ replicate (4 - length (take 4 f)) (ch CHR '' '')\<rparr>);
          c = (case env_TOKEN_BASE env of None \<Rightarrow> c | Some b \<Rightarrow> c\<lparr>lc_token_base := b\<rparr>)
      in (\<not> lc_token_base c + TOKEN_SLICE > word_of_nat MAX_CLIENT_ORDERS, c))"

text \<open>\<open>send_order\<close>, on the market-data thread: spinning on a full queue is \<open>None\<close>. The clock is read before and after.\<close>

definition send_order :: "u64 \<times> u64 \<Rightarrow> NormalizedOrderAction \<Rightarrow> LocalExchangeConnector \<Rightarrow> LocalExchangeConnector option" where
  "send_order clk action_ref c =
     (let (t1, t2) = clk;
          action = action_ref\<lparr>na_t3_trading_enq := t1\<rparr>;
          c = c\<lparr>lc_occupancies := lc_occupancies c @ [spscq_size (lc_order_queue c)]\<rparr>;
          (pushed, q) = spscq_enqueue (lc_order_queue c) action
      in if pushed then Some (c\<lparr>lc_order_queue := q, lc_total_enqueue_cycles := lc_total_enqueue_cycles c + (t2 - t1)\<rparr>)
         else None)"

text \<open>\<open>stats\<close>: the counters the firm's monitor samples.\<close>

record ConnectorStats =
  st_orders_sent :: u64
  st_serialize_cycles :: u64
  st_send_cycles :: u64
  st_enqueue_cycles :: u64
  st_dequeue_cycles :: u64

definition connector_stats :: "LocalExchangeConnector \<Rightarrow> ConnectorStats" where
  "connector_stats c = \<lparr>st_orders_sent = lc_total_orders_sent c, st_serialize_cycles = lc_total_serialize_cycles c,
     st_send_cycles = lc_total_send_cycles c, st_enqueue_cycles = lc_total_enqueue_cycles c,
     st_dequeue_cycles = lc_total_dequeue_cycles c\<rparr>"

definition transmit_on :: "nat \<Rightarrow> bytes \<Rightarrow> LocalExchangeConnector \<Rightarrow> LocalExchangeConnector option" where
  "transmit_on conn_idx data c = do {
     client \<leftarrow> list_get (lc_tcp_clients c) conn_idx;
     client' \<leftarrow> transmit data client;
     Some (c\<lparr>lc_tcp_clients := (lc_tcp_clients c)[conn_idx := client']\<rparr>)
   }"

text \<open>The clock readings of one pass of the unbatched loop.\<close>

record tx_clock =
  tx_start_deq :: u64
  tx_end_deq :: u64
  tx_t1 :: u64
  tx_t2 :: u64
  tx_t3 :: u64

text \<open>One pass of the transmit thread in mode 1 or 2.\<close>

definition tx_step :: "tx_clock \<Rightarrow> LocalExchangeConnector \<Rightarrow> LocalExchangeConnector option" where
  "tx_step clk c =
     (let (item, q) = spscq_dequeue (lc_order_queue c); c = c\<lparr>lc_order_queue := q\<rparr> in
      case item of
        None \<Rightarrow> Some c
      | Some action \<Rightarrow> do {
          let c = c\<lparr>lc_total_dequeue_cycles := lc_total_dequeue_cycles c + (tx_end_deq clk - tx_start_deq clk)\<rparr>;
          let conn_idx = unat (na_instrument_id action) mod lc_num_connections c;
          data \<leftarrow> ouch_bytes (lc_firm_id c) (lc_token_base c) action (tx_end_deq clk);
          c \<leftarrow> transmit_on conn_idx data c;
          Some (c\<lparr>lc_total_serialize_cycles := lc_total_serialize_cycles c + (tx_t2 clk - tx_t1 clk),
                  lc_total_send_cycles := lc_total_send_cycles c + (tx_t3 clk - tx_t2 clk),
                  lc_total_orders_sent := lc_total_orders_sent c + 1\<rparr>)
        })"

end
