(* ===== verification/Firm_Transmit.thy ===== *)
theory Firm_Transmit
  imports Firm_Connector
begin

text \<open>
  The transmit thread of the connector over many passes (\<open>network_tx_thread\<close> of
  \<open>network/LocalExchangeConnector.h\<close>): the unbatched loop of modes 1 and 2, which writes one
  message per queued action, and the batched loop of mode 3, which collects up to 64 orders and
  writes one block per connection.

  The kernel is only required to make progress: \<open>progress\<close> counts the answers of a
  connection that accept at least one byte. With one such answer per byte to send, every loop
  returns.
\<close>

section \<open>Progress of the kernel\<close>

fun makes_progress :: "send_result \<Rightarrow> bool" where
  "makes_progress (Sent n) = (0 < n)"
| "makes_progress _ = False"

definition progress :: "send_result list \<Rightarrow> nat" where
  "progress ks = length (filter makes_progress ks)"

lemma progress_simps [simp]:
  "progress [] = 0" "progress (k # ks) = (if makes_progress k then 1 else 0) + progress ks"
  by (simp_all add: progress_def)

lemma send_loop_returns:
  "length data - n0 \<le> progress ks \<Longrightarrow> \<exists>ok alive wire' ks'. send_loop data n0 ks wire = Some (ok, alive, wire', ks') \<and>
    progress ks \<le> progress ks' + (length data - n0) \<and> (\<not> ok \<longrightarrow> alive \<longrightarrow> n0 = 0 \<longrightarrow> progress ks \<le> progress ks')"
proof (induction ks arbitrary: n0 wire)
  case (Cons k ks)
  show ?case
  proof (cases "n0 < length data")
    case True
    show ?thesis
    proof (cases k)
      case (Sent n)
      define m where "m = min n (length data - n0)"
      show ?thesis
      proof (cases "0 < n")
        case pos: True
        have m: "0 < m" "n0 + m \<le> length data" using pos True by (auto simp: m_def)
        have "length data - (n0 + m) \<le> progress ks" using Cons.prems m pos Sent by simp
        from Cons.IH [OF this] obtain ok alive wire' ks' where IH:
          "send_loop data (n0 + m) ks (wire @ take m (drop n0 data)) = Some (ok, alive, wire', ks')"
          "progress ks \<le> progress ks' + (length data - (n0 + m))" by blast
        have "send_loop data n0 (k # ks) wire = Some (ok, alive, wire', ks')"
          using m(1) True Sent IH(1) by (simp add: send_loop.simps [of data n0 "Sent n # ks"] Let_def m_def [symmetric])
        moreover have "\<not> (\<not> ok \<and> alive)"
          using send_loop_outcome [OF IH(1) m(2)] m(1) by (auto simp: send_outcome_def)
        ultimately show ?thesis using IH(2) m pos Sent by auto
      qed (use True Sent in \<open>auto simp: send_loop.simps [of data n0 "Sent 0 # ks"]\<close>)
    next
      case Interrupted
      then show ?thesis
        using True Cons.IH [of n0 wire] Cons.prems by (simp add: send_loop.simps [of data n0 "Interrupted # ks"])
    next
      case Would_block
      then show ?thesis
        using True Cons.IH [of n0 wire] Cons.prems by (auto simp: send_loop.simps [of data n0 "Would_block # ks"])
    qed (use True in \<open>auto simp: send_loop.simps [of data n0 "Send_failed # ks"]\<close>)
  qed (auto simp: send_loop.simps [of data n0 "k # ks"])
qed (auto simp: send_loop.simps [of data _ "[]"])

lemma transmit_returns:
  "length data \<le> progress (tc_kernel c) \<Longrightarrow> \<exists>c'. transmit data c = Some c' \<and>
    progress (tc_kernel c) \<le> progress (tc_kernel c') + length data"
proof (induction data c rule: transmit.induct)
  case (1 data c)
  from send_loop_returns [of data 0 "tc_kernel c" "tc_wire c"] 1(2)
  obtain ok alive wire' ks' where s: "send_loop data 0 (tc_kernel c) (tc_wire c) = Some (ok, alive, wire', ks')"
    "progress (tc_kernel c) \<le> progress ks' + length data" "\<not> ok \<longrightarrow> alive \<longrightarrow> progress (tc_kernel c) \<le> progress ks'"
    by auto
  define c1 where "c1 = c\<lparr>tc_kernel := ks', tc_wire := wire', tc_connected := tc_connected c \<and> alive\<rparr>"
  have b: "send_bytes data c = Some (ok, c1)" by (simp add: send_bytes_def s(1) c1_def)
  show ?case
  proof (cases "ok \<or> \<not> tc_connected c1")
    case True
    then show ?thesis using s(2) b by (auto simp: transmit.simps [of data c] c1_def)
  next
    case False
    then have le: "progress (tc_kernel c) \<le> progress (tc_kernel c1)" using s(3) by (simp add: c1_def)
    then obtain c' where "transmit data c1 = Some c'" "progress (tc_kernel c1) \<le> progress (tc_kernel c') + length data"
      using 1(1) [OF b refl] False 1(2) by auto
    then show ?thesis using le b False by (auto simp: transmit.simps [of data c])
  qed
qed

text \<open>Answers other than a failure: bytes taken, a full buffer, an interruption. None of them ends the connection.\<close>

fun never_fails :: "send_result \<Rightarrow> bool" where
  "never_fails (Sent n) = (0 < n)"
| "never_fails Send_failed = False"
| "never_fails _ = True"

lemma send_loop_alive:
  "send_loop data n0 ks wire = Some (ok, alive, wire', ks') \<Longrightarrow> n0 \<le> length data \<Longrightarrow>
   set ks' \<subseteq> set ks \<and> ((\<forall>k \<in> set ks. never_fails k) \<longrightarrow> alive)"
proof (induction ks arbitrary: n0 wire)
  case (Cons k ks)
  show ?case
  proof (cases "n0 < length data")
    case True
    show ?thesis
    proof (cases k)
      case (Sent n)
      define m where "m = min n (length data - n0)"
      have m: "n0 + m \<le> length data" "m > 0 \<longleftrightarrow> n > 0" using True by (auto simp: m_def)
      have eq: "(if m > 0 then send_loop data (n0 + m) ks (wire @ take m (drop n0 data)) else Some (False, False, wire, ks)) =
          Some (ok, alive, wire', ks')"
        using Cons.prems(1) True by (simp add: send_loop.simps [of data n0 "Sent n # ks"] Sent Let_def m_def split: if_splits)
      show ?thesis using eq Cons.IH [OF _ m(1)] m(2) by (fastforce simp: Sent split: if_splits)
    next
      case Would_block
      have "(if n0 = 0 then Some (False, True, wire, ks) else send_loop data n0 ks wire) = Some (ok, alive, wire', ks')"
        using Cons.prems(1) True by (simp add: send_loop.simps [of data n0 "Would_block # ks"] Would_block split: if_splits)
      then show ?thesis using Cons.IH [OF _ Cons.prems(2)] by (fastforce split: if_splits)
    next
      case Interrupted
      have "send_loop data n0 ks wire = Some (ok, alive, wire', ks')"
        using Cons.prems(1) True by (simp add: send_loop.simps [of data n0 "Interrupted # ks"] Interrupted)
      then show ?thesis using Cons.IH [OF _ Cons.prems(2)] by fastforce
    next
      case Send_failed
      then show ?thesis using Cons.prems(1) True by (auto simp: send_loop.simps [of data n0 "Send_failed # ks"])
    qed
  next
    case False
    then show ?thesis using Cons.prems by (auto simp: send_loop.simps [of data "length data" "k # ks"])
  qed
qed (auto simp: send_loop.simps [of data _ "[]"] split: if_splits)

definition survives :: "TCPClient \<Rightarrow> TCPClient \<Rightarrow> bool" where
  "survives c c' \<longleftrightarrow> set (tc_kernel c') \<subseteq> set (tc_kernel c) \<and>
     (tc_connected c \<and> (\<forall>k \<in> set (tc_kernel c). never_fails k) \<longrightarrow> tc_connected c')"

lemma survives_refl [simp]: "survives c c"
  by (simp add: survives_def)

lemma survives_trans: "survives c c' \<Longrightarrow> survives c' c'' \<Longrightarrow> survives c c''"
  unfolding survives_def by blast

lemma transmit_alive: "transmit data c = Some c' \<Longrightarrow> survives c c'"
proof (induction data c rule: transmit.induct)
  case (1 data c)
  obtain ok alive wire' ks' where s: "send_loop data 0 (tc_kernel c) (tc_wire c) = Some (ok, alive, wire', ks')"
    using 1(2) by (auto simp: transmit.simps [of data c] send_bytes_def split: Option.bind_splits)
  define c1 where "c1 = c\<lparr>tc_kernel := ks', tc_wire := wire', tc_connected := tc_connected c \<and> alive\<rparr>"
  have b: "send_bytes data c = Some (ok, c1)" by (simp add: send_bytes_def s c1_def)
  have rest: "if ok then c' = c1 else if \<not> tc_connected c1 then c' = c1 else transmit data c1 = Some c'"
    using 1(2) b by (simp add: transmit.simps [of data c] split: if_splits)
  show ?case
  proof -
    have "survives c c1" using send_loop_alive [OF s] by (auto simp: survives_def c1_def)
    moreover have "survives c1 c'" using 1(1) [OF b refl] rest by (cases ok; cases "tc_connected c1") auto
    ultimately show ?thesis by (rule survives_trans)
  qed
qed

section \<open>One connection\<close>

text \<open>
  A connection after some messages: while it is still connected, exactly these messages follow
  what was on the wire before; and it stays connected unless the kernel reports a failure.
\<close>

definition carried :: "TCPClient \<Rightarrow> bytes list \<Rightarrow> TCPClient \<Rightarrow> bool" where
  "carried c fs c' \<longleftrightarrow> (tc_connected c' \<longrightarrow> tc_connected c \<and> tc_wire c' = tc_wire c @ concat fs) \<and>
     progress (tc_kernel c) \<le> progress (tc_kernel c') + length (concat fs) \<and> survives c c'"

lemma carried_refl [simp]: "carried c [] c"
  by (simp add: carried_def)

lemma carried_trans: "carried c fs c' \<Longrightarrow> carried c' gs c'' \<Longrightarrow> carried c (fs @ gs) c''"
  using survives_trans [of c c' c''] by (auto simp: carried_def)

lemma transmit_carried:
  "length data \<le> progress (tc_kernel c) \<Longrightarrow> concat fs = data \<Longrightarrow> \<exists>c'. transmit data c = Some c' \<and> carried c fs c'"
  using transmit_returns [of data c] transmit_spec [of data c] transmit_alive [of data c] by (auto simp: carried_def)

section \<open>Unbatched passes\<close>

definition connector_ok :: "LocalExchangeConnector \<Rightarrow> bool" where
  "connector_ok c \<longleftrightarrow> spscq_ok (lc_order_queue c) \<and> 0 < lc_num_connections c \<and>
     length (lc_tcp_clients c) = lc_num_connections c \<and> length (lc_firm_id c) = 4"

definition conn_of :: "LocalExchangeConnector \<Rightarrow> NormalizedOrderAction \<Rightarrow> nat" where
  "conn_of c a = unat (na_instrument_id a) mod lc_num_connections c"

lemma conn_of_less: "connector_ok c \<Longrightarrow> conn_of c a < length (lc_tcp_clients c)"
  by (simp add: connector_ok_def conn_of_def)

text \<open>The settings a pass does not change.\<close>

definition same_setup :: "LocalExchangeConnector \<Rightarrow> LocalExchangeConnector \<Rightarrow> bool" where
  "same_setup c c' \<longleftrightarrow> lc_num_connections c' = lc_num_connections c \<and> lc_firm_id c' = lc_firm_id c \<and>
     lc_token_base c' = lc_token_base c \<and> lc_tcp_mode c' = lc_tcp_mode c \<and> length (lc_tcp_clients c') = length (lc_tcp_clients c)"

lemma same_setup_trans: "same_setup c c' \<Longrightarrow> same_setup c' c'' \<Longrightarrow> same_setup c c''"
  by (simp add: same_setup_def)

lemma same_setup_conn: "same_setup c c' \<Longrightarrow> conn_of c' = conn_of c"
  by (simp add: same_setup_def conn_of_def fun_eq_iff)

lemma ouch_message:
  assumes "length firm = 4" "sendable base a"
  obtains b where "ouch_bytes firm base a t4 = Some b" "message_of firm base a b" "b \<noteq> []"
    "msg_size (hd b) = Some (length b)" "length b \<le> 81"
proof -
  obtain b where "ouch_bytes firm base a t4 = Some b" "message_of firm base a b" "b \<noteq> []" "msg_size (hd b) = Some (length b)"
    using ouch_bytes_ok [OF assms(1), of base a t4] assms(2) by (auto simp: sendable_def)
  with that msg_size_pos show thesis by blast
qed

text \<open>The message one pass appends on its connection.\<close>

definition well_formed :: "LocalExchangeConnector \<Rightarrow> NormalizedOrderAction \<Rightarrow> bytes \<Rightarrow> bool" where
  "well_formed c a b \<longleftrightarrow> message_of (lc_firm_id c) (lc_token_base c) a b \<and> b \<noteq> [] \<and> msg_size (hd b) = Some (length b)"

lemma tx_step_sends:
  assumes ok: "connector_ok c" and items: "spscq_items (lc_order_queue c) = a # rest"
    and a: "sendable (lc_token_base c) a"
    and room: "\<forall>cl \<in> set (lc_tcp_clients c). 81 \<le> progress (tc_kernel cl)"
  shows "\<exists>c' b. tx_step clk c = Some c' \<and> connector_ok c' \<and> same_setup c c' \<and> spscq_items (lc_order_queue c') = rest \<and>
    well_formed c a b \<and> length b \<le> 81 \<and>
    (\<forall>j < length (lc_tcp_clients c). carried (lc_tcp_clients c ! j) (if j = conn_of c a then [b] else []) (lc_tcp_clients c' ! j))"
proof -
  obtain q where q: "spscq_dequeue (lc_order_queue c) = (Some a, q)" "spscq_ok q" "spscq_items q = rest"
    using spscq.pop_cons [OF _ items] ok by (auto simp: connector_ok_def)
  obtain b where b: "ouch_bytes (lc_firm_id c) (lc_token_base c) a (tx_end_deq clk) = Some b"
    "message_of (lc_firm_id c) (lc_token_base c) a b" "b \<noteq> []" "msg_size (hd b) = Some (length b)" "length b \<le> 81"
    using ouch_message [OF _ a] ok by (auto simp: connector_ok_def)
  define k where "k = conn_of c a"
  have k: "k < length (lc_tcp_clients c)" using conn_of_less [OF ok] by (simp add: k_def)
  have "length b \<le> progress (tc_kernel (lc_tcp_clients c ! k))" using room b(5) nth_mem [OF k] by fastforce
  then obtain cl where cl: "transmit b (lc_tcp_clients c ! k) = Some cl" "carried (lc_tcp_clients c ! k) [b] cl"
    using transmit_carried [of b _ "[b]"] by auto
  have wf: "well_formed c a b" using b(2-4) by (simp add: well_formed_def)
  let ?c = "c\<lparr>lc_order_queue := q, lc_tcp_clients := (lc_tcp_clients c)[k := cl],
    lc_total_serialize_cycles := lc_total_serialize_cycles c + (tx_t2 clk - tx_t1 clk),
    lc_total_send_cycles := lc_total_send_cycles c + (tx_t3 clk - tx_t2 clk),
    lc_total_dequeue_cycles := lc_total_dequeue_cycles c + (tx_end_deq clk - tx_start_deq clk),
    lc_total_orders_sent := lc_total_orders_sent c + 1\<rparr>"
  have run: "tx_step clk c = Some ?c"
    using q(1) b(1) cl(1) k by (simp add: tx_step_def Let_def transmit_on_def list_get_in k_def conn_of_def)
  show ?thesis
    by (rule exI [of _ ?c], rule exI [of _ b])
      (use run wf b(5) q(2,3) cl(2) ok k in \<open>auto simp: connector_ok_def same_setup_def k_def [symmetric] nth_list_update\<close>)
qed

fun tx_run :: "tx_clock list \<Rightarrow> LocalExchangeConnector \<Rightarrow> LocalExchangeConnector option" where
  "tx_run [] c = Some c"
| "tx_run (clk # clks) c = do { c' \<leftarrow> tx_step clk c; tx_run clks c' }"

lemma tx_run_sends:
  assumes "connector_ok c" "spscq_items (lc_order_queue c) = as" "length clks = length as"
    and "\<forall>a \<in> set as. sendable (lc_token_base c) a"
    and "\<forall>cl \<in> set (lc_tcp_clients c). 81 * length as \<le> progress (tc_kernel cl)"
  shows "\<exists>c' fs. tx_run clks c = Some c' \<and> connector_ok c' \<and> same_setup c c' \<and> spscq_items (lc_order_queue c') = [] \<and>
    list_all2 (well_formed c) as fs \<and>
    (\<forall>j < length (lc_tcp_clients c). carried (lc_tcp_clients c ! j)
       (map snd (filter (\<lambda>x. conn_of c (fst x) = j) (zip as fs))) (lc_tcp_clients c' ! j))"
  using assms
proof (induction as arbitrary: c clks)
  case Nil
  then show ?case by (auto simp: same_setup_def)
next
  case (Cons a as)
  obtain clk clks' where clks: "clks = clk # clks'" "length clks' = length as" using Cons.prems(3) by (cases clks) auto
  have room: "81 \<le> progress (tc_kernel cl)" if "cl \<in> set (lc_tcp_clients c)" for cl
    using Cons.prems(5) that by fastforce
  obtain c1 b where c1: "tx_step clk c = Some c1" "connector_ok c1" "same_setup c c1" "spscq_items (lc_order_queue c1) = as"
    "well_formed c a b" "length b \<le> 81" and car: "\<And>j. j < length (lc_tcp_clients c) \<Longrightarrow>
      carried (lc_tcp_clients c ! j) (if j = conn_of c a then [b] else []) (lc_tcp_clients c1 ! j)"
    using tx_step_sends [OF Cons.prems(1,2), of clk] Cons.prems(4) room by auto
  have "81 * length as \<le> progress (tc_kernel cl)" if "cl \<in> set (lc_tcp_clients c1)" for cl
  proof -
    obtain j where j: "j < length (lc_tcp_clients c)" "cl = lc_tcp_clients c1 ! j"
      using \<open>cl \<in> _\<close> c1(3) by (auto simp: in_set_conv_nth same_setup_def)
    have "81 * Suc (length as) \<le> progress (tc_kernel (lc_tcp_clients c ! j))" using Cons.prems(5) j(1) by simp
    then show ?thesis using car [OF j(1)] c1(6) j(2) by (auto simp: carried_def split: if_splits)
  qed
  then obtain c' fs where c': "tx_run clks' c1 = Some c'" "connector_ok c'" "same_setup c1 c'"
    "spscq_items (lc_order_queue c') = []" "list_all2 (well_formed c1) as fs"
    and car': "\<And>j. j < length (lc_tcp_clients c1) \<Longrightarrow> carried (lc_tcp_clients c1 ! j)
       (map snd (filter (\<lambda>x. conn_of c1 (fst x) = j) (zip as fs))) (lc_tcp_clients c' ! j)"
    using Cons.IH [OF c1(2,4) clks(2)] Cons.prems(4) c1(3) by (auto simp: same_setup_def)
  have wf: "well_formed c1 = well_formed c" using c1(3) by (auto simp: well_formed_def same_setup_def fun_eq_iff)
  have "carried (lc_tcp_clients c ! j) (map snd (filter (\<lambda>x. conn_of c (fst x) = j) (zip (a # as) (b # fs)))) (lc_tcp_clients c' ! j)"
    if j: "j < length (lc_tcp_clients c)" for j
    using carried_trans [OF car [OF j], of _ "lc_tcp_clients c' ! j"] car' [of j] c1(3) j same_setup_conn [OF c1(3)]
    by (auto simp: same_setup_def split: if_splits)
  then show ?case
    using c1(1,5) c' clks(1) same_setup_trans [OF c1(3) c'(3)] wf
    by (intro exI [of _ c'] exI [of _ "b # fs"]) simp
qed

section \<open>Batched passes\<close>

definition TX_BATCH :: nat where "TX_BATCH = 64"

lemma dequeue_shrinks:
  "spscq_dequeue q = (Some a, q') \<Longrightarrow> unat (sq_tail q' - sq_head q') < unat (sq_tail q - sq_head q)"
proof -
  assume "spscq_dequeue q = (Some a, q')"
  then have q': "q' = q\<lparr>sq_head := sq_head q + 1\<rparr>" and ne: "sq_tail q - sq_head q \<noteq> 0"
    by (auto simp: spscq_dequeue_def Let_def split: if_splits)
  have "sq_tail q' - sq_head q' = (sq_tail q - sq_head q) - 1" by (simp add: q' algebra_simps)
  then show ?thesis using ne by (simp add: unat_minus_one unat_gt_0)
qed

text \<open>
  The collecting loop of mode 3. \<open>batches i\<close> holds the first \<open>batch_counts[i]\<close> entries of the
  connection's 64 slots; writing past them is \<open>None\<close>. A cancel is dequeued and nothing else
  happens to it. \<open>clk k\<close> is the clock reading for the order number \<open>k\<close> of the pass.
\<close>

function batch_loop :: "(nat \<Rightarrow> u64) \<Rightarrow> nat \<Rightarrow> (nat \<Rightarrow> OuchEnterOrder list) \<Rightarrow> LocalExchangeConnector \<Rightarrow>
    (nat \<times> (nat \<Rightarrow> OuchEnterOrder list) \<times> LocalExchangeConnector) option" where
  "batch_loop clk total_processed batches c =
     (if total_processed < TX_BATCH then
        (case spscq_dequeue (lc_order_queue c) of
           (None, q) \<Rightarrow> Some (total_processed, batches, c\<lparr>lc_order_queue := q\<rparr>)
         | (Some action, q) \<Rightarrow>
             let c = c\<lparr>lc_order_queue := q\<rparr> in
             if \<not> na_is_cancel action then do {
               let conn_idx = unat (na_instrument_id action) mod lc_num_connections c;
               req \<leftarrow> ouch_enter (lc_firm_id c) (lc_token_base c) action (clk total_processed);
               if length (batches conn_idx) < TX_BATCH
               then batch_loop clk (total_processed + 1) (batches(conn_idx := batches conn_idx @ [req])) c
               else None
             } else batch_loop clk total_processed batches c)
      else Some (total_processed, batches, c))"
  by pat_completeness auto
termination
  by (relation "measure (\<lambda>(clk, k, bs, c). unat (sq_tail (lc_order_queue c) - sq_head (lc_order_queue c)))")
    (auto dest: dequeue_shrinks [OF sym])

declare batch_loop.simps [simp del]

fun flush_batches :: "nat list \<Rightarrow> (nat \<Rightarrow> OuchEnterOrder list) \<Rightarrow> LocalExchangeConnector \<Rightarrow> LocalExchangeConnector option" where
  "flush_batches [] batches c = Some c"
| "flush_batches (i # js) batches c =
     (if length (batches i) > 0 then do {
        c \<leftarrow> transmit_on i (concat (map enc_enter_order (batches i))) c;
        flush_batches js batches
          (c\<lparr>lc_total_orders_sent := lc_total_orders_sent c + word_of_nat (length (batches i))\<rparr>)
      } else flush_batches js batches c)"

definition tx_batch :: "(nat \<Rightarrow> u64) \<Rightarrow> u64 \<times> u64 \<Rightarrow> LocalExchangeConnector \<Rightarrow> LocalExchangeConnector option" where
  "tx_batch clk t12 c = do {
     (total_processed, batches, c) \<leftarrow> batch_loop clk 0 (\<lambda>_. []) c;
     if total_processed > 0 then do {
       c \<leftarrow> flush_batches [0 ..< lc_num_connections c] batches c;
       Some (c\<lparr>lc_total_send_cycles := lc_total_send_cycles c + (snd t12 - fst t12)\<rparr>)
     } else Some c
   }"

text \<open>One turn of the thread's loop, by the configured mode; \<open>bclk\<close> are the clock readings of a batch.\<close>

definition tx_pass :: "tx_clock \<Rightarrow> (nat \<Rightarrow> u64) \<Rightarrow> LocalExchangeConnector \<Rightarrow> LocalExchangeConnector option" where
  "tx_pass clk bclk c = (if lc_tcp_mode c = 3 then tx_batch bclk (tx_t1 clk, tx_t2 clk) c else tx_step clk c)"

fun tx_thread :: "(tx_clock \<times> (nat \<Rightarrow> u64)) list \<Rightarrow> LocalExchangeConnector \<Rightarrow> LocalExchangeConnector option" where
  "tx_thread [] c = Some c"
| "tx_thread ((clk, bclk) # clks) c = do { c' \<leftarrow> tx_pass clk bclk c; tx_thread clks c' }"

lemma tx_step_mode: "tx_step clk c = Some c' \<Longrightarrow> lc_tcp_mode c' = lc_tcp_mode c"
  by (auto simp: tx_step_def transmit_on_def Let_def split: prod.splits option.splits Option.bind_splits)

lemma tx_thread_unbatched: "lc_tcp_mode c \<noteq> 3 \<Longrightarrow> tx_thread clks c = tx_run (map fst clks) c"
proof (induction clks arbitrary: c)
  case (Cons x clks)
  then show ?case by (cases x; cases "tx_step (fst x) c") (auto simp: tx_pass_def dest: tx_step_mode)
qed simp

text \<open>The orders a pass takes from the queue: up to 64 of them, with the cancels between them.\<close>

fun batch_split :: "nat \<Rightarrow> NormalizedOrderAction list \<Rightarrow> NormalizedOrderAction list \<times> NormalizedOrderAction list" where
  "batch_split 0 as = ([], as)"
| "batch_split n [] = ([], [])"
| "batch_split (Suc n) (a # as) =
     (let (xs, ys) = batch_split (if na_is_cancel a then Suc n else n) as in (if na_is_cancel a then (xs, ys) else (a # xs, ys)))"

lemma batch_split_spec:
  "batch_split n as = (xs, ys) \<Longrightarrow> length xs \<le> n \<and> (\<exists>pre. as = pre @ ys \<and> xs = filter (\<lambda>a. \<not> na_is_cancel a) pre) \<and>
    (ys = [] \<or> length xs = n)"
proof (induction n as arbitrary: xs rule: batch_split.induct)
  case (3 n a as)
  obtain xs1 where s: "batch_split (if na_is_cancel a then Suc n else n) as = (xs1, ys)"
    "xs = (if na_is_cancel a then xs1 else a # xs1)"
    using 3(2) by (auto split: prod.splits if_splits)
  note IH = 3(1) [OF s(1)]
  then obtain pre where "as = pre @ ys" "xs1 = filter (\<lambda>a. \<not> na_is_cancel a) pre" by blast
  then show ?case using IH s(2) by (auto intro!: exI [of _ "a # pre"])
qed auto

definition request_for :: "LocalExchangeConnector \<Rightarrow> NormalizedOrderAction \<Rightarrow> OuchEnterOrder \<Rightarrow> bool" where
  "request_for c a r \<longleftrightarrow> (\<exists>t4. ouch_enter (lc_firm_id c) (lc_token_base c) a t4 = Some r)"

text \<open>The entries of one connection among a list of actions with their messages.\<close>

definition share :: "LocalExchangeConnector \<Rightarrow> nat \<Rightarrow> NormalizedOrderAction list \<Rightarrow> 'a list \<Rightarrow> 'a list" where
  "share c j as ms = map snd (filter (\<lambda>x. conn_of c (fst x) = j) (zip as ms))"

lemma share_Cons: "share c j (a # as) (m # ms) = (if conn_of c a = j then [m] else []) @ share c j as ms"
  by (simp add: share_def)

lemma batch_loop_collects:
  assumes "spscq_ok (lc_order_queue c)" "spscq_items (lc_order_queue c) = as"
    and "\<forall>a \<in> set as. sendable (lc_token_base c) a" "\<forall>i. length (bs i) \<le> k" "k \<le> TX_BATCH"
    and "batch_split (TX_BATCH - k) as = (xs, ys)"
  shows "\<exists>q' rs. batch_loop clk k bs c = Some (k + length xs, \<lambda>i. bs i @ share c i xs rs, c\<lparr>lc_order_queue := q'\<rparr>) \<and>
    spscq_ok q' \<and> spscq_items q' = ys \<and> list_all2 (request_for c) xs rs"
  using assms
proof (induction as arbitrary: c bs k xs)
  case Nil
  obtain q where "spscq_dequeue (lc_order_queue c) = (None, q)" "spscq_ok q" "spscq_items q = []"
    using spscq.pop_empty [OF Nil(1,2)] by blast
  moreover have "xs = []" "ys = []" using Nil.prems(6) by (cases "TX_BATCH - k"; simp)+
  ultimately show ?case
    using Nil.prems(1,2) by (cases "k < TX_BATCH")
      (auto simp: batch_loop.simps [of clk k bs c] share_def intro: exI [of _ "lc_order_queue c"])
next
  case (Cons a as)
  show ?case
  proof (cases "k < TX_BATCH")
    case False
    then show ?thesis
      using Cons.prems
      by (intro exI [of _ "lc_order_queue c"] exI [of _ "[]"]) (auto simp: batch_loop.simps [of clk TX_BATCH bs c] share_def)
  next
    case True
    then obtain n where n: "TX_BATCH - k = Suc n" by (cases "TX_BATCH - k") auto
    obtain q where q: "spscq_dequeue (lc_order_queue c) = (Some a, q)" "spscq_ok q" "spscq_items q = as"
      using spscq.pop_cons [OF Cons.prems(1,2)] by blast
    let ?c = "c\<lparr>lc_order_queue := q\<rparr>"
    have same: "share ?c = share c" "request_for ?c = request_for c"
      by (simp_all add: share_def request_for_def conn_of_def fun_eq_iff)
    show ?thesis
    proof (cases "na_is_cancel a")
      case cancel: True
      have split: "batch_split (TX_BATCH - k) as = (xs, ys)" using Cons.prems(6) n cancel by (auto split: prod.splits)
      show ?thesis
        using Cons.IH [of ?c bs k xs] q Cons.prems(3-5) split True cancel
        unfolding same by (fastforce simp: batch_loop.simps [of clk k bs c])
    next
      case order: False
      have "n = TX_BATCH - Suc k" using n by simp
      then obtain xs1 where xs: "xs = a # xs1" and split: "batch_split (TX_BATCH - Suc k) as = (xs1, ys)"
        using Cons.prems(6) n order by (auto split: prod.splits)
      obtain r where r: "ouch_enter (lc_firm_id c) (lc_token_base c) a (clk k) = Some r"
        using Cons.prems(3) by (auto simp: sendable_def ouch_enter_def format_token_eq)
      define i where "i = conn_of c a"
      have small: "length (bs i) < TX_BATCH" using Cons.prems(4) True le_less_trans by blast
      define bs' where "bs' = bs(i := bs i @ [r])"
      have "\<forall>j. length (bs' j) \<le> Suc k" using Cons.prems(4) by (auto simp: bs'_def le_SucI)
      then obtain q' rs where IH: "batch_loop clk (Suc k) bs' ?c =
          Some (Suc k + length xs1, \<lambda>j. bs' j @ share c j xs1 rs, c\<lparr>lc_order_queue := q'\<rparr>)"
        "spscq_ok q'" "spscq_items q' = ys" "list_all2 (request_for c) xs1 rs"
        using Cons.IH [of ?c bs' "Suc k" xs1] q Cons.prems(3) True split unfolding same by auto
      have "(\<lambda>j. bs' j @ share c j xs1 rs) = (\<lambda>j. bs j @ share c j xs (r # rs))"
        by (auto simp: fun_eq_iff xs share_Cons i_def bs'_def)
      moreover have "batch_loop clk k bs c = batch_loop clk (Suc k) bs' ?c"
        using True q(1) order r small by (simp add: batch_loop.simps [of clk k bs c] i_def conn_of_def Let_def bs'_def)
      moreover have "request_for c a r" using r by (auto simp: request_for_def)
      ultimately show ?thesis using IH xs by (intro exI [of _ q'] exI [of _ "r # rs"]) simp
    qed
  qed
qed

lemma flush_batches_sends:
  assumes "distinct js" "\<forall>j \<in> set js. j < length (lc_tcp_clients c)"
    and "\<forall>j \<in> set js. length (concat (map enc_enter_order (bs j))) \<le> progress (tc_kernel (lc_tcp_clients c ! j))"
  shows "\<exists>c'. flush_batches js bs c = Some c' \<and> same_setup c c' \<and> lc_order_queue c' = lc_order_queue c \<and>
    (\<forall>j < length (lc_tcp_clients c). carried (lc_tcp_clients c ! j)
       (if j \<in> set js then map enc_enter_order (bs j) else []) (lc_tcp_clients c' ! j))"
  using assms
proof (induction js arbitrary: c)
  case Nil
  then show ?case by (simp add: same_setup_def)
next
  case (Cons i js)
  show ?case
  proof (cases "bs i = []")
    case True
    obtain c' where c': "flush_batches js bs c = Some c'" "same_setup c c'" "lc_order_queue c' = lc_order_queue c"
      "\<And>j. j < length (lc_tcp_clients c) \<Longrightarrow> carried (lc_tcp_clients c ! j)
        (if j \<in> set js then map enc_enter_order (bs j) else []) (lc_tcp_clients c' ! j)"
      using Cons.IH [of c] Cons.prems by (metis distinct.simps(2) list.set_intros(2))
    have "carried (lc_tcp_clients c ! j) (if j \<in> set (i # js) then map enc_enter_order (bs j) else []) (lc_tcp_clients c' ! j)"
      if "j < length (lc_tcp_clients c)" for j
      using c'(4) [OF that] True by (cases "j \<in> set js"; cases "j = i") simp_all
    moreover have "flush_batches (i # js) bs c = Some c'" using True c'(1) by simp
    ultimately show ?thesis using c'(2,3) by blast
  next
    case False
    define data where "data = concat (map enc_enter_order (bs i))"
    have "length data \<le> progress (tc_kernel (lc_tcp_clients c ! i))" using Cons.prems(3) by (simp only: data_def list.set_intros)
    from transmit_carried [OF this data_def [symmetric]]
    obtain cl where cl: "transmit data (lc_tcp_clients c ! i) = Some cl" "carried (lc_tcp_clients c ! i) (map enc_enter_order (bs i)) cl"
      by blast
    define c1 where "c1 = c\<lparr>lc_tcp_clients := (lc_tcp_clients c)[i := cl],
      lc_total_orders_sent := lc_total_orders_sent c + word_of_nat (length (bs i))\<rparr>"
    have run: "flush_batches (i # js) bs c = flush_batches js bs c1"
      using False cl(1) Cons.prems(2) by (simp add: data_def transmit_on_def list_get_in c1_def)
    have c1: "same_setup c c1" "lc_order_queue c1 = lc_order_queue c" "lc_tcp_clients c1 ! i = cl"
      "\<And>j. j \<noteq> i \<Longrightarrow> lc_tcp_clients c1 ! j = lc_tcp_clients c ! j" "length (lc_tcp_clients c1) = length (lc_tcp_clients c)"
      using Cons.prems(2) by (simp_all add: c1_def same_setup_def)
    have nj: "\<And>j. j \<in> set js \<Longrightarrow> j \<noteq> i" using Cons.prems(1) by auto
    obtain c' where c': "flush_batches js bs c1 = Some c'" "same_setup c1 c'" "lc_order_queue c' = lc_order_queue c1"
      "\<And>j. j < length (lc_tcp_clients c) \<Longrightarrow> carried (lc_tcp_clients c1 ! j)
        (if j \<in> set js then map enc_enter_order (bs j) else []) (lc_tcp_clients c' ! j)"
      using Cons.IH [of c1] Cons.prems c1(4,5) nj by auto
    have "carried (lc_tcp_clients c ! j) (if j \<in> set (i # js) then map enc_enter_order (bs j) else []) (lc_tcp_clients c' ! j)"
      if j: "j < length (lc_tcp_clients c)" for j
    proof (cases "j = i")
      case True
      then show ?thesis using carried_trans [OF cl(2)] c'(4) [OF j] c1(3) nj Cons.prems(1) by fastforce
    next
      case False
      then show ?thesis using c'(4) [OF j] c1(4) [OF False] by simp
    qed
    then show ?thesis using run c'(1,3) c1(2) same_setup_trans [OF c1(1) c'(2)] by auto
  qed
qed

lemma request_message:
  assumes "request_for c a r" "length (lc_firm_id c) = 4" "sendable (lc_token_base c) a" "\<not> na_is_cancel a"
  shows "well_formed c a (enc_enter_order r)" "length (enc_enter_order r) = 81"
proof -
  obtain t4 where t4: "ouch_enter (lc_firm_id c) (lc_token_base c) a t4 = Some r" using assms(1) by (auto simp: request_for_def)
  have b: "ouch_bytes (lc_firm_id c) (lc_token_base c) a t4 = Some (enc_enter_order r)"
    using t4 assms(4) by (simp add: ouch_bytes_def)
  show "well_formed c a (enc_enter_order r)"
    using ouch_message [OF assms(2,3), of t4] b by (auto simp: well_formed_def)
  have "wf_enter_order r" using wf_ouch_enter [OF t4 assms(2)] assms(3) by (simp add: sendable_def)
  then show "length (enc_enter_order r) = 81" by (simp add: sizeof_OuchEnterOrder_def)
qed

lemma share_map: "share c j as (map f ms) = map f (share c j as ms)"
  by (simp add: share_def zip_map2 filter_map comp_def case_prod_unfold)

lemma length_share: "length (share c j as ms) \<le> length as"
  using length_filter_le [of "\<lambda>x. conn_of c (fst x) = j" "zip as ms"] by (simp add: share_def)

lemma share_all2:
  "list_all2 P as ms \<Longrightarrow> list_all2 P (filter (\<lambda>a. conn_of c a = j) as) (share c j as ms)"
  by (induction as ms rule: list_all2_induct) (simp_all add: share_def)

lemma length_concat_const: "\<forall>f \<in> set fs. length f = n \<Longrightarrow> length (concat fs) = n * length fs"
  by (induction fs) auto

lemma tx_batch_sends:
  assumes ok: "connector_ok c" and items: "spscq_items (lc_order_queue c) = as"
    and send: "\<forall>a \<in> set as. sendable (lc_token_base c) a"
    and room: "\<forall>cl \<in> set (lc_tcp_clients c). 81 * TX_BATCH \<le> progress (tc_kernel cl)"
    and split: "batch_split TX_BATCH as = (xs, ys)"
  shows "\<exists>c' fs. tx_batch clk t12 c = Some c' \<and> connector_ok c' \<and> spscq_items (lc_order_queue c') = ys \<and>
    list_all2 (well_formed c) xs fs \<and>
    (\<forall>j < length (lc_tcp_clients c). carried (lc_tcp_clients c ! j) (share c j xs fs) (lc_tcp_clients c' ! j))"
proof -
  have firm: "length (lc_firm_id c) = 4" using ok by (simp add: connector_ok_def)
  obtain q' rs where bl: "batch_loop clk 0 (\<lambda>_. []) c = Some (length xs, \<lambda>i. share c i xs rs, c\<lparr>lc_order_queue := q'\<rparr>)"
    "spscq_ok q'" "spscq_items q' = ys" and rs: "list_all2 (request_for c) xs rs"
    using batch_loop_collects [OF _ items send, of "\<lambda>_. []" 0 xs ys clk] ok split by (auto simp: connector_ok_def)
  define c1 where "c1 = c\<lparr>lc_order_queue := q'\<rparr>"
  obtain pre where pre: "as = pre @ ys" "xs = filter (\<lambda>a. \<not> na_is_cancel a) pre" and len: "length xs \<le> TX_BATCH"
    using batch_split_spec [OF split] by blast
  have xs: "sendable (lc_token_base c) a" "\<not> na_is_cancel a" if "a \<in> set xs" for a using that send pre by auto
  define fs where "fs = map enc_enter_order rs"
  have wf: "list_all2 (\<lambda>a f. well_formed c a f \<and> length f = 81) xs fs"
    using rs xs unfolding fs_def by (auto simp: list_all2_conv_all_nth intro!: request_message [OF _ firm])
  have bytes: "length (concat (map enc_enter_order (share c j xs rs))) \<le> 81 * TX_BATCH" for j
  proof -
    have "\<forall>f \<in> set fs. length f = 81" using wf by (auto simp: list_all2_conv_all_nth in_set_conv_nth)
    moreover have "map enc_enter_order (share c j xs rs) = share c j xs fs" by (simp add: fs_def share_map)
    moreover have "set (share c j xs fs) \<subseteq> set fs" by (auto simp: share_def dest: set_zip_rightD)
    ultimately have "\<forall>f \<in> set (share c j xs fs). length f = 81" by blast
    then have "length (concat (share c j xs fs)) = 81 * length (share c j xs fs)" by (rule length_concat_const)
    then show ?thesis using length_share [of c j xs fs] len by (simp add: fs_def share_map)
  qed
  have n: "lc_num_connections c1 = length (lc_tcp_clients c)" "lc_tcp_clients c1 = lc_tcp_clients c"
    using ok by (simp_all add: c1_def connector_ok_def)
  obtain c2 where c2: "flush_batches [0 ..< lc_num_connections c1] (\<lambda>i. share c i xs rs) c1 = Some c2" "same_setup c1 c2"
    "lc_order_queue c2 = lc_order_queue c1" "\<And>j. j < length (lc_tcp_clients c) \<Longrightarrow>
      carried (lc_tcp_clients c ! j) (share c j xs fs) (lc_tcp_clients c2 ! j)"
  proof -
    have "\<forall>j \<in> set [0 ..< lc_num_connections c1]. length (concat (map enc_enter_order (share c j xs rs)))
        \<le> progress (tc_kernel (lc_tcp_clients c1 ! j))"
      using order_trans [OF bytes] room n by simp
    from flush_batches_sends [OF distinct_upt _ this] n that show ?thesis by (auto simp: fs_def share_map)
  qed
  have wf': "list_all2 (well_formed c) xs fs" using wf by (rule list_all2_mono) simp
  show ?thesis
  proof (cases "xs = []")
    case True
    then show ?thesis
      using bl ok wf' by (intro exI [of _ c1] exI [of _ fs]) (auto simp: tx_batch_def share_def connector_ok_def c1_def)
  next
    case False
    then show ?thesis
      using bl [folded c1_def] c2 ok wf'
      by (intro exI [of _ "c2\<lparr>lc_total_send_cycles := lc_total_send_cycles c2 + (snd t12 - fst t12)\<rparr>"] exI [of _ fs])
        (auto simp: tx_batch_def connector_ok_def same_setup_def c1_def)
  qed
qed

section \<open>Properties\<close>

text \<open>
  A connection survives unless the kernel reports a failure, and the stream of a surviving one
  carries exactly the given actions, as the gateway frames and decodes them.
\<close>

definition delivers :: "LocalExchangeConnector \<Rightarrow> NormalizedOrderAction list \<Rightarrow> TCPClient \<Rightarrow> TCPClient \<Rightarrow> bool" where
  "delivers c as cl cl' \<longleftrightarrow> (tc_connected cl \<and> (\<forall>k \<in> set (tc_kernel cl). never_fails k) \<longrightarrow> tc_connected cl') \<and> (tc_connected cl' \<longrightarrow> (\<exists>fs. tc_wire cl' = tc_wire cl @ concat fs \<and>
     frames (concat fs) = (fs, [], False) \<and> list_all2 (message_of (lc_firm_id c) (lc_token_base c)) as fs))"

lemma carried_delivers:
  assumes "carried cl fs cl'" "list_all2 (well_formed c) as fs"
  shows "delivers c as cl cl'"
proof -
  have "\<forall>f \<in> set fs. f \<noteq> [] \<and> msg_size (hd f) = Some (length f)"
    using assms(2) by (auto simp: list_all2_conv_all_nth in_set_conv_nth well_formed_def)
  moreover have "list_all2 (message_of (lc_firm_id c) (lc_token_base c)) as fs"
    using assms(2) by (rule list_all2_mono) (simp add: well_formed_def)
  ultimately show ?thesis using assms(1) frames_messages by (auto simp: delivers_def carried_def survives_def)
qed

text \<open>
  C28. The unbatched transmit thread loses and reorders nothing. In every mode but the batched one
  (mode 3) and with a kernel that eventually accepts the bytes, the loop returns after one pass
  per queued action with the queue empty. A connection is given up only if the kernel reports a
  failure: full buffers, partial writes and interruptions never end one. On every connection that
  is up the bytes written are whole messages, which the gateway frames and decodes to exactly the
  actions routed to that connection by their instrument, in the order they were queued.
\<close>
theorem queued_actions_delivered:
  assumes "connector_ok c" "spscq_items (lc_order_queue c) = as" "length clks = length as"
    and "\<forall>a \<in> set as. sendable (lc_token_base c) a"
    and "\<forall>cl \<in> set (lc_tcp_clients c). 81 * length as \<le> progress (tc_kernel cl)"
    and mode: "lc_tcp_mode c \<noteq> 3"
  shows "\<exists>c'. tx_thread clks c = Some c' \<and> spscq_items (lc_order_queue c') = [] \<and>
    (\<forall>j < lc_num_connections c. let cl = lc_tcp_clients c ! j; cl' = lc_tcp_clients c' ! j in
       (tc_connected cl \<and> (\<forall>k \<in> set (tc_kernel cl). never_fails k) \<longrightarrow> tc_connected cl') \<and>
       (tc_connected cl' \<longrightarrow> (\<exists>fs. tc_wire cl' = tc_wire cl @ concat fs \<and> frames (concat fs) = (fs, [], False) \<and>
          list_all2 (message_of (lc_firm_id c) (lc_token_base c)) (filter (\<lambda>a. conn_of c a = j) as) fs)))"
proof -
  obtain c' fs where c': "tx_run (map fst clks) c = Some c'" "spscq_items (lc_order_queue c') = []" "list_all2 (well_formed c) as fs"
    "\<forall>j < length (lc_tcp_clients c). carried (lc_tcp_clients c ! j) (share c j as fs) (lc_tcp_clients c' ! j)"
    using tx_run_sends [OF assms(1,2) _ assms(4,5), of "map fst clks"] assms(3) unfolding share_def by auto
  have "delivers c (filter (\<lambda>a. conn_of c a = j) as) (lc_tcp_clients c ! j) (lc_tcp_clients c' ! j)" if "j < lc_num_connections c" for j
    using carried_delivers [OF _ share_all2 [OF c'(3)]] c'(4) that assms(1) by (auto simp: connector_ok_def)
  then show ?thesis using c'(1,2) tx_thread_unbatched [OF mode, of clks] unfolding delivers_def Let_def by metis
qed

definition sample_client :: TCPClient where
  "sample_client = \<lparr>tc_connected = True, tc_kernel = Would_block # Sent 7 # Interrupted # Would_block # replicate 400 (Sent 7), tc_wire = []\<rparr>"

definition sample_sent :: "NormalizedOrderAction list" where
  "sample_sent = [sample_action 1 900 True False, sample_action 2 50 False True]"

definition sample_connector :: LocalExchangeConnector where
  "sample_connector = (connector_init (\<lambda>_. sample_action 0 0 True False))\<lparr>lc_tcp_clients := [sample_client],
     lc_order_queue := snd (push_many spscq_enqueue (spscq_init 1024 (\<lambda>_. sample_action 0 0 True False)) sample_sent)\<rparr>"

definition sample_clock :: tx_clock where
  "sample_clock = \<lparr>tx_start_deq = 0, tx_end_deq = 1, tx_t1 = 1, tx_t2 = 2, tx_t3 = 3\<rparr>"

lemma progress_replicate: "0 < n \<Longrightarrow> progress (replicate k (Sent n)) = k"
  by (induction k) auto

lemma sample_connector_ok:
  "connector_ok sample_connector" "spscq_items (lc_order_queue sample_connector) = sample_sent"
  "\<forall>a \<in> set sample_sent. sendable (lc_token_base sample_connector) a"
proof -
  let ?q = "spscq_init 1024 (\<lambda>_. sample_action 0 0 True False)"
  have q: "spscq_ok ?q" "spscq_items ?q = []" "sq_N ?q = 1024"
    using spscq_init_ok [of 10 "\<lambda>_. sample_action 0 0 True False"] by (auto simp: spscq_init_def)
  obtain d q' where m: "push_many spscq_enqueue ?q sample_sent = (d, q')" by (cases "push_many spscq_enqueue ?q sample_sent")
  show "connector_ok sample_connector" "spscq_items (lc_order_queue sample_connector) = sample_sent"
    using spscq.push_many_spec [OF q(1) m] q(2,3)
    unfolding sample_connector_def m by (simp_all add: connector_ok_def connector_init_def) (simp add: sample_sent_def)
  show "\<forall>a \<in> set sample_sent. sendable (lc_token_base sample_connector) a"
    by (simp add: sample_sent_def sendable_def sample_connector_def connector_init_def sample_action_def MAX_INSTRUMENTS_def)
qed

text \<open>An order and a cancel through a kernel that is first full, then takes seven bytes at a time, with an interruption.\<close>
theorem queued_actions_delivered_witness:
  "\<exists>c' fs. tx_thread [(sample_clock, \<lambda>_. 0), (sample_clock, \<lambda>_. 0)] sample_connector = Some c' \<and> spscq_items (lc_order_queue c') = [] \<and>
    tc_connected (lc_tcp_clients c' ! 0) \<and> tc_wire (lc_tcp_clients c' ! 0) = concat fs \<and> frames (concat fs) = (fs, [], False) \<and>
    list_all2 (message_of (map ch ''HFT1'') 0) sample_sent fs"
proof -
  have room: "\<forall>cl \<in> set (lc_tcp_clients sample_connector). 81 * length sample_sent \<le> progress (tc_kernel cl)"
    by (simp add: sample_connector_def sample_client_def progress_replicate sample_sent_def)
  have "filter (\<lambda>a. conn_of sample_connector a = 0) sample_sent = sample_sent"
    by (simp add: sample_sent_def conn_of_def sample_connector_def connector_init_def)
  moreover have "lc_tcp_clients sample_connector ! 0 = sample_client" "lc_num_connections sample_connector = 1" "lc_tcp_mode sample_connector \<noteq> 3"
    "lc_firm_id sample_connector = map ch ''HFT1''" "lc_token_base sample_connector = 0"
    by (simp_all add: sample_connector_def connector_init_def)
  moreover have "tc_connected sample_client" "\<forall>k \<in> set (tc_kernel sample_client). never_fails k" "tc_wire sample_client = []"
    by (auto simp: sample_client_def)
  moreover have "length [(sample_clock, \<lambda>_ :: nat. 0 :: u64), (sample_clock, \<lambda>_. 0)] = length sample_sent" by (simp add: sample_sent_def)
  ultimately obtain c' where "tx_thread [(sample_clock, \<lambda>_. 0), (sample_clock, \<lambda>_. 0)] sample_connector = Some c'"
    "spscq_items (lc_order_queue c') = []" "tc_connected (lc_tcp_clients c' ! 0)"
    "\<exists>fs. tc_wire (lc_tcp_clients c' ! 0) = concat fs \<and> frames (concat fs) = (fs, [], False) \<and> list_all2 (message_of (map ch ''HFT1'') 0) sample_sent fs"
    using queued_actions_delivered [OF sample_connector_ok(1,2) _ sample_connector_ok(3) room, of "[(sample_clock, \<lambda>_. 0), (sample_clock, \<lambda>_. 0)]"]
    by (auto simp: Let_def simp del: tx_thread.simps)
  then show ?thesis by blast
qed

text \<open>
  In batched mode cancels never leave the firm: one pass returns, takes a prefix of the
  queue that holds at most 64 orders (all of the queue, or exactly 64 of them), and on every
  connection that is still up it writes exactly the orders of that prefix routed there, in
  order, as whole messages; the cancels in the prefix are taken from the queue and sent nowhere.
\<close>
theorem batched_pass_drops_cancels:
  assumes "connector_ok c" "spscq_items (lc_order_queue c) = as"
    and "\<forall>a \<in> set as. sendable (lc_token_base c) a"
    and "\<forall>cl \<in> set (lc_tcp_clients c). 81 * TX_BATCH \<le> progress (tc_kernel cl)"
  shows "\<exists>c' pre ys. tx_batch clk t12 c = Some c' \<and> as = pre @ ys \<and> spscq_items (lc_order_queue c') = ys \<and>
    (let orders = filter (\<lambda>a. \<not> na_is_cancel a) pre in length orders \<le> 64 \<and> (ys = [] \<or> length orders = 64) \<and>
      (\<forall>j < lc_num_connections c. delivers c (filter (\<lambda>a. conn_of c a = j) orders)
         (lc_tcp_clients c ! j) (lc_tcp_clients c' ! j)))"
proof -
  obtain xs ys where split: "batch_split TX_BATCH as = (xs, ys)" by (cases "batch_split TX_BATCH as")
  obtain pre where pre: "as = pre @ ys" "xs = filter (\<lambda>a. \<not> na_is_cancel a) pre" "length xs \<le> 64" "ys = [] \<or> length xs = 64"
    using batch_split_spec [OF split] by (auto simp: TX_BATCH_def)
  obtain c' fs where c': "tx_batch clk t12 c = Some c'" "spscq_items (lc_order_queue c') = ys" "list_all2 (well_formed c) xs fs"
    "\<forall>j < length (lc_tcp_clients c). carried (lc_tcp_clients c ! j) (share c j xs fs) (lc_tcp_clients c' ! j)"
    using tx_batch_sends [OF assms split, of clk t12] by blast
  then show ?thesis
    using carried_delivers [OF _ share_all2 [OF c'(3)]] assms(1) pre
    by (intro exI [of _ c'] exI [of _ pre] exI [of _ ys]) (auto simp: connector_ok_def Let_def)
qed

definition eager_connector :: LocalExchangeConnector where
  "eager_connector = sample_connector\<lparr>lc_tcp_clients := [sample_client\<lparr>tc_kernel := replicate 6000 (Sent 9)\<rparr>]\<rparr>"

text \<open>Of an order and a cancel, only the order is written.\<close>
theorem batched_pass_drops_cancels_witness:
  "\<exists>c'. tx_batch (\<lambda>_. 1) (0, 1) eager_connector = Some c' \<and> spscq_items (lc_order_queue c') = [] \<and>
    delivers eager_connector [sample_action 1 900 True False] (lc_tcp_clients eager_connector ! 0) (lc_tcp_clients c' ! 0)"
proof -
  have e: "connector_ok eager_connector" "spscq_items (lc_order_queue eager_connector) = sample_sent"
    "\<forall>a \<in> set sample_sent. sendable (lc_token_base eager_connector) a" "lc_num_connections eager_connector = 1"
    using sample_connector_ok
    by (simp_all add: eager_connector_def connector_ok_def sample_connector_def connector_init_def)
  have room: "\<forall>cl \<in> set (lc_tcp_clients eager_connector). 81 * TX_BATCH \<le> progress (tc_kernel cl)"
    by (simp add: eager_connector_def progress_replicate TX_BATCH_def)
  obtain c' pre ys where p: "tx_batch (\<lambda>_. 1) (0, 1) eager_connector = Some c'" "sample_sent = pre @ ys"
    "spscq_items (lc_order_queue c') = ys" "ys = [] \<or> length (filter (\<lambda>a. \<not> na_is_cancel a) pre) = 64"
    "delivers eager_connector (filter (\<lambda>a. conn_of eager_connector a = 0) (filter (\<lambda>a. \<not> na_is_cancel a) pre))
       (lc_tcp_clients eager_connector ! 0) (lc_tcp_clients c' ! 0)"
    using batched_pass_drops_cancels [OF e(1-3) room, of "\<lambda>_. 1" "(0, 1)"] e(4) by (auto simp: Let_def)
  have "length pre \<le> 2" using arg_cong [OF p(2), of length] by (simp add: sample_sent_def)
  then have "length (filter (\<lambda>a. \<not> na_is_cancel a) pre) \<noteq> 64" using length_filter_le [of "\<lambda>a. \<not> na_is_cancel a" pre] by linarith
  then have "ys = []" "pre = sample_sent" using p(2,4) by auto
  moreover have "filter (\<lambda>a. conn_of eager_connector a = 0) (filter (\<lambda>a. \<not> na_is_cancel a) sample_sent) = [sample_action 1 900 True False]"
    by (simp add: sample_sent_def sample_action_def conn_of_def e(4))
  ultimately show ?thesis using p by auto
qed

section \<open>The order port\<close>

text \<open>
  \<open>send_order\<close> with its spin on a full queue: while an attempt fails the transmit thread goes on,
  one pass per entry of the list; \<open>None\<close> when it never makes room. Without the list it is
  \<open>send_order\<close>.
\<close>

fun spin_enqueue :: "tx_clock list \<Rightarrow> NormalizedOrderAction \<Rightarrow> LocalExchangeConnector \<Rightarrow> LocalExchangeConnector option" where
  "spin_enqueue clks action c =
     (case spscq_enqueue (lc_order_queue c) action of
        (True, q) \<Rightarrow> Some (c\<lparr>lc_order_queue := q\<rparr>)
      | (False, q) \<Rightarrow> (case clks of [] \<Rightarrow> None | clk # clks \<Rightarrow> do { c \<leftarrow> tx_step clk c; spin_enqueue clks action c }))"

declare spin_enqueue.simps [simp del]

definition send_order_spin :: "tx_clock list \<Rightarrow> u64 \<times> u64 \<Rightarrow> NormalizedOrderAction \<Rightarrow> LocalExchangeConnector \<Rightarrow> LocalExchangeConnector option" where
  "send_order_spin clks clk action_ref c = do {
     let (t1, t2) = clk;
     let action = action_ref\<lparr>na_t3_trading_enq := t1\<rparr>;
     c \<leftarrow> spin_enqueue clks action (c\<lparr>lc_occupancies := lc_occupancies c @ [spscq_size (lc_order_queue c)]\<rparr>);
     Some (c\<lparr>lc_total_enqueue_cycles := lc_total_enqueue_cycles c + (t2 - t1)\<rparr>) }"

lemma send_order_spin_Nil: "send_order_spin [] = send_order"
  by (auto simp: fun_eq_iff send_order_spin_def send_order_def spin_enqueue.simps Let_def split: prod.splits bool.splits)

text \<open>
  What the execution engine relies on: a port that has room for \<open>n\<close> more actions takes the next
  one, for any identifier below \<open>limit\<close>, and then has room for
  \<open>n - 1\<close>.
\<close>

locale order_port =
  fixes send :: "u64 \<times> u64 \<Rightarrow> NormalizedOrderAction \<Rightarrow> 'c \<Rightarrow> 'c option"
    and room :: "nat \<Rightarrow> 'c \<Rightarrow> bool" and limit :: nat
  assumes accepts: "room (Suc n) c \<Longrightarrow> unat (na_internal_order_id a) < limit \<Longrightarrow> \<exists>c'. send t a c = Some c' \<and> room n c'"
    and fewer: "room (Suc n) c \<Longrightarrow> room n c"
begin

lemma room_le: "n \<le> m \<Longrightarrow> room m c \<Longrightarrow> room n c"
  by (induction m rule: dec_induct) (auto dest: fewer)

end

text \<open>The connector has room as long as its kernels take the bytes a spin may have to push out: one message per action.\<close>

definition conn_room :: "nat \<Rightarrow> LocalExchangeConnector \<Rightarrow> bool" where
  "conn_room n c \<longleftrightarrow> connector_ok c \<and> unat (lc_token_base c) \<le> MAX_CLIENT_ORDERS \<and>
     (\<forall>a \<in> set (spscq_items (lc_order_queue c)). unat (lc_token_base c + na_internal_order_id a) < 10 ^ 14) \<and>
     (\<forall>cl \<in> set (lc_tcp_clients c). 81 * n \<le> progress (tc_kernel cl))"

definition ID_LIMIT :: nat where "ID_LIMIT = 10 ^ 13"

lemma ouch_bytes_short:
  assumes "length firm = 4" "unat (base + na_internal_order_id a) < 10 ^ 14"
  obtains b where "ouch_bytes firm base a t4 = Some b" "length b \<le> 81"
proof (cases "na_is_cancel a")
  case True
  define r where "r = \<lparr>co_msg_type = ch CHR ''X'', co_order_token = encode_order_token (base + na_internal_order_id a), co_shares = na_quantity a\<rparr>"
  have "ouch_bytes firm base a t4 = Some (enc_cancel_order r)"
    using True assms(2) by (simp add: ouch_bytes_def ouch_cancel_def format_token_eq r_def)
  moreover have "length (enc_cancel_order r) \<le> 81"
    using length_enc_cancel_order [of r] by (simp add: wf_cancel_order_def r_def sizeof_OuchCancelOrder_def)
  ultimately show thesis using that by blast
next
  case False
  obtain r where r: "ouch_enter firm base a t4 = Some r" using assms(2) by (simp add: ouch_enter_def format_token_eq)
  then have "ouch_bytes firm base a t4 = Some (enc_enter_order r)" using False by (simp add: ouch_bytes_def)
  moreover have "length (enc_enter_order r) \<le> 81"
    using wf_ouch_enter [OF r assms] by (simp add: sizeof_OuchEnterOrder_def)
  ultimately show thesis using that by blast
qed

lemma tx_step_frees:
  assumes room: "conn_room (Suc n) c" and items: "spscq_items (lc_order_queue c) = a # rest"
  shows "\<exists>c'. tx_step clk c = Some c' \<and> conn_room n c' \<and> lc_token_base c' = lc_token_base c
    \<and> spscq_items (lc_order_queue c') = rest \<and> sq_N (lc_order_queue c') = sq_N (lc_order_queue c)"
proof -
  note ok = room [unfolded conn_room_def connector_ok_def]
  obtain q where q: "spscq_dequeue (lc_order_queue c) = (Some a, q)" "spscq_ok q" "spscq_items q = rest" "sq_N q = sq_N (lc_order_queue c)"
    using spscq.pop_cons [OF _ items] ok by metis
  obtain b where b: "ouch_bytes (lc_firm_id c) (lc_token_base c) a (tx_end_deq clk) = Some b" "length b \<le> 81"
    using ouch_bytes_short [of "lc_firm_id c" "lc_token_base c" a] ok items by auto
  define k where "k = conn_of c a"
  have k: "k < length (lc_tcp_clients c)" using ok by (simp add: k_def conn_of_def)
  have "length b \<le> progress (tc_kernel (lc_tcp_clients c ! k))" using ok b(2) nth_mem [OF k] by fastforce
  then obtain cl where cl: "transmit b (lc_tcp_clients c ! k) = Some cl"
    "progress (tc_kernel (lc_tcp_clients c ! k)) \<le> progress (tc_kernel cl) + length b"
    using transmit_returns by blast
  have "\<forall>x \<in> set ((lc_tcp_clients c)[k := cl]). 81 * n \<le> progress (tc_kernel x)"
  proof
    fix x assume "x \<in> set ((lc_tcp_clients c)[k := cl])"
    then have "x = cl \<or> x \<in> set (lc_tcp_clients c)" using set_update_subset_insert by fast
    moreover have "81 * Suc n \<le> progress (tc_kernel (lc_tcp_clients c ! k))" using ok nth_mem [OF k] by blast
    moreover have "81 * Suc n \<le> progress (tc_kernel x)" if "x \<in> set (lc_tcp_clients c)" using that ok by blast
    ultimately show "81 * n \<le> progress (tc_kernel x)" using cl(2) b(2) by fastforce
  qed
  then show ?thesis
    using q b(1) cl(1) k ok items
    by (auto simp: tx_step_def Let_def transmit_on_def list_get_in k_def conn_of_def conn_room_def connector_ok_def)
qed

lemma spin_accepts:
  assumes room: "conn_room (Suc n) c" and id: "unat (na_internal_order_id a) < ID_LIMIT"
  shows "\<exists>c'. send_order_spin [x] t a c = Some c' \<and> conn_room n c'"
proof -
  define c0 where "c0 = c\<lparr>lc_occupancies := lc_occupancies c @ [spscq_size (lc_order_queue c)]\<rparr>"
  have room0: "conn_room (Suc n) c0" using room by (simp add: c0_def conn_room_def connector_ok_def)
  obtain t1 t2 where t: "t = (t1, t2)" by (cases t)
  define a1 where "a1 = a\<lparr>na_t3_trading_enq := t1\<rparr>"
  have put: "\<exists>q. spscq_enqueue (lc_order_queue d) a1 = (True, q) \<and> conn_room n (d\<lparr>lc_order_queue := q\<rparr>)"
    if d: "conn_room n d" "length (spscq_items (lc_order_queue d)) < sq_N (lc_order_queue d)" for d
  proof -
    obtain q where q: "spscq_enqueue (lc_order_queue d) a1 = (True, q)" "spscq_ok q" "spscq_items q = spscq_items (lc_order_queue d) @ [a1]"
      using spscq.push_fits [OF _ d(2), of a1] d(1) unfolding conn_room_def connector_ok_def by metis
    have "unat (lc_token_base d + na_internal_order_id a1) < 10 ^ 14"
      using d(1) id by (simp add: conn_room_def a1_def ID_LIMIT_def MAX_CLIENT_ORDERS_def unat_word_ariths)
    then show ?thesis using q d(1) by (auto simp: conn_room_def connector_ok_def)
  qed
  have "\<exists>d. spin_enqueue [x] a1 c0 = Some d \<and> conn_room n d"
  proof (cases "length (spscq_items (lc_order_queue c0)) < sq_N (lc_order_queue c0)")
    case True
    have "conn_room n c0" using room0 by (auto simp: conn_room_def)
    then show ?thesis using put [OF _ True] by (auto simp: spin_enqueue.simps)
  next
    case False
    have okq: "spscq_ok (lc_order_queue c0)" using room0 by (simp add: conn_room_def connector_ok_def)
    then have "0 < sq_N (lc_order_queue c0)" by (auto simp: spscq_ok_def)
    then obtain b rest where items: "spscq_items (lc_order_queue c0) = b # rest" using False by (cases "spscq_items (lc_order_queue c0)") auto
    obtain d where d: "tx_step x c0 = Some d" "conn_room n d" "spscq_items (lc_order_queue d) = rest" "sq_N (lc_order_queue d) = sq_N (lc_order_queue c0)"
      using tx_step_frees [OF room0 items, of x] by blast
    have "length rest < sq_N (lc_order_queue d)" using spscq_items_room [OF okq] items d(4) by simp
    then obtain q where "spscq_enqueue (lc_order_queue d) a1 = (True, q)" "conn_room n (d\<lparr>lc_order_queue := q\<rparr>)"
      using put [OF d(2)] d(3) by auto
    moreover obtain q0 where "spscq_enqueue (lc_order_queue c0) a1 = (False, q0)"
      using spscq_enqueue_spec [OF okq] False by (cases "spscq_enqueue (lc_order_queue c0) a1") auto
    ultimately show ?thesis using d(1) by (simp add: spin_enqueue.simps)
  qed
  then show ?thesis
    by (auto simp: send_order_spin_def t c0_def [symmetric] a1_def [symmetric] conn_room_def connector_ok_def)
qed

interpretation local_port: order_port "\<lambda>t. send_order_spin [x t] t" conn_room ID_LIMIT
proof
  show "\<exists>c'. send_order_spin [x t] t a c = Some c' \<and> conn_room n c'"
    if "conn_room (Suc n) c" "unat (na_internal_order_id a) < ID_LIMIT" for n c a t
    using spin_accepts [OF that] .
  show "conn_room n c" if "conn_room (Suc n) c" for n c using that by (auto simp: conn_room_def)
qed

section \<open>Token slices\<close>

text \<open>An accepted configuration whose base does not wrap gives tokens inside the exchange's table, apart from those of any other firm with its own slice.\<close>

lemma configured_tokens:
  assumes "configure env c = (True, c')" "unat (lc_token_base c') + unat TOKEN_SLICE < 2 ^ 64" "k < TOKEN_SLICE"
  shows "unat (lc_token_base c' + k) = unat (lc_token_base c') + unat k" "unat (lc_token_base c' + k) < MAX_CLIENT_ORDERS"
proof -
  have accept: "unat (lc_token_base c' + TOKEN_SLICE) \<le> MAX_CLIENT_ORDERS"
    using assms(1) by (auto simp: configure_def Let_def word_le_nat_alt not_less MAX_CLIENT_ORDERS_def)
  have "unat (lc_token_base c' + TOKEN_SLICE) = unat (lc_token_base c') + unat TOKEN_SLICE"
    using assms(2) by (simp add: unat_word_ariths)
  moreover show "unat (lc_token_base c' + k) = unat (lc_token_base c') + unat k"
    using assms(2,3) by (simp add: unat_word_ariths word_less_nat_alt)
  ultimately show "unat (lc_token_base c' + k) < MAX_CLIENT_ORDERS"
    using accept assms(3) by (simp add: word_less_nat_alt)
qed

text \<open>The check itself wraps: the largest base is accepted, and its tokens are not in the slice it is meant to own.\<close>

lemma token_base_check_wraps:
  "fst (configure \<lparr>env_TCP_MODE = None, env_GATEWAY_THREADS = None, env_FIRM_ID = None, env_TOKEN_BASE = Some (- 1)\<rparr> (connector_init raw))"
  by (simp add: configure_def connector_init_def TOKEN_SLICE_def MAX_CLIENT_ORDERS_def MAX_FIRMS_def Let_def)

text \<open>A cancel report on the feed has type \<open>X\<close>, not \<open>E\<close>: the firm's book adds its quantity to the level.\<close>

lemma cancel_report_adds:
  "it_msg_type raw = ch CHR ''X'' \<Longrightarrow> level_after (itch_tick raw clk) n = n + unat (it_shares raw)"
  by (simp add: level_after_def itch_tick_def)

end
