(* ===== verification/Firm_Strategy.thy ===== *)
theory Firm_Strategy
  imports Firm_Book Complex_Main
begin

text \<open>
  Signals and strategies of the firm (\<open>signal/signal_engine.h\<close>, \<open>strategy/market_maker.h\<close>,
  \<open>strategy/taker.h\<close>).

  Prices, quantities and order identifiers are words. The single-precision arithmetic on top of
  them is a parameter: a record \<open>float_unit\<close> of the operations the sources use, with
  \<open>None\<close> for a conversion to \<open>uint32_t\<close> whose value is out of range (undefined in C++).
  Theorems that need a fact of the arithmetic name it as a hypothesis.

  Both strategies implement \<open>IStrategy\<close>; the locale \<open>strategy\<close> states what the dispatch
  loop relies on: identifiers are consecutive, actions are for the tick's instrument, and a tick
  produces a bounded number of them.
\<close>

section \<open>Signals\<close>

record 'f float_unit =
  fl_of_u32 :: "u32 \<Rightarrow> 'f"
  fl_to_u32 :: "'f \<Rightarrow> u32 option"
  fl_add :: "'f \<Rightarrow> 'f \<Rightarrow> 'f"
  fl_sub :: "'f \<Rightarrow> 'f \<Rightarrow> 'f"
  fl_div :: "'f \<Rightarrow> 'f \<Rightarrow> 'f"
  fl_neg :: "'f \<Rightarrow> 'f"
  fl_less :: "'f \<Rightarrow> 'f \<Rightarrow> bool"
  fl_half :: 'f
  fl_one :: 'f
  fl_two :: 'f

record 'f AlphaSignals =
  as_mid_price :: 'f
  as_micro_price :: 'f
  as_imbalance :: 'f
  as_spread :: u32

text \<open>
  \<open>compute_signals\<close>; the result is \<open>None\<close> where the code returns a struct with
  \<open>valid = false\<close> and the other fields unset. Sums, differences and products of the
  \<open>uint32_t\<close> operands wrap before they become floats.
\<close>

definition compute_signals :: "'f float_unit \<Rightarrow> BookSnapshot \<Rightarrow> 'f AlphaSignals option" where
  "compute_signals fl snap =
     (let best_bid = bs_best_bid snap; best_ask = bs_best_ask snap;
          bid_qty = bs_bid_qty snap; ask_qty = bs_ask_qty snap in
      if best_bid = 0 \<or> best_ask = 100000 then None
      else if bid_qty = 0 \<and> ask_qty = 0 then None
      else (let total_qty = fl_of_u32 fl (bid_qty + ask_qty) in
        Some \<lparr>as_mid_price = fl_div fl (fl_of_u32 fl (best_bid + best_ask)) (fl_two fl),
              as_micro_price = fl_div fl (fl_of_u32 fl (best_bid * ask_qty + best_ask * bid_qty)) total_qty,
              as_imbalance = fl_div fl (fl_of_u32 fl (bid_qty - ask_qty)) total_qty,
              as_spread = best_ask - best_bid\<rparr>))"

text \<open>
  The total is summed on 32 bits: two levels of \<open>2 ^ 31\<close> shares make it zero, the signal counts as
  valid, and its micro price is a quotient by zero, which no conversion to an integer is defined on.
\<close>

lemma signals_divide_by_zero:
  "\<exists>sig x. compute_signals fl \<lparr>bs_best_bid = 100, bs_best_ask = 102, bs_bid_qty = 2 ^ 31, bs_ask_qty = 2 ^ 31\<rparr> = Some sig
    \<and> as_micro_price sig = fl_div fl x (fl_of_u32 fl 0)"
proof -
  have "(2 ^ 31 + 2 ^ 31 :: u32) = 0" "(2 ^ 31 :: u32) \<noteq> 0" by (simp_all add: word_unat_eq_iff unat_word_ariths)
  then show ?thesis by (simp only: compute_signals_def Let_def BookSnapshot.simps) auto
qed

section \<open>The market maker\<close>

record 'f MarketMaker =
  mm_current_bid_price :: "nat \<Rightarrow> u32"
  mm_current_ask_price :: "nat \<Rightarrow> u32"
  mm_local_order_counter :: u64
  mm_SPREAD_MARGIN :: u32
  mm_IMBALANCE_THRESHOLD :: 'f
  mm_QUOTE_SIZE :: u32

definition maker_init :: "u32 \<Rightarrow> 'f \<Rightarrow> u32 \<Rightarrow> 'f MarketMaker" where
  "maker_init spread_margin imbalance_threshold quote_size =
     \<lparr>mm_current_bid_price = (\<lambda>_. 0), mm_current_ask_price = (\<lambda>_. 0), mm_local_order_counter = 1,
      mm_SPREAD_MARGIN = spread_margin, mm_IMBALANCE_THRESHOLD = imbalance_threshold, mm_QUOTE_SIZE = quote_size\<rparr>"

definition make_action ::
  "u64 \<Rightarrow> NormalizedTick \<Rightarrow> u32 \<Rightarrow> u32 \<Rightarrow> bool \<Rightarrow> bool \<Rightarrow> NormalizedOrderAction" where
  "make_action order_id tick price quantity is_buy is_cancel =
     \<lparr>na_internal_order_id = order_id, na_instrument_id = nt_instrument_id tick, na_price = ucast price,
      na_quantity = quantity, na_is_buy = is_buy, na_is_cancel = is_cancel,
      na_t1_exchange_send = nt_t1_exchange_send tick, na_t2_trading_recv = nt_t2_trading_recv tick,
      na_t3_trading_enq = 0\<rparr>"

definition fair_value :: "'f float_unit \<Rightarrow> 'f \<Rightarrow> 'f AlphaSignals \<Rightarrow> 'f" where
  "fair_value fl threshold sig =
     (if fl_less fl threshold (as_imbalance sig) then fl_add fl (as_micro_price sig) (fl_one fl)
      else if fl_less fl (as_imbalance sig) (fl_neg fl threshold) then fl_sub fl (as_micro_price sig) (fl_one fl)
      else as_micro_price sig)"

text \<open>The two updates, of the bid and of the ask quote: cancel the old quote when there is one, then place the new one.\<close>

definition update_bid ::
  "NormalizedTick \<Rightarrow> u32 \<Rightarrow> NormalizedOrderAction list \<times> 'f MarketMaker \<Rightarrow>
   (NormalizedOrderAction list \<times> 'f MarketMaker) option" where
  "update_bid tick desired_bid = (\<lambda>(out, m). let i = unat (nt_instrument_id tick) in do {
     current \<leftarrow> arr_get NUM_INSTRUMENTS (mm_current_bid_price m) i;
     if desired_bid \<noteq> current then do {
       let (out, m) = (if current \<noteq> 0
         then (out @ [make_action (mm_local_order_counter m) tick current (mm_QUOTE_SIZE m) True True],
               m\<lparr>mm_local_order_counter := mm_local_order_counter m + 1\<rparr>)
         else (out, m));
       let out = out @ [make_action (mm_local_order_counter m) tick desired_bid (mm_QUOTE_SIZE m) True False];
       let m = m\<lparr>mm_local_order_counter := mm_local_order_counter m + 1\<rparr>;
       prices \<leftarrow> arr_set NUM_INSTRUMENTS (mm_current_bid_price m) i desired_bid;
       Some (out, m\<lparr>mm_current_bid_price := prices\<rparr>)
     } else Some (out, m)
   })"

definition update_ask ::
  "NormalizedTick \<Rightarrow> u32 \<Rightarrow> NormalizedOrderAction list \<times> 'f MarketMaker \<Rightarrow>
   (NormalizedOrderAction list \<times> 'f MarketMaker) option" where
  "update_ask tick desired_ask = (\<lambda>(out, m). let i = unat (nt_instrument_id tick) in do {
     current \<leftarrow> arr_get NUM_INSTRUMENTS (mm_current_ask_price m) i;
     if desired_ask \<noteq> current then do {
       let (out, m) = (if current \<noteq> 0
         then (out @ [make_action (mm_local_order_counter m) tick current (mm_QUOTE_SIZE m) False True],
               m\<lparr>mm_local_order_counter := mm_local_order_counter m + 1\<rparr>)
         else (out, m));
       let out = out @ [make_action (mm_local_order_counter m) tick desired_ask (mm_QUOTE_SIZE m) False False];
       let m = m\<lparr>mm_local_order_counter := mm_local_order_counter m + 1\<rparr>;
       prices \<leftarrow> arr_set NUM_INSTRUMENTS (mm_current_ask_price m) i desired_ask;
       Some (out, m\<lparr>mm_current_ask_price := prices\<rparr>)
     } else Some (out, m)
   })"

definition maker_on_tick ::
  "'f float_unit \<Rightarrow> NormalizedTick \<Rightarrow> 'f AlphaSignals option \<Rightarrow> 'f MarketMaker \<Rightarrow>
   (NormalizedOrderAction list \<times> 'f MarketMaker) option" where
  "maker_on_tick fl tick sig m = (case sig of
     None \<Rightarrow> Some ([], m)
   | Some sig \<Rightarrow> do {
       fair \<leftarrow> fl_to_u32 fl (fair_value fl (mm_IMBALANCE_THRESHOLD m) sig);
       let desired_bid = fair - mm_SPREAD_MARGIN m;
       let desired_ask = fair + mm_SPREAD_MARGIN m + 1;
       s \<leftarrow> update_bid tick desired_bid ([], m);
       update_ask tick desired_ask s
     })"

section \<open>The taker\<close>

record 'f Taker =
  tk_local_order_counter :: u64
  tk_THRESHOLD :: 'f
  tk_SIZE :: u32

definition taker_init :: "'f \<Rightarrow> u32 \<Rightarrow> 'f Taker" where
  "taker_init threshold sz = \<lparr>tk_local_order_counter = 1, tk_THRESHOLD = threshold, tk_SIZE = sz\<rparr>"

definition taker_on_tick ::
  "'f float_unit \<Rightarrow> NormalizedTick \<Rightarrow> 'f AlphaSignals option \<Rightarrow> 'f Taker \<Rightarrow>
   (NormalizedOrderAction list \<times> 'f Taker) option" where
  "taker_on_tick fl tick sig k = (case sig of
     None \<Rightarrow> Some ([], k)
   | Some sig \<Rightarrow>
       let half_spread = fl_div fl (fl_of_u32 fl (as_spread sig)) (fl_two fl);
           k' = k\<lparr>tk_local_order_counter := tk_local_order_counter k + 1\<rparr> in
       if fl_less fl (tk_THRESHOLD k) (as_imbalance sig) then do {
         best_ask \<leftarrow> fl_to_u32 fl (fl_add fl (fl_add fl (as_mid_price sig) half_spread) (fl_half fl));
         Some ([make_action (tk_local_order_counter k) tick best_ask (tk_SIZE k) True False], k')
       } else if fl_less fl (as_imbalance sig) (fl_neg fl (tk_THRESHOLD k)) then do {
         best_bid \<leftarrow> fl_to_u32 fl (fl_add fl (fl_sub fl (as_mid_price sig) half_spread) (fl_half fl));
         Some ([make_action (tk_local_order_counter k) tick best_bid (tk_SIZE k) False False], k')
       } else Some ([], k))"

section \<open>The strategy interface\<close>

definition ids_from :: "u64 \<Rightarrow> nat \<Rightarrow> u64 list" where
  "ids_from c n = map (\<lambda>k. c + word_of_nat k) [0 ..< n]"

lemma ids_from_Suc: "ids_from c (Suc n) = ids_from c n @ [c + word_of_nat n]"
  by (simp add: ids_from_def)

lemma ids_from_append: "ids_from c (m + n) = ids_from c m @ ids_from (c + word_of_nat m) n"
proof (induction n)
  case (Suc n)
  then show ?case by (simp only: add_Suc_right ids_from_Suc append_assoc of_nat_add add.assoc)
qed (simp add: ids_from_def)

lemma length_ids_from [simp]: "length (ids_from c n) = n"
  by (simp add: ids_from_def)

lemma ids_from_small [simp]: "ids_from c 0 = []" "ids_from c (Suc 0) = [c]"
  by (simp_all add: ids_from_def)

lemma ids_from_2: "ids_from c 2 = [c, c + 1]"
  by (simp add: ids_from_def numeral_2_eq_2)

lemma distinct_ids_from:
  assumes "n \<le> 2 ^ 64"
  shows "distinct (ids_from c n)"
proof -
  have "inj_on (\<lambda>k. c + word_of_nat k) {0 ..< n}"
  proof (rule inj_onI)
    fix j k
    assume jk: "j \<in> {0 ..< n}" "k \<in> {0 ..< n}" "c + word_of_nat j = c + word_of_nat k"
    have "unat (word_of_nat j :: u64) = j" "unat (word_of_nat k :: u64) = k"
      using jk(1,2) assms by (simp_all add: unat_of_nat take_bit_nat_eq_self)
    moreover have "(word_of_nat j :: u64) = word_of_nat k" using jk(3) by (simp only: add_left_cancel)
    ultimately show "j = k" by metis
  qed
  then show ?thesis by (simp only: ids_from_def distinct_map distinct_upt set_upt simp_thms)
qed

locale strategy =
  fixes on_tick :: "NormalizedTick \<Rightarrow> 'g option \<Rightarrow> 's \<Rightarrow> (NormalizedOrderAction list \<times> 's) option"
    and counter :: "'s \<Rightarrow> u64"
  assumes ids: "on_tick t g s = Some (out, s') \<Longrightarrow>
      map na_internal_order_id out = ids_from (counter s) (length out) \<and> counter s' = counter s + word_of_nat (length out)"
    and instrument: "on_tick t g s = Some (out, s') \<Longrightarrow> a \<in> set out \<Longrightarrow> na_instrument_id a = nt_instrument_id t"
    and few: "on_tick t g s = Some (out, s') \<Longrightarrow> length out \<le> 4"


fun strategy_run ::
  "(NormalizedTick \<Rightarrow> 'g option \<Rightarrow> 's \<Rightarrow> (NormalizedOrderAction list \<times> 's) option) \<Rightarrow>
   (NormalizedTick \<times> 'g option) list \<Rightarrow> 's \<Rightarrow> (NormalizedOrderAction list \<times> 's) option" where
  "strategy_run on_tick [] s = Some ([], s)"
| "strategy_run on_tick ((t, g) # ts) s = do {
     (out, s1) \<leftarrow> on_tick t g s;
     (outs, s2) \<leftarrow> strategy_run on_tick ts s1;
     Some (out @ outs, s2)
   }"

context strategy
begin

lemma run_ids:
  "strategy_run on_tick ts s = Some (out, s') \<Longrightarrow>
    map na_internal_order_id out = ids_from (counter s) (length out) \<and>
    counter s' = counter s + word_of_nat (length out) \<and> length out \<le> 4 * length ts"
proof (induction ts arbitrary: s out)
  case (Cons x ts)
  obtain t g where x: "x = (t, g)" by (cases x)
  obtain out1 s1 out2 where o: "on_tick t g s = Some (out1, s1)" "strategy_run on_tick ts s1 = Some (out2, s')"
    "out = out1 @ out2" using Cons.prems x by (auto split: Option.bind_splits)
  then show ?case
    using Cons.IH [OF o(2)] ids [OF o(1)] few [OF o(1)] by (simp add: ids_from_append ac_simps)
qed simp

lemma run_distinct:
  assumes "strategy_run on_tick ts s = Some (out, s')" "4 * length ts \<le> 2 ^ 64"
  shows "distinct (map na_internal_order_id out)"
  using run_ids [OF assms(1)] assms(2) by (auto intro: distinct_ids_from)

end

section \<open>The market maker's quotes\<close>

text \<open>What one side's update appends: nothing when the quote stands, otherwise a cancel of the old quote and the new order.\<close>

definition requote :: "NormalizedTick \<Rightarrow> bool \<Rightarrow> u32 \<Rightarrow> u32 \<Rightarrow> u32 \<Rightarrow> u64 \<Rightarrow> NormalizedOrderAction list" where
  "requote tick is_buy sz current desired c =
     (if desired = current then []
      else if current = 0 then [make_action c tick desired sz is_buy False]
      else [make_action c tick current sz is_buy True, make_action (c + 1) tick desired sz is_buy False])"

lemma requote_facts:
  "map na_internal_order_id (requote tick b q cur des c) = ids_from c (length (requote tick b q cur des c))"
  "length (requote tick b q cur des c) \<le> 2"
  "a \<in> set (requote tick b q cur des c) \<Longrightarrow> na_instrument_id a = nt_instrument_id tick"
  by (auto simp: requote_def make_action_def ids_from_2 [unfolded numeral_2_eq_2] split: if_splits)

lemma update_bid_eq:
  assumes "unat (nt_instrument_id tick) < NUM_INSTRUMENTS"
  shows "update_bid tick desired (out, m) = (let i = unat (nt_instrument_id tick);
      new = requote tick True (mm_QUOTE_SIZE m) (mm_current_bid_price m i) desired (mm_local_order_counter m) in
    Some (out @ new, m\<lparr>mm_local_order_counter := mm_local_order_counter m + word_of_nat (length new),
                      mm_current_bid_price := (mm_current_bid_price m)(i := desired)\<rparr>))"
  using assms by (auto simp: update_bid_def requote_def Let_def arr_get_in arr_set_in)

lemma update_ask_eq:
  assumes "unat (nt_instrument_id tick) < NUM_INSTRUMENTS"
  shows "update_ask tick desired (out, m) = (let i = unat (nt_instrument_id tick);
      new = requote tick False (mm_QUOTE_SIZE m) (mm_current_ask_price m i) desired (mm_local_order_counter m) in
    Some (out @ new, m\<lparr>mm_local_order_counter := mm_local_order_counter m + word_of_nat (length new),
                      mm_current_ask_price := (mm_current_ask_price m)(i := desired)\<rparr>))"
  using assms by (auto simp: update_ask_def requote_def Let_def arr_get_in arr_set_in)

lemma update_None:
  "\<not> unat (nt_instrument_id tick) < NUM_INSTRUMENTS \<Longrightarrow> update_bid tick desired s = None"
  by (cases s) (simp add: update_bid_def Let_def arr_get_def)

lemma maker_on_tick_eq:
  assumes i: "unat (nt_instrument_id tick) = i" "i < NUM_INSTRUMENTS"
    and fair: "fl_to_u32 fl (fair_value fl (mm_IMBALANCE_THRESHOLD m) sig) = Some fair"
  defines "bid \<equiv> requote tick True (mm_QUOTE_SIZE m) (mm_current_bid_price m i) (fair - mm_SPREAD_MARGIN m)
      (mm_local_order_counter m)"
  defines "ask \<equiv> requote tick False (mm_QUOTE_SIZE m) (mm_current_ask_price m i) (fair + mm_SPREAD_MARGIN m + 1)
      (mm_local_order_counter m + word_of_nat (length bid))"
  shows "maker_on_tick fl tick (Some sig) m = Some (bid @ ask, m\<lparr>
     mm_local_order_counter := mm_local_order_counter m + word_of_nat (length (bid @ ask)),
     mm_current_bid_price := (mm_current_bid_price m)(i := fair - mm_SPREAD_MARGIN m),
     mm_current_ask_price := (mm_current_ask_price m)(i := fair + mm_SPREAD_MARGIN m + 1)\<rparr>)"
  using i fair
  by (simp add: maker_on_tick_def update_bid_eq update_ask_eq Let_def bid_def ask_def ac_simps)

lemma maker_on_tickE:
  assumes "maker_on_tick fl tick sig m = Some (out, m')"
  obtains "sig = None" "out = []" "m' = m"
  | g fair where "sig = Some g" "fl_to_u32 fl (fair_value fl (mm_IMBALANCE_THRESHOLD m) g) = Some fair"
      "unat (nt_instrument_id tick) < NUM_INSTRUMENTS"
proof (cases sig)
  case (Some g)
  then obtain fair where "fl_to_u32 fl (fair_value fl (mm_IMBALANCE_THRESHOLD m) g) = Some fair"
    using assms by (auto simp: maker_on_tick_def split: Option.bind_splits)
  moreover have "unat (nt_instrument_id tick) < NUM_INSTRUMENTS"
  proof (rule ccontr)
    assume "\<not> unat (nt_instrument_id tick) < NUM_INSTRUMENTS"
    then show False using assms Some calculation by (simp add: maker_on_tick_def Let_def update_None)
  qed
  ultimately show ?thesis using that(2) Some by blast
qed (use assms that(1) in \<open>simp add: maker_on_tick_def\<close>)

lemma maker_facts:
  assumes "maker_on_tick fl tick sig m = Some (out, m')"
  shows "map na_internal_order_id out = ids_from (mm_local_order_counter m) (length out) \<and>
    mm_local_order_counter m' = mm_local_order_counter m + word_of_nat (length out) \<and>
    length out \<le> 4 \<and> (\<forall>a \<in> set out. na_instrument_id a = nt_instrument_id tick)"
  using assms
proof (cases rule: maker_on_tickE)
  case (2 g fair)
  let ?bid = "requote tick True (mm_QUOTE_SIZE m) (mm_current_bid_price m (unat (nt_instrument_id tick)))
    (fair - mm_SPREAD_MARGIN m) (mm_local_order_counter m)"
  let ?ask = "requote tick False (mm_QUOTE_SIZE m) (mm_current_ask_price m (unat (nt_instrument_id tick)))
    (fair + mm_SPREAD_MARGIN m + 1) (mm_local_order_counter m + word_of_nat (length ?bid))"
  have out: "out = ?bid @ ?ask" "mm_local_order_counter m' = mm_local_order_counter m + word_of_nat (length (?bid @ ?ask))"
    using maker_on_tick_eq [OF refl 2(3,2)] assms 2(1) by auto
  have "length (?bid @ ?ask) \<le> 4" using requote_facts(2) [of tick] by (fastforce simp: add_mono [of _ 2 _ 2, simplified])
  moreover have "map na_internal_order_id (?bid @ ?ask) = ids_from (mm_local_order_counter m) (length (?bid @ ?ask))"
    by (simp add: requote_facts(1) ids_from_append)
  moreover have "\<forall>a \<in> set (?bid @ ?ask). na_instrument_id a = nt_instrument_id tick"
    using requote_facts(3) by fastforce
  ultimately show ?thesis using out by simp
qed simp

interpretation maker: strategy "maker_on_tick fl" mm_local_order_counter
  by unfold_locales (use maker_facts in fastforce)+

lemma taker_facts:
  assumes "taker_on_tick fl tick sig k = Some (out, k')"
  shows "map na_internal_order_id out = ids_from (tk_local_order_counter k) (length out) \<and>
    tk_local_order_counter k' = tk_local_order_counter k + word_of_nat (length out) \<and>
    length out \<le> 1 \<and> (\<forall>a \<in> set out. na_instrument_id a = nt_instrument_id tick)"
  using assms
  by (auto simp: taker_on_tick_def make_action_def Let_def split: option.splits if_splits Option.bind_splits)

interpretation taker: strategy "taker_on_tick fl" tk_local_order_counter
  by unfold_locales (use taker_facts in fastforce)+

section \<open>Properties\<close>

text \<open>Exact arithmetic on rationals, as one instance of the float operations.\<close>

definition exact_unit :: "rat float_unit" where
  "exact_unit = \<lparr>fl_of_u32 = (\<lambda>w. of_int (uint w)),
     fl_to_u32 = (\<lambda>x. if - 1 < x \<and> x < 2 ^ 32 then Some (if x < 0 then 0 else word_of_int \<lfloor>x\<rfloor>) else None),
     fl_add = (+), fl_sub = (-), fl_div = (/), fl_neg = uminus, fl_less = (<),
     fl_half = 1 / 2, fl_one = 1, fl_two = 2\<rparr>"


definition sample_signal :: "rat AlphaSignals" where
  "sample_signal = \<lparr>as_mid_price = 200, as_micro_price = 200, as_imbalance = 9 / 10, as_spread = 4\<rparr>"


text \<open>
  The cancels of the market maker name no order: over any sequence of ticks from its start,
  the identifier of every cancel it emits differs from the identifier of every order it emits,
  earlier or later, since each action takes a fresh value of the order counter. No cancel can
  therefore reach the quote it is meant to withdraw.
\<close>
theorem maker_cancels_name_no_order:
  assumes "strategy_run (maker_on_tick fl) ts (maker_init margin threshold sz) = Some (out, m')"
    and "4 * length ts \<le> 2 ^ 64"
    and "a \<in> set out" "na_is_cancel a" "b \<in> set out" "\<not> na_is_cancel b"
  shows "na_internal_order_id a \<noteq> na_internal_order_id b"
proof
  assume eq: "na_internal_order_id a = na_internal_order_id b"
  have "inj_on na_internal_order_id (set out)"
    using maker.run_distinct [OF assms(1,2)] by (simp add: distinct_map)
  then have "a = b" using eq assms(3,5) by (simp add: inj_on_def)
  then show False using assms(4,6) by simp
qed

definition maker_tick :: "u32 \<Rightarrow> NormalizedTick \<times> rat AlphaSignals option" where
  "maker_tick micro = (sample_tick 3 200 1 True False, Some (sample_signal\<lparr>as_micro_price := of_int (uint micro)\<rparr>))"

text \<open>Two ticks: four cancels and orders on the second one, and its first cancel is not the first order.\<close>
theorem maker_cancels_name_no_order_witness:
  "\<exists>out m'. strategy_run (maker_on_tick exact_unit) [maker_tick 200, maker_tick 300] (maker_init 2 (6 / 10) 100) = Some (out, m') \<and>
    length out = 6 \<and> na_is_cancel (out ! 2) \<and> na_price (out ! 2) = na_price (out ! 0) \<and> \<not> na_is_cancel (out ! 0) \<and>
    na_internal_order_id (out ! 2) \<noteq> na_internal_order_id (out ! 0)"
proof -
  let ?run = "strategy_run (maker_on_tick exact_unit) [maker_tick 200, maker_tick 300] (maker_init 2 (6 / 10) 100)"
  have "\<exists>out m'. ?run = Some (out, m') \<and> length out = 6 \<and> na_is_cancel (out ! 2) \<and>
      na_price (out ! 2) = na_price (out ! 0) \<and> \<not> na_is_cancel (out ! 0)"
    by (simp add: maker_tick_def maker_on_tick_def fair_value_def exact_unit_def sample_signal_def maker_init_def
        update_bid_def update_ask_def sample_tick_def arr_get_def arr_set_def NUM_INSTRUMENTS_def make_action_def Let_def)
  then obtain out m' where o: "?run = Some (out, m')" "length out = 6" "na_is_cancel (out ! 2)"
    "na_price (out ! 2) = na_price (out ! 0)" "\<not> na_is_cancel (out ! 0)" by blast
  then have "na_internal_order_id (out ! 2) \<noteq> na_internal_order_id (out ! 0)"
    by (intro maker_cancels_name_no_order [OF o(1)]) simp_all
  then show ?thesis using o by blast
qed

text \<open>
  What the next property uses of the arithmetic: converted words are not negative, quotients of
  non-negative values are not negative, and no non-negative value is below the negated threshold.
\<close>

definition nonneg_laws :: "'f float_unit \<Rightarrow> 'f \<Rightarrow> ('f \<Rightarrow> bool) \<Rightarrow> bool" where
  "nonneg_laws fl threshold nonneg \<longleftrightarrow> (\<forall>w. nonneg (fl_of_u32 fl w)) \<and>
     (\<forall>x y. nonneg x \<longrightarrow> nonneg y \<longrightarrow> nonneg (fl_div fl x y)) \<and>
     (\<forall>x. nonneg x \<longrightarrow> \<not> fl_less fl x (fl_neg fl threshold))"

text \<open>
  The taker never sells: the imbalance is computed from an unsigned difference of the two
  quantities, so it is never negative, however heavy the ask side is; on the signals the signal
  engine computes from any snapshot, every order of the taker is a buy.
\<close>
theorem taker_never_sells:
  assumes "nonneg_laws fl (tk_THRESHOLD k) nonneg"
    and "taker_on_tick fl tick (compute_signals fl snap) k = Some (out, k')" "a \<in> set out"
  shows "na_is_buy a"
proof -
  have "\<not> fl_less fl (as_imbalance sig) (fl_neg fl (tk_THRESHOLD k))" if "compute_signals fl snap = Some sig" for sig
    using that assms(1) by (auto simp: compute_signals_def nonneg_laws_def Let_def split: if_splits)
  then show ?thesis
    using assms(2,3)
    by (auto simp: taker_on_tick_def make_action_def Let_def split: option.splits if_splits Option.bind_splits)
qed

definition heavy_asks :: BookSnapshot where
  "heavy_asks = \<lparr>bs_best_bid = 100, bs_best_ask = 102, bs_bid_qty = 1, bs_ask_qty = 900\<rparr>"

text \<open>One share bid against 900 offered: the taker buys.\<close>
theorem taker_never_sells_witness:
  "\<exists>out k'. taker_on_tick exact_unit (sample_tick 3 200 1 True False) (compute_signals exact_unit heavy_asks)
      (taker_init (6 / 10) 100) = Some (out, k') \<and> length out = 1 \<and> (\<forall>a \<in> set out. na_is_buy a)"
proof -
  have laws: "nonneg_laws exact_unit (tk_THRESHOLD (taker_init (6 / 10 :: rat) 100)) (\<lambda>x. 0 \<le> x)"
  proof -
    have "0 \<le> (of_int (uint w) :: rat)" for w :: u32 by (simp only: of_int_0_le_iff unsigned_greater_eq)
    then show ?thesis by (auto simp: nonneg_laws_def exact_unit_def taker_init_def simp del: of_int_uint)
  qed
  have "\<exists>out k'. taker_on_tick exact_unit (sample_tick 3 200 1 True False) (compute_signals exact_unit heavy_asks)
      (taker_init (6 / 10) 100) = Some (out, k') \<and> length out = 1"
    by (simp add: taker_on_tick_def compute_signals_def heavy_asks_def exact_unit_def taker_init_def make_action_def Let_def)
  then show ?thesis using taker_never_sells [OF laws] by blast
qed

end
