(* ===== verification/Firm_Main.thy ===== *)
theory Firm_Main
  imports Firm_Strategy Firm_Transmit
begin

text \<open>
  The firm's tick-to-trade pipeline (\<open>hft-trading-firm/src/main.cpp\<close>): the callback on a tick
  updates the book, computes the signals, asks the strategy for actions and passes each through
  the risk gate to the execution engine and the connector. Execution reports and the kill switch
  arrive between ticks.

  The strategy and the connector are the interfaces \<open>IStrategy\<close> and \<open>IExchangeConnector\<close>:
  arguments of the pipeline. What is required of the strategy is the locale \<open>strategy\<close>, which
  both strategies of the firm are instances of; what is required of the connector is the locale
  \<open>order_port\<close>, which the connector to the local exchange is an instance of. A strategy need
  not return: its conversion of a float to an integer may be undefined.
\<close>

section \<open>State and steps\<close>

record ('m, 's, 'c) firm =
  fm_builder :: "'m BookBuilder"
  fm_strategy :: 's
  fm_risk :: RiskManager
  fm_exec :: ExecutionEngine
  fm_conn :: 'c
  fm_book_cycles :: u64
  fm_signal_cycles :: u64
  fm_strategy_cycles :: u64
  fm_risk_cycles :: u64
  fm_execution_cycles :: u64
  fm_ticks :: u64

definition firm_init :: "'m flat_map \<Rightarrow> 'm flat_map \<Rightarrow> 's \<Rightarrow> (nat \<Rightarrow> TrackedOrder) \<Rightarrow> 'c \<Rightarrow> ('m, 's, 'c) firm" where
  "firm_init bo ao s raw c = \<lparr>fm_builder = builder_init bo ao, fm_strategy = s, fm_risk = risk_init,
     fm_exec = exec_init raw, fm_conn = c, fm_book_cycles = 0, fm_signal_cycles = 0, fm_strategy_cycles = 0,
     fm_risk_cycles = 0, fm_execution_cycles = 0, fm_ticks = 0\<rparr>"

text \<open>The clock readings around one action and around the stages of one tick.\<close>

record action_clock =
  ac_r1 :: u64
  ac_check :: u64
  ac_r2 :: u64
  ac_e1 :: u64
  ac_send :: "u64 \<times> u64"
  ac_e2 :: u64

record tick_clock =
  tc_t1 :: u64
  tc_t2 :: u64
  tc_t3 :: u64
  tc_t4 :: u64
  tc_action :: "nat \<Rightarrow> action_clock"

type_synonym 'c sender = "u64 \<times> u64 \<Rightarrow> NormalizedOrderAction \<Rightarrow> 'c \<Rightarrow> 'c option"

text \<open>The loop over the outbound actions; besides the new state it returns what was sent, each with the second of its check.\<close>

fun dispatch :: "'c sender \<Rightarrow> (nat \<Rightarrow> action_clock) \<Rightarrow> nat \<Rightarrow> NormalizedOrderAction list \<Rightarrow> ('m, 's, 'c) firm \<Rightarrow>
    ((u64 \<times> NormalizedOrderAction) list \<times> ('m, 's, 'c) firm) option" where
  "dispatch send clk k [] f = Some ([], f)"
| "dispatch send clk k (a # as) f = do {
     (safe, r) \<leftarrow> check_order (ac_check (clk k)) a (fm_risk f);
     let f = f\<lparr>fm_risk := r, fm_risk_cycles := fm_risk_cycles f + (ac_r2 (clk k) - ac_r1 (clk k))\<rparr>;
     if safe then do {
       (e, c) \<leftarrow> execute_action (send (ac_send (clk k))) a (fm_exec f, fm_conn f);
       (out_log, f) \<leftarrow> dispatch send clk (Suc k) as
         (f\<lparr>fm_exec := e, fm_conn := c, fm_execution_cycles := fm_execution_cycles f + (ac_e2 (clk k) - ac_e1 (clk k))\<rparr>);
       Some ((get_time_seconds (ac_check (clk k)), a) # out_log, f)
     } else dispatch send clk (Suc k) as f
   }"

definition firm_on_tick ::
  "'m flat_map \<Rightarrow> 'm flat_map \<Rightarrow> 'f float_unit \<Rightarrow>
   (NormalizedTick \<Rightarrow> 'f AlphaSignals option \<Rightarrow> 's \<Rightarrow> (NormalizedOrderAction list \<times> 's) option) \<Rightarrow> 'c sender \<Rightarrow>
   tick_clock \<Rightarrow> NormalizedTick \<Rightarrow> ('m, 's, 'c) firm \<Rightarrow> ((u64 \<times> NormalizedOrderAction) list \<times> ('m, 's, 'c) firm) option" where
  "firm_on_tick bo ao fl strat send clk tick f = do {
     b \<leftarrow> builder_process_tick bo ao tick (fm_builder f);
     snap \<leftarrow> builder_get_snapshot bo ao b (nt_instrument_id tick);
     let sig = compute_signals fl snap;
     (out, s) \<leftarrow> strat tick sig (fm_strategy f);
     (out_log, f) \<leftarrow> dispatch send (tc_action clk) 0 out (f\<lparr>fm_builder := b, fm_strategy := s\<rparr>);
     Some (out_log, f\<lparr>fm_book_cycles := fm_book_cycles f + (tc_t2 clk - tc_t1 clk),
                  fm_signal_cycles := fm_signal_cycles f + (tc_t3 clk - tc_t2 clk),
                  fm_strategy_cycles := fm_strategy_cycles f + (tc_t4 clk - tc_t3 clk),
                  fm_ticks := fm_ticks f + 1\<rparr>)
   }"

datatype firm_event = Tick tick_clock NormalizedTick | Execution u64 u32 u32 | Engage_kill

fun firm_step ::
  "'m flat_map \<Rightarrow> 'm flat_map \<Rightarrow> 'f float_unit \<Rightarrow>
   (NormalizedTick \<Rightarrow> 'f AlphaSignals option \<Rightarrow> 's \<Rightarrow> (NormalizedOrderAction list \<times> 's) option) \<Rightarrow> 'c sender \<Rightarrow>
   firm_event \<Rightarrow> ('m, 's, 'c) firm \<Rightarrow> ((u64 \<times> NormalizedOrderAction) list \<times> ('m, 's, 'c) firm) option" where
  "firm_step bo ao fl strat send (Tick clk tick) f = firm_on_tick bo ao fl strat send clk tick f"
| "firm_step bo ao fl strat send (Execution i q p) f = do {
     (e, r) \<leftarrow> on_execution_report i q p (fm_exec f, fm_risk f);
     Some ([], f\<lparr>fm_exec := e, fm_risk := r\<rparr>)
   }"
| "firm_step bo ao fl strat send Engage_kill f = Some ([], f\<lparr>fm_risk := trigger_kill_switch (fm_risk f)\<rparr>)"

fun firm_run ::
  "'m flat_map \<Rightarrow> 'm flat_map \<Rightarrow> 'f float_unit \<Rightarrow>
   (NormalizedTick \<Rightarrow> 'f AlphaSignals option \<Rightarrow> 's \<Rightarrow> (NormalizedOrderAction list \<times> 's) option) \<Rightarrow> 'c sender \<Rightarrow>
   firm_event list \<Rightarrow> ('m, 's, 'c) firm \<Rightarrow> ((u64 \<times> NormalizedOrderAction) list list \<times> ('m, 's, 'c) firm) option" where
  "firm_run bo ao fl strat send [] f = Some ([], f)"
| "firm_run bo ao fl strat send (x # xs) f = do {
     (out_log, f1) \<leftarrow> firm_step bo ao fl strat send x f;
     (out_logs, f2) \<leftarrow> firm_run bo ao fl strat send xs f1;
     Some (out_log # out_logs, f2)
   }"

section \<open>Positions from the ledger\<close>

fun total_filled :: "(u16 \<times> bool \<times> u32 \<times> u32) list \<Rightarrow> int" where
  "total_filled [] = 0"
| "total_filled ((j, b, q, p) # fs) = uint q + total_filled fs"

lemma total_filled_nonneg: "0 \<le> total_filled fs"
  by (induction fs rule: total_filled.induct) auto

lemma total_filled_snoc: "total_filled (fs @ [(j, b, q, p)]) = total_filled fs + uint q"
  by (induction fs rule: total_filled.induct) auto

lemma net_position_bound: "\<bar>net_position i fs\<bar> \<le> total_filled fs"
proof (induction fs rule: total_filled.induct)
  case (2 j b q p fs)
  have "\<bar>signed_qty b q\<bar> = uint q" "0 \<le> uint q" by (simp_all add: signed_qty_def)
  then have "\<bar>(if unat j = i then signed_qty b q else 0)\<bar> \<le> uint q" by simp
  then show ?case using 2 unfolding net_position.simps total_filled.simps by linarith
qed simp

lemma ledger_positions_bounded:
  assumes "risk_rep l r" "total_filled (lg_fills l) < 2 ^ 31"
  shows "bounded_positions (total_filled (lg_fills l)) r"
  unfolding bounded_positions_def
proof (intro allI impI)
  fix i assume "i < NUM_INSTRUMENTS"
  then have "rm_positions r i = word_of_int (net_position i (lg_fills l))" using assms(1) by (simp add: risk_rep_def)
  moreover have "sint (word_of_int (net_position i (lg_fills l)) :: 32 word) = net_position i (lg_fills l)"
    by (rule sint_in_range) (use net_position_bound [of i "lg_fills l"] assms(2) in linarith)+
  ultimately show "\<bar>sint (rm_positions r i)\<bar> \<le> total_filled (lg_fills l)"
    using net_position_bound [of i "lg_fills l"] by simp
qed

lemma report_total: "total_filled (lg_fills (ledger_report i q p l)) \<le> total_filled (lg_fills l) + uint q"
  by (auto simp: ledger_report_def total_filled_snoc split: option.splits)

section \<open>Dispatch keeps the ledger\<close>

text \<open>
  The state of risk gate and execution engine for a ledger, with all open identifiers below
  \<open>n\<close> and the checks of the current second counted.
\<close>

definition trading_ok :: "ledger \<Rightarrow> nat \<Rightarrow> ('m, 's, 'c) firm \<Rightarrow> bool" where
  "trading_ok l n f \<longleftrightarrow> exec_rep l (fm_exec f) \<and> risk_rep l (fm_risk f) \<and> open_in_range l \<and>
     total_filled (lg_fills l) < 2 ^ 31 - 1000 \<and> (\<forall>i \<in> dom (lg_open l). i < n)"

definition sent_ok :: "nat \<Rightarrow> nat \<Rightarrow> (u64 \<times> NormalizedOrderAction) list \<Rightarrow> bool" where
  "sent_ok m n out_log \<longleftrightarrow> sorted_wrt (<) (map (\<lambda>x. unat (na_internal_order_id (snd x))) out_log) \<and>
     (\<forall>x \<in> set out_log. m \<le> unat (na_internal_order_id (snd x)) \<and> unat (na_internal_order_id (snd x)) < n \<and>
        (na_is_cancel (snd x) \<or> na_quantity (snd x) \<le> MAX_ORDER_QTY))"

lemma sent_ok_append: "sent_ok m n xs \<Longrightarrow> sent_ok n k ys \<Longrightarrow> m \<le> n \<Longrightarrow> n \<le> k \<Longrightarrow> sent_ok m k (xs @ ys)"
  unfolding sent_ok_def sorted_wrt_append map_append by fastforce

lemma accepted_in_append: "accepted_in s (xs @ ys) = accepted_in s xs + accepted_in s ys"
  by (simp add: accepted_in_def)

lemma ledger_send_range:
  "open_in_range l \<Longrightarrow> unat (na_instrument_id a) < NUM_INSTRUMENTS \<Longrightarrow> open_in_range (ledger_send a l)"
  unfolding open_in_range_def by (auto simp: ledger_send_def)

lemma ledger_send_frame: "lg_fills (ledger_send a l) = lg_fills l"
  "dom (lg_open (ledger_send a l)) \<subseteq> insert (unat (na_internal_order_id a)) (dom (lg_open l))"
  by (auto simp: ledger_send_def split: if_splits)

lemma risk_rep_frame:
  "risk_rep l r \<Longrightarrow> lg_fills l' = lg_fills l \<Longrightarrow> rm_positions r' = rm_positions r \<Longrightarrow> rm_realized_pnl r' = rm_realized_pnl r \<Longrightarrow>
   risk_rep l' r'"
  by (simp add: risk_rep_def)

text \<open>The ledger after a list of sent actions.\<close>

definition ledger_sends :: "(u64 \<times> NormalizedOrderAction) list \<Rightarrow> ledger \<Rightarrow> ledger" where
  "ledger_sends out_log l = fold ledger_send (map snd out_log) l"

lemma ledger_sends_simps [simp]:
  "ledger_sends [] l = l" "ledger_sends (x # xs) l = ledger_sends xs (ledger_send (snd x) l)"
  "ledger_sends (xs @ ys) l = ledger_sends ys (ledger_sends xs l)"
  by (simp_all add: ledger_sends_def)

text \<open>The seconds of the checks numbered \<open>k\<close> up to \<open>k + n\<close>.\<close>

definition check_secs :: "(nat \<Rightarrow> action_clock) \<Rightarrow> nat \<Rightarrow> nat \<Rightarrow> u64 list" where
  "check_secs clk k n = map (\<lambda>j. get_time_seconds (ac_check (clk j))) [k ..< k + n]"

lemma check_secs_Suc: "check_secs clk k (Suc n) = get_time_seconds (ac_check (clk k)) # check_secs clk (Suc k) n"
  by (simp add: check_secs_def upt_conv_Cons del: upt_Suc)

text \<open>What one stretch of the pipeline does: the ledger, the identifiers and the rate counter move on, the fills and the rest stay.\<close>

definition traded :: "nat \<Rightarrow> ledger \<Rightarrow> ('m, 's, 'c) firm \<Rightarrow> u64 set \<Rightarrow> nat \<Rightarrow> (u64 \<times> NormalizedOrderAction) list \<Rightarrow> ledger \<Rightarrow> ('m, 's, 'c) firm \<Rightarrow> bool" where
  "traded n l f secs k out_log l' f' \<longleftrightarrow> l' = ledger_sends out_log l \<and> trading_ok l' (n + k) f' \<and> lg_fills l' = lg_fills l \<and> sent_ok n (n + k) out_log \<and>
    (\<forall>s. accepted_in s out_log + allowance (fm_risk f') s \<le> allowance (fm_risk f) s) \<and>
    rm_current_second (fm_risk f') \<in> {rm_current_second (fm_risk f)} \<union> secs \<and>
    unat (rm_msg_count (fm_risk f')) \<le> unat (rm_msg_count (fm_risk f)) + k \<and>
    fm_builder f' = fm_builder f \<and> fm_strategy f' = fm_strategy f"

lemma traded_trans:
  assumes "traded n l f secs k lg1 l1 f1" "traded (n + k) l1 f1 secs' k' lg2 l2 f2"
  shows "traded n l f (secs \<union> secs') (k + k') (lg1 @ lg2) l2 f2"
proof -
  have "accepted_in s (lg1 @ lg2) + allowance (fm_risk f2) s \<le> allowance (fm_risk f) s" for s
    using assms unfolding traded_def accepted_in_append by (smt (verit, best) add.assoc add_left_mono order_trans)
  moreover have "sent_ok n (n + (k + k')) (lg1 @ lg2)"
    using sent_ok_append [of n "n + k" lg1 "n + k + k'" lg2] assms by (simp add: traded_def add.assoc)
  ultimately show ?thesis using assms by (auto simp: traded_def add.assoc)
qed

lemma dispatch_one:
  assumes ok: "trading_ok l n f" and inst: "unat (na_instrument_id a) < NUM_INSTRUMENTS" and id: "unat (na_internal_order_id a) = n"
    and now: "rm_current_second (fm_risk f) \<le> get_time_seconds (ac_check (clk k))"
    and count: "unat (rm_msg_count (fm_risk f)) + 1 < 2 ^ 64"
    and port: "order_port send room limit" "room (Suc q) (fm_conn f)" "n < limit"
  shows "\<exists>lg1 f1 l1. room q (fm_conn f1) \<and> dispatch send clk k (a # as) f = map_option (\<lambda>(lg, f'). (lg1 @ lg, f')) (dispatch send clk (Suc k) as f1) \<and>
    traded n l f {get_time_seconds (ac_check (clk k))} 1 lg1 l1 f1"
proof -
  note ok' = ok [unfolded trading_ok_def]
  define tsc where "tsc = ac_check (clk k)"
  have bp: "bounded_positions (total_filled (lg_fills l)) (fm_risk f)"
    using ledger_positions_bounded [of l "fm_risk f"] ok' by simp
  obtain safe r where chk: "check_order tsc a (fm_risk f) = Some (safe, r)"
    "unat (rm_msg_count r) \<le> Suc (unat (rm_msg_count (fm_risk f)))" "safe \<longrightarrow> na_is_cancel a \<or> na_quantity a \<le> MAX_ORDER_QTY"
    and allow: "\<And>s. (if safe \<and> \<not> na_is_cancel a \<and> s = get_time_seconds tsc then 1 else 0) + allowance r s \<le> allowance (fm_risk f) s"
    using check_order_step [OF bp _ inst count, of tsc] ok' now by (auto simp: tsc_def)
  have sec: "rm_current_second r \<in> {rm_current_second (fm_risk f), get_time_seconds tsc}"
    using chk(1) by (auto simp: check_order_def count_message_def Let_def split: if_splits Option.bind_splits)
  note frame = check_order_frame [OF chk(1)]
  define f0 where "f0 = f\<lparr>fm_risk := r, fm_risk_cycles := fm_risk_cycles f + (ac_r2 (clk k) - ac_r1 (clk k))\<rparr>"
  show ?thesis
  proof (cases safe)
    case True
    obtain e where e: "track_order a (fm_exec f) = Some e" "exec_rep (ledger_send a l) e"
      using track_order_rep [of l "fm_exec f" a] ok' id by auto
    obtain c where c: "send (ac_send (clk k)) a (fm_conn f) = Some c" "room q c"
      using order_port.accepts [OF port(1,2)] port(3) id by blast
    define f1 where "f1 = f0\<lparr>fm_exec := e, fm_conn := c,
      fm_execution_cycles := fm_execution_cycles f0 + (ac_e2 (clk k) - ac_e1 (clk k))\<rparr>"
    have "dispatch send clk k (a # as) f = map_option (\<lambda>(lg, f'). ([(get_time_seconds tsc, a)] @ lg, f')) (dispatch send clk (Suc k) as f1)"
      using True chk(1) e(1) c(1)
      by (cases "dispatch send clk (Suc k) as f1") (auto simp: tsc_def f1_def f0_def execute_action_def)
    moreover have "trading_ok (ledger_send a l) (Suc n) f1"
      using ok' e(2) ledger_send_range [OF _ inst] ledger_send_frame [of a l] id
        risk_rep_frame [of l "fm_risk f" "ledger_send a l" r] frame
      by (auto simp: trading_ok_def f1_def f0_def less_Suc_eq dest!: subsetD)
    moreover have "accepted_in s [(get_time_seconds tsc, a)] + allowance r s \<le> allowance (fm_risk f) s" for s
      using allow [of s] True by (auto simp: accepted_in_def)
    ultimately show ?thesis
      using chk(2,3) sec True id ledger_send_frame(1) [of a l] c(2)
      by (intro exI [of _ "[(get_time_seconds tsc, a)]"] exI [of _ f1] exI [of _ "ledger_send a l"])
        (auto simp: traded_def sent_ok_def f1_def f0_def tsc_def)
  next
    case False
    have "dispatch send clk k (a # as) f = map_option (\<lambda>(lg, f'). ([] @ lg, f')) (dispatch send clk (Suc k) as f0)"
      using False chk(1) by (cases "dispatch send clk (Suc k) as f0") (simp_all add: tsc_def f0_def)
    moreover have "trading_ok l (Suc n) f0"
      using ok' risk_rep_frame [of l "fm_risk f" l r] frame by (auto simp: trading_ok_def f0_def less_Suc_eq)
    ultimately show ?thesis
      using chk(2) allow sec False order_port.fewer [OF port(1,2)]
      by (intro exI [of _ "[]"] exI [of _ f0] exI [of _ l])
        (auto simp: traded_def sent_ok_def f0_def tsc_def accepted_in_def simp del: dispatch.simps)
  qed
qed

lemma dispatch_ok:
  assumes "trading_ok l n f" "\<forall>a \<in> set as. unat (na_instrument_id a) < NUM_INSTRUMENTS"
    and "map (\<lambda>a. unat (na_internal_order_id a)) as = [n ..< n + length as]"
    and "sorted (check_secs clk k (length as))" "\<forall>s \<in> set (check_secs clk k (length as)). rm_current_second (fm_risk f) \<le> s"
    and "unat (rm_msg_count (fm_risk f)) + length as < 2 ^ 64"
    and "room (length as + q) (fm_conn f)" "n + length as \<le> limit" and port: "order_port send room limit"
  shows "\<exists>out_log f' l'. dispatch send clk k as f = Some (out_log, f') \<and> room q (fm_conn f') \<and>
    traded n l f (set (check_secs clk k (length as))) (length as) out_log l' f'"
  using assms(1-8)
proof (induction as arbitrary: k f l n)
  case Nil
  then show ?case by (auto simp: traded_def sent_ok_def accepted_in_def check_secs_def)
next
  case (Cons a as)
  have id: "unat (na_internal_order_id a) = n" and ids: "map (\<lambda>a. unat (na_internal_order_id a)) as = [Suc n ..< Suc n + length as]"
    using Cons.prems(3) by (simp_all add: upt_conv_Cons del: upt_Suc)
  obtain lg1 f1 l1 where one: "dispatch send clk k (a # as) f = map_option (\<lambda>(lg, f'). (lg1 @ lg, f')) (dispatch send clk (Suc k) as f1)"
    "traded n l f {get_time_seconds (ac_check (clk k))} 1 lg1 l1 f1" "room (length as + q) (fm_conn f1)"
    using dispatch_one [OF Cons.prems(1) _ id _ _ port, of clk k "length as + q" as] Cons.prems(2,5-8) by (auto simp: check_secs_Suc)
  have "\<exists>out_log f' l'. dispatch send clk (Suc k) as f1 = Some (out_log, f') \<and> room q (fm_conn f') \<and>
    traded (Suc n) l1 f1 (set (check_secs clk (Suc k) (length as))) (length as) out_log l' f'"
    using one(2,3) Cons.prems ids by (intro Cons.IH) (auto simp: traded_def check_secs_Suc)
  then obtain lg2 f2 l2 where two: "dispatch send clk (Suc k) as f1 = Some (lg2, f2)" "room q (fm_conn f2)"
    "traded (n + 1) l1 f1 (set (check_secs clk (Suc k) (length as))) (length as) lg2 l2 f2" by auto
  have "set (check_secs clk k (length (a # as))) = {get_time_seconds (ac_check (clk k))} \<union> set (check_secs clk (Suc k) (length as))"
    by (simp add: check_secs_Suc)
  then show ?case
    using traded_trans [OF one(2) two(3)] one(1) two(1,2) by (intro exI [of _ "lg1 @ lg2"] exI [of _ f2] exI [of _ l2]) simp
qed

section \<open>One event\<close>

text \<open>
  The ledger of a session is what the sent actions and the reports make of it, in the order of
  the events; \<open>logs\<close> holds the actions each event sent.
\<close>

fun event_ledger :: "firm_event \<Rightarrow> (u64 \<times> NormalizedOrderAction) list \<Rightarrow> ledger \<Rightarrow> ledger" where
  "event_ledger (Execution i q p) out_log l = ledger_report i q p l"
| "event_ledger e out_log l = ledger_sends out_log l"

fun session_ledger :: "firm_event list \<Rightarrow> (u64 \<times> NormalizedOrderAction) list list \<Rightarrow> ledger \<Rightarrow> ledger" where
  "session_ledger (e # es) (out_log # logs) l = session_ledger es logs (event_ledger e out_log l)"
| "session_ledger es logs l = l"

fun event_ticks :: "firm_event \<Rightarrow> NormalizedTick list" where
  "event_ticks (Tick clk t) = [t]"
| "event_ticks e = []"

fun event_secs :: "firm_event \<Rightarrow> u64 list" where
  "event_secs (Tick clk t) = check_secs (tc_action clk) 0 4"
| "event_secs e = []"

fun event_qty :: "firm_event \<Rightarrow> int" where
  "event_qty (Execution i q p) = uint q"
| "event_qty e = 0"

fun event_fits :: "firm_event \<Rightarrow> bool" where
  "event_fits (Tick clk t) = (unat (nt_instrument_id t) < NUM_INSTRUMENTS)"
| "event_fits (Execution i q p) = (uint p * uint q < 2 ^ 63)"
| "event_fits Engage_kill = True"

definition firm_ok :: "'m flat_map \<Rightarrow> 'm flat_map \<Rightarrow> ('s \<Rightarrow> u64) \<Rightarrow> ledger \<Rightarrow> nat \<Rightarrow> depth \<Rightarrow> ('m, 's, 'c) firm \<Rightarrow> bool" where
  "firm_ok bo ao counter l n d f \<longleftrightarrow>
     trading_ok l n f \<and> builder_rep bo ao d (fm_builder f) \<and> unat (counter (fm_strategy f)) = n"

text \<open>
  The strategy returns on every tick of a session, that is, on the signals of the books as they
  are after it: no conversion it makes is undefined.
\<close>

fun strategy_defined :: "'f float_unit \<Rightarrow> (NormalizedTick \<Rightarrow> 'f AlphaSignals option \<Rightarrow> 's \<Rightarrow> (NormalizedOrderAction list \<times> 's) option) \<Rightarrow>
    depth \<Rightarrow> NormalizedTick list \<Rightarrow> 's \<Rightarrow> bool" where
  "strategy_defined fl strat d [] s = True"
| "strategy_defined fl strat d (t # ts) s = (\<forall>snap. snapshot_of (depth_tick t d (unat (nt_instrument_id t))) snap \<longrightarrow>
     (case strat t (compute_signals fl snap) s of None \<Rightarrow> False | Some (out, s') \<Rightarrow> strategy_defined fl strat (depth_tick t d) ts s'))"

lemma strategy_defined_at:
  "snapshot_of (depth_tick t d (unat (nt_instrument_id t))) snap \<Longrightarrow> strategy_defined fl strat d (t # ts) s \<longleftrightarrow>
   (case strat t (compute_signals fl snap) s of None \<Rightarrow> False | Some (out, s') \<Rightarrow> strategy_defined fl strat (depth_tick t d) ts s')"
  using snapshot_of_unique by fastforce

text \<open>What one event leaves behind.\<close>

definition stepped :: "'m flat_map \<Rightarrow> 'm flat_map \<Rightarrow> ('s \<Rightarrow> u64) \<Rightarrow> firm_event \<Rightarrow> ledger \<Rightarrow> nat \<Rightarrow> depth \<Rightarrow> ('m, 's, 'c) firm \<Rightarrow>
    (u64 \<times> NormalizedOrderAction) list \<Rightarrow> nat \<Rightarrow> ('m, 's, 'c) firm \<Rightarrow> bool" where
  "stepped bo ao counter e l n d f out_log k f' \<longleftrightarrow> k \<le> 4 \<and>
     firm_ok bo ao counter (event_ledger e out_log l) (n + k) (fold depth_tick (event_ticks e) d) f' \<and>
     sent_ok n (n + k) out_log \<and>
     (\<forall>s. accepted_in s out_log + allowance (fm_risk f') s \<le> allowance (fm_risk f) s) \<and>
     rm_current_second (fm_risk f') \<in> {rm_current_second (fm_risk f)} \<union> set (event_secs e) \<and>
     unat (rm_msg_count (fm_risk f')) \<le> unat (rm_msg_count (fm_risk f)) + 4 \<and>
     total_filled (lg_fills (event_ledger e out_log l)) \<le> total_filled (lg_fills l) + event_qty e"

lemma check_secs_take: "n \<le> m \<Longrightarrow> check_secs clk k n = take n (check_secs clk k m)"
  by (simp add: check_secs_def take_map)

lemma ids_from_nat:
  assumes "unat c + n < 2 ^ 64"
  shows "map unat (ids_from c n) = [unat c ..< unat c + n]"
proof -
  have "unat (c + word_of_nat j) = unat c + j" if "j < n" for j
    using that assms by (simp add: unat_word_ariths unat_of_nat)
  then show ?thesis by (auto intro!: nth_equalityI simp: ids_from_def)
qed

lemma tick_step:
  assumes strat: "strategy strat counter" and laws: "flat_map_laws (>) bo" "flat_map_laws (<) ao"
    and port: "order_port send room limit" "room (4 + q) (fm_conn f)" "n + 4 \<le> limit"
    and ok: "firm_ok bo ao counter l n d f" and fits: "tick_fits d t" "unat (nt_instrument_id t) < NUM_INSTRUMENTS"
    and secs: "sorted (check_secs (tc_action clk) 0 4)" "\<forall>s \<in> set (check_secs (tc_action clk) 0 4). rm_current_second (fm_risk f) \<le> s"
    and count: "unat (rm_msg_count (fm_risk f)) + 4 < 2 ^ 64" "n + 4 < 2 ^ 64"
    and snap: "snapshot_of (depth_tick t d (unat (nt_instrument_id t))) snap"
    and s: "strat t (compute_signals fl snap) (fm_strategy f) = Some (out, s)"
  shows "\<exists>out_log k f'. firm_on_tick bo ao fl strat send clk t f = Some (out_log, f') \<and> fm_strategy f' = s \<and> room q (fm_conn f') \<and>
    stepped bo ao counter (Tick clk t) l n d f out_log k f'"
proof -
  note ok' = ok [unfolded firm_ok_def]
  obtain b where b: "builder_process_tick bo ao t (fm_builder f) = Some b" "builder_rep bo ao (depth_tick t d) b"
    using builder_process_tick_rep [OF laws _ fits(1)] ok' by blast
  have get: "builder_get_snapshot bo ao b (nt_instrument_id t) = Some snap"
    using builder_get_snapshot_rep [OF laws b(2) fits(2)] snapshot_of_unique [OF _ snap] by blast
  note law = strategy.ids [OF strat s] strategy.instrument [OF strat s] strategy.few [OF strat s]
  define k where "k = length out"
  have k: "k \<le> 4" using law by (simp add: k_def)
  have "map unat (map na_internal_order_id out) = [n ..< n + length out]"
    using law(1) ids_from_nat [of "counter (fm_strategy f)" k] ok' k count(2) by (simp add: k_def)
  then have ids: "map (\<lambda>a. unat (na_internal_order_id a)) out = [n ..< n + length out]" by (simp add: comp_def)
  have cnt: "unat (counter s) = n + k"
    using law(1) ok' k count(2) by (simp add: k_def unat_word_ariths unat_of_nat)
  have room: "room (length out + q) (fm_conn f)" "n + length out \<le> limit"
    using order_port.room_le [OF port(1) _ port(2), of "length out + q"] port(3) k by (simp_all add: k_def)
  have "\<exists>out_log f' l'. dispatch send (tc_action clk) 0 out (f\<lparr>fm_builder := b, fm_strategy := s\<rparr>) = Some (out_log, f') \<and> room q (fm_conn f') \<and>
    traded n l (f\<lparr>fm_builder := b, fm_strategy := s\<rparr>) (set (check_secs (tc_action clk) 0 (length out))) (length out) out_log l' f'"
    using secs k count law(2) fits(2) ok' room port(1)
    by (intro dispatch_ok [OF _ _ ids])
      (auto simp: trading_ok_def check_secs_take [of "length out" 4] k_def dest: in_set_takeD intro: sorted_wrt_take)
  then obtain out_log f' l' where d: "dispatch send (tc_action clk) 0 out (f\<lparr>fm_builder := b, fm_strategy := s\<rparr>) = Some (out_log, f')"
    "traded n l (f\<lparr>fm_builder := b, fm_strategy := s\<rparr>) (set (check_secs (tc_action clk) 0 k)) k out_log l' f'" "room q (fm_conn f')"
    by (auto simp: k_def)
  have sub: "set (check_secs (tc_action clk) 0 k) \<subseteq> set (check_secs (tc_action clk) 0 4)"
    using check_secs_take [OF k, of "tc_action clk" 0] by (metis set_take_subset)
  define f2 where "f2 = f'\<lparr>fm_book_cycles := fm_book_cycles f' + (tc_t2 clk - tc_t1 clk),
    fm_signal_cycles := fm_signal_cycles f' + (tc_t3 clk - tc_t2 clk),
    fm_strategy_cycles := fm_strategy_cycles f' + (tc_t4 clk - tc_t3 clk), fm_ticks := fm_ticks f' + 1\<rparr>"
  have "firm_on_tick bo ao fl strat send clk t f = Some (out_log, f2)"
    using b(1) get s d(1) by (simp add: firm_on_tick_def f2_def Let_def)
  moreover have "stepped bo ao counter (Tick clk t) l n d f out_log k f2"
    using d(2) b(2) cnt sub k by (auto simp: stepped_def firm_ok_def traded_def trading_ok_def f2_def)
  moreover have "fm_strategy f2 = s" "room q (fm_conn f2)" using d(2,3) by (simp_all add: traded_def f2_def)
  ultimately show ?thesis by blast
qed

lemma tick_undefined:
  assumes laws: "flat_map_laws (>) bo" "flat_map_laws (<) ao" and rep: "builder_rep bo ao d (fm_builder f)"
    and fits: "tick_fits d t" "unat (nt_instrument_id t) < NUM_INSTRUMENTS"
    and snap: "snapshot_of (depth_tick t d (unat (nt_instrument_id t))) snap"
    and undef: "strat t (compute_signals fl snap) (fm_strategy f) = None"
  shows "firm_on_tick bo ao fl strat send clk t f = None"
proof -
  obtain b where b: "builder_process_tick bo ao t (fm_builder f) = Some b" "builder_rep bo ao (depth_tick t d) b"
    using builder_process_tick_rep [OF laws rep fits(1)] by blast
  have "builder_get_snapshot bo ao b (nt_instrument_id t) = Some snap"
    using builder_get_snapshot_rep [OF laws b(2) fits(2)] snapshot_of_unique [OF _ snap] by blast
  then show ?thesis using b(1) undef by (simp add: firm_on_tick_def)
qed

lemma sent_ok_Nil [simp]: "sent_ok m n []"
  by (simp add: sent_ok_def)

lemma accepted_in_Nil [simp]: "accepted_in s [] = 0"
  by (simp add: accepted_in_def)

lemma ledger_report_frame:
  "dom (lg_open (ledger_report i q p l)) \<subseteq> dom (lg_open l)"
  "open_in_range l \<Longrightarrow> open_in_range (ledger_report i q p l)"
  by (auto simp: ledger_report_def open_in_range_def split: option.splits if_splits)

lemma execution_step:
  assumes ok: "firm_ok bo ao counter l n d f" and fits: "uint p * uint q < 2 ^ 63"
    and small: "total_filled (lg_fills l) + uint q < 2 ^ 31 - 1000"
  shows "\<exists>f'. firm_step bo ao fl strat send (Execution i q p) f = Some ([], f') \<and>
    stepped bo ao counter (Execution i q p) l n d f [] 0 f'"
proof -
  note ok' = ok [unfolded firm_ok_def trading_ok_def]
  define r where "r = fm_risk f"
  obtain e' r' where run: "on_execution_report i q p (fm_exec f, r) = Some (e', r')"
    "exec_rep (ledger_report i q p l) e'" "risk_rep (ledger_report i q p l) r'"
    and frame: "r' = r\<lparr>rm_positions := rm_positions r', rm_realized_pnl := rm_realized_pnl r'\<rparr>"
    using report_rep [of l "fm_exec f" r p q i] ok' fits by (auto simp: r_def)
  have same: "rm_current_second r' = rm_current_second r" "rm_msg_count r' = rm_msg_count r"
    by (subst frame, simp)+
  then have "allowance r' = allowance r" by (simp add: allowance_def fun_eq_iff)
  then show ?thesis
    using run same ok' small report_total [of i q p l] ledger_report_frame [where i = i and q = q and p = p and l = l]
    by (auto simp: stepped_def firm_ok_def trading_ok_def r_def)
qed

lemma kill_step:
  assumes "firm_ok bo ao counter l n d f"
  shows "stepped bo ao counter Engage_kill l n d f [] 0 (f\<lparr>fm_risk := trigger_kill_switch (fm_risk f)\<rparr>)"
  using assms by (auto simp: stepped_def firm_ok_def trading_ok_def allowance_def risk_rep_def trigger_kill_switch_def)

text \<open>An event is handled, or the strategy is undefined on its tick.\<close>

lemma firm_step_ok:
  assumes strat: "strategy strat counter" and laws: "flat_map_laws (>) bo" "flat_map_laws (<) ao"
    and port: "order_port send room limit" "room (4 + q) (fm_conn f)" "n + 4 \<le> limit"
    and ok: "firm_ok bo ao counter l n d f" and fits: "ticks_fit d (event_ticks e)" "event_fits e"
    and secs: "sorted (event_secs e)" "\<forall>s \<in> set (event_secs e). rm_current_second (fm_risk f) \<le> s"
    and count: "unat (rm_msg_count (fm_risk f)) + 4 < 2 ^ 64" "n + 4 < 2 ^ 64"
    and small: "total_filled (lg_fills l) + event_qty e < 2 ^ 31 - 1000"
  obtains (undefined) "firm_step bo ao fl strat send e f = None" "\<And>ts. \<not> strategy_defined fl strat d (event_ticks e @ ts) (fm_strategy f)"
  | (handled) out_log k f' where "firm_step bo ao fl strat send e f = Some (out_log, f')"
      "stepped bo ao counter e l n d f out_log k f'" "room q (fm_conn f')"
      "\<And>ts. strategy_defined fl strat d (event_ticks e @ ts) (fm_strategy f) \<longleftrightarrow>
        strategy_defined fl strat (fold depth_tick (event_ticks e) d) ts (fm_strategy f')"
proof (cases e)
  case (Tick clk t)
  have t: "tick_fits d t" "unat (nt_instrument_id t) < NUM_INSTRUMENTS" using fits Tick by simp_all
  obtain b where b: "builder_rep bo ao (depth_tick t d) b"
    using builder_process_tick_rep [OF laws _ t(1)] ok by (auto simp: firm_ok_def)
  obtain snap where snap: "snapshot_of (depth_tick t d (unat (nt_instrument_id t))) snap"
    using builder_get_snapshot_rep [OF laws b t(2)] by blast
  note at = strategy_defined_at [OF snap, of fl strat]
  show thesis
  proof (cases "strat t (compute_signals fl snap) (fm_strategy f)")
    case None
    then have "firm_step bo ao fl strat send e f = None"
      using tick_undefined [where strat = strat and fl = fl and send = send and clk = clk, OF laws _ t snap] ok Tick by (simp add: firm_ok_def)
    then show thesis using undefined None at Tick by (simp del: strategy_defined.simps(2))
  next
    case (Some r)
    obtain out s where s: "strat t (compute_signals fl snap) (fm_strategy f) = Some (out, s)" using Some by (cases r) auto
    show thesis
      using tick_step [OF strat laws port ok t _ _ count snap s, of clk] secs Tick at s handled by fastforce
  qed
next
  case (Execution i qty p)
  obtain f' where f': "firm_step bo ao fl strat send e f = Some ([], f')" "stepped bo ao counter e l n d f [] 0 f'"
    using execution_step [OF ok, of p qty fl strat send i] fits small Execution by auto
  moreover have "fm_strategy f' = fm_strategy f" "fm_conn f' = fm_conn f" using f'(1) Execution by (auto split: Option.bind_splits)
  ultimately show thesis using handled [of "[]" f' 0] order_port.room_le [OF port(1) _ port(2), of q] Execution by simp
next
  case Engage_kill
  then show thesis
    using kill_step [OF ok] order_port.room_le [OF port(1) _ port(2), of q]
    by (intro handled [of "[]" "f\<lparr>fm_risk := trigger_kill_switch (fm_risk f)\<rparr>" 0]) simp_all
qed

section \<open>A session\<close>

fun total_reported :: "firm_event list \<Rightarrow> int" where
  "total_reported [] = 0"
| "total_reported (e # es) = event_qty e + total_reported es"

lemma total_reported_nonneg: "0 \<le> total_reported es"
proof (induction es)
  case (Cons e es)
  then show ?case by (cases e) simp_all
qed simp

lemma ticks_fit_append: "ticks_fit d (xs @ ys) \<longleftrightarrow> ticks_fit d xs \<and> ticks_fit (fold depth_tick xs d) ys"
  by (induction xs arbitrary: d) auto

lemma firm_run_ok:
  assumes strat: "strategy strat counter" and laws: "flat_map_laws (>) bo" "flat_map_laws (<) ao" and port: "order_port send room limit"
  shows "firm_ok bo ao counter l n d f \<Longrightarrow> ticks_fit d (concat (map event_ticks es)) \<Longrightarrow> list_all event_fits es \<Longrightarrow>
    sorted (concat (map event_secs es)) \<Longrightarrow> \<forall>s \<in> set (concat (map event_secs es)). rm_current_second (fm_risk f) \<le> s \<Longrightarrow>
    unat (rm_msg_count (fm_risk f)) + 4 * length es < 2 ^ 64 \<Longrightarrow> n + 4 * length es < 2 ^ 64 \<Longrightarrow>
    total_filled (lg_fills l) + total_reported es < 2 ^ 31 - 1000 \<Longrightarrow>
    room (4 * length es) (fm_conn f) \<Longrightarrow> n + 4 * length es \<le> limit \<Longrightarrow>
    if strategy_defined fl strat d (concat (map event_ticks es)) (fm_strategy f)
    then \<exists>logs n' f'. firm_run bo ao fl strat send es f = Some (logs, f') \<and> n \<le> n' \<and>
      sent_ok n n' (concat logs) \<and> (\<forall>s. accepted_in s (concat logs) \<le> allowance (fm_risk f) s) \<and>
      firm_ok bo ao counter (session_ledger es logs l) n' (fold depth_tick (concat (map event_ticks es)) d) f' \<and>
      total_filled (lg_fills (session_ledger es logs l)) \<le> total_filled (lg_fills l) + total_reported es
    else firm_run bo ao fl strat send es f = None"
proof (induction es arbitrary: l n d f)
  case Nil
  then show ?case by (intro if_bool_eq_conj [THEN iffD2] conjI impI exI [of _ "[]"] exI [of _ n] exI [of _ f]) simp_all
next
  case (Cons e es)
  note nonneg = total_reported_nonneg [of es]
  have hyps: "room (4 + 4 * length es) (fm_conn f)" "n + 4 \<le> limit" "ticks_fit d (event_ticks e)" "event_fits e"
    "sorted (event_secs e)" "\<forall>s \<in> set (event_secs e). rm_current_second (fm_risk f) \<le> s"
    "unat (rm_msg_count (fm_risk f)) + 4 < 2 ^ 64" "n + 4 < 2 ^ 64" "total_filled (lg_fills l) + event_qty e < 2 ^ 31 - 1000"
    using Cons.prems(2-) nonneg by (auto simp: ticks_fit_append sorted_append)
  show ?case
  proof (rule firm_step_ok [where send = send and fl = fl and e = e, OF strat laws port hyps(1,2) Cons.prems(1) hyps(3-)])
    assume "firm_step bo ao fl strat send e f = None" "\<And>ts. \<not> strategy_defined fl strat d (event_ticks e @ ts) (fm_strategy f)"
    then show ?case by simp
  next
    fix out_log k f1
    assume one: "firm_step bo ao fl strat send e f = Some (out_log, f1)" and st: "stepped bo ao counter e l n d f out_log k f1"
      and room1: "room (4 * length es) (fm_conn f1)"
      and same: "\<And>ts. strategy_defined fl strat d (event_ticks e @ ts) (fm_strategy f) \<longleftrightarrow>
        strategy_defined fl strat (fold depth_tick (event_ticks e) d) ts (fm_strategy f1)"
    note st' = st [unfolded stepped_def]
    define l1 where "l1 = event_ledger e out_log l"
    define d1 where "d1 = fold depth_tick (event_ticks e) d"
    let ?ts = "concat (map event_ticks es)"
    have "rm_current_second (fm_risk f1) \<le> s" if "s \<in> set (concat (map event_secs es))" for s
    proof -
      have "\<forall>x \<in> set (event_secs e). x \<le> s" using Cons.prems(4) that by (auto simp: sorted_append)
      moreover have "rm_current_second (fm_risk f) \<le> s" using Cons.prems(5) that by simp
      ultimately show ?thesis using st' by auto
    qed
    moreover have "total_filled (lg_fills l1) + total_reported es < 2 ^ 31 - 1000"
      using st' Cons.prems(8) by (simp add: l1_def)
    ultimately have rest: "if strategy_defined fl strat d1 ?ts (fm_strategy f1)
      then \<exists>logs n' f'. firm_run bo ao fl strat send es f1 = Some (logs, f') \<and> n + k \<le> n' \<and>
        sent_ok (n + k) n' (concat logs) \<and> (\<forall>s. accepted_in s (concat logs) \<le> allowance (fm_risk f1) s) \<and>
        firm_ok bo ao counter (session_ledger es logs l1) n' (fold depth_tick ?ts d1) f' \<and>
        total_filled (lg_fills (session_ledger es logs l1)) \<le> total_filled (lg_fills l1) + total_reported es
      else firm_run bo ao fl strat send es f1 = None"
      using st' Cons.prems(2-7,10) room1 by (intro Cons.IH) (auto simp: l1_def d1_def ticks_fit_append sorted_append)
    show ?case
    proof (cases "strategy_defined fl strat d1 ?ts (fm_strategy f1)")
      case True
      then obtain logs n' f' where run: "firm_run bo ao fl strat send es f1 = Some (logs, f')" "n + k \<le> n'" "sent_ok (n + k) n' (concat logs)"
        "firm_ok bo ao counter (session_ledger es logs l1) n' (fold depth_tick ?ts d1) f'"
        "total_filled (lg_fills (session_ledger es logs l1)) \<le> total_filled (lg_fills l1) + total_reported es"
        and acc: "\<And>s. accepted_in s (concat logs) \<le> allowance (fm_risk f1) s" using rest by auto
      have "accepted_in s (concat (out_log # logs)) \<le> allowance (fm_risk f) s" for s
        using st' acc [of s] unfolding concat.simps accepted_in_append by (meson add_left_mono order_trans)
      moreover have "sent_ok n n' (concat (out_log # logs))"
        using sent_ok_append [of n "n + k" out_log n' "concat logs"] st' run(2,3) by simp
      ultimately have "firm_run bo ao fl strat send (e # es) f = Some (out_log # logs, f') \<and> n \<le> n' \<and>
          sent_ok n n' (concat (out_log # logs)) \<and> (\<forall>s. accepted_in s (concat (out_log # logs)) \<le> allowance (fm_risk f) s) \<and>
          firm_ok bo ao counter (session_ledger (e # es) (out_log # logs) l) n' (fold depth_tick (concat (map event_ticks (e # es))) d) f' \<and>
          total_filled (lg_fills (session_ledger (e # es) (out_log # logs) l)) \<le> total_filled (lg_fills l) + total_reported (e # es)"
        using one run st' by (simp add: l1_def d1_def)
      then show ?thesis using same [of ?ts] True unfolding d1_def by (auto simp del: firm_run.simps session_ledger.simps)
    next
      case False
      then show ?thesis using same [of ?ts] rest one by (simp add: d1_def)
    qed
  qed
qed

definition session_fits :: "firm_event list \<Rightarrow> bool" where
  "session_fits es \<longleftrightarrow> ticks_fit (\<lambda>_ _ _. 0) (concat (map event_ticks es)) \<and> list_all event_fits es \<and>
     sorted (concat (map event_secs es)) \<and> 4 * length es + 1 < 2 ^ 64 \<and> total_reported es < 2 ^ 31 - 1000"

section \<open>When the strategies are defined\<close>

text \<open>
  The market maker is defined on a session as long as the fair value of every signal converts.
\<close>

fun fair_defined :: "'f float_unit \<Rightarrow> 'f \<Rightarrow> depth \<Rightarrow> NormalizedTick list \<Rightarrow> bool" where
  "fair_defined fl thr d [] = True"
| "fair_defined fl thr d (t # ts) = (unat (nt_instrument_id t) < NUM_INSTRUMENTS \<and>
     (\<forall>snap sig. snapshot_of (depth_tick t d (unat (nt_instrument_id t))) snap \<longrightarrow> compute_signals fl snap = Some sig \<longrightarrow>
        fl_to_u32 fl (fair_value fl thr sig) \<noteq> None) \<and> fair_defined fl thr (depth_tick t d) ts)"

lemma maker_keeps_threshold: "maker_on_tick fl t g m = Some (out, m') \<Longrightarrow> mm_IMBALANCE_THRESHOLD m' = mm_IMBALANCE_THRESHOLD m"
  by (frule maker_on_tickE) (auto simp: maker_on_tick_eq [OF refl])

lemma maker_defined: "fair_defined fl (mm_IMBALANCE_THRESHOLD m) d ts \<Longrightarrow> strategy_defined fl (maker_on_tick fl) d ts m"
proof (induction ts arbitrary: d m)
  case (Cons t ts)
  have "\<exists>out m'. maker_on_tick fl t (compute_signals fl snap) m = Some (out, m')"
    if snap: "snapshot_of (depth_tick t d (unat (nt_instrument_id t))) snap" for snap
  proof (cases "compute_signals fl snap")
    case (Some sig)
    then obtain fair where fair: "fl_to_u32 fl (fair_value fl (mm_IMBALANCE_THRESHOLD m) sig) = Some fair" using Cons.prems snap by auto
    have i: "unat (nt_instrument_id t) < NUM_INSTRUMENTS" using Cons.prems by simp
    show ?thesis unfolding Some maker_on_tick_eq [OF refl i fair] by blast
  qed (simp add: maker_on_tick_def)
  moreover have "strategy_defined fl (maker_on_tick fl) (depth_tick t d) ts m'" if "maker_on_tick fl t g m = Some (out, m')" for g out m'
    using Cons.IH [of m' "depth_tick t d"] Cons.prems maker_keeps_threshold [OF that] by simp
  ultimately show ?case by fastforce
qed simp

text \<open>
  On exact arithmetic books of at most 21474 shares per level never make it undefined: neither
  the sum of the quantities nor that of the products wraps, and the fair value is between the
  quotes. Larger levels can: \<open>signals_divide_by_zero\<close>.
\<close>

lemma exact_fair_defined:
  assumes sig: "compute_signals exact_unit snap = Some sig" and thr: "0 \<le> thr"
    and small: "unat (bs_best_bid snap) \<le> 100000" "unat (bs_best_ask snap) \<le> 100000" "unat (bs_bid_qty snap) \<le> 21474" "unat (bs_ask_qty snap) \<le> 21474"
  shows "fl_to_u32 exact_unit (fair_value exact_unit thr sig) \<noteq> None"
proof -
  define bid ask bq aq where "bid = unat (bs_best_bid snap)" and "ask = unat (bs_best_ask snap)" and "bq = unat (bs_bid_qty snap)" and "aq = unat (bs_ask_qty snap)"
  note b = small [folded bid_def ask_def bq_def aq_def]
  have le: "bid * aq \<le> 100000 * aq" "ask * bq \<le> 100000 * bq" using b by (simp_all add: mult_le_mono1)
  have D: "unat (bs_bid_qty snap + bs_ask_qty snap) = bq + aq" using b by (simp add: unat_word_ariths bq_def aq_def)
  have pos: "0 < bq + aq" using sig by (auto simp: compute_signals_def bq_def aq_def unat_gt_0 Let_def split: if_splits)
  have "bid * aq < 4294967296" "ask * bq < 4294967296" "bid * aq + ask * bq < 4294967296" using le b by linarith+
  then have N: "unat (bs_best_bid snap * bs_ask_qty snap + bs_best_ask snap * bs_bid_qty snap) = bid * aq + ask * bq"
    by (simp add: unat_word_ariths bid_def ask_def bq_def aq_def)
  have u: "(unsigned (bs_bid_qty snap + bs_ask_qty snap) :: rat) = of_nat (bq + aq)"
    "(unsigned (bs_best_bid snap * bs_ask_qty snap + bs_best_ask snap * bs_bid_qty snap) :: rat) = of_nat (bid * aq + ask * bq)"
    unfolding N [symmetric] D [symmetric] by simp_all
  define x where "x = (of_nat (bid * aq + ask * bq) :: rat) / of_nat (bq + aq)"
  have x: "as_micro_price sig = x" "as_imbalance sig = unsigned (bs_bid_qty snap - bs_ask_qty snap) / of_nat (bq + aq)"
    using sig by (auto simp: compute_signals_def exact_unit_def x_def u Let_def split: if_splits)
  have "bid * aq + ask * bq \<le> 100000 * (bq + aq)" unfolding distrib_left using add_mono [OF le] by (simp only: add.commute)
  then have "(of_nat (bid * aq + ask * bq) :: rat) \<le> of_nat (100000 * (bq + aq))" by (simp only: of_nat_le_iff)
  then have "0 \<le> x" "x \<le> 100000" using pos by (simp_all add: x_def divide_le_eq)
  moreover have "\<not> as_imbalance sig < - thr" 
  proof -
    have "(0 :: rat) \<le> of_nat (unat (bs_bid_qty snap - bs_ask_qty snap)) / of_nat (bq + aq)" by (intro divide_nonneg_nonneg of_nat_0_le_iff)
    then show ?thesis using thr by (simp add: x(2))
  qed
  ultimately show ?thesis by (simp add: fair_value_def x(1)) (auto simp: exact_unit_def)
qed

fun levels_below :: "nat \<Rightarrow> depth \<Rightarrow> NormalizedTick list \<Rightarrow> bool" where
  "levels_below b d [] = True"
| "levels_below b d (t # ts) = ((\<forall>i s p. depth_tick t d i s p \<le> b) \<and> levels_below b (depth_tick t d) ts)"

lemma small_books_defined:
  assumes "0 \<le> thr" "\<forall>t \<in> set ts. unat (nt_instrument_id t) < NUM_INSTRUMENTS" "levels_below 21474 d ts"
  shows "fair_defined exact_unit thr d ts"
  using assms(2,3)
proof (induction ts arbitrary: d)
  case (Cons t ts)
  have "fl_to_u32 exact_unit (fair_value exact_unit thr sig) \<noteq> None"
    if s: "snapshot_of (depth_tick t d (unat (nt_instrument_id t))) snap" and g: "compute_signals exact_unit snap = Some sig" for snap sig
  proof -
    have "unat (bs_best_bid snap) \<le> 100000" "unat (bs_best_ask snap) \<le> 100000" "unat (bs_bid_qty snap) \<le> 21474" "unat (bs_ask_qty snap) \<le> 21474"
      using s Cons.prems(2) by (auto simp: snapshot_of_def best_bid_of_def best_ask_of_def)
    then show ?thesis by (rule exact_fair_defined [OF g assms(1)])
  qed
  then show ?case using Cons by simp
qed simp

lemma levels_below_sum: "\<forall>i s p. d i s p + sum_list (map (\<lambda>t. unat (nt_quantity t)) ts) \<le> b \<Longrightarrow> levels_below b d ts"
proof (induction ts arbitrary: d)
  case (Cons t ts)
  have step: "depth_tick t d i s p \<le> d i s p + unat (nt_quantity t)" for i s p
    by (auto simp: depth_tick_def level_after_def)
  have "depth_tick t d i s p + sum_list (map (\<lambda>t. unat (nt_quantity t)) ts) \<le> b" for i s p
    using step [of i s p] Cons.prems [rule_format, of i s p] by simp
  then show ?case using Cons.IH [of "depth_tick t d"] by (auto intro: add_leD1)
qed simp

section \<open>Property\<close>

text \<open>
  C21. The firm's pipeline over a whole session, from its initial state, with a strategy that keeps
  the contract of its interface and with the connector to the local exchange, whose queue holds
  1024 actions and whose unbatched transmit thread makes a pass whenever it is full: for any sequence of
  ticks, execution reports and kill-switch requests that fits the price grid and the counters,
  with a time stamp counter that does not run backwards, and kernels that take the bytes, the
  session is handled to the end unless the strategy converts a float that is out of range, which
  is undefined, on the signals of one of its ticks. In a session that is handled the actions
  sent carry strictly increasing order identifiers, each new order has at most 1000 shares, at
  most 5000 new orders leave in any one second; the in-flight counter is the number of orders
  open in the ledger of the sent actions and the reports, and every position is the net of the
  reported fills of these orders, without wrap-around.
\<close>
theorem firm_session_safe:
  assumes "strategy strat counter" "counter s = 1" "flat_map_laws (>) bo" "flat_map_laws (<) ao"
    and fits: "session_fits es" "4 * length es < ID_LIMIT" and conn: "conn_room (4 * length es) c"
  shows "(firm_run bo ao fl strat (\<lambda>t. send_order_spin [x t] t) es (firm_init bo ao s raw c) = None \<longleftrightarrow>
      \<not> strategy_defined fl strat (\<lambda>_ _ _. 0) (concat (map event_ticks es)) s) \<and>
    (\<forall>logs f. firm_run bo ao fl strat (\<lambda>t. send_order_spin [x t] t) es (firm_init bo ao s raw c) = Some (logs, f) \<longrightarrow>
      sorted_wrt (<) (map (\<lambda>x. unat (na_internal_order_id (snd x))) (concat logs)) \<and>
      (\<forall>x \<in> set (concat logs). na_is_cancel (snd x) \<or> unat (na_quantity (snd x)) \<le> 1000) \<and>
      (\<forall>t. accepted_in t (concat logs) \<le> 5000) \<and>
      unat (in_flight (fm_exec f)) = card (dom (lg_open (session_ledger es logs ledger_init))) \<and>
      (\<forall>i < NUM_INSTRUMENTS. sint (rm_positions (fm_risk f) i) = net_position i (lg_fills (session_ledger es logs ledger_init))))"
proof -
  let ?f = "firm_init bo ao s raw c" and ?send = "\<lambda>t. send_order_spin [x t] t"
  have init: "firm_ok bo ao counter ledger_init 1 (\<lambda>_ _ _. 0) ?f"
    using builder_init_rep [OF assms(3,4)] exec_init_rep assms(2)
    by (simp add: firm_ok_def trading_ok_def firm_init_def) (simp add: ledger_init_def)
  have room: "ticks_fit (\<lambda>_ _ _. 0) (concat (map event_ticks es))" "list_all event_fits es"
    "sorted (concat (map event_secs es))" "\<forall>s \<in> set (concat (map event_secs es)). rm_current_second (fm_risk ?f) \<le> s"
    "unat (rm_msg_count (fm_risk ?f)) + 4 * length es < 2 ^ 64" "1 + 4 * length es < 2 ^ 64"
    "total_filled (lg_fills ledger_init) + total_reported es < 2 ^ 31 - 1000"
    "conn_room (4 * length es) (fm_conn ?f)" "1 + 4 * length es \<le> ID_LIMIT"
    using fits conn by (simp_all add: session_fits_def firm_init_def risk_init_def ledger_init_def)
  note session = firm_run_ok [where fl = fl, OF assms(1,3,4) local_port.order_port_axioms [of x] init room]
  have strat: "fm_strategy ?f = s" by (simp add: firm_init_def)
  have safe: "sorted_wrt (<) (map (\<lambda>x. unat (na_internal_order_id (snd x))) (concat logs)) \<and>
      (\<forall>x \<in> set (concat logs). na_is_cancel (snd x) \<or> unat (na_quantity (snd x)) \<le> 1000) \<and>
      (\<forall>t. accepted_in t (concat logs) \<le> 5000) \<and>
      unat (in_flight (fm_exec f)) = card (dom (lg_open (session_ledger es logs ledger_init))) \<and>
      (\<forall>i < NUM_INSTRUMENTS. sint (rm_positions (fm_risk f) i) = net_position i (lg_fills (session_ledger es logs ledger_init)))"
    if run: "firm_run bo ao fl strat ?send es ?f = Some (logs, f)" for logs f
  proof -
    obtain n' where r: "sent_ok 1 n' (concat logs)"
      "firm_ok bo ao counter (session_ledger es logs ledger_init) n' (fold depth_tick (concat (map event_ticks es)) (\<lambda>_ _ _. 0)) f"
      and acc: "\<And>s. accepted_in s (concat logs) \<le> allowance (fm_risk ?f) s"
      using session run by (auto split: if_splits)
    note ok = r(2) [unfolded firm_ok_def trading_ok_def]
    have "accepted_in t (concat logs) \<le> 5000" for t
      using acc [of t] by (auto simp: allowance_def split: if_splits)
    moreover have "sint (rm_positions (fm_risk f) i) = net_position i (lg_fills (session_ledger es logs ledger_init))"
      if "i < NUM_INSTRUMENTS" for i
    proof -
      let ?p = "net_position i (lg_fills (session_ledger es logs ledger_init))"
      have "\<bar>?p\<bar> \<le> total_filled (lg_fills (session_ledger es logs ledger_init))" by (rule net_position_bound)
      then have "- (2 ^ 31) \<le> ?p" "?p < 2 ^ 31" using ok by linarith+
      then show ?thesis using ok that sint_in_range [of ?p] by (simp add: risk_rep_def)
    qed
    ultimately show ?thesis
      using r(1) ok exec_rep_in_flight [of "session_ledger es logs ledger_init" "fm_exec f"]
      by (auto simp: sent_ok_def MAX_ORDER_QTY_def word_le_nat_alt)
  qed
  show ?thesis
  proof (intro conjI allI impI)
    show "firm_run bo ao fl strat ?send es ?f = None \<longleftrightarrow> \<not> strategy_defined fl strat (\<lambda>_ _ _. 0) (concat (map event_ticks es)) s"
      using session unfolding strat by (auto split: if_splits)
  qed (use safe in blast)+
qed

definition still_clock :: tick_clock where
  "still_clock = \<lparr>tc_t1 = 10, tc_t2 = 20, tc_t3 = 25, tc_t4 = 40,
     tc_action = (\<lambda>_. \<lparr>ac_r1 = 41, ac_check = 42, ac_r2 = 43, ac_e1 = 44, ac_send = (45, 46), ac_e2 = 47\<rparr>)\<rparr>"

definition sample_firm_session :: "firm_event list" where
  "sample_firm_session = [Tick still_clock (sample_tick 3 100 10 True False), Tick still_clock (sample_tick 3 104 10 False False),
     Execution 1 40 99, Engage_kill, Tick still_clock (sample_tick 3 103 5 False False)]"

lemma sample_firm_session_fits: "session_fits sample_firm_session"
proof -
  have "sorted (concat (map event_secs sample_firm_session))"
    by (simp add: sample_firm_session_def still_clock_def check_secs_def get_time_seconds_def upt_rec)
  moreover have "ticks_fit (\<lambda>_ _ _. 0) (concat (map event_ticks sample_firm_session))"
    by (simp add: sample_firm_session_def sample_tick_def tick_fits_def depth_tick_def level_after_def)
  ultimately show ?thesis
    by (simp add: session_fits_def sample_firm_session_def sample_tick_def NUM_INSTRUMENTS_def)
qed

text \<open>A connected connector with one client and an empty queue.\<close>

definition fresh_connector :: LocalExchangeConnector where
  "fresh_connector = (connector_init (\<lambda>_. sample_action 0 0 True False))\<lparr>lc_tcp_clients :=
     [\<lparr>tc_connected = True, tc_kernel = replicate 2000 (Sent 9), tc_wire = []\<rparr>]\<rparr>"

lemma fresh_connector_room: "conn_room 20 fresh_connector"
  using spscq_init_ok [of 10 "\<lambda>_. sample_action 0 0 True False"]
  by (simp add: conn_room_def connector_ok_def fresh_connector_def connector_init_def progress_replicate)

lemma sample_session_defined:
  "strategy_defined exact_unit (maker_on_tick exact_unit) (\<lambda>_ _ _. 0) (concat (map event_ticks sample_firm_session)) (maker_init 2 (6 / 10) 100)"
proof (rule maker_defined, rule small_books_defined)
  show "levels_below 21474 (\<lambda>_ _ _. 0) (concat (map event_ticks sample_firm_session))"
    by (rule levels_below_sum) (simp add: sample_firm_session_def sample_tick_def)
  show "\<forall>t \<in> set (concat (map event_ticks sample_firm_session)). unat (nt_instrument_id t) < NUM_INSTRUMENTS"
    by (simp add: sample_firm_session_def sample_tick_def NUM_INSTRUMENTS_def)
qed (simp add: maker_init_def)

text \<open>The market maker on exact arithmetic, with conversions undefined out of range, over the local connector.\<close>
theorem firm_session_safe_witness:
  "\<exists>logs f. firm_run (assoc_map (>)) (assoc_map (<)) exact_unit (maker_on_tick exact_unit) (\<lambda>t. send_order_spin [sample_clock] t) sample_firm_session
      (firm_init (assoc_map (>)) (assoc_map (<)) (maker_init 2 (6 / 10) 100) sample_slots fresh_connector) = Some (logs, f) \<and>
    sorted_wrt (<) (map (\<lambda>x. unat (na_internal_order_id (snd x))) (concat logs)) \<and>
    (\<forall>t. accepted_in t (concat logs) \<le> 5000) \<and>
    unat (in_flight (fm_exec f)) = card (dom (lg_open (session_ledger sample_firm_session logs ledger_init)))"
proof -
  have n: "4 * length sample_firm_session < ID_LIMIT" "conn_room (4 * length sample_firm_session) fresh_connector"
    using fresh_connector_room by (simp_all add: sample_firm_session_def ID_LIMIT_def)
  have s: "mm_local_order_counter (maker_init 2 (6 / 10) 100 :: rat MarketMaker) = 1" by (simp add: maker_init_def)
  show ?thesis
    using firm_session_safe [where x = "\<lambda>_. sample_clock" and raw = sample_slots and fl = exact_unit,
        OF maker.strategy_axioms [of exact_unit] s assoc_maps_ok sample_firm_session_fits n] sample_session_defined
    by fastforce
qed

end
