(* ===== verification/Firm_Stats.thy ===== *)
theory Firm_Stats
  imports Seqlock Firm_Connector Firm_Main
begin

text \<open>
  The firm's statistics region (\<open>hft-trading-firm/src/monitoring/firm_stats.h\<close>) and what the
  market-data callback publishes into it (\<open>main.cpp\<close>). A cell of the region is named by the
  byte offset the header's \<open>static_assert\<close>s fix, which is also what the monitor reads by; the
  two 32-bit header words and the kill switch are kept zero-extended. Mapping the file is the
  operating system's: whether each call succeeds is an argument.
\<close>

section \<open>The region\<close>

definition FIRM_STATS_MAGIC :: u32 where
  "FIRM_STATS_MAGIC = 0x4649524d"

definition FIRM_STATS_MAX_INSTRUMENTS :: nat where
  "FIRM_STATS_MAX_INSTRUMENTS = 256"

text \<open>The offset of each field, in the order of the declaration.\<close>

datatype firm_field =
    F_magic | F_protocol_version | F_kill_switch | F_heartbeat_tsc | F_realized_pnl | F_orders_sent | F_orders_acked | F_in_flight | F_ticks
  | F_book_cycles | F_signal_cycles | F_strategy_cycles | F_risk_cycles | F_exec_cycles
  | F_serialize_cycles | F_send_cycles | F_enqueue_cycles | F_dequeue_cycles | F_position nat

fun offset_of :: "firm_field \<Rightarrow> nat" where
  "offset_of F_magic = 0"
| "offset_of F_protocol_version = 4"
| "offset_of F_kill_switch = 12"
| "offset_of F_heartbeat_tsc = 16"
| "offset_of F_realized_pnl = 24"
| "offset_of F_orders_sent = 32"
| "offset_of F_orders_acked = 40"
| "offset_of F_in_flight = 48"
| "offset_of F_ticks = 56"
| "offset_of F_book_cycles = 64"
| "offset_of F_signal_cycles = 72"
| "offset_of F_strategy_cycles = 80"
| "offset_of F_risk_cycles = 88"
| "offset_of F_exec_cycles = 96"
| "offset_of F_serialize_cycles = 104"
| "offset_of F_send_cycles = 112"
| "offset_of F_enqueue_cycles = 120"
| "offset_of F_dequeue_cycles = 128"
| "offset_of (F_position i) = 136 + 8 * i"

text \<open>The mapping is zero-filled; the magic is stored last.\<close>

definition map_firm_stats_region :: "bool \<Rightarrow> bool \<Rightarrow> bool \<Rightarrow> (nat, u64, 'p) seqlock option" where
  "map_firm_stats_region opened truncated mapped =
     (if \<not> opened then None
      else if \<not> truncated then None
      else if \<not> mapped then None
      else Some (write_cell (offset_of F_magic) (ucast FIRM_STATS_MAGIC)
        ((write_cell (offset_of F_protocol_version) (ucast PROTOCOL_VERSION) (seqlock_init (\<lambda>_. 0)))\<lparr>sq_seq := 0\<rparr>)))"

section \<open>The published sample\<close>

text \<open>
  The body loads the kill switch, the profit, the counters and each position one after the other
  while the receive thread books fills: \<open>fs k\<close> is the firm's state that the \<open>k\<close>-th load sees.
\<close>

type_synonym ('m, 's, 'c) firm_sample = "u64 \<times> ConnectorStats \<times> (nat \<Rightarrow> ('m, 's, 'c) firm)"

fun position_stores :: "nat list \<Rightarrow> (nat \<Rightarrow> RiskManager) \<Rightarrow> (nat \<times> u64) list option" where
  "position_stores [] r = Some []"
| "position_stores (i # is) r = do {
     p \<leftarrow> position (word_of_nat i) (r i);
     xs \<leftarrow> position_stores is r;
     Some ((offset_of (F_position i), word_of_int p) # xs)
   }"

text \<open>The stores of the section's body.\<close>

definition firm_stats_body :: "('m, 's, 'c) firm_sample \<Rightarrow> (nat \<times> u64) list option" where
  "firm_stats_body = (\<lambda>(hb, cs, fs). do {
     let f = fs 0;
     positions \<leftarrow> position_stores [0 ..< FIRM_STATS_MAX_INSTRUMENTS] (\<lambda>i. fm_risk (fs (4 + i)));
     Some ([(offset_of F_heartbeat_tsc, hb),
       (offset_of F_kill_switch, if kill_switch_engaged (fm_risk f) then 1 else 0),
       (offset_of F_realized_pnl, word_of_int (realized_pnl (fm_risk (fs 1)))),
       (offset_of F_orders_sent, st_orders_sent cs),
       (offset_of F_orders_acked, orders_acked (fm_exec (fs 2))),
       (offset_of F_in_flight, in_flight (fm_exec (fs 3))),
       (offset_of F_ticks, fm_ticks f),
       (offset_of F_book_cycles, fm_book_cycles f),
       (offset_of F_signal_cycles, fm_signal_cycles f),
       (offset_of F_strategy_cycles, fm_strategy_cycles f),
       (offset_of F_risk_cycles, fm_risk_cycles f),
       (offset_of F_exec_cycles, fm_execution_cycles f),
       (offset_of F_serialize_cycles, st_serialize_cycles cs),
       (offset_of F_send_cycles, st_send_cycles cs),
       (offset_of F_enqueue_cycles, st_enqueue_cycles cs),
       (offset_of F_dequeue_cycles, st_dequeue_cycles cs)] @ positions)
   })"

text \<open>The gate in front: at most one publication per 100 ms of the steady clock, in nanoseconds.\<close>

definition publish_due :: "int \<Rightarrow> int \<Rightarrow> bool \<times> int" where
  "publish_due now last_publish = (if now - last_publish \<ge> 100000000 then (True, now) else (False, last_publish))"

text \<open>The cells the lock guards: all but the two header words.\<close>

definition firm_cells :: "nat set" where
  "firm_cells = {12, 16, 24, 32, 40, 48, 56, 64, 72, 80, 88, 96, 104, 112, 120, 128} \<union>
     (\<lambda>i. 136 + 8 * i) ` {..< FIRM_STATS_MAX_INSTRUMENTS}"

lemma position_stores_eq:
  "\<forall>i \<in> set is. i < FIRM_STATS_MAX_INSTRUMENTS \<Longrightarrow>
   position_stores is r = Some (map (\<lambda>i. (136 + 8 * i, scast (rm_positions (r i) i))) is)"
proof (induction "is")
  case (Cons i "is")
  then have "unat (word_of_nat i :: u16) = i" "i < NUM_INSTRUMENTS"
    by (simp_all add: FIRM_STATS_MAX_INSTRUMENTS_def NUM_INSTRUMENTS_def unat_of_nat)
  then show ?case using Cons by (simp add: position_def arr_get_in)
qed simp

lemma firm_stats_body_defined: "\<exists>xs. firm_stats_body p = Some xs \<and> map fst xs =
    [16, 12, 24, 32, 40, 48, 56, 64, 72, 80, 88, 96, 104, 112, 120, 128] @ map (\<lambda>i. 136 + 8 * i) [0 ..< FIRM_STATS_MAX_INSTRUMENTS]"
proof (cases p)
  case (fields hb cs fs)
  have "\<forall>i \<in> set [0 ..< FIRM_STATS_MAX_INSTRUMENTS]. i < FIRM_STATS_MAX_INSTRUMENTS" by simp
  note eq = position_stores_eq [OF this, of "\<lambda>i. fm_risk (fs (4 + i))"]
  show ?thesis unfolding fields firm_stats_body_def prod.case eq Let_def by (simp add: comp_def)
qed

definition firm_stores :: "('m, 's, 'c) firm_sample \<Rightarrow> (nat \<times> u64) list" where
  "firm_stores p = the (firm_stats_body p)"

definition firm_stats_write :: "('m, 's, 'c) firm_sample \<Rightarrow> (nat, u64, ('m, 's, 'c) firm_sample) seqlock \<Rightarrow>
    (nat, u64, ('m, 's, 'c) firm_sample) seqlock" where
  "firm_stats_write p r = stats_write firm_stores p r"

interpretation firm_lock: guarded_section firm_stores firm_cells firm_cells
proof
  fix a and p :: "('a, 'b, 'c) firm_sample"
  obtain xs where xs: "firm_stats_body p = Some xs" "map fst xs =
    [16, 12, 24, 32, 40, 48, 56, 64, 72, 80, 88, 96, 104, 112, 120, 128] @ map (\<lambda>i. 136 + 8 * i) [0 ..< FIRM_STATS_MAX_INSTRUMENTS]"
    using firm_stats_body_defined by blast
  have "fst ` set xs = set (map fst xs)" by simp
  then have "fst ` set xs = firm_cells" unfolding xs(2) firm_cells_def by auto
  then show "a \<in> firm_cells \<Longrightarrow> a \<in> firm_cells \<and> a \<in> fst ` set (firm_stores p)" by (simp add: firm_stores_def xs(1))
qed

lemma mapped_region:
  assumes "map_firm_stats_region opened truncated mapped = Some s0"
  shows "s0 = seqlock_init (sq_cells s0)" "a \<in> firm_cells \<Longrightarrow> sq_cells s0 a = 0"
  using assms
  by (auto simp: map_firm_stats_region_def write_cell_def seqlock_init_def firm_cells_def split: if_splits)

section \<open>Property\<close>

text \<open>
  C29. The firm's monitor never sees a torn sample: in every interleaving of the publishing
  callback, store by store, with the monitor's reads, cell by cell, a snapshot the monitor
  accepts consists, in all cells the lock guards, of the stores of one and the same publication,
  the latest that was complete when the read began (of the zero-filled region before the first),
  provided fewer than 2^31 publications complete during the read, where the 32-bit sequence
  could come round to the same value.
\<close>
theorem firm_stats_not_torn:
  assumes "map_firm_stats_region opened truncated mapped = Some s0"
    and "seq_reach firm_stores firm_cells (sq_cells s0) s"
    and "sq_reader s = R_ok n m got" "m < n + 2 ^ 31"
  shows "if n = 0 then \<forall>(a, v) \<in> set got. a \<in> firm_cells \<longrightarrow> v = 0
    else \<exists>xs. firm_stats_body (sq_published s ! (n - 1)) = Some xs \<and>
      (\<forall>(a, v) \<in> set got. a \<in> firm_cells \<longrightarrow> (a, v) \<in> set xs)"
proof (cases "n = 0")
  case True
  then show ?thesis
    using firm_lock.one_section(1) [OF assms(2-4)] mapped_region(2) [OF assms(1)] by auto
next
  case False
  obtain xs where xs: "firm_stats_body (sq_published s ! (n - 1)) = Some xs" using firm_stats_body_defined by blast
  then show ?thesis
    using False firm_lock.one_section(2) [OF assms(2-4)] by (auto simp: firm_stores_def)
qed

definition sample_publication :: "((u32 \<times> u32) list, unit, unit) firm_sample" where
  "sample_publication = (77, \<lparr>st_orders_sent = 5, st_serialize_cycles = 0, st_send_cycles = 0, st_enqueue_cycles = 0, st_dequeue_cycles = 0\<rparr>,
     \<lambda>_. (firm_init (assoc_map (>)) (assoc_map (<)) () sample_slots ())\<lparr>fm_risk := trigger_kill_switch risk_init, fm_ticks := 6\<rparr>)"

definition sample_region :: "(nat, u64, ((u32 \<times> u32) list, unit, unit) firm_sample) seqlock" where
  "sample_region = the (map_firm_stats_region True True True)"

definition sample_published :: "(nat, u64, ((u32 \<times> u32) list, unit, unit) firm_sample) seqlock" where
  "sample_published = firm_stats_write sample_publication sample_region"

text \<open>A publication and a read after it: the snapshot is the published sample, kill switch included.\<close>
theorem firm_stats_not_torn_witness:
  "\<exists>xs. firm_stats_body sample_publication = Some xs \<and> (\<forall>a \<in> firm_cells. (a, sq_cells sample_published a) \<in> set xs)"
proof -
  have region: "map_firm_stats_region True True True = Some sample_region"
    by (simp add: sample_region_def map_firm_stats_region_def)
  note init = mapped_region(1) [OF region]
  have "sq_writer sample_region = W_idle" "sq_reader sample_region = R_idle" "sq_seq sample_region = 0"
    "sq_published sample_region = []"
    by (simp_all add: sample_region_def map_firm_stats_region_def write_cell_def seqlock_init_def)
  moreover have "seq_reach firm_stores firm_cells (sq_cells sample_region) sample_region"
    using reach_init [of firm_stores firm_cells "sq_cells sample_region"] init by metis
  ultimately have pub: "seq_reach firm_stores firm_cells (sq_cells sample_region) sample_published"
    "sq_seq sample_published = 2" "sq_reader sample_published = R_idle" "sq_published sample_published = [sample_publication]"
    using reach_section [of firm_stores firm_cells "sq_cells sample_region" sample_region sample_publication]
    by (simp_all add: sample_published_def firm_stats_write_def stats_write_def write_begin_def write_end_def Let_def)
  obtain as where as: "set as = firm_cells"
    using finite_list [of firm_cells] by (auto simp: firm_cells_def)
  let ?s = "sample_published\<lparr>sq_reader := R_ok 1 1 (map (\<lambda>a. (a, sq_cells sample_published a)) as)\<rparr>"
  have "seq_reach firm_stores firm_cells (sq_cells sample_region) ?s"
    using reach_quiet_read [OF pub(1), of as] pub(2-4) by simp
  from firm_stats_not_torn [OF region this, of 1 1 "map (\<lambda>a. (a, sq_cells sample_published a)) as"]
  show ?thesis using as pub(4) by auto
qed

end
