(* ===== verification/Tools_Orders.thy ===== *)
theory Tools_Orders
  imports Firm_Codec
begin

text \<open>
  The order generators under \<open>hft_engine/src/tools\<close>: the file generator (\<open>generate_pcap.cpp\<close>),
  the load tester (\<open>tester.cpp\<close>), the crossing driver (\<open>liquidity.cpp\<close>) and the sample market
  maker (\<open>market_maker.cpp\<close>) with its local book. Each fills the same wire struct; the gateway's
  decoders and its risk check are those of the exchange.

  The results of \<open>rand()\<close> are an argument, the \<open>k\<close>-th call giving \<open>rnd k\<close>. The programs
  around the orders are in \<open>Tools_Main\<close>; pacing and printed statistics are not modelled.
\<close>

section \<open>Filling an order\<close>

text \<open>
  \<open>std::to_string\<close>, then \<open>insert\<close> of \<open>14 - length\<close> zeros: with more than 14 digits the count
  wraps around and \<open>insert\<close> throws, which is \<open>None\<close>.
\<close>

definition padded_token :: "u64 \<Rightarrow> bytes option" where
  "padded_token v = (let token = dec_string (unat v) in
     if length token \<le> 14 then Some (replicate (14 - length token) (ch CHR ''0'') @ token) else None)"

text \<open>The fields every generator sets alike; \<open>raw\<close> is the struct before.\<close>

definition fill_order :: "OuchEnterOrder \<Rightarrow> u64 \<Rightarrow> u8 \<Rightarrow> u32 \<Rightarrow> u16 \<Rightarrow> u32 \<Rightarrow> bytes \<Rightarrow> OuchEnterOrder option" where
  "fill_order raw token sd shs stk pr firm_id = do {
     t \<leftarrow> padded_token token;
     Some (raw\<lparr>eo_msg_type := ch CHR ''O'', eo_order_token := t, eo_side := sd, eo_shares := shs,
       eo_stock := encode_symbol stk, eo_price := pr, eo_time_in_force := 99998, eo_firm := firm_id,
       eo_display := ch CHR ''Y'', eo_capacity := ch CHR ''P'', eo_iso_eligibility := ch CHR ''N'',
       eo_min_quantity := 0, eo_cross_type := ch CHR ''N'', eo_customer_type := ch CHR ''R''\<rparr>)
   }"

definition zero_order :: OuchEnterOrder where
  "zero_order = \<lparr>eo_msg_type = 0, eo_order_token = replicate 14 0, eo_side = 0, eo_shares = 0, eo_stock = replicate 8 0,
     eo_price = 0, eo_time_in_force = 0, eo_firm = replicate 4 0, eo_display = 0, eo_capacity = 0, eo_iso_eligibility = 0,
     eo_min_quantity = 0, eo_cross_type = 0, eo_customer_type = 0, eo_t1_exchange_send = 0, eo_t2_trading_recv = 0,
     eo_t3_trading_enq = 0, eo_t4_network_deq = 0\<rparr>"

section \<open>The generators\<close>

text \<open>\<open>generate_pcap\<close>: three calls of \<open>rand\<close> per order, for side, stock and price.\<close>

definition pcap_order :: "(nat \<Rightarrow> nat) \<Rightarrow> nat \<Rightarrow> OuchEnterOrder option" where
  "pcap_order rnd i = fill_order zero_order (word_of_nat (i + 1))
     (if rnd (3 * i) mod 2 = 0 then ch CHR ''B'' else ch CHR ''S'') 100
     (word_of_nat ([0, 1, 2, 3] ! (rnd (3 * i + 1) mod 4))) (50000 + word_of_nat (rnd (3 * i + 2) mod 10)) (map ch ''HFT1'')"

text \<open>The tester's symbol for order \<open>i\<close>, with the number of the next call of \<open>rand\<close>.\<close>

definition tester_symbol :: "int \<Rightarrow> (nat \<Rightarrow> nat) \<Rightarrow> nat \<Rightarrow> nat \<Rightarrow> nat \<times> nat" where
  "tester_symbol workload rnd k i =
     (if workload = 1 then (i mod MAX_INSTRUMENTS, k)
      else if workload = 2 then (rnd k mod MAX_INSTRUMENTS, k + 1)
      else if workload = 3 then
        let r = rnd k mod 100 in
        if r < 20 then (0, k + 1)
        else if r < 35 then (1, k + 1)
        else if r < 50 then (2, k + 1)
        else if r < 60 then (3, k + 1)
        else (4 + rnd (k + 1) mod (MAX_INSTRUMENTS - 4), k + 2)
      else if workload = 4 then (rnd k mod MAX_INSTRUMENTS, k + 1)
      else (0, k))"

definition tester_side :: "int \<Rightarrow> nat \<Rightarrow> u8" where
  "tester_side workload i =
     (if workload = 1 then (if (i div MAX_INSTRUMENTS) mod 2 = 0 then ch CHR ''B'' else ch CHR ''S'')
      else if i mod 2 = 0 then ch CHR ''B'' else ch CHR ''S'')"

definition tester_order :: "int \<Rightarrow> (nat \<Rightarrow> nat) \<Rightarrow> nat \<Rightarrow> nat \<Rightarrow> OuchEnterOrder option" where
  "tester_order workload rnd k i =
     (let (stk, k) = tester_symbol workload rnd k i in
      fill_order zero_order (word_of_nat (i + 1)) (tester_side workload i) 10 (word_of_nat stk)
        (if workload = 4 then 1 + word_of_nat (rnd k mod 99999) else 50000 + word_of_nat (i mod 100)) (map ch ''TEST''))"

definition tester_cancel :: "nat \<Rightarrow> OuchCancelOrder option" where
  "tester_cancel i = do {
     t \<leftarrow> padded_token (word_of_nat (i + 1));
     Some \<lparr>co_msg_type = ch CHR ''X'', co_order_token = t, co_shares = 10\<rparr>
   }"

text \<open>\<open>liquidity\<close>: a column of asks from one connection, then the crossing bids from the other.\<close>

definition make_order :: "u64 \<Rightarrow> u8 \<Rightarrow> u16 \<Rightarrow> u32 \<Rightarrow> u32 \<Rightarrow> OuchEnterOrder option" where
  "make_order token sd stk pr shs = fill_order zero_order token sd shs stk pr (map ch ''LIQ1'')"

definition stamp :: "u64 \<Rightarrow> OuchEnterOrder \<Rightarrow> OuchEnterOrder" where
  "stamp ts r = r\<lparr>eo_t1_exchange_send := ts, eo_t2_trading_recv := ts, eo_t3_trading_enq := ts, eo_t4_network_deq := ts\<rparr>"

definition liquidity_ask :: "u64 \<Rightarrow> nat \<Rightarrow> OuchEnterOrder option" where
  "liquidity_ask ts i = map_option (stamp ts) (make_order (1 + word_of_nat i) (ch CHR ''S'') 0 50000 10)"

definition liquidity_bid :: "u64 \<Rightarrow> nat \<Rightarrow> OuchEnterOrder option" where
  "liquidity_bid ts i = map_option (stamp ts) (make_order (10000000 + word_of_nat i) (ch CHR ''B'') 0 50000 10)"

section \<open>The sample market maker\<close>

definition MM_INSTRUMENT :: u16 where "MM_INSTRUMENT = 0"
definition MM_LEVELS :: nat where "MM_LEVELS = 200000"

record mm_tool =
  mt_bids_qty :: "nat \<Rightarrow> u32"
  mt_asks_qty :: "nat \<Rightarrow> u32"
  mt_best_bid :: nat
  mt_best_ask :: nat
  mt_order_id :: u64
  mt_position :: "64 word"
  mt_cash :: "64 word"

definition mm_tool_init :: mm_tool where
  "mm_tool_init = \<lparr>mt_bids_qty = (\<lambda>_. 0), mt_asks_qty = (\<lambda>_. 0), mt_best_bid = 0, mt_best_ask = 199999,
     mt_order_id = 5000000, mt_position = 0, mt_cash = 0\<rparr>"

text \<open>The struct is not initialised: its time stamps are whatever \<open>raw\<close> held.\<close>

definition mm_send_order :: "OuchEnterOrder \<Rightarrow> bool \<Rightarrow> u64 \<Rightarrow> u32 \<Rightarrow> mm_tool \<Rightarrow> (OuchEnterOrder \<times> mm_tool) option" where
  "mm_send_order raw buy pr qty m = do {
     r \<leftarrow> fill_order raw (mt_order_id m) (if buy then ch CHR ''B'' else ch CHR ''S'') qty MM_INSTRUMENT (ucast pr) (map ch ''MM01'');
     Some (r, m\<lparr>mt_order_id := mt_order_id m + 1\<rparr>)
   }"

text \<open>The quotes of one turn of the loop: side, price and size.\<close>

definition mm_quotes :: "mm_tool \<Rightarrow> (bool \<times> nat \<times> u32) list" where
  "mm_quotes m =
     (if mt_best_bid m > 0 \<and> mt_best_ask m < 199999 then
        if mt_best_ask m > mt_best_bid m then
          if mt_best_ask m - mt_best_bid m > 10 then [(True, mt_best_bid m + 1, 10), (False, mt_best_ask m - 1, 10)] else []
        else [(True, mt_best_ask m, 10), (False, mt_best_bid m, 10)]
      else [(True, 50000, 10), (False, 50020, 10)])"

fun mm_turn :: "OuchEnterOrder \<Rightarrow> (bool \<times> nat \<times> u32) list \<Rightarrow> mm_tool \<Rightarrow> (OuchEnterOrder list \<times> mm_tool) option" where
  "mm_turn raw [] m = Some ([], m)"
| "mm_turn raw ((buy, pr, qty) # qs) m = do {
     (r, m) \<leftarrow> mm_send_order raw buy (word_of_nat pr) qty m;
     (rs, m) \<leftarrow> mm_turn raw qs m;
     Some (r # rs, m)
   }"

fun scan_down :: "(nat \<Rightarrow> u32) \<Rightarrow> nat \<Rightarrow> nat" where
  "scan_down q b = (if b > 0 \<and> q b = 0 then scan_down q (b - 1) else b)"

function scan_up :: "(nat \<Rightarrow> u32) \<Rightarrow> nat \<Rightarrow> nat" where
  "scan_up q a = (if a < 199999 \<and> q a = 0 then scan_up q (a + 1) else a)"
  by pat_completeness auto
termination
  by (relation "measure (\<lambda>(q, a). 199999 - a)") auto

declare scan_down.simps [simp del] scan_up.simps [simp del]

definition less_shares :: "u32 \<Rightarrow> u32 \<Rightarrow> u32" where
  "less_shares q s = (if q \<le> s then 0 else q - s)"

definition update_local_book :: "ItchMessage \<Rightarrow> mm_tool \<Rightarrow> mm_tool" where
  "update_local_book rep m =
     (let p = unat (it_price rep) in
      if p \<ge> 200000 then m
      else if it_msg_type rep = ch CHR ''A'' then
        if it_side rep = ch CHR ''B''
        then m\<lparr>mt_bids_qty := (mt_bids_qty m)(p := mt_bids_qty m p + it_shares rep),
               mt_best_bid := (if p > mt_best_bid m then p else mt_best_bid m)\<rparr>
        else m\<lparr>mt_asks_qty := (mt_asks_qty m)(p := mt_asks_qty m p + it_shares rep),
               mt_best_ask := (if p < mt_best_ask m then p else mt_best_ask m)\<rparr>
      else if it_msg_type rep = ch CHR ''E'' \<or> it_msg_type rep = ch CHR ''X'' then
        if it_side rep = ch CHR ''B''
        then let q = (mt_bids_qty m)(p := less_shares (mt_bids_qty m p) (it_shares rep)) in
          m\<lparr>mt_bids_qty := q, mt_best_bid :=
             (if q (mt_best_bid m) = 0 \<and> mt_best_bid m = p then scan_down q (mt_best_bid m) else mt_best_bid m)\<rparr>
        else let q = (mt_asks_qty m)(p := less_shares (mt_asks_qty m p) (it_shares rep)) in
          m\<lparr>mt_asks_qty := q, mt_best_ask :=
             (if q (mt_best_ask m) = 0 \<and> mt_best_ask m = p then scan_up q (mt_best_ask m) else mt_best_ask m)\<rparr>
      else m)"

definition update_pnl :: "ItchMessage \<Rightarrow> mm_tool \<Rightarrow> mm_tool" where
  "update_pnl rep m =
     (if it_msg_type rep = ch CHR ''E'' then
        if it_side rep = ch CHR ''B''
        then m\<lparr>mt_position := mt_position m + ucast (it_shares rep), mt_cash := mt_cash m - it_price rep * ucast (it_shares rep)\<rparr>
        else m\<lparr>mt_position := mt_position m - ucast (it_shares rep), mt_cash := mt_cash m + it_price rep * ucast (it_shares rep)\<rparr>
      else m)"

text \<open>One received datagram: every complete message in it.\<close>

definition mm_datagram :: "bytes \<Rightarrow> mm_tool \<Rightarrow> mm_tool" where
  "mm_datagram buf m = fold (\<lambda>i m. let rep = dec_itch (take sizeof_ItchMessage (drop (i * sizeof_ItchMessage) buf)) in
     update_pnl rep (update_local_book rep m)) [0 ..< length buf div sizeof_ItchMessage] m"

section \<open>The local book\<close>

text \<open>Nothing rests better than the recorded best prices, which stay inside the arrays.\<close>

definition mm_ok :: "mm_tool \<Rightarrow> bool" where
  "mm_ok m \<longleftrightarrow> mt_best_bid m < MM_LEVELS \<and> mt_best_ask m < MM_LEVELS \<and>
     (\<forall>p. mt_best_bid m < p \<longrightarrow> mt_bids_qty m p = 0) \<and> (\<forall>p < mt_best_ask m. mt_asks_qty m p = 0)"

lemma scan_down_spec: "scan_down q b \<le> b \<and> (\<forall>p. scan_down q b < p \<longrightarrow> p \<le> b \<longrightarrow> q p = 0)"
proof (induction q b rule: scan_down.induct)
  case (1 q b)
  show ?case
  proof (cases "b > 0 \<and> q b = 0")
    case True
    have "q p = 0" if "scan_down q (b - 1) < p" "p \<le> b" for p
      using 1 [OF True] True that by (cases "p = b") auto
    then show ?thesis using 1 [OF True] True scan_down.simps [of q b] by auto
  qed (auto simp: scan_down.simps [of q b])
qed

lemma scan_up_spec: "a \<le> scan_up q a \<and> (a < MM_LEVELS \<longrightarrow> scan_up q a < MM_LEVELS) \<and> (\<forall>p. a \<le> p \<longrightarrow> p < scan_up q a \<longrightarrow> q p = 0)"
proof (induction q a rule: scan_up.induct)
  case (1 q a)
  show ?case
  proof (cases "a < 199999 \<and> q a = 0")
    case True
    have "q p = 0" if "a \<le> p" "p < scan_up q (a + 1)" for p
      using 1 [OF True] True that by (cases "p = a") auto
    then show ?thesis using 1 [OF True] True scan_up.simps [of q a] by (auto simp: MM_LEVELS_def)
  qed (auto simp: scan_up.simps [of q a])
qed

lemma mm_init_ok: "mm_ok mm_tool_init"
  by (simp add: mm_ok_def mm_tool_init_def MM_LEVELS_def)

lemma update_local_book_ok: "mm_ok m \<Longrightarrow> mm_ok (update_local_book rep m)"
proof -
  assume ok: "mm_ok m"
  define q r where "q = (mt_bids_qty m)(mt_best_bid m := less_shares (mt_bids_qty m (mt_best_bid m)) (it_shares rep))"
    and "r = (mt_asks_qty m)(mt_best_ask m := less_shares (mt_asks_qty m (mt_best_ask m)) (it_shares rep))"
  have q: "q p = 0" if "scan_down q (mt_best_bid m) < p" for p
    using scan_down_spec [of q "mt_best_bid m"] ok that by (cases "p \<le> mt_best_bid m") (auto simp: mm_ok_def q_def)
  have r: "r p = 0" if "p < scan_up r (mt_best_ask m)" for p
    using scan_up_spec [of "mt_best_ask m" r] ok that by (cases "mt_best_ask m \<le> p") (auto simp: mm_ok_def r_def)
  have "scan_down q (mt_best_bid m) < MM_LEVELS" "scan_up r (mt_best_ask m) < MM_LEVELS"
    using scan_down_spec [of q "mt_best_bid m"] scan_up_spec [of "mt_best_ask m" r] ok by (auto simp: mm_ok_def)
  then have "mm_ok (m\<lparr>mt_bids_qty := q, mt_best_bid := scan_down q (mt_best_bid m)\<rparr>)"
    "mm_ok (m\<lparr>mt_asks_qty := r, mt_best_ask := scan_up r (mt_best_ask m)\<rparr>)"
    using ok q r by (auto simp: mm_ok_def)
  then show ?thesis
    using ok unfolding update_local_book_def Let_def q_def r_def
    by (auto simp: mm_ok_def MM_LEVELS_def less_shares_def)
qed

lemma mm_datagram_id: "mt_order_id (mm_datagram buf m) = mt_order_id m"
proof -
  have "mt_order_id (fold (\<lambda>i m. let rep = dec_itch (f i) in update_pnl rep (update_local_book rep m)) is m) = mt_order_id m" for f "is" and m
    by (induction "is" arbitrary: m) (auto simp: Let_def update_pnl_def update_local_book_def)
  then show ?thesis by (simp add: mm_datagram_def)
qed

lemma mm_datagram_ok: "mm_ok m \<Longrightarrow> mm_ok (mm_datagram buf m)"
proof -
  have "mm_ok m \<Longrightarrow> mm_ok (fold (\<lambda>i m. let rep = dec_itch (f i) in update_pnl rep (update_local_book rep m)) is m)"
    for f "is" and m
  proof (induction "is" arbitrary: m)
    case (Cons i "is")
    have "mm_ok (update_pnl rep (update_local_book rep m))" for rep
      using update_local_book_ok [OF Cons.prems, of rep] by (simp add: mm_ok_def update_pnl_def)
    then show ?case using Cons.IH by (simp add: Let_def)
  qed simp
  then show "mm_ok m \<Longrightarrow> mm_ok (mm_datagram buf m)" by (simp add: mm_datagram_def)
qed

section \<open>Admission\<close>

text \<open>The gateway frames and decodes the message, finds the token in the session map's range and passes it through the risk check.\<close>

definition admitted :: "OuchEnterOrder \<Rightarrow> nat \<Rightarrow> bool" where
  "admitted r token \<longleftrightarrow> length (enc_enter_order r) = sizeof_OuchEnterOrder \<and>
     msg_size (hd (enc_enter_order r)) = Some sizeof_OuchEnterOrder \<and> dec_enter_order (enc_enter_order r) = r \<and>
     unat (decode_order_token (eo_order_token r)) = token \<and> token < MAX_CLIENT_ORDERS \<and>
     check_pre_trade default_risk r (decode_symbol (eo_stock r))"

text \<open>The book has a level for the price.\<close>

definition in_book :: "OuchEnterOrder \<Rightarrow> bool" where
  "in_book r \<longleftrightarrow> unat (eo_price r) < MAX_PRICE"

lemma padded_token_eq: "unat v < 10 ^ 14 \<Longrightarrow> padded_token v = Some (encode_order_token v)"
  using format_token_eq [of v] dec_string_shortest [of "unat v" 13]
  by (simp add: format_token_def to_chars_def padded_token_def Let_def split: if_splits)

lemma hd_enc_enter_order: "hd (enc_enter_order r) = eo_msg_type r"
  by (simp add: enc_enter_order_def)

lemma fill_order_admitted:
  assumes "unat token < MAX_CLIENT_ORDERS" "shs \<in> {10, 100}" "0 < unat pr" "unat pr \<le> 200000"
    and "unat stk < MAX_INSTRUMENTS" "length firm_id = 4"
  shows "\<exists>r. fill_order raw token sd shs stk pr firm_id = Some r \<and> admitted r (unat token) \<and> eo_price r = pr"
proof -
  have t: "unat token < 10 ^ 14" using assms(1) by (simp add: MAX_CLIENT_ORDERS_def)
  define r where "r = the (fill_order raw token sd shs stk pr firm_id)"
  have r: "fill_order raw token sd shs stk pr firm_id = Some r" by (simp add: r_def fill_order_def padded_token_eq [OF t])
  have f: "eo_msg_type r = ch CHR ''O''" "eo_order_token r = encode_order_token token" "eo_shares r = shs" "eo_stock r = encode_symbol stk"
    "eo_price r = pr" "eo_firm r = firm_id"
    by (simp_all add: r_def fill_order_def padded_token_eq [OF t])
  have wf: "wf_enter_order r" using assms(6) by (simp add: wf_enter_order_def f)
  have d: "decode_symbol (encode_symbol stk) = stk" using symbol_decode_encode [of stk] assms(5) by simp
  have n: "unat pr * unat shs \<le> 200000 * 100" using assms(2,4) by (intro mult_mono) auto
  have "check_pre_trade default_risk r stk"
    using assms(2-5) n unfolding check_pre_trade_exact f default_risk_def by auto
  then have "admitted r (unat token)"
    using enter_order_dec_enc [OF wf] length_enc_enter_order [OF wf] decode_token_encode [OF t] assms(1)
    by (simp add: admitted_def f d hd_enc_enter_order msg_size_def)
  then show ?thesis using r f(5) by blast
qed

lemma unat_word_of_nat_small: "n < 2 ^ 16 \<Longrightarrow> unat (word_of_nat n :: 16 word) = n" "m < 2 ^ 32 \<Longrightarrow> unat (word_of_nat m :: 32 word) = m"
  "k < 2 ^ 64 \<Longrightarrow> unat (word_of_nat k :: 64 word) = k"
  by (simp_all add: unat_of_nat)

lemma price_offset: "b + n < 2 ^ 32 \<Longrightarrow> unat (word_of_nat b + word_of_nat n :: u32) = b + n"
  using unat_word_of_nat_small(2) [of "b + n"] by simp

lemma fill_order_in_book:
  assumes "n < MAX_CLIENT_ORDERS" "shs \<in> {10, 100}" "unat pr = p" "0 < p" "p < MAX_PRICE" "k < MAX_INSTRUMENTS" "length firm_id = 4"
  shows "\<exists>r. fill_order raw (word_of_nat n) sd shs (word_of_nat k) pr firm_id = Some r \<and> admitted r n \<and> in_book r"
proof -
  have "unat (word_of_nat n :: u64) = n" "unat (word_of_nat k :: u16) = k"
    using assms(1,6) by (auto simp: MAX_CLIENT_ORDERS_def MAX_INSTRUMENTS_def intro!: unat_word_of_nat_small)
  then show ?thesis
    using fill_order_admitted [of "word_of_nat n" shs pr "word_of_nat k" firm_id raw sd] assms
    by (auto simp: in_book_def MAX_PRICE_def)
qed

lemma pcap_order_admitted:
  assumes "i < 5000000"
  shows "\<exists>r. pcap_order rnd i = Some r \<and> admitted r (i + 1) \<and> in_book r"
  unfolding pcap_order_def
proof (rule fill_order_in_book)
  show "unat (50000 + word_of_nat (rnd (3 * i + 2) mod 10) :: u32) = 50000 + rnd (3 * i + 2) mod 10"
    using price_offset [of 50000 "rnd (3 * i + 2) mod 10"] by simp
  have "[0, 1, 2, 3] ! (rnd (3 * i + 1) mod 4) \<in> set [0, 1, 2, 3 :: nat]" by (rule nth_mem) simp
  then show "[0, 1, 2, 3] ! (rnd (3 * i + 1) mod 4) < MAX_INSTRUMENTS" by (auto simp: MAX_INSTRUMENTS_def)
  have "rnd (3 * i + 2) mod 10 < 10" by simp
  then show "50000 + rnd (3 * i + 2) mod 10 < MAX_PRICE" by (simp add: MAX_PRICE_def)
qed (use assms in \<open>simp_all add: MAX_CLIENT_ORDERS_def\<close>)

lemma tester_symbol_range: "fst (tester_symbol workload rnd k i) < MAX_INSTRUMENTS"
proof -
  have "rnd (k + 1) mod (MAX_INSTRUMENTS - 4) < MAX_INSTRUMENTS - 4" by (simp add: MAX_INSTRUMENTS_def)
  then show ?thesis by (auto simp: tester_symbol_def Let_def MAX_INSTRUMENTS_def)
qed

lemma tester_order_admitted:
  assumes "i < 1000000"
  shows "\<exists>r. tester_order workload rnd k i = Some r \<and> admitted r (i + 1) \<and> in_book r"
proof -
  obtain s k' where s: "tester_symbol workload rnd k i = (s, k')" by (cases "tester_symbol workload rnd k i")
  have range: "s < MAX_INSTRUMENTS" using tester_symbol_range [of workload rnd k i] s by simp
  define p where "p = (if workload = 4 then 1 + rnd k' mod 99999 else 50000 + i mod 100)"
  have m: "rnd k' mod 99999 < 99999" "i mod 100 < 100" by simp_all
  then have p: "0 < p" "p < MAX_PRICE" by (auto simp: p_def MAX_PRICE_def)
  have pr: "unat (if workload = 4 then 1 + word_of_nat (rnd k' mod 99999) else 50000 + word_of_nat (i mod 100) :: u32) = p"
    using price_offset [of 1 "rnd k' mod 99999"] price_offset [of 50000 "i mod 100"] m by (simp add: p_def)
  show ?thesis
    unfolding tester_order_def s Let_def prod.case
    by (rule fill_order_in_book [OF _ _ pr p range]) (use assms in \<open>simp_all add: MAX_CLIENT_ORDERS_def\<close>)
qed

lemma stamp_admitted: "admitted r n \<Longrightarrow> wf_enter_order r \<Longrightarrow> admitted (stamp ts r) n"
  using enter_order_dec_enc [of "stamp ts r"] length_enc_enter_order [of "stamp ts r"]
  by (simp add: admitted_def hd_enc_enter_order wf_enter_order_def stamp_def check_pre_trade_exact)

lemma fill_order_wf: "fill_order raw token sd shs stk pr firm_id = Some r \<Longrightarrow> length firm_id = 4 \<Longrightarrow> wf_enter_order r"
  by (auto simp: fill_order_def padded_token_def Let_def wf_enter_order_def split: if_splits Option.bind_splits)

lemma make_order_admitted:
  assumes "n < MAX_CLIENT_ORDERS"
  shows "\<exists>r. map_option (stamp ts) (make_order (word_of_nat n) sd 0 50000 10) = Some r \<and> admitted r n \<and> in_book r"
proof -
  obtain r where r: "make_order (word_of_nat n) sd 0 50000 10 = Some r" "admitted r n" "in_book r"
    using fill_order_in_book [of n 10 50000 50000 0 "map ch ''LIQ1''" zero_order sd] assms
    by (auto simp: make_order_def MAX_PRICE_def MAX_INSTRUMENTS_def)
  then have "wf_enter_order r" by (auto simp: make_order_def intro: fill_order_wf)
  then show ?thesis using r stamp_admitted [OF r(2)] by (auto simp: in_book_def stamp_def)
qed

lemma liquidity_admitted:
  assumes "i < 9999999"
  shows "\<exists>a. liquidity_ask ts i = Some a \<and> admitted a (1 + i) \<and> in_book a"
    and "\<exists>b. liquidity_bid ts i = Some b \<and> admitted b (10000000 + i) \<and> in_book b"
  using make_order_admitted [of "1 + i" ts "ch CHR ''S''"] make_order_admitted [of "10000000 + i" ts "ch CHR ''B''"] assms
  by (simp_all add: liquidity_ask_def liquidity_bid_def MAX_CLIENT_ORDERS_def)

lemma mm_turn_admitted:
  "\<forall>(buy, p, q) \<in> set qs. q = 10 \<and> 0 < p \<and> p \<le> 200000 \<Longrightarrow> unat (mt_order_id m) + length qs \<le> MAX_CLIENT_ORDERS \<Longrightarrow>
   \<exists>rs m'. mm_turn raw qs m = Some (rs, m') \<and> length rs = length qs \<and>
     (\<forall>j < length rs. admitted (rs ! j) (unat (mt_order_id m) + j))"
proof (induction qs arbitrary: m)
  case (Cons x qs)
  obtain buy p q where x: "x = (buy, p, q)" by (cases x)
  have id: "unat (mt_order_id m + 1) = unat (mt_order_id m) + 1"
    using Cons.prems(2) by (simp add: unat_word_ariths MAX_CLIENT_ORDERS_def)
  define pr :: u32 where "pr = ucast (word_of_nat p :: u64)"
  have pr: "unat pr = p" using Cons.prems(1) x by (simp add: pr_def unsigned_ucast_eq take_bit_nat_eq_self unat_of_nat)
  define sd where "sd = (if buy then ch CHR ''B'' else ch CHR ''S'' :: u8)"
  define fid :: bytes where "fid = map ch ''MM01''"
  have fid: "length fid = 4" by (simp add: fid_def)
  have stk: "unat MM_INSTRUMENT < MAX_INSTRUMENTS" by (simp add: MM_INSTRUMENT_def MAX_INSTRUMENTS_def)
  have q: "q \<in> {10, 100}" "0 < unat pr" "unat pr \<le> 200000" "unat (mt_order_id m) < MAX_CLIENT_ORDERS"
    using Cons.prems x pr by simp_all
  obtain r where r: "fill_order raw (mt_order_id m) sd q MM_INSTRUMENT pr fid = Some r" "admitted r (unat (mt_order_id m))"
    using fill_order_admitted [OF q(4,1-3) stk fid] by blast
  obtain rs m' where rest: "mm_turn raw qs (m\<lparr>mt_order_id := mt_order_id m + 1\<rparr>) = Some (rs, m')" "length rs = length qs"
    "\<forall>j < length rs. admitted (rs ! j) (unat (mt_order_id m) + 1 + j)"
    using Cons.IH [of "m\<lparr>mt_order_id := mt_order_id m + 1\<rparr>"] Cons.prems x id by auto
  have "admitted ((r # rs) ! j) (unat (mt_order_id m) + j)" if "j < length (r # rs)" for j
    using that r(2) rest(3) by (cases j) auto
  then show ?case using r(1) rest by (auto simp: x mm_send_order_def pr_def sd_def fid_def)
qed simp

lemma mm_quotes_range: "mm_ok m \<Longrightarrow> 0 < mt_best_ask m \<Longrightarrow> \<forall>(buy, p, q) \<in> set (mm_quotes m). q = 10 \<and> 0 < p \<and> p \<le> 200000"
  by (auto simp: mm_quotes_def mm_ok_def MM_LEVELS_def)

section \<open>Property\<close>

text \<open>
  Every order the repository's generators emit is one the exchange takes: each of the five
  million orders of the generated file, each of the tester's million under any of its
  workloads and any random numbers, and each pair of the crossing driver is framed and decoded
  by the gateway to the token it was given, passes the risk check, and names a price the book
  has a level for; the two sides of the crossing driver never share a token. The sample market
  maker's quotes, in any state its local book reaches without an ask at price zero, which the
  risk check excludes, are taken while its tokens last.
\<close>
theorem tools_orders_admitted:
  "(i < 5000000 \<longrightarrow> (\<exists>r. pcap_order rnd i = Some r \<and> admitted r (i + 1) \<and> in_book r)) \<and>
   (i < 1000000 \<longrightarrow> (\<exists>r. tester_order workload rnd k i = Some r \<and> admitted r (i + 1) \<and> in_book r)) \<and>
   (i < 9999999 \<and> j < 9999999 \<longrightarrow> (\<exists>a b. liquidity_ask ts i = Some a \<and> liquidity_bid ts j = Some b \<and>
      admitted a (1 + i) \<and> admitted b (10000000 + j) \<and> in_book a \<and> in_book b \<and> 1 + i \<noteq> 10000000 + j)) \<and>
   (let m = fold mm_datagram bufs (mm_tool_init\<lparr>mt_order_id := n\<rparr>) in unat n + 2 \<le> MAX_CLIENT_ORDERS \<and> 0 < mt_best_ask m \<longrightarrow>
      (\<exists>rs m'. mm_turn raw (mm_quotes m) m = Some (rs, m') \<and> length rs = length (mm_quotes m) \<and>
        (\<forall>x < length rs. admitted (rs ! x) (unat n + x))))"
proof -
  define m where "m = fold mm_datagram bufs (mm_tool_init\<lparr>mt_order_id := n\<rparr>)"
  have "mm_ok (fold mm_datagram bs s) \<and> mt_order_id (fold mm_datagram bs s) = mt_order_id s" if "mm_ok s" for bs s
    using that
  proof (induction bs arbitrary: s)
    case (Cons b bs)
    then show ?case using mm_datagram_ok [OF Cons.prems, of b] by (simp add: mm_datagram_id)
  qed simp
  moreover have "mm_ok (mm_tool_init\<lparr>mt_order_id := n\<rparr>)" using mm_init_ok by (simp add: mm_ok_def)
  ultimately have m: "mm_ok m" "mt_order_id m = n" by (auto simp: m_def)
  have "length (mm_quotes m) \<le> 2" by (simp add: mm_quotes_def)
  then have "unat n + 2 \<le> MAX_CLIENT_ORDERS \<and> 0 < mt_best_ask m \<longrightarrow> (\<exists>rs m'. mm_turn raw (mm_quotes m) m = Some (rs, m') \<and> length rs = length (mm_quotes m) \<and>
        (\<forall>x < length rs. admitted (rs ! x) (unat n + x)))"
    using mm_turn_admitted [OF mm_quotes_range [OF m(1)], of m raw] m(2) by fastforce
  moreover have "i < 9999999 \<and> j < 9999999 \<longrightarrow> (\<exists>a b. liquidity_ask ts i = Some a \<and> liquidity_bid ts j = Some b \<and>
      admitted a (1 + i) \<and> admitted b (10000000 + j) \<and> in_book a \<and> in_book b \<and> 1 + i \<noteq> 10000000 + j)"
    using liquidity_admitted(1) [of i ts] liquidity_admitted(2) [of j ts] by fastforce
  ultimately show ?thesis
    unfolding m_def [symmetric] Let_def using pcap_order_admitted tester_order_admitted by blast
qed

text \<open>The last order of the file, an order of the tester's realistic workload, a pair, and the seed quotes.\<close>
theorem tools_orders_admitted_witness:
  "(\<exists>r. pcap_order (\<lambda>k. 7 * k) 4999999 = Some r \<and> admitted r 5000000 \<and> in_book r) \<and>
   (\<exists>r. tester_order 3 (\<lambda>k. 99 + k) 0 123 = Some r \<and> admitted r 124 \<and> in_book r) \<and>
   (\<exists>a b. liquidity_ask 5 123 = Some a \<and> liquidity_bid 5 9 = Some b \<and> admitted a 124 \<and> admitted b 10000009) \<and>
   (\<exists>rs m'. mm_turn zero_order [(True, 50000, 10), (False, 50020, 10)] mm_tool_init = Some (rs, m') \<and>
      admitted (rs ! 0) 5000000 \<and> admitted (rs ! 1) 5000001)"
proof -
  note t = tools_orders_admitted [where rnd = "\<lambda>k. 7 * k" and i = 4999999 and workload = 3 and k = 0 and ts = 5 and j = 9 and
    bufs = "[]" and n = 5000000 and raw = zero_order]
  note u = tools_orders_admitted [where rnd = "\<lambda>k. 99 + k" and i = 123 and workload = 3 and k = 0 and ts = 5 and j = 9 and
    bufs = "[]" and n = 5000000 and raw = zero_order]
  have m: "fold mm_datagram [] (mm_tool_init\<lparr>mt_order_id := 5000000\<rparr>) = mm_tool_init" by (simp add: mm_tool_init_def)
  have q: "mm_quotes mm_tool_init = [(True, 50000, 10), (False, 50020, 10)]" by (simp add: mm_quotes_def mm_tool_init_def)
  have "unat (5000000 :: u64) + 2 \<le> MAX_CLIENT_ORDERS \<and> 0 < mt_best_ask mm_tool_init"
    by (simp add: MAX_CLIENT_ORDERS_def mm_tool_init_def)
  then have "\<exists>rs m'. mm_turn zero_order [(True, 50000, 10), (False, 50020, 10)] mm_tool_init = Some (rs, m') \<and> length rs = 2 \<and>
      (\<forall>x < length rs. admitted (rs ! x) (unat (5000000 :: u64) + x))"
    using u unfolding m Let_def q by (simp add: numeral_2_eq_2 del: mm_turn.simps)
  then obtain rs m' where turn: "mm_turn zero_order [(True, 50000, 10), (False, 50020, 10)] mm_tool_init = Some (rs, m')"
    "length rs = 2" "\<And>x. x < 2 \<Longrightarrow> admitted (rs ! x) (5000000 + x)" by auto
  have "admitted (rs ! 0) 5000000" "admitted (rs ! 1) 5000001" using turn(3) [of 0] turn(3) [of 1] by simp_all
  then show ?thesis using t u turn(1) by (auto simp del: mm_turn.simps)
qed

end
