(* ===== verification/Tools_Replay.thy ===== *)
theory Tools_Replay
  imports Firm_Transmit "HOL-Library.Sublist"
begin

text \<open>
  The replay tool (\<open>hft_engine/src/tools/replay.cpp\<close>): a file of raw enter-order messages is
  dealt round-robin over the client connections, collected in batches of 512 orders per
  connection, and written with \<open>send_all\<close>. The answers of the kernel to the \<open>send\<close> calls are
  given per connection, as in theory \<open>Firm_Connector\<close>; running out of answers is \<open>None\<close>.
  The program around it is theory \<open>Tools_Replay_Main\<close>.
\<close>

section \<open>The program\<close>

record replay_sock =
  rk_kernel :: "send_result list"
  rk_wire :: bytes

fun replay_send_all :: "bytes \<Rightarrow> nat \<Rightarrow> send_result list \<Rightarrow> bytes \<Rightarrow> (bool \<times> bytes \<times> send_result list) option" where
  "replay_send_all data sent [] wire = (if sent < length data then None else Some (True, wire, []))"
| "replay_send_all data sent (k # ks) wire =
     (if sent < length data then (case k of
        Sent n \<Rightarrow> let m = min n (length data - sent) in
          if n > 0 then replay_send_all data (sent + m) ks (wire @ take m (drop sent data)) else Some (False, wire, ks)
      | Would_block \<Rightarrow> replay_send_all data sent ks wire
      | _ \<Rightarrow> Some (False, wire, ks))
      else Some (True, wire, k # ks))"

definition sock_send_all :: "bytes \<Rightarrow> replay_sock \<Rightarrow> (bool \<times> replay_sock) option" where
  "sock_send_all data s = do {
     (ok, wire, ks) \<leftarrow> replay_send_all data 0 (rk_kernel s) (rk_wire s);
     Some (ok, s\<lparr>rk_wire := wire, rk_kernel := ks\<rparr>)
   }"

definition order_size :: nat where
  "order_size = sizeof_OuchEnterOrder"

definition ORDERS_PER_BATCH :: nat where
  "ORDERS_PER_BATCH = 512"

type_synonym replay_state = "bool \<times> replay_sock list \<times> bytes list"

text \<open>The body of the dealing loop for order \<open>i\<close>.\<close>

definition deal_order :: "bytes \<Rightarrow> nat \<Rightarrow> replay_sock list \<times> bytes list \<Rightarrow> replay_state option" where
  "deal_order data i = (\<lambda>(socks, batches).
     let conn = i mod length socks;
         batches = batches[conn := batches ! conn @ take order_size (drop (i * order_size) data)] in
     if length (batches ! conn) \<ge> ORDERS_PER_BATCH * order_size then do {
       (ok, s) \<leftarrow> sock_send_all (batches ! conn) (socks ! conn);
       Some (ok, socks[conn := s], batches[conn := []])
     } else Some (True, socks, batches))"

fun deal_loop :: "bytes \<Rightarrow> nat list \<Rightarrow> replay_state \<Rightarrow> replay_state option" where
  "deal_loop data [] st = Some st"
| "deal_loop data (i # is) (ok, socks, batches) =
     (if ok then do { st \<leftarrow> deal_order data i (socks, batches); deal_loop data is st }
      else Some (ok, socks, batches))"

fun flush_loop :: "nat list \<Rightarrow> replay_state \<Rightarrow> replay_state option" where
  "flush_loop [] st = Some st"
| "flush_loop (c # cs) (ok, socks, batches) =
     (if ok then
        if batches ! c \<noteq> [] then do {
          (ok, s) \<leftarrow> sock_send_all (batches ! c) (socks ! c);
          flush_loop cs (ok, socks[c := s], batches)
        } else flush_loop cs (ok, socks, batches)
      else Some (ok, socks, batches))"

text \<open>From the mapped file and the open connections to the exit code.\<close>

definition replay :: "bytes \<Rightarrow> replay_sock list \<Rightarrow> (nat \<times> replay_sock list) option" where
  "replay data socks =
     (let num_orders = length data div order_size in
      if num_orders = 0 then Some (1, socks)
      else do {
        st \<leftarrow> deal_loop data [0 ..< num_orders] (True, socks, replicate (length socks) []);
        (ok, socks, batches) \<leftarrow> flush_loop [0 ..< length socks] st;
        Some (if ok then 0 else 1, socks)
      })"

section \<open>One call of send\_all\<close>

definition sound_answer :: "send_result \<Rightarrow> bool" where
  "sound_answer k \<longleftrightarrow> (case k of Sent n \<Rightarrow> 0 < n | Would_block \<Rightarrow> True | _ \<Rightarrow> False)"

definition sent_spec :: "bytes \<Rightarrow> send_result list \<Rightarrow> bytes \<Rightarrow> bool \<times> bytes \<times> send_result list \<Rightarrow> bool" where
  "sent_spec data ks wire = (\<lambda>(ok, wire', ks'). prefix wire' (wire @ data) \<and> (ok \<longrightarrow> wire' = wire @ data) \<and>
     progress ks + length wire \<le> progress ks' + length wire' \<and> set ks' \<subseteq> set ks \<and>
     ((\<forall>k \<in> set ks. sound_answer k) \<longrightarrow> ok))"

lemma sent_spec_more:
  assumes "sent_spec (drop m data) ks (wire @ take m data) r" "0 < n" "0 < m" "m \<le> length data"
  shows "sent_spec data (Sent n # ks) wire r"
proof -
  have "(wire @ take m data) @ drop m data = wire @ data" by simp
  then show ?thesis using assms by (cases r) (auto simp: sent_spec_def)
qed

lemma sent_spec_again: "sent_spec data ks wire r \<Longrightarrow> sent_spec data (Would_block # ks) wire r"
  by (cases r) (auto simp: sent_spec_def)

lemma replay_send_all_returns:
  "length data - sent \<le> progress ks \<Longrightarrow> sent \<le> length data \<Longrightarrow>
   \<exists>r. replay_send_all data sent ks wire = Some r \<and> sent_spec (drop sent data) ks wire r"
proof (induction ks arbitrary: sent wire)
  case (Cons k ks)
  show ?case
  proof (cases "sent < length data")
    case True
    show ?thesis
    proof (cases k)
      case (Sent n)
      show ?thesis
      proof (cases "0 < n")
        case pos: True
        define m where "m = min n (length data - sent)"
        have m: "0 < m" "sent + m \<le> length data" using pos True by (auto simp: m_def)
        then have "length data - (sent + m) \<le> progress ks" using Cons.prems pos Sent by simp
        from Cons.IH [OF this m(2)] obtain r where
          r: "replay_send_all data (sent + m) ks (wire @ take m (drop sent data)) = Some r"
            "sent_spec (drop (sent + m) data) ks (wire @ take m (drop sent data)) r" by blast
        have "replay_send_all data sent (k # ks) wire = Some r" using r(1) True Sent pos by (simp add: Let_def m_def)
        moreover have "sent_spec (drop sent data) (k # ks) wire r"
          unfolding Sent by (rule sent_spec_more [of m]) (use r(2) pos m in \<open>simp_all add: add.commute [of m sent]\<close>)
        ultimately show ?thesis by blast
      qed (use Sent True in \<open>auto simp: sent_spec_def sound_answer_def\<close>)
    next
      case Would_block
      then show ?thesis using Cons.IH [of sent wire] Cons.prems True by (auto intro: sent_spec_again)
    qed (use True in \<open>auto simp: sent_spec_def sound_answer_def\<close>)
  qed (auto simp: sent_spec_def)
qed (auto simp: sent_spec_def)

lemma sock_send_all_returns:
  assumes "length data \<le> progress (rk_kernel s)"
  shows "\<exists>ok s'. sock_send_all data s = Some (ok, s') \<and> sent_spec data (rk_kernel s) (rk_wire s) (ok, rk_wire s', rk_kernel s')"
  using replay_send_all_returns [of data 0 "rk_kernel s" "rk_wire s"] assms by (fastforce simp: sock_send_all_def)

section \<open>Dealing\<close>

text \<open>What connection \<open>c\<close> of \<open>n\<close> is dealt of the first \<open>i\<close> orders.\<close>

definition order_bytes :: "bytes \<Rightarrow> nat \<Rightarrow> bytes" where
  "order_bytes data i = take order_size (drop (i * order_size) data)"

definition dealt :: "bytes \<Rightarrow> nat \<Rightarrow> nat \<Rightarrow> nat \<Rightarrow> bytes" where
  "dealt data n i c = concat (map (order_bytes data) (filter (\<lambda>j. j mod n = c) [0 ..< i]))"

lemma dealt_0 [simp]: "dealt data n 0 c = []"
  by (simp add: dealt_def)

lemma dealt_Suc: "dealt data n (Suc i) c = dealt data n i c @ (if i mod n = c then order_bytes data i else [])"
  by (simp add: dealt_def)

lemma dealt_prefix: "i \<le> k \<Longrightarrow> prefix (dealt data n i c) (dealt data n k c)"
proof (induction k)
  case (Suc k)
  then show ?case by (cases "i = Suc k") (auto simp: dealt_Suc intro: prefix_order.trans)
qed simp

lemma dealt_length: "length (dealt data n i c) \<le> i * order_size"
  by (induction i) (auto simp: dealt_Suc order_bytes_def)

text \<open>
  One connection while it has been dealt \<open>part\<close> of \<open>whole\<close>: on the wire and in the batch is what
  was dealt, and never anything but a prefix of its share leaves.
\<close>

definition conn_ok :: "bytes \<Rightarrow> bytes \<Rightarrow> bool \<Rightarrow> replay_sock \<Rightarrow> replay_sock \<Rightarrow> bytes \<Rightarrow> bool" where
  "conn_ok part whole ok s0 s b \<longleftrightarrow>
     (ok \<longrightarrow> rk_wire s @ b = rk_wire s0 @ part) \<and> prefix (rk_wire s) (rk_wire s0 @ whole) \<and>
     progress (rk_kernel s0) + length (rk_wire s0) \<le> progress (rk_kernel s) + length (rk_wire s) \<and>
     set (rk_kernel s) \<subseteq> set (rk_kernel s0)"

definition sound_sock :: "replay_sock \<Rightarrow> bool" where
  "sound_sock s \<longleftrightarrow> (\<forall>k \<in> set (rk_kernel s). sound_answer k)"

lemma conn_ok_weaken: "conn_ok part whole True s0 s b \<Longrightarrow> conn_ok part whole ok s0 s b"
  by (simp add: conn_ok_def)

lemma conn_ok_more: "conn_ok part whole True s0 s b \<Longrightarrow> conn_ok (part @ xs) whole True s0 s (b @ xs)"
  by (auto simp: conn_ok_def)

lemma conn_send:
  assumes ok: "conn_ok part whole True s0 s b" and pre: "prefix part whole" and room: "length whole \<le> progress (rk_kernel s0)"
  shows "\<exists>ok s'. sock_send_all b s = Some (ok, s') \<and> conn_ok part whole ok s0 s' [] \<and> (sound_sock s0 \<longrightarrow> ok)"
proof -
  note ok' = ok [unfolded conn_ok_def]
  have "length (rk_wire s) + length b = length (rk_wire s0) + length part" using ok' by (metis length_append)
  then have "length b \<le> progress (rk_kernel s)" using ok' room prefix_length_le [OF pre] by linarith
  then obtain ok s' where s': "sock_send_all b s = Some (ok, s')"
    "sent_spec b (rk_kernel s) (rk_wire s) (ok, rk_wire s', rk_kernel s')" using sock_send_all_returns by blast
  have "prefix (rk_wire s') (rk_wire s0 @ whole)"
    using s'(2) ok' pre by (auto simp: sent_spec_def intro: prefix_order.trans)
  then show ?thesis
    using s' ok' by (intro exI [of _ ok] exI [of _ s']) (auto simp: sent_spec_def conn_ok_def sound_sock_def)
qed

text \<open>All connections, with the batch of each.\<close>

definition conns_ok :: "bytes \<Rightarrow> replay_sock list \<Rightarrow> nat \<Rightarrow> bool \<Rightarrow> replay_sock list \<Rightarrow> (nat \<Rightarrow> bytes) \<Rightarrow> bool" where
  "conns_ok data socks0 i ok socks b \<longleftrightarrow> length socks = length socks0 \<and>
     (\<forall>c < length socks0. conn_ok (dealt data (length socks0) i c) (dealt data (length socks0) (length data div order_size) c)
        ok (socks0 ! c) (socks ! c) (b c)) \<and>
     ((\<forall>s \<in> set socks0. sound_sock s) \<longrightarrow> ok)"

lemma conns_send:
  assumes ok: "conns_ok data socks0 i True socks b" and c: "c < length socks0" and i: "i \<le> length data div order_size"
    and room: "\<forall>s \<in> set socks0. length data \<le> progress (rk_kernel s)"
  shows "\<exists>ok s'. sock_send_all (b c) (socks ! c) = Some (ok, s') \<and> conns_ok data socks0 i ok (socks[c := s']) (b(c := []))"
proof -
  let ?N = "length data div order_size"
  have "length (dealt data (length socks0) ?N c) \<le> length data"
    using dealt_length [of data "length socks0" ?N c] div_times_less_eq_dividend [of "length data" order_size] by linarith
  then have "length (dealt data (length socks0) ?N c) \<le> progress (rk_kernel (socks0 ! c))"
    using room c nth_mem [of c socks0] by fastforce
  moreover have "conn_ok (dealt data (length socks0) i c) (dealt data (length socks0) ?N c) True (socks0 ! c) (socks ! c) (b c)"
    using ok c by (simp add: conns_ok_def)
  ultimately obtain ok' s' where s: "sock_send_all (b c) (socks ! c) = Some (ok', s')"
    "conn_ok (dealt data (length socks0) i c) (dealt data (length socks0) ?N c) ok' (socks0 ! c) s' []" "sound_sock (socks0 ! c) \<longrightarrow> ok'"
    using conn_send [OF _ dealt_prefix [OF i], of data "length socks0" c "socks0 ! c" "socks ! c" "b c"] by blast
  then have "conns_ok data socks0 i ok' (socks[c := s']) (b(c := []))"
    using ok c by (auto simp: conns_ok_def nth_list_update conn_ok_weaken)
  then show ?thesis using s(1) by blast
qed

lemma deal_order_ok:
  assumes ok: "conns_ok data socks0 i True socks (\<lambda>c. batches ! c)" and len: "length batches = length socks0" "socks0 \<noteq> []"
    and i: "Suc i \<le> length data div order_size" and room: "\<forall>s \<in> set socks0. length data \<le> progress (rk_kernel s)"
  shows "\<exists>ok socks' batches'. deal_order data i (socks, batches) = Some (ok, socks', batches') \<and>
    conns_ok data socks0 (Suc i) ok socks' (\<lambda>c. batches' ! c) \<and> length batches' = length socks0"
proof -
  define conn where "conn = i mod length socks0"
  define b where "b = batches[conn := batches ! conn @ order_bytes data i]"
  have c: "conn < length socks0" "length socks = length socks0" using len ok by (simp_all add: conn_def conns_ok_def)
  have ok1: "conns_ok data socks0 (Suc i) True socks (\<lambda>c. b ! c)"
    using ok len c by (auto simp: conns_ok_def dealt_Suc b_def nth_list_update conn_def [symmetric] intro: conn_ok_more)
  have eq: "deal_order data i (socks, batches) = (if ORDERS_PER_BATCH * order_size \<le> length (b ! conn)
    then do { (ok, s) \<leftarrow> sock_send_all (b ! conn) (socks ! conn); Some (ok, socks[conn := s], b[conn := []]) }
    else Some (True, socks, b))"
    by (simp add: deal_order_def Let_def c(2) conn_def [symmetric] b_def order_bytes_def [symmetric])
  show ?thesis
  proof (cases "ORDERS_PER_BATCH * order_size \<le> length (b ! conn)")
    case True
    obtain ok' s' where s: "sock_send_all (b ! conn) (socks ! conn) = Some (ok', s')"
      "conns_ok data socks0 (Suc i) ok' (socks[conn := s']) ((\<lambda>c. b ! c)(conn := []))"
      using conns_send [OF ok1 c(1) i room] by auto
    have "conns_ok data socks0 (Suc i) ok' (socks[conn := s']) (\<lambda>c. b[conn := []] ! c)"
      using s(2) c len by (auto simp: conns_ok_def nth_list_update b_def)
    then show ?thesis using True s(1) eq len by (simp add: b_def)
  next
    case False
    have "length b = length socks0" using len by (simp add: b_def)
    then show ?thesis using False ok1 eq by auto
  qed
qed

lemma conns_ok_later:
  assumes "conns_ok data socks0 i False socks b"
  shows "conns_ok data socks0 k False socks b'"
  using assms by (auto simp: conns_ok_def conn_ok_def)

lemma deal_loop_ok:
  assumes len: "socks0 \<noteq> []" and room: "\<forall>s \<in> set socks0. length data \<le> progress (rk_kernel s)"
  defines "N \<equiv> length data div order_size"
  shows "conns_ok data socks0 i ok socks (\<lambda>c. batches ! c) \<Longrightarrow> length batches = length socks0 \<Longrightarrow> i \<le> N \<Longrightarrow>
    \<exists>ok' socks' batches'. deal_loop data [i ..< N] (ok, socks, batches) = Some (ok', socks', batches') \<and>
      conns_ok data socks0 N ok' socks' (\<lambda>c. batches' ! c) \<and> length batches' = length socks0"
proof (induction "N - i" arbitrary: i ok socks batches)
  case 0
  then show ?case by simp
next
  case (Suc k)
  then have i: "[i ..< N] = i # [Suc i ..< N]" "Suc i \<le> N" by (simp_all add: upt_conv_Cons)
  show ?case
  proof (cases ok)
    case True
    obtain ok1 socks1 batches1 where one: "deal_order data i (socks, batches) = Some (ok1, socks1, batches1)"
      "conns_ok data socks0 (Suc i) ok1 socks1 (\<lambda>c. batches1 ! c)" "length batches1 = length socks0"
      using deal_order_ok [OF _ Suc.prems(2) len _ room, of i socks] Suc.prems(1) i(2) True by (auto simp: N_def)
    show ?thesis using Suc.hyps(1) [OF _ one(2,3) i(2)] Suc.hyps(2) one(1) True i(1) by simp
  next
    case False
    then have "conns_ok data socks0 N False socks (\<lambda>c. batches ! c)" using Suc.prems(1) conns_ok_later [of data socks0 i socks "(!) batches" N "(!) batches"] by simp
    then show ?thesis using False Suc.prems(2) i(1) by auto
  qed
qed

lemma flush_loop_ok:
  assumes room: "\<forall>s \<in> set socks0. length data \<le> progress (rk_kernel s)"
  defines "N \<equiv> length data div order_size"
  shows "conns_ok data socks0 N ok socks (\<lambda>c. if c \<in> set cs then batches ! c else []) \<Longrightarrow> distinct cs \<Longrightarrow>
    set cs \<subseteq> {..< length socks0} \<Longrightarrow>
    \<exists>ok' socks'. flush_loop cs (ok, socks, batches) = Some (ok', socks', batches) \<and> conns_ok data socks0 N ok' socks' (\<lambda>_. [])"
proof (induction cs arbitrary: ok socks)
  case (Cons c cs)
  show ?case
  proof (cases ok)
    case True
    have c: "c < length socks0" using Cons.prems(3) by simp
    show ?thesis
    proof (cases "batches ! c = []")
      case empty: True
      have "(\<lambda>d. if d \<in> set (c # cs) then batches ! d else []) = (\<lambda>d. if d \<in> set cs then batches ! d else [])"
        using empty by auto
      then show ?thesis using Cons True empty by simp
    next
      case False
      obtain ok1 s where s: "sock_send_all (batches ! c) (socks ! c) = Some (ok1, s)"
        "conns_ok data socks0 N ok1 (socks[c := s]) ((\<lambda>d. if d \<in> set (c # cs) then batches ! d else [])(c := []))"
        using conns_send [of data socks0 N socks _ c, OF _ c _ room] Cons.prems(1) True by (force simp: N_def)
      have "(\<lambda>d. if d \<in> set (c # cs) then batches ! d else [])(c := []) = (\<lambda>d. if d \<in> set cs then batches ! d else [])"
        using Cons.prems(2) by auto
      then show ?thesis using Cons.IH [of ok1 "socks[c := s]"] s Cons.prems True False by simp
    qed
  next
    case False
    then show ?thesis using Cons.prems(1) conns_ok_later [of data socks0 N socks _ N] by auto
  qed
qed simp

section \<open>Property\<close>

text \<open>
  The replay tool deals whole orders: for a file with at least one complete order and
  connections whose kernels keep making progress, the tool ends, and whatever happens each
  connection has been sent a prefix of the orders whose number is congruent to its own modulo
  the number of connections, in file order and cut only where a send failed. With exit code 0
  every connection has received exactly its orders, trailing bytes of the file are left out, and
  the code is 0 unless some send fails.
\<close>
theorem replay_deals_whole_orders:
  assumes "order_size \<le> length data" "socks \<noteq> []"
    and "\<forall>s \<in> set socks. length data \<le> progress (rk_kernel s)"
  shows "\<exists>code socks'. replay data socks = Some (code, socks') \<and> length socks' = length socks \<and>
    (\<forall>c < length socks. prefix (rk_wire (socks' ! c))
       (rk_wire (socks ! c) @ dealt data (length socks) (length data div order_size) c)) \<and>
    (code = 0 \<longrightarrow> (\<forall>c < length socks. rk_wire (socks' ! c) =
       rk_wire (socks ! c) @ dealt data (length socks) (length data div order_size) c)) \<and>
    ((\<forall>s \<in> set socks. sound_sock s) \<longrightarrow> code = 0)"
proof -
  define N where "N = length data div order_size"
  have N: "N \<noteq> 0" using assms(1) by (simp add: N_def order_size_def sizeof_OuchEnterOrder_def div_eq_0_iff)
  have "conns_ok data socks 0 True socks (\<lambda>c. replicate (length socks) [] ! c)"
    by (auto simp: conns_ok_def conn_ok_def)
  from deal_loop_ok [OF assms(2,3) this] obtain ok1 socks1 batches1 where
    one: "deal_loop data [0 ..< N] (True, socks, replicate (length socks) []) = Some (ok1, socks1, batches1)"
      "conns_ok data socks N ok1 socks1 (\<lambda>c. batches1 ! c)" by (auto simp: N_def)
  have "conns_ok data socks N ok1 socks1 (\<lambda>c. if c \<in> set [0 ..< length socks] then batches1 ! c else [])"
    using one(2) by (simp add: conns_ok_def)
  from flush_loop_ok [OF assms(3), folded N_def, OF this] obtain ok2 socks2 where
    two: "flush_loop [0 ..< length socks] (ok1, socks1, batches1) = Some (ok2, socks2, batches1)"
      "conns_ok data socks N ok2 socks2 (\<lambda>_. [])" by (auto simp: lessThan_atLeast0)
  have "replay data socks = Some (if ok2 then 0 else 1, socks2)"
    using N one(1) two(1) by (simp add: replay_def Let_def N_def [symmetric])
  then show ?thesis using two(2) by (auto simp: conns_ok_def conn_ok_def N_def)
qed

definition tiny_file :: bytes where
  "tiny_file = replicate 81 1 @ replicate 81 2 @ replicate 81 3 @ [9, 9]"

definition tiny_socks :: "replay_sock list" where
  "tiny_socks = replicate 2 \<lparr>rk_kernel = Would_block # replicate 245 (Sent 100), rk_wire = []\<rparr>"

text \<open>Three orders and two stray bytes over two connections: the first gets orders 0 and 2.\<close>
theorem replay_deals_whole_orders_witness:
  "\<exists>socks'. replay tiny_file tiny_socks = Some (0, socks') \<and> rk_wire (socks' ! 0) = replicate 81 1 @ replicate 81 3 \<and>
    rk_wire (socks' ! 1) = replicate 81 2"
proof -
  have p: "progress (replicate n (Sent 100)) = n" for n by (induction n) auto
  have "order_size \<le> length tiny_file" "tiny_socks \<noteq> []" "\<forall>s \<in> set tiny_socks. length tiny_file \<le> progress (rk_kernel s)"
    "\<forall>s \<in> set tiny_socks. sound_sock s" "length tiny_socks = 2" "rk_wire (tiny_socks ! 0) = []" "rk_wire (tiny_socks ! 1) = []"
    by (auto simp: tiny_file_def tiny_socks_def order_size_def sizeof_OuchEnterOrder_def p sound_sock_def sound_answer_def numeral_2_eq_2)
  moreover have "dealt tiny_file 2 (length tiny_file div order_size) 0 = replicate 81 1 @ replicate 81 3"
    "dealt tiny_file 2 (length tiny_file div order_size) 1 = replicate 81 2"
    by (simp_all add: dealt_def tiny_file_def order_size_def sizeof_OuchEnterOrder_def order_bytes_def upt_rec)
  ultimately show ?thesis using replay_deals_whole_orders [of tiny_file tiny_socks] by fastforce
qed

end
