(* ===== verification/Launch.thy ===== *)
theory Launch
  imports Firm_Codec
begin

text \<open>
  Start-up of the exchange's threads: the core lists of the environment (\<open>core_for_worker\<close> of
  \<open>gateway/tcp_server.h\<close>, \<open>engine_core\<close> and \<open>aux_core\<close> of \<open>app/exchange.cpp\<close>) and the realtime
  bookkeeping of \<open>core/realtime.h\<close>. The calls that pin a thread and raise its priority are the
  operating system's; whether they succeed is an argument.
\<close>

section \<open>Core lists\<close>

text \<open>\<open>std::atoi\<close>: white space, a sign, digits; a value outside \<open>int\<close> is undefined behaviour.\<close>

definition atoi :: "bytes \<Rightarrow> int option" where
  "atoi s =
     (let s1 = dropWhile is_space s;
          (neg, s2) = (case s1 of
             c # r \<Rightarrow> if c = ch CHR ''-'' then (True, r) else if c = ch CHR ''+'' then (False, r) else (False, s1)
           | [] \<Rightarrow> (False, s1));
          v = int (digits_nat (takeWhile is_digit s2) 0);
          w = (if neg then - v else v)
      in if - (2 ^ 31) \<le> w \<and> w < 2 ^ 31 then Some w else None)"

function core_loop :: "bytes \<Rightarrow> int \<Rightarrow> int \<Rightarrow> int option" where
  "core_loop p i idx =
     (if i = idx then atoi p
      else case dropWhile (\<lambda>c. c \<noteq> ch CHR '','') p of
        [] \<Rightarrow> Some (- 1)
      | _ # rest \<Rightarrow> core_loop rest (i + 1) idx)"
  by pat_completeness auto
termination
proof (relation "measure (\<lambda>(p, i, idx). length p)", goal_cases)
  case (2 p i idx x rest)
  then show ?case using length_dropWhile_le [of "\<lambda>c. c \<noteq> ch CHR '',''" p] by simp
qed simp

declare core_loop.simps [simp del]

definition core_for_worker :: "bytes option \<Rightarrow> int \<Rightarrow> int option" where
  "core_for_worker core_list idx = (case core_list of
     None \<Rightarrow> Some (- 1)
   | Some p \<Rightarrow> if p = [] then Some (- 1) else core_loop p 0 idx)"

definition engine_core :: "bytes option \<Rightarrow> int \<Rightarrow> int option" where
  "engine_core engine_cores i = do { c \<leftarrow> core_for_worker engine_cores i; Some (if c \<ge> 0 then c else (i * 2) + 2) }"

definition aux_core :: "bytes option \<Rightarrow> int \<Rightarrow> int \<Rightarrow> int option" where
  "aux_core aux_cores i fb = do { c \<leftarrow> core_for_worker aux_cores i; Some (if c \<ge> 0 then c else fb) }"

section \<open>Realtime bookkeeping\<close>

record rt_counters =
  rt_started :: int
  rt_requested :: int
  rt_granted :: int

definition rt_init :: rt_counters where
  "rt_init = \<lparr>rt_started = 0, rt_requested = 0, rt_granted = 0\<rparr>"

text \<open>The priority from the environment, after \<open>atoi\<close>.\<close>

definition rt_priority :: "int option \<Rightarrow> int" where
  "rt_priority env = (let p = (case env of Some v \<Rightarrow> v | None \<Rightarrow> 80) in if p < 0 \<or> p > 99 then 0 else p)"

definition rt_acquire :: "int option \<Rightarrow> bool \<Rightarrow> rt_counters \<Rightarrow> bool \<times> rt_counters" where
  "rt_acquire env kernel_grants r =
     (let r = r\<lparr>rt_started := rt_started r + 1\<rparr> in
      if rt_priority env = 0 then (False, r)
      else let r = r\<lparr>rt_requested := rt_requested r + 1\<rparr> in
        if \<not> kernel_grants then (False, r)
        else (True, r\<lparr>rt_granted := rt_granted r + 1\<rparr>))"

text \<open>\<open>await\<close>: \<open>seen i\<close> is what the \<open>i\<close>-th load of the counter returns; the result is the number of naps.\<close>

function rt_await :: "int \<Rightarrow> nat \<Rightarrow> (nat \<Rightarrow> int) \<Rightarrow> nat \<Rightarrow> nat" where
  "rt_await expected timeout_ms seen i =
     (if i < timeout_ms \<and> seen i < expected then rt_await expected timeout_ms seen (i + 1) else i)"
  by pat_completeness auto
termination
  by (relation "measure (\<lambda>(expected, timeout_ms, seen, i). timeout_ms - i)") auto

declare rt_await.simps [simp del]

section \<open>The core lists are read entry by entry\<close>

fun join_cores :: "bytes list \<Rightarrow> bytes" where
  "join_cores [] = []"
| "join_cores [e] = e"
| "join_cores (e # es) = e @ ch CHR '','' # join_cores es"

lemma digit_not: "is_digit c \<Longrightarrow> \<not> is_space c" "is_digit c \<Longrightarrow> c \<noteq> ch CHR '',''" "is_digit c \<Longrightarrow> c \<noteq> ch CHR ''-''" "is_digit c \<Longrightarrow> c \<noteq> ch CHR ''+''"
proof -
  assume d: "is_digit c"
  then have "\<not> c \<le> 13" by (auto simp: is_digit_def word_le_nat_alt)
  then show "\<not> is_space c" using d by (auto simp: is_digit_def is_space_def)
qed (auto simp: is_digit_def)

lemma atoi_digits:
  assumes "e \<noteq> []" "\<forall>c \<in> set e. is_digit c" "int (digits_nat e 0) < 2 ^ 31" "rest = [] \<or> \<not> is_digit (hd rest)"
  shows "atoi (e @ rest) = Some (int (digits_nat e 0))"
proof -
  obtain c r where e: "e = c # r" using assms(1) by (cases e) auto
  have c: "is_digit c" using assms(2) e by simp
  have "takeWhile is_digit (e @ rest) = e" using assms(2,4) by (cases rest) (auto simp: takeWhile_append)
  then show ?thesis using digit_not(1,3,4) [OF c] assms(3) by (simp add: atoi_def e Let_def)
qed

lemma core_loop_list:
  assumes "\<forall>e \<in> set es. e \<noteq> [] \<and> (\<forall>c \<in> set e. is_digit c) \<and> int (digits_nat e 0) < 2 ^ 31" "es \<noteq> []"
  shows "core_loop (join_cores es) i (i + int n) = Some (if n < length es then int (digits_nat (es ! n) 0) else - 1)"
  using assms
proof (induction es arbitrary: i n rule: join_cores.induct)
  case (2 e)
  have d: "dropWhile (\<lambda>c. c \<noteq> ch CHR '','') e = []" using 2 digit_not(2) by (auto simp: dropWhile_eq_Nil_conv)
  show ?case using 2 atoi_digits [of e "[]"] unfolding join_cores.simps core_loop.simps [of e] d by (cases n) simp_all
next
  case (3 e f es)
  let ?p = "e @ ch CHR '','' # join_cores (f # es)"
  have d: "dropWhile (\<lambda>c. c \<noteq> ch CHR '','') ?p = ch CHR '','' # join_cores (f # es)"
    using 3(2) digit_not(2) by (subst dropWhile_append2) auto
  show ?case
  proof (cases n)
    case 0
    have "atoi ?p = Some (int (digits_nat e 0))"
      using 3(2) by (intro atoi_digits) (auto simp: is_digit_def)
    then show ?thesis unfolding join_cores.simps core_loop.simps [of ?p] using 0 by simp
  next
    case (Suc k)
    have "core_loop ?p i (i + int n) = core_loop (join_cores (f # es)) (i + 1) (i + 1 + int k)"
      unfolding core_loop.simps [of ?p] d using Suc by (simp add: ac_simps)
    then show ?thesis using 3(1) [of "i + 1" k] 3(2) Suc by simp
  qed
qed simp

text \<open>
  The \<open>n\<close>-th entry of a comma-separated list of cores, \<open>-1\<close> when there are fewer entries or no
  list; the fallbacks of the engine and auxiliary threads follow.
\<close>

theorem core_for_worker_entry:
  assumes "\<forall>e \<in> set es. e \<noteq> [] \<and> (\<forall>c \<in> set e. is_digit c) \<and> int (digits_nat e 0) < 2 ^ 31" "es \<noteq> []"
  shows "core_for_worker (Some (join_cores es)) (int n) = Some (if n < length es then int (digits_nat (es ! n) 0) else - 1)"
    and "core_for_worker None (int n) = Some (- 1)"
    and "engine_core (Some (join_cores es)) (int n) = Some (if n < length es then int (digits_nat (es ! n) 0) else int (2 * n + 2))"
proof -
  have ne: "join_cores es \<noteq> []" using assms by (cases es rule: join_cores.cases) auto
  show one: "core_for_worker (Some (join_cores es)) (int n) = Some (if n < length es then int (digits_nat (es ! n) 0) else - 1)"
    using core_loop_list [OF assms, of 0 n] ne by (simp add: core_for_worker_def)
  show "core_for_worker None (int n) = Some (- 1)" by (simp add: core_for_worker_def)
  show "engine_core (Some (join_cores es)) (int n) = Some (if n < length es then int (digits_nat (es ! n) 0) else int (2 * n + 2))"
    by (simp add: engine_core_def one)
qed

text \<open>A trailing comma counts as one more entry, which reads as core 0.\<close>

lemma trailing_comma_is_core_0: "core_for_worker (Some (map ch ''1,3,'')) 2 = Some 0"
  by (simp add: core_for_worker_def core_loop.simps [of "[49, 44, 51, 44]"] core_loop.simps [of "[51, 44]"] core_loop.simps [of "[]"]
      atoi_def Let_def)

section \<open>The counters\<close>

definition rt_ok :: "rt_counters \<Rightarrow> bool" where
  "rt_ok r \<longleftrightarrow> 0 \<le> rt_granted r \<and> rt_granted r \<le> rt_requested r \<and> rt_requested r \<le> rt_started r"

text \<open>Every start-up is counted whether or not realtime is requested, and no grant is counted that was not requested.\<close>

lemma rt_acquire_counts:
  assumes "rt_ok r" "rt_acquire env grants r = (ok, r')"
  shows "rt_ok r'" "rt_started r' = rt_started r + 1" "ok \<longleftrightarrow> rt_granted r' = rt_granted r + 1"
    "ok \<longrightarrow> grants \<and> rt_priority env \<noteq> 0"
  using assms by (auto simp: rt_ok_def rt_acquire_def Let_def split: if_splits)

text \<open>The barrier ends, and before its timeout only when enough threads have started.\<close>

lemma rt_await_ends:
  "i \<le> timeout_ms \<Longrightarrow> rt_await expected timeout_ms seen i \<le> timeout_ms \<and>
    (rt_await expected timeout_ms seen i < timeout_ms \<longrightarrow> expected \<le> seen (rt_await expected timeout_ms seen i))"
proof (induction expected timeout_ms seen i rule: rt_await.induct)
  case (1 expected timeout_ms seen i)
  then show ?case by (cases "i < timeout_ms \<and> seen i < expected") (auto simp: rt_await.simps [of expected timeout_ms seen i])
qed

end
