(* ===== verification/Tools_Replay_Main.thy ===== *)
theory Tools_Replay_Main
  imports Tools_Replay Launch
begin

text \<open>
  \<open>main\<close> of the replay tool (\<open>hft_engine/src/tools/replay.cpp\<close>) around the dealing of theory
  \<open>Tools_Replay\<close>: the arguments, the order file, the connections and the exit code. The answers
  of the operating system are inputs; a write to a closed connection returns its error instead
  of ending the process by a signal.
\<close>

section \<open>The program\<close>

text \<open>\<open>std::stoi\<close>: like \<open>atoi\<close>, but it throws without a digit and outside \<open>int\<close>.\<close>

definition stoi :: "bytes \<Rightarrow> int option" where
  "stoi s =
     (let s1 = dropWhile is_space s;
          s2 = (case s1 of c # r \<Rightarrow> if c = ch CHR ''-'' \<or> c = ch CHR ''+'' then r else s1 | [] \<Rightarrow> s1)
      in if takeWhile is_digit s2 = [] then None else atoi s)"

record replay_world =
  rw_args :: "bytes list"
  rw_connections :: "bytes option"
  rw_file :: "bytes option"
  rw_stat :: bool
  rw_mmap :: bool
  rw_socket :: "nat \<Rightarrow> bool"
  rw_connect :: "nat \<Rightarrow> bool"
  rw_kernel :: "nat \<Rightarrow> send_result list"

text \<open>\<open>REPLAY_CONNECTIONS\<close>: four if unset, at least one; a number outside \<open>int\<close> is undefined.\<close>

definition replay_conns :: "bytes option \<Rightarrow> nat option" where
  "replay_conns env = do {
     n \<leftarrow> (case env of Some s \<Rightarrow> atoi s | None \<Rightarrow> Some 4);
     Some (nat (if n < 1 then 1 else n)) }"

definition connect_gateway :: "replay_world \<Rightarrow> nat \<Rightarrow> replay_sock option" where
  "connect_gateway w i = (if \<not> rw_socket w i then None
     else if \<not> rw_connect w i then None
     else Some \<lparr> rk_kernel = rw_kernel w i, rk_wire = [] \<rparr>)"

fun connect_all :: "replay_world \<Rightarrow> nat list \<Rightarrow> replay_sock list \<Rightarrow> replay_sock list option" where
  "connect_all w [] socks = Some socks"
| "connect_all w (i # is) socks = (case connect_gateway w i of
     None \<Rightarrow> None
   | Some s \<Rightarrow> connect_all w is (socks @ [s]))"

text \<open>The exit, with the connections as they were left: a code, or the uncaught exception of \<open>stoi\<close>.\<close>

datatype replay_exit = Exit nat "replay_sock list" | Uncaught

definition replay_main :: "replay_world \<Rightarrow> replay_exit option" where
  "replay_main w =
     (case rw_args w of
        [] \<Rightarrow> Some (Exit 1 [])
      | file_path # rest \<Rightarrow>
          if length rest \<ge> 2 \<and> stoi (rest ! 1) = None then Some Uncaught
          else do {
            num_conns \<leftarrow> replay_conns (rw_connections w);
            (case rw_file w of
               None \<Rightarrow> Some (Exit 1 [])
             | Some data \<Rightarrow>
                 if \<not> rw_stat w then Some (Exit 1 [])
                 else if length data div order_size = 0 then Some (Exit 1 [])
                 else if \<not> rw_mmap w then Some (Exit 1 [])
                 else (case connect_all w [0 ..< num_conns] [] of
                         None \<Rightarrow> Some (Exit 1 [])
                       | Some socks \<Rightarrow> do { (code, socks) \<leftarrow> replay data socks; Some (Exit code socks) })) })"

section \<open>The exit code\<close>

lemma connect_all_up:
  "connect_all w is socks = (if \<forall>i \<in> set is. rw_socket w i \<and> rw_connect w i
     then Some (socks @ map (\<lambda>i. \<lparr> rk_kernel = rw_kernel w i, rk_wire = [] \<rparr>) is) else None)"
  by (induction "is" arbitrary: socks) (auto simp: connect_gateway_def)

lemma replay_conns_pos: "replay_conns env = Some n \<Longrightarrow> 0 < n"
  by (auto simp: replay_conns_def bind_eq_Some_conv)

text \<open>What the tool needs to start sending.\<close>

definition replay_ready :: "replay_world \<Rightarrow> nat \<Rightarrow> bytes \<Rightarrow> bool" where
  "replay_ready w n data \<longleftrightarrow> rw_args w \<noteq> [] \<and> (length (rw_args w) > 2 \<longrightarrow> stoi (rw_args w ! 2) \<noteq> None)
     \<and> rw_file w = Some data \<and> rw_stat w \<and> order_size \<le> length data \<and> rw_mmap w
     \<and> (\<forall>i < n. rw_socket w i \<and> rw_connect w i)"

lemma replay_main_ready:
  assumes "replay_conns (rw_connections w) = Some n" "replay_ready w n data"
  shows "replay_main w = map_option (\<lambda>(code, socks). Exit code socks) (replay data (map (\<lambda>i. \<lparr> rk_kernel = rw_kernel w i, rk_wire = [] \<rparr>) [0 ..< n]))"
proof -
  obtain f rest where args: "rw_args w = f # rest" using assms(2) by (cases "rw_args w") (auto simp: replay_ready_def)
  have "stoi (rest ! 1) \<noteq> None" if "length rest \<ge> 2" using assms(2) that args by (auto simp: replay_ready_def)
  moreover have "length data div order_size \<noteq> 0"
    using assms(2) by (simp add: replay_ready_def div_eq_0_iff order_size_def sizeof_OuchEnterOrder_def)
  ultimately show ?thesis
    using assms by (cases "replay data (map (\<lambda>i. \<lparr> rk_kernel = rw_kernel w i, rk_wire = [] \<rparr>) [0 ..< n])")
      (auto simp: replay_main_def args replay_ready_def connect_all_up)
qed

lemma replay_main_deals:
  assumes n: "replay_conns (rw_connections w) = Some n" and ready: "replay_ready w n data"
    and progress: "\<forall>i < n. length data \<le> progress (rw_kernel w i)"
  shows "\<exists>code socks. replay_main w = Some (Exit code socks) \<and> length socks = n
    \<and> (\<forall>c < n. prefix (rk_wire (socks ! c)) (dealt data n (length data div order_size) c))
    \<and> (code = 0 \<longrightarrow> (\<forall>c < n. rk_wire (socks ! c) = dealt data n (length data div order_size) c))
    \<and> ((\<forall>c < n. \<forall>k \<in> set (rw_kernel w c). sound_answer k) \<longrightarrow> code = 0)"
proof -
  define s0 where "s0 = map (\<lambda>i. \<lparr> rk_kernel = rw_kernel w i, rk_wire = [] \<rparr>) [0 ..< n]"
  have s0: "length s0 = n" "s0 \<noteq> []" "\<And>c. c < n \<Longrightarrow> s0 ! c = \<lparr> rk_kernel = rw_kernel w c, rk_wire = [] \<rparr>"
    using replay_conns_pos [OF n] by (simp_all add: s0_def)
  have prog: "\<forall>s \<in> set s0. length data \<le> progress (rk_kernel s)" using progress by (simp add: s0_def)
  have size: "order_size \<le> length data" using ready by (simp add: replay_ready_def)
  have sound: "(\<forall>c < n. \<forall>k \<in> set (rw_kernel w c). sound_answer k) \<Longrightarrow> \<forall>s \<in> set s0. sound_sock s"
    by (simp add: s0_def sound_sock_def)
  show ?thesis
    using replay_deals_whole_orders [OF size s0(2) prog] replay_main_ready [OF n ready] s0 sound
    unfolding s0_def [symmetric] by auto
qed

text \<open>
  C31. The replay tool's exit code can be trusted. For any arguments, file and outcome of the
  connections, with a kernel that keeps taking bytes, the tool ends. A port that is not a number
  ends it by the uncaught exception of \<open>stoi\<close>, before anything is opened. Otherwise, when the
  argument, the file, its size, the mapping, a complete order or one of the connections is
  missing, it ends with code 1 and nothing is sent; when all is there, it has opened exactly the
  configured number of connections, each was sent a prefix of the orders dealt to it, whole and
  in file order, and with exit code 0 exactly these, and the code is 0 unless a send fails.
\<close>
theorem replay_program:
  assumes n: "replay_conns (rw_connections w) = Some n"
    and progress: "\<And>data i. rw_file w = Some data \<Longrightarrow> i < n \<Longrightarrow> length data \<le> progress (rw_kernel w i)"
  shows "if length (rw_args w) > 2 \<and> stoi (rw_args w ! 2) = None then replay_main w = Some Uncaught
    else \<exists>code socks. replay_main w = Some (Exit code socks)
      \<and> (if \<exists>data. replay_ready w n data
         then length socks = n \<and> (\<exists>data. rw_file w = Some data
           \<and> (\<forall>c < n. prefix (rk_wire (socks ! c)) (dealt data n (length data div order_size) c))
           \<and> (code = 0 \<longrightarrow> (\<forall>c < n. rk_wire (socks ! c) = dealt data n (length data div order_size) c)))
           \<and> ((\<forall>c < n. \<forall>k \<in> set (rw_kernel w c). sound_answer k) \<longrightarrow> code = 0)
         else code = 1 \<and> socks = [])"
proof (cases "length (rw_args w) > 2 \<and> stoi (rw_args w ! 2) = None")
  case True
  then show ?thesis by (cases "rw_args w") (auto simp: replay_main_def)
next
  case port: False
  show ?thesis
  proof (cases "\<exists>data. replay_ready w n data")
    case True
    then obtain data where ready: "replay_ready w n data" ..
    then have contents: "rw_file w = Some data" by (simp add: replay_ready_def)
    have "\<forall>i < n. length data \<le> progress (rw_kernel w i)" using progress [OF contents] by blast
    from replay_main_deals [OF n ready this] show ?thesis using True port contents by auto
  next
    case False
    have small: "length data div order_size = 0 \<longleftrightarrow> \<not> order_size \<le> length data" for data :: bytes
      by (simp add: div_eq_0_iff order_size_def sizeof_OuchEnterOrder_def not_le)
    have "replay_main w = Some (Exit 1 [])"
      using False port n by (cases "rw_args w"; cases "rw_file w") (auto simp: replay_main_def replay_ready_def connect_all_up small)
    then show ?thesis using False port by simp
  qed
qed

text \<open>The file of three orders over two connections, and the same without the file.\<close>

definition tiny_world :: replay_world where
  "tiny_world = \<lparr> rw_args = [map ch ''f''], rw_connections = Some (map ch ''2''), rw_file = Some tiny_file, rw_stat = True, rw_mmap = True,
     rw_socket = (\<lambda>_. True), rw_connect = (\<lambda>_. True), rw_kernel = (\<lambda>_. Would_block # replicate 245 (Sent 100)) \<rparr>"

theorem replay_program_witness:
  "(\<exists>socks. replay_main tiny_world = Some (Exit 0 socks) \<and> length socks = 2 \<and> rk_wire (socks ! 1) = replicate 81 2)
    \<and> replay_main (tiny_world\<lparr> rw_file := None \<rparr>) = Some (Exit 1 [])"
proof -
  have p: "progress (replicate n (Sent 100)) = n" for n by (induction n) auto
  have n: "replay_conns (rw_connections tiny_world) = Some 2"
    by (simp add: replay_conns_def tiny_world_def atoi_def is_space_def is_digit_def word_le_nat_alt)
  have ready: "replay_ready tiny_world 2 tiny_file"
    by (simp add: replay_ready_def tiny_world_def tiny_file_def order_size_def sizeof_OuchEnterOrder_def)
  have d: "dealt tiny_file 2 (length tiny_file div order_size) 1 = replicate 81 2"
    by (simp add: dealt_def tiny_file_def order_size_def sizeof_OuchEnterOrder_def order_bytes_def upt_rec)
  have w: "rw_args tiny_world = [[102]]" "rw_file tiny_world = Some tiny_file" "rw_kernel tiny_world i = Would_block # replicate 245 (Sent 100)" for i
    by (simp_all add: tiny_world_def)
  have ex: "\<exists>data. replay_ready tiny_world 2 data" using ready by blast
  have "length tiny_file \<le> progress (rw_kernel tiny_world i)" for i by (simp add: w p tiny_file_def)
  then obtain code socks where r: "replay_main tiny_world = Some (Exit code socks)" "length socks = 2" "code = 0"
    "rk_wire (socks ! 1) = dealt tiny_file 2 (length tiny_file div order_size) 1"
    using replay_program [OF n] ex by (auto simp: w sound_answer_def)
  have gone: "rw_connections (tiny_world\<lparr> rw_file := None \<rparr>) = rw_connections tiny_world" "rw_file (tiny_world\<lparr> rw_file := None \<rparr>) = None"
    "\<not> (\<exists>data. replay_ready (tiny_world\<lparr> rw_file := None \<rparr>) 2 data)" "rw_args (tiny_world\<lparr> rw_file := None \<rparr>) = [[102]]"
    by (simp_all add: replay_ready_def w)
  have "replay_main (tiny_world\<lparr> rw_file := None \<rparr>) = Some (Exit 1 [])"
    using replay_program [of "tiny_world\<lparr> rw_file := None \<rparr>" 2] n gone by auto
  then show ?thesis using r d by auto
qed

end
