(* ===== verification/Market_Data.thy ===== *)
theory Market_Data
  imports Book_Props Firm_Codec Firm_Book
begin

text \<open>
  From the exchange's books to the firm's: the ITCH reports \<open>match_order\<close> emits
  (\<open>matching/orderbook.h\<close>), stamped and sent one datagram each by the publisher
  (\<open>market_data/publisher.h\<close>), decoded to ticks by the connector
  (\<open>network/LocalExchangeConnector.h\<close>) and applied by the book builder (\<open>data/book_builder.h\<close>).
  The theory shows that this keeps the firm's books equal to the depth of the exchange's.
\<close>

section \<open>Depth and the feed\<close>

text \<open>The shares resting at each level of an exchange book.\<close>

definition agg :: "(lkey \<Rightarrow> order list) \<Rightarrow> depth" where
  "agg B i s p = sum_list (map quantity (B (i, if s then BUY else SELL, p)))"

text \<open>One datagram per report, with the time stamps \<open>ts\<close> of the publisher and \<open>rcv\<close> of the receiver.\<close>

definition feed :: "(nat \<Rightarrow> u64) \<Rightarrow> (nat \<Rightarrow> u64) \<Rightarrow> ItchMessage list \<Rightarrow> NormalizedTick list" where
  "feed ts rcv ms = concat (map (\<lambda>k. datagram_ticks (enc_itch ((ms ! k)\<lparr>it_timestamp := ts k\<rparr>)) (\<lambda>_. rcv k)) [0 ..< length ms])"

lemma feed_Nil [simp]: "feed ts rcv [] = []"
  by (simp add: feed_def)

lemma feed_Cons [simp]:
  "feed ts rcv (m # ms) = itch_tick (m\<lparr>it_timestamp := ts 0\<rparr>) (rcv 0) # feed (\<lambda>k. ts (Suc k)) (\<lambda>k. rcv (Suc k)) ms"
proof -
  have one: "datagram_ticks (enc_itch x) (\<lambda>_. t) = [itch_tick x t]" for x t
    using datagram_round_trip [of "[x]" "\<lambda>_. t"] by simp
  have "[0 ..< length (m # ms)] = 0 # map Suc [0 ..< length ms]" by (simp add: map_Suc_upt upt_conv_Cons del: upt_Suc)
  then show ?thesis by (simp add: feed_def one comp_def)
qed

text \<open>The time stamps do not matter for the depth.\<close>

definition depth_msg :: "ItchMessage \<Rightarrow> depth \<Rightarrow> depth" where
  "depth_msg m = depth_tick (itch_tick m 0)"

lemma depth_tick_stamp: "depth_tick (itch_tick (m\<lparr>it_timestamp := t\<rparr>) r) = depth_msg m"
  by (simp add: depth_msg_def depth_tick_def itch_tick_def level_after_def fun_eq_iff)

lemma depth_feed: "fold depth_tick (feed ts rcv ms) d = fold depth_msg ms d"
  by (induction ms arbitrary: ts rcv d) (simp_all add: depth_tick_stamp)

fun msgs_fit :: "depth \<Rightarrow> ItchMessage list \<Rightarrow> bool" where
  "msgs_fit d [] = True"
| "msgs_fit d (m # ms) = (tick_fits d (itch_tick m 0) \<and> msgs_fit (depth_msg m d) ms)"

lemma ticks_fit_feed: "ticks_fit d (feed ts rcv ms) = msgs_fit d ms"
proof (induction ms arbitrary: ts rcv d)
  case (Cons m ms)
  have "tick_fits d (itch_tick (m\<lparr>it_timestamp := t\<rparr>) r) = tick_fits d (itch_tick m 0)" for t r
    by (simp add: tick_fits_def itch_tick_def)
  then show ?case using Cons by (simp add: depth_tick_stamp)
qed simp

lemma msgs_fit_append: "msgs_fit d (xs @ ys) \<longleftrightarrow> msgs_fit d xs \<and> msgs_fit (fold depth_msg xs d) ys"
  by (induction xs arbitrary: d) auto

section \<open>The messages of one fill\<close>

definition set_level :: "nat \<Rightarrow> bool \<Rightarrow> nat \<Rightarrow> nat \<Rightarrow> depth \<Rightarrow> depth" where
  "set_level i s p v d = (\<lambda>j t q. if j = i \<and> t = s \<and> q = p then v else d j t q)"

definition itch_of_order :: "u8 \<Rightarrow> order \<Rightarrow> nat \<Rightarrow> nat \<Rightarrow> ItchMessage" where
  "itch_of_order type ob px qty =
     \<lparr> it_msg_type = type, it_stock_locate = word_of_nat (instrument_id ob), it_tracking_number = 0,
       it_timestamp = 0, it_internal_id = word_of_nat (internal_id ob), it_shares = word_of_nat qty,
       it_price = word_of_nat px, it_side = side_char (side ob) \<rparr>"

definition fill_msgs :: "order \<times> order \<Rightarrow> ItchMessage list" where
  "fill_msgs f = [itch_of_order (ch CHR ''E'') (snd f) (price (snd f)) (fill_qty f),
                  itch_of_order (ch CHR ''E'') (fst f) (price (snd f)) (fill_qty f)]"

lemma itch_of_append: "itch_of (xs @ ys) = itch_of xs @ itch_of ys"
  by (induction xs rule: itch_of.induct) auto

lemma itch_of_fills: "itch_of (concat (map fill_reports fs)) = concat (map fill_msgs fs)"
  by (induction fs) (auto simp: itch_of_append fill_reports_def fill_msgs_def itch_report_def itch_of_order_def drop_report_def
      exec_report_def Let_def split: prod.splits)

definition small_order :: "order \<Rightarrow> bool" where
  "small_order ob \<longleftrightarrow> instrument_id ob < NUM_INSTRUMENTS"

lemma itch_of_order_tick:
  assumes "small_order ob" "px < MAX_PRICE" "qty < 2 ^ 32"
  shows "unat (nt_instrument_id (itch_tick (itch_of_order type ob px qty) t)) = instrument_id ob"
    "unat (nt_price (itch_tick (itch_of_order type ob px qty) t)) = px"
    "unat (nt_quantity (itch_tick (itch_of_order type ob px qty) t)) = qty"
    "nt_is_bid (itch_tick (itch_of_order type ob px qty) t) \<longleftrightarrow> side ob = BUY"
    "nt_is_trade (itch_tick (itch_of_order type ob px qty) t) \<longleftrightarrow> type = ch CHR ''E''"
  using assms by (simp_all add: itch_tick_def itch_of_order_def small_order_def NUM_INSTRUMENTS_def MAX_PRICE_def unat_of_nat side_char_def)

lemma depth_msg_order:
  assumes "small_order ob" "px < MAX_PRICE" "qty < 2 ^ 32"
  shows "depth_msg (itch_of_order (ch CHR ''E'') ob px qty) d =
      set_level (instrument_id ob) (side ob = BUY) px (d (instrument_id ob) (side ob = BUY) px - qty) d"
    and "depth_msg (itch_of_order (ch CHR ''A'') ob px qty) d =
      set_level (instrument_id ob) (side ob = BUY) px (d (instrument_id ob) (side ob = BUY) px + qty) d"
  unfolding depth_msg_def depth_tick_def set_level_def itch_of_order_tick [OF assms] level_after_def
  by (auto simp: fun_eq_iff)

section \<open>The fills of a sweep\<close>

definition fills_depth :: "(order \<times> order) list \<Rightarrow> depth \<Rightarrow> depth" where
  "fills_depth fs d = fold depth_msg (concat (map fill_msgs fs)) d"

lemma fills_depth_simps:
  "fills_depth [] d = d" "fills_depth (f # fs) d = fills_depth fs (fold depth_msg (fill_msgs f) d)"
  "fills_depth (fs @ gs) d = fills_depth gs (fills_depth fs d)"
  by (simp_all add: fills_depth_def)

text \<open>A fill reduces the resting level; the level of the incoming order's side at that price is empty and stays so.\<close>

lemma fill_depth:
  assumes "small_order a" "small_order r" "price r < MAX_PRICE" "quantity r < 2 ^ 32"
    and "instrument_id r = instrument_id a" "side r = opposite (side a)" "d (instrument_id a) (side a = BUY) (price r) = 0"
  shows "fold depth_msg (fill_msgs (a, r)) d = set_level (instrument_id a) (side r = BUY) (price r)
    (d (instrument_id a) (side r = BUY) (price r) - fill_qty (a, r)) d"
proof -
  have q: "fill_qty (a, r) < 2 ^ 32" using assms(4) by (simp add: fill_qty_def)
  have ne: "(side a = BUY) \<noteq> (side r = BUY)" using assms(6) by (cases "side a") simp_all
  show ?thesis
    unfolding fill_msgs_def fold_simps fst_conv snd_conv depth_msg_order(1) [OF assms(1,3) q] depth_msg_order(1) [OF assms(2,3) q]
    using assms(5,7) ne by (auto simp: set_level_def fun_eq_iff)
qed

text \<open>Orders of a level: of one instrument, of the side opposite to the incoming order, at the level's price.\<close>

definition level_orders :: "order \<Rightarrow> nat \<Rightarrow> order list \<Rightarrow> bool" where
  "level_orders a p rs \<longleftrightarrow> (\<forall>r \<in> set rs. instrument_id r = instrument_id a \<and> side r = opposite (side a) \<and> price r = p \<and> quantity r < 2 ^ 32)"

lemma set_level_twice [simp]: "set_level i s p v (set_level i s p w d) = set_level i s p v d"
  by (auto simp: set_level_def fun_eq_iff)

lemma match_depth:
  assumes "spec_match a rs = (a1, rs1, fs, st)" "small_order a" "p < MAX_PRICE" "level_orders a p rs"
    and "rs \<noteq> [] \<Longrightarrow> d (instrument_id a) (side a = BUY) p = 0"
    and "d (instrument_id a) (opposite (side a) = BUY) p = sum_list (map quantity rs)"
  shows "fills_depth fs d = set_level (instrument_id a) (opposite (side a) = BUY) p (sum_list (map quantity rs1)) d"
  using assms
proof (induction rs arbitrary: a fs d)
  case Nil
  then show ?case by (auto simp: fills_depth_simps set_level_def fun_eq_iff)
next
  case (Cons r rs)
  let ?i = "instrument_id a" and ?s = "opposite (side a) = BUY"
  have r: "small_order r" "price r = p" "quantity r < 2 ^ 32" "instrument_id r = ?i" "side r = opposite (side a)"
    using Cons.prems(2,4) by (auto simp: level_orders_def small_order_def)
  have ne: "(side a = BUY) \<noteq> ?s" by (cases "side a") simp_all
  have one: "fold depth_msg (fill_msgs (a, r)) d = set_level ?i ?s p (d ?i ?s p - fill_qty (a, r)) d"
    using fill_depth [of a r d] Cons.prems(2,3,5) r by simp
  from Cons.prems(1) show ?case
  proof (cases rule: spec_match_ConsE)
    case idle
    then show ?thesis using Cons.prems(6) by (auto simp: fills_depth_simps set_level_def fun_eq_iff)
  next
    case part
    then show ?thesis using one Cons.prems(6) by (simp add: fills_depth_simps fill_qty_def)
  next
    case (full fs2)
    define d1 where "d1 = set_level ?i ?s p (sum_list (map quantity rs)) d"
    have d1: "fold depth_msg (fill_msgs (a, r)) d = d1"
      using one Cons.prems(6) full(3) by (simp add: fill_qty_def d1_def)
    have "fills_depth fs2 d1 = set_level ?i ?s p (sum_list (map quantity rs1)) d1"
      using Cons.IH [OF full(4), of d1] Cons.prems(2-5) ne by (auto simp: small_order_def level_orders_def d1_def set_level_def)
    then show ?thesis by (simp add: full(5) fills_depth_simps d1) (simp add: d1_def)
  qed
qed

lemma sweep_depth:
  assumes "sweep a ps B = (a1, B1, fs, st)" "distinct ps" "small_order a" "\<forall>p \<in> set ps. p < MAX_PRICE \<and> level_orders a p (B p)"
    and "\<forall>p \<in> set ps. B p \<noteq> [] \<longrightarrow> d (instrument_id a) (side a = BUY) p = 0"
    and "\<forall>p \<in> set ps. d (instrument_id a) (opposite (side a) = BUY) p = sum_list (map quantity (B p))"
  shows "fills_depth fs d = (\<lambda>i s p. if i = instrument_id a \<and> s = (opposite (side a) = BUY) \<and> p \<in> set ps
    then sum_list (map quantity (B1 p)) else d i s p)"
  using assms
proof (induction ps arbitrary: a B fs d)
  case Nil
  then show ?case by (simp add: fills_depth_simps)
next
  case (Cons p ps)
  let ?s = "opposite (side a) = BUY"
  obtain a' rs' fs' st' where m: "spec_match a (B p) = (a', rs', fs', st')" by (cases "spec_match a (B p)")
  obtain q where a': "a' = a\<lparr> quantity := q \<rparr>" using spec_match_fields [OF m] by blast
  define d1 where "d1 = set_level (instrument_id a) ?s p (sum_list (map quantity rs')) d"
  have d1: "fills_depth fs' d = d1"
    unfolding d1_def using Cons.prems by (intro match_depth [OF m]) auto
  have ne: "(side a = BUY) \<noteq> ?s" by (cases "side a") simp_all
  show ?case
  proof (cases st')
    case True
    then have "fs = fs'" "B1 = B(p := rs')" using Cons.prems(1) m by auto
    then show ?thesis using d1 Cons.prems(2,6) by (auto simp: d1_def set_level_def fun_eq_iff)
  next
    case False
    then obtain fs2 where w: "sweep a' ps (B(p := rs')) = (a1, B1, fs2, st)" "fs = fs' @ fs2"
      using Cons.prems(1) m by (auto split: prod.splits)
    have "fills_depth fs2 d1 = (\<lambda>i s q. if i = instrument_id a' \<and> s = (opposite (side a') = BUY) \<and> q \<in> set ps
      then sum_list (map quantity (B1 q)) else d1 i s q)"
      using Cons.prems(2-6) a' ne
      by (intro Cons.IH [OF w(1)]) (auto simp: d1_def set_level_def level_orders_def small_order_def)
    moreover have "B1 p = rs'" using sweep_other [OF _ w(1), of p] Cons.prems(2) by simp
    ultimately show ?thesis
      using a' Cons.prems(2) by (auto simp: w(2) fills_depth_simps d1 d1_def set_level_def fun_eq_iff)
  qed
qed

section \<open>One order\<close>

lemma spec_match_fst:
  "spec_match a rs = (a1, rs1, fs, st) \<Longrightarrow> f \<in> set fs \<Longrightarrow> instrument_id (fst f) = instrument_id a \<and> snd f \<in> set rs"
proof (induction rs arbitrary: a fs)
  case (Cons r rs)
  from Cons.prems(1) show ?case
  proof (cases rule: spec_match_ConsE)
    case (full fs2)
    then show ?thesis using Cons.IH [OF full(4)] Cons.prems(2) by auto
  qed (use Cons.prems(2) in auto)
qed simp

lemma fills_fit:
  assumes "\<forall>f \<in> set fs. small_order (fst f) \<and> small_order (snd f) \<and> price (snd f) < MAX_PRICE \<and> quantity (snd f) < 2 ^ 32"
  shows "msgs_fit d (concat (map fill_msgs fs))"
  using assms
proof (induction fs arbitrary: d)
  case (Cons f fs)
  have q: "fill_qty f < 2 ^ 32" using Cons.prems by (simp add: fill_qty_def min.strict_coboundedI2)
  have "tick_fits d' (itch_tick (itch_of_order (ch CHR ''E'') ob (price (snd f)) (fill_qty f)) 0)" if "small_order ob" for d' ob
    using itch_of_order_tick [OF that _ q, of "price (snd f)"] Cons.prems
    by (simp add: tick_fits_def MAX_PRICE_LEVELS_def MAX_PRICE_def)
  then have "msgs_fit d' (fill_msgs f)" for d' using Cons.prems unfolding fill_msgs_def by simp
  then show ?case using Cons by (simp add: msgs_fit_append)
qed simp

text \<open>What the exchange's invariant says of its books.\<close>

definition book_state :: "(lkey \<Rightarrow> order list) \<Rightarrow> bool" where
  "book_state B \<longleftrightarrow> uncrossed B \<and> (\<forall>k. \<forall>r \<in> set (B k). rests_at k r) \<and> (\<forall>i s p. MAX_PRICE \<le> p \<longrightarrow> B (i, s, p) = [])"

lemma agg_member:
  assumes "r \<in> set (B k)" "k = (i, s, p)"
  shows "quantity r \<le> agg B i (s = BUY) p"
proof -
  have "quantity r \<le> sum_list (map quantity (B k))" using assms(1) by (simp add: member_le_sum_list)
  then show ?thesis using assms(2) by (cases s) (simp_all add: agg_def)
qed

lemma agg_side: "agg B i (s = BUY) p = sum_list (map quantity (B (i, s, p)))"
  by (cases s) (simp_all add: agg_def)

lemma order_fills_depth:
  assumes w: "sweep ob (crossing (side ob) (price ob)) (side_view B (instrument_id ob) (opposite (side ob))) = (a, L, fs, st)"
    and B: "book_state B" and ob: "small_order ob" "price ob < MAX_PRICE" and small: "\<forall>i s p. agg B i s p < 2 ^ 32"
  shows "fold depth_msg (concat (map fill_msgs fs)) (agg B) = agg (set_side B (instrument_id ob) (opposite (side ob)) L)"
    and "msgs_fit d (concat (map fill_msgs fs))" "quantity a \<le> quantity ob"
proof -
  let ?i = "instrument_id ob" and ?o = "opposite (side ob)" and ?ps = "crossing (side ob) (price ob)"
  let ?V = "side_view B ?i ?o"
  have range: "p < MAX_PRICE" if "p \<in> set ?ps" for p using that ob(2) by (auto simp: set_crossing split: if_splits)
  have lv: "level_orders ob p (?V p)" for p
    using B small agg_member [of _ B "(?i, ?o, p)" ?i ?o p]
    by (fastforce simp: book_state_def level_orders_def side_view_def rests_at_def intro: le_less_trans)
  have pos: "0 < quantity r" if "r \<in> set (?V p)" for r p using B that by (auto simp: book_state_def side_view_def rests_at_def)
  have "agg B ?i (side ob = BUY) p = 0" if "?V p \<noteq> []" for p
  proof -
    have "B (?i, side ob, p) = []"
      using B that unfolding book_state_def uncrossed_def side_view_def by (cases "side ob") fastforce+
    then show ?thesis by (simp add: agg_side)
  qed
  moreover have "agg B ?i (?o = BUY) p = sum_list (map quantity (?V p))" for p by (simp add: agg_side side_view_def)
  ultimately have "fills_depth fs (agg B) = (\<lambda>i s p. if i = ?i \<and> s = (?o = BUY) \<and> p \<in> set ?ps
    then sum_list (map quantity (L p)) else agg B i s p)"
    using sweep_depth [OF w distinct_crossing ob(1)] range lv by blast
  moreover have "L p = ?V p" if "p \<notin> set ?ps" for p using sweep_other [OF that w] .
  ultimately show "fold depth_msg (concat (map fill_msgs fs)) (agg B) = agg (set_side B ?i ?o L)"
    by (cases ?o) (auto simp: fills_depth_def fun_eq_iff agg_def set_side_def side_view_def)
  have all: "spec_match ob (concat (map ?V ?ps)) = (a, concat (map L ?ps), fs, st)"
    by (rule sweep_fills [OF distinct_crossing _ w]) (use pos in blast)
  then show "quantity a \<le> quantity ob" using spec_match_conserves [OF all] by simp
  have "small_order (fst f) \<and> small_order (snd f) \<and> price (snd f) < MAX_PRICE \<and> quantity (snd f) < 2 ^ 32" if "f \<in> set fs" for f
  proof -
    note f = spec_match_fst [OF all that]
    have "snd f \<in> (\<Union>p \<in> set ?ps. set (?V p))" using f by (simp only: set_concat set_map image_image)
    then obtain p where p: "p \<in> set ?ps" "snd f \<in> set (?V p)" by blast
    have "instrument_id (snd f) = ?i \<and> price (snd f) = p \<and> quantity (snd f) < 2 ^ 32"
      using lv [of p, unfolded level_orders_def] p(2) by blast
    then show ?thesis using f range [OF p(1)] ob(1) unfolding small_order_def by metis
  qed
  then show "msgs_fit d (concat (map fill_msgs fs))" by (intro fills_fit) blast
qed

lemma order_feed:
  assumes sp: "spec_order B ob = (B1, reps)" and B: "book_state B" and ob: "small_order ob"
    and small: "\<forall>i s p. agg B i s p + quantity ob < 2 ^ 32"
  shows "fold depth_msg (itch_of reps) (agg B) = agg B1 \<and> msgs_fit (agg B) (itch_of reps)"
proof (cases "price ob < MAX_PRICE")
  case True
  let ?i = "instrument_id ob" and ?o = "opposite (side ob)"
  obtain a L fs st where w: "sweep ob (crossing (side ob) (price ob)) (side_view B ?i ?o) = (a, L, fs, st)" by (metis prod_cases4)
  define B2 where "B2 = set_side B ?i ?o L"
  have "\<forall>i s p. agg B i s p < 2 ^ 32" using small by (meson add_lessD1)
  note fills = order_fills_depth [OF w B ob True this, folded B2_def]
  obtain q where a: "a = ob\<lparr> quantity := q \<rparr>" using sweep_fields [OF w] by blast
  show ?thesis
  proof (cases "st \<or> quantity a = 0")
    case stop: True
    then have "B1 = B2" "itch_of reps = concat (map fill_msgs fs)"
      using sp w True by (auto simp: spec_order_def Let_def B2_def itch_of_append itch_of_fills drop_report_def split: if_splits)
    then show ?thesis using fills by simp
  next
    case False
    let ?m = "itch_of_order (ch CHR ''A'') a (price ob) q"
    let ?k = "(?i, side ob, price ob)"
    have B1: "B1 = B2(?k := B2 ?k @ [a])" and reps: "itch_of reps = concat (map fill_msgs fs) @ [?m]"
      using False sp w True a
      by (auto simp: spec_order_def Let_def B2_def itch_of_append itch_of_fills drop_report_def itch_report_def itch_of_order_def)
    have "(?i, side ob, price ob) \<noteq> (?i, ?o, p)" for p by (cases "side ob") simp_all
    then have same: "B2 ?k = B ?k" by (cases "side ob") (simp_all add: B2_def set_side_def)
    have q: "q \<le> quantity ob" "0 < q" "q < 2 ^ 32" using fills(3) False a small [rule_format, of ?i True 0] by simp_all
    have sa: "small_order a" using ob a by (simp add: small_order_def)
    have d: "agg B2 ?i (side ob = BUY) (price ob) = agg B ?i (side ob = BUY) (price ob)" by (simp add: agg_side same)
    have "depth_msg ?m (agg B2) = agg B1"
      unfolding depth_msg_order(2) [OF sa True q(3)] B1
      using a by (cases "side ob") (auto simp: set_level_def fun_eq_iff agg_def)
    moreover have "tick_fits (agg B2) (itch_tick ?m 0)"
    proof -
      have "agg B ?i (side ob = BUY) (price ob) + q < 2 ^ 32" using small q(1) by (meson add_left_mono le_less_trans)
      then show ?thesis
        using itch_of_order_tick [OF sa True q(3), of "ch CHR ''A''" 0] a q(2) d True
        by (simp add: tick_fits_def MAX_PRICE_LEVELS_def MAX_PRICE_def word_less_nat_alt)
    qed
    ultimately show ?thesis using fills by (simp add: reps msgs_fit_append)
  qed
next
  case False
  then show ?thesis using sp by (simp add: spec_order_def)
qed

lemma books_ok_state: "books_ok sh bs V P \<Longrightarrow> book_state (abook sh V)"
  using books_ok_high [of sh bs V P] shard_okD(4) [OF books_okD(1), of sh bs V P]
  by (auto simp: book_state_def uncrossed_abook books_ok_def abook_def)

section \<open>Property\<close>

text \<open>
  The firm's books follow the exchange's. Let the exchange's shard satisfy its invariant and
  the firm's book builder hold exactly the depth of the shard's books. When \<open>match_order\<close> handles
  a pending order, and the reports it emits for the market-data feed are published with any time
  stamps, one datagram each, decoded by the firm's connector and applied by its book builder, then
  every step returns and the builder holds exactly the depth of the new books; in particular its
  snapshot of every instrument shows the exchange's best bid and ask with their quantities, zero
  shares and the end of the grid where a side is empty. The levels have to stay within 32 bits.
\<close>
theorem firm_books_follow_exchange:
  assumes "books_ok sh bs V P" "n \<in> P" and laws: "flat_map_laws (>) bo" "flat_map_laws (<) ao"
    and b: "builder_rep bo ao (agg (abook sh V)) b"
    and ob: "instrument_id (mem sh n) < NUM_INSTRUMENTS" "\<forall>i s p. agg (abook sh V) i s p + quantity (mem sh n) < 2 ^ 32"
  shows "\<exists>sh1 b1 V1 reps b'. match_order sh (bs (instrument_id (mem sh n))) n = Some (sh1, b1) \<and>
    emits reps (outs sh) = Some (outs sh1) \<and> books_ok sh1 (bs(instrument_id (mem sh n) := b1)) V1 (P - {n}) \<and>
    process_ticks bo ao (feed ts rcv (itch_of reps)) b = Some b' \<and> builder_rep bo ao (agg (abook sh1 V1)) b' \<and>
    (\<forall>i. unat i < NUM_INSTRUMENTS \<longrightarrow>
      (\<exists>s. builder_get_snapshot bo ao b' i = Some s \<and> snapshot_of (agg (abook sh1 V1) (unat i)) s))"
proof -
  obtain B1 reps where sp: "spec_order (abook sh V) (ord (mem sh) n) = (B1, reps)" by (cases "spec_order (abook sh V) (ord (mem sh) n)")
  obtain sh1 b1 V1 where m: "match_order sh (bs (instrument_id (mem sh n))) n = Some (sh1, b1)" "abook sh1 V1 = B1"
    "emits reps (outs sh) = Some (outs sh1)" "books_ok sh1 (bs(instrument_id (mem sh n) := b1)) V1 (P - {n})"
    using match_order_correct [OF assms(1,2) refl sp] by (auto simp: book_step_def)
  have f: "fold depth_msg (itch_of reps) (agg (abook sh V)) = agg B1" "msgs_fit (agg (abook sh V)) (itch_of reps)"
    using order_feed [OF sp books_ok_state [OF assms(1)]] ob by (simp_all add: small_order_def)
  obtain b' where b': "process_ticks bo ao (feed ts rcv (itch_of reps)) b = Some b'" "builder_rep bo ao (agg B1) b'"
    using process_ticks_rep [OF laws b, of "feed ts rcv (itch_of reps)"] f by (auto simp: ticks_fit_feed depth_feed)
  show ?thesis using m b' builder_get_snapshot_rep [OF laws b'(2)] by blast
qed

text \<open>A sell order rests in the exchange and in the firm's book; a crossing buy is handled and both books are equal again.\<close>
theorem firm_books_follow_exchange_witness:
  "\<exists>b sh1 b1 V1 reps b'. process_ticks (assoc_map (>)) (assoc_map (<)) [sample_tick 0 100 (word_of_nat (quantity resting_sell)) False False]
      (builder_init (assoc_map (>)) (assoc_map (<))) = Some b \<and>
    match_order sample_shard (sample_books 0) 2 = Some (sh1, b1) \<and> emits reps (outs sample_shard) = Some (outs sh1) \<and>
    process_ticks (assoc_map (>)) (assoc_map (<)) (feed (\<lambda>k. 7) (\<lambda>k. 9) (itch_of reps)) b = Some b' \<and>
    builder_rep (assoc_map (>)) (assoc_map (<)) (agg (abook sh1 V1)) b'"
proof -
  obtain V where V: "books_ok sample_shard sample_books V {2}" "ord (mem sample_shard) 2 = pending_buy"
    "abook sample_shard V = (\<lambda>_. [])((0, SELL, 100) := [resting_sell])" by (rule sample_ok)
  let ?t = "sample_tick 0 100 (word_of_nat (quantity resting_sell)) False False"
  have q: "0 < quantity resting_sell" "quantity resting_sell + quantity pending_buy < 2 ^ 32" by (simp_all add: sample_orders)
  have w: "unat (word_of_nat (quantity resting_sell) :: u32) = quantity resting_sell" using q(2) by (simp add: unat_of_nat)
  have fits: "ticks_fit (\<lambda>_ _ _. 0) [?t]"
    using q w by (simp add: sample_tick_def tick_fits_def MAX_PRICE_LEVELS_def word_less_nat_alt)
  have d: "fold depth_tick [?t] (\<lambda>_ _ _. 0) = agg (abook sample_shard V)"
    using w by (auto simp: V(3) agg_def depth_tick_def level_after_def sample_tick_def fun_eq_iff)
  obtain b where b: "process_ticks (assoc_map (>)) (assoc_map (<)) [?t] (builder_init (assoc_map (>)) (assoc_map (<))) = Some b"
    "builder_rep (assoc_map (>)) (assoc_map (<)) (agg (abook sample_shard V)) b"
    using process_ticks_rep [OF assoc_maps_ok builder_init_rep [OF assoc_maps_ok] fits] unfolding d by blast
  have n: "instrument_id (mem sample_shard 2) = 0" "quantity (mem sample_shard 2) = quantity pending_buy"
    using V(2) sample_orders(2) by (metis ord_sel(4,6) order.select_convs(4,6))+
  have small: "\<forall>i s p. agg (abook sample_shard V) i s p + quantity (mem sample_shard 2) < 2 ^ 32"
    using q(2) by (auto simp: V(3) agg_def n(2))
  show ?thesis
    using firm_books_follow_exchange [OF V(1) _ assoc_maps_ok b(2) _ small, of "\<lambda>k. 7" "\<lambda>k. 9"] b(1)
    unfolding n(1) by (auto simp: NUM_INSTRUMENTS_def)
qed

end
