(* ===== verification/Firm_Listener.thy ===== *)
theory Firm_Listener
  imports Firm_Codec Firm_Connector
begin

text \<open>
  The multicast receiver of the firm (\<open>network/udp_listener.h\<close>) and the loop over it
  (\<open>start_market_data\<close> of \<open>network/LocalExchangeConnector.h\<close>): opening the socket, draining it,
  turning each datagram into ticks for the callback, and the latency report printed at the end.

  The kernel's answers are inputs: the outcome of each set-up call, one answer per \<open>recv\<close>, the
  descriptors one \<open>epoll_wait\<close> returns. A loop that needs more answers than it is given has the
  value \<open>None\<close>: it is still receiving.
\<close>

section \<open>Opening the socket\<close>

text \<open>The results of the three calls the constructor checks; the exceptions it throws.\<close>

record udp_setup =
  su_socket :: bool
  su_bind :: bool
  su_membership :: bool

datatype udp_error = No_socket | No_bind | No_membership

record UDPListener =
  ul_group :: string
  ul_port :: nat

definition open_listener :: "udp_setup \<Rightarrow> string \<Rightarrow> nat \<Rightarrow> udp_error + UDPListener" where
  "open_listener k ip port =
     (if \<not> su_socket k then Inl No_socket
      else if \<not> su_bind k then Inl No_bind
      else if \<not> su_membership k then Inl No_membership
      else Inr \<lparr> ul_group = ip, ul_port = port \<rparr>)"

section \<open>Receiving\<close>

definition UDP_BUFFER :: nat where "UDP_BUFFER = 65536"

text \<open>\<open>drain_socket\<close>: an empty datagram makes \<open>recv\<close> return zero, which ends the loop like an error does.\<close>

fun udp_drain :: "(bytes \<Rightarrow> 's \<Rightarrow> 's option) \<Rightarrow> recv_result list \<Rightarrow> 's \<Rightarrow> (recv_result list \<times> 's) option" where
  "udp_drain on_message [] s = None"
| "udp_drain on_message (k # ks) s =
     (case k of
        Received d \<Rightarrow>
          (let buffer = take UDP_BUFFER d in
           if length buffer > 0 then do { s1 \<leftarrow> on_message buffer s; udp_drain on_message ks s1 }
           else Some (ks, s))
      | Recv_empty \<Rightarrow> Some (ks, s)
      | Recv_gone \<Rightarrow> Some (ks, s))"

definition spin :: "(bytes \<Rightarrow> 's \<Rightarrow> 's option) \<Rightarrow> recv_result list \<Rightarrow> 's \<Rightarrow> (recv_result list \<times> 's) option" where
  "spin on_message ks s = udp_drain on_message ks s"

text \<open>\<open>poll\<close>: the loop over at most 16 events of \<open>epoll_wait\<close>, each with its descriptor.\<close>

fun udp_poll :: "nat \<Rightarrow> (bytes \<Rightarrow> 's \<Rightarrow> 's option) \<Rightarrow> nat list \<Rightarrow> recv_result list \<Rightarrow> 's \<Rightarrow> (recv_result list \<times> 's) option" where
  "udp_poll sock_fd on_message [] ks s = Some (ks, s)"
| "udp_poll sock_fd on_message (fd # fds) ks s =
     (if fd = sock_fd then do {
        (ks1, s1) \<leftarrow> udp_drain on_message ks s;
        udp_poll sock_fd on_message fds ks1 s1 }
      else udp_poll sock_fd on_message fds ks s)"

section \<open>Market data\<close>

text \<open>The clock readings around one tick: the cycle counter and the nanosecond clock, before and after.\<close>

record md_clock =
  mc_start_cycles :: u64
  mc_tick_start :: u64
  mc_tick_end :: u64
  mc_end_cycles :: u64

text \<open>The locals of \<open>start_market_data\<close>, with the state the callback works on.\<close>

record 's market_data =
  md_state :: 's
  md_latencies_ns :: "u64 list"
  md_latencies_cycles :: "u64 list"
  md_total_ticks :: nat

definition market_data_init :: "'s \<Rightarrow> 's market_data" where
  "market_data_init s = \<lparr> md_state = s, md_latencies_ns = [], md_latencies_cycles = [], md_total_ticks = 0 \<rparr>"

definition md_tick :: "(NormalizedTick \<Rightarrow> 's \<Rightarrow> 's option) \<Rightarrow> (nat \<Rightarrow> md_clock) \<Rightarrow> ItchMessage \<Rightarrow> 's market_data \<Rightarrow> 's market_data option" where
  "md_tick on_tick clk raw m =
     (let c = clk (md_total_ticks m) in do {
        s \<leftarrow> on_tick (itch_tick raw (mc_start_cycles c)) (md_state m);
        Some (m\<lparr> md_state := s,
                md_latencies_ns := md_latencies_ns m @ [mc_tick_end c - mc_tick_start c],
                md_latencies_cycles := md_latencies_cycles m @ [mc_end_cycles c - mc_start_cycles c],
                md_total_ticks := md_total_ticks m + 1 \<rparr>) })"

fun md_loop :: "(NormalizedTick \<Rightarrow> 's \<Rightarrow> 's option) \<Rightarrow> (nat \<Rightarrow> md_clock) \<Rightarrow> bytes \<Rightarrow> nat list \<Rightarrow> 's market_data \<Rightarrow> 's market_data option" where
  "md_loop on_tick clk buf [] m = Some m"
| "md_loop on_tick clk buf (i # is) m = do {
     m1 \<leftarrow> md_tick on_tick clk (dec_itch (take sizeof_ItchMessage (drop (i * sizeof_ItchMessage) buf))) m;
     md_loop on_tick clk buf is m1 }"

definition md_message :: "(NormalizedTick \<Rightarrow> 's \<Rightarrow> 's option) \<Rightarrow> (nat \<Rightarrow> md_clock) \<Rightarrow> bytes \<Rightarrow> 's market_data \<Rightarrow> 's market_data option" where
  "md_message on_tick clk buf m = md_loop on_tick clk buf [0 ..< length buf div sizeof_ItchMessage] m"

text \<open>\<open>while (global_running) udp_listener->spin(..)\<close>: \<open>n\<close> passes. Without a listener the call returns at once.\<close>

fun md_passes :: "(NormalizedTick \<Rightarrow> 's \<Rightarrow> 's option) \<Rightarrow> (nat \<Rightarrow> md_clock) \<Rightarrow> nat \<Rightarrow> recv_result list \<Rightarrow> 's market_data \<Rightarrow>
    (recv_result list \<times> 's market_data) option" where
  "md_passes on_tick clk 0 ks m = Some (ks, m)"
| "md_passes on_tick clk (Suc n) ks m = do {
     (ks1, m1) \<leftarrow> spin (md_message on_tick clk) ks m;
     md_passes on_tick clk n ks1 m1 }"

definition start_market_data :: "UDPListener option \<Rightarrow> (NormalizedTick \<Rightarrow> 's \<Rightarrow> 's option) \<Rightarrow> (nat \<Rightarrow> md_clock) \<Rightarrow> nat \<Rightarrow>
    recv_result list \<Rightarrow> 's \<Rightarrow> (recv_result list \<times> 's market_data) option" where
  "start_market_data listener on_tick clk n ks s =
     (case listener of
        None \<Rightarrow> Some (ks, market_data_init s)
      | Some _ \<Rightarrow> md_passes on_tick clk n ks (market_data_init s))"

section \<open>The report at the end\<close>

text \<open>
  \<open>fr k n\<close> stands for the index \<open>n * (k / 1000)\<close> computed in double precision and truncated. The
  last index \<open>n - 1\<close> is computed on \<open>size_t\<close>.
\<close>

definition last_index :: "nat \<Rightarrow> nat" where
  "last_index n = (n + 2 ^ 64 - 1) mod 2 ^ 64"

definition latency_percentiles :: "(nat \<Rightarrow> nat \<Rightarrow> nat) \<Rightarrow> 'a list \<Rightarrow> nat \<Rightarrow> 'a list option" where
  "latency_percentiles fr s n = do {
     p50 \<leftarrow> list_get s (fr 500 n);
     p90 \<leftarrow> list_get s (fr 900 n);
     p99 \<leftarrow> list_get s (fr 990 n);
     p999 \<leftarrow> list_get s (fr 999 n);
     mx \<leftarrow> list_get s (last_index n);
     Some [p50, p90, p99, p999, mx] }"

definition occupancy_percentiles :: "(nat \<Rightarrow> nat \<Rightarrow> nat) \<Rightarrow> nat list \<Rightarrow> nat \<Rightarrow> nat list option" where
  "occupancy_percentiles fr s sent = do {
     p50 \<leftarrow> list_get s (fr 500 sent);
     p90 \<leftarrow> list_get s (fr 900 sent);
     p99 \<leftarrow> list_get s (fr 990 sent);
     mx \<leftarrow> list_get s (last_index sent);
     Some [p50, p90, p99, mx] }"

record md_report =
  mr_ticks :: nat
  mr_average_ns :: nat
  mr_latency_ns :: "u64 list"
  mr_latency_cycles :: "u64 list"
  mr_breakdown :: "u64 list"
  mr_occupancy :: "nat list"

text \<open>An access outside a vector is the outer \<open>None\<close>; without a tick nothing is printed.\<close>

definition print_md_report :: "(nat \<Rightarrow> nat \<Rightarrow> nat) \<Rightarrow> nat \<Rightarrow> 's market_data \<Rightarrow> LocalExchangeConnector \<Rightarrow> md_report option option" where
  "print_md_report fr total_runtime_ns m c =
     (if md_latencies_ns m = [] then Some None
      else (let ns = sort (md_latencies_ns m); cyc = sort (md_latencies_cycles m); n = length ns;
                sent = lc_total_orders_sent c in do {
        pn \<leftarrow> latency_percentiles fr ns n;
        pc \<leftarrow> latency_percentiles fr cyc n;
        po \<leftarrow> (if lc_occupancies c = [] then Some []
              else occupancy_percentiles fr (sort (lc_occupancies c)) (unat sent));
        Some (Some \<lparr> mr_ticks = n, mr_average_ns = total_runtime_ns div md_total_ticks m, mr_latency_ns = pn, mr_latency_cycles = pc,
          mr_breakdown = (if sent > 0 then [lc_total_enqueue_cycles c div sent, lc_total_dequeue_cycles c div sent,
             lc_total_serialize_cycles c div sent, lc_total_send_cycles c div sent] else []),
          mr_occupancy = po \<rparr>) }))"

section \<open>Datagrams and ticks\<close>

text \<open>The ticks of messages received from the \<open>k\<close>-th clock reading on, and the callback run over them.\<close>

fun ticks_from :: "(nat \<Rightarrow> md_clock) \<Rightarrow> nat \<Rightarrow> ItchMessage list \<Rightarrow> NormalizedTick list" where
  "ticks_from clk k [] = []"
| "ticks_from clk k (x # xs) = itch_tick x (mc_start_cycles (clk k)) # ticks_from clk (Suc k) xs"

fun run_ticks :: "(NormalizedTick \<Rightarrow> 's \<Rightarrow> 's option) \<Rightarrow> NormalizedTick list \<Rightarrow> 's \<Rightarrow> 's option" where
  "run_ticks on_tick [] s = Some s"
| "run_ticks on_tick (t # ts) s = Option.bind (on_tick t s) (run_ticks on_tick ts)"

lemma ticks_from_append: "ticks_from clk k (xs @ ys) = ticks_from clk k xs @ ticks_from clk (k + length xs) ys"
  by (induction xs arbitrary: k) auto

lemma run_ticks_append: "run_ticks f (xs @ ys) s = Option.bind (run_ticks f xs s) (run_ticks f ys)"
proof (induction xs arbitrary: s)
  case (Cons x xs)
  then show ?case by (cases "f x s") auto
qed simp

text \<open>What handling some messages leaves: the callback ran on their ticks, and one latency was recorded for each.\<close>

definition md_after :: "(NormalizedTick \<Rightarrow> 's \<Rightarrow> 's option) \<Rightarrow> (nat \<Rightarrow> md_clock) \<Rightarrow> ItchMessage list \<Rightarrow> 's market_data \<Rightarrow> 's market_data \<Rightarrow> bool" where
  "md_after on_tick clk ms m m1 \<longleftrightarrow>
     run_ticks on_tick (ticks_from clk (md_total_ticks m) ms) (md_state m) = Some (md_state m1)
     \<and> md_total_ticks m1 = md_total_ticks m + length ms
     \<and> md_latencies_ns m1 = md_latencies_ns m @ map (\<lambda>k. mc_tick_end (clk k) - mc_tick_start (clk k)) [md_total_ticks m ..< md_total_ticks m1]
     \<and> md_latencies_cycles m1 = md_latencies_cycles m @ map (\<lambda>k. mc_end_cycles (clk k) - mc_start_cycles (clk k)) [md_total_ticks m ..< md_total_ticks m1]"

lemma md_after_refl: "md_after on_tick clk [] m m"
  by (simp add: md_after_def)

lemma md_after_trans:
  assumes "md_after on_tick clk xs m m1" and "md_after on_tick clk ys m1 m2"
  shows "md_after on_tick clk (xs @ ys) m m2"
proof -
  have "md_total_ticks m1 = md_total_ticks m + length xs" "md_total_ticks m2 = md_total_ticks m + length xs + length ys"
    using assms by (auto simp: md_after_def)
  then have "map f [md_total_ticks m ..< md_total_ticks m1] @ map f [md_total_ticks m1 ..< md_total_ticks m2] = map f [md_total_ticks m ..< md_total_ticks m2]"
    for f :: "nat \<Rightarrow> u64"
    using upt_add_eq_append [of "md_total_ticks m" "md_total_ticks m1" "length ys"] by simp
  then show ?thesis using assms unfolding md_after_def by (simp add: ticks_from_append run_ticks_append)
qed

text \<open>The messages of a stretch of datagrams can be handled exactly when the callback can handle their ticks.\<close>

lemma md_tick_after:
  assumes "on_tick (itch_tick raw (mc_start_cycles (clk (md_total_ticks m)))) (md_state m) = Some s"
  shows "\<exists>m1. md_tick on_tick clk raw m = Some m1 \<and> md_after on_tick clk [raw] m m1"
  using assms by (simp add: md_tick_def md_after_def Let_def)

lemma md_loop_after:
  assumes "run_ticks on_tick (ticks_from clk (md_total_ticks m) (map (\<lambda>i. dec_itch (take sizeof_ItchMessage (drop (i * sizeof_ItchMessage) buf))) is))
      (md_state m) = Some s"
  shows "\<exists>m1. md_loop on_tick clk buf is m = Some m1 \<and> md_after on_tick clk
      (map (\<lambda>i. dec_itch (take sizeof_ItchMessage (drop (i * sizeof_ItchMessage) buf))) is) m m1"
  using assms
proof (induction "is" arbitrary: m)
  case (Cons i js)
  let ?dec = "\<lambda>i. dec_itch (take sizeof_ItchMessage (drop (i * sizeof_ItchMessage) buf))"
  obtain s1 where s1: "on_tick (itch_tick (?dec i) (mc_start_cycles (clk (md_total_ticks m)))) (md_state m) = Some s1"
    "run_ticks on_tick (ticks_from clk (Suc (md_total_ticks m)) (map ?dec js)) s1 = Some s"
    using Cons.prems by (auto split: Option.bind_splits)
  obtain m1 where m1: "md_tick on_tick clk (?dec i) m = Some m1" "md_after on_tick clk [?dec i] m m1"
    using md_tick_after [where on_tick = on_tick and clk = clk, OF s1(1)] by blast
  then have "md_total_ticks m1 = Suc (md_total_ticks m)" "md_state m1 = s1" using s1(1) by (simp_all add: md_after_def)
  with Cons.IH [of m1] s1(2) obtain m2 where "md_loop on_tick clk buf js m1 = Some m2" "md_after on_tick clk (map ?dec js) m1 m2"
    by auto
  then show ?case using m1 md_after_trans [of on_tick clk "[?dec i]" m m1 "map ?dec js" m2] by auto
qed (simp add: md_after_refl)

definition datagram :: "ItchMessage list \<Rightarrow> bytes" where
  "datagram ms = concat (map enc_itch ms)"

lemma datagram_decodes:
  "map (\<lambda>i. dec_itch (take sizeof_ItchMessage (drop (i * sizeof_ItchMessage) (datagram ms)))) [0 ..< length (datagram ms) div sizeof_ItchMessage] = ms"
proof (cases "ms = []")
  case False
  have len: "\<forall>f \<in> set (map enc_itch ms). length f = sizeof_ItchMessage" by simp
  have pos: "0 < sizeof_ItchMessage" by (simp add: sizeof_ItchMessage_def)
  have n: "length (datagram ms) div sizeof_ItchMessage = length ms"
    using chunks_of_concat(2) [OF len _ pos, of 0] False by (simp add: datagram_def)
  show ?thesis
    unfolding n using chunks_of_concat(1) [OF len _ pos] by (intro nth_equalityI) (simp_all add: datagram_def itch_dec_enc)
qed (simp add: datagram_def)

lemma md_message_after:
  assumes "run_ticks on_tick (ticks_from clk (md_total_ticks m) ms) (md_state m) = Some s"
  shows "\<exists>m1. md_message on_tick clk (datagram ms) m = Some m1 \<and> md_after on_tick clk ms m m1"
  using md_loop_after [of on_tick clk m "datagram ms" "[0 ..< length (datagram ms) div sizeof_ItchMessage]" s] assms
  unfolding md_message_def datagram_decodes by blast

definition fits_buffer :: "ItchMessage list \<Rightarrow> bool" where
  "fits_buffer ms \<longleftrightarrow> ms \<noteq> [] \<and> length ms * sizeof_ItchMessage \<le> UDP_BUFFER"

lemma length_datagram: "length (datagram ms) = length ms * sizeof_ItchMessage"
  by (induction ms) (simp_all add: datagram_def)

text \<open>What a socket with pending datagrams answers: them in order, and then that it is empty.\<close>

definition pending :: "ItchMessage list list \<Rightarrow> recv_result list" where
  "pending ds = map (Received \<circ> datagram) ds @ [Recv_empty]"

lemma spin_after:
  assumes "\<forall>d \<in> set ds. fits_buffer d"
    and "run_ticks on_tick (ticks_from clk (md_total_ticks m) (concat ds)) (md_state m) = Some s"
  shows "\<exists>m1. spin (md_message on_tick clk) (pending ds @ ks) m = Some (ks, m1) \<and> md_after on_tick clk (concat ds) m m1"
  using assms
proof (induction ds arbitrary: m)
  case Nil
  then show ?case by (simp add: spin_def pending_def md_after_refl)
next
  case (Cons d ds)
  have d: "d \<noteq> []" "length (datagram d) \<le> UDP_BUFFER" using Cons.prems(1) by (simp_all add: fits_buffer_def length_datagram)
  then have ne: "take UDP_BUFFER (datagram d) = datagram d" "0 < length (datagram d)" by (simp_all add: length_datagram sizeof_ItchMessage_def)
  obtain s1 where s1: "run_ticks on_tick (ticks_from clk (md_total_ticks m) d) (md_state m) = Some s1"
    "run_ticks on_tick (ticks_from clk (md_total_ticks m + length d) (concat ds)) s1 = Some s"
    using Cons.prems(2) by (auto simp: ticks_from_append run_ticks_append split: Option.bind_splits)
  obtain m1 where m1: "md_message on_tick clk (datagram d) m = Some m1" "md_after on_tick clk d m m1"
    using md_message_after [OF s1(1)] by blast
  have "md_total_ticks m1 = md_total_ticks m + length d" "md_state m1 = s1" using m1(2) s1(1) by (simp_all add: md_after_def)
  with Cons.IH [of m1] s1(2) Cons.prems(1) obtain m2 where
    "spin (md_message on_tick clk) (pending ds @ ks) m1 = Some (ks, m2)" "md_after on_tick clk (concat ds) m1 m2" by auto
  then show ?case using m1 ne md_after_trans [OF m1(2)] by (auto simp: spin_def pending_def)
qed

lemma passes_after:
  assumes "\<forall>ds \<in> set dss. \<forall>d \<in> set ds. fits_buffer d"
    and "run_ticks on_tick (ticks_from clk (md_total_ticks m) (concat (concat dss))) (md_state m) = Some s"
  shows "\<exists>m1. md_passes on_tick clk (length dss) (concat (map pending dss) @ ks) m = Some (ks, m1) \<and> md_after on_tick clk (concat (concat dss)) m m1"
  using assms
proof (induction dss arbitrary: m)
  case (Cons ds dss)
  obtain s1 where s1: "run_ticks on_tick (ticks_from clk (md_total_ticks m) (concat ds)) (md_state m) = Some s1"
    "run_ticks on_tick (ticks_from clk (md_total_ticks m + length (concat ds)) (concat (concat dss))) s1 = Some s"
    using Cons.prems(2) by (auto simp: ticks_from_append run_ticks_append split: Option.bind_splits)
  obtain m1 where m1: "spin (md_message on_tick clk) (pending ds @ concat (map pending dss) @ ks) m = Some (concat (map pending dss) @ ks, m1)"
    "md_after on_tick clk (concat ds) m m1"
    using spin_after [OF _ s1(1), of "concat (map pending dss) @ ks"] Cons.prems(1) by (meson list.set_intros(1))
  have "md_total_ticks m1 = md_total_ticks m + length (concat ds)" "md_state m1 = s1" using m1(2) s1(1) by (simp_all add: md_after_def)
  with Cons.IH [of m1] s1(2) Cons.prems(1) obtain m2 where
    "md_passes on_tick clk (length dss) (concat (map pending dss) @ ks) m1 = Some (ks, m2)" "md_after on_tick clk (concat (concat dss)) m1 m2" by auto
  then show ?case using m1 md_after_trans [OF m1(2)] by auto
qed (simp add: md_after_refl)

section \<open>Properties\<close>

text \<open>
  C13. Market data reaches the callback. However the published messages are packed into
  non-empty datagrams that fit the receive buffer, and however the datagrams are spread over the
  passes of the receive loop, the loop returns having called back once per message, in order,
  with the message's instrument, price, quantity and side and the clock of its reception, and
  having recorded one latency per message; further answers of the kernel are untouched.
\<close>
theorem market_data_delivered:
  assumes "\<forall>ds \<in> set dss. \<forall>d \<in> set ds. fits_buffer d"
    and "run_ticks on_tick (ticks_from clk 0 (concat (concat dss))) s = Some s1"
  shows "\<exists>m. start_market_data (Some l) on_tick clk (length dss) (concat (map pending dss) @ ks) s = Some (ks, m)
    \<and> md_state m = s1 \<and> md_total_ticks m = length (concat (concat dss))
    \<and> length (md_latencies_ns m) = md_total_ticks m \<and> length (md_latencies_cycles m) = md_total_ticks m"
  using passes_after [of dss on_tick clk "market_data_init s" s1 ks] assms
  by (auto simp: start_market_data_def market_data_init_def md_after_def)

definition sample_listener :: UDPListener where
  "sample_listener = \<lparr> ul_group = ''239.255.0.1'', ul_port = 12345 \<rparr>"

definition sample_feed_message :: "u8 \<Rightarrow> u64 \<Rightarrow> ItchMessage" where
  "sample_feed_message type px = \<lparr> it_msg_type = type, it_stock_locate = 3, it_tracking_number = 0, it_timestamp = 5,
     it_internal_id = 8, it_shares = 10, it_price = px, it_side = ch CHR ''B'' \<rparr>"

definition sample_md_clock :: "nat \<Rightarrow> md_clock" where
  "sample_md_clock k = \<lparr> mc_start_cycles = 100, mc_tick_start = 7, mc_tick_end = 9, mc_end_cycles = 130 \<rparr>"

text \<open>Two datagrams in the first pass, none in the second; the callback collects the ticks.\<close>
theorem market_data_delivered_witness:
  "\<exists>m. start_market_data (Some sample_listener) (\<lambda>t s. Some (s @ [t])) sample_md_clock 2
      (pending [[sample_feed_message (ch CHR ''A'') 100], [sample_feed_message (ch CHR ''A'') 101, sample_feed_message (ch CHR ''E'') 100]]
       @ pending []) [] = Some ([], m)
    \<and> map nt_is_trade (md_state m) = [False, False, True]"
proof -
  let ?dss = "[[[sample_feed_message (ch CHR ''A'') 100], [sample_feed_message (ch CHR ''A'') 101, sample_feed_message (ch CHR ''E'') 100]], []]"
  have n: "2 = length ?dss" and p: "\<forall>ds \<in> set ?dss. \<forall>d \<in> set ds. fits_buffer d"
    by (auto simp: fits_buffer_def sizeof_ItchMessage_def UDP_BUFFER_def)
  have r: "run_ticks (\<lambda>t s. Some (s @ [t])) (ticks_from sample_md_clock 0 (concat (concat ?dss))) [] =
    Some (ticks_from sample_md_clock 0 (concat (concat ?dss)))" by simp
  show ?thesis using market_data_delivered [OF p r, of sample_listener "[]"] unfolding n
    by (auto simp: itch_tick_def sample_feed_message_def)
qed

text \<open>An empty datagram ends the drain: what is queued behind it waits, under the edge-triggered
  \<open>poll\<close> until the next datagram arrives.\<close>

lemma poll_stops_at_empty_datagram:
  assumes "\<forall>d \<in> set ds. fits_buffer d"
    and "run_ticks on_tick (ticks_from clk (md_total_ticks m) (concat ds)) (md_state m) = Some s"
  shows "\<exists>m1. udp_poll fd (md_message on_tick clk) [fd] (map (Received \<circ> datagram) ds @ Received [] # ks) m = Some (ks, m1)
    \<and> md_total_ticks m1 = md_total_ticks m + length (concat ds)"
proof -
  have e: "udp_drain f (map (Received \<circ> datagram) ds @ Received [] # ks) m = udp_drain f (map (Received \<circ> datagram) ds @ Recv_empty # ks) m"
    for f :: "bytes \<Rightarrow> 'a market_data \<Rightarrow> 'a market_data option"
    using assms(1)
  proof (induction ds arbitrary: m)
    case (Cons d ds)
    then have "datagram d \<noteq> []" "0 < UDP_BUFFER" using length_datagram [of d] by (auto simp: fits_buffer_def sizeof_ItchMessage_def UDP_BUFFER_def)
    then show ?case using Cons by (cases "f (take UDP_BUFFER (datagram d)) m") auto
  qed simp
  show ?thesis using spin_after [OF assms, of ks] unfolding spin_def pending_def by (auto simp: e md_after_def)
qed

text \<open>The report reads inside its vectors once an order was sent and every index of the occupancy
  samples is in range; before the first order is sent the last sample is looked up at \<open>2 ^ 64 - 1\<close>.\<close>

definition fraction_index :: "(nat \<Rightarrow> nat \<Rightarrow> nat) \<Rightarrow> bool" where
  "fraction_index fr \<longleftrightarrow> (\<forall>k n. k < 1000 \<longrightarrow> 0 < n \<longrightarrow> fr k n < n)"

lemma fraction_indexD: "fraction_index fr \<Longrightarrow> 0 < n \<Longrightarrow> n \<le> length s \<Longrightarrow> k < 1000 \<Longrightarrow> fr k n < length s"
  by (meson fraction_index_def less_le_trans)

lemma last_index_pos: "0 < n \<Longrightarrow> n \<le> 2 ^ 64 \<Longrightarrow> last_index n = n - 1"
  by (cases n) (simp_all add: last_index_def)

lemma latency_percentiles_defined:
  assumes "fraction_index fr" "0 < n" "n \<le> length s" "n \<le> 2 ^ 64"
  shows "latency_percentiles fr s n \<noteq> None"
proof -
  have "fr 500 n < length s" "fr 900 n < length s" "fr 990 n < length s" "fr 999 n < length s"
    using fraction_indexD [OF assms(1-3)] by simp_all
  then show ?thesis using assms last_index_pos [OF assms(2,4)] by (simp add: latency_percentiles_def arr_simps)
qed

lemma occupancy_percentiles_defined:
  assumes "fraction_index fr" "0 < n" "n \<le> length s" "n \<le> 2 ^ 64"
  shows "occupancy_percentiles fr s n \<noteq> None"
proof -
  have "fr 500 n < length s" "fr 900 n < length s" "fr 990 n < length s"
    using fraction_indexD [OF assms(1-3)] by simp_all
  then show ?thesis using assms last_index_pos [OF assms(2,4)] by (simp add: occupancy_percentiles_def arr_simps)
qed

lemma md_report_defined:
  assumes "fraction_index fr" "md_after on_tick clk ms (market_data_init s) m" "length ms \<le> 2 ^ 64"
    and "lc_occupancies c = [] \<or> 0 < unat (lc_total_orders_sent c) \<and> unat (lc_total_orders_sent c) \<le> length (lc_occupancies c)"
  shows "\<exists>r. print_md_report fr runtime m c = Some r \<and> (r = None \<longleftrightarrow> ms = [])"
proof (cases "ms = []")
  case True
  then show ?thesis using assms(2) by (simp add: print_md_report_def md_after_def market_data_init_def)
next
  case False
  have len: "length (md_latencies_ns m) = length ms" "length (md_latencies_cycles m) = length ms" "md_latencies_ns m \<noteq> []"
    using assms(2) False by (auto simp: md_after_def market_data_init_def)
  obtain pn pc where "latency_percentiles fr (sort (md_latencies_ns m)) (length ms) = Some pn"
    "latency_percentiles fr (sort (md_latencies_cycles m)) (length ms) = Some pc"
    using latency_percentiles_defined [OF assms(1), of "length ms"] False assms(3) len by (metis le_refl length_greater_0_conv length_sort option.exhaust)
  moreover have "unat (lc_total_orders_sent c) \<le> 2 ^ 64" using unsigned_less [where ?'a = nat, of "lc_total_orders_sent c"] by simp
  then have "(if lc_occupancies c = [] then Some []
      else occupancy_percentiles fr (sort (lc_occupancies c)) (unat (lc_total_orders_sent c))) \<noteq> None"
    using occupancy_percentiles_defined [OF assms(1), of "unat (lc_total_orders_sent c)" "sort (lc_occupancies c)"] assms(4)
    by (cases "lc_occupancies c = []") (simp_all del: not_None_eq)
  then obtain po where "(if lc_occupancies c = [] then Some []
      else occupancy_percentiles fr (sort (lc_occupancies c)) (unat (lc_total_orders_sent c))) = Some po" by blast
  ultimately show ?thesis using len False by (simp add: print_md_report_def Let_def)
qed

lemma md_report_before_first_send:
  assumes "md_latencies_ns m \<noteq> []" "lc_occupancies c \<noteq> []" "lc_total_orders_sent c = 0" "length (lc_occupancies c) < 2 ^ 64"
  shows "print_md_report fr runtime m c = None"
proof -
  have "occupancy_percentiles fr (sort (lc_occupancies c)) 0 = None"
    using assms(4) by (simp add: occupancy_percentiles_def last_index_def list_get_def split: Option.bind_splits)
  then show ?thesis using assms by (simp add: print_md_report_def Let_def split: Option.bind_splits)
qed

end
