(* ===== verification/Feed_Session.thy ===== *)
theory Feed_Session
  imports Engine Market_Data Consumers Firm_Listener
begin

text \<open>
  The market-data path over a whole run: an engine (\<open>matching/engine.cpp\<close>) works through its
  queued orders, the publisher (\<open>market_data/publisher.h\<close>) collects the reports and multicasts
  them, the firm's receive loop (\<open>network/LocalExchangeConnector.h\<close>, \<open>network/udp_listener.h\<close>)
  turns the datagrams into ticks and its book builder (\<open>data/book_builder.h\<close>) applies them. The
  network is assumed to deliver the datagrams in order; how they are spread over the passes of the
  receive loop is arbitrary.
\<close>

section \<open>Sequences of orders on the specification\<close>

fun spec_orders :: "(lkey \<Rightarrow> order list) \<Rightarrow> order list \<Rightarrow> (lkey \<Rightarrow> order list) \<times> report list" where
  "spec_orders B [] = (B, [])"
| "spec_orders B (ob # obs) =
     (let (B1, r1) = spec_order B ob; (B2, r2) = spec_orders B1 obs in (B2, r1 @ r2))"

inductive_cases spec_request_newE: "spec_request B (RqNew ob) B1 reps"
inductive_cases spec_requests_NilE: "spec_requests B [] B1 reps"
inductive_cases spec_requests_ConsE: "spec_requests B (rq # rqs) B1 reps"

text \<open>An order that meets nothing on the other side rests at the end of its level.\<close>

lemma spec_order_rest:
  assumes "price ob < MAX_PRICE" "0 < quantity ob" "\<forall>p \<in> set (crossing (side ob) (price ob)). B (instrument_id ob, opposite (side ob), p) = []"
  shows "spec_order B ob = (B((instrument_id ob, side ob, price ob) := B (instrument_id ob, side ob, price ob) @ [ob]),
    [itch_report (ch CHR ''A'') ob (price ob) (quantity ob), drop_report ST_NEW ob (price ob) (quantity ob)])"
proof -
  have "sweep ob (crossing (side ob) (price ob)) (side_view B (instrument_id ob) (opposite (side ob))) =
      (ob, side_view B (instrument_id ob) (opposite (side ob)), [], False)"
    by (rule sweep_skip_all) (use assms(3) in \<open>simp add: side_view_def\<close>)
  moreover have "set_side B (instrument_id ob) (opposite (side ob)) (side_view B (instrument_id ob) (opposite (side ob))) = B"
    by (auto simp: set_side_def side_view_def fun_eq_iff)
  ultimately show ?thesis using assms(1,2) by (simp add: spec_order_def Let_def)
qed

lemma spec_requests_new: "spec_requests B (map RqNew obs) B1 reps \<Longrightarrow> spec_orders B obs = (B1, reps)"
proof (induction obs arbitrary: B reps)
  case Nil
  then show ?case by (auto elim: spec_requests_NilE)
next
  case (Cons ob obs)
  from Cons.prems obtain B2 r1 r2 where "spec_request B (RqNew ob) B2 r1" "spec_requests B2 (map RqNew obs) B1 r2" "reps = r1 @ r2"
    by (auto elim: spec_requests_ConsE)
  then show ?case using Cons.IH by (auto elim!: spec_request_newE)
qed

lemma sweep_level:
  assumes "sweep a ps B = (a1, B1, fs, st)" and "\<forall>p. \<forall>r \<in> set (B p). 0 < quantity r"
  shows "sum_list (map quantity (B1 p)) \<le> sum_list (map quantity (B p))
    \<and> (\<forall>r \<in> set (B1 p). 0 < quantity r \<and> (\<exists>r0 \<in> set (B p). \<exists>q. r = r0\<lparr> quantity := q \<rparr>))"
  using assms
proof (induction ps arbitrary: a B fs)
  case Nil
  have "\<exists>q. r = r\<lparr> quantity := q \<rparr>" for r :: order by (rule exI [of _ "quantity r"]) simp
  then show ?case using Nil by simp blast
next
  case (Cons q ps)
  obtain a' rs fs' st' where m: "spec_match a (B q) = (a', rs, fs', st')" by (cases "spec_match a (B q)")
  have self: "\<exists>v. r = r\<lparr> quantity := v \<rparr>" for r :: order by (rule exI [of _ "quantity r"]) simp
  note left = spec_match_left [OF m] spec_match_conserves [OF m]
  have one: "sum_list (map quantity ((B(q := rs)) p)) \<le> sum_list (map quantity (B p))
    \<and> (\<forall>r \<in> set ((B(q := rs)) p). 0 < quantity r \<and> (\<exists>r0 \<in> set (B p). \<exists>v. r = r0\<lparr> quantity := v \<rparr>))" for p
    using left Cons.prems(2) self by (cases "p = q") fastforce+
  show ?case
  proof (cases st')
    case True
    then have "B1 = B(q := rs)" using Cons.prems(1) m by simp
    then show ?thesis using one by simp
  next
    case False
    then obtain fs2 where w: "sweep a' ps (B(q := rs)) = (a1, B1, fs2, st)" using Cons.prems(1) m by (auto split: prod.splits)
    have "\<forall>p. \<forall>r \<in> set ((B(q := rs)) p). 0 < quantity r" using one by blast
    from Cons.IH [OF w this] have r: "sum_list (map quantity (B1 p)) \<le> sum_list (map quantity ((B(q := rs)) p))"
      "\<And>r. r \<in> set (B1 p) \<Longrightarrow> 0 < quantity r \<and> (\<exists>r0 \<in> set ((B(q := rs)) p). \<exists>v. r = r0\<lparr> quantity := v \<rparr>)" by blast+
    have "\<exists>r0 \<in> set (B p). \<exists>v. r = r0\<lparr> quantity := v \<rparr>" if mem: "r \<in> set (B1 p)" for r
    proof -
      obtain r1 v where r1: "r1 \<in> set ((B(q := rs)) p)" "r = r1\<lparr> quantity := v \<rparr>" using r(2) [OF mem] by blast
      then obtain r0 u where "r0 \<in> set (B p)" "r1 = r0\<lparr> quantity := u \<rparr>" using one by blast
      then show ?thesis using r1(2) by (intro bexI [of _ r0] exI [of _ v]) simp_all
    qed
    then show ?thesis using r one [of p] by (meson order_trans)
  qed
qed

text \<open>An order keeps the books well formed, and adds at most its own shares to any level.\<close>

lemma spec_order_state:
  assumes sp: "spec_order B ob = (B1, reps)" and B: "book_state B"
  shows "book_state B1" and "agg B1 i s p \<le> agg B i s p + quantity ob"
proof -
  let ?i = "instrument_id ob" and ?o = "opposite (side ob)"
  have unc: "uncrossed B1" using spec_order_uncrossed [OF _ _ sp] B by (simp add: book_state_def)
  have "(\<forall>k. \<forall>r \<in> set (B1 k). rests_at k r) \<and> (\<forall>i s p. MAX_PRICE \<le> p \<longrightarrow> B1 (i, s, p) = []) \<and> (\<forall>i s p. agg B1 i s p \<le> agg B i s p + quantity ob)"
  proof (cases "price ob < MAX_PRICE")
    case False
    then show ?thesis using sp B by (simp add: spec_order_def book_state_def)
  next
    case True
    obtain a L fs st where w: "sweep ob (crossing (side ob) (price ob)) (side_view B ?i ?o) = (a, L, fs, st)" by (metis prod_cases4)
    obtain q where a: "a = ob\<lparr> quantity := q \<rparr>" using sweep_fields [OF w] by blast
    have pos: "\<forall>p. \<forall>r \<in> set (side_view B ?i ?o p). 0 < quantity r" using B by (auto simp: book_state_def side_view_def rests_at_def)
    note L = sweep_level [OF w pos]
    define B2 where "B2 = set_side B ?i ?o L"
    have q: "q \<le> quantity ob"
      using spec_match_conserves [OF sweep_fills [OF distinct_crossing _ w]] pos a by auto
    have "rests_at (?i, ?o, p) r" if "r \<in> set (L p)" for r p
      using L [of p] that B by (fastforce simp: book_state_def side_view_def rests_at_def)
    then have r2: "\<forall>k. \<forall>r \<in> set (B2 k). rests_at k r" using B by (auto simp: B2_def set_side_def book_state_def)
    have "L p = []" if "MAX_PRICE \<le> p" for p
      using sweep_shrinks [OF w, of p] B that by (auto simp: side_view_def book_state_def)
    then have h2: "\<forall>i s p. MAX_PRICE \<le> p \<longrightarrow> B2 (i, s, p) = []" using B by (auto simp: B2_def set_side_def book_state_def)
    have a2: "agg B2 i s p \<le> agg B i s p" for i s p
      using L [of p] by (auto simp: agg_def B2_def set_side_def side_view_def)
    let ?k = "(?i, side ob, price ob)"
    have "B1 = B2 \<or> B1 = B2(?k := B2 ?k @ [a]) \<and> 0 < q"
      using sp w True a by (auto simp: spec_order_def Let_def B2_def split: if_splits)
    then show ?thesis
    proof
      assume "B1 = B2"
      then show ?thesis using r2 h2 a2 by (auto intro: order_trans [OF _ le_add1])
    next
      assume B1: "B1 = B2(?k := B2 ?k @ [a]) \<and> 0 < q"
      have "rests_at ?k a" using B1 a by (simp add: rests_at_def)
      then have "\<forall>k. \<forall>r \<in> set (B1 k). rests_at k r" using r2 B1 by auto
      moreover have "agg B1 i s p \<le> agg B2 i s p + quantity ob" for i s p using B1 q a by (auto simp: agg_def)
      moreover have "\<forall>i s p. MAX_PRICE \<le> p \<longrightarrow> B1 (i, s, p) = []" using h2 B1 True by auto
      ultimately show ?thesis using a2 by (meson add_right_mono order_trans)
    qed
  qed
  then show "book_state B1" "agg B1 i s p \<le> agg B i s p + quantity ob" using unc by (auto simp: book_state_def)
qed

lemma orders_feed:
  assumes "spec_orders B obs = (B1, reps)" and "book_state B" and "\<forall>ob \<in> set obs. small_order ob"
    and "\<forall>i s p. agg B i s p + sum_list (map quantity obs) < 2 ^ 32"
  shows "fold depth_msg (itch_of reps) (agg B) = agg B1 \<and> msgs_fit (agg B) (itch_of reps) \<and> book_state B1"
  using assms
proof (induction obs arbitrary: B reps)
  case (Cons ob obs)
  obtain B2 r1 where s1: "spec_order B ob = (B2, r1)" by (cases "spec_order B ob")
  obtain r2 where s2: "spec_orders B2 obs = (B1, r2)" "reps = r1 @ r2" using Cons.prems(1) s1 by (auto split: prod.splits)
  have q: "agg B i s p + quantity ob + sum_list (map quantity obs) < 2 ^ 32" for i s p
    using Cons.prems(4) [rule_format, of i s p] by (simp add: add.assoc)
  note st = spec_order_state [OF s1 Cons.prems(2)]
  have "fold depth_msg (itch_of r1) (agg B) = agg B2 \<and> msgs_fit (agg B) (itch_of r1)"
    by (rule order_feed [OF s1 Cons.prems(2)]) (use Cons.prems(3) q in \<open>auto intro: add_lessD1\<close>)
  moreover have "fold depth_msg (itch_of r2) (agg B2) = agg B1 \<and> msgs_fit (agg B2) (itch_of r2) \<and> book_state B1"
  proof (rule Cons.IH [OF s2(1) st(1)])
    show "\<forall>i s p. agg B2 i s p + sum_list (map quantity obs) < 2 ^ 32" using st(2) q by (meson add_right_mono le_less_trans)
  qed (use Cons.prems(3) in simp)
  ultimately show ?case by (simp add: s2(2) itch_of_append msgs_fit_append)
qed simp

section \<open>Stamped messages as ticks\<close>

lemma depth_ticks_from: "fold depth_tick (ticks_from clk k (stamped c j ms)) d = fold depth_msg ms d"
  by (induction ms arbitrary: k j d) (simp_all add: depth_tick_stamp)

lemma tick_fits_stamp: "tick_fits d (itch_tick (m\<lparr>it_timestamp := t\<rparr>) r) = tick_fits d (itch_tick m 0)"
  by (simp add: tick_fits_def itch_tick_def)

lemma ticks_from_fit: "ticks_fit d (ticks_from clk k (stamped c j ms)) = msgs_fit d ms"
  by (induction ms arbitrary: k j d) (simp_all add: depth_tick_stamp tick_fits_stamp)

lemma run_builder: "run_ticks (builder_process_tick bo ao) ts b = process_ticks bo ao ts b"
proof (induction ts arbitrary: b)
  case (Cons t ts)
  then show ?case by (cases "builder_process_tick bo ao t b") auto
qed simp

lemma builder_follows:
  assumes "flat_map_laws (>) bo" "flat_map_laws (<) ao" "builder_rep bo ao d b" "msgs_fit d ms"
  shows "\<exists>b1. run_ticks (builder_process_tick bo ao) (ticks_from clk k (stamped c j ms)) b = Some b1
    \<and> builder_rep bo ao (fold depth_msg ms d) b1"
  using process_ticks_rep [OF assms(1-3), of "ticks_from clk k (stamped c j ms)"] assms(4)
  by (auto simp: run_builder ticks_from_fit depth_ticks_from)

section \<open>The publisher's two passes\<close>

lemma concat_update_single: "\<forall>x \<in> set xs. x = [] \<Longrightarrow> k < length xs \<Longrightarrow> concat (xs[k := ys]) = ys"
proof (induction xs arbitrary: k)
  case (Cons x xs)
  then show ?case by (cases k) (simp_all add: concat_eq_Nil_conv)
qed simp

text \<open>
  The datagrams of a publisher: \<open>sendmmsg\<close> sends each report of a batch as one. The code does not
  look at its result; here everything handed over counts as sent.
\<close>

definition datagrams_of :: "publisher \<Rightarrow> ItchMessage list list" where
  "datagrams_of p = map (\<lambda>m. [m]) (concat (sent p))"

definition publisher_start :: "(nat \<Rightarrow> ItchMessage) \<Rightarrow> publisher" where
  "publisher_start raw = \<lparr> batch = raw, current_batch_count = 0, sent = [], found_any = False, pb_stamped = 0 \<rparr>"

lemma datagrams_fit: "d \<in> set (datagrams_of p) \<Longrightarrow> fits_buffer d"
  by (auto simp: datagrams_of_def fits_buffer_def sizeof_ItchMessage_def UDP_BUFFER_def)

lemma concat_datagrams: "concat (datagrams_of p) = concat (sent p)"
  by (simp add: datagrams_of_def concat_map_singleton)

lemma publish_twice:
  assumes "\<forall>q \<in> set qs. lfq_ok q"
  shows "\<exists>qs1 p1 qs2 p2. publish_pass clk qs (publisher_start raw) = Some (qs1, p1) \<and> publish_pass clk qs1 p1 = Some (qs2, p2)
    \<and> concat (sent p2) = stamped clk 0 (concat (map lfq_items qs)) \<and> current_batch_count p2 = 0"
proof -
  have p0: "publisher_ok (publisher_start raw)" "published (publisher_start raw) = []" "pb_stamped (publisher_start raw) = 0"
    by (simp_all add: publisher_ok_def publisher_start_def published_def BATCH_SIZE_def)
  obtain qs1 p1 where p1: "publish_pass clk qs (publisher_start raw) = Some (qs1, p1)" "publisher_ok p1" "drained_to qs qs1"
    "published p1 = stamped clk 0 (concat (map lfq_items qs))"
    using publish_pass_ok [OF p0(1) assms, of clk] p0(2,3) by auto
  have "\<forall>q \<in> set qs1. lfq_ok q" "\<forall>q \<in> set qs1. lfq_items q = []" using p1(3) by (simp_all add: drained_to_def)
  then show ?thesis using publish_pass_ok [OF p1(2), of qs1 clk] p1 by auto
qed

section \<open>The whole path\<close>

lemma passes_requests_orders:
  assumes "passes_requests m tss n = map RqNew obs" and "ob \<in> set obs"
  shows "\<exists>ts \<in> set tss. \<exists>a t. TNew a t \<in> set ts \<and> ob = ord m a"
proof -
  have "RqNew ob \<in> set (passes_requests m tss n)" using assms by simp
  then obtain ts t where ts: "ts \<in> set tss" "t \<in> set ts" "request_of m t = RqNew ob"
    by (auto simp: passes_requests_def pass_requests_def dest!: in_set_takeD in_set_dropD)
  then show ?thesis by (cases t) auto
qed

lemma engine_orders_small:
  assumes "engine_ok e V P" and "passes_requests (mem (e_shard e)) (map lfq_items (e_queues e)) n = map RqNew obs" and "ob \<in> set obs"
  shows "small_order ob"
proof -
  obtain q a t where q: "q \<in> set (e_queues e)" "TNew a t \<in> set (lfq_items q)" "ob = ord (mem (e_shard e)) a"
    using passes_requests_orders [OF assms(2,3)] by auto
  obtain k where "k < length (e_queues e)" "e_queues e ! k = q" using q(1) by (meson in_set_conv_nth)
  then have "a \<in> P" using queued_orders_mem [of k "e_queues e" a t] q(2) assms(1) by (auto simp: engine_ok_def)
  then have "instrument_id (mem (e_shard e) a) < MAX_INSTRUMENTS" using assms(1) by (auto simp: engine_ok_def our_instrument_def)
  then show ?thesis using q(3) by (simp add: small_order_def NUM_INSTRUMENTS_def MAX_INSTRUMENTS_def)
qed

lemma engine_feed:
  assumes e: "engine_ok e V P" and rq: "passes_requests (mem (e_shard e)) (map lfq_items (e_queues e)) (length clks) = map RqNew obs"
    and q: "lfq_items (mkt_data_queue (outs (e_shard e))) = []"
      "length (itch_of (snd (spec_orders (abook (e_shard e) V) obs))) \<le> lfq_room (mkt_data_queue (outs (e_shard e)))"
    and depth: "\<forall>i s p. agg (abook (e_shard e) V) i s p + sum_list (map quantity obs) < 2 ^ 32"
  obtains e1 V1 P1 reps where "engine_polls e clks = Some e1" "engine_ok e1 V1 P1"
    "lfq_ok (mkt_data_queue (outs (e_shard e1)))" "lfq_items (mkt_data_queue (outs (e_shard e1))) = itch_of reps"
    "fold depth_msg (itch_of reps) (agg (abook (e_shard e) V)) = agg (abook (e_shard e1) V1)"
    "msgs_fit (agg (abook (e_shard e) V)) (itch_of reps)"
proof -
  obtain e1 V1 P1 reps where e1: "engine_polls e clks = Some e1" "engine_ok e1 V1 P1"
    "spec_requests (abook (e_shard e) V) (map RqNew obs) (abook (e_shard e1) V1) reps"
    "emits reps (outs (e_shard e)) = Some (outs (e_shard e1))"
    using engine_polls_ok [OF e, of clks] rq by auto
  have sp: "spec_orders (abook (e_shard e) V) obs = (abook (e_shard e1) V1, reps)" using spec_requests_new [OF e1(3)] .
  have b: "books_ok (e_shard e) (e_books e) V P" "books_ok (e_shard e1) (e_books e1) V1 P1" using e e1(2) by (simp_all add: engine_ok_def)
  note out = shard_okD(8) [OF books_okD(1)]
  have "received (mkt_data_queue (outs (e_shard e))) (itch_of reps) (mkt_data_queue (outs (e_shard e1)))"
    using emits_received [OF out [OF b(1)] e1(4)] by blast
  then have "lfq_items (mkt_data_queue (outs (e_shard e1))) = itch_of reps" using q sp by (simp add: received_def)
  moreover have "lfq_ok (mkt_data_queue (outs (e_shard e1)))" using out [OF b(2)] by (simp add: outputs_ok_def)
  moreover note orders_feed [OF sp books_ok_state [OF b(1)] _ depth] engine_orders_small [OF e rq]
  ultimately show thesis using that e1(1,2) by blast
qed

text \<open>
  C12. The firm's books follow the exchange over a run of its engine on new orders. Let an engine satisfy
  its invariant with an empty market-data queue, let the requests of its next passes be new orders,
  let the queue have room for the reports the book specification prescribes for them and let all
  levels stay within 32 bits. Then the passes return; a fresh publisher that drains the shard's
  queue and finds nothing in its next pass has sent every report; and when the datagrams reach the
  firm in order, however they are spread over the passes of its receive loop, the loop returns with
  a book builder that holds exactly the depth of the engine's new books and gives exact snapshots.
  Runs with cancels are excluded because there it is false: the firm adds what is cancelled
  (\<open>cancel_report_adds\<close> of theory \<open>Firm_Transmit\<close>).
\<close>
theorem firm_follows_session:
  assumes e: "engine_ok e V P" and rq: "passes_requests (mem (e_shard e)) (map lfq_items (e_queues e)) (length clks) = map RqNew obs"
    and q: "lfq_items (mkt_data_queue (outs (e_shard e))) = []"
      "length (itch_of (snd (spec_orders (abook (e_shard e) V) obs))) \<le> lfq_room (mkt_data_queue (outs (e_shard e)))"
    and depth: "\<forall>i s p. agg (abook (e_shard e) V) i s p + sum_list (map quantity obs) < 2 ^ 32"
    and laws: "flat_map_laws (>) bo" "flat_map_laws (<) ao" and b: "builder_rep bo ao (agg (abook (e_shard e) V)) b"
    and idle: "k < length qs" "\<forall>q \<in> set qs. lfq_ok q \<and> lfq_items q = []"
  shows "\<exists>e1 V1 P1 qs1 p1 qs2 p2. engine_polls e clks = Some e1 \<and> engine_ok e1 V1 P1
    \<and> publish_pass pclk (qs[k := mkt_data_queue (outs (e_shard e1))]) (publisher_start raw) = Some (qs1, p1)
    \<and> publish_pass pclk qs1 p1 = Some (qs2, p2)
    \<and> (\<forall>dss. concat dss = datagrams_of p2 \<longrightarrow>
        (\<exists>m. start_market_data (Some l) (builder_process_tick bo ao) clk (length dss) (concat (map pending dss) @ ks) b = Some (ks, m)
          \<and> builder_rep bo ao (agg (abook (e_shard e1) V1)) (md_state m)
          \<and> (\<forall>i. unat i < NUM_INSTRUMENTS \<longrightarrow>
              (\<exists>s. builder_get_snapshot bo ao (md_state m) i = Some s \<and> snapshot_of (agg (abook (e_shard e1) V1) (unat i)) s))))"
proof -
  obtain e1 V1 P1 reps where e1: "engine_polls e clks = Some e1" "engine_ok e1 V1 P1"
    "lfq_ok (mkt_data_queue (outs (e_shard e1)))" "lfq_items (mkt_data_queue (outs (e_shard e1))) = itch_of reps"
    "fold depth_msg (itch_of reps) (agg (abook (e_shard e) V)) = agg (abook (e_shard e1) V1)"
    "msgs_fit (agg (abook (e_shard e) V)) (itch_of reps)"
    using engine_feed [OF e rq q depth] .
  let ?qs = "qs[k := mkt_data_queue (outs (e_shard e1))]"
  have "\<forall>q \<in> set ?qs. lfq_ok q" using idle e1(3) set_update_subset_insert [of qs k] by fastforce
  moreover have items: "concat (map lfq_items ?qs) = itch_of reps"
    using idle e1(4) by (simp add: map_update concat_update_single)
  ultimately obtain qs1 p1 qs2 p2 where p: "publish_pass pclk ?qs (publisher_start raw) = Some (qs1, p1)"
    "publish_pass pclk qs1 p1 = Some (qs2, p2)" "concat (sent p2) = stamped pclk 0 (itch_of reps)"
    using publish_twice [of ?qs pclk raw] by auto
  obtain b1 where b1: "run_ticks (builder_process_tick bo ao) (ticks_from clk 0 (stamped pclk 0 (itch_of reps))) b = Some b1"
    "builder_rep bo ao (agg (abook (e_shard e1) V1)) b1"
    using builder_follows [OF laws b e1(6), of clk 0 pclk 0] e1(5) by auto
  have "\<exists>m. start_market_data (Some l) (builder_process_tick bo ao) clk (length dss) (concat (map pending dss) @ ks) b = Some (ks, m)
      \<and> md_state m = b1" if d: "concat dss = datagrams_of p2" for dss
  proof -
    have "concat (concat dss) = stamped pclk 0 (itch_of reps)" using d concat_datagrams [of p2] p(3) by simp
    moreover have "\<forall>ds \<in> set dss. \<forall>d \<in> set ds. fits_buffer d" using d datagrams_fit [of _ p2] by (metis concat.simps UN_I set_concat)
    ultimately show ?thesis using passes_after [of dss "builder_process_tick bo ao" clk "market_data_init b" b1 ks] b1(1)
      by (auto simp: start_market_data_def market_data_init_def md_after_def)
  qed
  then show ?thesis using e1(1,2) p(1,2) b1(2) builder_get_snapshot_rep [OF laws b1(2)] by metis
qed

text \<open>The sample engine: its first two passes let a sell order rest and a larger buy trade with it.\<close>

lemma sample_session:
  "passes_requests (mem sample_b) [sample_tasks] 2 = map RqNew [resting_sell, pending_buy]"
  "length (itch_of (snd (spec_orders (\<lambda>_. []) [resting_sell, pending_buy]))) = 4"
proof -
  show "passes_requests (mem sample_b) [sample_tasks] 2 = map RqNew [resting_sell, pending_buy]"
    using sample_b_ok by (simp add: passes_requests_def pass_requests_def sample_tasks_def eval_nat_numeral)
  have s0: "sweep resting_sell (crossing SELL 100) (\<lambda>p. []) = (resting_sell, \<lambda>p. [], [], False)"
    by (rule sweep_skip_all) simp
  have e: "set_side (\<lambda>_. []) 0 BUY (\<lambda>p. []) = (\<lambda>_. [])" by (auto simp: set_side_def fun_eq_iff)
  let ?B = "(\<lambda>_. [])((0 :: nat, SELL, 100 :: nat) := [resting_sell])"
  have o1: "spec_order (\<lambda>_. []) resting_sell = (?B, [itch_report (ch CHR ''A'') resting_sell 100 5, drop_report ST_NEW resting_sell 100 5])"
    using s0 unfolding sample_orders by (simp add: spec_order_def side_view_def [abs_def] e MAX_PRICE_def)
  have v: "side_view ?B 0 SELL = (\<lambda>_. [])(100 := [resting_sell])" by (auto simp: side_view_def fun_eq_iff)
  have ps: "crossing BUY 101 = [0 ..< 100] @ [100, 101]"
    using upt_add_eq_append [of 0 100 2] by (simp add: crossing_def upt_rec)
  have "sweep pending_buy (crossing BUY 101) (side_view ?B 0 SELL) =
      (pending_buy\<lparr> quantity := 3 \<rparr>, \<lambda>_. [], [(pending_buy, resting_sell)], False)"
    unfolding ps v by (subst sweep_skip) (auto simp: sample_orders)
  then have "itch_of (snd (spec_order ?B pending_buy)) = fill_msgs (pending_buy, resting_sell) @ [itch_of_order (ch CHR ''A'') (pending_buy\<lparr> quantity := 3 \<rparr>) 101 3]"
    unfolding sample_orders(2)
    by (simp add: spec_order_def MAX_PRICE_def itch_of_append fill_reports_def fill_msgs_def exec_report_def drop_report_def itch_report_def
        itch_of_order_def fill_qty_def Let_def)
  then show "length (itch_of (snd (spec_orders (\<lambda>_. []) [resting_sell, pending_buy]))) = 4"
    by (simp add: o1 split_def Let_def itch_of_append itch_report_def drop_report_def fill_msgs_def)
qed

lemma place_order_outs: "place_order sh w obj = Some (r, sh1) \<Longrightarrow> outs sh1 = outs sh"
  by (auto simp: place_order_def Let_def set_mem_def split: Option.bind_splits option.splits)

theorem firm_follows_session_witness:
  "\<exists>e1 V1 qs1 p1 qs2 p2 m. engine_polls sample_engine [\<lambda>_. 1, \<lambda>_. 2] = Some e1
    \<and> publish_pass (\<lambda>_. 5) ((replicate 4 (lfq_init 1048576 (\<lambda>_. sample_itch)))[0 := mkt_data_queue (outs (e_shard e1))])
        (publisher_start (\<lambda>_. sample_itch)) = Some (qs1, p1)
    \<and> publish_pass (\<lambda>_. 5) qs1 p1 = Some (qs2, p2)
    \<and> start_market_data (Some sample_listener) (builder_process_tick (assoc_map (>)) (assoc_map (<))) sample_md_clock 1
        (pending (datagrams_of p2)) (builder_init (assoc_map (>)) (assoc_map (<))) = Some ([], m)
    \<and> builder_rep (assoc_map (>)) (assoc_map (<)) (agg (abook (e_shard e1) V1)) (md_state m)"
proof -
  let ?q = "lfq_init 1048576 (\<lambda>_. sample_itch)"
  have ab: "abook sample_b (\<lambda>_. []) = (\<lambda>_. [])" by (simp add: abook_def fun_eq_iff)
  have z: "agg (\<lambda>_. []) = (\<lambda>_ _ _. 0)" by (simp add: agg_def fun_eq_iff)
  have big: "lfq_ok (lfq_init 1048576 x) \<and> lfq_items (lfq_init 1048576 x) = [] \<and> lfq_room (lfq_init 1048576 x) = 1048575" for x :: "nat \<Rightarrow> ItchMessage"
    using lfq_init_ok [of 20 x] by simp
  obtain sa sb where s: "place_order (shard_init 1 sample_outputs) 0 sample_sell = Some (Some 1, sa)" "place_order sample_a 0 sample_buy = Some (Some 2, sb)"
    using sample_place by blast
  have "outs sample_b = sample_outputs"
    using place_order_outs [OF s(1)] place_order_outs [OF s(2)] s by (simp add: sample_b_def sample_a_def shard_init_def)
  then have q: "lfq_items (mkt_data_queue (outs sample_b)) = []" "lfq_room (mkt_data_queue (outs sample_b)) = 1048575"
    using big by (simp_all add: sample_outputs_def outputs_init_def)
  have idle: "0 < length (replicate 4 ?q)" "\<forall>q \<in> set (replicate 4 ?q). lfq_ok q \<and> lfq_items q = []" using big by auto
  have rq: "passes_requests (mem sample_b) [sample_tasks] (length [\<lambda>_ :: nat. 1 :: nat, \<lambda>_. 2]) = map RqNew [resting_sell, pending_buy]"
    using sample_session(1) by (simp add: numeral_2_eq_2)
  have room: "length (itch_of (snd (spec_orders (\<lambda>_. []) [resting_sell, pending_buy]))) \<le> lfq_room (mkt_data_queue (outs sample_b))"
    unfolding sample_session(2) q(2) by simp
  have depth: "\<forall>(i :: nat) (s :: bool) (p :: nat). (0 :: nat) + sum_list (map quantity [resting_sell, pending_buy]) < 2 ^ 32" by (simp add: sample_orders)
  note F = firm_follows_session [OF sample_engine_ok(1), unfolded sample_engine_ok(2,3) ab z, OF rq q(1) room depth assoc_maps_ok
      builder_init_rep [OF assoc_maps_ok] idle, of "\<lambda>_. 5" "\<lambda>_. sample_itch" sample_listener sample_md_clock "[]"]
  obtain e1 V1 qs1 p1 qs2 p2 where r: "engine_polls sample_engine [\<lambda>_. 1, \<lambda>_. 2] = Some e1"
    "publish_pass (\<lambda>_. 5) ((replicate 4 ?q)[0 := mkt_data_queue (outs (e_shard e1))]) (publisher_start (\<lambda>_. sample_itch)) = Some (qs1, p1)"
    "publish_pass (\<lambda>_. 5) qs1 p1 = Some (qs2, p2)"
    and d: "\<And>dss. concat dss = datagrams_of p2 \<Longrightarrow> \<exists>m. start_market_data (Some sample_listener) (builder_process_tick (assoc_map (>)) (assoc_map (<)))
        sample_md_clock (length dss) (concat (map pending dss) @ []) (builder_init (assoc_map (>)) (assoc_map (<))) = Some ([], m)
      \<and> builder_rep (assoc_map (>)) (assoc_map (<)) (agg (abook (e_shard e1) V1)) (md_state m)"
    using F by blast
  show ?thesis using r d [of "[datagrams_of p2]"] by auto
qed

end
