(* ===== verification/Tools_Main.thy ===== *)
theory Tools_Main
  imports Tools_Orders Tools_Replay_Main Feed_Session Gateway_Admit
begin

text \<open>
  The programs around the order generators of theory \<open>Tools_Orders\<close>: \<open>main\<close> of the file generator,
  of the crossing driver and of the load tester. What the file generator writes is followed
  through the replay tool to the gateway's framing; what the crossing driver sends is followed
  into the reference order book; what the load tester sends, to the gateway's framing.

  Pacing, the reader thread that discards the answers and the printed rates are left out. Writes
  to an opened file are taken to succeed, which the program does not check, and a write to a
  closed connection returns its error instead of ending the process by a signal.
\<close>

section \<open>The file generator\<close>

definition PCAP_TOTAL :: nat where
  "PCAP_TOTAL = 5000000"

fun pcap_loop :: "(nat \<Rightarrow> nat) \<Rightarrow> nat list \<Rightarrow> bytes option" where
  "pcap_loop rnd [] = Some []"
| "pcap_loop rnd (i # is) = do {
     req \<leftarrow> pcap_order rnd i;
     out \<leftarrow> pcap_loop rnd is;
     Some (enc_enter_order req @ out) }"

text \<open>The exit code and, if one was opened, the contents of the file.\<close>

definition generate_pcap :: "bytes list \<Rightarrow> bool \<Rightarrow> (nat \<Rightarrow> nat) \<Rightarrow> (nat \<times> bytes option) option" where
  "generate_pcap args opened rnd =
     (if args = [] then Some (1, None)
      else if \<not> opened then Some (1, None)
      else do { out \<leftarrow> pcap_loop rnd [0 ..< PCAP_TOTAL]; Some (0, Some out) })"

section \<open>The crossing driver\<close>

text \<open>
  One call of \<open>send\<close> per order; anything but a full write ends the loop, after the bytes the kernel
  took. A call that needs an answer the list does not have is \<open>None\<close>.
\<close>

fun send_each :: "(nat \<Rightarrow> OuchEnterOrder option) \<Rightarrow> nat list \<Rightarrow> send_result list \<Rightarrow> bytes option" where
  "send_each mk [] ks = Some []"
| "send_each mk (i # is) [] = None"
| "send_each mk (i # is) (k # ks) = do {
     req \<leftarrow> mk i;
     (case k of
        Sent n \<Rightarrow>
          let data = take n (enc_enter_order req) in
          if length data = sizeof_OuchEnterOrder then do { more \<leftarrow> send_each mk is ks; Some (data @ more) }
          else Some data
      | _ \<Rightarrow> Some []) }"

record liquidity_world =
  lq_orders :: "bytes option"
  lq_connect :: "bool \<times> bool"
  lq_rester :: "send_result list"
  lq_crosser :: "send_result list"
  lq_clock :: "bool \<Rightarrow> nat \<Rightarrow> u64"

definition liquidity_pairs :: "bytes option \<Rightarrow> nat option" where
  "liquidity_pairs env = do {
     n \<leftarrow> (case env of Some s \<Rightarrow> atoi s | None \<Rightarrow> Some 10000);
     Some (nat (if n < 1 then 1 else n)) }"

text \<open>The exit code and the bytes sent on the two connections.\<close>

definition liquidity_main :: "liquidity_world \<Rightarrow> (nat \<times> bytes \<times> bytes) option" where
  "liquidity_main w = do {
     n \<leftarrow> liquidity_pairs (lq_orders w);
     if \<not> fst (lq_connect w) \<or> \<not> snd (lq_connect w) then Some (1, [], [])
     else do {
       a \<leftarrow> send_each (\<lambda>i. liquidity_ask (lq_clock w False i) i) [0 ..< n] (lq_rester w);
       b \<leftarrow> send_each (\<lambda>i. liquidity_bid (lq_clock w True i) i) [0 ..< n] (lq_crosser w);
       Some (0, a, b) } }"

section \<open>The load tester\<close>

definition TESTER_TOTAL :: nat where "TESTER_TOTAL = 1000000"
definition TESTER_BATCH :: nat where "TESTER_BATCH = 2000"

text \<open>The orders in turn, each from the next call of \<open>rand\<close>; workload 4 draws the price with one more.\<close>

fun tester_orders :: "int \<Rightarrow> (nat \<Rightarrow> nat) \<Rightarrow> nat \<Rightarrow> nat list \<Rightarrow> OuchEnterOrder list option" where
  "tester_orders workload rnd k [] = Some []"
| "tester_orders workload rnd k (i # is) = do {
     r \<leftarrow> tester_order workload rnd k i;
     let k1 = snd (tester_symbol workload rnd k i) + (if workload = 4 then 1 else 0);
     rs \<leftarrow> tester_orders workload rnd k1 is;
     Some (r # rs) }"

text \<open>One call of \<open>send\<close> per batch, its result ignored: what the kernel does not take of a batch is not sent again.\<close>

fun send_batches :: "bytes list \<Rightarrow> send_result list \<Rightarrow> bytes option" where
  "send_batches [] ks = Some []"
| "send_batches (d # ds) [] = None"
| "send_batches (d # ds) (k # ks) = do {
     more \<leftarrow> send_batches ds ks;
     Some ((case k of Sent n \<Rightarrow> take n d | _ \<Rightarrow> []) @ more) }"

fun batched :: "nat \<Rightarrow> nat \<Rightarrow> 'a list \<Rightarrow> 'a list list" where
  "batched 0 b xs = []"
| "batched (Suc n) b xs = take b xs # batched n b (drop b xs)"

text \<open>The bytes of the two phases, orders and cancels, or exit code 1 without a connection.\<close>

definition tester_main :: "bool \<Rightarrow> bytes option \<Rightarrow> (nat \<Rightarrow> nat) \<Rightarrow> send_result list \<Rightarrow> send_result list \<Rightarrow> (nat \<times> bytes \<times> bytes) option" where
  "tester_main up env rnd ks ls =
     (if \<not> up then Some (1, [], [])
      else do {
        workload \<leftarrow> (case env of Some s \<Rightarrow> atoi s | None \<Rightarrow> Some 1);
        orders \<leftarrow> tester_orders workload rnd 0 [0 ..< TESTER_TOTAL];
        a \<leftarrow> send_batches (map (\<lambda>os. concat (map enc_enter_order os)) (batched (TESTER_TOTAL div TESTER_BATCH) TESTER_BATCH orders)) ks;
        cancels \<leftarrow> those (map tester_cancel [0 ..< TESTER_TOTAL]);
        b \<leftarrow> send_batches (map (\<lambda>cs. concat (map enc_cancel_order cs)) (batched (TESTER_TOTAL div TESTER_BATCH) TESTER_BATCH cancels)) ls;
        Some (0, a, b) })"

section \<open>From the file to the gateway\<close>

lemma pcap_loop_ok:
  "\<forall>i \<in> set is. i < PCAP_TOTAL \<Longrightarrow> \<exists>rs. pcap_loop rnd is = Some (concat (map enc_enter_order rs))
    \<and> list_all2 (\<lambda>i r. pcap_order rnd i = Some r \<and> admitted r (i + 1)) is rs"
proof (induction "is")
  case (Cons i js)
  obtain r where r: "pcap_order rnd i = Some r" "admitted r (i + 1)"
    using pcap_order_admitted [of i rnd] Cons.prems by (auto simp: PCAP_TOTAL_def)
  obtain rs where "pcap_loop rnd js = Some (concat (map enc_enter_order rs))"
    "list_all2 (\<lambda>i r. pcap_order rnd i = Some r \<and> admitted r (i + 1)) js rs"
    using Cons by auto
  then show ?case using r by (auto intro!: exI [of _ "r # rs"])
qed simp

lemma admitted_message: "admitted r k \<Longrightarrow> enc_enter_order r \<noteq> [] \<and> msg_size (hd (enc_enter_order r)) = Some (length (enc_enter_order r))"
  by (auto simp: admitted_def sizeof_OuchEnterOrder_def)

text \<open>The share of one connection of a file of whole orders, and what the gateway's framing makes of it.\<close>

lemma dealt_orders:
  assumes "\<forall>r \<in> set rs. \<exists>k. admitted r k"
  shows "dealt (concat (map enc_enter_order rs)) n (length rs) c =
      concat (map (\<lambda>i. enc_enter_order (rs ! i)) (filter (\<lambda>i. i mod n = c) [0 ..< length rs]))"
    and "frames (dealt (concat (map enc_enter_order rs)) n (length rs) c) =
      (map (\<lambda>i. enc_enter_order (rs ! i)) (filter (\<lambda>i. i mod n = c) [0 ..< length rs]), [], False)"
proof -
  have len: "\<forall>f \<in> set (map enc_enter_order rs). length f = order_size"
    using assms by (auto simp: admitted_def order_size_def)
  have pos: "0 < order_size" by (simp add: order_size_def sizeof_OuchEnterOrder_def)
  have "order_bytes (concat (map enc_enter_order rs)) i = enc_enter_order (rs ! i)" if "i < length rs" for i
    using chunks_of_concat(1) [OF len _ pos, of i] that by (simp add: order_bytes_def)
  then have "map (order_bytes (concat (map enc_enter_order rs))) (filter (\<lambda>i. i mod n = c) [0 ..< length rs]) =
      map (\<lambda>i. enc_enter_order (rs ! i)) (filter (\<lambda>i. i mod n = c) [0 ..< length rs])"
    by (intro map_cong) auto
  then show d: "dealt (concat (map enc_enter_order rs)) n (length rs) c =
      concat (map (\<lambda>i. enc_enter_order (rs ! i)) (filter (\<lambda>i. i mod n = c) [0 ..< length rs]))"
    unfolding dealt_def by (rule arg_cong)
  have "\<forall>f \<in> set (map (\<lambda>i. enc_enter_order (rs ! i)) (filter (\<lambda>i. i mod n = c) [0 ..< length rs])). f \<noteq> [] \<and> msg_size (hd f) = Some (length f)"
  proof (rule ballI)
    fix f assume "f \<in> set (map (\<lambda>i. enc_enter_order (rs ! i)) (filter (\<lambda>i. i mod n = c) [0 ..< length rs]))"
    then obtain i where "i < length rs" "f = enc_enter_order (rs ! i)" by auto
    then show "f \<noteq> [] \<and> msg_size (hd f) = Some (length f)" using assms admitted_message nth_mem by metis
  qed
  then show "frames (dealt (concat (map enc_enter_order rs)) n (length rs) c) =
      (map (\<lambda>i. enc_enter_order (rs ! i)) (filter (\<lambda>i. i mod n = c) [0 ..< length rs]), [], False)"
    unfolding d by (rule frames_messages)
qed

text \<open>
  C32. A generated file replays completely. The file generator succeeds whenever its file can be
  opened, whatever random numbers it draws; replaying the file over any number of connections
  that are accepted and do not fail ends with exit code 0, and the gateway's framing cuts the
  bytes of connection \<open>c\<close> into exactly the generated orders whose number is congruent to \<open>c\<close>, in
  order and with nothing left over. Every one of the five million orders is on one connection,
  and is taken by the gateway's decoders and its risk check under the token it was given.
\<close>
theorem generated_file_replayed:
  assumes args: "args \<noteq> []" and n: "replay_conns (rw_connections w) = Some n"
    and ready: "\<forall>data. generate_pcap args True rnd = Some (0, Some data) \<longrightarrow> replay_ready w n data"
    and kernel: "\<forall>c < n. PCAP_TOTAL * order_size \<le> progress (rw_kernel w c) \<and> (\<forall>k \<in> set (rw_kernel w c). sound_answer k)"
  shows "\<exists>data rs socks. generate_pcap args True rnd = Some (0, Some data) \<and> data = concat (map enc_enter_order rs)
    \<and> length rs = PCAP_TOTAL \<and> (\<forall>i < PCAP_TOTAL. pcap_order rnd i = Some (rs ! i) \<and> admitted (rs ! i) (i + 1))
    \<and> replay_main w = Some (Exit 0 socks) \<and> length socks = n
    \<and> (\<forall>c < n. frames (rk_wire (socks ! c)) =
         (map (\<lambda>i. enc_enter_order (rs ! i)) (filter (\<lambda>i. i mod n = c) [0 ..< PCAP_TOTAL]), [], False))"
proof -
  obtain rs where rs: "pcap_loop rnd [0 ..< PCAP_TOTAL] = Some (concat (map enc_enter_order rs))"
    "list_all2 (\<lambda>i r. pcap_order rnd i = Some r \<and> admitted r (i + 1)) [0 ..< PCAP_TOTAL] rs"
    using pcap_loop_ok [of "[0 ..< PCAP_TOTAL]" rnd] by auto
  define data where "data = concat (map enc_enter_order rs)"
  have len: "length rs = PCAP_TOTAL" using list_all2_lengthD [OF rs(2)] by simp
  have each: "\<forall>i < PCAP_TOTAL. pcap_order rnd i = Some (rs ! i) \<and> admitted (rs ! i) (i + 1)"
    using rs(2) len by (auto simp: list_all2_conv_all_nth)
  then have adm: "\<forall>r \<in> set rs. \<exists>k. admitted r k" using len by (metis in_set_conv_nth)
  have gen: "generate_pcap args True rnd = Some (0, Some data)" using args rs(1) by (simp add: generate_pcap_def data_def)
  have size: "length data = PCAP_TOTAL * order_size"
    using adm len unfolding data_def by (subst length_concat) (simp add: admitted_def order_size_def sum_list_triv comp_def cong: map_cong)
  then have count: "length data div order_size = length rs" using len by (simp add: order_size_def sizeof_OuchEnterOrder_def)
  obtain code socks where run: "replay_main w = Some (Exit code socks)" "length socks = n" "code = 0"
    "\<forall>c < n. rk_wire (socks ! c) = dealt data n (length rs) c"
    using replay_main_deals [OF n, of data] ready gen kernel size count by auto
  then show ?thesis
    using gen each len dealt_orders(2) [OF adm, of n] unfolding data_def by auto
qed

definition pcap_world :: "bytes \<Rightarrow> replay_world" where
  "pcap_world data = \<lparr> rw_args = [map ch ''f''], rw_connections = Some (map ch ''3''), rw_file = Some data, rw_stat = True, rw_mmap = True,
     rw_socket = (\<lambda>_. True), rw_connect = (\<lambda>_. True), rw_kernel = (\<lambda>_. replicate (PCAP_TOTAL * order_size) (Sent 1000)) \<rparr>"

theorem generated_file_replayed_witness:
  "\<exists>data rs socks. generate_pcap [map ch ''f''] True (\<lambda>k. 5 * k) = Some (0, Some data) \<and> length rs = PCAP_TOTAL
    \<and> replay_main (pcap_world data) = Some (Exit 0 socks)
    \<and> frames (rk_wire (socks ! 2)) = (map (\<lambda>i. enc_enter_order (rs ! i)) (filter (\<lambda>i. i mod 3 = 2) [0 ..< PCAP_TOTAL]), [], False)"
proof -
  obtain rs where rs: "pcap_loop (\<lambda>k. 5 * k) [0 ..< PCAP_TOTAL] = Some (concat (map enc_enter_order rs))"
    "list_all2 (\<lambda>i r. pcap_order (\<lambda>k. 5 * k) i = Some r \<and> admitted r (i + 1)) [0 ..< PCAP_TOTAL] rs"
    using pcap_loop_ok [of "[0 ..< PCAP_TOTAL]" "\<lambda>k. 5 * k"] by auto
  define data where "data = concat (map enc_enter_order rs)"
  have gen: "generate_pcap [map ch ''f''] True (\<lambda>k. 5 * k) = Some (0, Some data)" using rs(1) by (simp add: generate_pcap_def data_def)
  have pos: "0 < PCAP_TOTAL" by (simp add: PCAP_TOTAL_def)
  have "length rs = PCAP_TOTAL" using list_all2_lengthD [OF rs(2)] by simp
  then obtain r rs' where r: "rs = r # rs'" using pos by (cases rs) auto
  have "admitted r 1" using list_all2_nthD [OF rs(2), of 0] pos r by simp
  then have size: "order_size \<le> length data" by (simp add: data_def admitted_def order_size_def r)
  have n: "replay_conns (rw_connections (pcap_world data)) = Some 3"
    by (simp add: replay_conns_def pcap_world_def atoi_def is_space_def is_digit_def word_le_nat_alt)
  have ready: "\<forall>d. generate_pcap [map ch ''f''] True (\<lambda>k. 5 * k) = Some (0, Some d) \<longrightarrow> replay_ready (pcap_world data) 3 d"
    using gen size by (simp add: replay_ready_def pcap_world_def)
  have kernel: "\<forall>c < 3. PCAP_TOTAL * order_size \<le> progress (rw_kernel (pcap_world data) c)
      \<and> (\<forall>k \<in> set (rw_kernel (pcap_world data) c). sound_answer k)"
    by (simp add: pcap_world_def progress_replicate sound_answer_def)
  show ?thesis
    using generated_file_replayed [OF _ n ready kernel] gen by fastforce
qed

section \<open>The crossing driver's book\<close>

text \<open>Whole writes: every answer takes the full order.\<close>

definition takes_all :: "nat \<Rightarrow> send_result list \<Rightarrow> bool" where
  "takes_all n ks \<longleftrightarrow> n \<le> length ks \<and> list_all (\<lambda>k. case k of Sent m \<Rightarrow> sizeof_OuchEnterOrder \<le> m | _ \<Rightarrow> False) ks"

lemma send_each_all:
  assumes "\<forall>i \<in> set is. \<exists>r k. mk i = Some r \<and> admitted r k" "takes_all (length is) ks"
  shows "send_each mk is ks = Some (concat (map (\<lambda>i. enc_enter_order (the (mk i))) is))"
  using assms
proof (induction "is" arbitrary: ks)
  case (Cons i js)
  obtain m ls where ks: "ks = Sent m # ls" "sizeof_OuchEnterOrder \<le> m" "takes_all (length js) ls"
    using Cons.prems(2) by (cases ks) (auto simp: takes_all_def split: send_result.splits)
  obtain r k where r: "mk i = Some r" "length (enc_enter_order r) = sizeof_OuchEnterOrder" using Cons.prems(1) by (auto simp: admitted_def)
  have "send_each mk js ls = Some (concat (map (\<lambda>i. enc_enter_order (the (mk i))) js))" using Cons.IH [OF _ ks(3)] Cons.prems(1) by simp
  then show ?case using r ks(1,2) by (simp add: Let_def)
qed simp

text \<open>Orders of one client at one price, all of one size.\<close>

definition column :: "Side \<Rightarrow> nat \<Rightarrow> order list \<Rightarrow> bool" where
  "column s c obs \<longleftrightarrow> list_all (\<lambda>ob. side ob = s \<and> price ob = 50000 \<and> quantity ob = 10 \<and> instrument_id ob = 0 \<and> client_id ob = c) obs"

definition ask_column :: "order list \<Rightarrow> lkey \<Rightarrow> order list" where
  "ask_column obs = (\<lambda>_. [])((0, SELL, 50000) := obs)"

definition rest_reports :: "order \<Rightarrow> report list" where
  "rest_reports ob = [itch_report (ch CHR ''A'') ob (price ob) (quantity ob), drop_report ST_NEW ob (price ob) (quantity ob)]"

lemma asks_rest: "column SELL c obs \<Longrightarrow> spec_orders (ask_column xs) obs = (ask_column (xs @ obs), concat (map rest_reports obs))"
proof (induction obs arbitrary: xs)
  case (Cons ob obs)
  have ob: "side ob = SELL" "price ob = 50000" "quantity ob = 10" "instrument_id ob = 0" using Cons.prems by (simp_all add: column_def)
  have "spec_order (ask_column xs) ob = (ask_column (xs @ [ob]), rest_reports ob)"
    using spec_order_rest [of ob "ask_column xs"] ob by (simp add: ask_column_def MAX_PRICE_def rest_reports_def)
  then show ?case using Cons.IH [of "xs @ [ob]"] Cons.prems by (simp add: column_def)
qed simp

lemma bid_lifts:
  assumes "column BUY cb [b]" "column SELL ca [a]" "ca \<noteq> cb"
  shows "spec_order (ask_column (a # as)) b = (ask_column as, fill_reports (b, a))"
proof -
  have b: "side b = BUY" "price b = 50000" "quantity b = 10" "instrument_id b = 0" "client_id b = cb" using assms(1) by (simp_all add: column_def)
  have a: "quantity a = 10" "client_id a = ca" using assms(2) by (simp_all add: column_def)
  let ?V = "side_view (ask_column (a # as)) 0 SELL"
  have ps: "crossing BUY 50000 = [0 ..< 50000] @ [50000]"
    unfolding crossing_def by (simp only: if_True upt_Suc_append Suc_eq_plus1 [symmetric]) simp
  have low: "\<forall>q \<in> set [0 ..< 50000]. ?V q = []" by (auto simp: ask_column_def side_view_def)
  have "spec_match b (a # as) = (b\<lparr> quantity := 0 \<rparr>, as, [(b, a)], False)"
    using b a assms(3) by (simp add: spec_match_idle)
  then have "sweep b (crossing BUY 50000) ?V = (b\<lparr> quantity := 0 \<rparr>, ?V(50000 := as), [(b, a)], False)"
    unfolding ps sweep_skip [OF low] by (simp add: ask_column_def side_view_def)
  moreover have "set_side (ask_column (a # as)) 0 SELL (?V(50000 := as)) = ask_column as"
    by (auto simp: set_side_def side_view_def ask_column_def fun_eq_iff)
  ultimately show ?thesis using b by (simp add: spec_order_def MAX_PRICE_def)
qed

lemma bids_lift:
  assumes "length as = length bs" "column BUY cb bs" "column SELL ca as" "ca \<noteq> cb"
  shows "spec_orders (ask_column as) bs = (ask_column [], concat (map fill_reports (zip bs as)))"
  using assms(1-3)
proof (induction as bs rule: list_induct2)
  case (Cons a as b bs)
  then show ?case using bid_lifts [of cb b ca a as] assms(4) by (simp add: column_def)
qed simp

lemma spec_orders_append:
  "spec_orders B (xs @ ys) = (let (B1, r1) = spec_orders B xs; (B2, r2) = spec_orders B1 ys in (B2, r1 @ r2))"
  by (induction xs arbitrary: B) (simp_all add: split_beta Let_def)

lemma liquidity_fields:
  "liquidity_ask ts i = Some r \<Longrightarrow> eo_side r = ch CHR ''S'' \<and> eo_price r = 50000 \<and> eo_shares r = 10 \<and> eo_stock r = encode_symbol 0"
  "liquidity_bid ts i = Some r \<Longrightarrow> eo_side r = ch CHR ''B'' \<and> eo_price r = 50000 \<and> eo_shares r = 10 \<and> eo_stock r = encode_symbol 0"
  by (auto simp: liquidity_ask_def liquidity_bid_def make_order_def fill_order_def stamp_def bind_eq_Some_conv)

text \<open>The messages of one side: whole, framed as they are, and a column of the book.\<close>

lemma liquidity_side:
  assumes "\<forall>i < n. \<exists>r k. mk i = Some r \<and> admitted r k \<and> eo_side r = sd \<and> eo_price r = 50000 \<and> eo_shares r = 10 \<and> eo_stock r = encode_symbol 0"
    and "takes_all n ks" "length slots = n"
  defines "rs \<equiv> map (\<lambda>i. the (mk i)) [0 ..< n]"
  shows "send_each mk [0 ..< n] ks = Some (concat (map enc_enter_order rs))" "length rs = n"
    and "frames (concat (map enc_enter_order rs)) = (map enc_enter_order rs, [], False)"
    and "column (if sd = ch CHR ''B'' then BUY else SELL) (unat c) (map2 (requested w c) rs slots)"
proof -
  have each: "\<exists>k. admitted r k \<and> eo_side r = sd \<and> eo_price r = 50000 \<and> eo_shares r = 10 \<and> eo_stock r = encode_symbol 0" if "r \<in> set rs" for r
    using that assms(1) unfolding rs_def by force
  show "send_each mk [0 ..< n] ks = Some (concat (map enc_enter_order rs))"
  proof -
    have "\<forall>i \<in> set [0 ..< n]. \<exists>r k. mk i = Some r \<and> admitted r k" using assms(1) by fastforce
    then show ?thesis using send_each_all [of "[0 ..< n]" mk ks] assms(2) by (simp add: rs_def comp_def)
  qed
  show "length rs = n" by (simp add: rs_def)
  show "frames (concat (map enc_enter_order rs)) = (map enc_enter_order rs, [], False)"
    by (rule frames_messages) (use each admitted_message in fastforce)
  have "decode_symbol (encode_symbol 0) = 0" using symbol_decode_encode [of 0] by (simp add: MAX_INSTRUMENTS_def)
  then show "column (if sd = ch CHR ''B'' then BUY else SELL) (unat c) (map2 (requested w c) rs slots)"
    using each by (auto simp: column_def list_all_iff requested_def dest!: set_zip_leftD)
qed

text \<open>
  C33. The crossing driver trades every pair it announces. With both connections accepted and
  whole writes, the program ends with exit code 0 having sent \<open>n\<close> asks on one connection and
  \<open>n\<close> bids on the other, each stream framed by the gateway into exactly these messages. Entered
  in an empty book in that order, under two different client identities and in any slots, each
  ask rests, each bid fills the oldest remaining ask completely, the reports are those of \<open>n\<close>
  full fills, and the book is empty again at the end.
\<close>
theorem liquidity_trades:
  assumes n: "liquidity_pairs (lq_orders w) = Some n" "n < 9999999"
    and up: "lq_connect w = (True, True)" "takes_all n (lq_rester w)" "takes_all n (lq_crosser w)"
    and who: "ca \<noteq> cb" "length sa = n" "length sb = n"
  shows "\<exists>as bs. liquidity_main w = Some (0, concat (map enc_enter_order as), concat (map enc_enter_order bs))
    \<and> length as = n \<and> length bs = n
    \<and> frames (concat (map enc_enter_order as)) = (map enc_enter_order as, [], False)
    \<and> frames (concat (map enc_enter_order bs)) = (map enc_enter_order bs, [], False)
    \<and> spec_orders (\<lambda>_. []) (map2 (requested wa ca) as sa @ map2 (requested wb cb) bs sb) =
        (\<lambda>_. [], concat (map rest_reports (map2 (requested wa ca) as sa))
           @ concat (map fill_reports (zip (map2 (requested wb cb) bs sb) (map2 (requested wa ca) as sa))))"
proof -
  let ?ask = "\<lambda>i. liquidity_ask (lq_clock w False i) i" and ?bid = "\<lambda>i. liquidity_bid (lq_clock w True i) i"
  have "\<forall>i < n. \<exists>r k. ?ask i = Some r \<and> admitted r k \<and> eo_side r = ch CHR ''S'' \<and> eo_price r = 50000 \<and> eo_shares r = 10 \<and> eo_stock r = encode_symbol 0"
    using liquidity_admitted(1) liquidity_fields(1) n(2) by (meson less_trans)
  note A = liquidity_side [OF this up(2) who(2)]
  have "\<forall>i < n. \<exists>r k. ?bid i = Some r \<and> admitted r k \<and> eo_side r = ch CHR ''B'' \<and> eo_price r = 50000 \<and> eo_shares r = 10 \<and> eo_stock r = encode_symbol 0"
    using liquidity_admitted(2) liquidity_fields(2) n(2) by (meson less_trans)
  note B = liquidity_side [OF this up(3) who(3)]
  define as where "as = map (\<lambda>i. the (?ask i)) [0 ..< n]"
  define bs where "bs = map (\<lambda>i. the (?bid i)) [0 ..< n]"
  note A = A [folded as_def] and B = B [folded bs_def]
  let ?A = "map2 (requested wa ca) as sa" and ?B = "map2 (requested wb cb) bs sb"
  have main: "liquidity_main w = Some (0, concat (map enc_enter_order as), concat (map enc_enter_order bs))"
    using n(1) up(1) A(1) B(1) by (simp add: liquidity_main_def)
  have col: "column SELL (unat ca) ?A" "column BUY (unat cb) ?B" using A(4) [of ca wa] B(4) [of cb wb] by simp_all
  have "unat ca \<noteq> unat cb" using who(1) by (simp add: word_unat_eq_iff)
  moreover have "length ?A = length ?B" using A(2) B(2) who(2,3) by simp
  ultimately have "spec_orders (ask_column ?A) ?B = (ask_column [], concat (map fill_reports (zip ?B ?A)))"
    using bids_lift col by blast
  moreover have "spec_orders (ask_column []) ?A = (ask_column ?A, concat (map rest_reports ?A))" using asks_rest [OF col(1), of "[]"] by simp
  moreover have "ask_column [] = (\<lambda>_. [])" by (simp add: ask_column_def fun_eq_iff)
  ultimately have "spec_orders (\<lambda>_. []) (?A @ ?B) = (\<lambda>_. [], concat (map rest_reports ?A) @ concat (map fill_reports (zip ?B ?A)))"
    by (simp add: spec_orders_append)
  then show ?thesis using main A(2,3) B(2,3) by blast
qed

definition driver_world :: liquidity_world where
  "driver_world = \<lparr> lq_orders = Some (map ch ''2''), lq_connect = (True, True), lq_rester = replicate 2 (Sent 81),
     lq_crosser = replicate 2 (Sent 100), lq_clock = (\<lambda>b i. 7) \<rparr>"

theorem liquidity_trades_witness:
  "\<exists>as bs reps. liquidity_main driver_world = Some (0, concat (map enc_enter_order as), concat (map enc_enter_order bs))
    \<and> spec_orders (\<lambda>_. []) (map2 (requested 0 4) as [1, 2] @ map2 (requested 1 5) bs [1, 2]) = (\<lambda>_. [], reps)"
proof -
  have n: "liquidity_pairs (lq_orders driver_world) = Some 2"
    by (simp add: liquidity_pairs_def driver_world_def atoi_def is_space_def is_digit_def word_le_nat_alt)
  have up: "lq_connect driver_world = (True, True)" "takes_all 2 (lq_rester driver_world)" "takes_all 2 (lq_crosser driver_world)"
    by (simp_all add: driver_world_def takes_all_def sizeof_OuchEnterOrder_def list_all_iff)
  show ?thesis using liquidity_trades [OF n _ up, where ca = 4 and cb = 5 and sa = "[1, 2]" and sb = "[1, 2]" and wa = 0 and wb = 1] by auto
qed

section \<open>The load tester's stream\<close>

lemma concat_batched: "length xs \<le> n * b \<Longrightarrow> concat (batched n b xs) = xs"
  by (induction n b xs rule: batched.induct) (simp_all add: algebra_simps)

lemma batched_length: "d \<in> set (batched n b xs) \<Longrightarrow> length d \<le> b \<and> set d \<subseteq> set xs"
  by (induction n b xs rule: batched.induct) (auto dest: in_set_takeD in_set_dropD)

lemma length_batched [simp]: "length (batched n b xs) = n"
  by (induction n b xs rule: batched.induct) simp_all

lemma concat_map_concat: "concat (map (\<lambda>xs. concat (map f xs)) xss) = concat (map f (concat xss))"
  by (induction xss) simp_all

lemma send_batches_all:
  "list_all2 (\<lambda>d k. \<exists>n. k = Sent n \<and> length d \<le> n) ds ks \<Longrightarrow> send_batches ds ks = Some (concat ds)"
  by (induction rule: list_all2_induct) auto

text \<open>The kernel takes whole batches of messages of \<open>s\<close> bytes each.\<close>

definition takes_batches :: "nat \<Rightarrow> send_result list \<Rightarrow> bool" where
  "takes_batches s ks \<longleftrightarrow> length ks = TESTER_TOTAL div TESTER_BATCH
     \<and> list_all (\<lambda>k. case k of Sent m \<Rightarrow> TESTER_BATCH * s \<le> m | _ \<Rightarrow> False) ks"

lemma length_concat_map: "\<forall>x \<in> set xs. length (f x) = s \<Longrightarrow> length (concat (map f xs)) = length xs * s"
  by (induction xs) simp_all

lemma batches_sent:
  assumes "length xs = TESTER_TOTAL" "\<forall>x \<in> set xs. length (enc x) = s" "takes_batches s ks"
  shows "send_batches (map (\<lambda>os. concat (map enc os)) (batched (TESTER_TOTAL div TESTER_BATCH) TESTER_BATCH xs)) ks = Some (concat (map enc xs))"
proof -
  let ?B = "batched (TESTER_TOTAL div TESTER_BATCH) TESTER_BATCH xs"
  have ks: "length ks = TESTER_TOTAL div TESTER_BATCH" "\<forall>k \<in> set ks. \<exists>m. k = Sent m \<and> TESTER_BATCH * s \<le> m"
    using assms(3) by (simp_all add: takes_batches_def list_all_iff) (metis send_result.exhaust send_result.simps)
  have size: "length (concat (map enc d)) \<le> TESTER_BATCH * s" if "d \<in> set ?B" for d
    using batched_length [OF that] assms(2) length_concat_map [of d enc s] by (metis mult_le_mono1 subset_code(1))
  have "list_all2 (\<lambda>d k. \<exists>n. k = Sent n \<and> length d \<le> n) (map (\<lambda>os. concat (map enc os)) ?B) ks"
  proof (rule list_all2_all_nthI)
    show "length (map (\<lambda>os. concat (map enc os)) ?B) = length ks" using ks(1) by simp
  next
    fix i assume i: "i < length (map (\<lambda>os. concat (map enc os)) ?B)"
    then obtain m where "ks ! i = Sent m" "TESTER_BATCH * s \<le> m" using ks by (metis length_batched length_map nth_mem)
    then show "\<exists>n. ks ! i = Sent n \<and> length (map (\<lambda>os. concat (map enc os)) ?B ! i) \<le> n"
      using size [OF nth_mem, of i] i by simp
  qed
  then have "send_batches (map (\<lambda>os. concat (map enc os)) ?B) ks = Some (concat (map (\<lambda>os. concat (map enc os)) ?B))"
    by (rule send_batches_all)
  also have "concat (map (\<lambda>os. concat (map enc os)) ?B) = concat (map enc xs)"
    using concat_batched [of xs "TESTER_TOTAL div TESTER_BATCH" TESTER_BATCH] assms(1)
    by (simp add: concat_map_concat TESTER_TOTAL_def TESTER_BATCH_def)
  finally show ?thesis .
qed

lemma tester_orders_ok:
  "\<forall>i \<in> set is. i < TESTER_TOTAL \<Longrightarrow>
   \<exists>rs. tester_orders workload rnd k is = Some rs \<and> list_all2 (\<lambda>i r. admitted r (i + 1) \<and> in_book r) is rs"
proof (induction "is" arbitrary: k)
  case (Cons i js)
  obtain r where r: "tester_order workload rnd k i = Some r" "admitted r (i + 1) \<and> in_book r"
    using tester_order_admitted [of i workload rnd k] Cons.prems by (auto simp: TESTER_TOTAL_def)
  obtain rs where "tester_orders workload rnd (snd (tester_symbol workload rnd k i) + (if workload = 4 then 1 else 0)) js = Some rs"
    "list_all2 (\<lambda>i r. admitted r (i + 1) \<and> in_book r) js rs" using Cons by fastforce
  then show ?case using r by (simp add: Let_def)
qed simp

lemma tester_cancel_ok:
  assumes "i < TESTER_TOTAL"
  shows "tester_cancel i = Some \<lparr> co_msg_type = ch CHR ''X'', co_order_token = encode_order_token (word_of_nat (i + 1)), co_shares = 10 \<rparr>"
proof -
  have "unat (word_of_nat (i + 1) :: u64) < 10 ^ 14"
    using assms unat_word_of_nat_small(3) [of "i + 1"] by (simp add: TESTER_TOTAL_def)
  then show ?thesis by (simp add: tester_cancel_def padded_token_eq)
qed

lemma those_map: "\<forall>x \<in> set xs. f x = Some (g x) \<Longrightarrow> those (map f xs) = Some (map g xs)"
  by (induction xs) simp_all

abbreviation unload :: "nat \<Rightarrow> OuchCancelOrder" where
  "unload i \<equiv> \<lparr> co_msg_type = ch CHR ''X'', co_order_token = encode_order_token (word_of_nat (i + 1)), co_shares = 10 \<rparr>"

lemma unload_ok:
  assumes "i < TESTER_TOTAL"
  shows "unat (decode_order_token (co_order_token (unload i))) = i + 1" "dec_cancel_order (enc_cancel_order (unload i)) = unload i"
    and "length (enc_cancel_order (unload i)) = 19" "msg_size (hd (enc_cancel_order (unload i))) = Some 19"
proof -
  have u: "unat (word_of_nat (i + 1) :: u64) = i + 1" using assms by (intro unat_word_of_nat_small) (simp add: TESTER_TOTAL_def)
  then have "unat (word_of_nat (i + 1) :: u64) < 10 ^ 14" using assms by (simp add: TESTER_TOTAL_def)
  then show "unat (decode_order_token (co_order_token (unload i))) = i + 1" using u by (simp only: OuchCancelOrder.simps decode_token_encode)
  have wf: "wf_cancel_order (unload i)" by (simp add: wf_cancel_order_def)
  show "dec_cancel_order (enc_cancel_order (unload i)) = unload i" by (rule cancel_order_dec_enc [OF wf])
  show "length (enc_cancel_order (unload i)) = 19" using length_enc_cancel_order [OF wf] by (simp only: sizeof_OuchCancelOrder_def)
  show "msg_size (hd (enc_cancel_order (unload i))) = Some 19"
    by (simp add: enc_cancel_order_def msg_size_def sizeof_OuchCancelOrder_def)
qed

text \<open>
  C34. The load tester loads and unloads. Whatever its workload and random numbers, if the
  connection is accepted and the kernel takes whole batches, the program ends with exit code 0;
  the gateway's framing cuts the two phases into exactly the million orders and then the million
  cancels, nothing left over. Every order passes the gateway's checks and has a price the book
  has a level for, and the \<open>i\<close>-th cancel is decoded to the token of the \<open>i\<close>-th order.
\<close>
theorem tester_stream:
  assumes env: "(case env of Some s \<Rightarrow> atoi s | None \<Rightarrow> Some 1) = Some workload"
    and kernel: "takes_batches sizeof_OuchEnterOrder ks" "takes_batches sizeof_OuchCancelOrder ls"
  shows "\<exists>rs cs a b. tester_main True env rnd ks ls = Some (0, a, b) \<and> tester_orders workload rnd 0 [0 ..< TESTER_TOTAL] = Some rs
    \<and> length rs = TESTER_TOTAL \<and> length cs = TESTER_TOTAL
    \<and> frames (a @ b) = (map enc_enter_order rs @ map enc_cancel_order cs, [], False)
    \<and> (\<forall>i < TESTER_TOTAL. admitted (rs ! i) (i + 1) \<and> in_book (rs ! i)
        \<and> dec_cancel_order (enc_cancel_order (cs ! i)) = cs ! i \<and> unat (decode_order_token (co_order_token (cs ! i))) = i + 1)"
proof -
  obtain rs where rs: "tester_orders workload rnd 0 [0 ..< TESTER_TOTAL] = Some rs"
    "list_all2 (\<lambda>i r. admitted r (i + 1) \<and> in_book r) [0 ..< TESTER_TOTAL] rs"
    using tester_orders_ok [of "[0 ..< TESTER_TOTAL]" workload rnd 0] by auto
  define cs where "cs = map unload [0 ..< TESTER_TOTAL]"
  have len: "length rs = TESTER_TOTAL" "length cs = TESTER_TOTAL" using list_all2_lengthD [OF rs(2)] by (simp_all add: cs_def)
  have each: "admitted (rs ! i) (i + 1) \<and> in_book (rs ! i)" if "i < TESTER_TOTAL" for i
    using rs(2) that by (auto simp: list_all2_conv_all_nth)
  have adm: "\<exists>k. admitted r k" if "r \<in> set rs" for r using each that len(1) by (metis in_set_conv_nth)
  have cs: "\<exists>i < TESTER_TOTAL. c = unload i" if "c \<in> set cs" for c using that by (auto simp: cs_def)
  have "those (map tester_cancel [0 ..< TESTER_TOTAL]) = Some cs"
    unfolding cs_def by (rule those_map) (auto simp: tester_cancel_ok)
  moreover have "send_batches (map (\<lambda>os. concat (map enc_enter_order os)) (batched (TESTER_TOTAL div TESTER_BATCH) TESTER_BATCH rs)) ks = Some (concat (map enc_enter_order rs))"
    by (rule batches_sent [OF len(1) _ kernel(1)]) (use adm in \<open>auto simp: admitted_def\<close>)
  moreover have "send_batches (map (\<lambda>xs. concat (map enc_cancel_order xs)) (batched (TESTER_TOTAL div TESTER_BATCH) TESTER_BATCH cs)) ls = Some (concat (map enc_cancel_order cs))"
    by (rule batches_sent [OF len(2) _ kernel(2)]) (use cs unload_ok(3) in \<open>auto simp: sizeof_OuchCancelOrder_def\<close>)
  ultimately have main: "tester_main True env rnd ks ls = Some (0, concat (map enc_enter_order rs), concat (map enc_cancel_order cs))"
    using env rs(1) by (simp add: tester_main_def)
  have "\<forall>f \<in> set (map enc_enter_order rs @ map enc_cancel_order cs). f \<noteq> [] \<and> msg_size (hd f) = Some (length f)"
    using adm admitted_message cs unload_ok(3,4) by fastforce
  from frames_messages [OF this] have "frames (concat (map enc_enter_order rs) @ concat (map enc_cancel_order cs)) =
      (map enc_enter_order rs @ map enc_cancel_order cs, [], False)" by simp
  moreover have "cs ! i = unload i" if "i < TESTER_TOTAL" for i using that by (simp add: cs_def)
  ultimately show ?thesis using main rs(1) len each unload_ok(1,2) by (metis (no_types, lifting))
qed

theorem tester_stream_witness:
  "\<exists>a b. tester_main True None (\<lambda>k. 3 * k) (replicate 500 (Sent 162000)) (replicate 500 (Sent 38000)) = Some (0, a, b)
    \<and> length (fst (frames (a @ b))) = 2000000"
proof -
  have "(case None of Some s \<Rightarrow> atoi s | None \<Rightarrow> Some 1) = Some 1" by simp
  moreover have "takes_batches sizeof_OuchEnterOrder (replicate 500 (Sent 162000))" "takes_batches sizeof_OuchCancelOrder (replicate 500 (Sent 38000))"
    by (simp_all add: takes_batches_def TESTER_TOTAL_def TESTER_BATCH_def sizeof_OuchEnterOrder_def sizeof_OuchCancelOrder_def list_all_iff)
  ultimately show ?thesis using tester_stream [of None 1 _ _ "\<lambda>k. 3 * k"] by (fastforce simp: TESTER_TOTAL_def)
qed

text \<open>
  The load tester ignores the result of \<open>send\<close>. A batch the kernel takes only in part is followed
  by the next one, and the gateway joins the head of one order to the body of another: here
  seven bytes of the first message were taken.
\<close>

lemma short_batch_corrupts:
  assumes "admitted r j" "admitted q k"
  shows "\<exists>w. send_batches [enc_enter_order r, enc_enter_order q] [Sent 7, Sent sizeof_OuchEnterOrder] = Some w
    \<and> hd (fst (frames w)) = take 7 (enc_enter_order r) @ take 74 (enc_enter_order q)"
proof -
  let ?w = "take 7 (enc_enter_order r) @ enc_enter_order q"
  obtain fs rest bad where "frames (drop 81 ?w) = (fs, rest, bad)" by (cases "frames (drop 81 ?w)")
  moreover have "?w \<noteq> []" "msg_size (hd ?w) = Some 81" "81 \<le> length ?w"
    using assms by (auto simp: admitted_def sizeof_OuchEnterOrder_def hd_append)
  ultimately have "frames ?w = (take 81 ?w # fs, rest, bad)" by (intro frames_message)
  then show ?thesis using assms by (auto simp: admitted_def sizeof_OuchEnterOrder_def)
qed

end
