(* ===== verification/Exchange_Life.thy ===== *)
theory Exchange_Life
  imports Exchange Consumers Launch "HOL-Library.Multiset"
begin

text \<open>
  The life of the exchange process around its running state: the listeners the gateway opens
  (constructor and \<open>run\<close> of \<open>gateway/tcp_server.h\<close>), the threads \<open>main\<close> of \<open>app/exchange.cpp\<close> starts and
  the barrier it waits at before \<open>READY\<close>, and the shutdown: the last drain of the latency queues
  and the reports printed at the end.
\<close>

section \<open>Listeners\<close>

text \<open>Whether \<open>bind\<close> and \<open>listen\<close> succeed for the \<open>i\<close>-th listener; the exceptions of the constructor.\<close>

record listen_setup =
  ls_bind :: bool
  ls_listen :: bool

datatype server_error = Bind_failed | Listen_failed

definition clamp_threads :: "int \<Rightarrow> int" where
  "clamp_threads threads =
     (let n = (if threads < 1 then 1 else threads) in if n > 16 then 16 else n)"

fun open_listeners :: "(nat \<Rightarrow> listen_setup) \<Rightarrow> nat list \<Rightarrow> nat list \<Rightarrow> server_error + nat list" where
  "open_listeners k [] fds = Inr fds"
| "open_listeners k (i # is) fds =
     (if \<not> ls_bind (k i) then Inl Bind_failed
      else if \<not> ls_listen (k i) then Inl Listen_failed
      else open_listeners k is (fds @ [i]))"

definition open_server :: "(nat \<Rightarrow> listen_setup) \<Rightarrow> int \<Rightarrow> server_error + nat list" where
  "open_server k threads = open_listeners k [0 ..< nat (clamp_threads threads)] []"

text \<open>The soft limit on descriptors is raised to the hard one.\<close>

definition raise_fd_limit :: "(nat \<times> nat) option \<Rightarrow> (nat \<times> nat) option" where
  "raise_fd_limit rl = (case rl of
     Some (cur, mx) \<Rightarrow> if cur < mx then Some (mx, mx) else Some (cur, mx)
   | None \<Rightarrow> None)"

section \<open>Threads\<close>

datatype role = Publisher_thread | Engine_thread nat | Dispatcher_thread | Order_manager_thread | Worker_thread nat

text \<open>The environment: the core lists, the realtime priority, and which threads the kernel grants it.\<close>

record launch_env =
  le_engine_cores :: "bytes option"
  le_aux_cores :: "bytes option"
  le_gateway_cores :: "bytes option"
  le_rt_priority :: "int option"
  le_grants :: "role \<Rightarrow> bool"

text \<open>\<open>set_realtime_priority\<close> pins the thread to the given core and then asks for its priority.\<close>

definition set_realtime_priority :: "launch_env \<Rightarrow> role \<Rightarrow> int \<Rightarrow> rt_counters \<Rightarrow> int option \<times> rt_counters" where
  "set_realtime_priority env who core r = (Some core, snd (rt_acquire (le_rt_priority env) (le_grants env who) r))"

text \<open>\<open>pin_gateway_worker\<close>: a worker without an entry in the list stays where it is.\<close>

definition pin_gateway_worker :: "launch_env \<Rightarrow> nat \<Rightarrow> rt_counters \<Rightarrow> (int option \<times> rt_counters) option" where
  "pin_gateway_worker env thread_id r = do {
     core \<leftarrow> core_for_worker (le_gateway_cores env) (int thread_id);
     Some (if core \<ge> 0 then Some core else None, snd (rt_acquire (le_rt_priority env) (le_grants env (Worker_thread thread_id)) r)) }"

text \<open>The start-up hook of each thread: the core it is pinned to, and the counters.\<close>

fun start_thread :: "launch_env \<Rightarrow> role \<Rightarrow> rt_counters \<Rightarrow> (int option \<times> rt_counters) option" where
  "start_thread env Publisher_thread r = do {
     c \<leftarrow> aux_core (le_aux_cores env) 0 12; Some (set_realtime_priority env Publisher_thread c r) }"
| "start_thread env (Engine_thread i) r = do {
     c \<leftarrow> engine_core (le_engine_cores env) (int i); Some (set_realtime_priority env (Engine_thread i) c r) }"
| "start_thread env Dispatcher_thread r = do {
     c \<leftarrow> aux_core (le_aux_cores env) 2 10; Some (set_realtime_priority env Dispatcher_thread c r) }"
| "start_thread env Order_manager_thread r = do {
     c \<leftarrow> aux_core (le_aux_cores env) 1 14; Some (set_realtime_priority env Order_manager_thread c r) }"
| "start_thread env (Worker_thread i) r = pin_gateway_worker env i r"

text \<open>The threads of \<open>main\<close>, and the workers the dispatcher starts in \<open>TCPServer::run\<close>.\<close>

definition server_run :: "int \<Rightarrow> role list" where
  "server_run num_threads = map Worker_thread [0 ..< nat num_threads]"

definition spawned :: "nat \<Rightarrow> role list" where
  "spawned num_gw = Publisher_thread # map Engine_thread [0 ..< NUM_SHARDS] @
     Dispatcher_thread # Order_manager_thread # server_run (clamp_threads (int num_gw))"

text \<open>The argument of \<open>rt::await\<close>.\<close>

definition awaited :: "nat \<Rightarrow> int" where
  "awaited num_gw = int num_gw + int NUM_SHARDS + 3"

fun start_all :: "launch_env \<Rightarrow> role list \<Rightarrow> rt_counters \<Rightarrow> rt_counters option" where
  "start_all env [] r = Some r"
| "start_all env (t # ts) r = do { (core, r1) \<leftarrow> start_thread env t r; start_all env ts r1 }"

section \<open>Shutdown\<close>

text \<open>The signal handler's effect on \<open>g_running\<close>.\<close>

definition signal_handler :: "int \<Rightarrow> bool \<Rightarrow> bool" where
  "signal_handler signal running = (if signal = 2 \<or> signal = 15 then False else running)"

text \<open>The last drain, when every thread has been joined.\<close>

definition final_drain :: "gateway \<Rightarrow> timer \<Rightarrow> (gateway \<times> timer) option" where
  "final_drain g t = do {
     (qs, t1) \<leftarrow> drain_all (\<lambda>x u. add_latency u (word_of_nat (snd x) - word_of_nat (fst x))) (map e_tsc_queue (gw_engines g)) t;
     Some (g\<lparr> gw_engines := map2 (\<lambda>e q. e\<lparr> e_tsc_queue := q \<rparr>) (gw_engines g) qs \<rparr>, t1) }"

text \<open>The averages of \<open>print_experiment_4_stats\<close>: the latency decomposition and the cycles per order.\<close>

definition latency_averages :: "gw_stats \<Rightarrow> u64 list option" where
  "latency_averages s = (let n = num_samples s in
     if n > 0 then Some [total_udp s div n, total_trading s div n, total_q s div n, total_tcp s div n, total_e2e s div n]
     else None)"

definition order_averages :: "gw_stats \<Rightarrow> u64 list option" where
  "order_averages s = (let orders = total_orders_processed s in
     if orders > 0 then
       Some [total_epoll_cycles s div orders, total_read_cycles s div orders, total_decode_cycles s div orders,
             total_validation_cycles s div orders, total_enqueue_cycles s div orders, total_allocate_cycles s div orders,
             total_record_cycles s div orders, total_push_cycles s div orders, total_drain_cycles s div orders,
             (total_epoll_cycles s + total_read_cycles s + total_decode_cycles s + total_validation_cycles s +
              total_enqueue_cycles s + total_drain_cycles s) div orders]
     else None)"

text \<open>The polls summed over the shards in 64 bits; \<open>ratio\<close> stands for the percentage in floating point.\<close>

definition engine_idle_ratio :: "(u64 \<Rightarrow> u64 \<Rightarrow> 'd) \<Rightarrow> 'd \<Rightarrow> engine list \<Rightarrow> 'd" where
  "engine_idle_ratio ratio zero es =
     (let total_idle_polls = sum_list (map (\<lambda>e. word_of_nat (engine_polls_idle e)) es);
          total_active_polls = sum_list (map (\<lambda>e. word_of_nat (engine_polls_active e)) es);
          total_polls = total_idle_polls + total_active_polls
      in if total_polls > 0 then ratio total_idle_polls total_polls else zero)"

record 'd final_report =
  fr_session :: "latency_report option option"
  fr_latency :: "u64 list option"
  fr_orders :: "u64 list option"
  fr_e2e :: "latency_report option option"
  fr_tcp :: "latency_report option option"
  fr_dropped :: "nat \<times> nat"
  fr_idle :: 'd

definition shutdown :: "(u64 \<Rightarrow> u64 \<Rightarrow> 'd) \<Rightarrow> 'd \<Rightarrow> gateway \<Rightarrow> timer \<Rightarrow> (gateway \<times> 'd final_report) option" where
  "shutdown ratio zero g t = do {
     (g1, t1) \<leftarrow> final_drain g t;
     Some (g1, \<lparr> fr_session = print_stats t1, fr_latency = latency_averages (gws g1), fr_orders = order_averages (gws g1),
       fr_e2e = print_stats (e2e_timer (gws g1)), fr_tcp = print_stats (tcp_timer (gws g1)),
       fr_dropped = (sum_list (map (\<lambda>e. dropped_reports (outs (e_shard e))) (gw_engines g1)) mod 2 ^ 64,
                     sum_list (map (\<lambda>e. dropped_drop_copies (outs (e_shard e))) (gw_engines g1)) mod 2 ^ 64),
       fr_idle = engine_idle_ratio ratio zero (gw_engines g1) \<rparr>) }"

section \<open>The barrier\<close>

lemma start_thread_acquires:
  assumes "start_thread env t r = Some (c, r1)"
  shows "\<exists>p b. r1 = snd (rt_acquire p b r)"
  using assms by (cases t) (auto simp: set_realtime_priority_def pin_gateway_worker_def bind_eq_Some_conv)

lemma start_thread_counts:
  assumes "start_thread env t r = Some (c, r1)" "rt_ok r"
  shows "rt_ok r1" "rt_started r1 = rt_started r + 1"
proof -
  obtain p b where r1: "r1 = snd (rt_acquire p b r)" using start_thread_acquires [OF assms(1)] by blast
  show "rt_ok r1" "rt_started r1 = rt_started r + 1"
    using rt_acquire_counts(1,2) [OF assms(2) prod.collapse [symmetric], of p b] unfolding r1 by simp_all
qed

lemma start_all_counts:
  "start_all env ts r = Some r1 \<Longrightarrow> rt_ok r \<Longrightarrow> rt_ok r1 \<and> rt_started r1 = rt_started r + int (length ts)"
proof (induction ts arbitrary: r)
  case (Cons t ts)
  obtain c r0 where s: "start_thread env t r = Some (c, r0)" "start_all env ts r0 = Some r1"
    using Cons.prems(1) by (auto simp: bind_eq_Some_conv)
  show ?case using Cons.IH [OF s(2) start_thread_counts(1) [OF s(1) Cons.prems(2)]] start_thread_counts(2) [OF s(1) Cons.prems(2)] by simp
qed simp

lemma rt_await_first: "i \<le> j \<Longrightarrow> expected \<le> seen j \<Longrightarrow> rt_await expected timeout_ms seen i \<le> j"
proof (induction expected timeout_ms seen i rule: rt_await.induct)
  case (1 expected timeout_ms seen i)
  show ?case
  proof (cases "i < timeout_ms \<and> seen i < expected")
    case True
    then have "i \<noteq> j" using "1.prems"(2) by auto
    then show ?thesis using 1 True by (simp add: rt_await.simps [of expected timeout_ms seen i])
  qed (use "1.prems" in \<open>auto simp: rt_await.simps [of expected timeout_ms seen i]\<close>)
qed

lemma length_spawned: "int (length (spawned (num_gateways n))) = awaited (num_gateways n)"
  using num_gateways_range [of n] by (simp add: spawned_def awaited_def server_run_def clamp_threads_def)

section \<open>The last drain\<close>

lemma print_stats_defined: "latencies t \<noteq> [] \<Longrightarrow> print_stats t \<noteq> Some None"
proof -
  assume ne: "latencies t \<noteq> []"
  define s where "s = sort (take (if t_count t > length (latencies t) then length (latencies t) else t_count t) (latencies t))"
  show ?thesis
  proof (cases "t_count t = 0")
    case False
    then have s: "0 < length s" using ne by (simp add: s_def)
    then have "length s div 2 < length s" "length s * 99 div 100 < length s" "length s * 999 div 1000 < length s"
      "length s * 9999 div 10000 < length s" "s \<noteq> []"
      using percentile_index [OF s, of 99 100] percentile_index [OF s, of 999 1000] percentile_index [OF s, of 9999 10000] by auto
    then show ?thesis using False unfolding print_stats_def Let_def s_def [symmetric] by (simp add: arr_simps)
  qed (simp add: print_stats_def Let_def)
qed

definition queued_latencies :: "gateway \<Rightarrow> u64 list" where
  "queued_latencies g = map (\<lambda>x. word_of_nat (snd x) - word_of_nat (fst x)) (concat (map (lfq_items \<circ> e_tsc_queue) (gw_engines g)))"

lemma engine_ok_tsc: "engine_ok e V P \<Longrightarrow> lfq_ok q \<Longrightarrow> engine_ok (e\<lparr> e_tsc_queue := q \<rparr>) V P"
  by (simp add: engine_ok_def)

lemma final_drain_spec:
  assumes ok: "gw_ok W g V P" and count: "t_count t + length (queued_latencies g) < 2 ^ 64"
  shows "\<exists>g1 t1. final_drain g t = Some (g1, t1) \<and> gw_ok W g1 V P \<and> gws g1 = gws g
    \<and> list_all (\<lambda>e. lfq_items (e_tsc_queue e) = []) (gw_engines g1)
    \<and> samples t1 = take (length (latencies t)) (samples t @ queued_latencies g)
    \<and> length (latencies t1) = length (latencies t)"
proof -
  let ?f = "\<lambda>x u. add_latency u (word_of_nat (snd x) - word_of_nat (fst x))" and ?qs = "map e_tsc_queue (gw_engines g)"
  have "\<forall>q \<in> set ?qs. lfq_ok q" using gw_okD(3,5) [OF ok] by (auto simp: in_set_conv_nth engine_ok_def)
  then obtain qs where qs: "drain_all ?f ?qs t = Some (qs, fold ?f (concat (map lfq_items ?qs)) t)" "drained_to ?qs qs"
    using drain_all_spec [of ?qs ?f t] by blast
  have len: "length qs = NUM_SHARDS" using qs(2) gw_okD(3) [OF ok] by (simp add: drained_to_def)
  define g1 where "g1 = g\<lparr> gw_engines := map2 (\<lambda>e q. e\<lparr> e_tsc_queue := q \<rparr>) (gw_engines g) qs \<rparr>"
  have nth: "gw_engines g1 ! s = (gw_engines g ! s)\<lparr> e_tsc_queue := qs ! s \<rparr>" if "s < NUM_SHARDS" for s
    using that len gw_okD(3) [OF ok] by (simp add: g1_def)
  have q: "lfq_ok (qs ! s)" "lfq_items (qs ! s) = []" if "s < NUM_SHARDS" for s
    using that qs(2) len by (auto simp: drained_to_def)
  have "gw_ok W g1 V P"
    using ok len q(1) unfolding gw_ok_def
    by (simp add: nth engine_ok_tsc idents_def) (simp add: g1_def)
  moreover have "list_all (\<lambda>e. lfq_items (e_tsc_queue e) = []) (gw_engines g1)"
    using q(2) nth len gw_okD(3) [OF ok] by (auto simp: list_all_length g1_def)
  moreover have "fold ?f xs t = fold (\<lambda>d u. add_latency u d) (map (\<lambda>x. word_of_nat (snd x) - word_of_nat (fst x)) xs) t" for xs
    by (induction xs arbitrary: t) auto
  moreover have "map (\<lambda>x. word_of_nat (snd x) - word_of_nat (fst x)) (concat (map lfq_items ?qs)) = queued_latencies g"
    by (simp add: queued_latencies_def)
  ultimately show ?thesis
    using qs(1) fold_add_latency [OF count] by (auto simp: final_drain_def g1_def)
qed

section \<open>Properties\<close>

text \<open>
  C36. \<open>READY\<close> means that every thread is up. For every configured number of gateway workers, the
  count \<open>main\<close> waits for is the number of threads that are started, workers of the dispatcher
  included; in whatever order they run their start-up hooks, and whatever realtime priority is
  requested or granted, each is counted once. The barrier therefore never opens before its
  timeout unless all of them are up, and it opens in time when they are up in time.
\<close>
theorem startup_barrier:
  assumes order: "mset ts = mset (spawned (num_gateways n))" and all: "start_all env ts rt_init = Some r"
    and seen: "\<forall>i. \<exists>ri. start_all env (take (k i) ts) rt_init = Some ri \<and> seen i = rt_started ri \<and> k i \<le> length ts"
  shows "rt_started r = awaited (num_gateways n) \<and> rt_ok r
    \<and> rt_await (awaited (num_gateways n)) timeout seen 0 \<le> timeout
    \<and> (rt_await (awaited (num_gateways n)) timeout seen 0 < timeout \<longleftrightarrow> (\<exists>i < timeout. k i = length ts))"
proof -
  let ?N = "awaited (num_gateways n)"
  have len: "int (length ts) = ?N" using length_spawned [of n] mset_eq_length [OF order] by simp
  have ok0: "rt_ok rt_init" "rt_started rt_init = 0" by (simp_all add: rt_ok_def rt_init_def)
  have r: "rt_started r = ?N" "rt_ok r" using start_all_counts [OF all ok0(1)] len ok0(2) by auto
  have k: "seen i = int (k i) \<and> k i \<le> length ts" for i
  proof -
    obtain ri where "start_all env (take (k i) ts) rt_init = Some ri" "seen i = rt_started ri" "k i \<le> length ts" using seen by blast
    then show ?thesis using start_all_counts [of env "take (k i) ts" rt_init ri] ok0 by simp
  qed
  note ends = rt_await_ends [of 0 timeout ?N seen]
  have "(rt_await ?N timeout seen 0 < timeout \<longleftrightarrow> (\<exists>i < timeout. k i = length ts))"
  proof
    assume lt: "rt_await ?N timeout seen 0 < timeout"
    then have "?N \<le> seen (rt_await ?N timeout seen 0)" using ends by simp
    then have "k (rt_await ?N timeout seen 0) = length ts" using k [of "rt_await ?N timeout seen 0"] len by simp
    then show "\<exists>i < timeout. k i = length ts" using lt by blast
  next
    assume "\<exists>i < timeout. k i = length ts"
    then obtain i where i: "i < timeout" "?N \<le> seen i" using k len by auto
    then show "rt_await ?N timeout seen 0 < timeout" using rt_await_first [of 0 i ?N seen timeout] by simp
  qed
  then show ?thesis using r ends by simp
qed

text \<open>One worker, nothing pinned: three naps until all eight threads are up.\<close>

definition plain_env :: launch_env where
  "plain_env = \<lparr> le_engine_cores = None, le_aux_cores = None, le_gateway_cores = None, le_rt_priority = Some 0, le_grants = (\<lambda>_. False) \<rparr>"

lemma spawned_1: "spawned 1 = [Publisher_thread, Engine_thread 0, Engine_thread 1, Engine_thread 2, Engine_thread 3,
    Dispatcher_thread, Order_manager_thread, Worker_thread 0]"
  by (simp add: spawned_def server_run_def clamp_threads_def NUM_SHARDS_def upt_rec)

theorem startup_barrier_witness:
  "rt_await (awaited (num_gateways None)) 15000 (\<lambda>i. if i < 3 then 0 else 8) 0 < 15000
   \<and> awaited (num_gateways None) = 8"
proof -
  have n: "num_gateways None = 1" by (simp add: num_gateways_def)
  note simps = plain_env_def aux_core_def engine_core_def core_for_worker_def set_realtime_priority_def pin_gateway_worker_def
    rt_acquire_def rt_priority_def rt_init_def Let_def
  have all: "start_all plain_env (spawned 1) rt_init = Some \<lparr> rt_started = 8, rt_requested = 0, rt_granted = 0 \<rparr>"
    unfolding spawned_1 by (simp add: simps)
  have eight: "length (spawned 1) = 8" unfolding spawned_1 by simp
  have "\<exists>ri. start_all plain_env (take (if i < 3 then 0 else 8) (spawned 1)) rt_init = Some ri
      \<and> (if i < 3 then 0 else 8) = rt_started ri \<and> (if i < 3 then 0 else 8) \<le> length (spawned 1)" for i :: nat
    using all eight by (simp add: rt_init_def)
  from startup_barrier [where n = None and ts = "spawned 1" and env = plain_env and k = "\<lambda>i. if i < 3 then 0 else 8"
      and seen = "\<lambda>i. if i < 3 then 0 else 8" and timeout = 15000, unfolded n, OF refl all allI, OF this]
  have "rt_await (awaited 1) 15000 (\<lambda>i. if i < 3 then 0 else 8) 0 < 15000" using eight by (auto intro: exI [of _ 3])
  then show ?thesis unfolding n by (simp add: awaited_def NUM_SHARDS_def)
qed

text \<open>
  C37. Shutdown accounts for every latency sample. In every reachable state of the exchange the
  last drain returns with the latency queues of all shards empty and the invariant kept; each
  sample that was still queued is in the reservoir once, behind those already there and in the
  order of its shard, up to the reservoir's capacity; and the session report, the gateway's two
  reports and the averages are printed without an index out of range or a division by zero.
\<close>
theorem shutdown_accounts_samples:
  assumes reach: "reachable (num_gateways n) (exchange_init n pr raw) g"
    and count: "t_count t + length (queued_latencies g) < 2 ^ 64"
    and room: "latencies t \<noteq> []" "latencies (e2e_timer (gws g)) \<noteq> []" "latencies (tcp_timer (gws g)) \<noteq> []"
  shows "\<exists>g1 t1 rep. final_drain g t = Some (g1, t1) \<and> shutdown ratio zero g t = Some (g1, rep)
    \<and> (\<exists>V P. gw_ok (num_gateways n) g1 V P) \<and> queued_latencies g1 = []
    \<and> samples t1 = take (length (latencies t)) (samples t @ queued_latencies g)
    \<and> fr_session rep = print_stats t1 \<and> fr_session rep \<noteq> Some None \<and> fr_e2e rep \<noteq> Some None \<and> fr_tcp rep \<noteq> Some None
    \<and> (fr_latency rep = None \<longleftrightarrow> num_samples (gws g) = 0) \<and> (fr_orders rep = None \<longleftrightarrow> total_orders_processed (gws g) = 0)"
proof -
  obtain V P where ok: "gw_ok (num_gateways n) g V P" using reachable_ok [OF reach exchange_init_ok] by blast
  obtain g1 t1 where d: "final_drain g t = Some (g1, t1)" "gw_ok (num_gateways n) g1 V P" "gws g1 = gws g"
    "list_all (\<lambda>e. lfq_items (e_tsc_queue e) = []) (gw_engines g1)"
    "samples t1 = take (length (latencies t)) (samples t @ queued_latencies g)" "length (latencies t1) = length (latencies t)"
    using final_drain_spec [OF ok count] by blast
  have "queued_latencies g1 = []" using d(4) by (auto simp: queued_latencies_def list_all_iff)
  moreover have "latencies t1 \<noteq> []" using d(6) room(1) by auto
  ultimately show ?thesis
    using d room print_stats_defined
    by (auto simp: shutdown_def latency_averages_def order_averages_def Let_def word_gt_0)
qed

theorem shutdown_accounts_samples_witness:
  "\<exists>g1 rep. shutdown (\<lambda>a b. unat a) 0 sample_exchange (add_latency (timer_init 4) 30) = Some (g1, rep) \<and> queued_latencies g1 = []
    \<and> fr_session rep \<noteq> Some None \<and> fr_orders rep = None"
proof -
  have 1: "reachable (num_gateways None) (exchange_init None False sample_raw) sample_exchange"
    unfolding sample_exchange_def by (rule reachable.start)
  have 2: "queued_latencies sample_exchange = []"
    by (simp add: queued_latencies_def sample_exchange_def exchange_init_def Let_def shard_start_def engine_init_def lfq_init_def lfq_items_def)
  have 3: "gws sample_exchange = gw_stats_init" by (simp add: sample_exchange_def exchange_init_def Let_def)
  have 4: "t_count (add_latency (timer_init 4) 30) = 1" "latencies (add_latency (timer_init 4) 30) \<noteq> []"
    by (simp_all add: add_latency_def timer_init_def Let_def)
  show ?thesis
    using shutdown_accounts_samples [OF 1, of "add_latency (timer_init 4) 30" "\<lambda>a b. unat a" 0] 2 3 4
    by (auto simp: gw_stats_init_def timer_init_def)
qed

end
