(* ===== verification/Bench_Model.thy ===== *)
theory Bench_Model
  imports Book_Props Timer Complex_Main
begin

text \<open>
  The book-only benchmark (\<open>hft_engine/src/tools/bench_orderbook.cpp\<close>): its fixture (one order
  book with a pool of one worker and no acknowledgement queues) and the scenarios that time adds,
  cancels, matches and a mix of them.

  Random numbers and clock readings are inputs: a scenario takes the draws of its generator, the
  permutation \<open>std::shuffle\<close> applies, and for the \<open>i\<close>-th operation the two readings around it.
  A draw of \<open>normal_distribution<double>\<close> is a real number. \<open>None\<close> is undefined behaviour inside
  an operation of the book.
\<close>

section \<open>The fixture\<close>

definition MID_PRICE :: nat where "MID_PRICE = 50000"
definition DRAIN_EVERY :: nat where "DRAIN_EVERY = 65536"
definition MAKER :: nat where "MAKER = 1"
definition TAKER :: nat where "TAKER = 2"

record fixture =
  fx_shard :: shard
  fx_book :: book

text \<open>The book is wired without ack queues: \<open>init\<close> gets a null pointer for them.\<close>

definition fixture_init :: "(nat \<Rightarrow> ItchMessage) \<Rightarrow> (nat \<Rightarrow> DropCopyMessage) \<Rightarrow> fixture" where
  "fixture_init bi bd =
     \<lparr> fx_shard = shard_init 1 \<lparr> mkt_data_queue = lfq_init 1048576 bi, drop_copy_queue = lfq_init 1048576 bd,
                                 ack_queues = None, dropped_reports = 0, dropped_drop_copies = 0 \<rparr>,
       fx_book = book_init \<rparr>"

definition bench_order :: "Side \<Rightarrow> nat \<Rightarrow> nat \<Rightarrow> nat \<Rightarrow> nat \<Rightarrow> order_node" where
  "bench_order sd px qty token owner = new_Order 0 token owner px qty 0 sd 0"

definition prepare :: "fixture \<Rightarrow> Side \<Rightarrow> nat \<Rightarrow> nat \<Rightarrow> nat \<Rightarrow> nat \<Rightarrow> (nat option \<times> fixture) option" where
  "prepare f sd px qty token owner = do {
     (r, sh) \<leftarrow> place_order (fx_shard f) 0 (bench_order sd px qty token owner);
     Some (r, f\<lparr> fx_shard := sh \<rparr>) }"

definition fx_match :: "fixture \<Rightarrow> nat \<Rightarrow> fixture option" where
  "fx_match f a = do {
     (sh, b) \<leftarrow> match_order (fx_shard f) (fx_book f) a;
     Some (f\<lparr> fx_shard := sh, fx_book := b \<rparr>) }"

definition fx_cancel :: "fixture \<Rightarrow> nat \<Rightarrow> fixture option" where
  "fx_cancel f oid = do {
     (sh, b) \<leftarrow> cancel_order (fx_shard f) (fx_book f) oid;
     Some (f\<lparr> fx_shard := sh, fx_book := b \<rparr>) }"

definition submit :: "fixture \<Rightarrow> Side \<Rightarrow> nat \<Rightarrow> nat \<Rightarrow> nat \<Rightarrow> nat \<Rightarrow> (nat \<times> fixture) option" where
  "submit f sd px qty token owner = do {
     (r, f1) \<leftarrow> prepare f sd px qty token owner;
     case r of
       None \<Rightarrow> Some (0, f1)
     | Some a \<Rightarrow> do { f2 \<leftarrow> fx_match f1 a; Some (a, f2) } }"

definition fx_drain :: "fixture \<Rightarrow> fixture option" where
  "fx_drain f = do {
     let s = outs (fx_shard f);
     (q1, _) \<leftarrow> drain lfq_pop (\<lambda>_ u. u) (mkt_data_queue s) ();
     (q2, _) \<leftarrow> drain lfq_pop (\<lambda>_ u. u) (drop_copy_queue s) ();
     Some (f\<lparr> fx_shard := (fx_shard f)\<lparr> outs := s\<lparr> mkt_data_queue := q1, drop_copy_queue := q2 \<rparr> \<rparr> \<rparr>) }"

text \<open>\<open>if ((i & (DRAIN_EVERY - 1)) == 0) f.drain()\<close>; \<open>DRAIN_EVERY\<close> is a power of two.\<close>

definition drain_at :: "nat \<Rightarrow> fixture \<Rightarrow> fixture option" where
  "drain_at i f = (if i mod DRAIN_EVERY = 0 then fx_drain f else Some f)"

section \<open>Timed operations\<close>

record bench =
  bn_fixture :: fixture
  bn_timer :: timer
  bn_total :: u64
  bn_done :: nat

definition timed :: "u64 \<times> u64 \<Rightarrow> fixture \<Rightarrow> bench \<Rightarrow> bench" where
  "timed se f b = (let d = snd se - fst se in
     b\<lparr> bn_fixture := f, bn_timer := add_latency (bn_timer b) d, bn_total := bn_total b + d \<rparr>)"

definition bench_init :: "fixture \<Rightarrow> timer \<Rightarrow> bench" where
  "bench_init f t = \<lparr> bn_fixture = f, bn_timer = t, bn_total = 0, bn_done = 0 \<rparr>"

text \<open>\<open>report\<close>: the percentiles, and the timer cleared for the next scenario; the throughput is printed in floating point.\<close>

definition bench_report :: "bench \<Rightarrow> latency_report option option \<times> bench" where
  "bench_report b = (print_stats (bn_timer b), b\<lparr> bn_timer := timer_clear (bn_timer b) \<rparr>)"

text \<open>\<open>static_cast<uint32_t>(p < 1.0 ? 1.0 : (p > MAX_PRICE - 2 ? MAX_PRICE - 2 : p))\<close>\<close>

definition clamp_price :: "real \<Rightarrow> nat" where
  "clamp_price p = nat \<lfloor>if p < 1 then 1 else if p > real (MAX_PRICE - 2) then real (MAX_PRICE - 2) else p\<rfloor>"

section \<open>Scenario A: add\<close>

fun add_loop :: "(nat \<Rightarrow> u64 \<times> u64) \<Rightarrow> nat \<Rightarrow> nat list \<Rightarrow> bench \<Rightarrow> bench option" where
  "add_loop clk i [] b = Some b"
| "add_loop clk i (px # pxs) b = do {
     (r, f) \<leftarrow> prepare (bn_fixture b) BUY px 100 (i + 1) MAKER;
     case r of
       None \<Rightarrow> Some (b\<lparr> bn_fixture := f \<rparr>)
     | Some a \<Rightarrow> do {
         f1 \<leftarrow> fx_match f a;
         let b1 = timed (clk i) f1 b;
         f2 \<leftarrow> drain_at i f1;
         add_loop clk (Suc i) pxs (b1\<lparr> bn_fixture := f2, bn_done := bn_done b + 1 \<rparr>) } }"

definition bench_add :: "(nat \<Rightarrow> u64 \<times> u64) \<Rightarrow> real list \<Rightarrow> fixture \<Rightarrow> timer \<Rightarrow> (latency_report option option \<times> bench) option" where
  "bench_add clk draws f t = do {
     b \<leftarrow> add_loop clk 0 (map clamp_price draws) (bench_init f t);
     Some (bench_report b) }"

section \<open>Scenario B: cancel\<close>

fun build_loop :: "nat \<Rightarrow> nat list \<Rightarrow> nat list \<Rightarrow> fixture \<Rightarrow> (nat list \<times> fixture) option" where
  "build_loop i [] ids f = Some (ids, f)"
| "build_loop i (px # pxs) ids f = do {
     (oid, f1) \<leftarrow> submit f BUY px 100 (i + 1) MAKER;
     if oid = 0 then Some (ids, f1)
     else do {
       f2 \<leftarrow> drain_at i f1;
       build_loop (Suc i) pxs (ids @ [oid]) f2 } }"

fun cancel_loop :: "(nat \<Rightarrow> u64 \<times> u64) \<Rightarrow> nat \<Rightarrow> nat list \<Rightarrow> bench \<Rightarrow> bench option" where
  "cancel_loop clk i [] b = Some b"
| "cancel_loop clk i (oid # ids) b = do {
     f1 \<leftarrow> fx_cancel (bn_fixture b) oid;
     let b1 = timed (clk i) f1 b;
     f2 \<leftarrow> drain_at i f1;
     cancel_loop clk (Suc i) ids (b1\<lparr> bn_fixture := f2 \<rparr>) }"

definition bench_cancel :: "(nat \<Rightarrow> u64 \<times> u64) \<Rightarrow> (nat list \<Rightarrow> nat list) \<Rightarrow> real list \<Rightarrow> fixture \<Rightarrow> timer \<Rightarrow>
    (latency_report option option \<times> bench) option" where
  "bench_cancel clk shuffle draws f t = do {
     (ids, f1) \<leftarrow> build_loop 0 (map clamp_price draws) [] f;
     f2 \<leftarrow> fx_drain f1;
     b \<leftarrow> cancel_loop clk 0 (shuffle ids) (bench_init f2 t);
     Some (bench_report (b\<lparr> bn_done := length ids \<rparr>)) }"

section \<open>Scenario C: match\<close>

text \<open>The loop that rests one ask per level; it returns the number of levels built.\<close>

fun ask_loop :: "nat \<Rightarrow> nat \<Rightarrow> fixture \<Rightarrow> (nat \<times> fixture) option" where
  "ask_loop i 0 f = Some (i, f)"
| "ask_loop i (Suc n) f = do {
     (oid, f1) \<leftarrow> submit f SELL (MID_PRICE + i) 100 (i + 1) MAKER;
     if oid = 0 then Some (i, f1)
     else do { f2 \<leftarrow> drain_at i f1; ask_loop (Suc i) n f2 } }"

fun lift_loop :: "(nat \<Rightarrow> u64 \<times> u64) \<Rightarrow> nat \<Rightarrow> nat \<Rightarrow> nat \<Rightarrow> bench \<Rightarrow> bench option" where
  "lift_loop clk ops i 0 b = Some b"
| "lift_loop clk ops i (Suc n) b = do {
     (r, f) \<leftarrow> prepare (bn_fixture b) BUY (MID_PRICE + i) 100 (ops + i + 1) TAKER;
     case r of
       None \<Rightarrow> Some (b\<lparr> bn_fixture := f \<rparr>)
     | Some a \<Rightarrow> do {
         f1 \<leftarrow> fx_match f a;
         let b1 = timed (clk i) f1 b;
         f2 \<leftarrow> drain_at i f1;
         lift_loop clk ops (Suc i) n (b1\<lparr> bn_fixture := f2, bn_done := bn_done b + 1 \<rparr>) } }"

definition match_ops :: "nat \<Rightarrow> nat" where
  "match_ops ops = (if ops > MAX_PRICE - MID_PRICE - 2 then MAX_PRICE - MID_PRICE - 2 else ops)"

definition bench_match :: "(nat \<Rightarrow> u64 \<times> u64) \<Rightarrow> nat \<Rightarrow> fixture \<Rightarrow> timer \<Rightarrow> (latency_report option option \<times> bench) option" where
  "bench_match clk ops f t = do {
     (n, f1) \<leftarrow> ask_loop 0 (match_ops ops) f;
     f2 \<leftarrow> fx_drain f1;
     b \<leftarrow> lift_loop clk n 0 n (bench_init f2 t);
     Some (bench_report b) }"

section \<open>Scenario D: mixed\<close>

text \<open>The draws of one operation; \<open>mx_pick n\<close> is the index drawn below \<open>n\<close>.\<close>

record mix_draw =
  mx_price :: real
  mx_roll :: nat
  mx_pick :: "nat \<Rightarrow> nat"

record mixed =
  mx_bench :: bench
  mx_live :: "nat list"
  mx_stale :: nat
  mx_pool_full :: nat

definition mix_cancel :: "u64 \<times> u64 \<Rightarrow> mix_draw \<Rightarrow> mixed \<Rightarrow> mixed option" where
  "mix_cancel se d m = do {
     let lv = mx_live m;
     let k = mx_pick d (length lv);
     oid \<leftarrow> list_get lv k;
     let lv1 = butlast (lv[k := last lv]);
     ptr \<leftarrow> arr_get MAX_ORDERS_LOOKUP (orders_by_id (fx_shard (bn_fixture (mx_bench m)))) oid;
     f1 \<leftarrow> fx_cancel (bn_fixture (mx_bench m)) oid;
     Some (m\<lparr> mx_bench := timed se f1 (mx_bench m), mx_live := lv1,
             mx_stale := (if ptr = None then mx_stale m + 1 else mx_stale m) \<rparr>) }"

definition mix_price :: "bool \<Rightarrow> Side \<Rightarrow> nat \<Rightarrow> nat" where
  "mix_price aggressive sd px =
     (if aggressive then (if sd = BUY then px + 25 else if px > 25 then px - 25 else 1) else px)"

text \<open>The second component says whether the pool was full: the loop then goes on without draining.\<close>

definition mix_add :: "u64 \<times> u64 \<Rightarrow> nat \<Rightarrow> mix_draw \<Rightarrow> mixed \<Rightarrow> (mixed \<times> bool) option" where
  "mix_add se i d m = do {
     let aggressive = (mx_roll d \<ge> 90);
     let sd = (if odd i then BUY else SELL);
     let px = mix_price aggressive sd (clamp_price (mx_price d));
     (r, f) \<leftarrow> prepare (bn_fixture (mx_bench m)) sd px 100 (i + 1) (if aggressive then TAKER else MAKER);
     case r of
       None \<Rightarrow> Some (m\<lparr> mx_bench := (mx_bench m)\<lparr> bn_fixture := f \<rparr>, mx_pool_full := mx_pool_full m + 1 \<rparr>, True)
     | Some a \<Rightarrow> do {
         f1 \<leftarrow> fx_match f a;
         ptr \<leftarrow> arr_get MAX_ORDERS_LOOKUP (orders_by_id (fx_shard f1)) a;
         Some (m\<lparr> mx_bench := timed se f1 (mx_bench m),
                 mx_live := (if ptr = Some a then mx_live m @ [a] else mx_live m) \<rparr>, False) } }"

definition mix_drain :: "nat \<Rightarrow> mixed \<Rightarrow> mixed option" where
  "mix_drain i m = do {
     f \<leftarrow> drain_at i (bn_fixture (mx_bench m));
     Some (m\<lparr> mx_bench := (mx_bench m)\<lparr> bn_fixture := f \<rparr> \<rparr>) }"

fun mix_loop :: "(nat \<Rightarrow> u64 \<times> u64) \<Rightarrow> nat \<Rightarrow> mix_draw list \<Rightarrow> mixed \<Rightarrow> mixed option" where
  "mix_loop clk i [] m = Some m"
| "mix_loop clk i (d # ds) m =
     (if mx_roll d < 20 \<and> mx_live m \<noteq> [] then do {
        m1 \<leftarrow> mix_cancel (clk i) d m;
        m2 \<leftarrow> mix_drain i m1;
        mix_loop clk (Suc i) ds m2 }
      else do {
        (m1, full) \<leftarrow> mix_add (clk i) i d m;
        m2 \<leftarrow> (if full then Some m1 else mix_drain i m1);
        mix_loop clk (Suc i) ds m2 })"

definition bench_mixed :: "(nat \<Rightarrow> u64 \<times> u64) \<Rightarrow> mix_draw list \<Rightarrow> fixture \<Rightarrow> timer \<Rightarrow> (latency_report option option \<times> mixed) option" where
  "bench_mixed clk ds f t = do {
     m \<leftarrow> mix_loop clk 0 ds \<lparr> mx_bench = bench_init f t, mx_live = [], mx_stale = 0, mx_pool_full = 0 \<rparr>;
     let (r, b) = bench_report (mx_bench m);
     Some (r, m\<lparr> mx_bench := b\<lparr> bn_done := length ds \<rparr> \<rparr>) }"

section \<open>The baseline and \<open>main\<close>\<close>

fun baseline_loop :: "(nat \<Rightarrow> u64 \<times> u64) \<Rightarrow> nat \<Rightarrow> nat \<Rightarrow> timer \<times> u64 \<Rightarrow> timer \<times> u64" where
  "baseline_loop clk i 0 s = s"
| "baseline_loop clk i (Suc n) s = (let d = snd (clk i) - fst (clk i) in
     baseline_loop clk (Suc i) n (add_latency (fst s) d, snd s + d))"

definition bench_baseline :: "(nat \<Rightarrow> u64 \<times> u64) \<Rightarrow> nat \<Rightarrow> timer \<Rightarrow> latency_report option option \<times> timer" where
  "bench_baseline clk ops t = (let (t1, total) = baseline_loop clk 0 ops (t, 0) in (print_stats t1, timer_clear t1))"

text \<open>The number of operations: the argument, 400000 without one, and one less than the pool's capacity for
  zero or anything larger.\<close>

definition bench_ops :: "nat option \<Rightarrow> nat" where
  "bench_ops arg = (let ops = (case arg of None \<Rightarrow> 400000 | Some n \<Rightarrow> n) in
     if ops = 0 \<or> ops > POOL_CAPACITY_PER_SHARD - 1 then POOL_CAPACITY_PER_SHARD - 1 else ops)"

end
