(* ===== verification/Bench.thy ===== *)
theory Bench
  imports Bench_Model Feed_Session
begin

text \<open>
  What the benchmark of \<open>Bench_Model\<close> measures. The fixture keeps the invariant of the order book;
  no scenario exhausts the pool or loses a report; the add scenario rests every order, the cancel
  scenario removes every order it built, every timed operation of the match scenario is one full
  fill that empties a level, and the mixed scenario runs whatever its generator draws.
\<close>

section \<open>The shape of the pool does not change\<close>

definition pool_shape :: "shard \<Rightarrow> nat \<times> nat" where
  "pool_shape sh = (num_workers (sh_pool sh), slice_capacity (sh_pool sh))"

lemma pool_shape_simps [simp]:
  "pool_shape (sh\<lparr> outs := s \<rparr>) = pool_shape sh" "pool_shape (sh\<lparr> orders_by_id := m \<rparr>) = pool_shape sh"
  "pool_shape (set_mem sh mm) = pool_shape sh"
  by (simp_all add: pool_shape_def set_mem_def)

lemma free_order_shape: "free_order sh a = Some sh1 \<Longrightarrow> pool_shape sh1 = pool_shape sh"
  by (auto simp: free_order_def pool_deallocate_def pool_shape_def Let_def split: Option.bind_splits if_splits prod.splits bool.splits)

lemma execute_shape: "execute sh lv n r = Some (sh1, lv1) \<Longrightarrow> pool_shape sh1 = pool_shape sh"
  by (auto simp: execute_def Let_def dest!: free_order_shape split: Option.bind_splits if_splits prod.splits)

lemma match_level_shape:
  assumes "match_level sh lv n = Some y"
  shows "pool_shape (fst (snd y)) = pool_shape sh"
  by (rule match_level.raw_induct [where P = "\<lambda>sh lv n y. pool_shape (fst (snd y)) = pool_shape sh", OF _ assms])
    (auto simp: reject_self_trade_def Let_def dest!: free_order_shape execute_shape split: Option.bind_splits if_splits option.splits prod.splits)

lemma match_asks_shape:
  assumes "match_asks sh b n pr p = Some y"
  shows "pool_shape (fst (snd y)) = pool_shape sh"
  by (rule match_asks.raw_induct [where P = "\<lambda>sh b n pr p y. pool_shape (fst (snd y)) = pool_shape sh", OF _ assms])
    (auto simp: Let_def dest!: match_level_shape split: Option.bind_splits if_splits option.splits prod.splits)

lemma match_bids_shape:
  assumes "match_bids sh b n pr p = Some y"
  shows "pool_shape (fst (snd y)) = pool_shape sh"
  by (rule match_bids.raw_induct [where P = "\<lambda>sh b n pr p y. pool_shape (fst (snd y)) = pool_shape sh", OF _ assms])
    (auto simp: Let_def dest!: match_level_shape split: Option.bind_splits if_splits option.splits prod.splits)

lemma report_resting_shape: "report_resting sh a = Some sh1 \<Longrightarrow> pool_shape sh1 = pool_shape sh"
  by (auto simp: report_resting_def Let_def split: Option.bind_splits)

lemma rest_shape:
  "rest_bid sh b n pr = Some (sh1, b1) \<Longrightarrow> pool_shape sh1 = pool_shape sh"
  "rest_ask sh b n pr = Some (sh1, b1) \<Longrightarrow> pool_shape sh1 = pool_shape sh"
  by (auto simp: rest_bid_def rest_ask_def Let_def dest!: report_resting_shape split: Option.bind_splits prod.splits)

lemma match_order_shape: "match_order sh b n = Some (sh1, b1) \<Longrightarrow> pool_shape sh1 = pool_shape sh"
  by (auto simp: match_order_def Let_def dest!: match_asks_shape match_bids_shape rest_shape free_order_shape
      split: Option.bind_splits if_splits prod.splits)

lemma cancel_order_shape: "cancel_order sh b oid = Some (sh1, b1) \<Longrightarrow> pool_shape sh1 = pool_shape sh"
  by (auto simp: cancel_order_def Let_def dest!: free_order_shape split: Option.bind_splits if_splits prod.splits option.splits)

lemma place_order_shape: "place_order sh w obj = Some (r, sh1) \<Longrightarrow> pool_shape sh1 = pool_shape sh"
  by (auto simp: place_order_def pool_allocate_def pool_shape_def set_mem_def Let_def
      split: Option.bind_splits if_splits prod.splits option.splits)

section \<open>The invariant of the fixture\<close>

text \<open>Both output queues hold at most \<open>m\<close> messages and nothing was dropped.\<close>

definition queues_within :: "nat \<Rightarrow> outputs \<Rightarrow> bool" where
  "queues_within m s \<longleftrightarrow> lfq_room (mkt_data_queue s) = 1048575 \<and> length (lfq_items (mkt_data_queue s)) \<le> m
     \<and> lfq_room (drop_copy_queue s) = 1048575 \<and> length (lfq_items (drop_copy_queue s)) \<le> m
     \<and> dropped_reports s mod 2 ^ 64 = 0 \<and> dropped_drop_copies s mod 2 ^ 64 = 0"

definition fx_inv :: "fixture \<Rightarrow> (lkey \<Rightarrow> nat list) \<Rightarrow> nat set \<Rightarrow> nat \<Rightarrow> bool" where
  "fx_inv f V P m \<longleftrightarrow> books_ok (fx_shard f) ((\<lambda>_. book_init)(0 := fx_book f)) V P
     \<and> pool_shape (fx_shard f) = (1, POOL_CAPACITY_PER_SHARD) \<and> queues_within m (outs (fx_shard f))
     \<and> (\<forall>i s p. i \<noteq> 0 \<longrightarrow> V (i, s, p) = [])"

definition bench_ob :: "nat \<Rightarrow> Side \<Rightarrow> nat \<Rightarrow> nat \<Rightarrow> nat \<Rightarrow> nat \<Rightarrow> order" where
  "bench_ob a sd px qty tok ow = \<lparr> internal_id = a, client_order_id = tok, price = px, quantity = qty, client_id = ow,
     instrument_id = 0, worker_id = 0, side = sd \<rparr>"

lemma fx_invD:
  assumes "fx_inv f V P m"
  shows "books_ok (fx_shard f) ((\<lambda>_. book_init)(0 := fx_book f)) V P"
    and "pool_shape (fx_shard f) = (1, POOL_CAPACITY_PER_SHARD)" and "queues_within m (outs (fx_shard f))"
    and "i \<noteq> 0 \<Longrightarrow> V (i, s, p) = []" and "outputs_ok (outs (fx_shard f))" and "pool_inv (sh_pool (fx_shard f)) (live V \<union> P)"
  using assms shard_okD(2,8) [OF books_okD(1), of "fx_shard f" "(\<lambda>_. book_init)(0 := fx_book f)" V P] by (auto simp: fx_inv_def)

lemma emits_within:
  assumes "outputs_ok s" "emits reps s = Some s1" "queues_within m s" "length (itch_of reps) \<le> k" "length (drops_of reps) \<le> k" "m + k \<le> 1048575"
  shows "queues_within (m + k) s1"
proof -
  note r = emits_received [OF assms(1,2)]
  have "lost (mkt_data_queue s) (itch_of reps) = 0" "lost (drop_copy_queue s) (drops_of reps) = 0"
    using assms(3-6) by (auto simp: queues_within_def lost_def)
  then show ?thesis using r assms(3-6) by (auto simp: queues_within_def received_def)
qed

lemma shard_ok_no_acks:
  "shard_ok sh L V P \<Longrightarrow> shard_ok (sh\<lparr> outs := (outs sh)\<lparr> ack_queues := None \<rparr> \<rparr>) L V P"
  by (auto simp: shard_ok_def outputs_ok_def ack_workers_def worker_known_def)

lemma fixture_init_inv: "fx_inv (fixture_init bi bd) (\<lambda>_. []) {} 0" "abook (fx_shard (fixture_init bi bd)) (\<lambda>_. []) = (\<lambda>_. [])"
proof -
  define s where "s = outputs_init 1 bi bd (\<lambda>_. undefined)"
  have "books_ok (shard_init 1 s) (\<lambda>_. book_init) (\<lambda>_. []) {}"
    using outputs_init_ok [of 1 bi bd] by (intro books_init_ok) (simp_all add: s_def)
  then have b: "books_ok ((shard_init 1 s)\<lparr> outs := s\<lparr> ack_queues := None \<rparr> \<rparr>) (\<lambda>_. book_init) (\<lambda>_. []) {}"
    using shard_ok_no_acks [of "shard_init 1 s"] by (auto simp: books_ok_def shard_init_def)
  have sh: "(shard_init 1 s)\<lparr> outs := s\<lparr> ack_queues := None \<rparr> \<rparr> = fx_shard (fixture_init bi bd)"
    by (simp add: shard_init_def fixture_init_def s_def outputs_init_def)
  have bk: "(\<lambda>_. book_init)(0 := fx_book (fixture_init bi bd)) = (\<lambda>_. book_init)" by (auto simp: fixture_init_def)
  have "queues_within 0 (outs (fx_shard (fixture_init bi bd)))"
    using lfq_init_ok [of 20 bi] lfq_init_ok [of 20 bd] by (simp add: queues_within_def fixture_init_def shard_init_def)
  moreover have "pool_shape (fx_shard (fixture_init bi bd)) = (1, POOL_CAPACITY_PER_SHARD)"
    by (simp add: pool_shape_def fixture_init_def shard_init_def pool_init_def)
  ultimately show "fx_inv (fixture_init bi bd) (\<lambda>_. []) {} 0"
    unfolding fx_inv_def bk using b [unfolded sh] by (simp del: fun_upd_apply)
  show "abook (fx_shard (fixture_init bi bd)) (\<lambda>_. []) = (\<lambda>_. [])" by (simp add: abook_def fun_eq_iff)
qed

lemma live_finite: "pool_inv p L \<Longrightarrow> finite L"
  using pool_invD(4) [of p L] by (rule finite_subset) (auto simp: pool_span_def)

text \<open>The pool serves every allocation while fewer than 499999 orders are live.\<close>

lemma prepare_ok:
  assumes inv: "fx_inv f V {} m" and room: "card (live V) < POOL_CAPACITY_PER_SHARD - 1"
  shows "\<exists>a f1. prepare f sd px qty tok ow = Some (Some a, f1) \<and> a \<notin> live V \<and> fx_inv f1 V {a} m \<and> fx_book f1 = fx_book f
    \<and> outs (fx_shard f1) = outs (fx_shard f)
    \<and> abook (fx_shard f1) V = abook (fx_shard f) V \<and> ord (mem (fx_shard f1)) a = bench_ob a sd px qty tok ow"
proof -
  note D = fx_invD [OF inv]
  have sh: "num_workers (sh_pool (fx_shard f)) = 1" "slice_capacity (sh_pool (fx_shard f)) = POOL_CAPACITY_PER_SHARD"
    using D(2) by (simp_all add: pool_shape_def)
  let ?o = "bench_order sd px qty tok ow"
  have w: "worker_id ?o = 0" by (simp add: bench_order_def new_Order_def)
  obtain r sh1 where p: "place_order (fx_shard f) 0 ?o = Some (r, sh1)" "outs sh1 = outs (fx_shard f)"
    and rs: "case r of None \<Rightarrow> books_ok sh1 ((\<lambda>_. book_init)(0 := fx_book f)) V {} \<and> mem sh1 = mem (fx_shard f)
       | Some a \<Rightarrow> a \<notin> live V \<union> {} \<and> books_ok sh1 ((\<lambda>_. book_init)(0 := fx_book f)) V (insert a {})
           \<and> ord (mem sh1) = (ord (mem (fx_shard f)))(a := (order.truncate ?o)\<lparr> internal_id := a \<rparr>)"
    using place_order_ok [OF D(1) _ w] sh(1) by auto
  have "r \<noteq> None"
  proof
    assume "r = None"
    then obtain pl where "pool_allocate (sh_pool (fx_shard f)) 0 ?o = Some (None, pl)"
      using p(1) by (auto simp: place_order_def Let_def split: Option.bind_splits option.splits)
    from pool_null_only_when_full [OF D(6) _ this] sh have "{1 ..< POOL_CAPACITY_PER_SHARD} \<subseteq> live V"
      by (simp add: pool_start_def)
    then have "card {1 ..< POOL_CAPACITY_PER_SHARD} \<le> card (live V)"
      using live_finite [OF D(6)] by (intro card_mono) auto
    then show False using room by simp
  qed
  then obtain a where a: "r = Some a" by blast
  let ?f = "f\<lparr> fx_shard := sh1 \<rparr>"
  have "prepare f sd px qty tok ow = Some (Some a, ?f)" using p(1) a by (simp add: prepare_def)
  moreover have "fx_inv ?f V {a} m" using rs a D(2-4) p(2) place_order_shape [OF p(1)] by (simp add: fx_inv_def)
  moreover have "abook sh1 V = abook (fx_shard f) V"
    using rs a by (auto simp: abook_def fun_eq_iff dest: mem_live)
  moreover have "ord (mem sh1) a = bench_ob a sd px qty tok ow"
    using rs a by (simp add: bench_ob_def bench_order_def new_Order_def order.defs)
  ultimately show ?thesis using rs a p(2) by (intro exI [of _ a] exI [of _ ?f]) simp
qed

lemma fx_match_ok:
  assumes inv: "fx_inv f V {a} m" and inst: "instrument_id (mem (fx_shard f) a) = 0"
    and sp: "spec_order (abook (fx_shard f) V) (ord (mem (fx_shard f)) a) = (B1, reps)"
    and k: "length (itch_of reps) \<le> k" "length (drops_of reps) \<le> k" "m + k \<le> 1048575"
  shows "\<exists>f1 V1. fx_match f a = Some f1 \<and> fx_inv f1 V1 {} (m + k) \<and> abook (fx_shard f1) V1 = B1
    \<and> emits reps (outs (fx_shard f)) = Some (outs (fx_shard f1))"
proof -
  note D = fx_invD [OF inv]
  obtain sh1 b1 V1 where m: "match_order (fx_shard f) (fx_book f) a = Some (sh1, b1)"
    "book_step (fx_shard f) ((\<lambda>_. book_init)(0 := fx_book f)) 0 V {a} B1 reps sh1 b1 V1 {}"
    using match_order_correct [OF D(1) _ inst [symmetric] sp] by auto
  then have s: "books_ok sh1 ((\<lambda>_. book_init)(0 := b1)) V1 {}" "abook sh1 V1 = B1" "emits reps (outs (fx_shard f)) = Some (outs sh1)"
    by (simp_all add: book_step_def)
  have "V1 (i, t, p) = []" if "i \<noteq> 0" for i t p
  proof -
    have "abook sh1 V1 (i, t, p) = abook (fx_shard f) V (i, t, p)"
      using spec_order_other [OF sp, of i t p] inst that s(2) by simp
    then show ?thesis using D(4) [OF that] by (simp add: abook_def)
  qed
  then have "fx_inv (f\<lparr> fx_shard := sh1, fx_book := b1 \<rparr>) V1 {} (m + k)"
    using s D(2) match_order_shape [OF m(1)] emits_within [OF D(5) s(3) D(3) k] by (simp add: fx_inv_def)
  then show ?thesis using m(1) s by (intro exI [of _ "f\<lparr> fx_shard := sh1, fx_book := b1 \<rparr>"] exI [of _ V1]) (simp add: fx_match_def)
qed

lemma fx_drain_ok:
  assumes "fx_inv f V P m"
  shows "\<exists>f1. drain_at i f = Some f1 \<and> fx_inv f1 V P m \<and> abook (fx_shard f1) V = abook (fx_shard f) V
    \<and> mem (fx_shard f1) = mem (fx_shard f) \<and> fx_book f1 = fx_book f"
    and "\<exists>f1. fx_drain f = Some f1 \<and> fx_inv f1 V P m \<and> abook (fx_shard f1) V = abook (fx_shard f) V
    \<and> mem (fx_shard f1) = mem (fx_shard f) \<and> fx_book f1 = fx_book f"
proof -
  note D = fx_invD [OF assms]
  let ?s = "outs (fx_shard f)"
  have ok: "lfq_ok (mkt_data_queue ?s)" "lfq_ok (drop_copy_queue ?s)" using D(5) by (simp_all add: outputs_ok_def)
  obtain q1 q2 where q: "drain lfq_pop (\<lambda>_ u. u) (mkt_data_queue ?s) () = Some (q1, ())" "lfq_ok q1" "lfq_items q1 = []"
      "lfq_room q1 = lfq_room (mkt_data_queue ?s)"
    "drain lfq_pop (\<lambda>_ u. u) (drop_copy_queue ?s) () = Some (q2, ())" "lfq_ok q2" "lfq_items q2 = []" "lfq_room q2 = lfq_room (drop_copy_queue ?s)"
    using lfq.drain_spec [OF ok(1), of "\<lambda>_ u. u" "()"] lfq.drain_spec [OF ok(2), of "\<lambda>_ u. u" "()"] by auto
  let ?f = "f\<lparr> fx_shard := (fx_shard f)\<lparr> outs := ?s\<lparr> mkt_data_queue := q1, drop_copy_queue := q2 \<rparr> \<rparr> \<rparr>"
  have "fx_drain f = Some ?f" using q by (simp add: fx_drain_def)
  moreover have "books_ok (fx_shard ?f) ((\<lambda>_. book_init)(0 := fx_book f)) V P"
    using D(1) q by (simp add: books_ok_def shard_ok_def outputs_ok_def ack_workers_def worker_known_def)
  then have "fx_inv ?f V P m" using D(2-4) q by (simp add: fx_inv_def queues_within_def)
  ultimately show 2: "\<exists>f1. fx_drain f = Some f1 \<and> fx_inv f1 V P m \<and> abook (fx_shard f1) V = abook (fx_shard f) V
    \<and> mem (fx_shard f1) = mem (fx_shard f) \<and> fx_book f1 = fx_book f" by (simp add: abook_def fun_eq_iff)
  show "\<exists>f1. drain_at i f = Some f1 \<and> fx_inv f1 V P m \<and> abook (fx_shard f1) V = abook (fx_shard f) V
    \<and> mem (fx_shard f1) = mem (fx_shard f) \<and> fx_book f1 = fx_book f" using 2 assms by (simp add: drain_at_def)
qed

section \<open>Orders that rest\<close>

lemma orders_snoc: "(\<Union>k. set ((B(j := B j @ [x])) k)) = insert x (\<Union>k. set (B k))"
proof -
  have "(\<Union>k. set ((B(j := B j @ [x])) k)) = (\<Union>k \<in> {j}. set ((B(j := B j @ [x])) k)) \<union> (\<Union>k \<in> - {j}. set ((B(j := B j @ [x])) k))" by blast
  also have "\<dots> = insert x (set (B j) \<union> (\<Union>k \<in> - {j}. set (B k)))" by auto
  also have "\<dots> = insert x (\<Union>k. set (B k))" by blast
  finally show ?thesis .
qed

lemma live_ids:
  assumes "books_ok sh bs V P"
  shows "live V = internal_id ` (\<Union>k. set (abook sh V k))"
proof -
  have "internal_id (ord (mem sh) a) = a" if "a \<in> live V" for a using shard_okD(5) [OF books_okD(1) [OF assms]] that by simp
  then show ?thesis by (force simp: live_def abook_def image_iff)
qed

lemma slot_range:
  assumes "fx_inv f V P m" "a \<in> live V \<union> P"
  shows "0 < a" "a < MAX_ORDERS_LOOKUP"
  using order_pool.live_range [OF fx_invD(6) [OF assms(1)] assms(2)] shard_ok_slot [OF books_okD(1) [OF fx_invD(1) [OF assms(1)]] assms(2)]
  by auto

lemma bench_ob_sel [simp]:
  "internal_id (bench_ob a sd px q tok ow) = a" "client_order_id (bench_ob a sd px q tok ow) = tok" "price (bench_ob a sd px q tok ow) = px"
  "quantity (bench_ob a sd px q tok ow) = q" "client_id (bench_ob a sd px q tok ow) = ow" "instrument_id (bench_ob a sd px q tok ow) = 0"
  "side (bench_ob a sd px q tok ow) = sd"
  by (simp_all add: bench_ob_def)

lemma prepared_sel:
  assumes "ord (mem sh) a = bench_ob a sd px q tok ow"
  shows "instrument_id (mem sh a) = 0"
  using assms by (metis bench_ob_sel(6) ord_sel(6))

text \<open>An order with nothing to cross comes to rest behind the others of its level.\<close>

lemma rest_step:
  assumes inv: "fx_inv f V {} m" and room: "card (live V) < POOL_CAPACITY_PER_SHARD - 1" and m: "m < 1048575"
    and px: "px < MAX_PRICE" "0 < q"
    and free: "\<forall>p \<in> set (crossing sd px). abook (fx_shard f) V (0, opposite sd, p) = []"
  shows "\<exists>a f1 f2 V2. prepare f sd px q tok ow = Some (Some a, f1) \<and> fx_match f1 a = Some f2 \<and> 0 < a \<and> a \<notin> live V
    \<and> fx_inv f2 V2 {} (m + 1) \<and> live V2 = insert a (live V)
    \<and> abook (fx_shard f2) V2 = (abook (fx_shard f) V)((0, sd, px) := abook (fx_shard f) V (0, sd, px) @ [bench_ob a sd px q tok ow])"
proof -
  obtain a f1 where p: "prepare f sd px q tok ow = Some (Some a, f1)" "a \<notin> live V" "fx_inv f1 V {a} m"
    "abook (fx_shard f1) V = abook (fx_shard f) V" "ord (mem (fx_shard f1)) a = bench_ob a sd px q tok ow"
    using prepare_ok [OF inv room] by blast
  let ?B = "(abook (fx_shard f) V)((0, sd, px) := abook (fx_shard f) V (0, sd, px) @ [bench_ob a sd px q tok ow])"
  let ?ob = "bench_ob a sd px q tok ow"
  have sp: "spec_order (abook (fx_shard f1) V) (ord (mem (fx_shard f1)) a) =
      (?B, [itch_report (ch CHR ''A'') ?ob px q, drop_report ST_NEW ?ob px q])"
    unfolding p(4,5) using spec_order_rest [of ?ob "abook (fx_shard f) V"] px free by simp
  obtain f2 V2 where f2: "fx_match f1 a = Some f2" "fx_inv f2 V2 {} (m + 1)" "abook (fx_shard f2) V2 = ?B"
    using fx_match_ok [OF p(3) prepared_sel [OF p(5)] sp, of 1] m by (auto simp: itch_report_def drop_report_def)
  have "live V2 = insert a (live V)"
    unfolding live_ids [OF fx_invD(1) [OF f2(2)]] live_ids [OF fx_invD(1) [OF inv]] f2(3) orders_snoc by simp
  then show ?thesis using p(1,2) f2 slot_range(1) [OF p(3)] by blast
qed

section \<open>Scenario A\<close>

definition latencies_of :: "(nat \<Rightarrow> u64 \<times> u64) \<Rightarrow> nat \<Rightarrow> nat \<Rightarrow> u64 list" where
  "latencies_of clk i n = map (\<lambda>j. snd (clk j) - fst (clk j)) [i ..< i + n]"

lemma latencies_of_Suc: "latencies_of clk i (Suc n) = (snd (clk i) - fst (clk i)) # latencies_of clk (Suc i) n"
  by (simp add: latencies_of_def upt_conv_Cons del: upt_Suc)

abbreviation add_latencies :: "u64 list \<Rightarrow> timer \<Rightarrow> timer" where
  "add_latencies ds t \<equiv> fold (\<lambda>d u. add_latency u d) ds t"

text \<open>The tokens that rest at a price when the prices are added from token \<open>i + 1\<close> on.\<close>

fun tokens_at :: "nat \<Rightarrow> nat \<Rightarrow> nat list \<Rightarrow> nat list" where
  "tokens_at p i [] = []"
| "tokens_at p i (px # pxs) = (if px = p then [i + 1] else []) @ tokens_at p (Suc i) pxs"

abbreviation bn_orders :: "bench \<Rightarrow> (lkey \<Rightarrow> nat list) \<Rightarrow> lkey \<Rightarrow> order list" where
  "bn_orders b V \<equiv> abook (fx_shard (bn_fixture b)) V"

lemma add_loop_ok:
  assumes "fx_inv (bn_fixture b) V {} m" and "\<forall>p. bn_orders b V (0, SELL, p) = []" and "\<forall>px \<in> set pxs. px < MAX_PRICE"
    and "card (live V) + length pxs < POOL_CAPACITY_PER_SHARD" and "m + length pxs \<le> 1048575"
  shows "\<exists>b1 V1. add_loop clk i pxs b = Some b1 \<and> fx_inv (bn_fixture b1) V1 {} (m + length pxs)
    \<and> (\<forall>p. bn_orders b1 V1 (0, SELL, p) = [])
    \<and> (\<forall>p. map client_order_id (bn_orders b1 V1 (0, BUY, p)) = map client_order_id (bn_orders b V (0, BUY, p)) @ tokens_at p i pxs)
    \<and> bn_done b1 = bn_done b + length pxs \<and> bn_timer b1 = add_latencies (latencies_of clk i (length pxs)) (bn_timer b)"
  using assms
proof (induction pxs arbitrary: i b V m)
  case Nil
  then show ?case by (auto simp: latencies_of_def)
next
  case (Cons px pxs)
  have pre: "card (live V) < POOL_CAPACITY_PER_SHARD - 1" "m < 1048575" "px < MAX_PRICE" using Cons.prems(3-5) by simp_all
  obtain a f1 f2 V2 where s: "prepare (bn_fixture b) BUY px 100 (i + 1) MAKER = Some (Some a, f1)" "fx_match f1 a = Some f2"
    "a \<notin> live V" "fx_inv f2 V2 {} (m + 1)" "live V2 = insert a (live V)"
    "abook (fx_shard f2) V2 = (bn_orders b V)((0, BUY, px) := bn_orders b V (0, BUY, px) @ [bench_ob a BUY px 100 (i + 1) MAKER])"
    using rest_step [OF Cons.prems(1) pre, of 100 BUY "i + 1" MAKER] Cons.prems(2) by auto
  obtain f3 where f3: "drain_at i f2 = Some f3" "fx_inv f3 V2 {} (m + 1)" "abook (fx_shard f3) V2 = abook (fx_shard f2) V2"
    using fx_drain_ok(1) [OF s(4)] by blast
  define b1 where "b1 = (timed (clk i) f2 b)\<lparr> bn_fixture := f3, bn_done := bn_done b + 1 \<rparr>"
  have sel: "bn_fixture b1 = f3" "bn_done b1 = bn_done b + 1" "bn_timer b1 = add_latency (bn_timer b) (snd (clk i) - fst (clk i))"
    by (simp_all add: b1_def timed_def Let_def)
  have "card (live V2) = Suc (card (live V))" using s(3,5) live_finite [OF fx_invD(6) [OF Cons.prems(1)]] by simp
  then obtain b2 V3 where b2: "add_loop clk (Suc i) pxs b1 = Some b2" "fx_inv (bn_fixture b2) V3 {} (m + 1 + length pxs)"
    "\<forall>p. bn_orders b2 V3 (0, SELL, p) = []"
    "\<forall>p. map client_order_id (bn_orders b2 V3 (0, BUY, p)) = map client_order_id (bn_orders b1 V2 (0, BUY, p)) @ tokens_at p (Suc i) pxs"
    "bn_done b2 = bn_done b1 + length pxs" "bn_timer b2 = add_latencies (latencies_of clk (Suc i) (length pxs)) (bn_timer b1)"
    using Cons.IH [of b1 V2 "m + 1" "Suc i"] Cons.prems(2-5) f3(2,3) s(6) by (auto simp: sel)
  have "add_loop clk i (px # pxs) b = Some b2" using s(1,2) f3(1) b2(1) by (simp add: b1_def)
  moreover have "\<forall>p. map client_order_id (bn_orders b2 V3 (0, BUY, p)) = map client_order_id (bn_orders b V (0, BUY, p)) @ tokens_at p i (px # pxs)"
    using b2(4) f3(3) s(6) by (simp add: sel)
  moreover have "m + length (px # pxs) = m + 1 + length pxs" "bn_done b2 = bn_done b + length (px # pxs)" using b2(5) by (simp_all add: sel)
  moreover have "bn_timer b2 = add_latencies (latencies_of clk i (length (px # pxs))) (bn_timer b)"
    using b2(6) by (simp add: sel latencies_of_Suc)
  ultimately show ?case using b2(2,3) by metis
qed

lemma clamp_price_range: "0 < clamp_price p" "clamp_price p < MAX_PRICE"
  by (auto simp: clamp_price_def MAX_PRICE_def le_nat_floor floor_less_iff nat_less_iff zero_less_nat_eq)

section \<open>Scenario B\<close>

lemma submit_rests:
  assumes "prepare f sd px q tok ow = Some (Some a, f1)" "fx_match f1 a = Some f2"
  shows "submit f sd px q tok ow = Some (a, f2)"
  using assms by (simp add: submit_def)

lemma build_loop_ok:
  assumes "fx_inv f V {} m" and "\<forall>p. abook (fx_shard f) V (0, SELL, p) = []" and "\<forall>px \<in> set pxs. px < MAX_PRICE"
    and "card (live V) + length pxs < POOL_CAPACITY_PER_SHARD" and "m + length pxs \<le> 1048575" and "distinct ids" "set ids = live V"
  shows "\<exists>ids1 f1 V1. build_loop i pxs ids f = Some (ids1, f1) \<and> fx_inv f1 V1 {} (m + length pxs)
    \<and> distinct ids1 \<and> set ids1 = live V1 \<and> length ids1 = length ids + length pxs"
  using assms
proof (induction pxs arbitrary: i f V m ids)
  case Nil
  then show ?case by auto
next
  case (Cons px pxs)
  have pre: "card (live V) < POOL_CAPACITY_PER_SHARD - 1" "m < 1048575" "px < MAX_PRICE" using Cons.prems(3-5) by simp_all
  obtain a f1 f2 V2 where s: "prepare f BUY px 100 (i + 1) MAKER = Some (Some a, f1)" "fx_match f1 a = Some f2" "0 < a"
    "a \<notin> live V" "fx_inv f2 V2 {} (m + 1)" "live V2 = insert a (live V)"
    "abook (fx_shard f2) V2 = (abook (fx_shard f) V)((0, BUY, px) := abook (fx_shard f) V (0, BUY, px) @ [bench_ob a BUY px 100 (i + 1) MAKER])"
    using rest_step [OF Cons.prems(1) pre, of 100 BUY "i + 1" MAKER] Cons.prems(2) by auto
  obtain f3 where f3: "drain_at i f2 = Some f3" "fx_inv f3 V2 {} (m + 1)" "abook (fx_shard f3) V2 = abook (fx_shard f2) V2"
    using fx_drain_ok(1) [OF s(5)] by blast
  have "card (live V2) = Suc (card (live V))" using s(4,6) live_finite [OF fx_invD(6) [OF Cons.prems(1)]] by simp
  moreover have "distinct (ids @ [a])" "set (ids @ [a]) = live V2" using Cons.prems(6,7) s(4,6) by auto
  moreover have "build_loop i (px # pxs) ids f = build_loop (Suc i) pxs (ids @ [a]) f3"
    using submit_rests [OF s(1,2)] s(3) f3(1) by simp
  ultimately show ?case using Cons.IH [OF f3(2), of "ids @ [a]" "Suc i"] Cons.prems(2-5) f3(3) s(7) by auto
qed

lemma cancel_index:
  assumes "cancel_order sh b a = Some (sh1, b1)" "orders_by_id sh a = Some a" "a < MAX_ORDERS_LOOKUP"
  shows "orders_by_id sh1 = (orders_by_id sh)(a := None)"
  using assms by (auto simp: cancel_order_def free_order_def set_mem_def Let_def arr_set_def split: Option.bind_splits if_splits prod.splits)

lemma fx_cancel_live:
  assumes inv: "fx_inv f V {} m" and a: "a \<in> live V" and m: "m < 1048575"
  shows "\<exists>f1 V1. fx_cancel f a = Some f1 \<and> fx_inv f1 V1 {} (m + 1) \<and> live V1 = live V - {a}
    \<and> (\<exists>reps. spec_cancel (abook (fx_shard f) V) (ord (mem (fx_shard f)) a) = (abook (fx_shard f1) V1, reps))"
proof -
  note D = fx_invD [OF inv]
  have i: "0 = instrument_id (mem (fx_shard f) a)"
  proof -
    obtain k where k: "a \<in> set (V k)" using a by (auto simp: live_def)
    then have "rests_at k (ord (mem (fx_shard f)) a)" using shard_okD(4) [OF books_okD(1) [OF D(1)]] by blast
    then have "k = (instrument_id (mem (fx_shard f) a), side (mem (fx_shard f) a), price (mem (fx_shard f) a))" by (simp add: rests_at_def)
    then show ?thesis using k D(4) by (metis empty_iff list.set(1))
  qed
  obtain B1 reps where sp: "spec_cancel (abook (fx_shard f) V) (ord (mem (fx_shard f)) a) = (B1, reps)" by fastforce
  obtain sh1 b1 V1 where c: "cancel_order (fx_shard f) (fx_book f) a = Some (sh1, b1)"
    "book_step (fx_shard f) ((\<lambda>_. book_init)(0 := fx_book f)) 0 V {} B1 reps sh1 b1 V1 {}"
    using cancel_order_correct [OF D(1) a i sp] by auto
  then have s: "books_ok sh1 ((\<lambda>_. book_init)(0 := b1)) V1 {}" "abook sh1 V1 = B1" "emits reps (outs (fx_shard f)) = Some (outs sh1)"
    by (simp_all add: book_step_def)
  have idx: "orders_by_id (fx_shard f) = (\<lambda>a. if a \<in> live V then Some a else None)" "orders_by_id sh1 = (\<lambda>a. if a \<in> live V1 then Some a else None)"
    using shard_okD(7) [OF books_okD(1)] D(1) s(1) by blast+
  have "orders_by_id sh1 = (orders_by_id (fx_shard f))(a := None)"
    using cancel_index [OF c(1)] idx(1) a slot_range(2) [OF inv, of a] by simp
  then have lv: "live V1 = live V - {a}" unfolding idx by (auto simp: fun_eq_iff split: if_splits)
  have "length (itch_of reps) \<le> 1" "length (drops_of reps) \<le> 1"
    using sp by (auto simp: spec_cancel_def Let_def itch_report_def drop_report_def)
  then have q: "queues_within (m + 1) (outs sh1)" using emits_within [OF D(5) s(3) D(3), of 1] m by simp
  have "V1 (i, t, p) = []" if "i \<noteq> 0" for i t p
    using D(4) [OF that, of t p] spec_cancel_other [OF sp, of i t p] \<open>0 = _\<close> that s(2) abook_empty by (metis ord_sel(6))
  then have "fx_inv (f\<lparr> fx_shard := sh1, fx_book := b1 \<rparr>) V1 {} (m + 1)"
    using s(1) D(2) cancel_order_shape [OF c(1)] q by (simp add: fx_inv_def)
  then show ?thesis using c(1) lv sp s(2)
    by (intro exI [of _ "f\<lparr> fx_shard := sh1, fx_book := b1 \<rparr>"] exI [of _ V1]) (simp add: fx_cancel_def)
qed

lemma cancel_loop_ok:
  assumes "fx_inv (bn_fixture b) V {} m" and "distinct ids" "set ids = live V" and "m + length ids \<le> 1048575"
  shows "\<exists>b1. cancel_loop clk i ids b = Some b1 \<and> fx_inv (bn_fixture b1) (\<lambda>_. []) {} (m + length ids)
    \<and> bn_timer b1 = add_latencies (latencies_of clk i (length ids)) (bn_timer b) \<and> bn_done b1 = bn_done b"
  using assms
proof (induction ids arbitrary: i b V m)
  case Nil
  then have "V = (\<lambda>_. [])" by (auto simp: live_def fun_eq_iff)
  then show ?case using Nil by (auto simp: latencies_of_def)
next
  case (Cons a ids)
  obtain f1 V1 where f1: "fx_cancel (bn_fixture b) a = Some f1" "fx_inv f1 V1 {} (m + 1)" "live V1 = live V - {a}"
    using fx_cancel_live [OF Cons.prems(1), of a] Cons.prems(3,4) by auto
  obtain f2 where f2: "drain_at i f1 = Some f2" "fx_inv f2 V1 {} (m + 1)" using fx_drain_ok(1) [OF f1(2)] by blast
  define b1 where "b1 = (timed (clk i) f1 b)\<lparr> bn_fixture := f2 \<rparr>"
  have sel: "bn_fixture b1 = f2" "bn_done b1 = bn_done b" "bn_timer b1 = add_latency (bn_timer b) (snd (clk i) - fst (clk i))"
    by (simp_all add: b1_def timed_def Let_def)
  have "distinct ids" "set ids = live V1" using Cons.prems(2,3) f1(3) by auto
  moreover have "m + 1 + length ids \<le> 1048575" using Cons.prems(4) by simp
  moreover have "fx_inv (bn_fixture b1) V1 {} (m + 1)" using f2(2) sel(1) by simp
  ultimately obtain b2 where "cancel_loop clk (Suc i) ids b1 = Some b2" "fx_inv (bn_fixture b2) (\<lambda>_. []) {} (m + 1 + length ids)"
    "bn_timer b2 = add_latencies (latencies_of clk (Suc i) (length ids)) (bn_timer b1)" "bn_done b2 = bn_done b1"
    using Cons.IH by blast
  then show ?case using f1(1) f2(1) by (simp add: b1_def [symmetric] sel latencies_of_Suc)
qed

section \<open>Scenario C\<close>

text \<open>One ask of 100 shares at each of the prices from \<open>MID_PRICE + i\<close> up to \<open>MID_PRICE + n\<close>, and nothing else.\<close>

definition ask_ladder :: "nat \<Rightarrow> nat \<Rightarrow> (lkey \<Rightarrow> order list) \<Rightarrow> bool" where
  "ask_ladder i n B \<longleftrightarrow> (\<forall>p. B (0, BUY, p) = []
     \<and> (if MID_PRICE + i \<le> p \<and> p < MID_PRICE + n
        then \<exists>a. B (0, SELL, p) = [bench_ob a SELL p 100 (Suc (p - MID_PRICE)) MAKER] else B (0, SELL, p) = []))"

lemma ask_loop_ok:
  assumes "fx_inv f V {} m" and "ask_ladder 0 i (abook (fx_shard f) V)" and "MID_PRICE + i + n \<le> MAX_PRICE"
    and "card (live V) + n < POOL_CAPACITY_PER_SHARD" and "m + n \<le> 1048575"
  shows "\<exists>f1 V1. ask_loop i n f = Some (i + n, f1) \<and> fx_inv f1 V1 {} (m + n) \<and> ask_ladder 0 (i + n) (abook (fx_shard f1) V1)
    \<and> card (live V1) = card (live V) + n"
  using assms
proof (induction n arbitrary: i f V m)
  case (Suc n)
  have pre: "card (live V) < POOL_CAPACITY_PER_SHARD - 1" "m < 1048575" "MID_PRICE + i < MAX_PRICE" using Suc.prems(3-5) by simp_all
  obtain a f1 f2 V2 where s: "prepare f SELL (MID_PRICE + i) 100 (i + 1) MAKER = Some (Some a, f1)" "fx_match f1 a = Some f2" "0 < a"
    "a \<notin> live V" "fx_inv f2 V2 {} (m + 1)" "live V2 = insert a (live V)"
    "abook (fx_shard f2) V2 = (abook (fx_shard f) V)((0, SELL, MID_PRICE + i) := abook (fx_shard f) V (0, SELL, MID_PRICE + i) @
       [bench_ob a SELL (MID_PRICE + i) 100 (i + 1) MAKER])"
    using rest_step [OF Suc.prems(1) pre, of 100 SELL "i + 1" MAKER] Suc.prems(2) by (auto simp: ask_ladder_def)
  obtain f3 where f3: "drain_at i f2 = Some f3" "fx_inv f3 V2 {} (m + 1)" "abook (fx_shard f3) V2 = abook (fx_shard f2) V2"
    using fx_drain_ok(1) [OF s(5)] by blast
  have "abook (fx_shard f) V (0, SELL, MID_PRICE + i) = []" using Suc.prems(2) by (auto simp: ask_ladder_def)
  then have "ask_ladder 0 (Suc i) (abook (fx_shard f3) V2)"
    using Suc.prems(2) unfolding f3(3) s(7) ask_ladder_def by (auto simp: less_Suc_eq split: if_splits)
  moreover have c: "card (live V2) = Suc (card (live V))" using s(4,6) live_finite [OF fx_invD(6) [OF Suc.prems(1)]] by simp
  moreover have "ask_loop i (Suc n) f = ask_loop (Suc i) n f3" using submit_rests [OF s(1,2)] s(3) f3(1) by simp
  moreover have "MID_PRICE + Suc i + n \<le> MAX_PRICE" "card (live V2) + n < POOL_CAPACITY_PER_SHARD" "m + 1 + n \<le> 1048575"
    using Suc.prems(3-5) c by simp_all
  ultimately show ?case using Suc.IH [OF f3(2), of "Suc i"] by fastforce
qed auto

lemma fill_reports_count: "length (itch_of (fill_reports g)) = 2" "length (drops_of (fill_reports g)) = 2"
  by (cases g; simp add: fill_reports_def itch_report_def drop_report_def exec_report_def Let_def)+

text \<open>Lifting the lowest level is one full fill.\<close>

lemma lift_spec:
  assumes "ask_ladder i n B" "i < n" "MID_PRICE + i < MAX_PRICE"
  shows "\<exists>r. B (0, SELL, MID_PRICE + i) = [r] \<and> spec_order B (bench_ob a BUY (MID_PRICE + i) 100 tok TAKER) =
    (B((0, SELL, MID_PRICE + i) := []), fill_reports (bench_ob a BUY (MID_PRICE + i) 100 tok TAKER, r))"
proof -
  let ?p = "MID_PRICE + i" and ?ob = "bench_ob a BUY (MID_PRICE + i) 100 tok TAKER"
  obtain c where r: "B (0, SELL, ?p) = [bench_ob c SELL ?p 100 (Suc i) MAKER]"
    using assms(1,2) unfolding ask_ladder_def by (metis add_diff_cancel_left' add_less_cancel_left le_refl)
  let ?r = "bench_ob c SELL ?p 100 (Suc i) MAKER" and ?V = "side_view B 0 SELL"
  have ps: "crossing BUY ?p = [0 ..< ?p] @ [?p]" by (simp add: crossing_def)
  have low: "\<forall>q \<in> set [0 ..< ?p]. ?V q = []" using assms(1) by (auto simp: ask_ladder_def side_view_def)
  have "spec_match ?ob [?r] = (?ob\<lparr> quantity := 0 \<rparr>, [], [(?ob, ?r)], False)" by (simp add: MAKER_def TAKER_def)
  then have "sweep ?ob (crossing BUY ?p) ?V = (?ob\<lparr> quantity := 0 \<rparr>, ?V(?p := []), [(?ob, ?r)], False)"
    unfolding ps sweep_skip [OF low] using r by (simp add: side_view_def)
  moreover have "set_side B 0 SELL (?V(?p := [])) = B((0, SELL, ?p) := [])" by (auto simp: set_side_def side_view_def fun_eq_iff)
  ultimately show ?thesis using r assms(3) by (simp add: spec_order_def)
qed

lemma lift_loop_ok:
  assumes "fx_inv (bn_fixture b) V {} m" and "ask_ladder i n (bn_orders b V)" and "i + k \<le> n" and "MID_PRICE + n \<le> MAX_PRICE"
    and "card (live V) < POOL_CAPACITY_PER_SHARD - 1" and "m + 2 * k \<le> 1048575"
  shows "\<exists>b1 V1. lift_loop clk ops i k b = Some b1 \<and> fx_inv (bn_fixture b1) V1 {} (m + 2 * k) \<and> ask_ladder (i + k) n (bn_orders b1 V1)
    \<and> bn_done b1 = bn_done b + k \<and> bn_timer b1 = add_latencies (latencies_of clk i k) (bn_timer b)"
  using assms
proof (induction k arbitrary: i b V m)
  case 0
  then show ?case by (auto simp: latencies_of_def)
next
  case (Suc k)
  let ?p = "MID_PRICE + i"
  obtain a f1 where p: "prepare (bn_fixture b) BUY ?p 100 (ops + i + 1) TAKER = Some (Some a, f1)" "fx_inv f1 V {a} m"
    "abook (fx_shard f1) V = bn_orders b V" "ord (mem (fx_shard f1)) a = bench_ob a BUY ?p 100 (ops + i + 1) TAKER"
    using prepare_ok [OF Suc.prems(1,5)] by blast
  have "i < n" "?p < MAX_PRICE" using Suc.prems(3,4) by simp_all
  then obtain r where r: "bn_orders b V (0, SELL, ?p) = [r]" "spec_order (abook (fx_shard f1) V) (ord (mem (fx_shard f1)) a) =
      ((bn_orders b V)((0, SELL, ?p) := []), fill_reports (bench_ob a BUY ?p 100 (ops + i + 1) TAKER, r))"
    using lift_spec [OF Suc.prems(2)] unfolding p(3,4) by blast
  obtain f2 V2 where f2: "fx_match f1 a = Some f2" "fx_inv f2 V2 {} (m + 2)" "abook (fx_shard f2) V2 = (bn_orders b V)((0, SELL, ?p) := [])"
    using fx_match_ok [OF p(2) prepared_sel [OF p(4)] r(2), of 2] Suc.prems(6)
    by (auto simp: fill_reports_count)
  obtain f3 where f3: "drain_at i f2 = Some f3" "fx_inv f3 V2 {} (m + 2)" "abook (fx_shard f3) V2 = abook (fx_shard f2) V2"
    using fx_drain_ok(1) [OF f2(2)] by blast
  define b1 where "b1 = (timed (clk i) f2 b)\<lparr> bn_fixture := f3, bn_done := bn_done b + 1 \<rparr>"
  have sel: "bn_fixture b1 = f3" "bn_done b1 = bn_done b + 1" "bn_timer b1 = add_latency (bn_timer b) (snd (clk i) - fst (clk i))"
    by (simp_all add: b1_def timed_def Let_def)
  have "ask_ladder (Suc i) n (bn_orders b1 V2)"
    using Suc.prems(2) unfolding sel f3(3) f2(3) ask_ladder_def by (auto split: if_splits)
  moreover have "live V2 \<subseteq> live V"
    unfolding live_ids [OF fx_invD(1) [OF f2(2)]] live_ids [OF fx_invD(1) [OF Suc.prems(1)]] f2(3) by (intro image_mono) (auto split: if_splits)
  then have "card (live V2) \<le> card (live V)" using live_finite [OF fx_invD(6) [OF Suc.prems(1)]] by (intro card_mono) auto
  moreover have "fx_inv (bn_fixture b1) V2 {} (m + 2)" using f3(2) sel(1) by simp
  ultimately obtain b2 V3 where "lift_loop clk ops (Suc i) k b1 = Some b2" "fx_inv (bn_fixture b2) V3 {} (m + 2 + 2 * k)"
    "ask_ladder (Suc i + k) n (bn_orders b2 V3)" "bn_done b2 = bn_done b1 + k"
    "bn_timer b2 = add_latencies (latencies_of clk (Suc i) k) (bn_timer b1)"
    using Suc.IH [of b1 V2 "m + 2" "Suc i"] Suc.prems(3-6) by auto
  moreover have "lift_loop clk ops i (Suc k) b = lift_loop clk ops (Suc i) k b1" using p(1) f2(1) f3(1) by (simp add: b1_def)
  ultimately show ?case by (auto simp: sel latencies_of_Suc)
qed

section \<open>Scenario D\<close>

text \<open>Every order of the mix has 100 shares, so a fill is always complete and there is at most one.\<close>

definition round_lots :: "(lkey \<Rightarrow> order list) \<Rightarrow> bool" where
  "round_lots B \<longleftrightarrow> (\<forall>k. \<forall>r \<in> set (B k). quantity r = 100)"

lemma sweep_lots:
  assumes "sweep a ps B = (a1, B1, fs, st)" "quantity a = 100" "\<forall>p. \<forall>r \<in> set (B p). quantity r = 100"
  shows "(fs = [] \<and> a1 = a \<or> length fs = 1 \<and> quantity a1 = 0 \<and> \<not> st) \<and> (\<forall>p. set (B1 p) \<subseteq> set (B p))"
  using assms
proof (induction ps arbitrary: a B fs)
  case (Cons p ps)
  show ?case
  proof (cases "B p")
    case Nil
    then have "B(p := []) = B" by auto
    then show ?thesis using Cons Nil by (auto split: prod.splits)
  next
    case (Cons r rs)
    have q: "quantity r = 100" using Cons Cons.prems(3) by (metis list.set_intros(1))
    show ?thesis
    proof (cases "client_id r = client_id a")
      case True
      then show ?thesis using Cons.prems(1,2) Cons by (auto split: if_splits)
    next
      case False
      have "spec_match (a\<lparr> quantity := 0 \<rparr>) rs = (a\<lparr> quantity := 0 \<rparr>, rs, [], False)" by (rule spec_match_idle) simp
      then have "spec_match a (B p) = (a\<lparr> quantity := 0 \<rparr>, rs, [(a, r)], False)" using Cons False q Cons.prems(2) by simp
      then show ?thesis using Cons.prems(1) Cons sweep_idle [of "a\<lparr> quantity := 0 \<rparr>" ps "B(p := rs)"] by (auto split: if_splits)
    qed
  qed
qed auto

lemma spec_order_lots:
  assumes sp: "spec_order B ob = (B1, reps)" and q: "quantity ob = 100" and B: "round_lots B"
  shows "round_lots B1" and "length (itch_of reps) \<le> 2" and "length (drops_of reps) \<le> 2"
    and "(\<Union>k. set (B1 k)) \<subseteq> insert ob (\<Union>k. set (B k))"
proof -
  let ?i = "instrument_id ob" and ?o = "opposite (side ob)"
  have "round_lots B1 \<and> length (itch_of reps) \<le> 2 \<and> length (drops_of reps) \<le> 2 \<and> (\<Union>k. set (B1 k)) \<subseteq> insert ob (\<Union>k. set (B k))"
  proof (cases "price ob < MAX_PRICE")
    case False
    then show ?thesis using sp B by (auto simp: spec_order_def)
  next
    case True
    obtain a L fs st where w: "sweep ob (crossing (side ob) (price ob)) (side_view B ?i ?o) = (a, L, fs, st)" by (metis prod_cases4)
    have "\<forall>p. \<forall>r \<in> set (side_view B ?i ?o p). quantity r = 100" using B by (auto simp: round_lots_def side_view_def)
    note l = sweep_lots [OF w q this]
    define B2 where "B2 = set_side B ?i ?o L"
    have B2: "set (B2 k) \<subseteq> set (B k)" for k using l by (cases k) (auto simp: B2_def set_side_def side_view_def)
    then have lots: "round_lots B2" "(\<Union>k. set (B2 k)) \<subseteq> (\<Union>k. set (B k))" using B unfolding round_lots_def by blast+
    consider "fs = []" "a = ob" | g where "fs = [g]" "quantity a = 0" "\<not> st" using l by (cases fs) auto
    then show ?thesis
    proof cases
      case 1
      have B1: "B1 = B2 \<or> B1 = B2((?i, side ob, price ob) := B2 (?i, side ob, price ob) @ [ob])"
        and n: "length (itch_of reps) \<le> 1" "length (drops_of reps) \<le> 1"
        using sp w True 1 q by (auto simp: spec_order_def Let_def B2_def itch_report_def drop_report_def split: if_splits)
      have "round_lots (B2(j := B2 j @ [ob]))" for j using lots(1) q by (auto simp: round_lots_def)
      then have "round_lots B1" using B1 lots(1) by metis
      moreover have "(\<Union>k. set (B1 k)) \<subseteq> insert ob (\<Union>k. set (B2 k))"
        using B1 orders_snoc [of B2 "(?i, side ob, price ob)" ob] by (elim disjE) (simp_all only: order_refl subset_insertI)
      then have "(\<Union>k. set (B1 k)) \<subseteq> insert ob (\<Union>k. set (B k))" using lots(2) by (meson insert_mono subset_trans)
      ultimately show ?thesis using n by simp
    next
      case (2 g)
      have "B1 = B2" "reps = fill_reports g" using sp w True 2 by (auto simp: spec_order_def Let_def B2_def)
      then show ?thesis using lots by (auto simp: fill_reports_count)
    qed
  qed
  then show "round_lots B1" "length (itch_of reps) \<le> 2" "length (drops_of reps) \<le> 2" "(\<Union>k. set (B1 k)) \<subseteq> insert ob (\<Union>k. set (B k))"
    by blast+
qed

lemma spec_cancel_lots: "spec_cancel B ob = (B1, reps) \<Longrightarrow> round_lots B \<Longrightarrow> round_lots B1"
  using set_remove1_subset [of ob] by (fastforce simp: spec_cancel_def Let_def round_lots_def split: if_splits)

text \<open>The state of the mix after \<open>i\<close> operations: the handles kept in \<open>live\<close> are slots of the pool and include every resting order.\<close>

definition mix_inv :: "nat \<Rightarrow> mixed \<Rightarrow> (lkey \<Rightarrow> nat list) \<Rightarrow> bool" where
  "mix_inv i m V \<longleftrightarrow> fx_inv (bn_fixture (mx_bench m)) V {} (2 * i) \<and> round_lots (bn_orders (mx_bench m) V) \<and> card (live V) \<le> i
     \<and> live V \<subseteq> set (mx_live m) \<and> set (mx_live m) \<subseteq> {0 <..< MAX_ORDERS_LOOKUP} \<and> mx_pool_full m = 0"

lemma mix_drain_ok:
  assumes "mix_inv i m V"
  shows "\<exists>m1. mix_drain j m = Some m1 \<and> mix_inv i m1 V \<and> bn_timer (mx_bench m1) = bn_timer (mx_bench m)"
  using fx_drain_ok(1) [of "bn_fixture (mx_bench m)" V "{}" "2 * i" j] assms by (auto simp: mix_inv_def mix_drain_def)

lemma fx_inv_mono: "fx_inv f V P m \<Longrightarrow> m \<le> n \<Longrightarrow> fx_inv f V P n"
  by (auto simp: fx_inv_def queues_within_def)

lemma set_swap_pop:
  assumes "k < length xs"
  shows "set (butlast (xs[k := last xs])) \<subseteq> set xs" and "set xs \<subseteq> insert (xs ! k) (set (butlast (xs[k := last xs])))"
proof -
  have ne: "xs \<noteq> []" using assms by auto
  show "set (butlast (xs[k := last xs])) \<subseteq> set xs"
    using set_update_subset_insert [of xs k "last xs"] last_in_set [OF ne] by (auto dest: in_set_butlastD)
  show "set xs \<subseteq> insert (xs ! k) (set (butlast (xs[k := last xs])))"
  proof
    fix x assume "x \<in> set xs"
    then obtain j where j: "j < length xs" "xs ! j = x" by (meson in_set_conv_nth)
    let ?ys = "butlast (xs[k := last xs])"
    show "x \<in> insert (xs ! k) (set ?ys)"
    proof (cases "j = k \<or> j < length xs - 1")
      case True
      then show ?thesis using j nth_mem [of j ?ys] by (cases "j = k") (auto simp: nth_butlast)
    next
      case False
      then have "j = length xs - 1" "k < length xs - 1" using j assms by linarith+
      then show ?thesis using j ne nth_mem [of k ?ys] by (simp add: nth_butlast last_conv_nth)
    qed
  qed
qed

lemma mix_cancel_ok:
  assumes inv: "mix_inv i m V" and k: "mx_pick d (length (mx_live m)) < length (mx_live m)" and i: "2 * i + 2 \<le> 1048575"
  shows "\<exists>m1 V1. mix_cancel se d m = Some m1 \<and> mix_inv (Suc i) m1 V1
    \<and> bn_timer (mx_bench m1) = add_latency (bn_timer (mx_bench m)) (snd se - fst se)"
proof -
  let ?f = "bn_fixture (mx_bench m)" and ?k = "mx_pick d (length (mx_live m))"
  let ?a = "mx_live m ! ?k"
  have I: "fx_inv ?f V {} (2 * i)" "round_lots (abook (fx_shard ?f) V)" "card (live V) \<le> i" "live V \<subseteq> set (mx_live m)"
    "set (mx_live m) \<subseteq> {0 <..< MAX_ORDERS_LOOKUP}" "mx_pool_full m = 0" using inv by (simp_all add: mix_inv_def)
  have a: "?a < MAX_ORDERS_LOOKUP" using I(5) nth_mem [OF k] by auto
  have idx: "orders_by_id (fx_shard ?f) = (\<lambda>a. if a \<in> live V then Some a else None)"
    using shard_okD(7) [OF books_okD(1) [OF fx_invD(1) [OF I(1)]]] .
  obtain f1 V1 where f1: "fx_cancel ?f ?a = Some f1" "fx_inv f1 V1 {} (2 * i + 1)" "live V1 = live V - {?a}" "round_lots (abook (fx_shard f1) V1)"
  proof (cases "?a \<in> live V")
    case True
    then show thesis using that fx_cancel_live [OF I(1) True] i spec_cancel_lots [OF _ I(2)] by fastforce
  next
    case False
    then have "fx_cancel ?f ?a = Some ?f" using idx a by (simp add: fx_cancel_def cancel_order_def)
    then show thesis using that False I(1,2) fx_inv_mono [OF I(1), of "2 * i + 1"] by simp
  qed
  let ?lv = "butlast ((mx_live m)[?k := last (mx_live m)])"
  let ?m = "m\<lparr> mx_bench := timed se f1 (mx_bench m), mx_live := ?lv,
    mx_stale := (if orders_by_id (fx_shard ?f) ?a = None then mx_stale m + 1 else mx_stale m) \<rparr>"
  have "mix_cancel se d m = Some ?m" using k a f1(1) by (simp add: mix_cancel_def arr_simps Let_def)
  moreover have "card (live V1) \<le> Suc i" using card_Diff1_le [of "live V" ?a] I(3) f1(3) by simp
  moreover have "live V1 \<subseteq> set ?lv" "set ?lv \<subseteq> {0 <..< MAX_ORDERS_LOOKUP}" using set_swap_pop [OF k] I(4,5) f1(3) by blast+
  ultimately show ?thesis using f1(2,4) I(6) fx_inv_mono [OF f1(2), of "2 * Suc i"]
    by (intro exI [of _ ?m] exI [of _ V1]) (simp add: mix_inv_def timed_def Let_def)
qed

lemma mix_add_ok:
  assumes inv: "mix_inv i m V" and i: "2 * i + 2 \<le> 1048575" "i < POOL_CAPACITY_PER_SHARD - 1"
  shows "\<exists>m1 V1. mix_add se j d m = Some (m1, False) \<and> mix_inv (Suc i) m1 V1
    \<and> bn_timer (mx_bench m1) = add_latency (bn_timer (mx_bench m)) (snd se - fst se)"
proof -
  let ?f = "bn_fixture (mx_bench m)"
  have I: "fx_inv ?f V {} (2 * i)" "round_lots (abook (fx_shard ?f) V)" "card (live V) \<le> i" "live V \<subseteq> set (mx_live m)"
    "set (mx_live m) \<subseteq> {0 <..< MAX_ORDERS_LOOKUP}" "mx_pool_full m = 0" using inv by (simp_all add: mix_inv_def)
  define ow where "ow = (if mx_roll d \<ge> 90 then TAKER else MAKER)"
  define sd where "sd = (if odd j then BUY else SELL)"
  define px where "px = mix_price (mx_roll d \<ge> 90) sd (clamp_price (mx_price d))"
  have room: "card (live V) < POOL_CAPACITY_PER_SHARD - 1" using I(3) i(2) by simp
  obtain a f1 where p: "prepare ?f sd px 100 (j + 1) ow = Some (Some a, f1)" "a \<notin> live V" "fx_inv f1 V {a} (2 * i)"
    "abook (fx_shard f1) V = abook (fx_shard ?f) V" "ord (mem (fx_shard f1)) a = bench_ob a sd px 100 (j + 1) ow"
    using prepare_ok [OF I(1) room] by blast
  obtain B1 reps where sp: "spec_order (abook (fx_shard f1) V) (ord (mem (fx_shard f1)) a) = (B1, reps)" by fastforce
  have B: "round_lots (abook (fx_shard f1) V)" and q: "quantity (ord (mem (fx_shard f1)) a) = 100" using I(2) p(4,5) by simp_all
  note lots = spec_order_lots [OF sp q B]
  obtain f2 V2 where f2: "fx_match f1 a = Some f2" "fx_inv f2 V2 {} (2 * i + 2)" "abook (fx_shard f2) V2 = B1"
    using fx_match_ok [OF p(3) prepared_sel [OF p(5)] sp lots(2,3) i(1)] by blast
  have idx: "orders_by_id (fx_shard f2) = (\<lambda>a. if a \<in> live V2 then Some a else None)"
    using shard_okD(7) [OF books_okD(1) [OF fx_invD(1) [OF f2(2)]]] .
  have a: "0 < a" "a < MAX_ORDERS_LOOKUP" using slot_range [OF p(3)] by simp_all
  have "live V2 \<subseteq> internal_id ` insert (bench_ob a sd px 100 (j + 1) ow) (\<Union>k. set (abook (fx_shard ?f) V k))"
    unfolding live_ids [OF fx_invD(1) [OF f2(2)]] f2(3) using lots(4) p(4,5) by (intro image_mono) simp
  then have sub: "live V2 \<subseteq> insert a (live V)" unfolding live_ids [OF fx_invD(1) [OF I(1)]] by simp
  then have "card (live V2) \<le> card (insert a (live V))" using live_finite [OF fx_invD(6) [OF I(1)]] by (intro card_mono) auto
  then have c: "card (live V2) \<le> Suc i" using I(3) card_insert_le_m1 [of "Suc (card (live V))" "live V" a] by linarith
  let ?m = "m\<lparr> mx_bench := timed se f2 (mx_bench m),
    mx_live := (if orders_by_id (fx_shard f2) a = Some a then mx_live m @ [a] else mx_live m) \<rparr>"
  have "mix_add se j d m = Some (?m, False)"
    using p(1) f2(1) a(2) by (simp add: mix_add_def Let_def arr_simps ow_def sd_def px_def)
  moreover have "live V2 \<subseteq> set (mx_live ?m)" "set (mx_live ?m) \<subseteq> {0 <..< MAX_ORDERS_LOOKUP}"
    using sub I(4,5) a idx by auto
  moreover have "round_lots (abook (fx_shard f2) V2)" using lots(1) f2(3) by simp
  ultimately show ?thesis using f2(2) I(6) c
    by (intro exI [of _ ?m] exI [of _ V2]) (simp add: mix_inv_def timed_def Let_def)
qed

lemma mix_loop_ok:
  assumes "mix_inv i m V" and "\<forall>d \<in> set ds. \<forall>n > 0. mx_pick d n < n" and "i + length ds \<le> POOL_CAPACITY_PER_SHARD - 1"
  shows "\<exists>m1 V1. mix_loop clk i ds m = Some m1 \<and> mix_inv (i + length ds) m1 V1
    \<and> bn_timer (mx_bench m1) = add_latencies (latencies_of clk i (length ds)) (bn_timer (mx_bench m))"
  using assms
proof (induction ds arbitrary: i m V)
  case Nil
  then show ?case by (auto simp: latencies_of_def)
next
  case (Cons d ds)
  have i: "2 * i + 2 \<le> 1048575" "i < POOL_CAPACITY_PER_SHARD - 1" using Cons.prems(3) by (simp_all add: POOL_CAPACITY_PER_SHARD_def)
  have "\<exists>m1 V1. mix_loop clk i (d # ds) m = Option.bind (mix_drain i m1) (mix_loop clk (Suc i) ds) \<and> mix_inv (Suc i) m1 V1
    \<and> bn_timer (mx_bench m1) = add_latency (bn_timer (mx_bench m)) (snd (clk i) - fst (clk i))"
  proof (cases "mx_roll d < 20 \<and> mx_live m \<noteq> []")
    case True
    then show ?thesis using mix_cancel_ok [OF Cons.prems(1) _ i(1), of d "clk i"] Cons.prems(2) by fastforce
  next
    case False
    then show ?thesis using mix_add_ok [OF Cons.prems(1) i, of "clk i" i d] by fastforce
  qed
  then obtain m1 V1 where m1: "mix_loop clk i (d # ds) m = Option.bind (mix_drain i m1) (mix_loop clk (Suc i) ds)" "mix_inv (Suc i) m1 V1"
    "bn_timer (mx_bench m1) = add_latency (bn_timer (mx_bench m)) (snd (clk i) - fst (clk i))" by blast
  obtain m2 where m2: "mix_drain i m1 = Some m2" "mix_inv (Suc i) m2 V1" "bn_timer (mx_bench m2) = bn_timer (mx_bench m1)"
    using mix_drain_ok [OF m1(2)] by blast
  then show ?case using Cons.IH [OF m2(2)] Cons.prems(2,3) m1 by (auto simp: latencies_of_Suc)
qed

text \<open>A maker's order is not always added: when it crosses another maker's order it is rejected, since both have the same
  owner, and neither the book nor the list of handles changes.\<close>

lemma spec_order_self_cross:
  assumes "price ob < MAX_PRICE" "0 < quantity ob" "side ob = BUY" "p \<le> price ob" "client_id r = client_id ob"
    and "B (instrument_id ob, SELL, p) = r # rs" "\<forall>q < p. B (instrument_id ob, SELL, q) = []"
  shows "spec_order B ob = (B, [drop_report REJECTED ob (price ob) (quantity ob)])"
proof -
  let ?V = "side_view B (instrument_id ob) SELL"
  have ps: "crossing BUY (price ob) = [0 ..< p] @ p # [Suc p ..< Suc (price ob)]"
    using assms(4) upt_add_eq_append [of 0 p "Suc (price ob) - p"] by (simp add: crossing_def upt_conv_Cons Suc_diff_le del: upt_Suc)
  have "\<forall>q \<in> set [0 ..< p]. ?V q = []" using assms(7) by (simp add: side_view_def)
  then have "sweep ob (crossing BUY (price ob)) ?V = (ob, ?V(p := r # rs), [], True)"
    unfolding ps by (subst sweep_skip) (use assms(2,5,6) in \<open>simp_all add: side_view_def\<close>)
  moreover have "set_side B (instrument_id ob) SELL (?V(p := r # rs)) = B" using assms(6) by (auto simp: set_side_def side_view_def fun_eq_iff)
  ultimately show ?thesis using assms(1,3) by (simp add: spec_order_def)
qed

lemma mixed_maker_cross_rejected:
  assumes inv: "mix_inv i m V" and i: "2 * i + 2 \<le> 1048575" "i < POOL_CAPACITY_PER_SHARD - 1"
    and d: "mx_roll d < 90" "odd j" "p \<le> clamp_price (mx_price d)"
    and r: "bn_orders (mx_bench m) V (0, SELL, p) = r # rs" "client_id r = MAKER" "\<forall>q < p. bn_orders (mx_bench m) V (0, SELL, q) = []"
  shows "\<exists>m1 V1. mix_add se j d m = Some (m1, False) \<and> mx_live m1 = mx_live m \<and> bn_orders (mx_bench m1) V1 = bn_orders (mx_bench m) V"
proof -
  let ?f = "bn_fixture (mx_bench m)" and ?px = "clamp_price (mx_price d)"
  have I: "fx_inv ?f V {} (2 * i)" "card (live V) < POOL_CAPACITY_PER_SHARD - 1" using inv i(2) by (auto simp: mix_inv_def)
  obtain a f1 where p: "prepare ?f BUY ?px 100 (j + 1) MAKER = Some (Some a, f1)" "a \<notin> live V" "fx_inv f1 V {a} (2 * i)"
    "abook (fx_shard f1) V = abook (fx_shard ?f) V" "ord (mem (fx_shard f1)) a = bench_ob a BUY ?px 100 (j + 1) MAKER"
    using prepare_ok [OF I] by blast
  let ?ob = "bench_ob a BUY ?px 100 (j + 1) MAKER"
  have sp: "spec_order (abook (fx_shard f1) V) (ord (mem (fx_shard f1)) a) = (abook (fx_shard ?f) V, [drop_report REJECTED ?ob ?px 100])"
    unfolding p(4,5) using spec_order_self_cross [of ?ob p r "abook (fx_shard ?f) V" rs] d(3) r clamp_price_range(2) by simp
  obtain f2 V2 where f2: "fx_match f1 a = Some f2" "fx_inv f2 V2 {} (2 * i + 2)" "abook (fx_shard f2) V2 = abook (fx_shard ?f) V"
    using fx_match_ok [OF p(3) prepared_sel [OF p(5)] sp, of 2] i(1) by (auto simp: drop_report_def)
  have "live V2 = live V" unfolding live_ids [OF fx_invD(1) [OF f2(2)]] live_ids [OF fx_invD(1) [OF I(1)]] f2(3) ..
  then have "orders_by_id (fx_shard f2) a = None"
    using shard_okD(7) [OF books_okD(1) [OF fx_invD(1) [OF f2(2)]]] p(2) by simp
  then show ?thesis using p(1) f2(1,3) d(1,2) slot_range(2) [OF p(3), of a]
    by (auto simp: mix_add_def mix_price_def Let_def arr_simps timed_def)
qed

section \<open>Properties\<close>

text \<open>
  C40. Every timed operation of the match scenario is one full fill that empties a level. Whatever number of operations is
  asked for, the book is built with one ask of 100 shares at each of the prices from the middle upwards, as many as fit
  below the end of the price grid; after \<open>k\<close> timed operations exactly the lowest \<open>k\<close> levels are gone, no pool slot is
  missing and no report was dropped; all levels are lifted in the end and the report is over exactly those operations.
\<close>
theorem bench_match_one_fill:
  "\<exists>f1 f2. ask_loop 0 (match_ops ops) (fixture_init bi bd) = Some (match_ops ops, f1) \<and> fx_drain f1 = Some f2
    \<and> (\<forall>k \<le> match_ops ops. \<exists>b V. lift_loop clk (match_ops ops) 0 k (bench_init f2 t) = Some b
         \<and> ask_ladder k (match_ops ops) (bn_orders b V) \<and> fx_inv (bn_fixture b) V {} (3 * match_ops ops) \<and> bn_done b = k)
    \<and> (\<exists>b. bench_match clk ops (fixture_init bi bd) t = Some (print_stats (add_latencies (latencies_of clk 0 (match_ops ops)) t), b)
         \<and> bn_done b = match_ops ops)"
proof -
  define n where "n = match_ops ops"
  have n: "n \<le> MAX_PRICE - MID_PRICE - 2" by (simp add: n_def match_ops_def)
  then have n': "n \<le> 49999" "MID_PRICE + n \<le> MAX_PRICE" by (simp_all add: MID_PRICE_def MAX_PRICE_def)
  have start: "ask_ladder 0 0 (abook (fx_shard (fixture_init bi bd)) (\<lambda>_. []))" and live0: "live (\<lambda>_. []) = {}"
    using fixture_init_inv(2) [of bi bd] by (simp_all add: ask_ladder_def live_def)
  obtain f1 V1 where f1: "ask_loop 0 n (fixture_init bi bd) = Some (n, f1)" "fx_inv f1 V1 {} n" "ask_ladder 0 n (abook (fx_shard f1) V1)"
    "card (live V1) = n"
    using ask_loop_ok [OF fixture_init_inv(1), of 0 bi bd n] n' start live0 by (auto simp: POOL_CAPACITY_PER_SHARD_def)
  obtain f2 where f2: "fx_drain f1 = Some f2" "fx_inv f2 V1 {} n" "abook (fx_shard f2) V1 = abook (fx_shard f1) V1"
    using fx_drain_ok(2) [OF f1(2)] by blast
  have lift: "\<exists>b V. lift_loop clk n 0 k (bench_init f2 t) = Some b \<and> fx_inv (bn_fixture b) V {} (n + 2 * k)
      \<and> ask_ladder k n (bn_orders b V) \<and> bn_done b = k \<and> bn_timer b = add_latencies (latencies_of clk 0 k) t" if "k \<le> n" for k
    using lift_loop_ok [of "bench_init f2 t" V1 n 0 n k clk n] f1 f2 n' that by (simp add: bench_init_def POOL_CAPACITY_PER_SHARD_def)
  obtain b where b: "lift_loop clk n 0 n (bench_init f2 t) = Some b" "bn_done b = n" "bn_timer b = add_latencies (latencies_of clk 0 n) t"
    using lift [of n] by auto
  have "bench_match clk ops (fixture_init bi bd) t = Some (bench_report b)"
    using f1(1) f2(1) b(1) by (simp add: bench_match_def n_def [symmetric])
  then show ?thesis
    unfolding n_def [symmetric] using f1(1) f2(1) b(2,3) lift fx_inv_mono [of _ _ "{}" "n + 2 * _" "3 * n"]
    by (fastforce simp: bench_report_def)
qed

theorem bench_match_one_fill_witness:
  "\<exists>f1 f2 b V. ask_loop 0 3 (fixture_init (\<lambda>_. undefined) (\<lambda>_. undefined)) = Some (3, f1) \<and> fx_drain f1 = Some f2
    \<and> lift_loop (\<lambda>_. (5, 9)) 3 0 2 (bench_init f2 (timer_init 3)) = Some b \<and> ask_ladder 2 3 (bn_orders b V)"
proof -
  have "match_ops 3 = 3" "2 \<le> (3 :: nat)" by (simp_all add: match_ops_def MAX_PRICE_def MID_PRICE_def)
  then show ?thesis using bench_match_one_fill [of 3 "\<lambda>_. undefined" "\<lambda>_. undefined" "\<lambda>_. (5, 9)" "timer_init 3"] by metis
qed

text \<open>
  The other scenarios run clean for every number of operations \<open>main\<close> admits and whatever their generators draw. No
  slot of the pool is missing and no report is dropped; the add scenario rests every order, at each price in the order of
  submission; the cancel scenario leaves the book empty, for every permutation of the handles; the mixed scenario keeps
  the book's invariant and its handles include every resting order. Each report is over exactly one latency per operation.
\<close>
theorem bench_scenarios_clean:
  assumes n: "length draws \<le> bench_ops arg" "length ds \<le> bench_ops arg" and sh: "\<forall>ids. mset (shuffle ids) = mset ids"
    and pick: "\<forall>d \<in> set ds. \<forall>n > 0. mx_pick d n < n"
  shows "(\<exists>b V. bench_add clk draws (fixture_init bi bd) t = Some (print_stats (add_latencies (latencies_of clk 0 (length draws)) t), b)
      \<and> bn_done b = length draws \<and> fx_inv (bn_fixture b) V {} (length draws) \<and> (\<forall>p. bn_orders b V (0, SELL, p) = [])
      \<and> (\<forall>p. map client_order_id (bn_orders b V (0, BUY, p)) = tokens_at p 0 (map clamp_price draws)))
    \<and> (\<exists>b. bench_cancel clk shuffle draws (fixture_init bi bd) t = Some (print_stats (add_latencies (latencies_of clk 0 (length draws)) t), b)
      \<and> bn_done b = length draws \<and> fx_inv (bn_fixture b) (\<lambda>_. []) {} (2 * length draws))
    \<and> (\<exists>m V. bench_mixed clk ds (fixture_init bi bd) t = Some (print_stats (add_latencies (latencies_of clk 0 (length ds)) t), m)
      \<and> mx_pool_full m = 0 \<and> fx_inv (bn_fixture (mx_bench m)) V {} (2 * length ds) \<and> live V \<subseteq> set (mx_live m))"
proof (intro conjI)
  have ops: "bench_ops arg < POOL_CAPACITY_PER_SHARD" "2 * bench_ops arg \<le> 1048575"
    by (simp_all add: bench_ops_def POOL_CAPACITY_PER_SHARD_def split: option.splits)
  have px: "\<forall>px \<in> set (map clamp_price draws). px < MAX_PRICE" using clamp_price_range(2) by auto
  have len: "card (live (\<lambda>_. [])) + length (map clamp_price draws) < POOL_CAPACITY_PER_SHARD" "0 + length (map clamp_price draws) \<le> 1048575"
    using n(1) ops by (simp_all add: live_def)
  note F = fixture_init_inv [of bi bd]
  have live0: "live (\<lambda>_. []) = {}" by (simp add: live_def)
  obtain b V where b: "add_loop clk 0 (map clamp_price draws) (bench_init (fixture_init bi bd) t) = Some b"
    "fx_inv (bn_fixture b) V {} (length draws)" "\<forall>p. bn_orders b V (0, SELL, p) = []"
    "\<forall>p. map client_order_id (bn_orders b V (0, BUY, p)) = tokens_at p 0 (map clamp_price draws)"
    "bn_done b = length draws" "bn_timer b = add_latencies (latencies_of clk 0 (length draws)) t"
    using add_loop_ok [of "bench_init (fixture_init bi bd) t" "\<lambda>_. []" 0 "map clamp_price draws" clk 0] F px len by (auto simp: bench_init_def)
  then show "\<exists>b V. bench_add clk draws (fixture_init bi bd) t = Some (print_stats (add_latencies (latencies_of clk 0 (length draws)) t), b)
      \<and> bn_done b = length draws \<and> fx_inv (bn_fixture b) V {} (length draws) \<and> (\<forall>p. bn_orders b V (0, SELL, p) = [])
      \<and> (\<forall>p. map client_order_id (bn_orders b V (0, BUY, p)) = tokens_at p 0 (map clamp_price draws))"
    by (auto simp: bench_add_def bench_report_def)
  obtain ids f1 V1 where f1: "build_loop 0 (map clamp_price draws) [] (fixture_init bi bd) = Some (ids, f1)" "fx_inv f1 V1 {} (length draws)"
    "distinct ids" "set ids = live V1" "length ids = length draws"
    using build_loop_ok [OF F(1) _ px len, of "[]" 0] F(2) live0 by auto
  obtain f2 where f2: "fx_drain f1 = Some f2" "fx_inv f2 V1 {} (length draws)" using fx_drain_ok(2) [OF f1(2)] by blast
  have perm: "distinct (shuffle ids)" "set (shuffle ids) = live V1" "length (shuffle ids) = length draws"
    using sh f1(3-5) mset_eq_setD [of "shuffle ids" ids] mset_eq_length [of "shuffle ids" ids] mset_eq_imp_distinct_iff [of "shuffle ids" ids]
    by auto
  obtain b2 where b2: "cancel_loop clk 0 (shuffle ids) (bench_init f2 t) = Some b2" "fx_inv (bn_fixture b2) (\<lambda>_. []) {} (length draws + length draws)"
    "bn_timer b2 = add_latencies (latencies_of clk 0 (length draws)) t"
    using cancel_loop_ok [of "bench_init f2 t" V1 "length draws" "shuffle ids" clk 0] f2(2) perm n(1) ops(2) by (auto simp: bench_init_def)
  then show "\<exists>b. bench_cancel clk shuffle draws (fixture_init bi bd) t = Some (print_stats (add_latencies (latencies_of clk 0 (length draws)) t), b)
      \<and> bn_done b = length draws \<and> fx_inv (bn_fixture b) (\<lambda>_. []) {} (2 * length draws)"
    using f1(1,5) f2(1) by (auto simp: bench_cancel_def bench_report_def mult_2)
  let ?m = "\<lparr> mx_bench = bench_init (fixture_init bi bd) t, mx_live = [], mx_stale = 0, mx_pool_full = 0 \<rparr>"
  have "mix_inv 0 ?m (\<lambda>_. [])" using F by (simp add: mix_inv_def bench_init_def live_def round_lots_def)
  moreover have len_ds: "0 + length ds \<le> POOL_CAPACITY_PER_SHARD - 1" using n(2) ops(1) by simp
  ultimately obtain m V2 where "mix_loop clk 0 ds ?m = Some m" "mix_inv (length ds) m V2"
    "bn_timer (mx_bench m) = add_latencies (latencies_of clk 0 (length ds)) t"
    using mix_loop_ok [of 0 ?m "\<lambda>_. []" ds clk] pick len_ds by (auto simp: bench_init_def)
  then show "\<exists>m V. bench_mixed clk ds (fixture_init bi bd) t = Some (print_stats (add_latencies (latencies_of clk 0 (length ds)) t), m)
      \<and> mx_pool_full m = 0 \<and> fx_inv (bn_fixture (mx_bench m)) V {} (2 * length ds) \<and> live V \<subseteq> set (mx_live m)"
    by (auto simp: bench_mixed_def bench_report_def mix_inv_def intro!: exI [of _ V2])
qed

theorem bench_scenarios_clean_witness:
  "\<exists>b V. bench_add (\<lambda>_. (5, 9)) [50000.5, -3] (fixture_init (\<lambda>_. undefined) (\<lambda>_. undefined)) (timer_init 2) =
      Some (print_stats (add_latencies (latencies_of (\<lambda>_. (5, 9)) 0 2) (timer_init 2)), b)
    \<and> map client_order_id (bn_orders b V (0, BUY, 1)) = [2]"
proof -
  let ?ds = "[50000.5, -3 :: real]"
  have l: "length ?ds \<le> bench_ops (Some 2)" "length [] \<le> bench_ops (Some 2)" by (simp_all add: bench_ops_def POOL_CAPACITY_PER_SHARD_def)
  have tk: "tokens_at 1 0 (map clamp_price ?ds) = [2]" by (simp add: clamp_price_def MAX_PRICE_def)
  have n: "2 = length ?ds" and h: "\<forall>ids :: nat list. mset (rev ids) = mset ids" "\<forall>d \<in> set []. \<forall>n > 0. mx_pick d n < n" by simp_all
  have "\<exists>b V. bench_add (\<lambda>_. (5, 9)) ?ds (fixture_init (\<lambda>_. undefined) (\<lambda>_. undefined)) (timer_init 2) =
      Some (print_stats (add_latencies (latencies_of (\<lambda>_. (5, 9)) 0 (length ?ds)) (timer_init 2)), b)
    \<and> (\<forall>p. map client_order_id (bn_orders b V (0, BUY, p)) = tokens_at p 0 (map clamp_price ?ds))"
    using bench_scenarios_clean [OF l h, of "\<lambda>_. (5, 9)" "\<lambda>_. undefined" "\<lambda>_. undefined" "timer_init 2"] by blast
  then show ?thesis unfolding n [symmetric] using tk by metis
qed

end
