(* ===== verification/Firm_Crypto.thy ===== *)
theory Firm_Crypto
  imports Firm_Listener Complex_Main
begin

text \<open>
  The paper-trading connector (\<open>network/CryptoPaperConnector.h\<close>): the websocket thread that turns
  depth updates into ticks, the order path that posts each order and reports it filled at once,
  and how that report re-enters the execution engine.

  The libraries it calls are arguments. \<open>levels msg key\<close> is what iterating over \<open>doc[key]\<close> of the
  parsed message yields: one pair of strings per level, \<open>None\<close> where reading the string throws,
  and whether the iteration ends without an exception. \<open>stod10000 s\<close> is \<open>std::stod(s) * 10000\<close>,
  \<open>None\<close> where \<open>stod\<close> throws. \<open>fmt v\<close> is the text of \<open>v / 10000.0\<close>. The connection steps, the
  frames read and the clock readings are inputs.
\<close>

section \<open>Depth updates\<close>

text \<open>A double: finite, with its value, or an infinity or not-a-number.\<close>

datatype double = Finite real | Non_finite

text \<open>Conversion to an unsigned integer drops the fraction; outside the range it is undefined.\<close>

definition trunc_real :: "real \<Rightarrow> int" where
  "trunc_real x = (if 0 \<le> x then \<lfloor>x\<rfloor> else \<lceil>x\<rceil>)"

definition to_unsigned :: "double \<Rightarrow> 'w::len word option" where
  "to_unsigned d = (case d of
     Non_finite \<Rightarrow> None
   | Finite x \<Rightarrow> if 0 \<le> trunc_real x \<and> trunc_real x < 2 ^ LENGTH('w) then Some (word_of_int (trunc_real x)) else None)"

type_synonym json_level = "bytes option \<times> bytes option"

text \<open>
  One level: a tick, an exception, or undefined behaviour. The time stamps of the tick are left
  as the stack has them, \<open>t1\<close> and \<open>t2\<close>.
\<close>

datatype level_result = Level_tick NormalizedTick | Level_throws | Level_undefined

definition level_tick :: "(bytes \<Rightarrow> double option) \<Rightarrow> u64 \<times> u64 \<Rightarrow> bool \<Rightarrow> json_level \<Rightarrow> level_result" where
  "level_tick stod10000 junk is_bid lv =
     (case fst lv of
        None \<Rightarrow> Level_throws
      | Some price_str \<Rightarrow>
          (case stod10000 price_str of
             None \<Rightarrow> Level_throws
           | Some dp \<Rightarrow>
               (case to_unsigned dp of
                  None \<Rightarrow> Level_undefined
                | Some px \<Rightarrow>
                    (case snd lv of
                       None \<Rightarrow> Level_throws
                     | Some qty_str \<Rightarrow>
                         (case stod10000 qty_str of
                            None \<Rightarrow> Level_throws
                          | Some dq \<Rightarrow>
                              (case to_unsigned dq of
                                 None \<Rightarrow> Level_undefined
                               | Some qty \<Rightarrow> Level_tick
                                   \<lparr> nt_instrument_id = 0, nt_price = px, nt_quantity = qty, nt_is_bid = is_bid,
                                     nt_is_trade = False, nt_t1_exchange_send = fst junk, nt_t2_trading_recv = snd junk \<rparr>))))))"

text \<open>One of the two routing loops: whether it ended without an exception, and what the callback left.\<close>

fun route_levels :: "(bytes \<Rightarrow> double option) \<Rightarrow> u64 \<times> u64 \<Rightarrow> (NormalizedTick \<Rightarrow> 's \<Rightarrow> 's option) \<Rightarrow> bool \<Rightarrow>
    json_level list \<Rightarrow> bool \<Rightarrow> 's \<Rightarrow> (bool \<times> 's) option" where
  "route_levels stod10000 junk tick_callback is_bid [] ok s = Some (ok, s)"
| "route_levels stod10000 junk tick_callback is_bid (lv # lvs) ok s =
     (case level_tick stod10000 junk is_bid lv of
        Level_tick tick \<Rightarrow>
          if nt_quantity tick > 0 then do {
            s1 \<leftarrow> tick_callback tick s;
            route_levels stod10000 junk tick_callback is_bid lvs ok s1 }
          else route_levels stod10000 junk tick_callback is_bid lvs ok s
      | Level_throws \<Rightarrow> Some (False, s)
      | Level_undefined \<Rightarrow> None)"

definition BIDS :: bytes where "BIDS = [ch (CHR ''b'')]"
definition ASKS :: bytes where "ASKS = [ch (CHR ''a'')]"

text \<open>The body of the \<open>try\<close> block; \<open>catch (...)\<close> goes on with what the callback has been given.\<close>

definition route_message :: "(bytes \<Rightarrow> bytes \<Rightarrow> json_level list \<times> bool) \<Rightarrow> (bytes \<Rightarrow> double option) \<Rightarrow> u64 \<times> u64 \<Rightarrow>
    (NormalizedTick \<Rightarrow> 's \<Rightarrow> 's option) \<Rightarrow> bytes \<Rightarrow> 's \<Rightarrow> 's option" where
  "route_message levels stod10000 junk tick_callback msg s = do {
     (ok, s1) \<leftarrow> (case levels msg BIDS of (bs, ended) \<Rightarrow> route_levels stod10000 junk tick_callback True bs ended s);
     if ok then do {
       (ok2, s2) \<leftarrow> (case levels msg ASKS of (as, ended) \<Rightarrow> route_levels stod10000 junk tick_callback False as ended s1);
       Some s2 }
     else Some s1 }"

section \<open>The websocket thread\<close>

text \<open>The steps of the connection and its closing, each of which may throw.\<close>

record ws_setup =
  ws_resolve :: bool
  ws_connect :: bool
  ws_sni :: bool
  ws_tls_handshake :: bool
  ws_handshake :: bool
  ws_close :: bool

definition ws_open :: "ws_setup \<Rightarrow> bool" where
  "ws_open k \<longleftrightarrow> ws_resolve k \<and> ws_connect k \<and> ws_sni k \<and> ws_tls_handshake k \<and> ws_handshake k"

definition ws_host :: "nat \<Rightarrow> bytes" where
  "ws_host port = map of_char ''stream.binance.com:'' @ dec_string port"

text \<open>
  What happens to the thread while the program runs: a frame with the clock before and after it,
  a read that throws, or the main thread storing the callback in \<open>start_market_data\<close>.
\<close>

datatype ws_event = Frame bytes u64 u64 | Read_throws | Set_callback

record 's paper_stream =
  ps_is_connected :: bool
  ps_tick_callback :: bool
  ps_latencies_ns :: "u64 list"
  ps_state :: 's

definition paper_stream_init :: "'s \<Rightarrow> 's paper_stream" where
  "paper_stream_init s = \<lparr> ps_is_connected = False, ps_tick_callback = False, ps_latencies_ns = [], ps_state = s \<rparr>"

text \<open>
  The callback is stored in one step, an event of its own: the source stores it without
  synchronisation while this loop may be using it, which is not modelled further.
\<close>

text \<open>The loop up to the end of the events, when \<open>global_running\<close> is false; the flag says whether an exception ended it.\<close>

fun ws_loop :: "(bytes \<Rightarrow> bytes \<Rightarrow> json_level list \<times> bool) \<Rightarrow> (bytes \<Rightarrow> double option) \<Rightarrow> u64 \<times> u64 \<Rightarrow>
    (NormalizedTick \<Rightarrow> 's \<Rightarrow> 's option) \<Rightarrow> ws_event list \<Rightarrow> 's paper_stream \<Rightarrow> (bool \<times> 's paper_stream) option" where
  "ws_loop levels stod10000 junk on_tick [] p = Some (True, p)"
| "ws_loop levels stod10000 junk on_tick (x # xs) p =
     (case x of
        Frame msg tick_start tick_end \<Rightarrow> do {
          s \<leftarrow> (if ps_tick_callback p then route_message levels stod10000 junk on_tick msg (ps_state p) else Some (ps_state p));
          ws_loop levels stod10000 junk on_tick xs
            (p\<lparr> ps_state := s, ps_latencies_ns := ps_latencies_ns p @ [tick_end - tick_start] \<rparr>) }
      | Read_throws \<Rightarrow> Some (False, p)
      | Set_callback \<Rightarrow> ws_loop levels stod10000 junk on_tick xs (p\<lparr> ps_tick_callback := True \<rparr>))"

text \<open>
  \<open>run_websocket_stream\<close>: besides the state, the percentiles it prints, if any. An exception, of
  the set-up, of a read or of the final close, clears \<open>is_connected\<close>; a clean close does not.
\<close>

definition run_websocket_stream :: "(bytes \<Rightarrow> bytes \<Rightarrow> json_level list \<times> bool) \<Rightarrow> (bytes \<Rightarrow> double option) \<Rightarrow> (nat \<Rightarrow> nat \<Rightarrow> nat) \<Rightarrow>
    u64 \<times> u64 \<Rightarrow> ws_setup \<Rightarrow> (NormalizedTick \<Rightarrow> 's \<Rightarrow> 's option) \<Rightarrow> ws_event list \<Rightarrow> 's paper_stream \<Rightarrow>
    (u64 list option \<times> 's paper_stream) option" where
  "run_websocket_stream levels stod10000 fr junk k on_tick xs p =
     (if \<not> ws_open k then Some (None, p\<lparr> ps_is_connected := False \<rparr>)
      else do {
        (ok, p1) \<leftarrow> ws_loop levels stod10000 junk on_tick xs (p\<lparr> ps_is_connected := True \<rparr>);
        if \<not> ok then Some (None, p1\<lparr> ps_is_connected := False \<rparr>)
        else do {
          rep \<leftarrow> (if ps_latencies_ns p1 = [] then Some None
                 else map_option Some (latency_percentiles fr (sort (ps_latencies_ns p1)) (length (ps_latencies_ns p1))));
          Some (rep, if ws_close k then p1 else p1\<lparr> ps_is_connected := False \<rparr>) } })"

text \<open>
  \<open>initialize\<close>, as seen by its waiting loop: the successive readings of \<open>is_connected\<close> and
  \<open>global_running\<close>. It has no value while it is still waiting, and it never reports a failure.
\<close>

fun paper_initialize :: "(bool \<times> bool) list \<Rightarrow> bool option" where
  "paper_initialize [] = None"
| "paper_initialize ((is_connected, running) # rs) =
     (if \<not> is_connected \<and> running then paper_initialize rs else Some True)"

text \<open>
  \<open>start_market_data\<close>: it stores the callback, which the thread sees as the event \<open>Set_callback\<close>, and
  then waits for the end of the program: the successive readings of \<open>global_running\<close>, one per nap.
\<close>

fun paper_start_market_data :: "bool list \<Rightarrow> 's paper_stream \<Rightarrow> 's paper_stream option" where
  "paper_start_market_data [] p = None"
| "paper_start_market_data (running # rs) p =
     (let p1 = p\<lparr> ps_tick_callback := True \<rparr> in if running then paper_start_market_data rs p1 else Some p1)"

section \<open>Orders\<close>

record http_request =
  hr_delete :: bool
  hr_url :: bytes
  hr_payload :: bytes

definition ORDER_URL :: bytes where
  "ORDER_URL = map of_char ''https://testnet.binance.vision/api/v3/order''"

definition order_payload :: "(nat \<Rightarrow> bytes) \<Rightarrow> NormalizedOrderAction \<Rightarrow> bytes" where
  "order_payload fmt a =
     map of_char ''symbol=BTCUSDT&side='' @ map of_char (if na_is_buy a then ''BUY'' else ''SELL'')
     @ map of_char ''&type=LIMIT&timeInForce=GTC&quantity='' @ fmt (unat (na_quantity a))
     @ map of_char ''&price='' @ fmt (unat (na_price a))
     @ map of_char ''&newClientOrderId='' @ dec_string (unat (na_internal_order_id a))"

definition cancel_payload :: "NormalizedOrderAction \<Rightarrow> bytes" where
  "cancel_payload a = map of_char ''symbol=BTCUSDT&origClientOrderId='' @ dec_string (unat (na_internal_order_id a))"

record paper =
  pc_is_connected :: bool
  pc_requests :: "http_request list"

text \<open>
  \<open>send_order\<close>: \<open>curl\<close> says whether a handle could be made, \<open>exec_callback\<close> is the stored callback.
  The outcome of the request itself is ignored.
\<close>

definition paper_send_order :: "(nat \<Rightarrow> bytes) \<Rightarrow> bool \<Rightarrow> (u64 \<Rightarrow> u32 \<Rightarrow> u32 \<Rightarrow> 's \<Rightarrow> 's option) option \<Rightarrow>
    NormalizedOrderAction \<Rightarrow> paper \<times> 's \<Rightarrow> (paper \<times> 's) option" where
  "paper_send_order fmt curl exec_callback a = (\<lambda>(c, s).
     if \<not> pc_is_connected c then Some (c, s)
     else if curl then
       (let payload = (if na_is_cancel a then cancel_payload a else order_payload fmt a);
            c = c\<lparr> pc_requests := pc_requests c @
              [\<lparr> hr_delete = na_is_cancel a, hr_url = ORDER_URL, hr_payload = payload \<rparr>] \<rparr> in
        case exec_callback of
          Some cb \<Rightarrow> if \<not> na_is_cancel a then do {
              s1 \<leftarrow> cb (na_internal_order_id a) (na_quantity a) (ucast (na_price a)) s;
              Some (c, s1) }
            else Some (c, s)
        | None \<Rightarrow> Some (c, s))
     else Some (c, s))"

definition paper_stats :: "paper \<Rightarrow> ConnectorStats" where
  "paper_stats c = \<lparr> st_orders_sent = 0, st_serialize_cycles = 0, st_send_cycles = 0, st_enqueue_cycles = 0, st_dequeue_cycles = 0 \<rparr>"

text \<open>
  \<open>execute_action\<close> with this connector: the callback runs inside \<open>send_order\<close> and re-enters the
  engine, after the order has been entered in the table.
\<close>

definition paper_execute :: "(nat \<Rightarrow> bytes) \<Rightarrow> bool \<Rightarrow> NormalizedOrderAction \<Rightarrow>
    ExecutionEngine \<times> RiskManager \<times> paper \<Rightarrow> (ExecutionEngine \<times> RiskManager \<times> paper) option" where
  "paper_execute fmt curl a = (\<lambda>(e, r, c). do {
     e1 \<leftarrow> track_order a e;
     (c1, e2, r2) \<leftarrow> paper_send_order fmt curl (Some on_execution_report) a (c, (e1, r));
     Some (e2, r2, c1) })"

text \<open>A run in which every call of \<open>curl_easy_init\<close> returns a handle; without one an action is dropped before the request.\<close>

fun paper_run :: "(nat \<Rightarrow> bytes) \<Rightarrow> NormalizedOrderAction list \<Rightarrow>
    ExecutionEngine \<times> RiskManager \<times> paper \<Rightarrow> (ExecutionEngine \<times> RiskManager \<times> paper) option" where
  "paper_run fmt [] s = Some s"
| "paper_run fmt (a # as) s = do { s1 \<leftarrow> paper_execute fmt True a s; paper_run fmt as s1 }"

section \<open>What a depth update says\<close>

text \<open>A level that reads as a price and a quantity, in ten-thousandths and rounded down; a level that throws.\<close>

definition level_is :: "(bytes \<Rightarrow> double option) \<Rightarrow> json_level \<Rightarrow> u64 \<times> u32 \<Rightarrow> bool" where
  "level_is stod10000 lv d \<longleftrightarrow> (\<exists>ps qs x y. lv = (Some ps, Some qs) \<and> stod10000 ps = Some (Finite x) \<and> stod10000 qs = Some (Finite y)
     \<and> real (unat (fst d)) \<le> x \<and> x < real (unat (fst d)) + 1 \<and> real (unat (snd d)) \<le> y \<and> y < real (unat (snd d)) + 1)"

definition level_bad :: "(bytes \<Rightarrow> double option) \<Rightarrow> json_level \<Rightarrow> bool" where
  "level_bad stod10000 lv \<longleftrightarrow> fst lv = None \<or> (\<exists>ps. fst lv = Some ps \<and> stod10000 ps = None)
     \<or> (\<exists>ps x. fst lv = Some ps \<and> stod10000 ps = Some (Finite x) \<and> 0 \<le> x \<and> x < 2 ^ 64 \<and>
          (snd lv = None \<or> (\<exists>qs. snd lv = Some qs \<and> stod10000 qs = None)))"

text \<open>The readable part of a side of the update: up to its end, or up to the first exception.\<close>

inductive readable :: "(bytes \<Rightarrow> double option) \<Rightarrow> json_level list \<times> bool \<Rightarrow> (u64 \<times> u32) list \<Rightarrow> bool \<Rightarrow> bool"
  for stod10000 where
  readable_end: "readable stod10000 ([], ok) [] ok"
| readable_level: "level_is stod10000 lv d \<Longrightarrow> readable stod10000 (lvs, ok) ds r \<Longrightarrow> readable stod10000 (lv # lvs, ok) (d # ds) r"
| readable_stop: "level_bad stod10000 lv \<Longrightarrow> readable stod10000 (lv # lvs, ok) [] False"

definition depth_tick :: "u64 \<times> u64 \<Rightarrow> bool \<Rightarrow> u64 \<times> u32 \<Rightarrow> NormalizedTick" where
  "depth_tick junk is_bid d = \<lparr> nt_instrument_id = 0, nt_price = fst d, nt_quantity = snd d, nt_is_bid = is_bid,
     nt_is_trade = False, nt_t1_exchange_send = fst junk, nt_t2_trading_recv = snd junk \<rparr>"

definition side_ticks :: "u64 \<times> u64 \<Rightarrow> bool \<Rightarrow> (u64 \<times> u32) list \<Rightarrow> NormalizedTick list" where
  "side_ticks junk is_bid ds = map (depth_tick junk is_bid) (filter (\<lambda>d. snd d > 0) ds)"

text \<open>What a message says: its bids, and its asks unless the bids ended in an exception.\<close>

definition frame_depth :: "(bytes \<Rightarrow> bytes \<Rightarrow> json_level list \<times> bool) \<Rightarrow> (bytes \<Rightarrow> double option) \<Rightarrow> bytes \<Rightarrow> (u64 \<times> u32) list \<times> (u64 \<times> u32) list \<Rightarrow> bool" where
  "frame_depth levels stod10000 msg d \<longleftrightarrow>
     (readable stod10000 (levels msg BIDS) (fst d) True \<and> (\<exists>r. readable stod10000 (levels msg ASKS) (snd d) r))
     \<or> (readable stod10000 (levels msg BIDS) (fst d) False \<and> snd d = [])"

definition depth_ticks :: "u64 \<times> u64 \<Rightarrow> (u64 \<times> u32) list \<times> (u64 \<times> u32) list \<Rightarrow> NormalizedTick list" where
  "depth_ticks junk d = side_ticks junk True (fst d) @ side_ticks junk False (snd d)"

lemma to_unsigned_floor:
  fixes w :: "'w::len word"
  assumes "real (unat w) \<le> x" "x < real (unat w) + 1"
  shows "to_unsigned (Finite x) = Some w"
proof -
  have "real_of_int (uint w) = real (unat w)" by (metis of_int_of_nat_eq uint_nat)
  then have "\<lfloor>x\<rfloor> = uint w" using assms by (intro floor_unique) simp_all
  moreover have "0 \<le> x" using assms(1) of_nat_0_le_iff [of "unat w", where 'a = real] by linarith
  ultimately show ?thesis using uint_lt2p [of w] by (simp add: to_unsigned_def trunc_real_def)
qed

lemma to_unsigned_defined: "0 \<le> x \<Longrightarrow> x < 2 ^ 64 \<Longrightarrow> \<exists>w. to_unsigned (Finite x) = Some (w :: u64)"
  by (simp add: to_unsigned_def trunc_real_def floor_less_iff)

lemma level_tick_is: "level_is stod10000 lv d \<Longrightarrow> level_tick stod10000 junk b lv = Level_tick (depth_tick junk b d)"
  by (auto simp: level_is_def level_tick_def depth_tick_def to_unsigned_floor)

lemma level_tick_bad: "level_bad stod10000 lv \<Longrightarrow> level_tick stod10000 junk b lv = Level_throws"
  using to_unsigned_defined unfolding level_bad_def level_tick_def by (fastforce split: option.splits)

lemma route_levels_readable:
  assumes "readable stod10000 l ds r" "run_ticks on_tick (side_ticks junk b ds) s = Some s1"
  shows "route_levels stod10000 junk on_tick b (fst l) (snd l) s = Some (r, s1)"
  using assms
proof (induction arbitrary: s rule: readable.induct)
  case (readable_level lv d lvs ok ds r)
  then show ?case
    by (auto simp: level_tick_is side_ticks_def depth_tick_def [of junk b d] split: Option.bind_splits if_splits)
qed (auto simp: side_ticks_def level_tick_bad)

lemma route_message_depth:
  assumes "frame_depth levels stod10000 msg d" "run_ticks on_tick (depth_ticks junk d) s = Some s1"
  shows "route_message levels stod10000 junk on_tick msg s = Some s1"
proof -
  obtain s0 where s0: "run_ticks on_tick (side_ticks junk True (fst d)) s = Some s0"
    "run_ticks on_tick (side_ticks junk False (snd d)) s0 = Some s1"
    using assms(2) by (auto simp: depth_ticks_def run_ticks_append split: Option.bind_splits)
  show ?thesis
    using assms(1) route_levels_readable [OF _ s0(1), of stod10000 "levels msg BIDS"]
      route_levels_readable [OF _ s0(2), of stod10000 "levels msg ASKS"] s0
    unfolding frame_depth_def route_message_def by (auto simp: case_prod_beta side_ticks_def)
qed

text \<open>Frames with their clock readings, handled by the loop once the callback is set.\<close>

definition ws_frames :: "(bytes \<times> u64 \<times> u64) list \<Rightarrow> ws_event list" where
  "ws_frames fs = map (\<lambda>(msg, t0, t1). Frame msg t0 t1) fs"

definition frame_latencies :: "(bytes \<times> u64 \<times> u64) list \<Rightarrow> u64 list" where
  "frame_latencies fs = map (\<lambda>(msg, t0, t1). t1 - t0) fs"

lemma ws_loop_frames:
  assumes "list_all2 (\<lambda>f d. frame_depth levels stod10000 (fst f) d) fs ds" "ps_tick_callback p"
    and "run_ticks on_tick (concat (map (depth_ticks junk) ds)) (ps_state p) = Some s1"
  shows "ws_loop levels stod10000 junk on_tick (ws_frames fs @ xs) p =
    ws_loop levels stod10000 junk on_tick xs (p\<lparr> ps_state := s1, ps_latencies_ns := ps_latencies_ns p @ frame_latencies fs \<rparr>)"
  using assms
proof (induction fs ds arbitrary: p rule: list_all2_induct)
  case Nil
  then show ?case by (cases p) (simp add: ws_frames_def frame_latencies_def)
next
  case (Cons f fs d ds)
  obtain s0 where s0: "run_ticks on_tick (depth_ticks junk d) (ps_state p) = Some s0"
    "run_ticks on_tick (concat (map (depth_ticks junk) ds)) s0 = Some s1"
    using Cons.prems(2) by (auto simp: run_ticks_append split: Option.bind_splits)
  obtain msg t0 t1 where f: "f = (msg, t0, t1)" by (cases f)
  have "route_message levels stod10000 junk on_tick msg (ps_state p) = Some s0"
    using route_message_depth [OF _ s0(1), of levels stod10000 msg] Cons.hyps(1) by (simp add: f)
  then show ?case
    using Cons.IH [of "p\<lparr> ps_state := s0, ps_latencies_ns := ps_latencies_ns p @ [t1 - t0] \<rparr>"] Cons.prems(1) s0(2)
    by (simp add: f ws_frames_def frame_latencies_def)
qed

lemma ws_loop_early:
  "\<not> ps_tick_callback p \<Longrightarrow> ws_loop levels stod10000 junk on_tick (ws_frames fs @ xs) p =
    ws_loop levels stod10000 junk on_tick xs (p\<lparr> ps_latencies_ns := ps_latencies_ns p @ frame_latencies fs \<rparr>)"
  by (induction fs arbitrary: p) (auto simp: ws_frames_def frame_latencies_def)

lemma percentiles_of_samples:
  assumes "\<forall>k \<in> {500, 900, 990, 999}. fr k (length xs) < length xs" "length xs \<le> 2 ^ 64"
  shows "\<exists>rep. latency_percentiles fr (sort xs) (length xs) = Some rep \<and> set rep \<subseteq> set xs"
proof -
  have n: "0 < length xs" using assms(1) by (metis gr_zeroI insertI1 not_less_zero)
  then have "last_index (length xs) = length xs - 1"
    using assms(2) by (cases "length xs") (auto simp: last_index_def)
  moreover have "sort xs ! i \<in> set xs" if "i < length xs" for i using that by (metis length_sort nth_mem set_sort)
  ultimately show ?thesis using assms(1) n by (simp add: latency_percentiles_def list_get_def)
qed

section \<open>Orders are filled at once\<close>

text \<open>The fill an action is booked as; cancels and identifiers outside the table book none.\<close>

definition paper_fills :: "NormalizedOrderAction list \<Rightarrow> (u16 \<times> bool \<times> u32 \<times> u32) list" where
  "paper_fills as = map (\<lambda>a. (na_instrument_id a, na_is_buy a, na_quantity a, ucast (na_price a)))
     (filter (\<lambda>a. \<not> na_is_cancel a \<and> unat (na_internal_order_id a) < MAX_LIVE_ORDERS) as)"

definition paper_request :: "(nat \<Rightarrow> bytes) \<Rightarrow> NormalizedOrderAction \<Rightarrow> http_request" where
  "paper_request fmt a = \<lparr> hr_delete = na_is_cancel a, hr_url = ORDER_URL,
     hr_payload = (if na_is_cancel a then cancel_payload a else order_payload fmt a) \<rparr>"

definition paper_action_ok :: "NormalizedOrderAction \<Rightarrow> bool" where
  "paper_action_ok a \<longleftrightarrow> unat (na_instrument_id a) < NUM_INSTRUMENTS \<and> uint (ucast (na_price a) :: u32) * uint (na_quantity a) < 2 ^ 63"

definition settled :: "(u16 \<times> bool \<times> u32 \<times> u32) list \<Rightarrow> ledger" where
  "settled fs = \<lparr> lg_open = Map.empty, lg_fills = fs \<rparr>"

lemma settled_send_report:
  "ledger_report (na_internal_order_id a) (na_quantity a) p (ledger_send a (settled fs)) = settled (fs @
     (if na_is_cancel a \<or> MAX_LIVE_ORDERS \<le> unat (na_internal_order_id a) then [] else [(na_instrument_id a, na_is_buy a, na_quantity a, p)]))"
  by (auto simp: settled_def ledger_send_def ledger_report_def)

lemma settled_rep_iff: "exec_rep (settled fs) e \<Longrightarrow> ee_in_flight e = 0 \<and> ee_orders_acked e = word_of_nat (length fs)"
  by (simp add: exec_rep_def settled_def)

lemma paper_execute_settled:
  assumes rep: "exec_rep (settled fs) e" "risk_rep (settled fs) r" and ok: "paper_action_ok a" and con: "pc_is_connected c"
  shows "\<exists>e1 r1. paper_execute fmt True a (e, r, c) = Some (e1, r1, c\<lparr> pc_requests := pc_requests c @ [paper_request fmt a] \<rparr>)
    \<and> exec_rep (settled (fs @ paper_fills [a])) e1 \<and> risk_rep (settled (fs @ paper_fills [a])) r1"
proof -
  obtain e0 where e0: "track_order a e = Some e0" "exec_rep (ledger_send a (settled fs)) e0"
    using track_order_rep [OF rep(1), of a] by (auto simp: settled_def)
  have risk: "risk_rep (ledger_send a (settled fs)) r" using rep(2) by (simp add: risk_rep_def ledger_send_def)
  have range: "open_in_range (ledger_send a (settled fs))"
    using ok by (auto simp: open_in_range_def ledger_send_def settled_def paper_action_ok_def)
  have fills: "fs @ paper_fills [a] = fs @ (if na_is_cancel a \<or> MAX_LIVE_ORDERS \<le> unat (na_internal_order_id a) then []
      else [(na_instrument_id a, na_is_buy a, na_quantity a, ucast (na_price a))])"
    by (simp add: paper_fills_def not_less)
  show ?thesis
  proof (cases "na_is_cancel a")
    case True
    then show ?thesis using e0 rep con
      by (auto simp: paper_execute_def paper_send_order_def paper_request_def fills ledger_send_def Let_def)
  next
    case False
    obtain e1 r1 where "on_execution_report (na_internal_order_id a) (na_quantity a) (ucast (na_price a)) (e0, r) = Some (e1, r1)"
      "exec_rep (settled (fs @ paper_fills [a])) e1" "risk_rep (settled (fs @ paper_fills [a])) r1"
      using report_rep [OF e0(2) risk range, of "ucast (na_price a)" "na_quantity a" "na_internal_order_id a"] ok
      unfolding settled_send_report fills by (auto simp: paper_action_ok_def)
    then show ?thesis using e0 con False by (auto simp: paper_execute_def paper_send_order_def paper_request_def Let_def)
  qed
qed

lemma paper_run_settled:
  assumes "exec_rep (settled fs) e" "risk_rep (settled fs) r" "\<forall>a \<in> set as. paper_action_ok a" "pc_is_connected c"
  shows "\<exists>e1 r1. paper_run fmt as (e, r, c) = Some (e1, r1, c\<lparr> pc_requests := pc_requests c @ map (paper_request fmt) as \<rparr>)
    \<and> exec_rep (settled (fs @ paper_fills as)) e1 \<and> risk_rep (settled (fs @ paper_fills as)) r1"
  using assms
proof (induction as arbitrary: fs e r c)
  case Nil
  then show ?case by (simp add: paper_fills_def)
next
  case (Cons a as)
  obtain e1 r1 where 1: "paper_execute fmt True a (e, r, c) = Some (e1, r1, c\<lparr> pc_requests := pc_requests c @ [paper_request fmt a] \<rparr>)"
    "exec_rep (settled (fs @ paper_fills [a])) e1" "risk_rep (settled (fs @ paper_fills [a])) r1"
    using paper_execute_settled [OF Cons.prems(1,2) _ Cons.prems(4), of a fmt] Cons.prems(3) by auto
  have "paper_fills (a # as) = paper_fills [a] @ paper_fills as" by (simp add: paper_fills_def)
  then show ?case
    using Cons.IH [OF 1(2,3), of "c\<lparr> pc_requests := pc_requests c @ [paper_request fmt a] \<rparr>"] Cons.prems(3,4) 1(1) by auto
qed

section \<open>Properties\<close>

text \<open>
  C38. Paper trading settles every order as it is sent. Starting from a fresh engine and risk
  manager with the venue connected, and as long as \<open>curl_easy_init\<close> returns a handle, any sequence of actions (identifiers may repeat) runs
  without undefined behaviour; one HTTP request is made per action, in order; every new order
  the table can hold is booked filled in full at its own price, truncated to 32 bits; afterwards
  no order is open, the in-flight counter is zero, the acknowledgement counter is the number of
  those orders, and positions and cash are their net sums.
\<close>
theorem paper_orders_settle:
  assumes "\<forall>a \<in> set as. paper_action_ok a" "pc_is_connected c"
  shows "\<exists>e r. paper_run fmt as (exec_init raw, risk_init, c) =
      Some (e, r, c\<lparr> pc_requests := pc_requests c @ map (paper_request fmt) as \<rparr>)
    \<and> in_flight e = 0 \<and> orders_acked e = word_of_nat (length (paper_fills as))
    \<and> (\<forall>i < MAX_LIVE_ORDERS. \<not> tr_is_active (ee_order_tracker e i))
    \<and> (\<forall>i < NUM_INSTRUMENTS. rm_positions r i = word_of_int (net_position i (paper_fills as)))
    \<and> rm_realized_pnl r = word_of_int (net_cash (paper_fills as))"
proof -
  have "ledger_init = settled []" by (simp add: ledger_init_def settled_def)
  then obtain e r where run: "paper_run fmt as (exec_init raw, risk_init, c) =
      Some (e, r, c\<lparr> pc_requests := pc_requests c @ map (paper_request fmt) as \<rparr>)"
    and rep: "exec_rep (settled (paper_fills as)) e" and risk: "risk_rep (settled (paper_fills as)) r"
    using paper_run_settled [of "[]", OF _ _ assms, of "exec_init raw" risk_init fmt] exec_init_rep by auto
  have "\<forall>i < MAX_LIVE_ORDERS. \<not> tr_is_active (ee_order_tracker e i)"
    using exec_repD(1) [OF rep] by (simp add: settled_def)
  then show ?thesis
    using run settled_rep_iff [OF rep] risk by (auto simp: in_flight_def orders_acked_def risk_rep_def settled_def)
qed

definition sample_paper_orders :: "NormalizedOrderAction list" where
  "sample_paper_orders = map (\<lambda>(i, p, q, b, x). \<lparr> na_internal_order_id = i, na_instrument_id = 0, na_price = p, na_quantity = q,
     na_is_buy = b, na_is_cancel = x, na_t1_exchange_send = 0, na_t2_trading_recv = 0, na_t3_trading_enq = 0 \<rparr>)
     [(1, 650000000, 100, True, False), (1, 650000000, 100, True, True), (1, 650010000, 40, False, False)]"

theorem paper_orders_settle_witness:
  "\<exists>e r c. paper_run (\<lambda>v. []) sample_paper_orders (exec_init (\<lambda>_. \<lparr> tr_instrument_id = 0, tr_is_buy = False, tr_remaining_qty = 0, tr_is_active = True \<rparr>),
      risk_init, \<lparr> pc_is_connected = True, pc_requests = [] \<rparr>) = Some (e, r, c)
    \<and> in_flight e = 0 \<and> orders_acked e = 2 \<and> rm_positions r 0 = 60 \<and> map hr_delete (pc_requests c) = [False, True, False]"
proof -
  have ok: "\<forall>a \<in> set sample_paper_orders. paper_action_ok a"
    by (simp add: sample_paper_orders_def paper_action_ok_def NUM_INSTRUMENTS_def unsigned_ucast_eq take_bit_eq_mod)
  have fills: "paper_fills sample_paper_orders = [(0, True, 100, ucast (650000000 :: u64)), (0, False, 40, ucast (650010000 :: u64))]"
    by (simp add: sample_paper_orders_def paper_fills_def MAX_LIVE_ORDERS_def)
  show ?thesis
    using paper_orders_settle [OF ok, of "\<lparr> pc_is_connected = True, pc_requests = [] \<rparr>" "\<lambda>v. []"
        "\<lambda>_. \<lparr> tr_instrument_id = 0, tr_is_buy = False, tr_remaining_qty = 0, tr_is_active = True \<rparr>"]
    unfolding fills by (auto simp: NUM_INSTRUMENTS_def signed_qty_def paper_request_def sample_paper_orders_def)
qed

text \<open>An order sent while the venue is not connected is entered in the table and never reported: it stays in flight.\<close>

lemma paper_order_lost:
  assumes "\<not> pc_is_connected c" "\<not> na_is_cancel a" "unat (na_internal_order_id a) < MAX_LIVE_ORDERS"
  shows "\<exists>e1. paper_execute fmt curl a (e, r, c) = Some (e1, r, c)
    \<and> tr_is_active (ee_order_tracker e1 (unat (na_internal_order_id a))) \<and> in_flight e1 = in_flight e + 1"
  using assms by (simp add: paper_execute_def paper_send_order_def track_order_def arr_set_in in_flight_def)

text \<open>Initialisation has no failure: it waits while the connection does not come up, and a shutdown ends it with success.\<close>

lemma paper_initialize_never_fails: "paper_initialize rs \<noteq> Some False"
  by (induction rs rule: paper_initialize.induct) auto

lemma paper_initialize_waits: "\<forall>x \<in> set rs. x = (False, True) \<Longrightarrow> paper_initialize rs = None"
  by (induction rs) auto

text \<open>
  C39. Depth updates reach the callback. With the connection up, every frame read after the
  callback is set gives its readable levels as ticks, bids before asks and in order, without the
  levels of quantity zero; a frame that cannot be read further is abandoned at that point without
  losing what was delivered or the frames after it; frames before the callback is set deliver
  nothing. At shutdown the thread prints percentiles that are measured latencies and, if the
  close succeeds, remains marked connected; a failed read instead marks the venue disconnected
  and prints nothing.
\<close>
theorem paper_stream_delivers:
  assumes up: "ws_open k"
    and depth: "list_all2 (\<lambda>f d. frame_depth levels stod10000 (fst f) d) fs ds"
    and run: "run_ticks on_tick (concat (map (depth_ticks junk) ds)) s = Some s1"
    and size: "0 < length (early @ fs)" "length (early @ fs) \<le> 2 ^ 64"
    and fr: "\<forall>n > 0. \<forall>k \<in> {500, 900, 990, 999}. fr k n < n"
  shows "(\<exists>rep. run_websocket_stream levels stod10000 fr junk k on_tick (ws_frames early @ Set_callback # ws_frames fs) (paper_stream_init s) =
      Some (Some rep, \<lparr> ps_is_connected = ws_close k, ps_tick_callback = True, ps_latencies_ns = frame_latencies (early @ fs), ps_state = s1 \<rparr>)
      \<and> set rep \<subseteq> set (frame_latencies (early @ fs)))
    \<and> run_websocket_stream levels stod10000 fr junk k on_tick (ws_frames early @ Set_callback # ws_frames fs @ Read_throws # xs) (paper_stream_init s) =
      Some (None, \<lparr> ps_is_connected = False, ps_tick_callback = True, ps_latencies_ns = frame_latencies (early @ fs), ps_state = s1 \<rparr>)"
proof -
  let ?lat = "frame_latencies (early @ fs)"
  have loop: "ws_loop levels stod10000 junk on_tick (ws_frames early @ Set_callback # ws_frames fs @ ys) ((paper_stream_init s)\<lparr> ps_is_connected := True \<rparr>) =
      ws_loop levels stod10000 junk on_tick ys
        \<lparr> ps_is_connected = True, ps_tick_callback = True, ps_latencies_ns = ?lat, ps_state = s1 \<rparr>" for ys
    using ws_loop_frames [OF depth, of "\<lparr> ps_is_connected = True, ps_tick_callback = True, ps_latencies_ns = frame_latencies early, ps_state = s \<rparr>"
        on_tick junk s1 ys] run
    by (simp add: ws_loop_early paper_stream_init_def frame_latencies_def)
  have len: "length ?lat = length (early @ fs)" by (simp add: frame_latencies_def)
  obtain rep where "latency_percentiles fr (sort ?lat) (length ?lat) = Some rep" "set rep \<subseteq> set ?lat"
    using percentiles_of_samples [of fr ?lat] fr size unfolding len by blast
  moreover have "?lat \<noteq> []" using size(1) len by (metis length_greater_0_conv)
  ultimately show ?thesis
    using up loop [of "[]"] loop [of "Read_throws # xs"] by (simp add: run_websocket_stream_def)
qed

text \<open>A sample stream: a frame before the callback is set, a good one, and one whose asks do not parse.\<close>

definition sample_levels :: "bytes \<Rightarrow> bytes \<Rightarrow> json_level list \<times> bool" where
  "sample_levels msg key =
     (if msg = [1] then (if key = BIDS then [(Some [65], Some [2]), (Some [64], Some [])] else [(Some [66], Some [3])], True)
      else (if key = BIDS then [(Some [63], Some [9])] else [(Some [67], None), (Some [68], Some [1])], True))"

definition sample_stod :: "bytes \<Rightarrow> double option" where
  "sample_stod s = Some (Finite (case s of [] \<Rightarrow> 1 / 2 | b # _ \<Rightarrow> real (unat b) * 10000 + 1 / 4))"

theorem paper_stream_delivers_witness:
  "run_websocket_stream sample_levels sample_stod (\<lambda>k n. n div 2) (7, 8)
      \<lparr> ws_resolve = True, ws_connect = True, ws_sni = True, ws_tls_handshake = True, ws_handshake = True, ws_close = True \<rparr>
      (\<lambda>t s. Some (s @ [(nt_price t, nt_quantity t, nt_is_bid t)]))
      (ws_frames [([1], 5, 6)] @ Set_callback # ws_frames [([1], 10, 13), ([2], 20, 22)] @ [Read_throws]) (paper_stream_init []) =
    Some (None, \<lparr> ps_is_connected = False, ps_tick_callback = True, ps_latencies_ns = [1, 3, 2],
      ps_state = [(650000, 20000, True), (660000, 30000, False), (630000, 90000, True)] \<rparr>)"
proof -
  have 1: "frame_depth sample_levels sample_stod [1] ([(650000, 20000), (640000, 0)], [(660000, 30000)])"
    unfolding frame_depth_def
    by (rule disjI1) (auto simp: sample_levels_def sample_stod_def BIDS_def ASKS_def level_is_def intro!: readable.intros exI [of _ True])
  have 2: "frame_depth sample_levels sample_stod [2] ([(630000, 90000)], [])"
    unfolding frame_depth_def
    by (rule disjI1) (auto simp: sample_levels_def sample_stod_def BIDS_def ASKS_def level_is_def level_bad_def intro!: readable.intros exI [of _ False])
  have "list_all2 (\<lambda>f d. frame_depth sample_levels sample_stod (fst f) d) [([1], 10, 13), ([2], 20, 22 :: u64)]
      [([(650000, 20000), (640000, 0)], [(660000, 30000)]), ([(630000, 90000)], [])]"
    using 1 2 by simp
  from paper_stream_delivers [OF _ this, where early = "[([1], 5, 6)]" and on_tick = "\<lambda>t s. Some (s @ [(nt_price t, nt_quantity t, nt_is_bid t)])"
      and s = "[]" and junk = "(7, 8)" and fr = "\<lambda>k n. n div 2" and xs = "[]"
      and ?s1.0 = "[(650000, 20000, True), (660000, 30000, False), (630000, 90000, True)]"
      and k = "\<lparr> ws_resolve = True, ws_connect = True, ws_sni = True, ws_tls_handshake = True, ws_handshake = True, ws_close = True \<rparr>"]
  show ?thesis
    by (simp add: ws_open_def depth_ticks_def side_ticks_def depth_tick_def frame_latencies_def)
qed

text \<open>A level whose quantity has gone to zero, or below a ten-thousandth, gives no tick: the callback never learns of its removal.\<close>

lemma removed_level_not_delivered:
  assumes "level_is stod10000 lv (p, 0)" "route_levels stod10000 junk on_tick b lvs ok s = Some res"
  shows "route_levels stod10000 junk on_tick b (lv # lvs) ok s = Some res"
  using assms level_tick_is [OF assms(1), of junk b] by (simp add: depth_tick_def)

end
