(* ===== verification/Firm_Start.thy ===== *)
theory Firm_Start
  imports Firm_Crypto Firm_Transmit Firm_Main Launch
begin

text \<open>
  Start of the firm: the construction and connection of the TCP clients (\<open>network/tcp_client.h\<close>),
  \<open>initialize\<close> of \<open>network/LocalExchangeConnector.h\<close> with the passes of its receive thread, and
  \<open>main\<close> (\<open>hft-trading-firm/src/main.cpp\<close>): the choice of the venue and of the strategy, the
  exit code, and the averages printed at the end.

  The answers of the kernel and the environment are arguments; \<open>strtof\<close> stands for the library
  function of that name, which reads a floating-point number.
\<close>

section \<open>TCP clients\<close>

text \<open>The outcome of \<open>socket\<close> and \<open>connect\<close>, and the later answers to \<open>send\<close>.\<close>

record client_setup =
  ck_socket :: bool
  ck_connect :: bool
  ck_answers :: "send_result list"

text \<open>The constructor throws when there is no socket.\<close>

definition new_client :: "client_setup \<Rightarrow> TCPClient option" where
  "new_client k = (if \<not> ck_socket k then None
     else Some \<lparr> tc_connected = False, tc_kernel = ck_answers k, tc_wire = [] \<rparr>)"

definition connect_to :: "client_setup \<Rightarrow> TCPClient \<Rightarrow> bool \<times> TCPClient" where
  "connect_to k c = (if \<not> ck_connect k then (False, c) else (True, c\<lparr> tc_connected := True \<rparr>))"

text \<open>\<open>poll\<close>: every event of \<open>epoll_wait\<close> on the client's own socket drains it. Besides the callbacks: whether the client is connected, and the kernel's further answers.\<close>

fun poll_events :: "bool \<Rightarrow> u64 \<Rightarrow> nat \<Rightarrow> nat list \<Rightarrow> bool \<Rightarrow> recv_result list \<Rightarrow> ((u64 \<times> u32 \<times> u32) list \<times> bool \<times> recv_result list) option" where
  "poll_events exec_callback token_base sock_fd [] con ks = Some ([], con, ks)"
| "poll_events exec_callback token_base sock_fd (fd # fds) con ks =
     (if fd = sock_fd then do {
        (cbs, alive, ks1) \<leftarrow> drain_socket exec_callback token_base ks;
        (cbs2, con2, ks2) \<leftarrow> poll_events exec_callback token_base sock_fd fds (con \<and> alive) ks1;
        Some (cbs @ cbs2, con2, ks2) }
      else poll_events exec_callback token_base sock_fd fds con ks)"

definition tcp_poll :: "bool \<Rightarrow> u64 \<Rightarrow> nat \<Rightarrow> nat list \<Rightarrow> recv_result list \<Rightarrow> TCPClient \<Rightarrow>
    ((u64 \<times> u32 \<times> u32) list \<times> TCPClient \<times> recv_result list) option" where
  "tcp_poll exec_callback token_base sock_fd fds ks c =
     (if \<not> tc_connected c then Some ([], c, ks)
      else do {
        (cbs, con, ks1) \<leftarrow> poll_events exec_callback token_base sock_fd fds True ks;
        Some (cbs, c\<lparr> tc_connected := con \<rparr>, ks1) })"

text \<open>One pass of the receive thread over the clients, each with its descriptor, its events and its answers to \<open>recv\<close>.\<close>

type_synonym rx_input = "nat \<times> nat list \<times> recv_result list"

fun rx_pass :: "bool \<Rightarrow> u64 \<Rightarrow> rx_input list \<Rightarrow> TCPClient list \<Rightarrow> ((u64 \<times> u32 \<times> u32) list \<times> TCPClient list) option" where
  "rx_pass exec_callback token_base xs [] = Some ([], [])"
| "rx_pass exec_callback token_base [] (c # cs) = None"
| "rx_pass exec_callback token_base ((sock_fd, fds, ks) # xs) (c # cs) =
     (if \<not> tc_connected c then do {
        (cbs, cs1) \<leftarrow> rx_pass exec_callback token_base xs cs;
        Some (cbs, c # cs1) }
      else do {
        (cbs, c1, ks1) \<leftarrow> tcp_poll exec_callback token_base sock_fd fds ks c;
        (cbs2, cs1) \<leftarrow> rx_pass exec_callback token_base xs cs;
        Some (cbs @ cbs2, c1 # cs1) })"

section \<open>Initialisation\<close>

text \<open>\<open>initialize\<close> returns true, returns false, or lets the exception of a client's constructor out.\<close>

datatype init_result = Initialized UDPListener LocalExchangeConnector | Init_false | Init_throws

fun connect_loop :: "(nat \<Rightarrow> client_setup) \<Rightarrow> nat list \<Rightarrow> UDPListener \<Rightarrow> LocalExchangeConnector \<Rightarrow> init_result" where
  "connect_loop k [] l c = Initialized l c"
| "connect_loop k (i # is) l c =
     (case new_client (k i) of
        None \<Rightarrow> Init_throws
      | Some client \<Rightarrow>
          (case connect_to (k i) client of (ok, client) \<Rightarrow>
             if \<not> ok then Init_false
             else connect_loop k is l (c\<lparr> lc_tcp_clients := lc_tcp_clients c @ [client] \<rparr>)))"

definition initialize :: "connector_env \<Rightarrow> udp_setup \<Rightarrow> (nat \<Rightarrow> client_setup) \<Rightarrow> LocalExchangeConnector \<Rightarrow> init_result" where
  "initialize env u k c =
     (case configure env c of (ok, c) \<Rightarrow>
        if \<not> ok then Init_false
        else (case open_listener u ''239.255.0.1'' 12345 of
                Inl e \<Rightarrow> Init_false
              | Inr l \<Rightarrow> connect_loop k [0 ..< lc_num_connections c] l c))"

section \<open>The environment of main\<close>

type_synonym environ = "string \<Rightarrow> bytes option"

text \<open>\<open>std::strtoul\<close> in base ten: no digits give zero, too large a number gives \<open>ULONG_MAX\<close>, a minus sign negates.\<close>

definition strtoul :: "bytes \<Rightarrow> u64" where
  "strtoul s =
     (let s1 = dropWhile is_space s;
          (neg, s2) = (case s1 of
             c # r \<Rightarrow> if c = ch CHR ''-'' then (True, r) else if c = ch CHR ''+'' then (False, r) else (False, s1)
           | [] \<Rightarrow> (False, s1));
          v = digits_nat (takeWhile is_digit s2) 0
      in if v \<ge> 2 ^ 64 then - 1 else if neg then - word_of_nat v else word_of_nat v)"

definition env_u32 :: "environ \<Rightarrow> string \<Rightarrow> u32 \<Rightarrow> u32" where
  "env_u32 getenv k d = (case getenv k of Some v \<Rightarrow> ucast (strtoul v) | None \<Rightarrow> d)"

definition env_f :: "(bytes \<Rightarrow> 'f) \<Rightarrow> environ \<Rightarrow> string \<Rightarrow> 'f \<Rightarrow> 'f" where
  "env_f strtof getenv k d = (case getenv k of Some v \<Rightarrow> strtof v | None \<Rightarrow> d)"

datatype 'f chosen = Chose_maker "'f MarketMaker" | Chose_taker "'f Taker"

text \<open>The default threshold \<open>0.6f\<close> is an argument.\<close>

definition choose_strategy :: "(bytes \<Rightarrow> 'f) \<Rightarrow> 'f \<Rightarrow> environ \<Rightarrow> 'f chosen" where
  "choose_strategy strtof dflt getenv =
     (if getenv ''STRATEGY'' = Some (map ch ''taker'')
      then Chose_taker (taker_init (env_f strtof getenv ''TAKER_THRESHOLD'' dflt) (env_u32 getenv ''TAKER_SIZE'' 100))
      else Chose_maker (maker_init (env_u32 getenv ''MM_SPREAD'' 2) (env_f strtof getenv ''MM_IMBALANCE'' dflt) (env_u32 getenv ''MM_SIZE'' 100)))"

definition firm_stats_path :: "environ \<Rightarrow> bytes" where
  "firm_stats_path getenv =
     (let firm_id = (case getenv ''FIRM_ID'' of Some f \<Rightarrow> f | None \<Rightarrow> map ch ''HFT1'');
          path = map ch ''/dev/shm/firm_stats_'' @ firm_id
      in case getenv ''FIRM_STATS_SHM_PATH'' of
           Some p \<Rightarrow> if p \<noteq> [] then p else path
         | None \<Rightarrow> path)"

section \<open>The main function\<close>

datatype venue = Local_venue | Crypto_venue

text \<open>The venue named by the first argument, if this build has it.\<close>

definition choose_venue :: "bool \<Rightarrow> bytes list \<Rightarrow> venue option" where
  "choose_venue with_crypto args =
     (let v = (case args of a # _ \<Rightarrow> a | [] \<Rightarrow> map ch ''local'')
      in if v = map ch ''local'' then Some Local_venue
         else if v = map ch ''crypto'' then (if with_crypto then Some Crypto_venue else None)
         else None)"

text \<open>What the call of \<open>initialize\<close> and the session after it came to: a failure, an exception, or a normal end.\<close>

datatype session_end = Init_failed | Session_throws | Session_over

text \<open>
  The exit code. The connector is made outside the \<open>try\<close> block: the exception of the client that
  every local connector contains ends the process (\<open>None\<close>). An exception inside the block is
  printed and the program still returns zero.
\<close>

definition main_exit :: "bool \<Rightarrow> bytes list \<Rightarrow> bool \<Rightarrow> session_end \<Rightarrow> nat option" where
  "main_exit with_crypto args member_socket s =
     (case choose_venue with_crypto args of
        None \<Rightarrow> Some 1
      | Some v \<Rightarrow>
          if v = Local_venue \<and> \<not> member_socket then None
          else (case s of Init_failed \<Rightarrow> Some 1 | Session_throws \<Rightarrow> Some 0 | Session_over \<Rightarrow> Some 0))"

text \<open>The cycle averages: book, signals, strategy, risk, execution and their total, per tick.\<close>

definition cycle_averages :: "('m, 's, 'c) firm \<Rightarrow> u64 list option" where
  "cycle_averages f =
     (if fm_ticks f > 0 then
        Some [fm_book_cycles f div fm_ticks f, fm_signal_cycles f div fm_ticks f, fm_strategy_cycles f div fm_ticks f,
              fm_risk_cycles f div fm_ticks f, fm_execution_cycles f div fm_ticks f,
              (fm_book_cycles f + fm_signal_cycles f + fm_strategy_cycles f + fm_risk_cycles f + fm_execution_cycles f) div fm_ticks f]
      else None)"

section \<open>The initialised connector\<close>

text \<open>Connecting the clients \<open>i, i + 1, ..\<close>: all of them come up, or the first that does not decides.\<close>

definition client_up :: "client_setup \<Rightarrow> bool" where
  "client_up k \<longleftrightarrow> ck_socket k \<and> ck_connect k"

definition fresh_client :: "client_setup \<Rightarrow> TCPClient" where
  "fresh_client k = \<lparr> tc_connected = True, tc_kernel = ck_answers k, tc_wire = [] \<rparr>"

lemma connect_loop_up:
  "\<forall>i \<in> set is. client_up (k i) \<Longrightarrow> connect_loop k is l c =
     Initialized l (c\<lparr> lc_tcp_clients := lc_tcp_clients c @ map (fresh_client \<circ> k) is \<rparr>)"
proof (induction "is" arbitrary: c)
  case (Cons i js)
  then show ?case by (simp add: new_client_def connect_to_def client_up_def fresh_client_def)
qed simp

lemma connect_loop_down:
  "\<forall>i \<in> set is. client_up (k i) \<Longrightarrow> \<not> client_up (k j) \<Longrightarrow>
   connect_loop k (is @ j # js) l c = (if ck_socket (k j) then Init_false else Init_throws)"
  by (induction "is" arbitrary: c) (auto simp: new_client_def connect_to_def client_up_def)

lemma first_down:
  fixes n :: nat
  assumes "\<not> (\<forall>i < n. client_up (k i))"
  obtains j where "j < n" "\<forall>i < j. client_up (k i)" "\<not> client_up (k j)"
proof -
  define j where "j = (LEAST i. i < n \<and> \<not> client_up (k i))"
  have j: "j < n \<and> \<not> client_up (k j)" unfolding j_def
    using LeastI_ex [of "\<lambda>i. i < n \<and> \<not> client_up (k i)"] assms by blast
  moreover have "client_up (k i)" if "i < j" for i
    using not_less_Least [of i "\<lambda>i. i < n \<and> \<not> client_up (k i)"] that j by (auto simp: j_def)
  ultimately show thesis using that by blast
qed

lemma upt_at: "j < n \<Longrightarrow> [0 ..< n] = [0 ..< j] @ j # [Suc j ..< n]"
  using upt_add_eq_append [of 0 j "n - j"] by (simp add: upt_conv_Cons)

lemma configure_shape:
  assumes "configure env (connector_init raw) = (ok, c)"
  shows "lc_order_queue c = spscq_init 1024 raw" "0 < lc_num_connections c" "length (lc_firm_id c) = 4" "lc_tcp_clients c = []"
  using assms by (auto simp: configure_def connector_init_def Let_def split: option.splits if_splits)

text \<open>What a successful initialisation leaves.\<close>

definition ready :: "udp_setup \<Rightarrow> (nat \<Rightarrow> client_setup) \<Rightarrow> UDPListener \<Rightarrow> LocalExchangeConnector \<Rightarrow> bool" where
  "ready u k l c \<longleftrightarrow> su_socket u \<and> su_bind u \<and> su_membership u \<and> ul_port l = 12345
     \<and> connector_ok c \<and> spscq_items (lc_order_queue c) = [] \<and> lc_token_base c + TOKEN_SLICE \<le> word_of_nat MAX_CLIENT_ORDERS
     \<and> lc_tcp_clients c = map (fresh_client \<circ> k) [0 ..< lc_num_connections c]
     \<and> list_all (client_up \<circ> k) [0 ..< lc_num_connections c]"

lemma open_listener_cases:
  obtains (up) l where "open_listener u ip port = Inr l" "su_socket u" "su_bind u" "su_membership u" "ul_port l = port"
    | (down) e where "open_listener u ip port = Inl e" "\<not> (su_socket u \<and> su_bind u \<and> su_membership u)"
  by (cases "su_socket u"; cases "su_bind u"; cases "su_membership u") (auto simp: open_listener_def that)

section \<open>Reports that arrive\<close>

text \<open>
  What the receive thread makes of one read, whatever it holds: the complete reports at its head,
  block by block up to the first that is not of type \<open>E\<close>. The rest of the read is dropped.
\<close>

definition report_blocks :: "bytes \<Rightarrow> bytes list" where
  "report_blocks bs = map (\<lambda>i. take sizeof_OuchExecutionReport (drop (i * sizeof_OuchExecutionReport) bs)) [0 ..< length bs div sizeof_OuchExecutionReport]"

definition head_reports :: "bytes \<Rightarrow> OuchExecutionReport list" where
  "head_reports bs = map dec_execution_report (takeWhile (\<lambda>b. hd b = ch CHR ''E'') (report_blocks bs))"

definition fill_of :: "u64 \<Rightarrow> OuchExecutionReport \<Rightarrow> (u64 \<times> u32 \<times> u32) list" where
  "fill_of base r = (case stoull (er_order_token r) of
     Some v \<Rightarrow> if base \<le> v then [(v - base, er_executed_shares r, er_execution_price r)] else []
   | None \<Rightarrow> [])"

definition numeric_tokens :: "bytes list \<Rightarrow> bool" where
  "numeric_tokens rs \<longleftrightarrow> (\<forall>bs \<in> set rs. \<forall>r \<in> set (head_reports bs). stoull (er_order_token r) \<noteq> None)"

definition read_fills :: "u64 \<Rightarrow> bytes list \<Rightarrow> (u64 \<times> u32 \<times> u32) list" where
  "read_fills base rs = concat (map (fill_of base) (concat (map head_reports rs)))"

text \<open>The reads of one pass on a socket, until it is empty.\<close>

definition rx_reads :: "nat \<Rightarrow> bytes list \<Rightarrow> rx_input" where
  "rx_reads sock_fd rs = (sock_fd, [sock_fd], map Received rs @ [Recv_empty])"

lemma report_blocks_rec:
  "report_blocks bs = (if sizeof_OuchExecutionReport \<le> length bs
     then take sizeof_OuchExecutionReport bs # report_blocks (drop sizeof_OuchExecutionReport bs) else [])"
proof (cases "sizeof_OuchExecutionReport \<le> length bs")
  case True
  let ?n = sizeof_OuchExecutionReport
  have "length bs div ?n = Suc ((length bs - ?n) div ?n)" using True by (simp add: le_div_geq sizeof_OuchExecutionReport_def)
  moreover have "map f [0 ..< Suc k] = f 0 # map (\<lambda>i. f (Suc i)) [0 ..< k]" for f :: "nat \<Rightarrow> bytes" and k
    by (simp add: map_upt_Suc del: upt_Suc)
  ultimately show ?thesis using True by (simp add: report_blocks_def del: upt_Suc) (simp add: add.commute)
qed (simp add: report_blocks_def sizeof_OuchExecutionReport_def)

lemma head_reports_rec:
  "head_reports bs = (case bs of [] \<Rightarrow> [] | c # _ \<Rightarrow> if c = ch CHR ''E'' \<and> sizeof_OuchExecutionReport \<le> length bs
     then dec_execution_report (take sizeof_OuchExecutionReport bs) # head_reports (drop sizeof_OuchExecutionReport bs) else [])"
  by (subst head_reports_def, subst report_blocks_rec) (auto simp: head_reports_def sizeof_OuchExecutionReport_def split: list.splits)

lemma rx_parse_head:
  "rx_parse True base bs = (if numeric_tokens [bs] then Some (read_fills base [bs]) else None)"
proof (induction "length bs" arbitrary: bs rule: less_induct)
  case less
  show ?case
  proof (cases "bs \<noteq> [] \<and> hd bs = ch CHR ''E'' \<and> sizeof_OuchExecutionReport \<le> length bs")
    case True
    define r where "r = dec_execution_report (take sizeof_OuchExecutionReport bs)"
    define rest where "rest = drop sizeof_OuchExecutionReport bs"
    have h: "head_reports bs = r # head_reports rest"
      using True by (subst head_reports_rec) (auto simp: r_def rest_def split: list.splits)
    have "length rest < length bs" using True by (simp add: rest_def sizeof_OuchExecutionReport_def)
    note IH = less [OF this]
    have "rx_parse True base bs = do { cb \<leftarrow> report_callback True base r; cbs \<leftarrow> rx_parse True base rest; Some (cb @ cbs) }"
      using True by (subst rx_parse.simps) (auto simp: r_def rest_def split: list.splits)
    then show ?thesis
      unfolding IH by (cases "stoull (er_order_token r)") (auto simp: numeric_tokens_def read_fills_def fill_of_def h report_callback_def)
  next
    case False
    then have "head_reports bs = []" by (subst head_reports_rec) (auto split: list.splits)
    moreover have "rx_parse True base bs = Some []" using False by (subst rx_parse.simps) (auto split: list.splits)
    ultimately show ?thesis by (simp add: numeric_tokens_def read_fills_def)
  qed
qed

lemma rx_parse_no_callback: "rx_parse False base bs = Some []"
  by (induction "length bs" arbitrary: bs rule: less_induct)
    (subst rx_parse.simps, auto simp: report_callback_def sizeof_OuchExecutionReport_def split: list.splits)

lemma drain_reads:
  "\<forall>bs \<in> set rs. bs \<noteq> [] \<Longrightarrow> drain_socket True base (map Received rs @ [Recv_empty]) =
     (if numeric_tokens rs then Some (read_fills base rs, True, []) else None)"
  "\<forall>bs \<in> set rs. bs \<noteq> [] \<Longrightarrow> drain_socket False base (map Received rs @ [Recv_empty]) = Some ([], True, [])"
  by (induction rs) (auto simp: rx_parse_head rx_parse_no_callback numeric_tokens_def read_fills_def)

lemma rx_pass_reads:
  assumes "length fds = length rss" "length rss = length cs" "list_all (list_all (\<lambda>bs. bs \<noteq> [])) rss" "list_all tc_connected cs"
  shows "rx_pass True base (map2 rx_reads fds rss) cs =
      (if numeric_tokens (concat rss) then Some (read_fills base (concat rss), cs) else None) \<and>
    rx_pass False base (map2 rx_reads fds rss) cs = Some ([], cs)"
  using assms
proof (induction fds rss cs rule: list_induct3)
  case (Cons fd fds rs rss c cs)
  have ne: "\<forall>bs \<in> set rs. bs \<noteq> []" using Cons.prems by (simp add: list_all_iff)
  have n: "numeric_tokens (rs @ concat rss) \<longleftrightarrow> numeric_tokens rs \<and> numeric_tokens (concat rss)"
    "read_fills base (rs @ concat rss) = read_fills base rs @ read_fills base (concat rss)"
    by (auto simp: numeric_tokens_def read_fills_def)
  show ?case using Cons.IH Cons.prems drain_reads [OF ne, of base] n by (simp add: rx_reads_def tcp_poll_def)
qed (simp_all add: numeric_tokens_def read_fills_def)

text \<open>Reads that hold whole reports, each with its token, and the fills the firm owns among them.\<close>

definition own_fills :: "u64 \<Rightarrow> (u64 \<times> OuchExecutionReport) list \<Rightarrow> (u64 \<times> u32 \<times> u32) list" where
  "own_fills base g = map (\<lambda>(v, r). (v - base, er_executed_shares r, er_execution_price r)) (filter (\<lambda>(v, r). base \<le> v) g)"

definition report_bytes :: "(u64 \<times> OuchExecutionReport) list \<Rightarrow> bytes" where
  "report_bytes g = concat (map (enc_execution_report \<circ> snd) g)"

lemma rx_parse_group:
  "list_all (\<lambda>(v, r). report_for v r) g \<Longrightarrow> rx_parse True base (report_bytes g) = Some (own_fills base g)"
proof (induction g)
  case (Cons x g)
  then show ?case using rx_parse_report [of "fst x" "snd x" base] by (auto simp: own_fills_def report_bytes_def split: prod.splits)
qed (simp add: rx_parse.simps own_fills_def report_bytes_def)

lemma whole_reads:
  "list_all (list_all (\<lambda>(v, r). report_for v r)) gs \<Longrightarrow>
   numeric_tokens (map report_bytes gs) \<and> read_fills base (map report_bytes gs) = own_fills base (concat gs)"
proof (induction gs)
  case (Cons g gs)
  have "numeric_tokens [report_bytes g]" "read_fills base [report_bytes g] = own_fills base g"
    using rx_parse_group [of g base] Cons.prems unfolding rx_parse_head by (simp_all split: if_splits)
  then show ?case using Cons by (simp add: numeric_tokens_def read_fills_def own_fills_def)
qed (simp add: numeric_tokens_def read_fills_def own_fills_def)

section \<open>Properties\<close>

text \<open>
  C35. A connector is handed to the firm only in working order. From a fresh connector,
  \<open>initialize\<close> returns true exactly when the token slice passes the check, the multicast socket
  opens and every TCP connection comes up; then the connector is well formed: its queue is
  empty and sound, its firm code has four characters, and it has as many connected clients, with
  nothing written, as configured connections, at least one. It returns false for a rejected
  slice, a failed multicast socket or a refused connection, and lets an exception out only where
  a socket could not be made.
\<close>
theorem initialize_well_formed:
  "case initialize env u k (connector_init raw) of
     Initialized l c \<Rightarrow> ready u k l c
   | Init_false \<Rightarrow> \<not> fst (configure env (connector_init raw)) \<or> \<not> (su_socket u \<and> su_bind u \<and> su_membership u)
       \<or> (\<exists>j < lc_num_connections (snd (configure env (connector_init raw))). ck_socket (k j) \<and> \<not> ck_connect (k j))
   | Init_throws \<Rightarrow> (\<exists>j < lc_num_connections (snd (configure env (connector_init raw))). \<not> ck_socket (k j))"
proof -
  obtain ok c where c: "configure env (connector_init raw) = (ok, c)" by (cases "configure env (connector_init raw)")
  note shape = configure_shape [OF c]
  have slice: "ok \<Longrightarrow> lc_token_base c + TOKEN_SLICE \<le> word_of_nat MAX_CLIENT_ORDERS"
    using c by (auto simp: configure_def Let_def not_less split: option.splits)
  have queue: "spscq_ok (lc_order_queue c)" "spscq_items (lc_order_queue c) = []"
    using spscq_init_ok [of 10 raw] shape(1) by simp_all
  show ?thesis
  proof (cases rule: open_listener_cases [of u "''239.255.0.1''" 12345])
    case (up l)
    show ?thesis
    proof (cases "\<forall>i < lc_num_connections c. client_up (k i)")
      case True
      then have "ok \<Longrightarrow> ready u k l (c\<lparr> lc_tcp_clients := map (fresh_client \<circ> k) [0 ..< lc_num_connections c] \<rparr>)"
        using up queue shape slice by (simp add: ready_def connector_ok_def list_all_iff)
      then show ?thesis using up True c shape(4) by (simp add: initialize_def connect_loop_up)
    next
      case False
      then obtain j where j: "j < lc_num_connections c" "\<forall>i < j. client_up (k i)" "\<not> client_up (k j)"
        by (rule first_down)
      then show ?thesis
        using up c connect_loop_down [of "[0 ..< j]" k j "[Suc j ..< lc_num_connections c]" l c]
        by (auto simp: initialize_def upt_at [OF j(1)] client_up_def)
    qed
  qed (use c in \<open>auto simp: initialize_def\<close>)
qed

text \<open>Three connections asked for; the third is refused, then it is up.\<close>

definition sample_env :: connector_env where
  "sample_env = \<lparr> env_TCP_MODE = None, env_GATEWAY_THREADS = Some 3, env_FIRM_ID = Some (map ch ''AB''), env_TOKEN_BASE = Some 3125000 \<rparr>"

definition sample_setup :: "bool \<Rightarrow> nat \<Rightarrow> client_setup" where
  "sample_setup up i = \<lparr> ck_socket = True, ck_connect = (i < 2 \<or> up), ck_answers = [Sent 81] \<rparr>"

theorem initialize_well_formed_witness:
  "initialize sample_env \<lparr> su_socket = True, su_bind = True, su_membership = True \<rparr> (sample_setup False) (connector_init (\<lambda>_. sample_action 0 0 True False)) = Init_false
   \<and> (\<exists>l c. initialize sample_env \<lparr> su_socket = True, su_bind = True, su_membership = True \<rparr> (sample_setup True)
        (connector_init (\<lambda>_. sample_action 0 0 True False)) = Initialized l c
      \<and> connector_ok c \<and> length (lc_tcp_clients c) = 3)"
proof -
  have cfg: "fst (configure sample_env (connector_init (\<lambda>_. sample_action 0 0 True False)))"
    "lc_num_connections (snd (configure sample_env (connector_init (\<lambda>_. sample_action 0 0 True False)))) = 3"
    by (simp_all add: configure_def connector_init_def sample_env_def Let_def TOKEN_SLICE_def MAX_CLIENT_ORDERS_def MAX_FIRMS_def)
  let ?u = "\<lparr> su_socket = True, su_bind = True, su_membership = True \<rparr>"
  have no: "initialize sample_env ?u (sample_setup False) (connector_init (\<lambda>_. sample_action 0 0 True False)) = Init_false"
    using cfg by (simp add: initialize_def split_beta open_listener_def new_client_def connect_to_def sample_setup_def upt_rec)
  obtain l c where yes: "initialize sample_env ?u (sample_setup True) (connector_init (\<lambda>_. sample_action 0 0 True False)) = Initialized l c"
    "lc_num_connections c = 3"
    using cfg by (simp add: initialize_def split_beta open_listener_def new_client_def connect_to_def sample_setup_def upt_rec)
  then show ?thesis
    using no initialize_well_formed [where env = sample_env and u = ?u and k = "sample_setup True" and raw = "\<lambda>_. sample_action 0 0 True False"]
    by (auto simp: ready_def)
qed

text \<open>
  C27. What the receive thread books, however the bytes of the exchange are cut into reads. One
  pass over the connected clients keeps them connected and handles every read by itself: the
  complete reports at the head of a read, up to the first block that is none, are called back
  once each, connection by connection and in order of arrival, with the token relative to the
  firm's base, where it is not below it; whatever follows in the read is dropped, so a report
  that a read cuts in two is not booked. A token that is no number ends the process by the
  exception of \<open>stoull\<close>; without a callback nothing is called. Reads that hold whole reports are
  called back completely. Handing the callbacks to the execution engine keeps engine and risk
  manager in step with the ledger that books exactly them.
\<close>
theorem receive_pass_books_fills:
  assumes arrive: "length fds = length rss" "length rss = length cs" "list_all (list_all (\<lambda>bs. bs \<noteq> [])) rss" "list_all tc_connected cs"
    and state: "exec_rep l e" "risk_rep l r" "open_in_range l"
    and fits: "list_all (\<lambda>(i, q, p). uint p * uint q < 2 ^ 63) (read_fills base (concat rss))"
  shows "rx_pass True base (map2 rx_reads fds rss) cs =
      (if numeric_tokens (concat rss) then Some (read_fills base (concat rss), cs) else None)
    \<and> rx_pass False base (map2 rx_reads fds rss) cs = Some ([], cs)
    \<and> (\<forall>gs. concat rss = map report_bytes gs \<and> list_all (list_all (\<lambda>(v, r). report_for v r)) gs \<longrightarrow>
        numeric_tokens (concat rss) \<and> read_fills base (concat rss) = own_fills base (concat gs))
    \<and> (\<exists>e1 r1. exec_run send (map (\<lambda>(i, q, p). Report i q p) (read_fills base (concat rss))) (e, r, c) = Some (e1, r1, c)
        \<and> exec_rep (fold (\<lambda>(i, q, p). ledger_report i q p) (read_fills base (concat rss)) l) e1
        \<and> risk_rep (fold (\<lambda>(i, q, p). ledger_report i q p) (read_fills base (concat rss)) l) r1)"
proof -
  have 1: "exec_events_ok l (map (\<lambda>(i, q, p). Report i q p) cbs)"
    if "list_all (\<lambda>(i, q, p). uint p * uint q < 2 ^ 63) cbs" for cbs l
    using that by (induction cbs arbitrary: l) auto
  have 2: "dispatched (map (\<lambda>(i, q, p). Report i q p) cbs) = []" for cbs by (induction cbs) auto
  have 3: "fold ledger_event (map (\<lambda>(i, q, p). Report i q p) cbs) l = fold (\<lambda>(i, q, p). ledger_report i q p) cbs l" for cbs l
    by (induction cbs arbitrary: l) auto
  have "\<exists>e1 r1. exec_run send (map (\<lambda>(i, q, p). Report i q p) (read_fills base (concat rss))) (e, r, c) = Some (e1, r1, c)
        \<and> exec_rep (fold (\<lambda>(i, q, p). ledger_report i q p) (read_fills base (concat rss)) l) e1
        \<and> risk_rep (fold (\<lambda>(i, q, p). ledger_report i q p) (read_fills base (concat rss)) l) r1"
    using exec_run_rep [OF state 1 [OF fits], of send c c] unfolding 3 by (auto simp: 2)
  then show ?thesis using rx_pass_reads [OF arrive, of base] whole_reads [of _ base] by simp
qed

definition idle_client :: TCPClient where
  "idle_client = \<lparr> tc_connected = True, tc_kernel = [], tc_wire = [] \<rparr>"

text \<open>An order for 900 shares is open; two reports in one read, of which one is the firm's, book a fill of 7 shares at 101.\<close>

theorem receive_pass_books_fills_witness:
  "\<exists>e e1 r1. track_order (sample_action 1 900 True False) (exec_init sample_slots) = Some e
     \<and> rx_pass True 3125000 (map2 rx_reads [7, 9] [[report_bytes [(3125001, sample_report 3125001), (4, sample_report 4)]], []])
       [idle_client, idle_client] = Some ([(1, 7, 101)], [idle_client, idle_client])
     \<and> exec_run (\<lambda>a c. Some c) [Report 1 7 101] (e, risk_init, ()) = Some (e1, r1, ())
     \<and> sint (rm_positions r1 (unat (na_instrument_id (sample_action 1 900 True False)))) = 7"
proof -
  let ?a = "sample_action 1 900 True False" and ?g = "[(3125001, sample_report 3125001), (4, sample_report 4)]"
  define l where "l = ledger_send ?a ledger_init"
  obtain e where e: "track_order ?a (exec_init sample_slots) = Some e" "exec_rep l e"
    using track_order_rep [OF exec_init_rep(1) [of sample_slots], of ?a] by (auto simp: l_def ledger_init_def)
  have i: "unat (na_instrument_id ?a) < NUM_INSTRUMENTS" by (simp add: sample_action_def NUM_INSTRUMENTS_def)
  have l: "risk_rep l risk_init" "open_in_range l"
    using exec_init_rep(2) ledger_send_frame(1) [of ?a ledger_init] ledger_send_range [OF exec_init_rep(3) i] by (simp_all add: l_def risk_rep_def)
  have g: "list_all (list_all (\<lambda>(v, r). report_for v r)) [?g]" by (simp add: report_for_def sample_report_def)
  have own: "own_fills 3125000 ?g = [(1, 7, 101)]" by (simp add: own_fills_def sample_report_def)
  have w: "numeric_tokens [report_bytes ?g]" "read_fills 3125000 [report_bytes ?g] = [(1, 7, 101)]"
    using whole_reads [OF g, of 3125000] own by simp_all
  have ne: "report_bytes ?g \<noteq> []" by (simp add: report_bytes_def enc_execution_report_def)
  have booked: "lg_fills (ledger_report 1 7 101 l) = [(na_instrument_id ?a, True, 7, 101)]"
    by (simp add: l_def ledger_report_def ledger_send_def ledger_init_def sample_action_def MAX_LIVE_ORDERS_def)
  obtain e1 r1 where r: "rx_pass True 3125000 (map2 rx_reads [7, 9] [[report_bytes ?g], []]) [idle_client, idle_client] =
      Some ([(1, 7, 101)], [idle_client, idle_client])"
    "exec_run (\<lambda>a c. Some c) [Report 1 7 101] (e, risk_init, ()) = Some (e1, r1, ())" "risk_rep (ledger_report 1 7 101 l) r1"
    using receive_pass_books_fills [where fds = "[7, 9]" and rss = "[[report_bytes ?g], []]" and cs = "[idle_client, idle_client]" and base = 3125000
        and send = "\<lambda>a c. Some c" and c = "()", OF _ _ _ _ e(2) l] w ne by (auto simp: idle_client_def)
  then have "rm_positions r1 (unat (na_instrument_id ?a)) = 7" using booked i by (simp add: risk_rep_def signed_qty_def)
  then show ?thesis using e(1) r by auto
qed

text \<open>
  Without variables in the environment the firm runs the market maker with its documented
  parameters; a size is read modulo \<open>2 ^ 32\<close>, so a negative one becomes a huge one.
\<close>

lemma default_strategy: "choose_strategy strtof d (\<lambda>_. None) = Chose_maker (maker_init 2 d 100)"
  by (simp add: choose_strategy_def env_u32_def env_f_def)

lemma strtoul_digits:
  assumes "s \<noteq> []" "\<forall>c \<in> set s. is_digit c" "digits_nat s 0 < 2 ^ 64"
  shows "strtoul s = word_of_nat (digits_nat s 0)"
proof -
  obtain c r where s: "s = c # r" using assms(1) by (cases s) auto
  have run: "takeWhile is_digit r = r" using assms(2) by (simp add: takeWhile_eq_all_conv s)
  show ?thesis using digit_not(1,3,4) [of c] assms(2,3) by (simp add: strtoul_def s Let_def run)
qed

lemma env_u32_wraps:
  "getenv k = Some s \<Longrightarrow> s \<noteq> [] \<Longrightarrow> \<forall>c \<in> set s. is_digit c \<Longrightarrow> digits_nat s 0 < 2 ^ 64 \<Longrightarrow>
   env_u32 getenv k d = word_of_nat (digits_nat s 0)"
  by (simp add: env_u32_def strtoul_digits unsigned_of_nat word_of_nat_eq_iff take_bit_take_bit)

lemma env_u32_negative: "getenv k = Some (map ch ''-1'') \<Longrightarrow> env_u32 getenv k d = - 1"
proof -
  assume "getenv k = Some (map ch ''-1'')"
  moreover have "(ucast (- 1 :: u64) :: u32) = - 1" by (rule bit_word_eqI) (simp add: bit_simps)
  ultimately show ?thesis by (simp add: env_u32_def strtoul_def is_space_def is_digit_def word_le_nat_alt)
qed

text \<open>The exit code: one for an unusable venue or a failed initialisation; an exception during the session is reported as success.\<close>

lemma main_exit_codes:
  "main_exit with_crypto args True Session_over = Some 0 \<Longrightarrow> main_exit with_crypto args True Init_failed = Some 1
    \<and> main_exit with_crypto args True Session_throws = Some 0"
  by (auto simp: main_exit_def split: option.splits)

lemma unknown_venue: "v \<noteq> map ch ''local'' \<Longrightarrow> v \<noteq> map ch ''crypto'' \<Longrightarrow> main_exit with_crypto (v # args) member_socket s = Some 1"
  by (simp add: main_exit_def choose_venue_def Let_def)

end
