(* ===== verification/Spec2Isabelle.thy ===== *)
theory Spec2Isabelle
  imports Ring_Concurrent Exchange Consumers Gateway_Egress Stats_Region Firm_Transmit Firm_Main Firm_Stats Tools_Main Exchange_Life Feed_Session Bench Firm_Start
begin

text \<open>
  A verification library of the High-Frequency-Trading-Ecosystem: the exchange
  (\<open>src/hft_engine\<close>), the trading firm (\<open>src/hft-trading-firm\<close>) and the C++ tools around them.

  \<^bold>\<open>The program and its parts.\<close> The exchange is one process. Gateway worker threads
  (\<open>gateway/tcp_server.h\<close>) read OUCH messages from TCP clients, check them
  (\<open>gateway/risk_engine.h\<close>), take an order slot from the pool of the instrument's shard
  (\<open>core/memory_pool.h\<close>), register the token (\<open>gateway/session_manager.h\<close>) and push a task into
  the queue between worker and shard (\<open>core/lock_free_queue.h\<close>). Four engine threads
  (\<open>matching/engine.cpp\<close>) poll these queues and run the order books (\<open>matching/orderbook.h\<close>),
  which emit ITCH reports, drop copies and acknowledgements into further queues. The publisher
  (\<open>market_data/publisher.h\<close>) multicasts the first, the order manager
  (\<open>auxiliary/order_manager.h\<close>) logs and counts the second, the workers write the third back to
  the clients. \<open>app/exchange.cpp\<close> builds all of this and samples statistics into a shared-memory
  region (\<open>core/stats_region.h\<close>). The firm is another process: multicast ticks update its books
  (\<open>data/book_builder.h\<close>), signals (\<open>signal/signal_engine.h\<close>) drive a strategy
  (\<open>strategy/market_maker.h\<close>, \<open>strategy/taker.h\<close>), the risk manager (\<open>risk/risk_manager.h\<close>) and
  the execution engine (\<open>execution/execution_engine.h\<close>) pass its actions to the connector
  (\<open>network/LocalExchangeConnector.h\<close>, \<open>network/tcp_client.h\<close>), and \<open>main.cpp\<close> joins them.

  \<^bold>\<open>Conventions.\<close> A struct or class is a \<open>record\<close> with the source's field names (prefixed where
  they clash), an enum a \<open>datatype\<close>, a function a definition of the same name. Integers that can
  wrap are words of their width; indices, sizes and slot numbers that the code keeps in range are
  \<open>nat\<close>. Pointers into the pool are slot numbers and the pool's memory is a map from slots to
  orders, so that aliasing is visible. A result \<open>None\<close> is undefined behaviour or no return at all:
  an access outside an array, a null pointer, \<open>ctz\<close> of zero, signed overflow, an uncaught
  exception, spinning on a full queue. Theorems about results state \<open>Some\<close>, so they include that
  none of this happens. The clock, random numbers, the kernel's answers to \<open>send\<close>, \<open>recv\<close> and
  \<open>epoll_wait\<close>, floating point arithmetic, the JSON and HTTP libraries of the paper venue and the
  sorted map of the firm's cold books are arguments; what is required of them stands in the
  theorems.

  \<^bold>\<open>Theories of the exchange.\<close>
  \<^item> \<open>Prelude\<close>: shared types, array access, lemmas on words, lists and maps.
  \<^item> \<open>Wire\<close> (\<open>protocol/messages.h\<close>): struct layouts, symbol and token codecs, round trips.
  \<^item> \<open>Ring_Queue\<close>, \<open>Ring_Concurrent\<close> (\<open>core/lock_free_queue.h\<close>, \<open>utils/spsc_queue.h\<close>): both
    rings as bounded queues behind a locale, and \<open>LockFreeQueue\<close> under interleaving: it is
    linearizable and free of data races.
  \<^item> \<open>Memory_Pool\<close>: slots are never handed out twice, and null only when the slice is full.
  \<^item> \<open>Session\<close>: packing and lookup of registrations, the pre-trade check.
  \<^item> \<open>Price_Bitmap\<close>, \<open>Limit_List\<close>, \<open>Order_Book\<close>: the two-level bitmaps and their searches, the
    intrusive lists, the operations of the book. \<open>Book_Spec\<close> is the reference, lists of orders
    per price level; \<open>Book_Refine\<close>, \<open>Book_Sweep\<close>, \<open>Book_Correct\<close> prove the refinement and
    \<open>Book_Props\<close> states what follows from it: price-time priority, conservation of
    quantity, no self trades, reports.
  \<^item> \<open>Engine\<close>: task handling, and that passes of the loop execute the queued requests in order.
  \<^item> \<open>Timer\<close>: the latency samples and their percentiles.
  \<^item> \<open>Gateway\<close>, \<open>Gateway_Framing\<close>, \<open>Gateway_Admit\<close>, \<open>Gateway_Egress\<close>: handlers, the framing
    loop over arbitrary segmentation, admission of orders and cancels, delivery of reports.
  \<^item> \<open>Exchange\<close>: workers, engines and consumers as one step relation, and the invariant of every
    reachable state.
  \<^item> \<open>Consumers\<close>: publisher and order manager.
  \<^item> \<open>Seqlock\<close>, \<open>Stats_Region\<close>: the sequence lock with an interleaved reader, store by store,
    behind the locale \<open>guarded_section\<close>, for cells every section stores and cells it may store; the region, its initialisation, the anchor refresh, the
    sampling loop.
  \<^item> \<open>Launch\<close>, \<open>Exchange_Life\<close>: core lists and realtime bookkeeping; the listeners, the threads and
    the barrier before \<open>READY\<close>, the last drain and the reports at shutdown.

  \<^bold>\<open>Theories of the firm and the tools.\<close>
  \<^item> \<open>Firm_Models\<close>, \<open>Firm_Book\<close>: ticks and actions; both kinds of book are exact and
    interchangeable.
  \<^item> \<open>Firm_Risk\<close>, \<open>Firm_Exec\<close>: the limits over whole histories, the kill switch, and the
    execution engine as a refinement of a ledger of open orders and fills.
  \<^item> \<open>Firm_Strategy\<close>: signals, the locale \<open>strategy\<close> with its two instances, their quotes.
  \<^item> \<open>Firm_Codec\<close>, \<open>Firm_Connector\<close>, \<open>Firm_Transmit\<close>: the firm's side of the wire, that
    queued actions reach the gateway's decoders, and the locale \<open>order_port\<close> with the connector,
    its bounded queue and the spin on a full one as instance.
  \<^item> \<open>Firm_Main\<close>: the pipeline of \<open>main.cpp\<close> over a session of ticks, reports and kill requests,
    for any strategy of the locale \<open>strategy\<close> over that connector: what makes a session
    undefined, and what holds of every other.
  \<^item> \<open>Firm_Stats\<close>: the firm's published sample, an instance of \<open>guarded_section\<close>.
  \<^item> \<open>Firm_Listener\<close> (\<open>network/udp_listener.h\<close>, \<open>start_market_data\<close>): the multicast receiver and
    the loop that turns datagrams into ticks.
  \<^item> \<open>Firm_Crypto\<close> (\<open>network/CryptoPaperConnector.h\<close>): the depth stream of the paper venue, and
    orders that are reported filled as they are sent.
  \<^item> \<open>Firm_Start\<close>: the TCP clients and \<open>initialize\<close>, the receive thread over all connections up to
    the ledger, for any segmentation of the stream, and \<open>main\<close>: venue, strategy, exit code, averages.
  \<^item> \<open>Market_Data\<close>: the feed from \<open>match_order\<close> to the firm's book builder: matching an order and
    applying its reports keeps the firm's books equal to the depth of the exchange's. Cancels are
    left out: the firm takes a published cancel for an add (\<open>Firm_Transmit\<close>).
  \<^item> \<open>Feed_Session\<close>: the same over whole runs: requests queued at an engine, its passes, the
    publisher's passes, the datagrams, the receive loop and the book builder in a row.
  \<^item> \<open>Tools_Replay\<close>, \<open>Tools_Replay_Main\<close>, \<open>Tools_Orders\<close>, \<open>Tools_Main\<close>: the replay program from its
    arguments to its exit code, the orders of the generators, the sample market maker, and the
    programs of the file generator, the crossing driver and the load tester: what they send is
    followed to the gateway's framing, and for the crossing driver into the book.
  \<^item> \<open>Bench_Model\<close>, \<open>Bench\<close> (\<open>tools/bench_orderbook.cpp\<close>): the benchmark's scenarios over the
    verified book: what a timed operation does, and that no scenario loses a report or a slot.

  \<^bold>\<open>Bounds and termination.\<close> Loops over data are structural or have a termination proof by a
  measure. The sweep of the matching loop is a \<open>partial_function\<close>, and the refinement theorems
  prove that it returns. The loops over the kernel's answers consume one answer per call; the
  delivery theorems ask for as many answers that accept a byte as there are bytes to send. An
  outer \<open>while (running)\<close> is modelled by its passes. Capacities are those of the source:
  500,000 slots per shard, 256 instruments, prices below 100,001, 50,000,000 tokens; histories
  are bounded only where a counter of the code could wrap, and the bound is in the theorem.

  \<^bold>\<open>Concurrency.\<close> Threads interleave at the granularity of single atomic accesses in
  \<open>Ring_Concurrent\<close> and \<open>Seqlock\<close>, and of whole handled messages and whole polls of a queue in
  \<open>Exchange\<close>; finer interleavings of a handler with another thread are not modelled. The interleaving is sequentially consistent; weak memory beyond the acquire and
  release pairs the source names is not modelled.

  \<^bold>\<open>Not modelled.\<close> Socket options, memory mapping and locking, the PID file, the text of the
  printed statistics (their values are modelled, but for the floating-point ratios) and the
  calibration of the time stamp counter: system calls and output without state of the program;
  whether a call succeeds is an input where the code looks at it. The pacing of the order
  generators, and the interleaving of the sample market maker's two threads, which share plain
  fields. The Python under \<open>monitoring\<close> is outside this library but
  for the read protocol of its statistics readers.

  \<^bold>\<open>Limits of the composition.\<close> Inside the firm a tick is one step: the receive thread is not
  interleaved with the loads and stores of the callback, except in the published sample, where
  each load sees its own state; in the theorem on a session the transmit thread moves when the
  queue is full. The theorem on the feed covers new orders; a published cancel is
  taken for an add by the firm, so its books do not follow a session with cancels.
\<close>

end
